(* ===== verification/Prelude.thy ===== *)
theory Prelude
  imports Main "HOL-Library.Monad_Syntax"
begin

text \<open>
  Shared vocabulary of the development: the result type of fallible Rust functions, the fragment
  of Rust's text library that the modelled code calls, and the generic lemmas on lists that the
  component theories use through their simplifier collections.

  Text. A Rust \<open>str\<close> is modelled as a list of characters, one list element per Rust \<open>char\<close>. The
  type \<^typ>\<open>char\<close> has 256 values, which are read as the code points U+0000 to U+00FF; the
  classification functions below agree with Rust's on those code points. Where the code measures
  a string in bytes, \<open>byte_len\<close> gives its UTF-8 length.
\<close>

section \<open>Results\<close>

text \<open>\<open>Result<T, E>\<close>: \<open>Inl\<close> is \<open>Err\<close>, \<open>Inr\<close> is \<open>Ok\<close>.\<close>

type_synonym ('a, 'e) result = "'e + 'a"

text \<open>The values of \<open>target_os\<close> that conditional compilation distinguishes.\<close>

datatype target_os = MacOS | Linux | FreeBSD | Windows | OtherOS

named_theorems text_simps \<open>evaluation of the text library on literals\<close>

text \<open>\<open>bind_result\<close> is the operator \<open>?\<close>: the first error is returned.\<close>

fun bind_result :: "('a, 'e) result \<Rightarrow> ('a \<Rightarrow> ('b, 'e) result) \<Rightarrow> ('b, 'e) result" where
  "bind_result (Inl e) f = Inl e"
| "bind_result (Inr x) f = f x"

text \<open>\<open>iter.map(f).collect::<Result<Vec<_>, _>>()\<close>: the first error, or all values in order.\<close>

fun collect_results :: "('a \<Rightarrow> ('b, 'e) result) \<Rightarrow> 'a list \<Rightarrow> ('b list, 'e) result" where
  "collect_results f [] = Inr []"
| "collect_results f (x # xs) =
     bind_result (f x) (\<lambda>y. bind_result (collect_results f xs) (\<lambda>ys. Inr (y # ys)))"

lemma bind_result_cong [fundef_cong]:
  "m = m' \<Longrightarrow> (\<And>x. m' = Inr x \<Longrightarrow> f x = f' x) \<Longrightarrow> bind_result m f = bind_result m' f'"
  by (cases m') auto

lemma bind_result_eq_Inr [simp]:
  "bind_result m f = Inr y \<longleftrightarrow> (\<exists>x. m = Inr x \<and> f x = Inr y)"
  by (cases m) auto

lemma bind_result_eq_Inl:
  "bind_result m f = Inl e \<longleftrightarrow> m = Inl e \<or> (\<exists>x. m = Inr x \<and> f x = Inl e)"
  by (cases m) auto

lemma collect_results_Inr_iff:
  "collect_results f xs = Inr ys \<longleftrightarrow> list_all2 (\<lambda>x y. f x = Inr y) xs ys"
  by (induction xs arbitrary: ys) (auto simp: list_all2_Cons1)

lemma collect_results_length:
  "collect_results f xs = Inr ys \<Longrightarrow> length ys = length xs"
  by (auto simp: collect_results_Inr_iff dest: list_all2_lengthD)

text \<open>
  A fallible computation with fuel: \<open>None\<close> is out of fuel, \<open>Some r\<close> is the result \<open>r\<close>.
\<close>

fun bind_run ::
  "('a, 'e) result option \<Rightarrow> ('a \<Rightarrow> ('b, 'e) result option) \<Rightarrow> ('b, 'e) result option" where
  "bind_run None f = None"
| "bind_run (Some (Inl e)) f = Some (Inl e)"
| "bind_run (Some (Inr x)) f = f x"

lemma bind_run_eq_Some_Inr [simp]:
  "bind_run m f = Some (Inr y) \<longleftrightarrow> (\<exists>x. m = Some (Inr x) \<and> f x = Some (Inr y))"
  by (cases "(m, f)" rule: bind_run.cases) auto

lemma bind_run_eq_None:
  "bind_run m f = None \<longleftrightarrow> m = None \<or> (\<exists>x. m = Some (Inr x) \<and> f x = None)"
  by (cases "(m, f)" rule: bind_run.cases) auto

lemma bind_run_mono:
  assumes "bind_run m f = Some r" and "\<And>r. m = Some r \<Longrightarrow> m' = Some r"
    and "\<And>x r. f x = Some r \<Longrightarrow> f' x = Some r"
  shows "bind_run m' f' = Some r"
  using assms by (cases "(m, f)" rule: bind_run.cases) auto

section \<open>Characters\<close>

definition code_point :: "char \<Rightarrow> nat" where
  "code_point c = of_char c"

definition is_ascii_uppercase :: "char \<Rightarrow> bool" where
  "is_ascii_uppercase c \<longleftrightarrow> 65 \<le> code_point c \<and> code_point c \<le> 90"

definition is_ascii_lowercase :: "char \<Rightarrow> bool" where
  "is_ascii_lowercase c \<longleftrightarrow> 97 \<le> code_point c \<and> code_point c \<le> 122"

definition ascii_lower :: "char \<Rightarrow> char" where
  "ascii_lower c = (if is_ascii_uppercase c then char_of (code_point c + 32) else c)"

definition ascii_upper :: "char \<Rightarrow> char" where
  "ascii_upper c = (if is_ascii_lowercase c then char_of (code_point c - 32) else c)"

definition make_ascii_lowercase :: "string \<Rightarrow> string" where
  "make_ascii_lowercase s = map ascii_lower s"

definition eq_ignore_ascii_case :: "string \<Rightarrow> string \<Rightarrow> bool" where
  "eq_ignore_ascii_case s t \<longleftrightarrow> make_ascii_lowercase s = make_ascii_lowercase t"

text \<open>\<open>char::is_whitespace\<close> and \<open>char::is_alphanumeric\<close> on U+0000 to U+00FF.\<close>

definition is_whitespace :: "char \<Rightarrow> bool" where
  "is_whitespace c \<longleftrightarrow>
     (let n = code_point c in 9 \<le> n \<and> n \<le> 13 \<or> n = 32 \<or> n = 133 \<or> n = 160)"

definition is_alphanumeric :: "char \<Rightarrow> bool" where
  "is_alphanumeric c \<longleftrightarrow>
     (let n = code_point c in
       48 \<le> n \<and> n \<le> 57 \<or> 65 \<le> n \<and> n \<le> 90 \<or> 97 \<le> n \<and> n \<le> 122 \<or>
       n \<in> {170, 178, 179, 181, 185, 186, 188, 189, 190} \<or>
       192 \<le> n \<and> n \<noteq> 215 \<and> n \<noteq> 247)"

definition byte_len :: "string \<Rightarrow> nat" where
  "byte_len s = sum_list (map (\<lambda>c. if code_point c < 128 then 1 else 2) s)"

lemmas char_defs = code_point_def is_ascii_uppercase_def is_ascii_lowercase_def ascii_lower_def
  ascii_upper_def make_ascii_lowercase_def eq_ignore_ascii_case_def is_whitespace_def
  is_alphanumeric_def byte_len_def

declare char_defs [text_simps]

lemma code_point_char_of [simp]: "n < 256 \<Longrightarrow> code_point (char_of n) = n"
  by (simp add: code_point_def)

lemma ascii_lower_idem [simp]: "ascii_lower (ascii_lower c) = ascii_lower c"
  by (auto simp: ascii_lower_def is_ascii_uppercase_def)

lemma ascii_lower_not_upper [simp]: "\<not> is_ascii_uppercase (ascii_lower c)"
  by (auto simp: ascii_lower_def is_ascii_uppercase_def)

lemma ascii_lower_eq_iff_code:
  "code_point d < 65 \<Longrightarrow> ascii_lower c = d \<longleftrightarrow> c = d"
  by (auto simp: ascii_lower_def is_ascii_uppercase_def)

lemma make_ascii_lowercase_idem [simp]:
  "make_ascii_lowercase (make_ascii_lowercase s) = make_ascii_lowercase s"
  by (simp add: make_ascii_lowercase_def)

section \<open>Strings\<close>

text \<open>\<open>str::split(d)\<close> for a separator character: always at least one component.\<close>

fun split_char :: "char \<Rightarrow> string \<Rightarrow> string list" where
  "split_char d [] = [[]]"
| "split_char d (c # cs) =
     (if c = d then [] # split_char d cs
      else (case split_char d cs of [] \<Rightarrow> [[c]] | w # ws \<Rightarrow> (c # w) # ws))"

text \<open>\<open>str::split_whitespace\<close>: the maximal runs of characters that are not white space.\<close>

fun split_ws_acc :: "string \<Rightarrow> string \<Rightarrow> string list" where
  "split_ws_acc w [] = (if w = [] then [] else [rev w])"
| "split_ws_acc w (c # cs) =
     (if is_whitespace c then (if w = [] then [] else [rev w]) @ split_ws_acc [] cs
      else split_ws_acc (c # w) cs)"

definition split_whitespace :: "string \<Rightarrow> string list" where
  "split_whitespace s = split_ws_acc [] s"

definition skip_ws :: "string \<Rightarrow> string" where
  "skip_ws s = dropWhile is_whitespace s"

fun strip_prefix :: "string \<Rightarrow> string \<Rightarrow> string option" where
  "strip_prefix [] s = Some s"
| "strip_prefix (p # ps) [] = None"
| "strip_prefix (p # ps) (c # cs) = (if p = c then strip_prefix ps cs else None)"

definition ends_with_char :: "string \<Rightarrow> char \<Rightarrow> bool" where
  "ends_with_char s c \<longleftrightarrow> s \<noteq> [] \<and> last s = c"

lemma split_char_nonempty [simp]: "split_char d s \<noteq> []"
  by (cases s) (auto split: list.splits)

lemma split_char_no_sep: "d \<notin> set w \<Longrightarrow> split_char d w = [w]"
  by (induction w) auto

lemma split_char_sep [simp]: "d \<notin> set w \<Longrightarrow> split_char d (w @ d # s) = w # split_char d s"
  by (induction w) auto

lemma split_char_pieces: "w \<in> set (split_char d s) \<Longrightarrow> d \<notin> set w"
proof (induction s arbitrary: w)
  case (Cons c cs)
  then show ?case by (cases "split_char d cs") (auto split: if_splits)
qed simp

lemma strip_prefix_Some_iff: "strip_prefix p s = Some r \<longleftrightarrow> s = p @ r"
  by (induction p s rule: strip_prefix.induct) auto

lemma skip_ws_length: "length (skip_ws s) \<le> length s"
  by (simp add: skip_ws_def length_dropWhile_le)

lemma skip_ws_idem [simp]: "skip_ws (skip_ws s) = skip_ws s"
  by (simp add: skip_ws_def)

lemma skip_ws_Cons: "skip_ws (c # s) = (if is_whitespace c then skip_ws s else c # s)"
  by (simp add: skip_ws_def)

lemma skip_ws_Nil [simp]: "skip_ws [] = []"
  by (simp add: skip_ws_def)

lemma split_ws_acc_nonempty:
  "w' \<in> set (split_ws_acc w s) \<Longrightarrow> w' \<noteq> []"
  by (induction w s rule: split_ws_acc.induct) (auto split: if_splits)

lemma split_whitespace_nonempty: "w \<in> set (split_whitespace s) \<Longrightarrow> w \<noteq> []"
  by (auto simp: split_whitespace_def dest: split_ws_acc_nonempty)


section \<open>Searching index ranges\<close>

text \<open>Loops of the form \<open>for i in 0..n { if P(i) { return ... } }\<close>, forwards and backwards.\<close>

lemma find_upt_Some_iff:
  "List.find P [0..<n] = Some i \<longleftrightarrow> i < n \<and> P i \<and> (\<forall>j < i. \<not> P j)"
  by (auto simp: find_Some_iff)

lemma find_upt_None_iff: "List.find P [0..<n] = None \<longleftrightarrow> (\<forall>i < n. \<not> P i)"
  by (auto simp: find_None_iff)

lemma find_rev_upt_Some_iff:
  "List.find P (rev [0..<n]) = Some i \<longleftrightarrow> i < n \<and> P i \<and> (\<forall>j < n. i < j \<longrightarrow> \<not> P j)"
proof (induction n)
  case (Suc n)
  then show ?case by (auto simp: less_Suc_eq)
qed simp

lemma find_rev_upt_None_iff: "List.find P (rev [0..<n]) = None \<longleftrightarrow> (\<forall>i < n. \<not> P i)"
  by (auto simp: find_None_iff)


section \<open>Indexing\<close>

text \<open>\<open>xs[i]\<close>, with \<open>None\<close> for the panic when \<open>i\<close> is out of range.\<close>

definition nth_opt :: "'a list \<Rightarrow> nat \<Rightarrow> 'a option" where
  "nth_opt xs i = (if i < length xs then Some (xs ! i) else None)"

lemma nth_opt_Some_iff: "nth_opt xs i = Some x \<longleftrightarrow> i < length xs \<and> x = xs ! i"
  by (auto simp: nth_opt_def)

lemma nth_opt_append_left [simp]: "i < length xs \<Longrightarrow> nth_opt (xs @ ys) i = nth_opt xs i"
  by (simp add: nth_opt_def nth_append)

text \<open>\<open>iter.enumerate()\<close> on a vector, indices first.\<close>

lemma set_enumerate_iff: "(i, x) \<in> set (List.enumerate 0 xs) \<longleftrightarrow> i < length xs \<and> x = xs ! i"
  by (force simp: in_set_enumerate_eq)

section \<open>Invariants of transition systems\<close>

text \<open>
  The components that are state machines give an initial predicate, a step relation and an
  invariant; what holds initially and is kept by every step holds in every reachable state.
\<close>

locale transition_invariant =
  fixes init :: "'s \<Rightarrow> bool" and step :: "'s \<Rightarrow> 's \<Rightarrow> bool" and inv :: "'s \<Rightarrow> bool"
  assumes inv_init: "init s \<Longrightarrow> inv s"
    and inv_step: "inv s \<Longrightarrow> step s s' \<Longrightarrow> inv s'"
begin

lemma inv_steps: "step\<^sup>*\<^sup>* s s' \<Longrightarrow> inv s \<Longrightarrow> inv s'"
  by (induction rule: rtranclp_induct) (auto intro: inv_step)

lemma inv_reachable: "init s \<Longrightarrow> step\<^sup>*\<^sup>* s s' \<Longrightarrow> inv s'"
  by (auto intro: inv_steps inv_init)

end

end
