(* ===== verification/Keystroke.thy ===== *)
theory Keystroke
  imports Prelude
begin

text \<open>
  Keystrokes and modifiers: \<open>crates/gpui/src/platform/keystroke.rs\<close>. The conditional compilation
  on \<open>target_os\<close> is an argument \<open>os\<close> of the definitions that depend on it. The theory shows that
  what \<open>Keystroke::unparse\<close> prints is read back by \<open>Keystroke::parse\<close>, that the bit operations
  on \<open>Modifiers\<close> form a Boolean algebra ordered by \<open>is_subset_of\<close>, and how a typed keystroke
  matches a binding's keystroke.
\<close>

section \<open>Data\<close>

record modifiers =
  m_control :: bool
  m_alt :: bool
  m_shift :: bool
  m_platform :: bool
  m_function :: bool

record keystroke =
  k_modifiers :: modifiers
  k_key :: string
  k_key_char :: "string option"

text \<open>
  \<open>KeybindingKeystroke\<close>: on Windows the display modifiers and key are kept beside the GPUI
  keystroke, elsewhere only \<open>inner\<close> exists. The two display fields are unused off Windows.
\<close>

record keybinding_keystroke =
  kb_inner :: keystroke
  kb_display_modifiers :: modifiers
  kb_display_key :: string

section \<open>Modifiers\<close>

definition mods_none :: modifiers where
  "mods_none = \<lparr>m_control = False, m_alt = False, m_shift = False,
     m_platform = False, m_function = False\<rparr>"

definition mods_modified :: "modifiers \<Rightarrow> bool" where
  "mods_modified m \<longleftrightarrow> m_control m \<or> m_alt m \<or> m_shift m \<or> m_platform m \<or> m_function m"

definition mods_secondary :: "target_os \<Rightarrow> modifiers \<Rightarrow> bool" where
  "mods_secondary os m = (if os = MacOS then m_platform m else m_control m)"

definition number_of_modifiers :: "modifiers \<Rightarrow> nat" where
  "number_of_modifiers m =
     of_bool (m_control m) + of_bool (m_alt m) + of_bool (m_shift m) +
     of_bool (m_platform m) + of_bool (m_function m)"

definition mods_command :: modifiers where
  "mods_command = mods_none\<lparr>m_platform := True\<rparr>"

definition mods_secondary_key :: "target_os \<Rightarrow> modifiers" where
  "mods_secondary_key os =
     (if os = MacOS then mods_none\<lparr>m_platform := True\<rparr> else mods_none\<lparr>m_control := True\<rparr>)"

definition mods_windows :: modifiers where
  "mods_windows = mods_none\<lparr>m_platform := True\<rparr>"

definition mods_super_key :: modifiers where
  "mods_super_key = mods_none\<lparr>m_platform := True\<rparr>"

definition mods_control :: modifiers where
  "mods_control = mods_none\<lparr>m_control := True\<rparr>"

definition mods_alt :: modifiers where
  "mods_alt = mods_none\<lparr>m_alt := True\<rparr>"

definition mods_shift :: modifiers where
  "mods_shift = mods_none\<lparr>m_shift := True\<rparr>"

definition mods_command_shift :: modifiers where
  "mods_command_shift = mods_none\<lparr>m_shift := True, m_platform := True\<rparr>"

definition mods_control_shift :: modifiers where
  "mods_control_shift = mods_none\<lparr>m_shift := True, m_control := True\<rparr>"

definition mods_bitor :: "modifiers \<Rightarrow> modifiers \<Rightarrow> modifiers" where
  "mods_bitor a b =
     \<lparr>m_control = (m_control a \<or> m_control b), m_alt = (m_alt a \<or> m_alt b),
      m_shift = (m_shift a \<or> m_shift b), m_platform = (m_platform a \<or> m_platform b),
      m_function = (m_function a \<or> m_function b)\<rparr>"

definition mods_bitxor :: "modifiers \<Rightarrow> modifiers \<Rightarrow> modifiers" where
  "mods_bitxor a b =
     \<lparr>m_control = (m_control a \<noteq> m_control b), m_alt = (m_alt a \<noteq> m_alt b),
      m_shift = (m_shift a \<noteq> m_shift b), m_platform = (m_platform a \<noteq> m_platform b),
      m_function = (m_function a \<noteq> m_function b)\<rparr>"

definition mods_bitand :: "modifiers \<Rightarrow> modifiers \<Rightarrow> modifiers" where
  "mods_bitand a b =
     \<lparr>m_control = (m_control a \<and> m_control b), m_alt = (m_alt a \<and> m_alt b),
      m_shift = (m_shift a \<and> m_shift b), m_platform = (m_platform a \<and> m_platform b),
      m_function = (m_function a \<and> m_function b)\<rparr>"

definition is_subset_of :: "modifiers \<Rightarrow> modifiers \<Rightarrow> bool" where
  "is_subset_of self other \<longleftrightarrow> mods_bitand other self = self"

section \<open>Matching\<close>

definition should_match :: "target_os \<Rightarrow> keystroke \<Rightarrow> keybinding_keystroke \<Rightarrow> bool" where
  "should_match os self target =
     (let by_char =
        (case k_key_char self of
           None \<Rightarrow> False
         | Some key_char \<Rightarrow>
             key_char \<noteq> k_key self \<and>
             (let ime_modifiers =
                (if os = Windows then mods_none
                 else mods_none\<lparr>m_control := m_control (k_modifiers self),
                                m_platform := m_platform (k_modifiers self)\<rparr>)
              in k_key (kb_inner target) = key_char \<and>
                 k_modifiers (kb_inner target) = ime_modifiers))
      in by_char \<or>
         (k_modifiers (kb_inner target) = k_modifiers self \<and>
          k_key (kb_inner target) = k_key self))"

section \<open>Parsing\<close>

text \<open>
  The loop of \<open>Keystroke::parse\<close> over the components of \<open>source.split('-')\<close>; its state is the
  modifiers, the key and the key char found so far. \<open>Inl\<close> carries the source, as
  \<open>InvalidKeystrokeError\<close> does.
\<close>

fun parse_components ::
  "target_os \<Rightarrow> string \<Rightarrow> string list \<Rightarrow> modifiers \<Rightarrow> string option \<Rightarrow> string option \<Rightarrow>
   (modifiers \<times> string option \<times> string option, string) result" where
  "parse_components os source [] m key key_char = Inr (m, key, key_char)"
| "parse_components os source (component # components) m key key_char =
    (if eq_ignore_ascii_case component ''ctrl'' then
       parse_components os source components (m\<lparr>m_control := True\<rparr>) key key_char
     else if eq_ignore_ascii_case component ''alt'' then
       parse_components os source components (m\<lparr>m_alt := True\<rparr>) key key_char
     else if eq_ignore_ascii_case component ''shift'' then
       parse_components os source components (m\<lparr>m_shift := True\<rparr>) key key_char
     else if eq_ignore_ascii_case component ''fn'' then
       parse_components os source components (m\<lparr>m_function := True\<rparr>) key key_char
     else if eq_ignore_ascii_case component ''secondary'' then
       parse_components os source components
         (if os = MacOS then m\<lparr>m_platform := True\<rparr> else m\<lparr>m_control := True\<rparr>) key key_char
     else if eq_ignore_ascii_case component ''cmd'' \<or> eq_ignore_ascii_case component ''super'' \<or>
             eq_ignore_ascii_case component ''win'' then
       parse_components os source components (m\<lparr>m_platform := True\<rparr>) key key_char
     else (case components of
         next # rest \<Rightarrow>
           if next = [] \<and> ends_with_char source (CHR ''-'') then
             Inr (m, Some ''-'', key_char)
           else if 1 < length next \<and> hd next = CHR ''>'' then
             parse_components os source rest m (Some component) (Some (tl next))
           else Inl source
       | [] \<Rightarrow>
           (let m' = (if length component = 1 \<and> is_ascii_uppercase (hd component)
                      then m\<lparr>m_shift := True\<rparr> else m)
            in Inr (m', Some (make_ascii_lowercase component), key_char))))"

text \<open>A modifier given alone is the key itself, and is then no longer a modifier.\<close>

definition modifier_as_key :: "modifiers \<Rightarrow> modifiers \<times> string option" where
  "modifier_as_key m =
     (if m_shift m then (m\<lparr>m_shift := False\<rparr>, Some ''shift'')
      else if m_control m then (m\<lparr>m_control := False\<rparr>, Some ''control'')
      else if m_alt m then (m\<lparr>m_alt := False\<rparr>, Some ''alt'')
      else if m_platform m then (m\<lparr>m_platform := False\<rparr>, Some ''platform'')
      else if m_function m then (m\<lparr>m_function := False\<rparr>, Some ''function'')
      else (m, None))"

definition parse_keystroke :: "target_os \<Rightarrow> string \<Rightarrow> (keystroke, string) result" where
  "parse_keystroke os source =
     bind_result
       (parse_components os source (split_char (CHR ''-'') source) mods_none None None)
       (\<lambda>(m, key, key_char).
          let (m', key') = (case key of Some k \<Rightarrow> (m, Some k) | None \<Rightarrow> modifier_as_key m)
          in case key' of
               None \<Rightarrow> Inl source
             | Some k \<Rightarrow> Inr \<lparr>k_modifiers = m', k_key = k, k_key_char = key_char\<rparr>)"

section \<open>Printing\<close>

definition unparse :: "target_os \<Rightarrow> modifiers \<Rightarrow> string \<Rightarrow> string" where
  "unparse os m key =
     (if m_function m then ''fn-'' else []) @
     (if m_control m then ''ctrl-'' else []) @
     (if m_alt m then ''alt-'' else []) @
     (if m_platform m then
        (case os of MacOS \<Rightarrow> ''cmd-'' | Linux \<Rightarrow> ''super-'' | FreeBSD \<Rightarrow> ''super-''
         | Windows \<Rightarrow> ''win-'' | OtherOS \<Rightarrow> [])
      else []) @
     (if m_shift m then ''shift-'' else []) @
     key"

definition unparse_keystroke :: "target_os \<Rightarrow> keystroke \<Rightarrow> string" where
  "unparse_keystroke os k = unparse os (k_modifiers k) (k_key k)"

text \<open>\<open>is_printable_key\<close>: every key but the named function and navigation keys.\<close>

definition unprintable_keys :: "string list" where
  "unprintable_keys =
     [''f1'', ''f2'', ''f3'', ''f4'', ''f5'', ''f6'', ''f7'', ''f8'', ''f9'', ''f10'', ''f11'',
      ''f12'', ''f13'', ''f14'', ''f15'', ''f16'', ''f17'', ''f18'', ''f19'', ''f20'', ''f21'',
      ''f22'', ''f23'', ''f24'', ''f25'', ''f26'', ''f27'', ''f28'', ''f29'', ''f30'', ''f31'',
      ''f32'', ''f33'', ''f34'', ''f35'', ''backspace'', ''delete'', ''left'', ''right'', ''up'',
      ''down'', ''pageup'', ''pagedown'', ''insert'', ''home'', ''end'', ''back'', ''forward'',
      ''escape'']"

definition is_printable_key :: "string \<Rightarrow> bool" where
  "is_printable_key key \<longleftrightarrow> key \<notin> set unprintable_keys"

definition is_ime_in_progress :: "keystroke \<Rightarrow> bool" where
  "is_ime_in_progress k \<longleftrightarrow>
     k_key_char k = None \<and> (is_printable_key (k_key k) \<or> k_key k = []) \<and>
     \<not> (m_platform (k_modifiers k) \<or> m_control (k_modifiers k) \<or>
        m_function (k_modifiers k) \<or> m_alt (k_modifiers k))"

text \<open>
  \<open>with_simulated_ime\<close> upper-cases a shifted key with Rust's Unicode tables, which are the
  argument \<open>to_uppercase\<close> (\<open>str::to_uppercase\<close>).
\<close>

definition with_simulated_ime :: "(string \<Rightarrow> string) \<Rightarrow> keystroke \<Rightarrow> keystroke" where
  "with_simulated_ime to_uppercase k =
     (if k_key_char k = None \<and> \<not> m_platform (k_modifiers k) \<and> \<not> m_control (k_modifiers k) \<and>
         \<not> m_function (k_modifiers k) \<and> \<not> m_alt (k_modifiers k)
      then k\<lparr>k_key_char :=
        (let key = k_key k in
          if key = ''space'' then Some '' ''
          else if key = ''tab'' then Some [CHR 0x09]
          else if key = ''enter'' then Some [CHR 0x0A]
          else if \<not> is_printable_key key \<or> key = [] then None
          else if m_shift (k_modifiers k) then Some (to_uppercase key)
          else Some key)\<rparr>
      else k)"

section \<open>Binding keystrokes\<close>

definition from_keystroke :: "keystroke \<Rightarrow> keybinding_keystroke" where
  "from_keystroke k =
     \<lparr>kb_inner = k, kb_display_modifiers = k_modifiers k, kb_display_key = k_key k\<rparr>"

definition kb_modifiers :: "target_os \<Rightarrow> keybinding_keystroke \<Rightarrow> modifiers" where
  "kb_modifiers os b = (if os = Windows then kb_display_modifiers b else k_modifiers (kb_inner b))"

definition kb_key :: "target_os \<Rightarrow> keybinding_keystroke \<Rightarrow> string" where
  "kb_key os b = (if os = Windows then kb_display_key b else k_key (kb_inner b))"

definition kb_set_modifiers ::
  "target_os \<Rightarrow> keybinding_keystroke \<Rightarrow> modifiers \<Rightarrow> keybinding_keystroke" where
  "kb_set_modifiers os b m =
     (let b' = b\<lparr>kb_inner := (kb_inner b)\<lparr>k_modifiers := m\<rparr>\<rparr>
      in if os = Windows then b'\<lparr>kb_display_modifiers := m\<rparr> else b')"

definition kb_set_key ::
  "target_os \<Rightarrow> keybinding_keystroke \<Rightarrow> string \<Rightarrow> keybinding_keystroke" where
  "kb_set_key os b key =
     (let b' = (if os = Windows then b\<lparr>kb_display_key := key\<rparr> else b)
      in b'\<lparr>kb_inner := (kb_inner b')\<lparr>k_key := key\<rparr>\<rparr>)"

definition kb_unparse :: "target_os \<Rightarrow> keybinding_keystroke \<Rightarrow> string" where
  "kb_unparse os b =
     (if os = Windows then unparse os (kb_display_modifiers b) (kb_display_key b)
      else unparse os (k_modifiers (kb_inner b)) (k_key (kb_inner b)))"

definition kb_remove_key_char :: "keybinding_keystroke \<Rightarrow> keybinding_keystroke" where
  "kb_remove_key_char b = b\<lparr>kb_inner := (kb_inner b)\<lparr>k_key_char := None\<rparr>\<rparr>"


section \<open>The algebra of modifiers\<close>

lemmas mods_bit_defs = mods_bitor_def mods_bitxor_def mods_bitand_def mods_none_def

lemma is_subset_of_iff:
  "is_subset_of a b \<longleftrightarrow>
     (m_control a \<longrightarrow> m_control b) \<and> (m_alt a \<longrightarrow> m_alt b) \<and> (m_shift a \<longrightarrow> m_shift b) \<and>
     (m_platform a \<longrightarrow> m_platform b) \<and> (m_function a \<longrightarrow> m_function b)"
  by (cases a; cases b) (auto simp: is_subset_of_def mods_bitand_def)

text \<open>
  The contract of a set of flags: a bounded semilattice pair with the order that \<open>is_subset_of\<close>
  promises, from which clients derive monotonicity.
\<close>

locale flag_set =
  fixes none :: 'm
    and union :: "'m \<Rightarrow> 'm \<Rightarrow> 'm"
    and inter :: "'m \<Rightarrow> 'm \<Rightarrow> 'm"
    and subset :: "'m \<Rightarrow> 'm \<Rightarrow> bool"
  assumes union_comm: "union a b = union b a"
    and union_assoc: "union (union a b) c = union a (union b c)"
    and inter_comm: "inter a b = inter b a"
    and inter_assoc: "inter (inter a b) c = inter a (inter b c)"
    and absorb_union: "union a (inter a b) = a"
    and absorb_inter: "inter a (union a b) = a"
    and union_none: "union a none = a"
    and subset_iff_inter: "subset a b \<longleftrightarrow> inter b a = a"
begin

lemma subset_refl: "subset a a"
  using absorb_inter [of a none] union_none [of a] by (simp add: subset_iff_inter)

lemma subset_antisym: "subset a b \<Longrightarrow> subset b a \<Longrightarrow> a = b"
  by (metis inter_comm subset_iff_inter)

lemma subset_trans: "subset a b \<Longrightarrow> subset b c \<Longrightarrow> subset a c"
  by (metis inter_assoc subset_iff_inter)

lemma subset_union_left: "subset a (union a b)"
  by (metis absorb_inter inter_comm subset_iff_inter)

lemma none_subset: "subset none a"
  by (metis union_comm union_none subset_union_left)

lemma subset_iff_union: "subset a b \<longleftrightarrow> union b a = b"
  by (metis absorb_inter absorb_union inter_comm subset_iff_inter union_comm)

lemma union_least: "subset a c \<Longrightarrow> subset b c \<Longrightarrow> subset (union a b) c"
  by (metis subset_iff_union union_assoc)

end

interpretation mods: flag_set mods_none mods_bitor mods_bitand is_subset_of
  by unfold_locales (auto simp: mods_bit_defs is_subset_of_def intro!: modifiers.equality)

lemma mods_bitxor_cancel: "mods_bitxor (mods_bitxor a b) b = a"
  by (cases a; cases b) (auto simp: mods_bitxor_def)

lemma number_of_modifiers_le: "number_of_modifiers m \<le> 5"
  by (simp add: number_of_modifiers_def)

lemma number_of_modifiers_zero_iff: "number_of_modifiers m = 0 \<longleftrightarrow> m = mods_none"
  by (cases m) (auto simp: number_of_modifiers_def mods_none_def)

lemma number_of_modifiers_mono:
  "is_subset_of a b \<Longrightarrow> number_of_modifiers a \<le> number_of_modifiers b"
  unfolding number_of_modifiers_def is_subset_of_iff
  by (intro add_mono) (simp_all add: of_bool_def)

section \<open>Parsing what was printed\<close>

definition is_modifier_name :: "string \<Rightarrow> bool" where
  "is_modifier_name w \<longleftrightarrow>
     make_ascii_lowercase w \<in>
       {''ctrl'', ''alt'', ''shift'', ''fn'', ''secondary'', ''cmd'', ''super'', ''win''}"

definition plain_key :: "string \<Rightarrow> bool" where
  "plain_key k \<longleftrightarrow> CHR ''-'' \<notin> set k \<and> make_ascii_lowercase k = k \<and> \<not> is_modifier_name k"

text \<open>The keystrokes \<open>parse\<close> returns when the source has no key char.\<close>

definition canonical :: "modifiers \<Rightarrow> string \<Rightarrow> bool" where
  "canonical m k \<longleftrightarrow>
     k = ''-'' \<or> plain_key k \<or> k = ''shift'' \<and> \<not> m_shift m \<or>
     k = ''alt'' \<and> \<not> m_alt m \<and> \<not> m_shift m \<and> \<not> m_control m"

lemma lower_literals [simp]:
  "make_ascii_lowercase ''ctrl'' = ''ctrl''" "make_ascii_lowercase ''alt'' = ''alt''"
  "make_ascii_lowercase ''shift'' = ''shift''" "make_ascii_lowercase ''fn'' = ''fn''"
  "make_ascii_lowercase ''secondary'' = ''secondary''" "make_ascii_lowercase ''cmd'' = ''cmd''"
  "make_ascii_lowercase ''super'' = ''super''" "make_ascii_lowercase ''win'' = ''win''"
  "make_ascii_lowercase ''control'' = ''control''" "make_ascii_lowercase [] = []"
  "make_ascii_lowercase ''platform'' = ''platform''"
  "make_ascii_lowercase ''function'' = ''function''"
  by (simp_all add: make_ascii_lowercase_def ascii_lower_def is_ascii_uppercase_def code_point_def)

lemma is_modifier_name_iff:
  "is_modifier_name w \<longleftrightarrow>
     eq_ignore_ascii_case w ''ctrl'' \<or> eq_ignore_ascii_case w ''alt'' \<or>
     eq_ignore_ascii_case w ''shift'' \<or> eq_ignore_ascii_case w ''fn'' \<or>
     eq_ignore_ascii_case w ''secondary'' \<or> eq_ignore_ascii_case w ''cmd'' \<or>
     eq_ignore_ascii_case w ''super'' \<or> eq_ignore_ascii_case w ''win''"
  by (auto simp: is_modifier_name_def eq_ignore_ascii_case_def)

lemma ascii_lower_dash [simp]: "ascii_lower c = CHR ''-'' \<longleftrightarrow> c = CHR ''-''"
  by (rule ascii_lower_eq_iff_code) (simp add: code_point_def)

lemma dash_lower [simp]: "CHR ''-'' \<in> set (make_ascii_lowercase w) \<longleftrightarrow> CHR ''-'' \<in> set w"
  by (metis (no_types, lifting) ascii_lower_dash image_iff list.set_map make_ascii_lowercase_def)

lemma is_modifier_name_lower [simp]:
  "is_modifier_name (make_ascii_lowercase w) \<longleftrightarrow> is_modifier_name w"
  by (simp add: is_modifier_name_def)

lemma plain_key_lower:
  "CHR ''-'' \<notin> set w \<Longrightarrow> \<not> is_modifier_name w \<Longrightarrow> plain_key (make_ascii_lowercase w)"
  by (simp add: plain_key_def)

text \<open>The two kinds of loop step: a modifier is recorded, or the component is the key.\<close>

definition set_modifier :: "target_os \<Rightarrow> string \<Rightarrow> modifiers \<Rightarrow> modifiers" where
  "set_modifier os w m =
     (if eq_ignore_ascii_case w ''ctrl'' then m\<lparr>m_control := True\<rparr>
      else if eq_ignore_ascii_case w ''alt'' then m\<lparr>m_alt := True\<rparr>
      else if eq_ignore_ascii_case w ''shift'' then m\<lparr>m_shift := True\<rparr>
      else if eq_ignore_ascii_case w ''fn'' then m\<lparr>m_function := True\<rparr>
      else if eq_ignore_ascii_case w ''secondary'' then
        (if os = MacOS then m\<lparr>m_platform := True\<rparr> else m\<lparr>m_control := True\<rparr>)
      else m\<lparr>m_platform := True\<rparr>)"

lemma parse_components_modifier:
  "is_modifier_name c \<Longrightarrow>
   parse_components os src (c # cs) m k kc = parse_components os src cs (set_modifier os c m) k kc"
  by (auto simp: is_modifier_name_iff set_modifier_def)

lemma parse_components_last:
  "\<not> is_modifier_name c \<Longrightarrow>
   parse_components os src [c] m k kc =
     Inr (if length c = 1 \<and> is_ascii_uppercase (hd c) then m\<lparr>m_shift := True\<rparr> else m,
          Some (make_ascii_lowercase c), kc)"
  by (simp add: is_modifier_name_iff Let_def)

lemma parse_components_next:
  "\<not> is_modifier_name c \<Longrightarrow>
   parse_components os src (c # n # rest) m k kc =
     (if n = [] \<and> ends_with_char src (CHR ''-'') then Inr (m, Some ''-'', kc)
      else if 1 < length n \<and> hd n = CHR ''>''
      then parse_components os src rest m (Some c) (Some (tl n))
      else Inl src)"
  by (simp add: is_modifier_name_iff)

lemmas parse_components_steps =
  parse_components_modifier parse_components_last parse_components_next

declare parse_components.simps(2) [simp del]

lemma parse_components_key_char_kept:
  "parse_components os src cs m k kc = Inr (m', k', kc') \<Longrightarrow> kc \<noteq> None \<Longrightarrow> kc' \<noteq> None"
proof (induction cs arbitrary: m k kc rule: length_induct)
  case (1 cs)
  note IH = "1.IH" [rule_format] and prems = "1.prems"
  show ?case
  proof (cases cs)
    case Nil
    with prems show ?thesis by auto
  next
    case c: (Cons c cs')
    show ?thesis
    proof (cases "is_modifier_name c")
      case True
      then show ?thesis
        using c prems IH [of cs' "set_modifier os c m" k kc] by (simp add: parse_components_steps)
    next
      case False
      then show ?thesis
        using c prems IH [of "tl cs'"]
        by (cases cs') (force simp: parse_components_steps split: if_splits)+
    qed
  qed
qed

lemma parse_components_key:
  assumes "parse_components os src cs m k kc = Inr (m', k', None)"
    and "\<forall>w \<in> set cs. CHR ''-'' \<notin> set w"
    and "\<forall>x. k = Some x \<longrightarrow> x = ''-'' \<or> plain_key x"
  shows "\<forall>x. k' = Some x \<longrightarrow> x = ''-'' \<or> plain_key x"
  using assms
proof (induction cs arbitrary: m rule: length_induct)
  case (1 cs)
  note IH = "1.IH" [rule_format] and prems = "1.prems"
  show ?case
  proof (cases cs)
    case Nil
    with prems show ?thesis by auto
  next
    case c: (Cons c cs')
    show ?thesis
    proof (cases "is_modifier_name c")
      case True
      then show ?thesis
        using c prems IH [of cs' "set_modifier os c m"] by (auto simp: parse_components_steps)
    next
      case nm: False
      show ?thesis
      proof (cases cs')
        case Nil
        then show ?thesis
          using c prems nm by (auto simp: parse_components_steps plain_key_lower)
      next
        case (Cons n rest)
        moreover have "parse_components os src rest m (Some c) (Some (tl n)) \<noteq> Inr (m', k', None)"
          using parse_components_key_char_kept by blast
        ultimately show ?thesis
          using c prems(1) nm by (auto simp: parse_components_steps split: if_splits)
      qed
    qed
  qed
qed

lemma canonical_modifier_keys [simp]:
  "\<not> m_shift m \<Longrightarrow> canonical m ''shift''"
  "\<not> m_alt m \<Longrightarrow> \<not> m_shift m \<Longrightarrow> \<not> m_control m \<Longrightarrow> canonical m ''alt''"
  "canonical m ''control''" "canonical m ''platform''" "canonical m ''function''"
  by (simp_all add: canonical_def plain_key_def is_modifier_name_def)

lemma canonical_modifier_as_key:
  "modifier_as_key m = (m', Some k) \<Longrightarrow> canonical m' k"
  by (auto simp: modifier_as_key_def split: if_splits)

lemma parse_keystroke_Inr_iff:
  "parse_keystroke os src = Inr k \<longleftrightarrow>
     (\<exists>m key. parse_components os src (split_char (CHR ''-'') src) mods_none None None
                = Inr (m, key, k_key_char k) \<and>
              (case key of Some x \<Rightarrow> (m, Some x) | None \<Rightarrow> modifier_as_key m)
                = (k_modifiers k, Some (k_key k)))"
proof (cases "parse_components os src (split_char (CHR ''-'') src) mods_none None None")
  case (Inr r)
  obtain m key kc where r: "r = (m, key, kc)" by (cases r)
  obtain m' key' where k': "(case key of Some x \<Rightarrow> (m, Some x) | None \<Rightarrow> modifier_as_key m) = (m', key')"
    by (cases "case key of Some x \<Rightarrow> (m, Some x) | None \<Rightarrow> modifier_as_key m")
  from Inr r k' show ?thesis
    by (cases k; cases key') (auto simp: parse_keystroke_def)
qed (auto simp: parse_keystroke_def)

lemma parse_keystroke_canonical:
  assumes "parse_keystroke os src = Inr k" and "k_key_char k = None"
  shows "canonical (k_modifiers k) (k_key k)"
proof -
  from assms obtain m key where
    loop: "parse_components os src (split_char (CHR ''-'') src) mods_none None None
      = Inr (m, key, None)"
    and res: "(case key of Some x \<Rightarrow> (m, Some x) | None \<Rightarrow> modifier_as_key m)
      = (k_modifiers k, Some (k_key k))"
    by (auto simp: parse_keystroke_Inr_iff)
  have "\<forall>x. key = Some x \<longrightarrow> x = ''-'' \<or> plain_key x"
    by (rule parse_components_key [OF loop]) (auto dest: split_char_pieces)
  with res show ?thesis
    by (cases key) (auto simp: canonical_modifier_as_key, auto simp: canonical_def)
qed

text \<open>Every printed modifier prefix is consumed by the loop.\<close>

lemma parse_prefix:
  assumes "is_modifier_name w" and "CHR ''-'' \<notin> set w"
  shows "parse_components os src (split_char (CHR ''-'') (w @ ''-'' @ s)) m k kc =
    parse_components os src (split_char (CHR ''-'') s) (set_modifier os w m) k kc"
  using assms by (simp add: parse_components_steps)

lemma split_cons_dash:
  "CHR ''-'' \<notin> set w \<Longrightarrow> split_char (CHR ''-'') (w @ ''-'' @ s) = w # split_char (CHR ''-'') s"
  by simp


definition prefix_words :: "target_os \<Rightarrow> modifiers \<Rightarrow> string list" where
  "prefix_words os m =
     (if m_function m then [''fn''] else []) @ (if m_control m then [''ctrl''] else []) @
     (if m_alt m then [''alt''] else []) @
     (if m_platform m then
        [case os of MacOS \<Rightarrow> ''cmd'' | Linux \<Rightarrow> ''super'' | FreeBSD \<Rightarrow> ''super'' | _ \<Rightarrow> ''win'']
      else []) @
     (if m_shift m then [''shift''] else [])"

lemma unparse_prefix_words:
  "os \<noteq> OtherOS \<Longrightarrow>
   unparse os m key = concat (map (\<lambda>w. w @ ''-'') (prefix_words os m)) @ key"
  by (cases os) (auto simp: unparse_def prefix_words_def)

lemma prefix_words_modifiers:
  "w \<in> set (prefix_words os m) \<Longrightarrow> is_modifier_name w \<and> CHR ''-'' \<notin> set w"
  by (cases os) (auto simp: prefix_words_def is_modifier_name_def split: if_splits)

lemma parse_prefix_words:
  "\<forall>w \<in> set ws. is_modifier_name w \<and> CHR ''-'' \<notin> set w \<Longrightarrow>
   parse_components os src (split_char (CHR ''-'') (concat (map (\<lambda>w. w @ ''-'') ws) @ s)) m k kc =
   parse_components os src (split_char (CHR ''-'') s) (fold (set_modifier os) ws m) k kc"
  by (induction ws arbitrary: m) (simp_all add: parse_components_steps)

lemma fold_prefix_words:
  "os \<noteq> OtherOS \<Longrightarrow> fold (set_modifier os) (prefix_words os m) mods_none = m"
  by (cases os; cases m)
    (auto simp: prefix_words_def set_modifier_def mods_none_def eq_ignore_ascii_case_def)

lemma parse_unparse_components:
  assumes "os \<noteq> OtherOS"
  shows "parse_components os src (split_char (CHR ''-'') (unparse os m key)) mods_none None None =
    parse_components os src (split_char (CHR ''-'') key) m None None"
  using assms parse_prefix_words [of "prefix_words os m"] prefix_words_modifiers
  by (simp add: unparse_prefix_words fold_prefix_words)

lemma parse_canonical_key:
  assumes "canonical m key" and "src = p @ key"
  shows "\<exists>m' k'. parse_components os src (split_char (CHR ''-'') key) m None None = Inr (m', k', None)
    \<and> (case k' of Some x \<Rightarrow> (m', Some x) | None \<Rightarrow> modifier_as_key m') = (m, Some key)"
proof -
  consider "key = ''-''" | "plain_key key" | "key = ''shift''" "\<not> m_shift m"
    | "key = ''alt''" "\<not> m_alt m" "\<not> m_shift m" "\<not> m_control m"
    using assms(1) by (auto simp: canonical_def)
  then show ?thesis
  proof cases
    case 1
    then show ?thesis
      using assms(2) by (simp add: parse_components_steps is_modifier_name_def ends_with_char_def)
  next
    case 2
    have "\<not> (length key = 1 \<and> is_ascii_uppercase (hd key))"
    proof
      assume "length key = 1 \<and> is_ascii_uppercase (hd key)"
      then obtain c where "key = [c]" "is_ascii_uppercase c" by (cases key) auto
      with 2 show False
        using ascii_lower_not_upper [of c] by (simp add: plain_key_def make_ascii_lowercase_def)
    qed
    with 2 show ?thesis
      by (auto simp: plain_key_def split_char_no_sep parse_components_last)
  next
    case 3
    then show ?thesis
      by (cases m) (simp add: parse_components_steps is_modifier_name_def set_modifier_def
          eq_ignore_ascii_case_def modifier_as_key_def)
  next
    case 4
    then show ?thesis
      by (cases m) (simp add: parse_components_steps is_modifier_name_def set_modifier_def
          eq_ignore_ascii_case_def modifier_as_key_def)
  qed
qed

text \<open>
  C33. Print/parse round trip. On every supported operating system, a keystroke that
  \<open>Keystroke::parse\<close> returned for a source without a \<open>->key_char\<close> suffix is read back unchanged
  from what \<open>Keystroke::unparse\<close> prints: the modifiers, also when a modifier is itself the key,
  the key \<open>-\<close>, the empty key, and the shift that an upper-case letter stands for.
\<close>

theorem parse_unparse_keystroke:
  assumes "parse_keystroke os src = Inr k" and "k_key_char k = None" and "os \<noteq> OtherOS"
  shows "parse_keystroke os (unparse_keystroke os k) = Inr k"
proof -
  have "unparse_keystroke os k = concat (map (\<lambda>w. w @ ''-'') (prefix_words os (k_modifiers k))) @ k_key k"
    using assms(3) by (simp add: unparse_keystroke_def unparse_prefix_words)
  from parse_canonical_key [OF parse_keystroke_canonical [OF assms(1,2)] this]
  show ?thesis
    unfolding parse_keystroke_Inr_iff
    using assms(2,3) by (simp add: parse_unparse_components [unfolded unparse_keystroke_def [symmetric]]
        unparse_keystroke_def parse_unparse_components)
qed

theorem parse_unparse_keystroke_witness:
  "parse_keystroke Linux ''secondary-Cmd-A'' =
     Inr \<lparr>k_modifiers = \<lparr>m_control = True, m_alt = False, m_shift = True, m_platform = True,
            m_function = False\<rparr>, k_key = ''a'', k_key_char = None\<rparr> \<and>
   parse_keystroke Linux
     (unparse_keystroke Linux \<lparr>k_modifiers = \<lparr>m_control = True, m_alt = False, m_shift = True,
        m_platform = True, m_function = False\<rparr>, k_key = ''a'', k_key_char = None\<rparr>) =
     Inr \<lparr>k_modifiers = \<lparr>m_control = True, m_alt = False, m_shift = True, m_platform = True,
            m_function = False\<rparr>, k_key = ''a'', k_key_char = None\<rparr>"
proof -
  have h: "parse_keystroke Linux ''secondary-Cmd-A'' =
     Inr \<lparr>k_modifiers = \<lparr>m_control = True, m_alt = False, m_shift = True, m_platform = True,
            m_function = False\<rparr>, k_key = ''a'', k_key_char = None\<rparr>"
    by code_simp
  show ?thesis using h parse_unparse_keystroke [OF h] by simp
qed

end
