(* ===== verification/Key_Context.thy ===== *)
theory Key_Context
  imports Prelude
begin

text \<open>
  Key contexts and context predicates: \<open>crates/gpui/src/keymap/context.rs\<close>. A \<open>KeyContext\<close> is
  the list of entries one element contributes; a context stack is a list of them, root first. The
  predicate language is evaluated against a stack and compared by \<open>is_superset\<close>; its parser and
  printer are in the theory that follows this one.
\<close>

section \<open>Key contexts\<close>

record context_entry =
  ce_key :: string
  ce_value :: "string option"

type_synonym key_context = "context_entry list"

definition is_identifier_char :: "char \<Rightarrow> bool" where
  "is_identifier_char c \<longleftrightarrow> is_alphanumeric c \<or> c = CHR ''_'' \<or> c = CHR ''-''"

definition is_vim_operator_char :: "char \<Rightarrow> bool" where
  "is_vim_operator_char c \<longleftrightarrow>
     c = CHR ''>'' \<or> c = CHR ''<'' \<or> c = CHR ''~'' \<or> c = CHR 0x22 \<or> c = CHR ''?''"

definition skip_whitespace :: "string \<Rightarrow> string" where
  "skip_whitespace source = skip_ws source"

definition kc_contains :: "key_context \<Rightarrow> string \<Rightarrow> bool" where
  "kc_contains ctx key \<longleftrightarrow> list_ex (\<lambda>entry. ce_key entry = key) ctx"

definition kc_get :: "key_context \<Rightarrow> string \<Rightarrow> string option" where
  "kc_get ctx key =
     (case find (\<lambda>entry. ce_key entry = key) ctx of None \<Rightarrow> None | Some entry \<Rightarrow> ce_value entry)"

definition kc_add :: "key_context \<Rightarrow> string \<Rightarrow> key_context" where
  "kc_add ctx key =
     (if \<not> kc_contains ctx key then ctx @ [\<lparr>ce_key = key, ce_value = None\<rparr>] else ctx)"

definition kc_set :: "key_context \<Rightarrow> string \<Rightarrow> string \<Rightarrow> key_context" where
  "kc_set ctx key value =
     (if \<not> kc_contains ctx key then ctx @ [\<lparr>ce_key = key, ce_value = Some value\<rparr>] else ctx)"

definition kc_new_with_defaults :: "target_os \<Rightarrow> key_context" where
  "kc_new_with_defaults os =
     kc_set [] ''os''
       (case os of MacOS \<Rightarrow> ''macos'' | Linux \<Rightarrow> ''linux'' | FreeBSD \<Rightarrow> ''linux''
        | Windows \<Rightarrow> ''windows'' | OtherOS \<Rightarrow> ''unknown'')"

fun kc_extend :: "key_context \<Rightarrow> key_context \<Rightarrow> key_context" where
  "kc_extend ctx [] = ctx"
| "kc_extend ctx (entry # other) =
     kc_extend (if \<not> kc_contains ctx (ce_key entry) then ctx @ [entry] else ctx) other"

definition kc_clear :: "key_context \<Rightarrow> key_context" where
  "kc_clear ctx = []"

definition kc_is_empty :: "key_context \<Rightarrow> bool" where
  "kc_is_empty ctx \<longleftrightarrow> ctx = []"

definition kc_primary :: "key_context \<Rightarrow> context_entry option" where
  "kc_primary ctx = find (\<lambda>p. ce_value p = None) ctx"

definition kc_secondary :: "key_context \<Rightarrow> context_entry list" where
  "kc_secondary ctx = (let primary = kc_primary ctx in filter (\<lambda>p. Some p \<noteq> primary) ctx)"

text \<open>
  \<open>KeyContext::parse_expr\<close> calls itself on the rest of the source. \<open>None\<close> is a call that never
  returns: a character that starts no identifier is not consumed.
\<close>

partial_function (option) kc_parse_expr :: "string \<Rightarrow> key_context \<Rightarrow> key_context option" where
  "kc_parse_expr source ctx =
     (if source = [] then Some ctx
      else
        let key = takeWhile is_identifier_char source;
            source1 = skip_whitespace (drop (length key) source)
        in case strip_prefix ''='' source1 of
             Some suffix \<Rightarrow>
               let source2 = skip_whitespace suffix;
                   value = takeWhile is_identifier_char source2;
                   source3 = skip_whitespace (drop (length value) source2)
               in kc_parse_expr source3 (kc_set ctx key value)
           | None \<Rightarrow> kc_parse_expr source1 (kc_add ctx key))"

definition kc_parse :: "string \<Rightarrow> key_context option" where
  "kc_parse source = kc_parse_expr (skip_whitespace source) []"

text \<open>\<open>impl Debug for KeyContext\<close>.\<close>

fun kc_debug_entry :: "context_entry \<Rightarrow> string" where
  "kc_debug_entry e = (case ce_value e of Some v \<Rightarrow> ce_key e @ ''='' @ v | None \<Rightarrow> ce_key e)"

fun kc_debug :: "key_context \<Rightarrow> string" where
  "kc_debug [] = []"
| "kc_debug [e] = kc_debug_entry e"
| "kc_debug (e # es) = kc_debug_entry e @ '' '' @ kc_debug es"

section \<open>Context predicates\<close>

datatype predicate =
    Identifier string
  | Equal string string
  | NotEqual string string
  | Descendant predicate predicate
  | NotP predicate
  | AndP predicate predicate
  | OrP predicate predicate

subsection \<open>Evaluation\<close>

text \<open>
  \<open>contexts\<close> is the slice up to the element in question, \<open>all_contexts\<close> the whole stack; an empty
  slice matches nothing.
\<close>

primrec eval_inner :: "predicate \<Rightarrow> key_context list \<Rightarrow> key_context list \<Rightarrow> bool" where
  "eval_inner (Identifier name) contexts all_contexts =
     (contexts \<noteq> [] \<and> kc_contains (last contexts) name)"
| "eval_inner (Equal left right) contexts all_contexts =
     (contexts \<noteq> [] \<and>
      (case kc_get (last contexts) left of Some value \<Rightarrow> value = right | None \<Rightarrow> False))"
| "eval_inner (NotEqual left right) contexts all_contexts =
     (contexts \<noteq> [] \<and>
      (case kc_get (last contexts) left of Some value \<Rightarrow> value \<noteq> right | None \<Rightarrow> True))"
| "eval_inner (NotP pred) contexts all_contexts =
     (contexts \<noteq> [] \<and>
      \<not> list_ex (\<lambda>i. eval_inner pred (take (Suc i) all_contexts) all_contexts)
          [0..<length all_contexts])"
| "eval_inner (Descendant parent child) contexts all_contexts =
     (contexts \<noteq> [] \<and>
      (case find (\<lambda>i. eval_inner parent (take (Suc i) contexts) all_contexts)
              [0..<length contexts - 1] of
         None \<Rightarrow> False
       | Some i \<Rightarrow> eval_inner child (drop (Suc i) contexts) (drop (Suc i) contexts)))"
| "eval_inner (AndP left right) contexts all_contexts =
     (contexts \<noteq> [] \<and>
      eval_inner left contexts all_contexts \<and> eval_inner right contexts all_contexts)"
| "eval_inner (OrP left right) contexts all_contexts =
     (contexts \<noteq> [] \<and>
      (eval_inner left contexts all_contexts \<or> eval_inner right contexts all_contexts))"

definition eval :: "predicate \<Rightarrow> key_context list \<Rightarrow> bool" where
  "eval p contexts = eval_inner p contexts contexts"

definition depth_of :: "predicate \<Rightarrow> key_context list \<Rightarrow> nat option" where
  "depth_of p contexts =
     find (\<lambda>depth. eval_inner p (take depth contexts) contexts) (rev [0..<Suc (length contexts)])"

fun is_superset :: "predicate \<Rightarrow> predicate \<Rightarrow> bool" where
  "is_superset self other =
     (if self = other then True
      else case self of
        OrP left right \<Rightarrow> is_superset left other \<or> is_superset right other
      | _ \<Rightarrow>
        (case other of
           Descendant _ child \<Rightarrow> is_superset self child
         | AndP left right \<Rightarrow> is_superset self left \<or> is_superset self right
         | _ \<Rightarrow> False))"

declare is_superset.simps [simp del]

section \<open>Key contexts keep one entry per key\<close>

lemma kc_contains_iff: "kc_contains ctx key \<longleftrightarrow> key \<in> ce_key ` set ctx"
  by (auto simp: kc_contains_def list_ex_iff)

definition kc_wf :: "key_context \<Rightarrow> bool" where
  "kc_wf ctx \<longleftrightarrow> distinct (map ce_key ctx)"

lemma kc_wf_Nil [simp]: "kc_wf []"
  by (simp add: kc_wf_def)

lemma kc_wf_push: "kc_wf ctx \<Longrightarrow> \<not> kc_contains ctx (ce_key e) \<Longrightarrow> kc_wf (ctx @ [e])"
  by (auto simp: kc_wf_def kc_contains_iff)

lemma kc_wf_add [simp]: "kc_wf ctx \<Longrightarrow> kc_wf (kc_add ctx key)"
  by (simp add: kc_add_def kc_wf_push)

lemma kc_wf_set [simp]: "kc_wf ctx \<Longrightarrow> kc_wf (kc_set ctx key value)"
  by (simp add: kc_set_def kc_wf_push)

lemma kc_wf_extend [simp]: "kc_wf ctx \<Longrightarrow> kc_wf (kc_extend ctx other)"
  by (induction ctx other rule: kc_extend.induct) (auto simp: kc_wf_push)

definition kc_lookup :: "key_context \<Rightarrow> string \<Rightarrow> string option option" where
  "kc_lookup ctx key = map_of (map (\<lambda>e. (ce_key e, ce_value e)) ctx) key"

lemma kc_lookup_Cons [simp]:
  "kc_lookup (e # ctx) key = (if key = ce_key e then Some (ce_value e) else kc_lookup ctx key)"
  by (simp add: kc_lookup_def)

lemma kc_lookup_Nil [simp]: "kc_lookup [] key = None"
  by (simp add: kc_lookup_def)

lemma kc_lookup_push:
  "kc_lookup (ctx @ [e]) key =
     (case kc_lookup ctx key of
        Some v \<Rightarrow> Some v | None \<Rightarrow> if key = ce_key e then Some (ce_value e) else None)"
  by (induction ctx) auto

lemma kc_lookup_None_iff: "kc_lookup ctx key = None \<longleftrightarrow> \<not> kc_contains ctx key"
  by (force simp: kc_lookup_def kc_contains_iff map_of_eq_None_iff)

lemma kc_get_lookup: "kc_get ctx key = Option.bind (kc_lookup ctx key) id"
  unfolding kc_get_def by (induction ctx) auto

lemma kc_lookup_extend:
  "kc_lookup (kc_extend ctx other) key =
     (case kc_lookup ctx key of Some v \<Rightarrow> Some v | None \<Rightarrow> kc_lookup other key)"
proof (induction ctx other rule: kc_extend.induct)
  case (2 ctx e other)
  then show ?case
    using kc_lookup_None_iff [of ctx "ce_key e"]
    by (auto simp: kc_lookup_push split: option.splits)
qed (simp split: option.splits)

text \<open>
  The contract the keymap relies on: entries are only ever added, and the first writer of a key
  wins. Every operation of \<open>KeyContext\<close> that writes is an instance.
\<close>

locale first_writer_wins =
  fixes lookup :: "'c \<Rightarrow> 'k \<Rightarrow> 'v option"
    and put :: "'c \<Rightarrow> 'k \<Rightarrow> 'v \<Rightarrow> 'c"
  assumes lookup_write:
    "lookup (put c k v) k' = (if k' = k \<and> lookup c k = None then Some v else lookup c k')"
begin

lemma write_keeps: "lookup c k' = Some v' \<Longrightarrow> lookup (put c k v) k' = Some v'"
  by (auto simp: lookup_write)

lemma write_twice: "lookup (put (put c k v) k w) k' = lookup (put c k v) k'"
  by (auto simp: lookup_write)

lemma writes_keep: "lookup c k' = Some v' \<Longrightarrow>
    lookup (fold (\<lambda>(k, v) c. put c k v) kvs c) k' = Some v'"
  by (induction kvs arbitrary: c) (auto simp: write_keeps)

lemma writes_commute:
  "k \<noteq> k2 \<Longrightarrow> lookup (put (put c k v) k2 w) x = lookup (put (put c k2 w) k v) x"
  by (auto simp: lookup_write)

end

definition kc_write :: "key_context \<Rightarrow> string \<Rightarrow> string option \<Rightarrow> key_context" where
  "kc_write ctx key v = (case v of None \<Rightarrow> kc_add ctx key | Some x \<Rightarrow> kc_set ctx key x)"

interpretation kc: first_writer_wins kc_lookup kc_write
proof
  fix c k v k'
  show "kc_lookup (kc_write c k v) k' =
      (if k' = k \<and> kc_lookup c k = None then Some v else kc_lookup c k')"
    using kc_lookup_None_iff [of c k]
    by (cases v) (auto simp: kc_write_def kc_add_def kc_set_def kc_lookup_push
        split: option.splits)
qed

section \<open>Parsing key contexts\<close>

definition kc_char :: "char \<Rightarrow> bool" where
  "kc_char c \<longleftrightarrow> is_identifier_char c \<or> is_whitespace c \<or> c = CHR ''=''"

lemma skip_whitespace_set: "set (skip_whitespace s) \<subseteq> set s"
  by (auto simp: skip_whitespace_def skip_ws_def dest: set_dropWhileD)

lemma skip_whitespace_length: "length (skip_whitespace s) \<le> length s"
  by (simp add: skip_whitespace_def skip_ws_length)

lemma dropWhile_takeWhile_length: "drop (length (takeWhile P s)) s = dropWhile P s"
  by (simp add: dropWhile_eq_drop)


lemma skip_whitespace_absorb: "set s \<subseteq> set (skip_whitespace s) \<union> {c. is_whitespace c}"
  unfolding skip_whitespace_def skip_ws_def
  by (metis UnCI mem_Collect_eq set_takeWhileD subsetI takeWhile_dropWhile_id set_append Un_iff)

lemma identifier_not_whitespace: "is_identifier_char c \<Longrightarrow> \<not> is_whitespace c"
  by (auto simp: is_identifier_char_def is_alphanumeric_def is_whitespace_def Let_def code_point_def)

lemma identifier_not_equals: "is_identifier_char c \<Longrightarrow> c \<noteq> CHR ''=''"
  by (auto simp: is_identifier_char_def is_alphanumeric_def code_point_def)

lemma skip_whitespace_identifier [simp]:
  "is_identifier_char c \<Longrightarrow> skip_whitespace (c # s) = c # s"
  by (simp add: skip_whitespace_def skip_ws_Cons identifier_not_whitespace)

lemma skip_whitespace_idem [simp]: "skip_whitespace (skip_whitespace s) = skip_whitespace s"
  by (simp add: skip_whitespace_def)

lemma skip_whitespace_Nil [simp]: "skip_whitespace [] = []"
  by (simp add: skip_whitespace_def)

text \<open>One unfolding of \<open>kc_parse_expr\<close> on a source that is not empty.\<close>

lemma kc_parse_expr_step:
  assumes "s \<noteq> []"
  shows "kc_parse_expr s ctx =
    (let s1 = skip_whitespace (dropWhile is_identifier_char s)
     in case s1 of
          [] \<Rightarrow> kc_parse_expr s1 (kc_add ctx (takeWhile is_identifier_char s))
        | c # suffix \<Rightarrow>
            if c = CHR ''='' then
              kc_parse_expr (skip_whitespace (dropWhile is_identifier_char (skip_whitespace suffix)))
                (kc_set ctx (takeWhile is_identifier_char s)
                  (takeWhile is_identifier_char (skip_whitespace suffix)))
            else kc_parse_expr s1 (kc_add ctx (takeWhile is_identifier_char s)))"
  using assms
  by (subst kc_parse_expr.simps) (simp add: Let_def dropWhile_takeWhile_length split: list.split)

lemma kc_parse_expr_Nil [simp]: "kc_parse_expr [] ctx = Some ctx"
  by (subst kc_parse_expr.simps) simp

lemma skip_dropWhile_length:
  "length (skip_whitespace (dropWhile P s)) \<le> length s"
  using skip_whitespace_length [of "dropWhile P s"] length_dropWhile_le [of P s] by linarith

lemma skip_dropWhile_set: "set (skip_whitespace (dropWhile P s)) \<subseteq> set s"
  by (auto dest!: subsetD [OF skip_whitespace_set] dest: set_dropWhileD)

lemma kc_parse_expr_returns:
  assumes "\<forall>c \<in> set s. kc_char c" and "skip_whitespace s = s"
  shows "\<exists>r. kc_parse_expr s ctx = Some r"
  using assms
proof (induction s arbitrary: ctx rule: length_induct)
  case (1 s)
  note IH = "1.IH" [rule_format]
  show ?case
  proof (cases s)
    case (Cons h t)
    have h: "is_identifier_char h \<or> h = CHR ''=''"
      using "1.prems" Cons
      by (auto simp: kc_char_def skip_whitespace_def skip_ws_Cons)
        (metis Cons impossible_Cons skip_ws_length)
    define s1 where "s1 = skip_whitespace (dropWhile is_identifier_char s)"
    have s1_sub: "set s1 \<subseteq> set s"
      unfolding s1_def by (rule skip_dropWhile_set)
    have s1_less: "length s1 < length s" if "is_identifier_char h"
      using that Cons skip_dropWhile_length [of is_identifier_char t] by (simp add: s1_def less_Suc_eq_le)
    have s1_eq: "s1 = s" if "h = CHR ''=''"
      using that Cons "1.prems"(2) identifier_not_equals by (auto simp: s1_def)
    have rec1: "\<exists>r. kc_parse_expr s1 ctx' = Some r" if "length s1 < length s" for ctx'
      by (rule IH [OF that]) (use "1.prems" s1_sub s1_def in auto)
    have rec3: "\<exists>r. kc_parse_expr (skip_whitespace
        (dropWhile is_identifier_char (skip_whitespace suffix))) ctx' = Some r"
      if "s1 = c # suffix" for c suffix ctx'
    proof (rule IH)
      have "length s1 \<le> length s"
        using skip_dropWhile_length unfolding s1_def by blast
      with that show "length (skip_whitespace (dropWhile is_identifier_char
          (skip_whitespace suffix))) < length s"
        using skip_dropWhile_length [of is_identifier_char "skip_whitespace suffix"]
          skip_whitespace_length [of suffix] by simp
      show "kc_char c" if "c \<in> set (skip_whitespace
          (dropWhile is_identifier_char (skip_whitespace suffix)))" for c
        using that \<open>s1 = _ # suffix\<close> "1.prems"(1) s1_sub that skip_dropWhile_set [of is_identifier_char "skip_whitespace suffix"]
          skip_whitespace_set [of suffix] by auto
    qed simp
    have ne: "s \<noteq> []" using Cons by simp
    show ?thesis
    proof (cases s1)
      case Nil
      with rec1 ne show ?thesis
        unfolding kc_parse_expr_step [OF ne] s1_def [symmetric] Let_def by simp
    next
      case c: (Cons c suffix)
      show ?thesis
      proof (cases "c = CHR ''=''")
        case True
        with c rec3 show ?thesis
          unfolding kc_parse_expr_step [OF ne] s1_def [symmetric] Let_def by simp
      next
        case False
        then have "length s1 < length s" using h s1_eq s1_less c Cons by auto
        from rec1 [OF this] c False show ?thesis
          unfolding kc_parse_expr_step [OF ne] s1_def [symmetric] Let_def by simp
      qed
    qed
  qed simp
qed

lemma kc_parse_expr_only_kc_chars:
  assumes "kc_parse_expr s ctx = Some r"
  shows "\<forall>c \<in> set s. kc_char c"
proof (rule kc_parse_expr.raw_induct [where P = "\<lambda>s ctx r. \<forall>c \<in> set s. kc_char c", OF _ assms])
  fix rec s ctx r
  let ?s1 = "skip_whitespace (dropWhile is_identifier_char s)"
  assume IH: "\<And>s ctx r. rec s ctx = Some r \<Longrightarrow> \<forall>c \<in> set s. kc_char c"
    and eq: "(if s = [] then Some ctx
      else let key = takeWhile is_identifier_char s;
               source1 = skip_whitespace (drop (length key) s)
           in case strip_prefix ''='' source1 of
                None \<Rightarrow> rec source1 (kc_add ctx key)
              | Some suffix \<Rightarrow>
                  let source2 = skip_whitespace suffix;
                      value = takeWhile is_identifier_char source2;
                      source3 = skip_whitespace (drop (length value) source2)
                  in rec source3 (kc_set ctx key value)) = Some r"
  have lift: "\<forall>c \<in> set t. kc_char c" if "\<forall>c \<in> set (skip_whitespace t). kc_char c" for t
    using that skip_whitespace_absorb [of t] by (auto simp: kc_char_def)
  have lift2: "\<forall>c \<in> set t. kc_char c" if "\<forall>c \<in> set (dropWhile is_identifier_char t). kc_char c" for t
    using that takeWhile_dropWhile_id [of is_identifier_char t]
    by (metis Un_iff kc_char_def set_append set_takeWhileD)
  have "s \<noteq> [] \<Longrightarrow> \<forall>c \<in> set ?s1. kc_char c"
  proof (cases ?s1)
    case (Cons c suffix)
    moreover assume "s \<noteq> []"
    ultimately have "\<exists>t ctx'. rec t ctx' = Some r \<and>
        (t = ?s1 \<or> c = CHR ''='' \<and>
         t = skip_whitespace (dropWhile is_identifier_char (skip_whitespace suffix)))"
      using eq by (simp add: Let_def dropWhile_takeWhile_length split: if_splits) blast+
    then obtain t where "\<forall>c \<in> set t. kc_char c" and
      "t = ?s1 \<or> c = CHR ''='' \<and>
         t = skip_whitespace (dropWhile is_identifier_char (skip_whitespace suffix))"
      using IH by blast
    then consider "\<forall>c \<in> set ?s1. kc_char c" | "c = CHR ''=''" "\<forall>c \<in> set suffix. kc_char c"
      using lift [OF lift2 [OF lift, of "skip_whitespace suffix"]] by blast
    then show ?thesis
      by cases (simp_all add: Cons kc_char_def)
  qed simp
  then show "\<forall>c \<in> set s. kc_char c"
    using lift2 [OF lift] by (cases "s = []") simp_all
qed


text \<open>
  C34. \<open>KeyContext::parse\<close> returns exactly on the sources made of identifier characters, white space
  and \<open>=\<close>. On every other source its recursion makes no progress at the first foreign character
  and never returns, although the signature promises a \<open>Result\<close>.
\<close>

theorem kc_parse_returns_iff:
  "(\<exists>ctx. kc_parse source = Some ctx) = list_all kc_char source"
proof
  assume "\<exists>ctx. kc_parse source = Some ctx"
  then have "\<forall>c \<in> set (skip_whitespace source). kc_char c"
    using kc_parse_expr_only_kc_chars by (auto simp: kc_parse_def)
  then show "list_all kc_char source"
    using skip_whitespace_absorb [of source] by (auto simp: list_all_iff kc_char_def)
next
  assume "list_all kc_char source"
  then show "\<exists>ctx. kc_parse source = Some ctx"
    using kc_parse_expr_returns [of "skip_whitespace source" "[]"] skip_whitespace_set [of source]
    by (auto simp: kc_parse_def list_all_iff)
qed

text \<open>The entries whose \<open>Debug\<close> output is in the grammar.\<close>

definition ident_word :: "string \<Rightarrow> bool" where
  "ident_word w \<longleftrightarrow> w \<noteq> [] \<and> list_all is_identifier_char w"

definition printable_entry :: "context_entry \<Rightarrow> bool" where
  "printable_entry e \<longleftrightarrow>
     ident_word (ce_key e) \<and> (case ce_value e of None \<Rightarrow> True | Some v \<Rightarrow> ident_word v)"

lemma takeWhile_ident:
  "list_all is_identifier_char w \<Longrightarrow> r = [] \<or> \<not> is_identifier_char (hd r) \<Longrightarrow>
   takeWhile is_identifier_char (w @ r) = w \<and> dropWhile is_identifier_char (w @ r) = r"
  by (induction w) (cases r; auto)+

lemma ident_word_not_ws:
  "ident_word w \<Longrightarrow> skip_whitespace (w @ r) = w @ r"
  by (cases w) (auto simp: ident_word_def)

lemma kc_debug_head:
  "list_all printable_entry (e # es) \<Longrightarrow>
   \<exists>c t. kc_debug (e # es) = c # t \<and> is_identifier_char c"
  by (cases "ce_key e"; cases es) (auto simp: printable_entry_def ident_word_def split: option.splits)

lemma space_not_ident [simp]: "\<not> is_identifier_char (CHR '' '')"
  and equals_not_ident [simp]: "\<not> is_identifier_char (CHR ''='')"
  and space_is_whitespace [simp]: "is_whitespace (CHR '' '')"
  and equals_not_whitespace [simp]: "\<not> is_whitespace (CHR ''='')"
  by (simp_all add: is_identifier_char_def is_alphanumeric_def is_whitespace_def code_point_def)

lemma kc_parse_expr_entry:
  assumes "printable_entry e" and "\<not> kc_contains ctx (ce_key e)"
    and "r = [] \<or> (\<exists>c t. r = '' '' @ c # t \<and> is_identifier_char c)"
  shows "kc_parse_expr (kc_debug_entry e @ r) ctx =
    kc_parse_expr (skip_whitespace r) (ctx @ [e])"
proof -
  obtain k v where e: "e = \<lparr>ce_key = k, ce_value = v\<rparr>" by (cases e)
  from assms(3) have r: "r = [] \<or> \<not> is_identifier_char (hd r)"
    and skip: "skip_whitespace r = [] \<or> hd (skip_whitespace r) \<noteq> CHR ''=''"
    using identifier_not_equals by (auto simp: skip_whitespace_def skip_ws_Cons)
      (metis identifier_not_whitespace list.sel(1))
  have k: "k \<noteq> []" "list_all is_identifier_char k"
    using assms(1) by (auto simp: e printable_entry_def ident_word_def)
  show ?thesis
  proof (cases v)
    case None
    have "kc_debug_entry e @ r \<noteq> []" using k None by (simp add: e)
    from kc_parse_expr_step [OF this, of ctx] show ?thesis
      using None k r skip assms(2)
      by (auto simp: e takeWhile_ident kc_add_def Let_def split: list.split)
  next
    case (Some val)
    then have v: "ident_word val" "list_all is_identifier_char val"
      using assms(1) by (auto simp: e printable_entry_def ident_word_def)
    have "takeWhile is_identifier_char (k @ ''='' @ val @ r) = k"
      "dropWhile is_identifier_char (k @ ''='' @ val @ r) = ''='' @ val @ r"
      using takeWhile_ident [of k "''='' @ val @ r"] k by simp_all
    moreover have "skip_whitespace (CHR ''='' # t) = CHR ''='' # t" for t
      by (simp add: skip_whitespace_def skip_ws_Cons)
    moreover have "kc_debug_entry e @ r \<noteq> []" using Some by (simp add: e)
    from kc_parse_expr_step [OF this, of ctx] calculation show ?thesis
      using Some k r v assms(2) by (simp add: e takeWhile_ident kc_set_def ident_word_not_ws)
  qed
qed

lemma kc_parse_expr_debug:
  assumes "list_all printable_entry es" and "kc_wf (ctx @ es)"
  shows "kc_parse_expr (kc_debug es) ctx = Some (ctx @ es)"
  using assms
proof (induction es arbitrary: ctx rule: kc_debug.induct)
  case (2 e)
  then show ?case
    using kc_parse_expr_entry [of e ctx "[]"] by (auto simp: kc_wf_def kc_contains_iff)
next
  case (3 e e' es)
  obtain c t where d: "kc_debug (e' # es) = c # t" "is_identifier_char c"
    using kc_debug_head [of e' es] "3.prems"(1) by auto
  have "kc_parse_expr (kc_debug_entry e @ '' '' @ kc_debug (e' # es)) ctx =
      kc_parse_expr (skip_whitespace ('' '' @ kc_debug (e' # es))) (ctx @ [e])"
    by (rule kc_parse_expr_entry) (use "3.prems" d in \<open>auto simp: kc_wf_def kc_contains_iff\<close>)
  also have "skip_whitespace ('' '' @ kc_debug (e' # es)) = kc_debug (e' # es)"
    using d by (simp add: skip_whitespace_def skip_ws_Cons identifier_not_whitespace)
  also have "kc_parse_expr \<dots> (ctx @ [e]) = Some (ctx @ e # e' # es)"
    using "3.IH" [of "ctx @ [e]"] "3.prems" by simp
  finally show ?case by simp
qed simp

text \<open>
  Print/parse round trip for key contexts. A context with one entry per key (which \<open>add\<close>, \<open>set\<close>
  and \<open>extend\<close> keep, see \<open>kc_wf_add\<close>, \<open>kc_wf_set\<close>, \<open>kc_wf_extend\<close>) whose keys and values are
  identifiers is read back by \<open>KeyContext::parse\<close> from its \<open>Debug\<close> output.
\<close>

theorem kc_parse_debug:
  assumes "kc_wf ctx" and "list_all printable_entry ctx"
  shows "kc_parse (kc_debug ctx) = Some ctx"
proof -
  have "skip_whitespace (kc_debug ctx) = kc_debug ctx"
    using kc_debug_head [of "hd ctx" "tl ctx"] assms(2) by (cases ctx) auto
  then show ?thesis
    using kc_parse_expr_debug [of ctx "[]"] assms by (simp add: kc_parse_def)
qed

theorem kc_parse_debug_witness:
  "kc_wf [\<lparr>ce_key = ''Editor'', ce_value = None\<rparr>, \<lparr>ce_key = ''mode'', ce_value = Some ''full''\<rparr>] \<and>
   kc_parse (kc_debug [\<lparr>ce_key = ''Editor'', ce_value = None\<rparr>,
                       \<lparr>ce_key = ''mode'', ce_value = Some ''full''\<rparr>]) =
     Some [\<lparr>ce_key = ''Editor'', ce_value = None\<rparr>, \<lparr>ce_key = ''mode'', ce_value = Some ''full''\<rparr>]"
proof -
  let ?c = "[\<lparr>ce_key = ''Editor'', ce_value = None\<rparr>, \<lparr>ce_key = ''mode'', ce_value = Some ''full''\<rparr>]"
  have wf: "kc_wf ?c" by (simp add: kc_wf_def)
  have pr: "list_all printable_entry ?c" by code_simp
  show ?thesis using wf kc_parse_debug [OF wf pr] by blast
qed


section \<open>Evaluation\<close>

lemma eval_inner_Nil [simp]: "\<not> eval_inner p [] all"
  by (cases p) simp_all

text \<open>
  \<open>depth_of\<close> returns the deepest prefix of the context stack at which the predicate matches, and
  \<open>None\<close> exactly when it matches nowhere; a match needs at least one context.
\<close>

theorem depth_of_iff:
  "(depth_of p contexts = Some d) =
     (0 < d \<and> d \<le> length contexts \<and> eval_inner p (take d contexts) contexts \<and>
      list_all (\<lambda>d'. \<not> eval_inner p (take d' contexts) contexts) [Suc d..<Suc (length contexts)])"
proof -
  have "depth_of p contexts = Some d \<longleftrightarrow>
      d \<le> length contexts \<and> eval_inner p (take d contexts) contexts \<and>
      (\<forall>j < Suc (length contexts). d < j \<longrightarrow> \<not> eval_inner p (take j contexts) contexts)"
    unfolding depth_of_def find_rev_upt_Some_iff by auto
  moreover have "eval_inner p (take d contexts) contexts \<Longrightarrow> 0 < d"
    by (cases d) auto
  moreover have "(\<forall>j < Suc (length contexts). d < j \<longrightarrow> Q j) \<longleftrightarrow>
      list_all Q [Suc d..<Suc (length contexts)]" for Q
    unfolding list_all_iff set_upt by auto
  ultimately show ?thesis by auto
qed

lemma depth_of_None_iff:
  "depth_of p contexts = None \<longleftrightarrow> (\<forall>d \<le> length contexts. \<not> eval_inner p (take d contexts) contexts)"
  unfolding depth_of_def find_rev_upt_None_iff by auto

lemma depth_of_bounds: "depth_of p contexts = Some d \<Longrightarrow> 0 < d \<and> d \<le> length contexts"
  unfolding depth_of_def find_rev_upt_Some_iff by (cases d) auto

fun negation_free :: "predicate \<Rightarrow> bool" where
  "negation_free (NotP p) = False"
| "negation_free (Descendant p q) = (negation_free p \<and> negation_free q)"
| "negation_free (AndP p q) = (negation_free p \<and> negation_free q)"
| "negation_free (OrP p q) = (negation_free p \<and> negation_free q)"
| "negation_free _ = True"

text \<open>Without negation the rest of the stack is irrelevant, and outer contexts never hurt.\<close>

lemma eval_inner_all_irrelevant:
  "negation_free p \<Longrightarrow> eval_inner p cs all = eval_inner p cs all'"
proof (induction p arbitrary: cs all all')
  case (Descendant p q)
  then have "eval_inner p (take (Suc i) cs) all = eval_inner p (take (Suc i) cs) all'" for i
    by simp
  then show ?case by simp
next
  case (AndP p q)
  then show ?case by (metis eval_inner.simps(6) negation_free.simps(3))
next
  case (OrP p q)
  then show ?case by (metis eval_inner.simps(7) negation_free.simps(4))
qed simp_all

lemma drop_prefix_decomp:
  "j \<le> i \<Longrightarrow> \<exists>ds'. drop j xs = ds' @ drop i xs"
  by (metis append_take_drop_id drop_drop le_Suc_ex add.commute)

lemma eval_inner_extend_left:
  "negation_free p \<Longrightarrow> eval_inner p cs all \<Longrightarrow> eval_inner p (ds @ cs) all'"
proof (induction p arbitrary: cs ds all all')
  case (Descendant p q cs ds all all')
  from Descendant.prems obtain i where
    i: "i < length cs - 1" "eval_inner p (take (Suc i) cs) all"
      "eval_inner q (drop (Suc i) cs) (drop (Suc i) cs)"
    by (auto simp: find_upt_Some_iff split: option.splits)
  let ?P = "\<lambda>j. eval_inner p (take (Suc j) (ds @ cs)) all'" and ?k = "length ds + i"
  have "?P ?k"
    using Descendant.IH(1) [of "take (Suc i) cs" all ds all'] Descendant.prems(1) i(2)
    by (simp add: Suc_diff_le)
  moreover have "?k < length (ds @ cs) - 1" using i(1) by simp
  ultimately have "List.find ?P [0..<length (ds @ cs) - 1] \<noteq> None"
    unfolding find_upt_None_iff by blast
  then obtain j where j: "List.find ?P [0..<length (ds @ cs) - 1] = Some j" by blast
  have jk: "j \<le> ?k"
    using j \<open>?P ?k\<close> unfolding find_upt_Some_iff by (meson linorder_not_less)
  obtain es where es: "drop (Suc j) (ds @ cs) = es @ drop (Suc ?k) (ds @ cs)"
    using drop_prefix_decomp [of "Suc j" "Suc ?k" "ds @ cs"] jk by auto
  have "eval_inner q (es @ drop (Suc i) cs) (es @ drop (Suc i) cs)"
    using Descendant.IH(2) [of "drop (Suc i) cs" "drop (Suc i) cs" es] Descendant.prems(1) i(3)
    by simp
  with es have "eval_inner q (drop (Suc j) (ds @ cs)) (drop (Suc j) (ds @ cs))"
    by (simp add: Suc_diff_le)
  with j i(1) show ?case by auto
next
  case (AndP p q cs ds all all')
  from AndP.prems AndP.IH(1)[of cs all ds all'] AndP.IH(2)[of cs all ds all'] show ?case by simp
next
  case (OrP p q cs ds all all')
  from OrP.prems OrP.IH(1)[of cs all ds all'] OrP.IH(2)[of cs all ds all'] show ?case by auto
qed (auto split: option.splits)

lemma eval_Descendant_child:
  assumes "eval_inner (Descendant p q) cs all"
  shows "\<exists>ds es. cs = ds @ es \<and> eval_inner q es es"
proof -
  from assms obtain i where "eval_inner q (drop (Suc i) cs) (drop (Suc i) cs)"
    by (auto split: option.splits)
  then show ?thesis by (metis append_take_drop_id)
qed

lemma is_superset_cases:
  assumes "is_superset p q"
  obtains "p = q"
  | (left) l r where "p = OrP l r" "is_superset l q \<or> is_superset r q"
  | (desc) a c where "q = Descendant a c" "is_superset p c"
  | (conj) a b where "q = AndP a b" "is_superset p a \<or> is_superset p b"
  using assms by (subst (asm) is_superset.simps) (cases p; cases q; auto split: if_splits)

lemma is_superset_sound_inner:
  "is_superset p q \<Longrightarrow> negation_free p \<Longrightarrow> eval_inner q cs all \<Longrightarrow> eval_inner p cs all"
proof (induction "size p + size q" arbitrary: p q cs all rule: less_induct)
  case less
  from less.prems(1) show ?case
  proof (cases rule: is_superset_cases)
    case (left l r)
    moreover have "cs \<noteq> []" using less.prems(3) by auto
    ultimately show ?thesis
      using less.hyps [of l q cs all] less.hyps [of r q cs all] less.prems by auto
  next
    case (desc a c)
    from eval_Descendant_child [OF less.prems(3) [unfolded desc(1)]]
    obtain ds es where cs: "cs = ds @ es" "eval_inner c es es" by blast
    have "eval_inner p es es"
      using less.hyps [of p c es es] desc cs less.prems(2) by simp
    with cs less.prems(2) show ?thesis by (simp add: eval_inner_extend_left)
  next
    case (conj a b)
    then show ?thesis
      using less.hyps [of p a cs all] less.hyps [of p b cs all] less.prems by auto
  qed (use less.prems in simp)
qed

text \<open>
  \<open>is_superset\<close> is sound for predicates without negation: if \<open>self.is_superset(other)\<close>, then
  \<open>self\<close> matches every context stack (and slice of it) that \<open>other\<close> matches. \<open>other\<close> may
  contain negations.
\<close>

theorem is_superset_sound:
  assumes "is_superset self other" and "negation_free self"
    and "eval_inner other contexts all_contexts"
  shows "eval_inner self contexts all_contexts"
  using assms by (rule is_superset_sound_inner)

definition ctx_named :: "string \<Rightarrow> key_context" where
  "ctx_named name = kc_add [] name"

theorem is_superset_sound_witness:
  "is_superset (Identifier ''Editor'') (Descendant (Identifier ''Pane'') (Identifier ''Editor'')) \<and>
   eval_inner (Identifier ''Editor'') [ctx_named ''Pane'', ctx_named ''Editor'']
     [ctx_named ''Pane'', ctx_named ''Editor'']"
proof -
  have s: "is_superset (Identifier ''Editor'') (Descendant (Identifier ''Pane'') (Identifier ''Editor''))"
    by code_simp
  have e: "eval_inner (Descendant (Identifier ''Pane'') (Identifier ''Editor''))
      [ctx_named ''Pane'', ctx_named ''Editor''] [ctx_named ''Pane'', ctx_named ''Editor'']"
    by code_simp
  show ?thesis using s is_superset_sound [OF s _ e] by simp
qed

text \<open>
  With negation the documented contract fails: \<open>!Pane\<close> is reported to cover
  \<open>Pane > !Pane\<close>, but on the stack \<open>Pane\<close>, \<open>Editor\<close> the second matches and the first does not,
  because a negation below \<open>>\<close> only looks at the contexts below the parent.
\<close>

theorem is_superset_unsound_negation:
  "is_superset (NotP (Identifier ''Pane''))
     (Descendant (Identifier ''Pane'') (NotP (Identifier ''Pane''))) \<and>
   eval (Descendant (Identifier ''Pane'') (NotP (Identifier ''Pane'')))
     [ctx_named ''Pane'', ctx_named ''Editor''] \<and>
   \<not> eval (NotP (Identifier ''Pane'')) [ctx_named ''Pane'', ctx_named ''Editor'']"
  by code_simp

end
