(* ===== verification/Predicate_Parser.thy ===== *)
theory Predicate_Parser
  imports Key_Context
begin

text \<open>
  The parser and printer of context predicates: \<open>KeyBindingContextPredicate::parse\<close>,
  \<open>parse_expr\<close>, \<open>parse_primary\<close>, the constructors \<open>new_*\<close> and the \<open>Display\<close> instance of
  \<open>crates/gpui/src/keymap/context.rs\<close>. The precedence climber is modelled with fuel and shown
  never to run out of it; on the predicates whose printed form is unambiguous, parsing inverts
  printing.
\<close>

section \<open>Printing\<close>

fun display :: "predicate \<Rightarrow> string" where
  "display (Identifier name) = name"
| "display (Equal left right) = left @ '' == '' @ right"
| "display (NotEqual left right) = left @ '' != '' @ right"
| "display (NotP pred) = ''!'' @ display pred"
| "display (Descendant parent child) = display parent @ '' > '' @ display child"
| "display (AndP left right) = ''('' @ display left @ '' && '' @ display right @ '')''"
| "display (OrP left right) = ''('' @ display left @ '' || '' @ display right @ '')''"

section \<open>Parsing\<close>

datatype parse_error =
    UnexpectedChar char
  | UnexpectedEnd
  | ExpectedCloseParen
  | OperandsOfEq
  | OperandsOfNeq

definition PRECEDENCE_CHILD :: nat where "PRECEDENCE_CHILD = 1"
definition PRECEDENCE_OR :: nat where "PRECEDENCE_OR = 2"
definition PRECEDENCE_AND :: nat where "PRECEDENCE_AND = 3"
definition PRECEDENCE_EQ :: nat where "PRECEDENCE_EQ = 4"
definition PRECEDENCE_NOT :: nat where "PRECEDENCE_NOT = 5"

lemmas precedence_defs = PRECEDENCE_CHILD_def PRECEDENCE_OR_def PRECEDENCE_AND_def
  PRECEDENCE_EQ_def PRECEDENCE_NOT_def

type_synonym 'a presult = "('a, parse_error) result"

definition new_or :: "predicate \<Rightarrow> predicate \<Rightarrow> predicate presult" where
  "new_or self other = Inr (OrP self other)"

definition new_and :: "predicate \<Rightarrow> predicate \<Rightarrow> predicate presult" where
  "new_and self other = Inr (AndP self other)"

definition new_child :: "predicate \<Rightarrow> predicate \<Rightarrow> predicate presult" where
  "new_child self other = Inr (Descendant self other)"

definition new_eq :: "predicate \<Rightarrow> predicate \<Rightarrow> predicate presult" where
  "new_eq self other =
     (case (self, other) of
        (Identifier left, Identifier right) \<Rightarrow> Inr (Equal left right)
      | _ \<Rightarrow> Inl OperandsOfEq)"

definition new_neq :: "predicate \<Rightarrow> predicate \<Rightarrow> predicate presult" where
  "new_neq self other =
     (case (self, other) of
        (Identifier left, Identifier right) \<Rightarrow> Inr (NotEqual left right)
      | _ \<Rightarrow> Inl OperandsOfNeq)"

type_synonym operator = "string \<times> nat \<times> (predicate \<Rightarrow> predicate \<Rightarrow> predicate presult)"

definition operators :: "operator list" where
  "operators =
     [(''>'', PRECEDENCE_CHILD, new_child),
      (''&&'', PRECEDENCE_AND, new_and),
      (''||'', PRECEDENCE_OR, new_or),
      (''=='', PRECEDENCE_EQ, new_eq),
      (''!='', PRECEDENCE_EQ, new_neq)]"

definition find_operator :: "string \<Rightarrow> nat \<Rightarrow> operator option" where
  "find_operator source min_precedence =
     find (\<lambda>(operator, precedence, _).
             take (length operator) source = operator \<and> min_precedence \<le> precedence) operators"

fun parse_expr :: "nat \<Rightarrow> string \<Rightarrow> nat \<Rightarrow> (predicate \<times> string) presult option"
and parse_loop :: "nat \<Rightarrow> predicate \<Rightarrow> string \<Rightarrow> nat \<Rightarrow> (predicate \<times> string) presult option"
and parse_primary :: "nat \<Rightarrow> string \<Rightarrow> (predicate \<times> string) presult option" where
  "parse_expr 0 source min_precedence = None"
| "parse_expr (Suc n) source min_precedence =
     bind_run (parse_primary n source)
       (\<lambda>(predicate, rest). parse_loop n predicate rest min_precedence)"
| "parse_loop 0 predicate source min_precedence = None"
| "parse_loop (Suc n) predicate source min_precedence =
     (case find_operator source min_precedence of
        None \<Rightarrow> Some (Inr (predicate, source))
      | Some (operator, precedence, constructor) \<Rightarrow>
          bind_run (parse_expr n (skip_whitespace (drop (length operator) source)) (precedence + 1))
            (\<lambda>(right, rest).
               bind_run (Some (constructor predicate right))
                 (\<lambda>predicate'. parse_loop n predicate' rest min_precedence)))"
| "parse_primary 0 source = None"
| "parse_primary (Suc n) source =
     (case source of
        [] \<Rightarrow> Some (Inl UnexpectedEnd)
      | next # tail \<Rightarrow>
          if next = CHR ''('' then
            bind_run (parse_expr n (skip_whitespace tail) 0)
              (\<lambda>(predicate, rest).
                 case strip_prefix '')'' rest of
                   None \<Rightarrow> Some (Inl ExpectedCloseParen)
                 | Some stripped \<Rightarrow> Some (Inr (predicate, skip_whitespace stripped)))
          else if next = CHR ''!'' then
            bind_run (parse_expr n (skip_whitespace tail) PRECEDENCE_NOT)
              (\<lambda>(predicate, rest). Some (Inr (NotP predicate, rest)))
          else if is_identifier_char next then
            Some (Inr
              (Identifier (takeWhile (\<lambda>c. is_identifier_char c \<or> is_vim_operator_char c) source),
               skip_whitespace
                 (dropWhile (\<lambda>c. is_identifier_char c \<or> is_vim_operator_char c) source)))
          else if is_vim_operator_char next then
            Some (Inr (Identifier [next], skip_whitespace tail))
          else Some (Inl (UnexpectedChar next)))"

text \<open>
  Fuel: an expression of length \<open>n\<close> makes calls that are nested at most \<open>2 * n + 3\<close> deep, since
  of two nested calls at least one is on a shorter source (\<open>parse_expr_total\<close> below).
\<close>

definition parse_fuel :: "string \<Rightarrow> nat" where
  "parse_fuel source = 2 * length source + 3"

definition parse_predicate :: "string \<Rightarrow> predicate presult option" where
  "parse_predicate source =
     (let source = skip_whitespace source in
      bind_run (parse_expr (parse_fuel source) source 0)
        (\<lambda>(predicate, rest).
           case rest of
             next # _ \<Rightarrow> Some (Inl (UnexpectedChar next))
           | [] \<Rightarrow> Some (Inr predicate)))"



section \<open>The fuel is enough\<close>

lemma find_operator_Some:
  assumes "find_operator s m = Some (op, prec, ctor)"
  shows "(op, prec, ctor) \<in> set operators \<and> take (length op) s = op \<and> m \<le> prec"
proof -
  from assms obtain i where "i < length operators" "(op, prec, ctor) = operators ! i"
    "take (length op) s = op \<and> m \<le> prec"
    unfolding find_operator_def find_Some_iff by auto
  then show ?thesis by (metis nth_mem)
qed

lemma operators_range:
  "(op, prec, ctor) \<in> set operators \<Longrightarrow> op \<noteq> [] \<and> 1 \<le> prec \<and> prec \<le> 4"
  by (auto simp: operators_def precedence_defs)

lemma find_operator_shorter:
  assumes "find_operator s m = Some (op, prec, ctor)"
  shows "length (skip_whitespace (drop (length op) s)) < length s"
proof -
  from find_operator_Some [OF assms] operators_range have "op \<noteq> []" "s \<noteq> []" by force+
  then have "length (drop (length op) s) < length s" by (cases op; cases s) auto
  then show ?thesis
    using skip_whitespace_length [of "drop (length op) s"] by linarith
qed

text \<open>Inversion of the three functions, one unit of fuel at a time.\<close>

lemma parse_expr_Suc_Inr:
  "parse_expr (Suc n) s m = Some (Inr x) \<longleftrightarrow>
     (\<exists>p r. parse_primary n s = Some (Inr (p, r)) \<and> parse_loop n p r m = Some (Inr x))"
  by auto

lemma parse_loop_cases:
  assumes "parse_loop (Suc n) q s m = Some (Inr x)"
  obtains (stop) "find_operator s m = None" "x = (q, s)"
  | (step) op prec ctor right rest q' where "find_operator s m = Some (op, prec, ctor)"
      "parse_expr n (skip_whitespace (drop (length op) s)) (prec + 1) = Some (Inr (right, rest))"
      "ctor q right = Inr q'" "parse_loop n q' rest m = Some (Inr x)"
  using assms by (cases "find_operator s m") auto

lemma parse_primary_cases:
  assumes "parse_primary (Suc n) s = Some (Inr x)"
  obtains (paren) t p r where "s = CHR ''('' # t"
      "parse_expr n (skip_whitespace t) 0 = Some (Inr (p, CHR '')'' # r))"
      "x = (p, skip_whitespace r)"
  | (neg) t p r where "s = CHR ''!'' # t"
      "parse_expr n (skip_whitespace t) PRECEDENCE_NOT = Some (Inr (p, r))" "x = (NotP p, r)"
  | (ident) c t where "s = c # t" "is_identifier_char c"
      "snd x = skip_whitespace (dropWhile (\<lambda>c. is_identifier_char c \<or> is_vim_operator_char c) s)"
  | (vim) c t where "s = c # t" "snd x = skip_whitespace t"
proof (cases s)
  case (Cons c t)
  with assms that show ?thesis
    by (auto split: if_splits option.splits simp: strip_prefix_Some_iff)
qed (use assms in simp)

lemma parse_consumes:
  "(\<forall>s m p r. parse_expr n s m = Some (Inr (p, r)) \<longrightarrow> length r < length s) \<and>
   (\<forall>q s m p r. parse_loop n q s m = Some (Inr (p, r)) \<longrightarrow> length r \<le> length s) \<and>
   (\<forall>s p r. parse_primary n s = Some (Inr (p, r)) \<longrightarrow> length r < length s)"
proof (induction n)
  case (Suc n)
  then have E: "\<And>s m p r. parse_expr n s m = Some (Inr (p, r)) \<Longrightarrow> length r < length s"
    and L: "\<And>q s m p r. parse_loop n q s m = Some (Inr (p, r)) \<Longrightarrow> length r \<le> length s"
    and P: "\<And>s p r. parse_primary n s = Some (Inr (p, r)) \<Longrightarrow> length r < length s"
    by blast+
  have "length r < length s" if "parse_expr (Suc n) s m = Some (Inr (p, r))" for s m p r
    using that P L unfolding parse_expr_Suc_Inr by (meson order_le_less_trans)
  moreover have "length r \<le> length s" if "parse_loop (Suc n) q s m = Some (Inr (p, r))" for q s m p r
    using that
  proof (cases rule: parse_loop_cases)
    case (step op prec ctor right rest q')
    with E [OF step(2)] L [OF step(4)] find_operator_shorter [OF step(1)] show ?thesis by linarith
  qed simp
  moreover have "length r < length s" if "parse_primary (Suc n) s = Some (Inr (p, r))" for s p r
    using that
  proof (cases rule: parse_primary_cases)
    case (paren t p' r')
    with E [OF paren(2)] skip_whitespace_length [of t] skip_whitespace_length [of r'] show ?thesis
      by simp
  next
    case (neg t p' r')
    with E [OF neg(2)] skip_whitespace_length [of t] show ?thesis by simp
  next
    case (ident c t)
    then show ?thesis
      using skip_dropWhile_length [of "\<lambda>c. is_identifier_char c \<or> is_vim_operator_char c" t] by simp
  next
    case (vim c t)
    then show ?thesis using skip_whitespace_length [of t] by simp
  qed
  ultimately show ?case by blast
qed simp

lemmas parse_expr_consumes = parse_consumes [THEN conjunct1, rule_format]
lemmas parse_primary_consumes = parse_consumes [THEN conjunct2, THEN conjunct2, rule_format]

lemma parse_fuel_enough:
  "(\<forall>s m. 2 * length s + 2 < n \<longrightarrow> parse_expr n s m \<noteq> None) \<and>
   (\<forall>q s m. 2 * length s + 1 < n \<longrightarrow> parse_loop n q s m \<noteq> None) \<and>
   (\<forall>s. 2 * length s + 1 < n \<longrightarrow> parse_primary n s \<noteq> None)"
proof (induction n)
  case (Suc n)
  then have E: "\<And>s m. 2 * length s + 2 < n \<Longrightarrow> parse_expr n s m \<noteq> None"
    and L: "\<And>q s m. 2 * length s + 1 < n \<Longrightarrow> parse_loop n q s m \<noteq> None"
    and P: "\<And>s. 2 * length s + 1 < n \<Longrightarrow> parse_primary n s \<noteq> None"
    by blast+
  have "parse_expr (Suc n) s m \<noteq> None" if "2 * length s + 2 < Suc n" for s m
  proof
    assume "parse_expr (Suc n) s m = None"
    then consider "parse_primary n s = None"
      | p r where "parse_primary n s = Some (Inr (p, r))" "parse_loop n p r m = None"
      by (auto simp: bind_run_eq_None)
    then show False
    proof cases
      case 1
      with P [of s] that show False by simp
    next
      case (2 p r)
      with L [of r p m] parse_primary_consumes [OF 2(1)] that show False by simp
    qed
  qed
  moreover have "parse_loop (Suc n) q s m \<noteq> None" if fuel: "2 * length s + 1 < Suc n" for q s m
  proof (cases "find_operator s m")
    case (Some x)
    obtain op prec ctor where x: "x = (op, prec, ctor)" by (cases x)
    let ?s' = "skip_whitespace (drop (length op) s)"
    have short: "length ?s' < length s" using find_operator_shorter Some x by blast
    then have e: "parse_expr n ?s' (prec + 1) \<noteq> None" using E [of ?s'] fuel by simp
    have l: "parse_loop n q' rest m \<noteq> None"
      if "parse_expr n ?s' (prec + 1) = Some (Inr (right, rest))" for right rest q'
      using parse_expr_consumes [OF that] short L [of rest] fuel by simp
    show ?thesis using Some x e l by (auto simp: bind_run_eq_None)
  qed simp
  moreover have "parse_primary (Suc n) s \<noteq> None" if fuel: "2 * length s + 1 < Suc n" for s
  proof (cases s)
    case (Cons c t)
    have "parse_expr n (skip_whitespace t) m \<noteq> None" for m
      using E [of "skip_whitespace t"] skip_whitespace_length [of t] fuel Cons by simp
    then show ?thesis
      by (simp add: Cons bind_run_eq_None del: not_None_eq split: option.split)
  qed simp
  ultimately show ?case by blast
qed simp

lemmas parse_expr_total = parse_fuel_enough [THEN conjunct1, rule_format]

text \<open>
  \<open>KeyBindingContextPredicate::parse\<close> is total: on every source it returns a predicate or an
  error (the fuel of the model is never exhausted).
\<close>

theorem parse_predicate_total:
  "\<exists>r. parse_predicate source = Some r"
proof -
  let ?s = "skip_whitespace source"
  have "parse_expr (parse_fuel ?s) ?s 0 \<noteq> None"
    by (rule parse_expr_total) (simp add: parse_fuel_def)
  then have "parse_predicate source \<noteq> None"
    by (auto simp: parse_predicate_def bind_run_eq_None Let_def split: list.splits)
  then show ?thesis by blast
qed


section \<open>More fuel never changes a result\<close>

lemmas parse_steps = parse_expr.simps(2) parse_loop.simps(2) parse_primary.simps(2)

declare parse_steps [simp del]

lemma parse_mono_step:
  "(\<forall>s m x. parse_expr n s m = Some x \<longrightarrow> parse_expr (Suc n) s m = Some x) \<and>
   (\<forall>q s m x. parse_loop n q s m = Some x \<longrightarrow> parse_loop (Suc n) q s m = Some x) \<and>
   (\<forall>s x. parse_primary n s = Some x \<longrightarrow> parse_primary (Suc n) s = Some x)"
proof (induction n)
  case (Suc n)
  then have E: "\<And>s m x. parse_expr n s m = Some x \<Longrightarrow> parse_expr (Suc n) s m = Some x"
    and L: "\<And>q s m x. parse_loop n q s m = Some x \<Longrightarrow> parse_loop (Suc n) q s m = Some x"
    and P: "\<And>s x. parse_primary n s = Some x \<Longrightarrow> parse_primary (Suc n) s = Some x"
    by blast+
  have "parse_expr (Suc (Suc n)) s m = Some x" if "parse_expr (Suc n) s m = Some x" for s m x
    unfolding parse_expr.simps(2) [of "Suc n"]
    by (rule bind_run_mono [OF that [unfolded parse_expr.simps]]) (auto intro: P L)
  moreover have "parse_loop (Suc (Suc n)) q s m = Some x" if "parse_loop (Suc n) q s m = Some x"
    for q s m x
  proof (cases "find_operator s m")
    case None
    with that show ?thesis by (simp add: parse_steps)
  next
    case (Some y)
    obtain op prec ctor where y: "y = (op, prec, ctor)" by (cases y)
    let ?f = "\<lambda>n. \<lambda>(right, rest).
      bind_run (Some (ctor q right)) (\<lambda>q'. parse_loop n q' rest m)"
    let ?s' = "skip_whitespace (drop (length op) s)"
    have "bind_run (parse_expr n ?s' (prec + 1)) (?f n) = Some x"
      using that Some y by (simp add: parse_steps)
    then have "bind_run (parse_expr (Suc n) ?s' (prec + 1)) (?f (Suc n)) = Some x"
      by (rule bind_run_mono) (auto intro: E elim!: bind_run_mono intro!: L)
    then show ?thesis
      using Some y by (simp only: parse_loop.simps(2) [of "Suc n"] option.case prod.case)
  qed
  moreover have "parse_primary (Suc (Suc n)) s = Some x" if "parse_primary (Suc n) s = Some x" for s x
  proof (cases s)
    case Nil
    with that show ?thesis by (simp add: parse_steps)
  next
    case (Cons c t)
    from that show ?thesis
      unfolding parse_primary.simps(2) [of "Suc n"] parse_primary.simps(2) [of n] Cons list.case
      by (auto split: if_splits intro: E elim!: bind_run_mono)
  qed
  ultimately show ?case by blast
qed simp

lemma parse_mono:
  assumes "n \<le> n'"
  shows "parse_expr n s m = Some x \<Longrightarrow> parse_expr n' s m = Some x"
    and "parse_loop n q s m = Some x \<Longrightarrow> parse_loop n' q s m = Some x"
    and "parse_primary n s = Some x \<Longrightarrow> parse_primary n' s = Some x"
  using assms parse_mono_step
  by (induction rule: dec_induct) (simp_all only: not_None_eq, blast+)

section \<open>Parsing, independently of fuel\<close>

definition parses_expr :: "string \<Rightarrow> nat \<Rightarrow> predicate \<times> string \<Rightarrow> bool" where
  "parses_expr s m x \<longleftrightarrow> (\<exists>n. parse_expr n s m = Some (Inr x))"

definition parses_loop :: "predicate \<Rightarrow> string \<Rightarrow> nat \<Rightarrow> predicate \<times> string \<Rightarrow> bool" where
  "parses_loop q s m x \<longleftrightarrow> (\<exists>n. parse_loop n q s m = Some (Inr x))"

definition parses_primary :: "string \<Rightarrow> predicate \<times> string \<Rightarrow> bool" where
  "parses_primary s x \<longleftrightarrow> (\<exists>n. parse_primary n s = Some (Inr x))"

lemma parses_exprI:
  assumes "parses_primary s (p, r)" and "parses_loop p r m x"
  shows "parses_expr s m x"
proof -
  from assms obtain a b where "parse_primary a s = Some (Inr (p, r))" "parse_loop b p r m = Some (Inr x)"
    by (auto simp: parses_primary_def parses_loop_def)
  then have "parse_expr (Suc (max a b)) s m = Some (Inr x)"
    using parse_mono(3) [of a "max a b"] parse_mono(2) [of b "max a b"] by (simp add: parse_steps)
  then show ?thesis unfolding parses_expr_def by blast
qed

lemma parses_loop_stop: "find_operator s m = None \<Longrightarrow> parses_loop q s m (q, s)"
  unfolding parses_loop_def by (rule exI [of _ "Suc 0"]) (simp add: parse_steps)

lemma parses_loop_step:
  assumes "find_operator s m = Some (op, prec, ctor)"
    and "parses_expr (skip_whitespace (drop (length op) s)) (prec + 1) (right, rest)"
    and "ctor q right = Inr q'" and "parses_loop q' rest m x"
  shows "parses_loop q s m x"
proof -
  from assms obtain a b where
    "parse_expr a (skip_whitespace (drop (length op) s)) (prec + 1) = Some (Inr (right, rest))"
    "parse_loop b q' rest m = Some (Inr x)"
    by (auto simp: parses_expr_def parses_loop_def)
  then have "parse_loop (Suc (max a b)) q s m = Some (Inr x)"
    using parse_mono(1) [of a "max a b"] parse_mono(2) [of b "max a b"] assms(1,3) by (simp add: parse_steps)
  then show ?thesis unfolding parses_loop_def by blast
qed

lemma parses_primary_paren:
  assumes "parses_expr (skip_whitespace t) 0 (p, CHR '')'' # r)"
  shows "parses_primary (CHR ''('' # t) (p, skip_whitespace r)"
proof -
  from assms obtain n where "parse_expr n (skip_whitespace t) 0 = Some (Inr (p, CHR '')'' # r))"
    by (auto simp: parses_expr_def)
  then have "parse_primary (Suc n) (CHR ''('' # t) = Some (Inr (p, skip_whitespace r))"
    by (simp add: parse_steps)
  then show ?thesis unfolding parses_primary_def by blast
qed

lemma parses_primary_not:
  assumes "parses_expr (skip_whitespace t) PRECEDENCE_NOT (p, r)"
  shows "parses_primary (CHR ''!'' # t) (NotP p, r)"
proof -
  from assms obtain n where "parse_expr n (skip_whitespace t) PRECEDENCE_NOT = Some (Inr (p, r))"
    by (auto simp: parses_expr_def)
  then have "parse_primary (Suc n) (CHR ''!'' # t) = Some (Inr (NotP p, r))"
    by (simp add: parse_steps)
  then show ?thesis unfolding parses_primary_def by blast
qed


section \<open>Parsing what was printed\<close>

definition name_char :: "char \<Rightarrow> bool" where
  "name_char c \<longleftrightarrow> is_identifier_char c \<or> is_vim_operator_char c"

text \<open>The names the parser accepts as one identifier.\<close>

definition valid_name :: "string \<Rightarrow> bool" where
  "valid_name w \<longleftrightarrow>
     (case w of [] \<Rightarrow> False
      | c # cs \<Rightarrow> if is_identifier_char c then list_all name_char cs
                  else is_vim_operator_char c \<and> cs = [])"

text \<open>
  The predicates whose \<open>Display\<close> output is unambiguous: \<open>tight\<close> ones may be negated, \<open>simple\<close>
  ones may be operands, and \<open>>\<close> is only printed at the top, nested to the left.
\<close>

fun tight :: "predicate \<Rightarrow> bool" and simple :: "predicate \<Rightarrow> bool" where
  "tight (Identifier w) = valid_name w"
| "tight (NotP p) = tight p"
| "tight (AndP p q) = (simple p \<and> simple q)"
| "tight (OrP p q) = (simple p \<and> simple q)"
| "tight _ = False"
| "simple (Identifier w) = valid_name w"
| "simple (Equal a b) = (valid_name a \<and> valid_name b)"
| "simple (NotEqual a b) = (valid_name a \<and> valid_name b)"
| "simple (NotP p) = tight p"
| "simple (AndP p q) = (simple p \<and> simple q)"
| "simple (OrP p q) = (simple p \<and> simple q)"
| "simple (Descendant p q) = False"

fun printable :: "predicate \<Rightarrow> bool" where
  "printable (Descendant p q) = (printable p \<and> simple q)"
| "printable p = simple p"

text \<open>What may follow a printed predicate: nothing, a space or a closing parenthesis.\<close>

definition name_boundary :: "string \<Rightarrow> bool" where
  "name_boundary r \<longleftrightarrow> (case r of [] \<Rightarrow> True | c # _ \<Rightarrow> \<not> name_char c)"

lemma name_boundary_simps [simp]:
  "name_boundary []" "name_boundary (CHR '' '' # r)" "name_boundary (CHR '')'' # r)"
  by (simp_all add: name_boundary_def name_char_def is_identifier_char_def is_vim_operator_char_def
      is_alphanumeric_def code_point_def)

lemma special_chars [simp]:
  "\<not> is_identifier_char (CHR ''('')" "\<not> is_identifier_char (CHR ''!'')"
  "\<not> is_vim_operator_char (CHR ''('')" "\<not> is_vim_operator_char (CHR ''!'')"
  "\<not> is_whitespace (CHR ''('')" "\<not> is_whitespace (CHR ''!'')" "\<not> is_whitespace (CHR '')'')"
  "\<not> is_whitespace (CHR ''&'')" "\<not> is_whitespace (CHR ''|'')" "\<not> is_whitespace (CHR ''>'')"
  by (simp_all add: is_identifier_char_def is_vim_operator_char_def is_whitespace_def
      is_alphanumeric_def code_point_def)

lemma vim_operator_not_ws: "is_vim_operator_char c \<Longrightarrow> \<not> is_whitespace c"
  by (auto simp: is_vim_operator_char_def is_whitespace_def code_point_def)

lemma name_char_not_ws: "name_char c \<Longrightarrow> \<not> is_whitespace c"
  using identifier_not_whitespace vim_operator_not_ws by (auto simp: name_char_def)

lemma valid_name_chars: "valid_name w \<Longrightarrow> w \<noteq> [] \<and> list_all name_char w"
  by (cases w) (auto simp: valid_name_def name_char_def split: if_splits)

lemma takeWhile_name:
  "list_all name_char w \<Longrightarrow> name_boundary r \<Longrightarrow>
   takeWhile (\<lambda>c. is_identifier_char c \<or> is_vim_operator_char c) (w @ r) = w \<and>
   dropWhile (\<lambda>c. is_identifier_char c \<or> is_vim_operator_char c) (w @ r) = r"
  by (induction w) (cases r; auto simp: name_boundary_def name_char_def)+

lemma parses_primary_name:
  assumes "valid_name w" and "name_boundary r"
  shows "parses_primary (w @ r) (Identifier w, skip_whitespace r)"
proof -
  obtain c cs where w: "w = c # cs" using valid_name_chars [OF assms(1)] by (cases w) auto
  have paren: "c \<noteq> CHR ''(''" "c \<noteq> CHR ''!''"
    using assms(1) w by (auto simp: valid_name_def)
  have "parse_primary (Suc 0) (w @ r) = Some (Inr (Identifier w, skip_whitespace r))"
  proof (cases "is_identifier_char c")
    case True
    then have "list_all name_char w" using assms(1) valid_name_chars by blast
    from takeWhile_name [OF this assms(2)] True paren w show ?thesis
      by (simp add: parse_steps)
  next
    case False
    then show ?thesis
      using assms(1) w paren by (simp add: parse_steps valid_name_def)
  qed
  then show ?thesis unfolding parses_primary_def by blast
qed

text \<open>A printed predicate never starts with white space.\<close>

lemma skip_whitespace_name: "valid_name w \<Longrightarrow> skip_whitespace (w @ r) = w @ r"
  using valid_name_chars [of w] name_char_not_ws
  by (cases w) (auto simp: skip_whitespace_def skip_ws_Cons)

lemma skip_whitespace_display:
  "(tight p \<longrightarrow> skip_whitespace (display p @ r) = display p @ r) \<and>
   (simple p \<longrightarrow> skip_whitespace (display p @ r) = display p @ r)"
  by (cases p) (simp_all add: skip_whitespace_name, simp_all add: skip_whitespace_def skip_ws_Cons)

lemma find_operator_simps [simp]:
  "find_operator [] m = None"
  "find_operator (CHR '')'' # r) m = None"
  "5 \<le> m \<Longrightarrow> find_operator s m = None"
  "m \<le> 4 \<Longrightarrow>
     find_operator (CHR ''='' # CHR ''='' # r) m = Some (''=='', PRECEDENCE_EQ, new_eq)"
  "m \<le> 4 \<Longrightarrow>
     find_operator (CHR ''!'' # CHR ''='' # r) m = Some (''!='', PRECEDENCE_EQ, new_neq)"
  "m \<le> 3 \<Longrightarrow>
     find_operator (CHR ''&'' # CHR ''&'' # r) m = Some (''&&'', PRECEDENCE_AND, new_and)"
  "m \<le> 2 \<Longrightarrow>
     find_operator (CHR ''|'' # CHR ''|'' # r) m = Some (''||'', PRECEDENCE_OR, new_or)"
  "m \<le> 1 \<Longrightarrow>
     find_operator (CHR ''>'' # r) m = Some (''>'', PRECEDENCE_CHILD, new_child)"
  by (simp_all add: find_operator_def operators_def precedence_defs)

lemma skip_space [simp]: "skip_whitespace (CHR '' '' # s) = skip_whitespace s"
  by (simp add: skip_whitespace_def skip_ws_Cons)

lemma skip_symbol [simp]:
  "c \<in> {CHR ''('', CHR '')'', CHR ''!'', CHR ''&'', CHR ''|'', CHR ''='', CHR ''>''} \<Longrightarrow>
   skip_whitespace (c # s) = c # s"
  by (auto simp: skip_whitespace_def skip_ws_Cons)


lemma parses_expr_tight:
  assumes "parses_primary (display p @ r) (p, skip_whitespace r)"
    and "parses_loop p (skip_whitespace r) m x"
  shows "parses_expr (display p @ r) m x"
  using assms by (rule parses_exprI)

lemma parses_comparison:
  assumes names: "valid_name a" "valid_name b" and r: "name_boundary r" and m: "m \<le> 4"
    and op: "find_operator (op @ '' '' @ b @ r) m = Some (op, PRECEDENCE_EQ, ctor)"
      "skip_whitespace (op @ '' '' @ b @ r) = op @ '' '' @ b @ r"
    and ctor: "ctor (Identifier a) (Identifier b) = Inr p"
    and rest: "parses_loop p (skip_whitespace r) m x"
  shows "parses_expr (a @ '' '' @ op @ '' '' @ b @ r) m x"
proof -
  have "parses_primary (a @ '' '' @ op @ '' '' @ b @ r) (Identifier a, op @ '' '' @ b @ r)"
    using parses_primary_name [OF names(1), of "'' '' @ op @ '' '' @ b @ r"] op(2) by simp
  moreover have "parses_expr (b @ r) 5 (Identifier b, skip_whitespace r)"
    by (rule parses_exprI [OF parses_primary_name [OF names(2) r]]) (simp add: parses_loop_stop)
  then have "parses_loop (Identifier a) (op @ '' '' @ b @ r) m x"
    by (intro parses_loop_step [OF op(1) _ ctor rest])
      (simp add: PRECEDENCE_EQ_def skip_whitespace_name names)
  ultimately show ?thesis by (rule parses_exprI)
qed

lemma parses_binary:
  assumes left: "\<And>x. parses_loop p (op @ '' '' @ display q @ '')'' @ r) 0 x \<Longrightarrow>
      parses_expr (display p @ '' '' @ op @ '' '' @ display q @ '')'' @ r) 0 x"
    and right: "\<And>m. m \<le> 4 \<Longrightarrow> parses_expr (display q @ '')'' @ r) m (q, '')'' @ r)"
    and op: "find_operator (op @ '' '' @ display q @ '')'' @ r) 0 = Some (op, prec, ctor)" "prec \<le> 3"
    and ctor: "ctor p q = Inr pq"
    and skip: "skip_whitespace (display q @ '')'' @ r) = display q @ '')'' @ r"
      "\<And>t. skip_whitespace (display p @ t) = display p @ t"
  shows "parses_primary (''('' @ display p @ '' '' @ op @ '' '' @ display q @ '')'' @ r)
    (pq, skip_whitespace r)"
proof -
  have "parses_expr (skip_whitespace (drop (length op) (op @ '' '' @ display q @ '')'' @ r)))
      (prec + 1) (q, '')'' @ r)"
    using right [of "prec + 1"] op(2) skip(1) by simp
  then have "parses_loop p (op @ '' '' @ display q @ '')'' @ r) 0 (pq, CHR '')'' # r)"
    by (intro parses_loop_step [OF op(1) _ ctor]) (simp, rule parses_loop_stop, simp)
  then have "parses_expr (display p @ '' '' @ op @ '' '' @ display q @ '')'' @ r) 0
      (pq, CHR '')'' # r)"
    by (rule left)
  then show ?thesis
    using parses_primary_paren [of "display p @ '' '' @ op @ '' '' @ display q @ '')'' @ r" pq r] skip(2)
    by simp
qed

lemma parse_printed:
  "(tight p \<longrightarrow> (\<forall>r. name_boundary r \<longrightarrow> parses_primary (display p @ r) (p, skip_whitespace r))) \<and>
   (simple p \<longrightarrow> (\<forall>r m x. name_boundary r \<longrightarrow> m \<le> 4 \<longrightarrow> parses_loop p (skip_whitespace r) m x \<longrightarrow>
      parses_expr (display p @ r) m x))"
proof (induction p)
  case (Identifier w)
  then show ?case by (auto intro: parses_primary_name parses_exprI)
next
  case (Equal a b)
  show ?case
    using parses_comparison [of a b _ _ "''==''" new_eq "Equal a b"]
    by (auto simp: new_eq_def)
next
  case (NotEqual a b)
  show ?case
    using parses_comparison [of a b _ _ "''!=''" new_neq "NotEqual a b"]
    by (auto simp: new_neq_def)
next
  case (NotP p)
  have "parses_primary (display (NotP p) @ r) (NotP p, skip_whitespace r)"
    if "tight p" "name_boundary r" for r
  proof -
    have "parses_expr (display p @ r) PRECEDENCE_NOT (p, skip_whitespace r)"
      by (rule parses_expr_tight)
        (use NotP that in \<open>simp_all add: parses_loop_stop PRECEDENCE_NOT_def\<close>)
    then show ?thesis
      using parses_primary_not [of "display p @ r" p] skip_whitespace_display [of p r] that by simp
  qed
  then show ?case by (auto intro: parses_exprI)
next
  case (AndP p q)
  have "parses_primary (display (AndP p q) @ r) (AndP p q, skip_whitespace r)"
    if "simple p" "simple q" "name_boundary r" for r
  proof -
    have "parses_primary (''('' @ display p @ '' '' @ ''&&'' @ '' '' @ display q @ '')'' @ r)
        (AndP p q, skip_whitespace r)"
      by (rule parses_binary [where prec = PRECEDENCE_AND and ctor = new_and])
        (use AndP that skip_whitespace_display in
          \<open>auto simp: new_and_def PRECEDENCE_AND_def parses_loop_stop\<close>)
    then show ?thesis by simp
  qed
  then show ?case by (auto intro: parses_exprI)
next
  case (OrP p q)
  have "parses_primary (display (OrP p q) @ r) (OrP p q, skip_whitespace r)"
    if "simple p" "simple q" "name_boundary r" for r
  proof -
    have "parses_primary (''('' @ display p @ '' '' @ ''||'' @ '' '' @ display q @ '')'' @ r)
        (OrP p q, skip_whitespace r)"
      by (rule parses_binary [where prec = PRECEDENCE_OR and ctor = new_or])
        (use OrP that skip_whitespace_display in
          \<open>auto simp: new_or_def PRECEDENCE_OR_def parses_loop_stop\<close>)
    then show ?thesis by simp
  qed
  then show ?case by (auto intro: parses_exprI)
qed simp

lemma parse_printed_simple:
  "simple p \<Longrightarrow> name_boundary r \<Longrightarrow> m \<le> 4 \<Longrightarrow> parses_loop p (skip_whitespace r) m x \<Longrightarrow>
   parses_expr (display p @ r) m x"
  using parse_printed [of p] by blast


text \<open>At the top a printed predicate is followed by nothing or by \<open>>\<close> and a child.\<close>

lemma parse_printed_top:
  assumes "printable p" and "r = [] \<or> (\<exists>t. r = '' > '' @ t)" and "m \<le> 1"
    and "parses_loop p (skip_whitespace r) m x"
  shows "parses_expr (display p @ r) m x"
  using assms
proof (induction p arbitrary: r x)
  case (Descendant p q)
  have stop: "find_operator (skip_whitespace r) 2 = None" and r: "name_boundary r"
    using Descendant.prems(2) by (auto simp: find_operator_def operators_def precedence_defs)
  have child: "parses_expr (display q @ r) 2 (q, skip_whitespace r)"
    by (rule parse_printed_simple) (use Descendant.prems(1) stop r in \<open>auto intro: parses_loop_stop\<close>)
  have "parses_loop p (CHR ''>'' # '' '' @ display q @ r) m x"
  proof (rule parses_loop_step)
    show "find_operator (CHR ''>'' # '' '' @ display q @ r) m =
        Some (''>'', PRECEDENCE_CHILD, new_child)"
      using Descendant.prems(3) by simp
    show "parses_expr (skip_whitespace (drop (length ''>'') (CHR ''>'' # '' '' @ display q @ r)))
        (PRECEDENCE_CHILD + 1) (q, skip_whitespace r)"
      using child Descendant.prems(1) skip_whitespace_display [of q r]
      by (simp add: PRECEDENCE_CHILD_def numeral_2_eq_2)
    show "new_child p q = Inr (Descendant p q)" by (simp add: new_child_def)
    show "parses_loop (Descendant p q) (skip_whitespace r) m x" by (rule Descendant.prems(4))
  qed
  then show ?case
    using Descendant.IH(1) [of "'' > '' @ display q @ r" x] Descendant.prems(1,3) by simp
qed (rule parse_printed_simple; fastforce simp del: display.simps)+

lemma skip_whitespace_printable: "printable p \<Longrightarrow> skip_whitespace (display p @ r) = display p @ r"
  by (induction p arbitrary: r)
    (simp_all add: skip_whitespace_display [THEN conjunct2, rule_format]
      del: display.simps(1,2,3,4,6,7))

lemma parses_expr_fuel:
  assumes "parses_expr s m x" and "2 * length s + 2 < n"
  shows "parse_expr n s m = Some (Inr x)"
proof -
  from assms(1) obtain k where k: "parse_expr k s m = Some (Inr x)" by (auto simp: parses_expr_def)
  from parse_expr_total [OF assms(2)] obtain y where y: "parse_expr n s m = Some y" by blast
  from parse_mono(1) [OF max.cobounded1 k, of n] parse_mono(1) [OF max.cobounded2 y, of k] y
  show ?thesis by simp
qed

text \<open>
  C32. Parsing inverts printing. For every predicate whose names are identifiers of the language, whose
  negations are not put directly on a comparison, and which uses \<open>>\<close> only at the top (nested to
  the left), \<open>KeyBindingContextPredicate::parse\<close> reads back exactly the predicate that
  \<open>Display\<close> printed: precedences, associativity and parentheses agree.
\<close>

theorem parse_display:
  assumes "printable p"
  shows "parse_predicate (display p) = Some (Inr p)"
proof -
  have skip: "skip_whitespace (display p) = display p"
    using skip_whitespace_printable [OF assms, of "[]"] by simp
  have "parses_expr (display p @ []) 0 (p, [])"
    by (rule parse_printed_top [OF assms]) (auto intro: parses_loop_stop)
  then have "parse_expr (parse_fuel (display p)) (display p) 0 = Some (Inr (p, []))"
    by (intro parses_expr_fuel) (simp_all add: parse_fuel_def)
  then show ?thesis
    by (simp add: parse_predicate_def skip Let_def)
qed

theorem parse_display_witness:
  "printable (Descendant (Identifier ''Workspace'')
     (AndP (NotP (Identifier ''Editor'')) (Equal ''mode'' ''full''))) \<and>
   parse_predicate ''Workspace > (!Editor && mode == full)'' =
     Some (Inr (Descendant (Identifier ''Workspace'')
       (AndP (NotP (Identifier ''Editor'')) (Equal ''mode'' ''full''))))"
proof -
  let ?p = "Descendant (Identifier ''Workspace'')
     (AndP (NotP (Identifier ''Editor'')) (Equal ''mode'' ''full''))"
  have "printable ?p" by code_simp
  moreover from this have "parse_predicate (display ?p) = Some (Inr ?p)" by (rule parse_display)
  ultimately show ?thesis by simp
qed

text \<open>
  A negated comparison does not survive printing: \<open>Display\<close> omits the parentheses that
  \<open>!(a == b)\<close> needs, and its output is rejected by the parser.
\<close>

theorem display_not_equal_rejected:
  "parse_predicate ''!(a == b)'' = Some (Inr (NotP (Equal ''a'' ''b''))) \<and>
   display (NotP (Equal ''a'' ''b'')) = ''!a == b'' \<and>
   parse_predicate ''!a == b'' = Some (Inl OperandsOfEq)"
  by code_simp

end
