(* ===== verification/Keymap.thy ===== *)
theory Keymap
  imports Keystroke Predicate_Parser "HOL-Library.Product_Lexorder"
begin

text \<open>
  Key bindings and the keymap: \<open>crates/gpui/src/keymap/binding.rs\<close>, \<open>crates/gpui/src/keymap.rs\<close>
  and \<open>is_no_action\<close> of \<open>crates/gpui/src/action.rs\<close>. An action is its type id and the value of its
  fields; type id 0 is \<open>NoAction\<close>. The operating system that \<open>should_match\<close> depends on is an
  argument. The theory characterises which bindings an input resolves to and in which order, when
  more input is awaited, and that the lookahead for the next keystroke agrees with dispatch.
\<close>

section \<open>Bindings\<close>

record action =
  a_type_id :: nat
  a_value :: string

definition no_action_type_id :: nat where
  "no_action_type_id = 0"

definition is_no_action :: "action \<Rightarrow> bool" where
  "is_no_action a \<longleftrightarrow> a_type_id a = no_action_type_id"

text \<open>\<open>Action::partial_eq\<close> as derived: the same type and equal fields.\<close>

definition action_partial_eq :: "action \<Rightarrow> action \<Rightarrow> bool" where
  "action_partial_eq self other \<longleftrightarrow> a_type_id other = a_type_id self \<and> a_value self = a_value other"

record key_binding =
  kb_action :: action
  kb_keystrokes :: "keybinding_keystroke list"
  kb_context_predicate :: "predicate option"
  kb_meta :: "nat option"
  kb_action_input :: "string option"

type_synonym keyboard_mapper = "keystroke \<Rightarrow> bool \<Rightarrow> keybinding_keystroke"

definition dummy_keyboard_mapper :: keyboard_mapper where
  "dummy_keyboard_mapper keystroke use_key_equivalents = from_keystroke keystroke"

definition new_with_mapper :: "keystroke \<Rightarrow> bool \<Rightarrow> keyboard_mapper \<Rightarrow> keybinding_keystroke" where
  "new_with_mapper inner use_key_equivalents mapper = mapper inner use_key_equivalents"

definition kb_load ::
  "target_os \<Rightarrow> string \<Rightarrow> action \<Rightarrow> predicate option \<Rightarrow> bool \<Rightarrow> string option \<Rightarrow> keyboard_mapper \<Rightarrow>
   (key_binding, string) result" where
  "kb_load os keystrokes action context_predicate use_key_equivalents action_input mapper =
     bind_result
       (collect_results
          (\<lambda>source. bind_result (parse_keystroke os source)
             (\<lambda>keystroke. Inr (new_with_mapper keystroke use_key_equivalents mapper)))
          (split_whitespace keystrokes))
       (\<lambda>ks. Inr \<lparr>kb_action = action, kb_keystrokes = ks, kb_context_predicate = context_predicate,
                  kb_meta = None, kb_action_input = action_input\<rparr>)"

text \<open>\<open>KeyBinding::new\<close> unwraps both parse results; \<open>None\<close> is the panic.\<close>

definition kb_new :: "target_os \<Rightarrow> string \<Rightarrow> action \<Rightarrow> string option \<Rightarrow> key_binding option" where
  "kb_new os keystrokes action ctx =
     (case (case ctx of
              None \<Rightarrow> Some None
            | Some source \<Rightarrow>
                (case parse_predicate source of Some (Inr p) \<Rightarrow> Some (Some p) | _ \<Rightarrow> None)) of
        None \<Rightarrow> None
      | Some context_predicate \<Rightarrow>
          (case kb_load os keystrokes action context_predicate False None dummy_keyboard_mapper of
             Inr b \<Rightarrow> Some b
           | Inl _ \<Rightarrow> None))"

definition kb_with_meta :: "key_binding \<Rightarrow> nat \<Rightarrow> key_binding" where
  "kb_with_meta b meta = b\<lparr>kb_meta := Some meta\<rparr>"

definition kb_set_meta :: "key_binding \<Rightarrow> nat \<Rightarrow> key_binding" where
  "kb_set_meta b meta = b\<lparr>kb_meta := Some meta\<rparr>"

definition match_keystrokes :: "target_os \<Rightarrow> key_binding \<Rightarrow> keystroke list \<Rightarrow> bool option" where
  "match_keystrokes os b typed =
     (if length (kb_keystrokes b) < length typed then None
      else if list_ex (\<lambda>(target, typed). \<not> should_match os typed target)
                (zip (kb_keystrokes b) typed)
      then None
      else Some (length typed < length (kb_keystrokes b)))"

section \<open>The keymap\<close>

record keymap =
  km_bindings :: "key_binding list"
  km_indices_by_action_id :: "nat \<Rightarrow> nat list option"
  km_no_action_indices :: "nat list"
  km_version :: nat

definition km_default :: keymap where
  "km_default = \<lparr>km_bindings = [], km_indices_by_action_id = Map.empty,
     km_no_action_indices = [], km_version = 0\<rparr>"

definition km_add_binding :: "keymap \<Rightarrow> key_binding \<Rightarrow> keymap" where
  "km_add_binding km binding =
     (let action_id = a_type_id (kb_action binding);
          n = length (km_bindings km);
          km' = (if is_no_action (kb_action binding)
                 then km\<lparr>km_no_action_indices := km_no_action_indices km @ [n]\<rparr>
                 else km\<lparr>km_indices_by_action_id := (km_indices_by_action_id km)
                   (action_id \<mapsto>
                      (case km_indices_by_action_id km action_id of None \<Rightarrow> [] | Some ixs \<Rightarrow> ixs) @ [n])\<rparr>)
      in km'\<lparr>km_bindings := km_bindings km' @ [binding]\<rparr>)"

definition km_add_bindings :: "keymap \<Rightarrow> key_binding list \<Rightarrow> keymap" where
  "km_add_bindings km bindings =
     (let km' = foldl km_add_binding km bindings in km'\<lparr>km_version := km_version km' + 1\<rparr>)"

definition km_new :: "key_binding list \<Rightarrow> keymap" where
  "km_new bindings = km_add_bindings km_default bindings"

definition km_clear :: "keymap \<Rightarrow> keymap" where
  "km_clear km = \<lparr>km_bindings = [], km_indices_by_action_id = Map.empty,
     km_no_action_indices = [], km_version = km_version km + 1\<rparr>"

text \<open>Whether \<open>null_binding\<close> disables \<open>binding\<close> in \<open>bindings_for_action\<close>.\<close>

definition null_binding_matches :: "key_binding \<Rightarrow> key_binding \<Rightarrow> bool" where
  "null_binding_matches null_binding binding \<longleftrightarrow>
     kb_keystrokes null_binding = kb_keystrokes binding \<and>
     (case (kb_context_predicate null_binding, kb_context_predicate binding) of
        (None, _) \<Rightarrow> True
      | (Some _, None) \<Rightarrow> False
      | (Some null_predicate, Some predicate) \<Rightarrow> is_superset null_predicate predicate)"

fun disabled_by_null ::
  "key_binding list \<Rightarrow> nat \<Rightarrow> key_binding \<Rightarrow> nat list \<Rightarrow> bool option" where
  "disabled_by_null bindings ix binding [] = Some False"
| "disabled_by_null bindings ix binding (null_ix # null_ixs) =
     (if ix < null_ix then
        (case nth_opt bindings null_ix of
           None \<Rightarrow> None
         | Some null_binding \<Rightarrow>
             if null_binding_matches null_binding binding then Some True
             else disabled_by_null bindings ix binding null_ixs)
      else disabled_by_null bindings ix binding null_ixs)"

fun filter_bindings_for_action ::
  "keymap \<Rightarrow> action \<Rightarrow> nat list \<Rightarrow> key_binding list option" where
  "filter_bindings_for_action km action [] = Some []"
| "filter_bindings_for_action km action (ix # ixs) =
     (case nth_opt (km_bindings km) ix of
        None \<Rightarrow> None
      | Some binding \<Rightarrow>
          if \<not> action_partial_eq (kb_action binding) action
          then filter_bindings_for_action km action ixs
          else (case disabled_by_null (km_bindings km) ix binding (km_no_action_indices km) of
                  None \<Rightarrow> None
                | Some True \<Rightarrow> filter_bindings_for_action km action ixs
                | Some False \<Rightarrow> map_option (Cons binding) (filter_bindings_for_action km action ixs)))"

text \<open>The iterator's items in order; \<open>None\<close> is an index panic.\<close>

definition km_bindings_for_action :: "keymap \<Rightarrow> action \<Rightarrow> key_binding list option" where
  "km_bindings_for_action km action =
     filter_bindings_for_action km action
       (case km_indices_by_action_id km (a_type_id action) of None \<Rightarrow> [] | Some ixs \<Rightarrow> ixs)"

definition all_bindings_for_input :: "target_os \<Rightarrow> keymap \<Rightarrow> keystroke list \<Rightarrow> key_binding list" where
  "all_bindings_for_input os km input =
     filter (\<lambda>b. match_keystrokes os b input = Some False) (rev (km_bindings km))"

definition binding_enabled :: "key_binding \<Rightarrow> key_context list \<Rightarrow> nat option" where
  "binding_enabled binding contexts =
     (case kb_context_predicate binding of
        Some predicate \<Rightarrow> depth_of predicate contexts
      | None \<Rightarrow> Some (length contexts))"

subsection \<open>Resolution of an input\<close>

text \<open>The first loop of \<open>resolve_bindings_for_input\<close>: what matches fully and what is pending.\<close>

fun collect_matches ::
  "target_os \<Rightarrow> keystroke list \<Rightarrow> key_context list \<Rightarrow> (nat \<times> key_binding) list \<Rightarrow>
   (nat \<times> nat \<times> key_binding) list \<times> (nat \<times> key_binding) list" where
  "collect_matches os input contexts [] = ([], [])"
| "collect_matches os input contexts ((ix, binding) # rest) =
     (let (matched, pending) = collect_matches os input contexts rest in
      case binding_enabled binding contexts of
        None \<Rightarrow> (matched, pending)
      | Some depth \<Rightarrow>
          (case match_keystrokes os binding input of
             None \<Rightarrow> (matched, pending)
           | Some False \<Rightarrow> ((depth, ix, binding) # matched, pending)
           | Some True \<Rightarrow> (matched, (ix, binding) # pending)))"

text \<open>\<open>sort_by\<close> on depth, then index, both descending.\<close>

definition precedence_key :: "nat \<times> nat \<times> key_binding \<Rightarrow> int \<times> int" where
  "precedence_key = (\<lambda>(depth, ix, _). (- int depth, - int ix))"

definition sort_by_precedence ::
  "(nat \<times> nat \<times> key_binding) list \<Rightarrow> (nat \<times> nat \<times> key_binding) list" where
  "sort_by_precedence ms = sort_key precedence_key ms"

text \<open>Whether a \<open>NoAction\<close> binding ends the search: one of the user, or one without meta data.\<close>

definition is_user_null :: "key_binding \<Rightarrow> bool" where
  "is_user_null binding \<longleftrightarrow>
     is_no_action (kb_action binding) \<and>
     (case kb_meta binding of Some meta \<Rightarrow> meta = 0 | None \<Rightarrow> True)"

fun select_bindings :: "(nat \<times> nat \<times> key_binding) list \<Rightarrow> (nat \<times> key_binding) list" where
  "select_bindings [] = []"
| "select_bindings ((_, ix, binding) # rest) =
     (if is_no_action (kb_action binding) then
        (if is_user_null binding then [] else select_bindings rest)
      else (ix, binding) # select_bindings rest)"

fun pending_keystrokes ::
  "nat option \<Rightarrow> (nat \<times> key_binding) list \<Rightarrow> keybinding_keystroke list set \<Rightarrow>
   keybinding_keystroke list set" where
  "pending_keystrokes first_ix [] pending = pending"
| "pending_keystrokes first_ix ((ix, binding) # rest) pending =
     (if (case first_ix of Some binding_ix \<Rightarrow> ix < binding_ix | None \<Rightarrow> False)
      then pending_keystrokes first_ix rest pending
      else if is_no_action (kb_action binding)
      then pending_keystrokes first_ix rest (pending - {kb_keystrokes binding})
      else pending_keystrokes first_ix rest (insert (kb_keystrokes binding) pending))"

definition resolve_bindings_for_input ::
  "target_os \<Rightarrow> keystroke list \<Rightarrow> key_context list \<Rightarrow> (nat \<times> key_binding) list \<Rightarrow>
   (nat \<times> key_binding) list \<times> bool" where
  "resolve_bindings_for_input os input contexts keymap_bindings =
     (let (matched, pending_bindings) = collect_matches os input contexts keymap_bindings;
          bindings = select_bindings (sort_by_precedence matched);
          first_ix = (case bindings of [] \<Rightarrow> None | (ix, _) # _ \<Rightarrow> Some ix);
          pending = pending_keystrokes first_ix (rev pending_bindings) {}
      in (bindings, \<not> Set.is_empty pending))"

definition enumerated :: "keymap \<Rightarrow> (nat \<times> key_binding) list" where
  "enumerated km = rev (List.enumerate 0 (km_bindings km))"

definition bindings_for_input ::
  "target_os \<Rightarrow> keymap \<Rightarrow> keystroke list \<Rightarrow> key_context list \<Rightarrow> key_binding list \<times> bool" where
  "bindings_for_input os km input contexts =
     (let (bindings, pending) = resolve_bindings_for_input os input contexts (enumerated km)
      in (map snd bindings, pending))"

text \<open>The keystrokes a candidate needs: the typed input, then the rest of its own keystrokes.\<close>

definition full_input :: "keystroke list \<Rightarrow> key_binding \<Rightarrow> keystroke list" where
  "full_input input binding = input @ map kb_inner (drop (length input) (kb_keystrokes binding))"

definition next_candidates ::
  "target_os \<Rightarrow> keystroke list \<Rightarrow> key_context list \<Rightarrow> (nat \<times> key_binding) list \<Rightarrow>
   (nat \<times> nat \<times> key_binding) list" where
  "next_candidates os input contexts extending =
     List.map_filter
       (\<lambda>(ix, binding).
          case binding_enabled binding contexts of
            None \<Rightarrow> None
          | Some depth \<Rightarrow>
              let (dispatched, _) =
                resolve_bindings_for_input os (full_input input binding) contexts extending
              in if list_ex (\<lambda>(dispatched_ix, _). dispatched_ix = ix) dispatched
                 then Some (depth, ix, binding) else None)
       (filter (\<lambda>(_, binding). \<not> is_no_action (kb_action binding)) extending)"

definition possible_next_bindings_for_input ::
  "target_os \<Rightarrow> keymap \<Rightarrow> keystroke list \<Rightarrow> key_context list \<Rightarrow> key_binding list" where
  "possible_next_bindings_for_input os km input contexts =
     (let extending =
        filter (\<lambda>(_, binding). match_keystrokes os binding input = Some True) (enumerated km)
      in map (\<lambda>(_, _, binding). binding)
           (sort_by_precedence (next_candidates os input contexts extending)))"


section \<open>The indices of a keymap\<close>

text \<open>
  The two index structures list exactly the positions of the bindings they are for, in the order
  the bindings were added.
\<close>

definition indices_of :: "keymap \<Rightarrow> (key_binding \<Rightarrow> bool) \<Rightarrow> nat list" where
  "indices_of km P = filter (\<lambda>i. P (km_bindings km ! i)) [0..<length (km_bindings km)]"

definition action_indices :: "keymap \<Rightarrow> nat \<Rightarrow> nat list" where
  "action_indices km t = (case km_indices_by_action_id km t of None \<Rightarrow> [] | Some ixs \<Rightarrow> ixs)"

definition km_wf :: "keymap \<Rightarrow> bool" where
  "km_wf km \<longleftrightarrow>
     km_no_action_indices km = indices_of km (\<lambda>b. is_no_action (kb_action b)) \<and>
     (\<forall>t. action_indices km t =
        indices_of km (\<lambda>b. \<not> is_no_action (kb_action b) \<and> a_type_id (kb_action b) = t))"

lemma km_wf_default [simp]: "km_wf km_default"
  by (simp add: km_wf_def km_default_def indices_of_def action_indices_def)

lemma km_bindings_add_binding [simp]:
  "km_bindings (km_add_binding km b) = km_bindings km @ [b]"
  by (simp add: km_add_binding_def Let_def)

lemma indices_of_add_binding:
  "indices_of (km_add_binding km b) P =
     indices_of km P @ (if P b then [length (km_bindings km)] else [])"
proof -
  have "filter (\<lambda>i. P ((km_bindings km @ [b]) ! i)) [0..<length (km_bindings km)] =
      filter (\<lambda>i. P (km_bindings km ! i)) [0..<length (km_bindings km)]"
    by (rule filter_cong) (auto simp: nth_append)
  then show ?thesis by (simp add: indices_of_def)
qed

lemma no_action_indices_add_binding:
  "km_no_action_indices (km_add_binding km b) =
     km_no_action_indices km @ (if is_no_action (kb_action b) then [length (km_bindings km)] else [])"
  by (simp add: km_add_binding_def Let_def)

lemma action_indices_add_binding:
  "action_indices (km_add_binding km b) t =
     action_indices km t @
       (if \<not> is_no_action (kb_action b) \<and> a_type_id (kb_action b) = t
        then [length (km_bindings km)] else [])"
  by (auto simp: km_add_binding_def Let_def action_indices_def)

lemma km_wf_add_binding: "km_wf km \<Longrightarrow> km_wf (km_add_binding km b)"
  by (simp add: km_wf_def indices_of_add_binding no_action_indices_add_binding
      action_indices_add_binding)

lemma km_wf_foldl: "km_wf km \<Longrightarrow> km_wf (foldl km_add_binding km bs)"
  by (induction bs arbitrary: km) (simp_all add: km_wf_add_binding)

lemma km_wf_version [simp]: "km_wf (km\<lparr>km_version := v\<rparr>) = km_wf km"
  by (simp add: km_wf_def indices_of_def action_indices_def)

text \<open>The states a keymap can reach from \<open>Keymap::default\<close> by its public operations.\<close>

inductive km_reachable :: "keymap \<Rightarrow> bool" where
  default: "km_reachable km_default"
| add: "km_reachable km \<Longrightarrow> km_reachable (km_add_bindings km bindings)"
| clear: "km_reachable km \<Longrightarrow> km_reachable (km_clear km)"

lemma km_reachable_wf: "km_reachable km \<Longrightarrow> km_wf km"
proof (induction rule: km_reachable.induct)
  case (add km bindings)
  then show ?case by (simp add: km_add_bindings_def Let_def km_wf_foldl)
qed (simp_all add: km_wf_def km_clear_def indices_of_def action_indices_def km_default_def)

lemma km_version_add_bindings: "km_version (km_add_bindings km bs) = Suc (km_version km)"
proof -
  have "km_version (foldl km_add_binding km bs) = km_version km"
    by (induction bs arbitrary: km) (simp_all add: km_add_binding_def Let_def)
  then show ?thesis by (simp add: km_add_bindings_def Let_def)
qed

lemma disabled_by_null_eq:
  "\<forall>n \<in> set ns. n < length bs \<Longrightarrow>
   disabled_by_null bs ix b ns = Some (\<exists>n \<in> set ns. ix < n \<and> null_binding_matches (bs ! n) b)"
  by (induction ns) (auto simp: nth_opt_def)

lemma filter_bindings_for_action_eq:
  assumes "\<forall>n \<in> set (km_no_action_indices km). n < length (km_bindings km)"
    and "\<forall>i \<in> set ixs. i < length (km_bindings km)"
  shows "filter_bindings_for_action km a ixs =
    Some (map ((!) (km_bindings km))
      (filter (\<lambda>i. action_partial_eq (kb_action (km_bindings km ! i)) a \<and>
                   \<not> (\<exists>n \<in> set (km_no_action_indices km). i < n \<and>
                        null_binding_matches (km_bindings km ! n) (km_bindings km ! i))) ixs))"
  using assms(2)
proof (induction ixs)
  case (Cons i ixs)
  then have "i < length (km_bindings km)" by simp
  with Cons show ?case
    using disabled_by_null_eq [OF assms(1), of i "km_bindings km ! i"]
    by (auto simp: nth_opt_def split: bool.split)
qed simp

text \<open>
  In every reachable keymap \<open>bindings_for_action\<close> is defined (no index is out of range) and lists,
  in the order they were added, exactly the bindings whose action equals the given one and that no
  later \<open>NoAction\<close> binding with the same keystrokes and an at least as general context disables.
\<close>

theorem km_bindings_for_action_spec:
  assumes "km_reachable km" and "\<not> is_no_action a"
  shows "km_bindings_for_action km a =
    Some (map ((!) (km_bindings km))
      (filter (\<lambda>i. action_partial_eq (kb_action (km_bindings km ! i)) a \<and>
                   \<not> list_ex (\<lambda>n. is_no_action (kb_action (km_bindings km ! n)) \<and>
                          null_binding_matches (km_bindings km ! n) (km_bindings km ! i))
                       [Suc i..<length (km_bindings km)])
        [0..<length (km_bindings km)]))"
proof -
  let ?bs = "km_bindings km" and ?n = "length (km_bindings km)"
  have wf: "km_no_action_indices km = indices_of km (\<lambda>b. is_no_action (kb_action b))"
    "action_indices km (a_type_id a) =
      indices_of km (\<lambda>b. \<not> is_no_action (kb_action b) \<and> a_type_id (kb_action b) = a_type_id a)"
    using km_reachable_wf [OF assms(1)] by (simp_all add: km_wf_def)
  have "km_bindings_for_action km a =
    Some (map ((!) ?bs)
      (filter (\<lambda>i. action_partial_eq (kb_action (?bs ! i)) a \<and>
                   \<not> (\<exists>n \<in> set (km_no_action_indices km). i < n \<and>
                        null_binding_matches (?bs ! n) (?bs ! i)))
        (action_indices km (a_type_id a))))"
    unfolding km_bindings_for_action_def action_indices_def [symmetric]
    by (rule filter_bindings_for_action_eq) (auto simp: wf indices_of_def)
  also have "filter (\<lambda>i. action_partial_eq (kb_action (?bs ! i)) a \<and>
                   \<not> (\<exists>n \<in> set (km_no_action_indices km). i < n \<and>
                        null_binding_matches (?bs ! n) (?bs ! i))) (action_indices km (a_type_id a)) =
      filter (\<lambda>i. action_partial_eq (kb_action (?bs ! i)) a \<and>
                   \<not> list_ex (\<lambda>n. is_no_action (kb_action (?bs ! n)) \<and>
                          null_binding_matches (?bs ! n) (?bs ! i)) [Suc i..<?n]) [0..<?n]"
  proof -
    have nulls: "(\<exists>n \<in> set (indices_of km (\<lambda>b. is_no_action (kb_action b))). i < n \<and> Q n) \<longleftrightarrow>
        list_ex (\<lambda>n. is_no_action (kb_action (?bs ! n)) \<and> Q n) [Suc i..<?n]" for i Q
      unfolding indices_of_def list_ex_iff set_filter set_upt by auto
    have same: "action_partial_eq x a \<Longrightarrow> \<not> is_no_action x \<and> a_type_id x = a_type_id a" for x
      using assms(2) by (simp add: action_partial_eq_def is_no_action_def)
    show ?thesis
      unfolding wf nulls unfolding indices_of_def filter_filter
      by (rule filter_cong [OF refl]) (use same in blast)
  qed
  finally show ?thesis .
qed

definition act :: "nat \<Rightarrow> action" where
  "act t = \<lparr>a_type_id = t, a_value = []\<rparr>"

definition bind_key :: "string \<Rightarrow> action \<Rightarrow> key_binding" where
  "bind_key key a =
     \<lparr>kb_action = a,
      kb_keystrokes = [from_keystroke \<lparr>k_modifiers = mods_none, k_key = key, k_key_char = None\<rparr>],
      kb_context_predicate = None, kb_meta = None, kb_action_input = None\<rparr>"

theorem km_bindings_for_action_spec_witness:
  "km_reachable (km_add_bindings km_default
     [bind_key ''a'' (act 1), bind_key ''b'' (act 1), bind_key ''a'' (act 0)]) \<and>
   km_bindings_for_action (km_add_bindings km_default
     [bind_key ''a'' (act 1), bind_key ''b'' (act 1), bind_key ''a'' (act 0)]) (act 1) =
   Some [bind_key ''b'' (act 1)]"
proof -
  let ?km = "km_add_bindings km_default
     [bind_key ''a'' (act 1), bind_key ''b'' (act 1), bind_key ''a'' (act 0)]"
  have r: "km_reachable ?km" by (intro km_reachable.intros)
  have n: "\<not> is_no_action (act 1)" by code_simp
  have "map ((!) (km_bindings ?km))
      (filter (\<lambda>i. action_partial_eq (kb_action (km_bindings ?km ! i)) (act 1) \<and>
                   \<not> list_ex (\<lambda>n. is_no_action (kb_action (km_bindings ?km ! n)) \<and>
                          null_binding_matches (km_bindings ?km ! n) (km_bindings ?km ! i))
                       [Suc i..<length (km_bindings ?km)])
        [0..<length (km_bindings ?km)]) = [bind_key ''b'' (act 1)]"
    by code_simp
  with r km_bindings_for_action_spec [OF r n] show ?thesis by simp
qed


section \<open>Which bindings an input resolves to\<close>

lemma match_keystrokes_iff:
  "match_keystrokes os b typed = Some pending \<longleftrightarrow>
     length typed \<le> length (kb_keystrokes b) \<and>
     (\<forall>i < length typed. should_match os (typed ! i) (kb_keystrokes b ! i)) \<and>
     pending = (length typed < length (kb_keystrokes b))"
  by (auto simp: match_keystrokes_def list_ex_iff set_zip)

lemma collect_matches_matched:
  "(d, ix, b) \<in> set (fst (collect_matches os input contexts kbs)) \<longleftrightarrow>
     (ix, b) \<in> set kbs \<and> binding_enabled b contexts = Some d \<and>
     match_keystrokes os b input = Some False"
  by (induction os input contexts kbs rule: collect_matches.induct)
    (auto simp: Let_def split: prod.splits option.splits bool.splits)

lemma collect_matches_pending:
  "snd (collect_matches os input contexts kbs) =
     filter (\<lambda>(ix, b). binding_enabled b contexts \<noteq> None \<and> match_keystrokes os b input = Some True) kbs"
  by (induction os input contexts kbs rule: collect_matches.induct)
    (auto simp: Let_def case_prod_beta split: option.splits bool.splits)

lemma collect_matches_filter:
  assumes "\<forall>(ix, b) \<in> set kbs. \<not> Q (ix, b) \<longrightarrow> match_keystrokes os b input = None"
  shows "collect_matches os input contexts (filter Q kbs) = collect_matches os input contexts kbs"
  using assms
  by (induction os input contexts kbs rule: collect_matches.induct)
    (auto simp: Let_def case_prod_beta split: option.splits)

lemma select_bindings_eq:
  "select_bindings ms =
     map (\<lambda>(_, ix, b). (ix, b))
       (filter (\<lambda>(_, _, b). \<not> is_no_action (kb_action b))
         (takeWhile (\<lambda>(_, _, b). \<not> is_user_null b) ms))"
  by (induction ms rule: select_bindings.induct) (auto simp: is_user_null_def)

text \<open>In a list sorted by distinct keys, \<open>takeWhile\<close> keeps what no smaller key cuts off.\<close>

lemma takeWhile_sorted_key:
  assumes "sorted (map f xs)" and "inj_on f (set xs)"
  shows "x \<in> set (takeWhile P xs) \<longleftrightarrow> x \<in> set xs \<and> (\<forall>y \<in> set xs. f y \<le> f x \<longrightarrow> P y)"
  using assms
proof (induction xs)
  case (Cons a xs)
  have IH: "x \<in> set (takeWhile P xs) \<longleftrightarrow> x \<in> set xs \<and> (\<forall>y \<in> set xs. f y \<le> f x \<longrightarrow> P y)"
    using Cons.IH Cons.prems by (auto simp: inj_on_def)
  have a: "\<forall>y \<in> set xs. f a \<le> f y" and inj: "\<forall>y \<in> set xs. f y = f a \<longrightarrow> y = a"
    using Cons.prems by (auto simp: inj_on_def)
  show ?case
  proof (cases "x = a")
    case True
    have "P a \<Longrightarrow> \<forall>y \<in> set (a # xs). f y \<le> f a \<longrightarrow> P y"
      using a inj by (metis order_antisym set_ConsD)
    with True show ?thesis using set_takeWhileD by fastforce
  next
    case False
    with IH a show ?thesis by auto
  qed
qed simp

lemma inj_on_precedence_key:
  assumes "\<forall>(d, ix, b) \<in> set ms. \<forall>(d', ix', b') \<in> set ms. ix = ix' \<longrightarrow> b = b'"
  shows "inj_on precedence_key (set ms)"
  using assms by (fastforce simp: inj_on_def precedence_key_def)

text \<open>
  \<open>outranks\<close>: deeper contexts first, then later bindings. \<open>candidate\<close>: enabled at a depth and
  matched by the whole input. \<open>wins\<close>: a candidate that no user \<open>NoAction\<close> candidate outranks.
\<close>

definition outranks :: "nat \<times> nat \<Rightarrow> nat \<times> nat \<Rightarrow> bool" where
  "outranks p q \<longleftrightarrow> fst q < fst p \<or> fst q = fst p \<and> snd q < snd p"

definition candidate ::
  "target_os \<Rightarrow> (nat \<times> key_binding) list \<Rightarrow> keystroke list \<Rightarrow> key_context list \<Rightarrow>
   nat \<Rightarrow> nat \<Rightarrow> key_binding \<Rightarrow> bool" where
  "candidate os kbs input contexts d ix b \<longleftrightarrow>
     (ix, b) \<in> set kbs \<and> binding_enabled b contexts = Some d \<and>
     match_keystrokes os b input = Some False"

definition wins ::
  "target_os \<Rightarrow> (nat \<times> key_binding) list \<Rightarrow> keystroke list \<Rightarrow> key_context list \<Rightarrow>
   nat \<Rightarrow> key_binding \<Rightarrow> bool" where
  "wins os kbs input contexts ix b \<longleftrightarrow>
     \<not> is_no_action (kb_action b) \<and>
     (\<exists>d. candidate os kbs input contexts d ix b \<and>
        \<not> (\<exists>d' ix' null. candidate os kbs input contexts d' ix' null \<and> is_user_null null \<and>
             outranks (d', ix') (d, ix)))"

lemma precedence_key_le:
  "precedence_key (d', ix', b') \<le> precedence_key (d, ix, b) \<longleftrightarrow>
     outranks (d', ix') (d, ix) \<or> (d', ix') = (d, ix)"
  by (auto simp: precedence_key_def outranks_def less_eq_prod_def)

abbreviation functional :: "(nat \<times> key_binding) list \<Rightarrow> bool" where
  "functional kbs \<equiv> (\<forall>ix b b'. (ix, b) \<in> set kbs \<longrightarrow> (ix, b') \<in> set kbs \<longrightarrow> b = b')"

lemma functional_enumerated: "functional (enumerated km)"
  by (auto simp: enumerated_def set_enumerate_iff)

lemma matched_inj:
  "functional kbs \<Longrightarrow>
   inj_on precedence_key (set (fst (collect_matches os input contexts kbs)))"
  by (rule inj_on_precedence_key) (auto simp: collect_matches_matched)

lemma resolve_wins:
  assumes "functional kbs"
  shows "(ix, b) \<in> set (fst (resolve_bindings_for_input os input contexts kbs)) \<longleftrightarrow>
    wins os kbs input contexts ix b"
proof -
  let ?ms = "fst (collect_matches os input contexts kbs)"
  let ?s = "sort_by_precedence ?ms"
  have s: "sorted (map precedence_key ?s)" "set ?s = set ?ms" "inj_on precedence_key (set ?s)"
    using matched_inj [OF assms] by (simp_all add: sort_by_precedence_def)
  have tw: "(d, ix, b) \<in> set (takeWhile (\<lambda>(_, _, b). \<not> is_user_null b) ?s) \<longleftrightarrow>
      candidate os kbs input contexts d ix b \<and> \<not> is_user_null b \<and>
      \<not> (\<exists>d' ix' null. candidate os kbs input contexts d' ix' null \<and> is_user_null null \<and>
           outranks (d', ix') (d, ix))" for d
  proof -
    have "(d, ix, b) \<in> set (takeWhile (\<lambda>(_, _, b). \<not> is_user_null b) ?s) \<longleftrightarrow>
        candidate os kbs input contexts d ix b \<and>
        (\<forall>d' ix' b'. candidate os kbs input contexts d' ix' b' \<longrightarrow>
           outranks (d', ix') (d, ix) \<or> (d', ix') = (d, ix) \<longrightarrow> \<not> is_user_null b')"
      unfolding takeWhile_sorted_key [OF s(1,3)] s(2) Ball_def split_paired_All
        collect_matches_matched candidate_def precedence_key_le by simp
    then show ?thesis
      using assms by (auto simp: candidate_def)
  qed
  have "(ix, b) \<in> set (fst (resolve_bindings_for_input os input contexts kbs)) \<longleftrightarrow>
      \<not> is_no_action (kb_action b) \<and>
      (\<exists>d. (d, ix, b) \<in> set (takeWhile (\<lambda>(_, _, b). \<not> is_user_null b) ?s))"
    by (cases "collect_matches os input contexts kbs")
      (force simp: resolve_bindings_for_input_def Let_def select_bindings_eq)
  then show ?thesis
    unfolding tw wins_def by (auto simp: is_user_null_def)
qed


lemma collect_matches_matched_eq:
  "fst (collect_matches os input contexts kbs) =
     map (\<lambda>(ix, b). (the (binding_enabled b contexts), ix, b))
       (filter (\<lambda>(ix, b). binding_enabled b contexts \<noteq> None \<and> match_keystrokes os b input = Some False)
         kbs)"
  by (induction os input contexts kbs rule: collect_matches.induct)
    (auto simp: Let_def case_prod_beta split: option.splits bool.splits)

lemma distinct_enumerated: "distinct (map fst (enumerated km))"
  by (simp add: enumerated_def rev_map [symmetric] del: distinct_rev) simp

definition precedes :: "key_context list \<Rightarrow> nat \<times> key_binding \<Rightarrow> nat \<times> key_binding \<Rightarrow> bool" where
  "precedes contexts p q \<longleftrightarrow>
     outranks (the (binding_enabled (snd p) contexts), fst p)
              (the (binding_enabled (snd q) contexts), fst q)"

lemma distinct_mapE: "distinct (map f ys) \<Longrightarrow> distinct ys"
  by (simp add: distinct_map)

abbreviation with_depth :: "key_context list \<Rightarrow> nat \<times> key_binding \<Rightarrow> nat \<times> nat \<times> key_binding" where
  "with_depth contexts \<equiv> \<lambda>(ix, b). (the (binding_enabled b contexts), ix, b)"

lemma sorted_with_depth:
  assumes "distinct (map fst xs)"
  shows "sorted_wrt (\<lambda>x y. precedes contexts (snd x) (snd y))
    (sort_by_precedence (map (with_depth contexts) xs))"
proof -
  let ?ms = "map (with_depth contexts) xs"
  have "map fst xs = map (\<lambda>(_, i). nat (- i)) (map precedence_key ?ms)"
    by (simp add: precedence_key_def case_prod_beta)
  with assms have "distinct (map precedence_key ?ms)"
    by (simp only: distinct_mapE)
  then have "distinct (map precedence_key (sort_by_precedence ?ms))"
    unfolding distinct_map [of precedence_key] sort_by_precedence_def distinct_sort set_sort .
  then have "sorted_wrt (\<lambda>x y. precedence_key x < precedence_key y) (sort_by_precedence ?ms)"
    unfolding sorted_wrt_map [symmetric] strict_sorted_iff
    by (simp add: sort_by_precedence_def)
  then show ?thesis
  proof (rule sorted_wrt_mono_rel [rotated])
    fix x y
    assume "x \<in> set (sort_by_precedence ?ms)" "y \<in> set (sort_by_precedence ?ms)"
      and less: "precedence_key x < precedence_key y"
    then have "x \<in> set ?ms" "y \<in> set ?ms" by (simp_all add: sort_by_precedence_def)
    with less show "precedes contexts (snd x) (snd y)"
      by (auto simp: precedes_def outranks_def precedence_key_def)
  qed
qed

lemma resolve_sorted:
  assumes "distinct (map fst kbs)"
  shows "sorted_wrt (precedes contexts) (fst (resolve_bindings_for_input os input contexts kbs))"
proof -
  let ?ms = "fst (collect_matches os input contexts kbs)"
  have "sorted_wrt (\<lambda>x y. precedes contexts (snd x) (snd y)) (sort_by_precedence ?ms)"
    unfolding collect_matches_matched_eq
    by (rule sorted_with_depth) (use assms in \<open>simp add: distinct_map_filter\<close>)
  then have "sorted_wrt (\<lambda>x y. precedes contexts (snd x) (snd y))
      (filter (\<lambda>(_, _, b). \<not> is_no_action (kb_action b))
        (takeWhile (\<lambda>(_, _, b). \<not> is_user_null b) (sort_by_precedence ?ms)))"
    by (intro sorted_wrt_filter sorted_wrt_takeWhile)
  then show ?thesis
    by (cases "collect_matches os input contexts kbs")
      (simp add: resolve_bindings_for_input_def Let_def select_bindings_eq sorted_wrt_map
        case_prod_beta)
qed

text \<open>
  C2. \<open>Keymap::bindings_for_input\<close> returns exactly the winning bindings, ordered by precedence: the
  bindings that are enabled in the context stack, that the whole input matches, that are not
  \<open>NoAction\<close>, and that no matching user \<open>NoAction\<close> binding outranks; a deeper context comes
  first, and at equal depth the binding that was added later.
\<close>

theorem bindings_for_input_spec:
  "\<exists>ixs. fst (bindings_for_input os km input contexts) = map snd ixs \<and>
     (\<forall>ix b. ((ix, b) \<in> set ixs) = wins os (enumerated km) input contexts ix b) \<and>
     sorted_wrt (precedes contexts) ixs"
  by (rule exI [of _ "fst (resolve_bindings_for_input os input contexts (enumerated km))"])
    (simp add: bindings_for_input_def case_prod_beta resolve_wins functional_enumerated
      resolve_sorted distinct_enumerated)

section \<open>When more input is awaited\<close>

definition live :: "nat option \<Rightarrow> nat \<Rightarrow> bool" where
  "live first_ix ix \<longleftrightarrow> (case first_ix of Some binding_ix \<Rightarrow> binding_ix \<le> ix | None \<Rightarrow> True)"

lemma pending_keystrokes_iff:
  "ks \<in> pending_keystrokes first_ix ps P \<longleftrightarrow>
     (\<exists>qs ix b rs. ps = qs @ (ix, b) # rs \<and> live first_ix ix \<and> \<not> is_no_action (kb_action b) \<and>
        kb_keystrokes b = ks \<and>
        (\<forall>(ix', b') \<in> set rs. live first_ix ix' \<and> kb_keystrokes b' = ks \<longrightarrow>
           \<not> is_no_action (kb_action b'))) \<or>
     ks \<in> P \<and> (\<forall>(ix', b') \<in> set ps. live first_ix ix' \<and> kb_keystrokes b' = ks \<longrightarrow>
           \<not> is_no_action (kb_action b'))"
proof (induction first_ix ps P rule: pending_keystrokes.induct)
  case (2 first_ix ix b rest P)
  let ?ok = "\<lambda>(ix', b'). live first_ix ix' \<and> kb_keystrokes b' = ks \<longrightarrow> \<not> is_no_action (kb_action b')"
  let ?ins = "\<lambda>ps. \<exists>qs ix b rs. ps = qs @ (ix, b) # rs \<and> live first_ix ix \<and>
    \<not> is_no_action (kb_action b) \<and> kb_keystrokes b = ks \<and> (\<forall>x \<in> set rs. ?ok x)"
  have split: "?ins ((ix, b) # rest) \<longleftrightarrow> ?ins rest \<or>
      live first_ix ix \<and> \<not> is_no_action (kb_action b) \<and> kb_keystrokes b = ks \<and> (\<forall>x \<in> set rest. ?ok x)"
    by (auto simp: Cons_eq_append_conv) blast+
  have live: "(case first_ix of Some binding_ix \<Rightarrow> ix < binding_ix | None \<Rightarrow> False) \<longleftrightarrow> \<not> live first_ix ix"
    by (auto simp: live_def split: option.splits)
  show ?case
    unfolding split using "2.IH" unfolding pending_keystrokes.simps live by auto
qed simp


lemma match_keystrokes_cong:
  "kb_keystrokes b = kb_keystrokes b' \<Longrightarrow> match_keystrokes os b input = match_keystrokes os b' input"
  by (simp add: match_keystrokes_def)

definition first_winner ::
  "target_os \<Rightarrow> keymap \<Rightarrow> keystroke list \<Rightarrow> key_context list \<Rightarrow> nat option" where
  "first_winner os km input contexts =
     (case fst (resolve_bindings_for_input os input contexts (enumerated km)) of
        [] \<Rightarrow> None | (ix, _) # _ \<Rightarrow> Some ix)"

text \<open>
  Binding \<open>ix\<close> keeps the input waiting: it is enabled, extends the input, was not added before the
  first winner, and no later enabled \<open>NoAction\<close> binding has its keystrokes.
\<close>

definition awaits ::
  "target_os \<Rightarrow> keymap \<Rightarrow> keystroke list \<Rightarrow> key_context list \<Rightarrow> nat \<Rightarrow> bool" where
  "awaits os km input contexts ix \<longleftrightarrow>
     ix < length (km_bindings km) \<and> \<not> is_no_action (kb_action (km_bindings km ! ix)) \<and>
     binding_enabled (km_bindings km ! ix) contexts \<noteq> None \<and>
     match_keystrokes os (km_bindings km ! ix) input = Some True \<and>
     live (first_winner os km input contexts) ix \<and>
     \<not> (\<exists>n < length (km_bindings km). ix < n \<and> is_no_action (kb_action (km_bindings km ! n)) \<and>
          binding_enabled (km_bindings km ! n) contexts \<noteq> None \<and>
          kb_keystrokes (km_bindings km ! n) = kb_keystrokes (km_bindings km ! ix))"

lemma sorted_split_later:
  assumes "sorted_wrt (\<lambda>p q. fst p < fst q) (qs @ (ix, b) # rs)"
  shows "set rs = {p \<in> set (qs @ (ix, b) # rs). (ix :: nat) < fst p}"
  using assms by (fastforce simp: sorted_wrt_append)

lemma sorted_enumerate: "sorted_wrt (\<lambda>p q. fst p < fst q) (List.enumerate n xs)"
  by (induction xs arbitrary: n) (auto simp: in_set_enumerate_eq)

text \<open>
  C3. \<open>bindings_for_input\<close> reports pending input exactly when some binding keeps the input waiting.
\<close>

theorem bindings_for_input_pending:
  "snd (bindings_for_input os km input contexts) = (\<exists>ix. awaits os km input contexts ix)"
proof -
  let ?first = "first_winner os km input contexts" and ?bs = "km_bindings km"
  define ps where "ps = filter (\<lambda>(ix, b). binding_enabled b contexts \<noteq> None \<and>
      match_keystrokes os b input = Some True) (List.enumerate 0 ?bs)"
  have ps: "(ix, b) \<in> set ps \<longleftrightarrow> ix < length ?bs \<and> b = ?bs ! ix \<and>
      binding_enabled b contexts \<noteq> None \<and> match_keystrokes os b input = Some True" for ix b
    unfolding ps_def by (auto simp: set_enumerate_iff)
  have sorted: "sorted_wrt (\<lambda>p q. fst p < fst q) ps"
    unfolding ps_def by (intro sorted_wrt_filter sorted_enumerate)
  have "snd (bindings_for_input os km input contexts) \<longleftrightarrow>
      (\<exists>ks. ks \<in> pending_keystrokes ?first ps {})"
    unfolding bindings_for_input_def resolve_bindings_for_input_def first_winner_def
    using collect_matches_pending [of os input contexts "enumerated km"]
    by (auto simp: Let_def case_prod_beta ps_def enumerated_def rev_filter)
  also have "\<dots> \<longleftrightarrow> (\<exists>ix. awaits os km input contexts ix)"
  proof
    assume "\<exists>ks. ks \<in> pending_keystrokes ?first ps {}"
    then obtain qs ix b rs where split: "ps = qs @ (ix, b) # rs" "live ?first ix"
      "\<not> is_no_action (kb_action b)"
      and later: "\<forall>(ix', b') \<in> set rs. live ?first ix' \<and> kb_keystrokes b' = kb_keystrokes b \<longrightarrow>
           \<not> is_no_action (kb_action b')"
      by (auto simp: pending_keystrokes_iff)
    have b: "(ix, b) \<in> set ps" using split(1) by simp
    have "False" if n: "n < length ?bs" "ix < n" "is_no_action (kb_action (?bs ! n))"
      "binding_enabled (?bs ! n) contexts \<noteq> None" "kb_keystrokes (?bs ! n) = kb_keystrokes b" for n
    proof -
      have "(n, ?bs ! n) \<in> set ps"
        using n b match_keystrokes_cong [OF n(5), of os input] by (auto simp: ps)
      moreover have "set rs = {p \<in> set ps. ix < fst p}"
        using sorted_split_later [OF sorted [unfolded split(1)]] split(1) by simp
      ultimately have "(n, ?bs ! n) \<in> set rs" using n(2) by simp
      moreover have "live ?first n" using split(2) n(2) by (auto simp: live_def split: option.splits)
      ultimately show False using later n by auto
    qed
    with b split show "\<exists>ix. awaits os km input contexts ix"
      unfolding awaits_def ps by blast
  next
    assume "\<exists>ix. awaits os km input contexts ix"
    then obtain ix where aw: "awaits os km input contexts ix" ..
    then have "(ix, ?bs ! ix) \<in> set ps" by (simp add: ps awaits_def)
    then obtain qs rs where split: "ps = qs @ (ix, ?bs ! ix) # rs" by (meson split_list)
    have rs: "set rs = {p \<in> set ps. ix < fst p}"
      using sorted_split_later [OF sorted [unfolded split]] split by simp
    have "\<not> is_no_action (kb_action b')"
      if "(n, b') \<in> set rs" "kb_keystrokes b' = kb_keystrokes (?bs ! ix)" for n b'
      using that aw unfolding rs awaits_def by (auto simp: ps)
    then have "kb_keystrokes (?bs ! ix) \<in> pending_keystrokes ?first ps {}"
      unfolding pending_keystrokes_iff using split aw awaits_def by blast
    then show "\<exists>ks. ks \<in> pending_keystrokes ?first ps {}" by blast
  qed
  finally show ?thesis .
qed

section \<open>Lookahead agrees with dispatch\<close>

lemma match_full_input_extends:
  assumes "match_keystrokes os b (full_input input c) \<noteq> None"
    and "match_keystrokes os c input = Some True"
  shows "match_keystrokes os b input = Some True"
proof -
  let ?full = "full_input input c"
  from assms(2) have "length input < length (kb_keystrokes c)" by (simp add: match_keystrokes_iff)
  then have len: "length input < length ?full" by (simp add: full_input_def)
  from assms(1) obtain p where m: "match_keystrokes os b ?full = Some p" by blast
  then have "should_match os (?full ! i) (kb_keystrokes b ! i)" if "i < length ?full" for i
    using that by (auto simp: match_keystrokes_iff)
  moreover have "?full ! i = input ! i" if "i < length input" for i
    using that by (simp add: full_input_def nth_append)
  ultimately have "should_match os (input ! i) (kb_keystrokes b ! i)" if "i < length input" for i
    using that len by (metis less_trans)
  with m len show ?thesis by (auto simp: match_keystrokes_iff)
qed

lemma resolve_extending:
  assumes "match_keystrokes os c input = Some True"
  shows "resolve_bindings_for_input os (full_input input c) contexts
      (filter (\<lambda>(_, b). match_keystrokes os b input = Some True) kbs) =
    resolve_bindings_for_input os (full_input input c) contexts kbs"
proof -
  have "\<forall>(ix, b) \<in> set kbs. \<not> (\<lambda>(_, b). match_keystrokes os b input = Some True) (ix, b) \<longrightarrow>
      match_keystrokes os b (full_input input c) = None"
    using match_full_input_extends [OF _ assms] by fastforce
  from collect_matches_filter [OF this] show ?thesis
    by (simp add: resolve_bindings_for_input_def)
qed

lemma wins_facts:
  assumes "wins os kbs input contexts ix b"
  shows "\<not> is_no_action (kb_action b)" and "(ix, b) \<in> set kbs"
    and "\<exists>d. binding_enabled b contexts = Some d"
  using assms by (auto simp: wins_def candidate_def)

lemma next_candidates_eq:
  "next_candidates os input contexts
      (filter (\<lambda>(_, b). match_keystrokes os b input = Some True) (enumerated km)) =
   map (with_depth contexts)
     (filter (\<lambda>(ix, b). match_keystrokes os b input = Some True \<and>
        wins os (enumerated km) (full_input input b) contexts ix b) (enumerated km))"
proof -
  let ?ext = "filter (\<lambda>(_, b). match_keystrokes os b input = Some True) (enumerated km)"
  define f where "f = (\<lambda>(ix, b). case binding_enabled b contexts of None \<Rightarrow> None
    | Some depth \<Rightarrow>
        let (dispatched, _) = resolve_bindings_for_input os (full_input input b) contexts ?ext
        in if list_ex (\<lambda>(dispatched_ix, _). dispatched_ix = ix) dispatched
           then Some (depth, ix, b) else None)"
  have f: "f (ix, b) =
      (if wins os (enumerated km) (full_input input b) contexts ix b
       then Some (with_depth contexts (ix, b)) else None)"
    if "(ix, b) \<in> set (enumerated km)" "match_keystrokes os b input = Some True" for ix b
  proof -
    let ?ds = "fst (resolve_bindings_for_input os (full_input input b) contexts ?ext)"
    have "(ix, b') \<in> set ?ds \<longleftrightarrow> wins os (enumerated km) (full_input input b) contexts ix b'" for b'
      unfolding resolve_extending [OF that(2)] by (rule resolve_wins [OF functional_enumerated])
    moreover have "b' = b" if "wins os (enumerated km) (full_input input b) contexts ix b'" for b'
      using wins_facts(2) [OF that] \<open>(ix, b) \<in> _\<close> functional_enumerated [of km] by blast
    ultimately have "list_ex (\<lambda>(dispatched_ix, _). dispatched_ix = ix) ?ds \<longleftrightarrow>
        wins os (enumerated km) (full_input input b) contexts ix b"
      by (fastforce simp: list_ex_iff)
    then show ?thesis
      by (auto simp: f_def case_prod_beta Let_def dest: wins_facts(3) split: option.splits)
  qed
  have "next_candidates os input contexts ?ext =
      map (the \<circ> f) (filter (\<lambda>x. f x \<noteq> None)
        (filter (\<lambda>(_, b). \<not> is_no_action (kb_action b)) ?ext))"
    unfolding next_candidates_def List.map_filter_def f_def ..
  also have "filter (\<lambda>x. f x \<noteq> None) (filter (\<lambda>(_, b). \<not> is_no_action (kb_action b)) ?ext) =
      filter (\<lambda>(ix, b). match_keystrokes os b input = Some True \<and>
        wins os (enumerated km) (full_input input b) contexts ix b) (enumerated km)"
    unfolding filter_filter
    by (rule filter_cong [OF refl]) (auto simp: f dest: wins_facts(1) split: if_splits)
  also have "map (the \<circ> f) \<dots> = map (with_depth contexts) \<dots>"
    by (rule map_cong [OF refl]) (auto simp: f)
  finally show ?thesis .
qed

text \<open>
  \<open>possible_next_bindings_for_input\<close> agrees with dispatch although it only looks at the bindings
  that extend the input: it lists, ordered by precedence, exactly the bindings that extend the
  input and that \<open>bindings_for_input\<close> resolves to, over the whole keymap, once their remaining
  keystrokes are typed.
\<close>

theorem possible_next_bindings_spec:
  "\<exists>ixs. possible_next_bindings_for_input os km input contexts = map snd ixs \<and>
     (\<forall>ix b. ((ix, b) \<in> set ixs) =
        (match_keystrokes os b input = Some True \<and>
         wins os (enumerated km) (full_input input b) contexts ix b)) \<and>
     sorted_wrt (precedes contexts) ixs"
proof (intro exI conjI allI)
  let ?ws = "filter (\<lambda>(ix, b). match_keystrokes os b input = Some True \<and>
        wins os (enumerated km) (full_input input b) contexts ix b) (enumerated km)"
  let ?ixs = "map snd (sort_by_precedence (map (with_depth contexts) ?ws))"
  show "possible_next_bindings_for_input os km input contexts = map snd ?ixs"
    by (simp add: possible_next_bindings_for_input_def next_candidates_eq case_prod_beta comp_def)
  show "((ix, b) \<in> set ?ixs) =
      (match_keystrokes os b input = Some True \<and>
       wins os (enumerated km) (full_input input b) contexts ix b)" for ix b
    by (force simp: sort_by_precedence_def dest: wins_facts(2))
  show "sorted_wrt (precedes contexts) ?ixs"
    unfolding sorted_wrt_map
    by (rule sorted_with_depth) (simp add: distinct_map_filter distinct_enumerated)
qed

end
