(* ===== verification/Key_Dispatch.thy ===== *)
theory Key_Dispatch
  imports Keymap
begin

text \<open>
  The dispatch tree: \<open>crates/gpui/src/key_dispatch.rs\<close>. Nodes live in a vector and name their parent
  by index; while a frame is built, \<open>node_stack\<close>, \<open>context_stack\<close> and \<open>view_stack\<close> describe the path to
  the active node. Listeners are named by numbers. An operation that indexes or unwraps returns an
  option: \<open>None\<close> is the panic, and for the loops that follow parents also the loop that does not
  end. The theory shows that a keystroke that ends a pending sequence is split into replayed
  segments without losing input; the invariant of the tree is in the theory Dispatch_Tree.
\<close>

section \<open>Data\<close>

record dispatch_node =
  dn_key_listeners :: "nat list"
  dn_action_listeners :: "(nat \<times> nat) list"
  dn_modifiers_changed_listeners :: "nat list"
  dn_context :: "key_context option"
  dn_focus_id :: "nat option"
  dn_view_id :: "nat option"
  dn_parent :: "nat option"

definition dn_default :: dispatch_node where
  "dn_default = \<lparr>dn_key_listeners = [], dn_action_listeners = [], dn_modifiers_changed_listeners = [],
     dn_context = None, dn_focus_id = None, dn_view_id = None, dn_parent = None\<rparr>"

record dispatch_tree =
  dt_node_stack :: "nat list"
  dt_context_stack :: "key_context list"
  dt_view_stack :: "nat list"
  dt_nodes :: "dispatch_node list"
  dt_focusable_node_ids :: "nat \<Rightarrow> nat option"
  dt_view_node_ids :: "nat \<Rightarrow> nat option"
  dt_keymap :: keymap

record reused_subtree =
  rs_old_start :: nat
  rs_old_end :: nat
  rs_new_start :: nat
  rs_new_end :: nat
  rs_contains_focus :: bool

record replay =
  rp_keystroke :: keystroke
  rp_bindings :: "key_binding list"

record dispatch_result =
  dr_pending :: "keystroke list"
  dr_bindings :: "key_binding list"
  dr_to_replay :: "replay list"
  dr_context_stack :: "key_context list"

text \<open>\<open>Vec::last\<close>.\<close>

definition last_opt :: "'a list \<Rightarrow> 'a option" where
  "last_opt xs = (if xs = [] then None else Some (last xs))"

section \<open>Building the tree\<close>

definition dt_new :: "keymap \<Rightarrow> dispatch_tree" where
  "dt_new km = \<lparr>dt_node_stack = [], dt_context_stack = [], dt_view_stack = [], dt_nodes = [],
     dt_focusable_node_ids = Map.empty, dt_view_node_ids = Map.empty, dt_keymap = km\<rparr>"

definition dt_clear :: "dispatch_tree \<Rightarrow> dispatch_tree" where
  "dt_clear t = t\<lparr>dt_node_stack := [], dt_context_stack := [], dt_view_stack := [], dt_nodes := [],
     dt_focusable_node_ids := Map.empty, dt_view_node_ids := Map.empty\<rparr>"

definition dt_len :: "dispatch_tree \<Rightarrow> nat" where
  "dt_len t = length (dt_nodes t)"

definition active_node_id :: "dispatch_tree \<Rightarrow> nat option" where
  "active_node_id t = last_opt (dt_node_stack t)"

definition push_node :: "dispatch_tree \<Rightarrow> nat \<times> dispatch_tree" where
  "push_node t =
     (let parent = last_opt (dt_node_stack t);
          node_id = length (dt_nodes t)
      in (node_id,
          t\<lparr>dt_nodes := dt_nodes t @ [dn_default\<lparr>dn_parent := parent\<rparr>],
            dt_node_stack := dt_node_stack t @ [node_id]\<rparr>))"

text \<open>\<open>self.active_node()\<close> as a place: update the active node, or panic when there is none.\<close>

definition update_active_node ::
  "(dispatch_node \<Rightarrow> dispatch_node) \<Rightarrow> dispatch_tree \<Rightarrow> dispatch_tree option" where
  "update_active_node f t =
     (case active_node_id t of
        None \<Rightarrow> None
      | Some i \<Rightarrow>
          if i < length (dt_nodes t)
          then Some (t\<lparr>dt_nodes := (dt_nodes t)[i := f (dt_nodes t ! i)]\<rparr>)
          else None)"

definition pop_node :: "dispatch_tree \<Rightarrow> dispatch_tree option" where
  "pop_node t =
     (case active_node_id t of
        None \<Rightarrow> None
      | Some i \<Rightarrow>
          (case nth_opt (dt_nodes t) i of
             None \<Rightarrow> None
           | Some node \<Rightarrow>
               let t1 = (if dn_context node \<noteq> None
                         then t\<lparr>dt_context_stack := butlast (dt_context_stack t)\<rparr> else t);
                   t2 = (if dn_view_id node \<noteq> None
                         then t1\<lparr>dt_view_stack := butlast (dt_view_stack t1)\<rparr> else t1)
               in Some (t2\<lparr>dt_node_stack := butlast (dt_node_stack t2)\<rparr>)))"

definition set_key_context :: "dispatch_tree \<Rightarrow> key_context \<Rightarrow> dispatch_tree option" where
  "set_key_context t context =
     (case update_active_node (\<lambda>n. n\<lparr>dn_context := Some context\<rparr>) t of
        None \<Rightarrow> None
      | Some t' \<Rightarrow> Some (t'\<lparr>dt_context_stack := dt_context_stack t' @ [context]\<rparr>))"

definition set_focus_id :: "dispatch_tree \<Rightarrow> nat \<Rightarrow> dispatch_tree option" where
  "set_focus_id t focus_id =
     (case active_node_id t of
        None \<Rightarrow> None
      | Some node_id \<Rightarrow>
          (case update_active_node (\<lambda>n. n\<lparr>dn_focus_id := Some focus_id\<rparr>) t of
             None \<Rightarrow> None
           | Some t' \<Rightarrow> Some (t'\<lparr>dt_focusable_node_ids :=
                           (dt_focusable_node_ids t')(focus_id \<mapsto> node_id)\<rparr>)))"

definition set_view_id :: "dispatch_tree \<Rightarrow> nat \<Rightarrow> dispatch_tree option" where
  "set_view_id t view_id =
     (if last_opt (dt_view_stack t) \<noteq> Some view_id then
        (case active_node_id t of
           None \<Rightarrow> None
         | Some node_id \<Rightarrow>
             (case update_active_node (\<lambda>n. n\<lparr>dn_view_id := Some view_id\<rparr>) t of
                None \<Rightarrow> None
              | Some t' \<Rightarrow> Some (t'\<lparr>dt_view_node_ids := (dt_view_node_ids t')(view_id \<mapsto> node_id),
                                   dt_view_stack := dt_view_stack t' @ [view_id]\<rparr>)))
      else Some t)"

definition on_key_event :: "dispatch_tree \<Rightarrow> nat \<Rightarrow> dispatch_tree option" where
  "on_key_event t listener =
     update_active_node (\<lambda>n. n\<lparr>dn_key_listeners := dn_key_listeners n @ [listener]\<rparr>) t"

definition on_modifiers_changed :: "dispatch_tree \<Rightarrow> nat \<Rightarrow> dispatch_tree option" where
  "on_modifiers_changed t listener =
     update_active_node
       (\<lambda>n. n\<lparr>dn_modifiers_changed_listeners := dn_modifiers_changed_listeners n @ [listener]\<rparr>) t"

definition on_action :: "dispatch_tree \<Rightarrow> nat \<Rightarrow> nat \<Rightarrow> dispatch_tree option" where
  "on_action t action_type listener =
     update_active_node
       (\<lambda>n. n\<lparr>dn_action_listeners := dn_action_listeners n @ [(action_type, listener)]\<rparr>) t"

subsection \<open>Moving the active node\<close>

text \<open>The loop \<open>while node_stack.last() != parent && !node_stack.is_empty() { pop_node() }\<close>.\<close>

lemma pop_node_length:
  "pop_node t = Some t' \<Longrightarrow> length (dt_node_stack t') < length (dt_node_stack t)"
  by (auto simp: pop_node_def active_node_id_def last_opt_def Let_def split: option.splits if_splits)

function pop_until :: "nat option \<Rightarrow> dispatch_tree \<Rightarrow> dispatch_tree option" where
  "pop_until parent t =
     (if last_opt (dt_node_stack t) \<noteq> parent \<and> dt_node_stack t \<noteq> [] then
        (case pop_node t of None \<Rightarrow> None | Some t' \<Rightarrow> pop_until parent t')
      else Some t)"
  by pat_completeness auto
termination
  by (relation "measure (\<lambda>(_, t). length (dt_node_stack t))") (auto dest: pop_node_length)

declare pop_until.simps [simp del]

text \<open>
  The second loop of \<open>set_active_node\<close> pushes contexts, views and node ids while it follows the
  parents; its three vectors are reversed afterwards.
\<close>

partial_function (option) push_ancestors ::
  "nat option \<Rightarrow> dispatch_tree \<Rightarrow> dispatch_tree option" where
  "push_ancestors current t =
     (case current of
        None \<Rightarrow> Some t
      | Some node_id \<Rightarrow>
          (case nth_opt (dt_nodes t) node_id of
             None \<Rightarrow> None
           | Some node \<Rightarrow>
               push_ancestors (dn_parent node)
                 (t\<lparr>dt_context_stack := dt_context_stack t @
                      (case dn_context node of None \<Rightarrow> [] | Some c \<Rightarrow> [c]),
                    dt_view_stack := dt_view_stack t @
                      (case dn_view_id node of None \<Rightarrow> [] | Some v \<Rightarrow> [v]),
                    dt_node_stack := dt_node_stack t @ [node_id]\<rparr>)))"

definition set_active_node :: "dispatch_tree \<Rightarrow> nat \<Rightarrow> dispatch_tree option" where
  "set_active_node t node_id =
     (case nth_opt (dt_nodes t) node_id of
        None \<Rightarrow> None
      | Some node \<Rightarrow>
          (case pop_until (dn_parent node) t of
             None \<Rightarrow> None
           | Some t1 \<Rightarrow>
               if last_opt (dt_node_stack t1) = dn_parent node then
                 Some (t1\<lparr>dt_node_stack := dt_node_stack t1 @ [node_id],
                          dt_view_stack := dt_view_stack t1 @
                            (case dn_view_id node of None \<Rightarrow> [] | Some v \<Rightarrow> [v]),
                          dt_context_stack := dt_context_stack t1 @
                            (case dn_context node of None \<Rightarrow> [] | Some c \<Rightarrow> [c])\<rparr>)
               else
                 (case push_ancestors (Some node_id) t1 of
                    None \<Rightarrow> None
                  | Some t2 \<Rightarrow> Some (t2\<lparr>dt_context_stack := rev (dt_context_stack t2),
                                       dt_view_stack := rev (dt_view_stack t2),
                                       dt_node_stack := rev (dt_node_stack t2)\<rparr>))))"

subsection \<open>Reusing and truncating\<close>

text \<open>\<open>move_node\<close> also empties the source node's listeners.\<close>

definition move_node ::
  "dispatch_tree \<Rightarrow> dispatch_node \<Rightarrow> (dispatch_tree \<times> dispatch_node) option" where
  "move_node t source =
     do {
       let t1 = snd (push_node t);
       t2 \<leftarrow> (case dn_context source of None \<Rightarrow> Some t1 | Some c \<Rightarrow> set_key_context t1 c);
       t3 \<leftarrow> (case dn_focus_id source of None \<Rightarrow> Some t2 | Some f \<Rightarrow> set_focus_id t2 f);
       t4 \<leftarrow> (case dn_view_id source of None \<Rightarrow> Some t3 | Some v \<Rightarrow> set_view_id t3 v);
       t5 \<leftarrow> update_active_node
         (\<lambda>target. target\<lparr>dn_key_listeners := dn_key_listeners source,
            dn_action_listeners := dn_action_listeners source,
            dn_modifiers_changed_listeners := dn_modifiers_changed_listeners source\<rparr>) t4;
       Some (t5, source\<lparr>dn_key_listeners := [], dn_action_listeners := [],
                 dn_modifiers_changed_listeners := []\<rparr>)
     }"

fun unwind_source_stack ::
  "nat option \<Rightarrow> nat list \<Rightarrow> dispatch_tree \<Rightarrow> (nat list \<times> dispatch_tree) option" where
  "unwind_source_stack parent [] t = Some ([], t)"
| "unwind_source_stack parent (source_ancestor # source_stack) t =
     (if parent = Some source_ancestor then Some (source_ancestor # source_stack, t)
      else (case pop_node t of None \<Rightarrow> None | Some t' \<Rightarrow> unwind_source_stack parent source_stack t'))"

text \<open>The stack of source ancestors is kept with its top first.\<close>

fun reuse_nodes ::
  "nat option \<Rightarrow> (nat \<times> dispatch_node) list \<Rightarrow> nat list \<Rightarrow> bool \<Rightarrow> dispatch_tree \<Rightarrow>
   (dispatch_node list \<times> nat list \<times> bool \<times> dispatch_tree) option" where
  "reuse_nodes focus [] source_stack contains_focus t = Some ([], source_stack, contains_focus, t)"
| "reuse_nodes focus ((source_node_id, source_node) # rest) source_stack contains_focus t =
     (case unwind_source_stack (dn_parent source_node) source_stack t of
        None \<Rightarrow> None
      | Some (stack1, t1) \<Rightarrow>
          (case move_node t1 source_node of
             None \<Rightarrow> None
           | Some (t2, emptied) \<Rightarrow>
               (case reuse_nodes focus rest (source_node_id # stack1)
                       (contains_focus \<or>
                        dn_focus_id source_node \<noteq> None \<and> dn_focus_id source_node = focus) t2 of
                  None \<Rightarrow> None
                | Some (nodes, stack', cf, t') \<Rightarrow> Some (emptied # nodes, stack', cf, t'))))"

fun pop_nodes :: "nat list \<Rightarrow> dispatch_tree \<Rightarrow> dispatch_tree option" where
  "pop_nodes [] t = Some t"
| "pop_nodes (_ # source_stack) t =
     (case pop_node t of None \<Rightarrow> None | Some t' \<Rightarrow> pop_nodes source_stack t')"

definition reuse_subtree ::
  "dispatch_tree \<Rightarrow> nat \<Rightarrow> nat \<Rightarrow> dispatch_tree \<Rightarrow> nat option \<Rightarrow>
   (reused_subtree \<times> dispatch_tree \<times> dispatch_tree) option" where
  "reuse_subtree t old_start old_end source focus =
     (let n = old_end - old_start;
          new_start = length (dt_nodes t);
          picked = take n (drop old_start (List.enumerate 0 (dt_nodes source)))
      in case reuse_nodes focus picked [] False t of
           None \<Rightarrow> None
         | Some (emptied, source_stack, contains_focus, t1) \<Rightarrow>
             (case pop_nodes source_stack t1 of
                None \<Rightarrow> None
              | Some t2 \<Rightarrow>
                  Some (\<lparr>rs_old_start = old_start, rs_old_end = old_end, rs_new_start = new_start,
                         rs_new_end = new_start + n, rs_contains_focus = contains_focus\<rparr>,
                        t2,
                        source\<lparr>dt_nodes := take old_start (dt_nodes source) @ emptied @
                                 drop (old_start + length emptied) (dt_nodes source)\<rparr>)))"

text \<open>The \<open>debug_assert!\<close> of \<open>refresh_node_id\<close> is the \<open>None\<close> branch.\<close>

definition refresh_node_id :: "reused_subtree \<Rightarrow> nat \<Rightarrow> nat option" where
  "refresh_node_id r node_id =
     (if rs_old_start r \<le> node_id \<and> node_id < rs_old_end r
      then Some ((node_id - rs_old_start r) + rs_new_start r) else None)"

definition dt_truncate :: "dispatch_tree \<Rightarrow> nat \<Rightarrow> dispatch_tree option" where
  "dt_truncate t index =
     (if index \<le> length (dt_nodes t) then
        (let removed = drop index (dt_nodes t);
             focus_ids = List.map_filter dn_focus_id removed;
             view_ids = List.map_filter dn_view_id removed
         in Some (t\<lparr>dt_focusable_node_ids := dt_focusable_node_ids t |` (- set focus_ids),
                    dt_view_node_ids := dt_view_node_ids t |` (- set view_ids),
                    dt_nodes := take index (dt_nodes t)\<rparr>))
      else None)"

section \<open>Paths\<close>

text \<open>Pushing while following the parents and reversing at the end is consing.\<close>

partial_function (option) collect_path :: "dispatch_node list \<Rightarrow> nat option \<Rightarrow> nat list \<Rightarrow> nat list option" where
  "collect_path nodes current path =
     (case current of
        None \<Rightarrow> Some path
      | Some node_id \<Rightarrow>
          collect_path nodes (case nth_opt nodes node_id of Some node \<Rightarrow> dn_parent node | None \<Rightarrow> None)
            (node_id # path))"

definition dispatch_path :: "dispatch_tree \<Rightarrow> nat \<Rightarrow> nat list option" where
  "dispatch_path t target = collect_path (dt_nodes t) (Some target) []"

partial_function (option) collect_ids ::
  "(dispatch_node \<Rightarrow> nat option) \<Rightarrow> dispatch_node list \<Rightarrow> nat option \<Rightarrow> nat list \<Rightarrow> nat list option" where
  "collect_ids f nodes current path =
     (case current of
        None \<Rightarrow> Some path
      | Some node_id \<Rightarrow>
          (case nth_opt nodes node_id of
             None \<Rightarrow> None
           | Some node \<Rightarrow>
               collect_ids f nodes (dn_parent node)
                 ((case f node of None \<Rightarrow> [] | Some x \<Rightarrow> [x]) @ path)))"

definition focus_path :: "dispatch_tree \<Rightarrow> nat \<Rightarrow> nat list option" where
  "focus_path t focus_id =
     collect_ids dn_focus_id (dt_nodes t) (dt_focusable_node_ids t focus_id) []"

definition view_path :: "dispatch_tree \<Rightarrow> nat \<Rightarrow> nat list option" where
  "view_path t view_id =
     collect_ids dn_view_id (dt_nodes t) (dt_view_node_ids t view_id) []"

partial_function (option) is_ancestor :: "dispatch_node list \<Rightarrow> nat \<Rightarrow> nat option \<Rightarrow> bool option" where
  "is_ancestor nodes parent current =
     (case current of
        None \<Rightarrow> Some False
      | Some node_id \<Rightarrow>
          if node_id = parent then Some True
          else (case nth_opt nodes node_id of
                  None \<Rightarrow> None
                | Some node \<Rightarrow> is_ancestor nodes parent (dn_parent node)))"

definition focus_contains :: "dispatch_tree \<Rightarrow> nat \<Rightarrow> nat \<Rightarrow> bool option" where
  "focus_contains t parent child =
     (if parent = child then Some True
      else case dt_focusable_node_ids t parent of
        Some parent_node_id \<Rightarrow> is_ancestor (dt_nodes t) parent_node_id (dt_focusable_node_ids t child)
      | None \<Rightarrow> Some False)"

definition is_action_available :: "dispatch_tree \<Rightarrow> action \<Rightarrow> nat \<Rightarrow> bool option" where
  "is_action_available t action target =
     (case dispatch_path t target of
        None \<Rightarrow> None
      | Some path \<Rightarrow>
          if list_all (\<lambda>i. i < length (dt_nodes t)) path then
            Some (list_ex (\<lambda>i. list_ex (\<lambda>(action_type, _). action_type = a_type_id action)
                                 (dn_action_listeners (dt_nodes t ! i))) path)
          else None)"

section \<open>Dispatching keystrokes\<close>

fun path_contexts :: "dispatch_tree \<Rightarrow> nat list \<Rightarrow> key_context list option" where
  "path_contexts t [] = Some []"
| "path_contexts t (node_id # path) =
     (case nth_opt (dt_nodes t) node_id of
        None \<Rightarrow> None
      | Some node \<Rightarrow>
          map_option (\<lambda>cs. (case dn_context node of None \<Rightarrow> [] | Some c \<Rightarrow> [c]) @ cs)
            (path_contexts t path))"

definition tree_bindings_for_input ::
  "target_os \<Rightarrow> dispatch_tree \<Rightarrow> keystroke list \<Rightarrow> nat list \<Rightarrow>
   (key_binding list \<times> bool \<times> key_context list) option" where
  "tree_bindings_for_input os t input path =
     (case path_contexts t path of
        None \<Rightarrow> None
      | Some context_stack \<Rightarrow>
          let (bindings, partial) = bindings_for_input os (dt_keymap t) input context_stack
          in Some (bindings, partial, context_stack))"

text \<open>The loop of \<open>replay_prefix\<close> over \<open>(0..input.len()).rev()\<close>.\<close>

fun find_replay ::
  "target_os \<Rightarrow> dispatch_tree \<Rightarrow> keystroke list \<Rightarrow> nat list \<Rightarrow> nat list \<Rightarrow>
   (nat \<times> key_binding list) option option" where
  "find_replay os t input path [] = Some None"
| "find_replay os t input path (i # lasts) =
     (case tree_bindings_for_input os t (take (Suc i) input) path of
        None \<Rightarrow> None
      | Some (bindings, _, _) \<Rightarrow>
          if bindings \<noteq> [] then Some (Some (i, bindings))
          else find_replay os t input path lasts)"

definition replay_prefix ::
  "target_os \<Rightarrow> dispatch_tree \<Rightarrow> keystroke list \<Rightarrow> nat list \<Rightarrow> (keystroke list \<times> replay list) option" where
  "replay_prefix os t input path =
     (case find_replay os t input path (rev [0..<length input]) of
        None \<Rightarrow> None
      | Some (Some (i, bindings)) \<Rightarrow>
          Some (drop (Suc i) input, [\<lparr>rp_keystroke = input ! i, rp_bindings = bindings\<rparr>])
      | Some None \<Rightarrow>
          (case input of
             [] \<Rightarrow> None
           | keystroke # rest \<Rightarrow> Some (rest, [\<lparr>rp_keystroke = keystroke, rp_bindings = []\<rparr>])))"

lemma find_replay_bound:
  "find_replay os t input path lasts = Some (Some (i, bindings)) \<Longrightarrow> i \<in> set lasts"
  by (induction lasts) (auto split: option.splits if_splits prod.splits)

lemma replay_prefix_length:
  "replay_prefix os t input path = Some (suffix, to_replay) \<Longrightarrow> length suffix < length input"
  by (auto simp: replay_prefix_def split: option.splits list.splits dest!: find_replay_bound)

function dispatch_key ::
  "target_os \<Rightarrow> dispatch_tree \<Rightarrow> keystroke list \<Rightarrow> keystroke \<Rightarrow> nat list \<Rightarrow> dispatch_result option" where
  "dispatch_key os t input keystroke path =
     (let input' = input @ [keystroke] in
      case tree_bindings_for_input os t input' path of
        None \<Rightarrow> None
      | Some (bindings, pending, context_stack) \<Rightarrow>
          if pending then
            Some \<lparr>dr_pending = input', dr_bindings = [], dr_to_replay = [],
                  dr_context_stack = context_stack\<rparr>
          else if bindings \<noteq> [] then
            Some \<lparr>dr_pending = [], dr_bindings = bindings, dr_to_replay = [],
                  dr_context_stack = context_stack\<rparr>
          else if length input' = 1 then
            Some \<lparr>dr_pending = [], dr_bindings = [], dr_to_replay = [],
                  dr_context_stack = context_stack\<rparr>
          else
            (case replay_prefix os t input path of
               None \<Rightarrow> None
             | Some (suffix, to_replay) \<Rightarrow>
                 (case dispatch_key os t suffix keystroke path of
                    None \<Rightarrow> None
                  | Some result \<Rightarrow>
                      Some (result\<lparr>dr_to_replay := to_replay @ dr_to_replay result\<rparr>))))"
  by pat_completeness auto
termination
  by (relation "measure (\<lambda>(_, _, input, _, _). length input)") (auto dest: replay_prefix_length)

function flush_dispatch ::
  "target_os \<Rightarrow> dispatch_tree \<Rightarrow> keystroke list \<Rightarrow> nat list \<Rightarrow> replay list option" where
  "flush_dispatch os t input path =
     (case replay_prefix os t input path of
        None \<Rightarrow> None
      | Some (suffix, to_replay) \<Rightarrow>
          if suffix \<noteq> [] then
            (case flush_dispatch os t suffix path of
               None \<Rightarrow> None
             | Some replays \<Rightarrow> Some (to_replay @ replays))
          else Some to_replay)"
  by pat_completeness auto
termination
  by (relation "measure (\<lambda>(_, _, input, _). length input)") (auto dest: replay_prefix_length)

declare dispatch_key.simps [simp del] flush_dispatch.simps [simp del]

subsection \<open>Bindings of an action\<close>

definition binding_matches_predicate_and_not_shadowed ::
  "target_os \<Rightarrow> keymap \<Rightarrow> key_binding \<Rightarrow> key_context list \<Rightarrow> bool" where
  "binding_matches_predicate_and_not_shadowed os km binding context_stack =
     (let (bindings, _) =
        bindings_for_input os km (map kb_inner (kb_keystrokes binding)) context_stack
      in case bindings of
           found # _ \<Rightarrow> action_partial_eq (kb_action found) (kb_action binding)
         | [] \<Rightarrow> False)"

definition bindings_for_action ::
  "target_os \<Rightarrow> dispatch_tree \<Rightarrow> action \<Rightarrow> key_context list \<Rightarrow> key_binding list option" where
  "bindings_for_action os t action context_stack =
     map_option
       (filter (\<lambda>b. binding_matches_predicate_and_not_shadowed os (dt_keymap t) b context_stack))
       (km_bindings_for_action (dt_keymap t) action)"

definition highest_precedence_binding_for_action ::
  "target_os \<Rightarrow> dispatch_tree \<Rightarrow> action \<Rightarrow> key_context list \<Rightarrow> key_binding option option" where
  "highest_precedence_binding_for_action os t action context_stack =
     map_option
       (\<lambda>bs. List.find
         (\<lambda>b. binding_matches_predicate_and_not_shadowed os (dt_keymap t) b context_stack) (rev bs))
       (km_bindings_for_action (dt_keymap t) action)"


section \<open>No keystroke is lost\<close>

text \<open>
  \<open>resolved os t cs input\<close>: the bindings of \<open>input\<close> in the context stack \<open>cs\<close>, and whether more
  input is awaited.
\<close>

definition resolved :: "target_os \<Rightarrow> dispatch_tree \<Rightarrow> key_context list \<Rightarrow> keystroke list \<Rightarrow> key_binding list"
  where "resolved os t cs input = fst (bindings_for_input os (dt_keymap t) input cs)"

definition awaited :: "target_os \<Rightarrow> dispatch_tree \<Rightarrow> key_context list \<Rightarrow> keystroke list \<Rightarrow> bool"
  where "awaited os t cs input = snd (bindings_for_input os (dt_keymap t) input cs)"

text \<open>
  \<open>replays B input seg r\<close>: the replay event \<open>r\<close> stands for the segment \<open>seg\<close> at the front of
  \<open>input\<close>. It carries the segment's last keystroke and bindings, no longer front segment has
  bindings, and a segment without bindings is one keystroke. \<open>replayed B stop input rs rest\<close>: the
  events \<open>rs\<close> replay consecutive segments of \<open>input\<close>, all of it up to \<open>rest\<close>, and \<open>rest\<close> is the first
  remaining input for which \<open>stop\<close> holds.
\<close>

definition replays ::
  "(keystroke list \<Rightarrow> key_binding list) \<Rightarrow> keystroke list \<Rightarrow> keystroke list \<Rightarrow> replay \<Rightarrow> bool" where
  "replays B input seg r \<longleftrightarrow>
     seg \<noteq> [] \<and> rp_keystroke r = last seg \<and> rp_bindings r = B seg \<and> (B seg = [] \<longrightarrow> length seg = 1) \<and>
     list_all (\<lambda>j. B (take j input) = []) [Suc (length seg)..<Suc (length input)]"

fun replayed ::
  "(keystroke list \<Rightarrow> key_binding list) \<Rightarrow> (keystroke list \<Rightarrow> bool) \<Rightarrow> keystroke list \<Rightarrow>
   replay list \<Rightarrow> keystroke list \<Rightarrow> bool" where
  "replayed B stop input [] rest \<longleftrightarrow> input = rest \<and> stop input"
| "replayed B stop input (r # rs) rest \<longleftrightarrow>
     \<not> stop input \<and>
     (\<exists>seg tail. input = seg @ tail \<and> replays B input seg r \<and> replayed B stop tail rs rest)"

lemma tree_bindings_resolved:
  "path_contexts t path = Some cs \<Longrightarrow>
   tree_bindings_for_input os t input path = Some (resolved os t cs input, awaited os t cs input, cs)"
  by (simp add: tree_bindings_for_input_def resolved_def awaited_def case_prod_beta Let_def)

lemma find_replay_eq:
  "path_contexts t path = Some cs \<Longrightarrow>
   find_replay os t input path ns =
     Some (map_option (\<lambda>i. (i, resolved os t cs (take (Suc i) input)))
       (List.find (\<lambda>i. resolved os t cs (take (Suc i) input) \<noteq> []) ns))"
  by (induction ns) (simp_all add: tree_bindings_resolved)

text \<open>\<open>replay_prefix\<close> takes the longest prefix with bindings, or one keystroke without any.\<close>

lemma replay_prefix_segment:
  assumes cs: "path_contexts t path = Some cs" and "input \<noteq> []"
  obtains seg suffix r where "replay_prefix os t input path = Some (suffix, [r])"
    and "input = seg @ suffix" and "replays (resolved os t cs) input seg r"
proof (cases "List.find (\<lambda>i. resolved os t cs (take (Suc i) input) \<noteq> []) (rev [0..<length input])")
  case None
  obtain k rest where input: "input = k # rest" using assms(2) by (cases input) auto
  have none: "resolved os t cs (take j input) = []" if "0 < j" "j \<le> length input" for j
    using None that unfolding find_rev_upt_None_iff by (cases j) auto
  have "find_replay os t input path (rev [0..<length input]) = Some None"
    using None by (simp only: find_replay_eq [OF cs] option.map)
  then have "replay_prefix os t input path = Some (rest, [\<lparr>rp_keystroke = k, rp_bindings = []\<rparr>])"
    unfolding replay_prefix_def by (simp only: option.case) (simp add: input)
  moreover have "resolved os t cs [k] = []" using none [of 1] by (simp add: input)
  moreover have "list_all (\<lambda>j. resolved os t cs (take j input) = [])
      [Suc (length [k])..<Suc (length input)]"
    by (auto simp: list_all_iff none simp del: upt_Suc)
  ultimately show ?thesis
    using that [of rest "\<lparr>rp_keystroke = k, rp_bindings = []\<rparr>" "[k]"]
    by (simp add: replays_def input)
next
  case (Some i)
  then have i: "i < length input" "resolved os t cs (take (Suc i) input) \<noteq> []"
    and later: "\<And>j. j < length input \<Longrightarrow> i < j \<Longrightarrow> resolved os t cs (take (Suc j) input) = []"
    unfolding find_rev_upt_Some_iff by auto
  let ?r = "\<lparr>rp_keystroke = input ! i, rp_bindings = resolved os t cs (take (Suc i) input)\<rparr>"
  have "replay_prefix os t input path = Some (drop (Suc i) input, [?r])"
    using Some by (simp add: replay_prefix_def find_replay_eq [OF cs])
  moreover have "resolved os t cs (take j input) = []" if "Suc i < j" "j \<le> length input" for j
    using later [of "j - 1"] that by simp
  then have "replays (resolved os t cs) input (take (Suc i) input) ?r"
    using i by (auto simp: replays_def take_Suc_conv_app_nth list_all_iff simp del: upt_Suc)
  ultimately show ?thesis
    using that [of "drop (Suc i) input" ?r "take (Suc i) input"] i by simp
qed

lemma dispatch_key_step:
  assumes "path_contexts t path = Some cs"
  shows "dispatch_key os t input keystroke path =
    (if awaited os t cs (input @ [keystroke]) then
       Some \<lparr>dr_pending = input @ [keystroke], dr_bindings = [], dr_to_replay = [],
             dr_context_stack = cs\<rparr>
     else if resolved os t cs (input @ [keystroke]) \<noteq> [] \<or> input = [] then
       Some \<lparr>dr_pending = [], dr_bindings = resolved os t cs (input @ [keystroke]),
             dr_to_replay = [], dr_context_stack = cs\<rparr>
     else
       (case replay_prefix os t input path of
          None \<Rightarrow> None
        | Some (suffix, to_replay) \<Rightarrow>
            map_option (\<lambda>r. r\<lparr>dr_to_replay := to_replay @ dr_to_replay r\<rparr>)
              (dispatch_key os t suffix keystroke path)))"
  by (subst dispatch_key.simps)
    (auto simp: Let_def tree_bindings_resolved [OF assms] split: option.split)

text \<open>
  The pending input \<open>s\<close> is kept together when the keystroke extends it to a binding or to the front of
  one, and when nothing is left of it.
\<close>

definition completes :: "target_os \<Rightarrow> dispatch_tree \<Rightarrow> key_context list \<Rightarrow> keystroke \<Rightarrow> keystroke list \<Rightarrow> bool"
  where "completes os t cs keystroke s \<longleftrightarrow>
    awaited os t cs (s @ [keystroke]) \<or> resolved os t cs (s @ [keystroke]) \<noteq> [] \<or> s = []"

text \<open>
  C1. Input handling loses no keystroke. On a path whose nodes exist, \<open>dispatch_key\<close> returns. It
  replays the pending input in segments, one event each, in order, always the longest front
  segment that has bindings or else a single keystroke, until the new keystroke completes what is
  left of it (or nothing is left). If that rest and the keystroke could still be extended they
  become the pending input; otherwise nothing stays pending and their bindings are returned.
\<close>

theorem dispatch_key_segments:
  assumes "path_contexts t path = Some cs"
  shows "\<exists>r rest. dispatch_key os t input keystroke path = Some r \<and>
    replayed (resolved os t cs) (completes os t cs keystroke) input (dr_to_replay r) rest \<and>
    dr_pending r = (if awaited os t cs (rest @ [keystroke]) then rest @ [keystroke] else []) \<and>
    dr_bindings r =
      (if awaited os t cs (rest @ [keystroke]) then [] else resolved os t cs (rest @ [keystroke])) \<and>
    dr_context_stack r = cs"
proof (induction "length input" arbitrary: input rule: less_induct)
  case less
  note step = dispatch_key_step [OF assms, of os _ keystroke]
  show ?case
  proof (cases "completes os t cs keystroke input")
    case True
    then show ?thesis
      by (intro exI [of _ "the (dispatch_key os t input keystroke path)"] exI [of _ input])
        (auto simp: step [of input] completes_def)
  next
    case False
    then have "input \<noteq> []" by (simp add: completes_def)
    obtain seg suffix rp where
      rp: "replay_prefix os t input path = Some (suffix, [rp])" "input = seg @ suffix"
        "replays (resolved os t cs) input seg rp"
      by (rule replay_prefix_segment [OF assms \<open>input \<noteq> []\<close>])
    obtain r rest where IH: "dispatch_key os t suffix keystroke path = Some r"
      "replayed (resolved os t cs) (completes os t cs keystroke) suffix (dr_to_replay r) rest"
      "dr_pending r = (if awaited os t cs (rest @ [keystroke]) then rest @ [keystroke] else [])"
      "dr_bindings r =
        (if awaited os t cs (rest @ [keystroke]) then [] else resolved os t cs (rest @ [keystroke]))"
      "dr_context_stack r = cs"
      using less [OF replay_prefix_length [OF rp(1)]] by blast
    have "dispatch_key os t input keystroke path = Some (r\<lparr>dr_to_replay := rp # dr_to_replay r\<rparr>)"
      using False by (simp add: step [of input] completes_def rp(1) IH(1))
    then show ?thesis
      using False rp(2,3) IH(2-5)
      by (intro exI [of _ "r\<lparr>dr_to_replay := rp # dr_to_replay r\<rparr>"] exI [of _ rest]) auto
  qed
qed

text \<open>A tree of one node without a context, over a keymap with a binding for \<open>a b\<close>.\<close>

definition plain_key :: "string \<Rightarrow> keystroke" where
  "plain_key key = \<lparr>k_modifiers = mods_none, k_key = key, k_key_char = None\<rparr>"

definition example_dispatch_tree :: dispatch_tree where
  "example_dispatch_tree = snd (push_node (dt_new (km_new
     [(bind_key ''a'' (act 1))\<lparr>kb_keystrokes := map from_keystroke [plain_key ''a'', plain_key ''b'']\<rparr>])))"

lemma example_path_contexts: "path_contexts example_dispatch_tree [0] = Some []"
  by (simp add: example_dispatch_tree_def push_node_def dt_new_def nth_opt_def dn_default_def Let_def)

theorem dispatch_key_segments_witness:
  "\<exists>r. dispatch_key Linux example_dispatch_tree [plain_key ''a''] (plain_key ''x'') [0] = Some r \<and>
     dr_context_stack r = []"
  using dispatch_key_segments [OF example_path_contexts] by blast

text \<open>
  Flushing pending input after the timeout returns and replays all of it, in segments as above.
\<close>

theorem flush_dispatch_segments:
  assumes "path_contexts t path = Some cs" and "input \<noteq> []"
  shows "\<exists>rs. flush_dispatch os t input path = Some rs \<and>
    replayed (resolved os t cs) (\<lambda>s. s = []) input rs []"
  using assms(2)
proof (induction "length input" arbitrary: input rule: less_induct)
  case less
  obtain seg suffix rp where
    rp: "replay_prefix os t input path = Some (suffix, [rp])" "input = seg @ suffix"
      "replays (resolved os t cs) input seg rp"
    by (rule replay_prefix_segment [OF assms(1) less.prems])
  show ?case
  proof (cases "suffix = []")
    case True
    have "flush_dispatch os t input path = Some [rp]"
      by (subst flush_dispatch.simps) (simp add: rp(1) True)
    then show ?thesis
      using rp(2,3) True less.prems by (intro exI [of _ "[rp]"]) auto
  next
    case False
    from less.hyps [OF replay_prefix_length [OF rp(1)] False] obtain rs where
      IH: "flush_dispatch os t suffix path = Some rs"
        "replayed (resolved os t cs) (\<lambda>s. s = []) suffix rs []" by blast
    have "flush_dispatch os t input path = Some (rp # rs)"
      by (subst flush_dispatch.simps) (simp add: rp(1) False IH(1))
    then show ?thesis
      using rp(2,3) IH(2) less.prems by (intro exI [of _ "rp # rs"]) auto
  qed
qed

theorem flush_dispatch_segments_witness:
  "\<exists>rs. flush_dispatch Linux example_dispatch_tree [plain_key ''a''] [0] = Some rs \<and>
    replayed (resolved Linux example_dispatch_tree []) (\<lambda>s. s = []) [plain_key ''a''] rs []"
  using flush_dispatch_segments [OF example_path_contexts] by simp

end
