(* ===== verification/Dispatch_Tree.thy ===== *)
theory Dispatch_Tree
  imports Key_Dispatch
begin

text \<open>
  The invariant of the dispatch tree of \<open>crates/gpui/src/key_dispatch.rs\<close>: parents precede their
  children, the three stacks describe the path to the active node, and the maps from focus handles
  and views name nodes that carry them. Every operation keeps it, and with it the loops over
  parents end and the indexing never fails.
\<close>

section \<open>The invariant\<close>

definition parents_ok :: "dispatch_node list \<Rightarrow> bool" where
  "parents_ok ns \<longleftrightarrow> (\<forall>i p. i < length ns \<longrightarrow> dn_parent (ns ! i) = Some p \<longrightarrow> p < i)"

text \<open>The path from the root to a node.\<close>

function ancestors :: "dispatch_node list \<Rightarrow> nat \<Rightarrow> nat list" where
  "ancestors ns i =
     (case nth_opt ns i of
        None \<Rightarrow> []
      | Some n \<Rightarrow>
          (case dn_parent n of
             None \<Rightarrow> [i]
           | Some p \<Rightarrow> if p < i then ancestors ns p @ [i] else [i]))"
  by pat_completeness auto
termination
  by (relation "measure snd") auto

declare ancestors.simps [simp del]

definition along :: "(dispatch_node \<Rightarrow> 'a option) \<Rightarrow> dispatch_node list \<Rightarrow> nat list \<Rightarrow> 'a list" where
  "along f ns is = concat (map (\<lambda>i. case f (ns ! i) of None \<Rightarrow> [] | Some x \<Rightarrow> [x]) is)"

definition ids_ok :: "(dispatch_node \<Rightarrow> nat option) \<Rightarrow> dispatch_node list \<Rightarrow> (nat \<Rightarrow> nat option) \<Rightarrow> bool" where
  "ids_ok f ns ids \<longleftrightarrow> (\<forall>x i. ids x = Some i \<longrightarrow> i < length ns \<and> f (ns ! i) = Some x)"

definition stack_ok :: "dispatch_node list \<Rightarrow> nat list \<Rightarrow> bool" where
  "stack_ok ns st \<longleftrightarrow> st = [] \<or> last st < length ns \<and> st = ancestors ns (last st)"

definition dt_wf :: "dispatch_tree \<Rightarrow> bool" where
  "dt_wf t \<longleftrightarrow>
     parents_ok (dt_nodes t) \<and>
     stack_ok (dt_nodes t) (dt_node_stack t) \<and>
     dt_context_stack t = along dn_context (dt_nodes t) (dt_node_stack t) \<and>
     dt_view_stack t = along dn_view_id (dt_nodes t) (dt_node_stack t) \<and>
     ids_ok dn_focus_id (dt_nodes t) (dt_focusable_node_ids t) \<and>
     ids_ok dn_view_id (dt_nodes t) (dt_view_node_ids t)"

text \<open>
  The operations as steps. A caller gives a node at most one context, focus handle and view (the
  element does it once, while its node is active), and truncates only nodes above the active one.
\<close>

inductive dt_step :: "dispatch_tree \<Rightarrow> dispatch_tree \<Rightarrow> bool" where
  step_clear: "dt_step t (dt_clear t)"
| step_push: "dt_step t (snd (push_node t))"
| step_pop: "pop_node t = Some t' \<Longrightarrow> dt_step t t'"
| step_set_key_context:
    "\<lbrakk>active_node_id t = Some i; dn_context (dt_nodes t ! i) = None; set_key_context t c = Some t'\<rbrakk>
     \<Longrightarrow> dt_step t t'"
| step_set_focus_id:
    "\<lbrakk>active_node_id t = Some i; dn_focus_id (dt_nodes t ! i) = None; set_focus_id t f = Some t'\<rbrakk>
     \<Longrightarrow> dt_step t t'"
| step_set_view_id:
    "\<lbrakk>active_node_id t = Some i; dn_view_id (dt_nodes t ! i) = None; set_view_id t v = Some t'\<rbrakk>
     \<Longrightarrow> dt_step t t'"
| step_on_key_event: "on_key_event t l = Some t' \<Longrightarrow> dt_step t t'"
| step_on_modifiers_changed: "on_modifiers_changed t l = Some t' \<Longrightarrow> dt_step t t'"
| step_on_action: "on_action t a l = Some t' \<Longrightarrow> dt_step t t'"
| step_set_active_node: "set_active_node t i = Some t' \<Longrightarrow> dt_step t t'"
| step_reuse_subtree: "reuse_subtree t a b source focus = Some (r, t', source') \<Longrightarrow> dt_step t t'"
| step_truncate:
    "\<lbrakk>list_all (\<lambda>i. i < index) (dt_node_stack t); dt_truncate t index = Some t'\<rbrakk> \<Longrightarrow> dt_step t t'"

definition dt_reachable :: "dispatch_tree \<Rightarrow> bool" where
  "dt_reachable t \<longleftrightarrow> (\<exists>km. dt_step\<^sup>*\<^sup>* (dt_new km) t)"

section \<open>Paths\<close>

lemma parents_okD: "parents_ok ns \<Longrightarrow> i < length ns \<Longrightarrow> dn_parent (ns ! i) = Some p \<Longrightarrow> p < i"
  by (auto simp: parents_ok_def)

lemma ancestors_root:
  "i < length ns \<Longrightarrow> dn_parent (ns ! i) = None \<Longrightarrow> ancestors ns i = [i]"
  by (simp add: ancestors.simps nth_opt_def)

lemma ancestors_child:
  "parents_ok ns \<Longrightarrow> i < length ns \<Longrightarrow> dn_parent (ns ! i) = Some p \<Longrightarrow>
   ancestors ns i = ancestors ns p @ [i]"
  by (subst ancestors.simps) (simp add: nth_opt_def parents_okD)

lemma last_ancestors: "i < length ns \<Longrightarrow> last (ancestors ns i) = i \<and> ancestors ns i \<noteq> []"
  by (subst (1 2) ancestors.simps) (auto simp: nth_opt_def split: option.split)

lemma ancestors_le: "j \<in> set (ancestors ns i) \<Longrightarrow> j \<le> i"
proof (induction i rule: less_induct)
  case (less i)
  show ?case
    using less.prems less.IH
    by (subst (asm) ancestors.simps) (fastforce split: option.splits if_splits)
qed

lemma butlast_ancestors_less:
  assumes "j \<in> set (butlast (ancestors ns i))" shows "j < i"
  using assms
  by (subst (asm) ancestors.simps) (fastforce split: option.splits if_splits dest: ancestors_le)

lemma ancestors_cong:
  "length ns = length ns' \<Longrightarrow> (\<And>j. j < length ns \<Longrightarrow> dn_parent (ns ! j) = dn_parent (ns' ! j)) \<Longrightarrow>
   ancestors ns i = ancestors ns' i"
proof (induction i rule: less_induct)
  case (less i)
  then show ?case
    by (subst (1 2) ancestors.simps) (auto simp: nth_opt_def split: option.split)
qed

lemma ancestors_prefix:
  "parents_ok (ns @ xs) \<Longrightarrow> i < length ns \<Longrightarrow> ancestors (ns @ xs) i = ancestors ns i"
proof (induction i rule: less_induct)
  case (less i)
  then show ?case
    by (subst (1 2) ancestors.simps)
      (auto simp: nth_opt_def nth_append split: option.split)
qed

lemma parents_ok_prefix: "parents_ok (ns @ xs) \<Longrightarrow> parents_ok ns"
  by (simp add: parents_ok_def nth_append)

lemma ancestors_length: "parents_ok ns \<Longrightarrow> i < length ns \<Longrightarrow> j \<in> set (ancestors ns i) \<Longrightarrow> j < length ns"
  using ancestors_le by fastforce

subsection \<open>What lies along a path\<close>

lemma along_simps [simp]:
  "along f ns [] = []"
  "along f ns (is @ js) = along f ns is @ along f ns js"
  by (simp_all add: along_def)

lemma along_single: "along f ns [i] = (case f (ns ! i) of None \<Rightarrow> [] | Some x \<Rightarrow> [x])"
  by (simp add: along_def)

lemma along_cong:
  "(\<And>j. j \<in> set is \<Longrightarrow> f (ns ! j) = g (ns' ! j)) \<Longrightarrow> along f ns is = along g ns' is"
  by (simp add: along_def cong: map_cong)

lemma along_append_nodes:
  "(\<And>j. j \<in> set is \<Longrightarrow> j < length ns) \<Longrightarrow> along f (ns @ xs) is = along f ns is"
  by (intro along_cong) (simp add: nth_append)

section \<open>Operations keep the invariant\<close>

lemmas dt_wf_intro = dt_wf_def [THEN iffD2, OF conjI [OF _ conjI [OF _ conjI [OF _ conjI [OF _ conjI]]]]]

lemma dt_wfD:
  assumes "dt_wf t"
  shows "parents_ok (dt_nodes t)" "stack_ok (dt_nodes t) (dt_node_stack t)"
    "dt_context_stack t = along dn_context (dt_nodes t) (dt_node_stack t)"
    "dt_view_stack t = along dn_view_id (dt_nodes t) (dt_node_stack t)"
    "ids_ok dn_focus_id (dt_nodes t) (dt_focusable_node_ids t)"
    "ids_ok dn_view_id (dt_nodes t) (dt_view_node_ids t)"
  using assms by (simp_all add: dt_wf_def)

lemma dt_wf_new: "dt_wf (dt_new km)"
  by (simp add: dt_wf_def dt_new_def parents_ok_def stack_ok_def ids_ok_def)

lemma dt_wf_clear: "dt_wf (dt_clear t)"
  by (simp add: dt_wf_def dt_clear_def parents_ok_def stack_ok_def ids_ok_def)

lemma ids_ok_append: "ids_ok f ns ids \<Longrightarrow> ids_ok f (ns @ xs) ids"
  by (simp add: ids_ok_def nth_append trans_less_add1)

lemma stack_ok_bound:
  "parents_ok ns \<Longrightarrow> stack_ok ns st \<Longrightarrow> j \<in> set st \<Longrightarrow> j < length ns"
  by (metis ancestors_length empty_iff list.set(1) stack_ok_def)

lemma active_node_iff:
  assumes "dt_wf t"
  shows "active_node_id t = Some i \<longleftrightarrow>
    i < length (dt_nodes t) \<and> dt_node_stack t = ancestors (dt_nodes t) i"
  using dt_wfD(2) [OF assms] last_ancestors [of i "dt_nodes t"]
  by (auto simp: active_node_id_def last_opt_def stack_ok_def)

lemma parents_ok_push:
  assumes "parents_ok ns" "\<And>p. parent = Some p \<Longrightarrow> p < length ns" "dn_parent n = parent"
  shows "parents_ok (ns @ [n])"
  using assms by (auto simp: parents_ok_def nth_append less_Suc_eq)

lemma dt_wf_push:
  assumes wf: "dt_wf t" shows "dt_wf (snd (push_node t))"
proof -
  let ?ns = "dt_nodes t" and ?st = "dt_node_stack t"
  let ?n = "dn_default\<lparr>dn_parent := last_opt ?st\<rparr>"
  note w = dt_wfD [OF wf]
  have parent: "p < length ?ns \<and> ?st = ancestors ?ns p" if "last_opt ?st = Some p" for p
    using that active_node_iff [OF wf, of p] by (simp add: active_node_id_def)
  have po: "parents_ok (?ns @ [?n])"
    by (rule parents_ok_push [where parent = "last_opt ?st"]) (use w(1) parent in auto)
  have anc: "ancestors (?ns @ [?n]) (length ?ns) = ?st @ [length ?ns]"
  proof (cases "last_opt ?st")
    case None
    then show ?thesis by (subst ancestors_root) (auto simp: last_opt_def split: if_splits)
  next
    case (Some p)
    then show ?thesis
      using parent [OF Some] po
      by (subst ancestors_child [where p = p]) (simp_all add: ancestors_prefix)
  qed
  have al: "along dn_context (?ns @ [?n]) (?st @ [length ?ns]) = dt_context_stack t"
    "along dn_view_id (?ns @ [?n]) (?st @ [length ?ns]) = dt_view_stack t"
    using w(3,4) stack_ok_bound [OF w(1,2)]
    by (simp_all add: along_append_nodes along_single dn_default_def)
  show ?thesis
    using po anc al w(5,6)
    by (intro dt_wf_intro) (simp_all add: push_node_def Let_def stack_ok_def ids_ok_append)
qed

lemma stack_ok_pop:
  assumes "parents_ok ns" "i < length ns"
  shows "stack_ok ns (butlast (ancestors ns i))"
proof (cases "dn_parent (ns ! i)")
  case None
  then show ?thesis using assms by (simp add: ancestors_root stack_ok_def)
next
  case (Some p)
  then have "p < length ns" using parents_okD [OF assms Some] assms(2) by simp
  then show ?thesis
    using assms Some by (simp add: ancestors_child stack_ok_def last_ancestors)
qed

lemma along_snoc:
  "st \<noteq> [] \<Longrightarrow> along f ns st = along f ns (butlast st) @ along f ns [last st]"
  by (metis along_simps(2) append_butlast_last_id)

lemma pop_node_wf:
  assumes wf: "dt_wf t" and "dt_node_stack t \<noteq> []"
  obtains t' where "pop_node t = Some t'" "dt_wf t'" "dt_nodes t' = dt_nodes t"
    "dt_node_stack t' = butlast (dt_node_stack t)"
proof -
  let ?i = "last (dt_node_stack t)"
  note w = dt_wfD [OF wf]
  have act: "active_node_id t = Some ?i" using assms(2) by (simp add: active_node_id_def last_opt_def)
  then have i: "?i < length (dt_nodes t)" "dt_node_stack t = ancestors (dt_nodes t) ?i"
    using active_node_iff [OF wf] by auto
  define t' where "t' = the (pop_node t)"
  have t': "pop_node t = Some t'" "dt_nodes t' = dt_nodes t"
    "dt_node_stack t' = butlast (dt_node_stack t)"
    "dt_context_stack t' = along dn_context (dt_nodes t) (butlast (dt_node_stack t))"
    "dt_view_stack t' = along dn_view_id (dt_nodes t) (butlast (dt_node_stack t))"
    "dt_focusable_node_ids t' = dt_focusable_node_ids t" "dt_view_node_ids t' = dt_view_node_ids t"
    using i(1) w(3,4) by (auto simp: t'_def pop_node_def act nth_opt_def Let_def
        along_snoc [OF assms(2)] along_single)
  moreover have "stack_ok (dt_nodes t) (butlast (dt_node_stack t))"
    using stack_ok_pop [OF w(1) i(1)] i(2) by simp
  ultimately have "dt_wf t'" using w by (intro dt_wf_intro) simp_all
  then show ?thesis using that t' by blast
qed

subsection \<open>Updating the active node\<close>

text \<open>
  An update of the active node that keeps its parent keeps the path, and what lies along it up to
  the node itself.
\<close>

lemma active_update:
  assumes "i < length ns" and "dn_parent n = dn_parent (ns ! i)"
  shows "ancestors (ns[i := n]) j = ancestors ns j"
    and "parents_ok ns \<Longrightarrow> parents_ok (ns[i := n])"
    and "along f (ns[i := n]) (ancestors ns i) =
           along f ns (butlast (ancestors ns i)) @ (case f n of None \<Rightarrow> [] | Some x \<Rightarrow> [x])"
proof -
  show "ancestors (ns[i := n]) j = ancestors ns j"
    using assms by (intro ancestors_cong) (auto simp: nth_list_update)
  show "parents_ok ns \<Longrightarrow> parents_ok (ns[i := n])"
    using assms by (auto simp: parents_ok_def nth_list_update)
  have "along f (ns[i := n]) (butlast (ancestors ns i)) = along f ns (butlast (ancestors ns i))"
    by (intro along_cong) (metis butlast_ancestors_less nat_neq_iff nth_list_update_neq)
  then show "along f (ns[i := n]) (ancestors ns i) =
      along f ns (butlast (ancestors ns i)) @ (case f n of None \<Rightarrow> [] | Some x \<Rightarrow> [x])"
    using assms(1) last_ancestors [OF assms(1)] along_snoc [of "ancestors ns i" f "ns[i := n]"]
    by (simp add: along_single)
qed

text \<open>
  The shape all \<open>set_*\<close> and \<open>on_*\<close> operations share: the active node \<open>i\<close> becomes \<open>n\<close>, and the
  stacks and maps change along with it.
\<close>

lemma dt_wf_update:
  assumes wf: "dt_wf t" and i: "active_node_id t = Some i"
    and parent: "dn_parent n = dn_parent (dt_nodes t ! i)"
    and nodes: "dt_nodes t' = (dt_nodes t)[i := n]" "dt_node_stack t' = dt_node_stack t"
    and ctx: "dt_context_stack t' = along dn_context (dt_nodes t) (butlast (dt_node_stack t)) @
                (case dn_context n of None \<Rightarrow> [] | Some x \<Rightarrow> [x])"
    and view: "dt_view_stack t' = along dn_view_id (dt_nodes t) (butlast (dt_node_stack t)) @
                (case dn_view_id n of None \<Rightarrow> [] | Some x \<Rightarrow> [x])"
    and ids: "ids_ok dn_focus_id ((dt_nodes t)[i := n]) (dt_focusable_node_ids t')"
      "ids_ok dn_view_id ((dt_nodes t)[i := n]) (dt_view_node_ids t')"
  shows "dt_wf t'"
proof -
  note w = dt_wfD [OF wf]
  from i have a: "i < length (dt_nodes t)" "dt_node_stack t = ancestors (dt_nodes t) i"
    using active_node_iff [OF wf] by auto
  note u = active_update [OF a(1) parent]
  have "stack_ok ((dt_nodes t)[i := n]) (dt_node_stack t)"
    using w(2) u(1) by (simp add: stack_ok_def)
  then show ?thesis
    using ids u(2) [OF w(1)] u(3) [of dn_context] u(3) [of dn_view_id] a(2)
    by (intro dt_wf_intro) (simp_all add: nodes ctx view)
qed

lemma ids_ok_update_same: "ids_ok f ns ids \<Longrightarrow> f n = f (ns ! i) \<Longrightarrow> ids_ok f (ns[i := n]) ids"
  by (simp add: ids_ok_def) (metis nth_list_update_eq nth_list_update_neq)

lemma ids_ok_update_new:
  "ids_ok f ns ids \<Longrightarrow> i < length ns \<Longrightarrow> f (ns ! i) = None \<Longrightarrow> f n = Some x \<Longrightarrow>
   ids_ok f (ns[i := n]) (ids(x \<mapsto> i))"
  by (auto simp: ids_ok_def nth_list_update)

lemma stacks_active:
  assumes "dt_wf t" "active_node_id t = Some i"
  shows "dt_context_stack t = along dn_context (dt_nodes t) (butlast (dt_node_stack t)) @
           (case dn_context (dt_nodes t ! i) of None \<Rightarrow> [] | Some x \<Rightarrow> [x])"
    and "dt_view_stack t = along dn_view_id (dt_nodes t) (butlast (dt_node_stack t)) @
           (case dn_view_id (dt_nodes t ! i) of None \<Rightarrow> [] | Some x \<Rightarrow> [x])"
  using dt_wfD(3,4) [OF assms(1)] assms(2) along_snoc [of "dt_node_stack t"]
  by (auto simp: active_node_id_def last_opt_def along_single split: if_splits)

lemma dt_wf_listeners:
  assumes wf: "dt_wf t" and upd: "update_active_node f t = Some t'"
    and keeps: "\<And>n. dn_parent (f n) = dn_parent n \<and> dn_context (f n) = dn_context n \<and>
      dn_view_id (f n) = dn_view_id n \<and> dn_focus_id (f n) = dn_focus_id n"
  shows "dt_wf t'"
proof -
  from upd obtain i where i: "active_node_id t = Some i" "i < length (dt_nodes t)"
    "t' = t\<lparr>dt_nodes := (dt_nodes t)[i := f (dt_nodes t ! i)]\<rparr>"
    by (auto simp: update_active_node_def split: option.splits if_splits)
  show ?thesis
    by (rule dt_wf_update [OF wf i(1), where n = "f (dt_nodes t ! i)"])
      (use i keeps stacks_active [OF wf i(1)] dt_wfD(5,6) [OF wf] in
        \<open>simp_all add: ids_ok_update_same\<close>)
qed

lemma dt_wf_set_key_context:
  assumes wf: "dt_wf t" and i: "active_node_id t = Some i" "dn_context (dt_nodes t ! i) = None"
    and eq: "set_key_context t c = Some t'"
  shows "dt_wf t'"
proof -
  have a: "i < length (dt_nodes t)" using active_node_iff [OF wf] i(1) by auto
  from eq have t': "t' = t\<lparr>dt_nodes := (dt_nodes t)[i := (dt_nodes t ! i)\<lparr>dn_context := Some c\<rparr>],
      dt_context_stack := dt_context_stack t @ [c]\<rparr>"
    by (simp add: set_key_context_def update_active_node_def i(1) a)
  show ?thesis
    by (rule dt_wf_update [OF wf i(1), where n = "(dt_nodes t ! i)\<lparr>dn_context := Some c\<rparr>"])
      (use i(2) stacks_active [OF wf i(1)] dt_wfD(5,6) [OF wf] in
        \<open>simp_all add: t' ids_ok_update_same\<close>)
qed

lemma dt_wf_set_focus_id:
  assumes wf: "dt_wf t" and i: "active_node_id t = Some i" "dn_focus_id (dt_nodes t ! i) = None"
    and eq: "set_focus_id t f = Some t'"
  shows "dt_wf t'"
proof -
  have a: "i < length (dt_nodes t)" using active_node_iff [OF wf] i(1) by auto
  from eq have t': "t' = t\<lparr>dt_nodes := (dt_nodes t)[i := (dt_nodes t ! i)\<lparr>dn_focus_id := Some f\<rparr>],
      dt_focusable_node_ids := (dt_focusable_node_ids t)(f \<mapsto> i)\<rparr>"
    by (simp add: set_focus_id_def update_active_node_def i(1) a)
  show ?thesis
    by (rule dt_wf_update [OF wf i(1), where n = "(dt_nodes t ! i)\<lparr>dn_focus_id := Some f\<rparr>"])
      (use i(2) a stacks_active [OF wf i(1)] dt_wfD(5,6) [OF wf] in
        \<open>simp_all add: t' ids_ok_update_same ids_ok_update_new\<close>)
qed

lemma dt_wf_set_view_id:
  assumes wf: "dt_wf t" and i: "active_node_id t = Some i" "dn_view_id (dt_nodes t ! i) = None"
    and eq: "set_view_id t v = Some t'"
  shows "dt_wf t'"
proof (cases "last_opt (dt_view_stack t) = Some v")
  case True
  then show ?thesis using eq wf by (simp add: set_view_id_def)
next
  case False
  have a: "i < length (dt_nodes t)" using active_node_iff [OF wf] i(1) by auto
  from eq False have t': "t' = t\<lparr>dt_nodes := (dt_nodes t)[i := (dt_nodes t ! i)\<lparr>dn_view_id := Some v\<rparr>],
      dt_view_node_ids := (dt_view_node_ids t)(v \<mapsto> i), dt_view_stack := dt_view_stack t @ [v]\<rparr>"
    by (simp add: set_view_id_def update_active_node_def i(1) a)
  show ?thesis
    by (rule dt_wf_update [OF wf i(1), where n = "(dt_nodes t ! i)\<lparr>dn_view_id := Some v\<rparr>"])
      (use i(2) a stacks_active [OF wf i(1)] dt_wfD(5,6) [OF wf] in
        \<open>simp_all add: t' ids_ok_update_same ids_ok_update_new\<close>)
qed

subsection \<open>Moving the active node\<close>

lemma pop_until_wf:
  assumes "dt_wf t"
  shows "\<exists>t'. pop_until parent t = Some t' \<and> dt_wf t' \<and> dt_nodes t' = dt_nodes t \<and>
    (last_opt (dt_node_stack t') = parent \<or> dt_node_stack t' = [])"
  using assms
proof (induction "length (dt_node_stack t)" arbitrary: t rule: less_induct)
  case less
  show ?case
  proof (cases "last_opt (dt_node_stack t) \<noteq> parent \<and> dt_node_stack t \<noteq> []")
    case True
    then obtain t1 where t1: "pop_node t = Some t1" "dt_wf t1" "dt_nodes t1 = dt_nodes t"
      using pop_node_wf [OF less.prems] by metis
    then show ?thesis
      using less.hyps [OF pop_node_length [OF t1(1)] t1(2)] True
      by (subst pop_until.simps) simp
  next
    case False
    then show ?thesis using less.prems by (subst pop_until.simps) auto
  qed
qed

lemma along_ancestors:
  assumes "parents_ok ns" "i < length ns"
  shows "along f ns (ancestors ns i) =
    (case dn_parent (ns ! i) of None \<Rightarrow> [] | Some p \<Rightarrow> along f ns (ancestors ns p)) @
    (case f (ns ! i) of None \<Rightarrow> [] | Some x \<Rightarrow> [x])"
  using assms by (auto simp: ancestors_root ancestors_child along_single split: option.split)

lemma push_ancestors_eq:
  assumes "parents_ok (dt_nodes t)" "i < length (dt_nodes t)"
  shows "push_ancestors (Some i) t = Some (t\<lparr>
    dt_context_stack := dt_context_stack t @ rev (along dn_context (dt_nodes t) (ancestors (dt_nodes t) i)),
    dt_view_stack := dt_view_stack t @ rev (along dn_view_id (dt_nodes t) (ancestors (dt_nodes t) i)),
    dt_node_stack := dt_node_stack t @ rev (ancestors (dt_nodes t) i)\<rparr>)"
  using assms
proof (induction i arbitrary: t rule: less_induct)
  case (less i)
  let ?n = "dt_nodes t ! i"
  show ?case
  proof (cases "dn_parent ?n")
    case None
    then show ?thesis
      using less.prems
      by (subst push_ancestors.simps)
        (simp add: nth_opt_def push_ancestors.simps [of None] ancestors_root along_single
          split: option.split)
  next
    case (Some p)
    have p: "p < i" using less.prems Some by (rule parents_okD)
    then show ?thesis
      using less.prems Some
      by (subst push_ancestors.simps)
        (simp add: nth_opt_def less.IH [OF p] ancestors_child along_single split: option.split)
  qed
qed

lemma set_active_node_wf:
  assumes wf: "dt_wf t" and i: "i < length (dt_nodes t)"
  shows "\<exists>t'. set_active_node t i = Some t' \<and> dt_nodes t' = dt_nodes t \<and> dt_wf t' \<and>
    dt_node_stack t' = ancestors (dt_nodes t) i"
proof -
  let ?ns = "dt_nodes t" and ?n = "dt_nodes t ! i"
  note po = dt_wfD(1) [OF wf]
  obtain t1 where t1: "pop_until (dn_parent ?n) t = Some t1" "dt_wf t1" "dt_nodes t1 = ?ns"
    "last_opt (dt_node_stack t1) = dn_parent ?n \<or> dt_node_stack t1 = []"
    using pop_until_wf [OF wf] by blast
  note w1 = dt_wfD [OF t1(2)]
  define t' where "t' = the (set_active_node t i)"
  have "set_active_node t i = Some t' \<and> dt_nodes t' = ?ns \<and> dt_node_stack t' = ancestors ?ns i \<and>
    dt_context_stack t' = along dn_context ?ns (ancestors ?ns i) \<and>
    dt_view_stack t' = along dn_view_id ?ns (ancestors ?ns i) \<and>
    dt_focusable_node_ids t' = dt_focusable_node_ids t1 \<and> dt_view_node_ids t' = dt_view_node_ids t1"
  proof (cases "last_opt (dt_node_stack t1) = dn_parent ?n")
    case True
    have "ancestors ?ns i = dt_node_stack t1 @ [i]"
    proof (cases "dn_parent ?n")
      case None
      then show ?thesis using True i by (simp add: ancestors_root last_opt_def split: if_splits)
    next
      case (Some p)
      then have "dt_node_stack t1 = ancestors ?ns p"
        using True active_node_iff [OF t1(2), of p] t1(3) by (simp add: active_node_id_def)
      then show ?thesis using Some po i by (simp add: ancestors_child)
    qed
    then show ?thesis
      using True i w1(3,4) t1(1,3)
      by (simp add: t'_def set_active_node_def nth_opt_def along_single)
  next
    case False
    then have "dt_node_stack t1 = []" using t1(4) by simp
    moreover have "dt_context_stack t1 = []" "dt_view_stack t1 = []"
      using calculation w1(3,4) by simp_all
    ultimately show ?thesis
      using False i t1(1,3) push_ancestors_eq [OF w1(1), of i]
      by (simp add: t'_def set_active_node_def nth_opt_def)
  qed
  then show ?thesis
    using w1 t1(3) i last_ancestors [OF i] by (intro exI [of _ t']) (simp add: dt_wf_def stack_ok_def)
qed

subsection \<open>Truncating\<close>

lemma ids_ok_truncate:
  assumes "ids_ok f ns ids"
  shows "ids_ok f (take n ns) (ids |` (- set (List.map_filter f (drop n ns))))"
  unfolding ids_ok_def
proof (intro allI impI)
  fix x i
  assume "(ids |` (- set (List.map_filter f (drop n ns)))) x = Some i"
  then have x: "x \<notin> set (List.map_filter f (drop n ns))" "ids x = Some i"
    by (auto simp: restrict_map_def split: if_splits)
  then have i: "i < length ns" "f (ns ! i) = Some x" using assms by (auto simp: ids_ok_def)
  have "i < n"
  proof (rule ccontr)
    assume "\<not> i < n"
    then have "ns ! i \<in> set (drop n ns)"
      using i(1) in_set_conv_nth [of "ns ! i" "drop n ns"] by (auto intro!: exI [of _ "i - n"])
    then show False using x(1) i(2) by (force simp: List.map_filter_def)
  qed
  then show "i < length (take n ns) \<and> f (take n ns ! i) = Some x" using i by simp
qed

lemma dt_wf_truncate:
  assumes wf: "dt_wf t" and st: "list_all (\<lambda>i. i < index) (dt_node_stack t)"
    and eq: "dt_truncate t index = Some t'"
  shows "dt_wf t'"
proof -
  let ?ns = "dt_nodes t"
  note w = dt_wfD [OF wf]
  have split: "parents_ok (take index ?ns @ drop index ?ns)" using w(1) by simp
  have le: "index \<le> length ?ns" using eq by (simp add: dt_truncate_def split: if_splits)
  have small: "j < index" if "j \<in> set (dt_node_stack t)" for j
    using st that by (simp add: list_all_iff)
  have "ancestors (take index ?ns) j = ancestors ?ns j" if "j < index" for j
    using ancestors_prefix [OF split] that le by simp
  then have "stack_ok (take index ?ns) (dt_node_stack t)"
    using w(2) small le by (auto simp: stack_ok_def)
  moreover have "along f (take index ?ns) (dt_node_stack t) = along f ?ns (dt_node_stack t)"
    for f :: "dispatch_node \<Rightarrow> 'a option"
    using small by (intro along_cong) simp
  note this [of dn_context]
  moreover have "along dn_view_id (take index ?ns) (dt_node_stack t) = along dn_view_id ?ns (dt_node_stack t)"
    using small by (intro along_cong) simp
  ultimately show ?thesis
    using eq le w(3-6) parents_ok_prefix [OF split]
    by (auto simp: dt_truncate_def Let_def dt_wf_def ids_ok_truncate)
qed

subsection \<open>Reusing a subtree\<close>

definition copied_node :: "dispatch_tree \<Rightarrow> dispatch_node \<Rightarrow> dispatch_node" where
  "copied_node t n = n\<lparr>dn_parent := last_opt (dt_node_stack t),
     dn_view_id := (if last_opt (dt_view_stack t) = dn_view_id n then None else dn_view_id n)\<rparr>"

definition emptied_node :: "dispatch_node \<Rightarrow> dispatch_node" where
  "emptied_node n = n\<lparr>dn_key_listeners := [], dn_action_listeners := [],
     dn_modifiers_changed_listeners := []\<rparr>"

text \<open>
  \<open>building t ns st vs x\<close>: the active node \<open>x\<close> is the newest one, on top of the nodes \<open>ns\<close>, the node
  stack \<open>st\<close> and the view stack \<open>vs\<close>. \<open>move_node\<close> fills in its fields one after the other.
\<close>

definition building ::
  "dispatch_tree \<Rightarrow> dispatch_node list \<Rightarrow> nat list \<Rightarrow> nat list \<Rightarrow> dispatch_node \<Rightarrow> bool" where
  "building t ns st vs x \<longleftrightarrow>
     dt_wf t \<and> dt_nodes t = ns @ [x] \<and> dt_node_stack t = st @ [length ns] \<and>
     (dn_view_id x = None \<longrightarrow> dt_view_stack t = vs)"

lemma node_update_same:
  "dn_context x = None \<Longrightarrow> x\<lparr>dn_context := None\<rparr> = x"
  "dn_focus_id x = None \<Longrightarrow> x\<lparr>dn_focus_id := None\<rparr> = x"
  "dn_view_id x = None \<Longrightarrow> x\<lparr>dn_view_id := None\<rparr> = x"
  for x :: dispatch_node
  by (cases x; simp)+

lemma building_active:
  "building t ns st vs x \<Longrightarrow> active_node_id t = Some (length ns) \<and> dt_nodes t ! length ns = x \<and>
   length ns < length (dt_nodes t)"
  by (simp add: building_def active_node_id_def last_opt_def)

lemma building_update:
  "building t ns st vs x \<Longrightarrow> update_active_node f t = Some (t\<lparr>dt_nodes := ns @ [f x]\<rparr>)"
  by (simp add: update_active_node_def building_def active_node_id_def last_opt_def)

lemma building_push:
  "dt_wf t \<Longrightarrow> building (snd (push_node t)) (dt_nodes t) (dt_node_stack t) (dt_view_stack t)
     (dn_default\<lparr>dn_parent := last_opt (dt_node_stack t)\<rparr>)"
  using dt_wf_push [of t] by (simp add: building_def) (simp add: push_node_def Let_def)

lemma building_context:
  assumes b: "building t ns st vs x" and "dn_context x = None"
  shows "\<exists>t'. (case c of None \<Rightarrow> Some t | Some c \<Rightarrow> set_key_context t c) = Some t' \<and>
    building t' ns st vs (x\<lparr>dn_context := c\<rparr>)"
proof (cases c)
  case None
  then show ?thesis using assms by (simp add: node_update_same)
next
  case (Some c')
  then obtain t' where t': "set_key_context t c' = Some t'"
    "t' = t\<lparr>dt_nodes := ns @ [x\<lparr>dn_context := Some c'\<rparr>], dt_context_stack := dt_context_stack t @ [c']\<rparr>"
    by (simp add: set_key_context_def building_update [OF b])
  moreover have "dt_wf t'"
    by (rule dt_wf_set_key_context [OF _ _ _ t'(1)])
      (use b building_active [OF b] assms(2) in \<open>auto simp: building_def\<close>)
  ultimately show ?thesis using b Some by (auto simp: building_def)
qed

lemma building_focus:
  assumes b: "building t ns st vs x" and "dn_focus_id x = None"
  shows "\<exists>t'. (case f of None \<Rightarrow> Some t | Some f \<Rightarrow> set_focus_id t f) = Some t' \<and>
    building t' ns st vs (x\<lparr>dn_focus_id := f\<rparr>)"
proof (cases f)
  case None
  then show ?thesis using assms by (simp add: node_update_same)
next
  case (Some f')
  then obtain t' where t': "set_focus_id t f' = Some t'"
    "t' = t\<lparr>dt_nodes := ns @ [x\<lparr>dn_focus_id := Some f'\<rparr>],
            dt_focusable_node_ids := (dt_focusable_node_ids t)(f' \<mapsto> length ns)\<rparr>"
    by (simp add: set_focus_id_def building_update [OF b] building_active [OF b])
  moreover have "dt_wf t'"
    by (rule dt_wf_set_focus_id [OF _ _ _ t'(1)])
      (use b building_active [OF b] assms(2) in \<open>auto simp: building_def\<close>)
  ultimately show ?thesis using b Some by (auto simp: building_def)
qed

lemma building_view:
  assumes b: "building t ns st vs x" and x: "dn_view_id x = None"
  shows "\<exists>t'. (case v of None \<Rightarrow> Some t | Some v \<Rightarrow> set_view_id t v) = Some t' \<and>
    building t' ns st vs (x\<lparr>dn_view_id := (if last_opt vs = v then None else v)\<rparr>)"
proof (cases "v = None \<or> last_opt vs = v")
  case True
  have "dt_view_stack t = vs" using b x by (simp add: building_def)
  then show ?thesis using True b x by (cases v) (auto simp: set_view_id_def node_update_same)
next
  case False
  then obtain v' where v: "v = Some v'" "last_opt vs \<noteq> Some v'" by auto
  have "dt_view_stack t = vs" using b x by (simp add: building_def)
  then obtain t' where t': "set_view_id t v' = Some t'"
    "t' = t\<lparr>dt_nodes := ns @ [x\<lparr>dn_view_id := Some v'\<rparr>],
            dt_view_node_ids := (dt_view_node_ids t)(v' \<mapsto> length ns), dt_view_stack := vs @ [v']\<rparr>"
    using v by (simp add: set_view_id_def building_update [OF b] building_active [OF b])
  moreover have "dt_wf t'"
    by (rule dt_wf_set_view_id [OF _ _ _ t'(1)])
      (use b building_active [OF b] x in \<open>auto simp: building_def\<close>)
  ultimately show ?thesis using b v by (auto simp: building_def)
qed

lemma move_node_wf:
  assumes "dt_wf t"
  shows "\<exists>t'. move_node t n = Some (t', emptied_node n) \<and> dt_wf t' \<and>
    dt_nodes t' = dt_nodes t @ [copied_node t n] \<and>
    dt_node_stack t' = dt_node_stack t @ [length (dt_nodes t)]"
proof -
  let ?b = "\<lambda>t'. building t' (dt_nodes t) (dt_node_stack t) (dt_view_stack t)"
  let ?x = "dn_default\<lparr>dn_parent := last_opt (dt_node_stack t), dn_context := dn_context n,
    dn_focus_id := dn_focus_id n,
    dn_view_id := (if last_opt (dt_view_stack t) = dn_view_id n then None else dn_view_id n)\<rparr>"
  obtain t2 where t2: "(case dn_context n of None \<Rightarrow> Some (snd (push_node t))
      | Some c \<Rightarrow> set_key_context (snd (push_node t)) c) = Some t2"
    "?b t2 (dn_default\<lparr>dn_parent := last_opt (dt_node_stack t), dn_context := dn_context n\<rparr>)"
    using building_context [OF building_push [OF assms], of "dn_context n"] by (auto simp: dn_default_def)
  obtain t3 where t3: "(case dn_focus_id n of None \<Rightarrow> Some t2 | Some f \<Rightarrow> set_focus_id t2 f) = Some t3"
    "?b t3 (dn_default\<lparr>dn_parent := last_opt (dt_node_stack t), dn_context := dn_context n,
       dn_focus_id := dn_focus_id n\<rparr>)"
    using building_focus [OF t2(2), of "dn_focus_id n"] by (auto simp: dn_default_def)
  obtain t4 where t4: "(case dn_view_id n of None \<Rightarrow> Some t3 | Some v \<Rightarrow> set_view_id t3 v) = Some t4"
    "?b t4 ?x"
    using building_view [OF t3(2), of "dn_view_id n"] by (auto simp: dn_default_def)
  let ?f = "\<lambda>target. target\<lparr>dn_key_listeners := dn_key_listeners n,
    dn_action_listeners := dn_action_listeners n,
    dn_modifiers_changed_listeners := dn_modifiers_changed_listeners n\<rparr>"
  have t5: "update_active_node ?f t4 = Some (t4\<lparr>dt_nodes := dt_nodes t @ [?f ?x]\<rparr>)"
    by (rule building_update [OF t4(2)])
  have "?f ?x = copied_node t n" by (simp add: copied_node_def dn_default_def)
  moreover have "dt_wf (t4\<lparr>dt_nodes := dt_nodes t @ [?f ?x]\<rparr>)"
    by (rule dt_wf_listeners [OF _ t5]) (use t4(2) in \<open>simp_all add: building_def\<close>)
  ultimately show ?thesis
    using t2(1) t3(1) t4 t5
    by (intro exI [of _ "t4\<lparr>dt_nodes := dt_nodes t @ [?f ?x]\<rparr>"])
      (simp add: move_node_def emptied_node_def building_def)
qed

lemma pop_node_top:
  assumes "dt_wf t" "dt_node_stack t = st @ [i]"
  obtains t' where "pop_node t = Some t'" "dt_wf t'" "dt_nodes t' = dt_nodes t" "dt_node_stack t' = st"
  using pop_node_wf [OF assms(1)] assms(2) by auto

lemma unwind_source_stack_length:
  assumes "dt_wf t" "dt_node_stack t = base @ ts" "length ts = length ss"
  shows "\<exists>t'. unwind_source_stack parent ss t = Some (dropWhile (\<lambda>a. parent \<noteq> Some a) ss, t') \<and>
    dt_wf t' \<and> dt_nodes t' = dt_nodes t \<and>
    dt_node_stack t' = base @ take (length (dropWhile (\<lambda>a. parent \<noteq> Some a) ss)) ts"
  using assms
proof (induction ss arbitrary: t ts)
  case (Cons a ss)
  show ?case
  proof (cases "parent = Some a")
    case False
    obtain us u where ts: "ts = us @ [u]" "length us = length ss"
      using Cons.prems(3) by (cases ts rule: rev_cases) auto
    obtain t1 where t1: "pop_node t = Some t1" "dt_wf t1" "dt_nodes t1 = dt_nodes t"
      "dt_node_stack t1 = base @ us"
      using Cons.prems ts pop_node_top [of t "base @ us" u] by auto
    then show ?thesis
      using Cons.IH [OF t1(2,4) ts(2)] False ts length_dropWhile_le [of "\<lambda>a. parent \<noteq> Some a" ss] by auto
  qed (use Cons.prems in simp)
qed simp

lemma unwind_source_stack_wf:
  assumes "dt_wf t" "dt_node_stack t = base @ map g (rev ss)"
  shows "\<exists>t'. unwind_source_stack parent ss t = Some (dropWhile (\<lambda>a. parent \<noteq> Some a) ss, t') \<and>
    dt_wf t' \<and> dt_nodes t' = dt_nodes t \<and>
    dt_node_stack t' = base @ map g (rev (dropWhile (\<lambda>a. parent \<noteq> Some a) ss))"
proof -
  let ?P = "\<lambda>a. parent \<noteq> Some a"
  have "rev ss = rev (dropWhile ?P ss) @ rev (takeWhile ?P ss)"
    by (metis rev_append takeWhile_dropWhile_id)
  then have "take (length (dropWhile ?P ss)) (map g (rev ss)) = map g (rev (dropWhile ?P ss))"
    by simp
  then show ?thesis using unwind_source_stack_length [OF assms, of ss parent] by simp
qed

lemma pop_nodes_wf:
  assumes "dt_wf t" "dt_node_stack t = base @ ts" "length ts = length ss"
  shows "\<exists>t'. pop_nodes ss t = Some t' \<and> dt_wf t' \<and> dt_nodes t' = dt_nodes t \<and> dt_node_stack t' = base"
  using assms
proof (induction ss arbitrary: t ts)
  case (Cons a ss)
  obtain us u where ts: "ts = us @ [u]" "length us = length ss"
    using Cons.prems(3) by (cases ts rule: rev_cases) auto
  obtain t1 where "pop_node t = Some t1" "dt_wf t1" "dt_nodes t1 = dt_nodes t"
    "dt_node_stack t1 = base @ us"
    using Cons.prems ts pop_node_top [of t "base @ us" u] by auto
  then show ?case using Cons.IH [of t1 us] ts(2) by auto
qed simp

lemma ancestors_split:
  "parents_ok ns \<Longrightarrow> i < length ns \<Longrightarrow> p \<in> set (ancestors ns i) \<Longrightarrow>
   \<exists>ys. ancestors ns i = ancestors ns p @ ys \<and> p \<notin> set ys"
proof (induction i rule: less_induct)
  case (less i)
  show ?case
  proof (cases "p = i")
    case False
    then obtain q where q: "dn_parent (ns ! i) = Some q"
      using less.prems ancestors_root [of i ns] by (cases "dn_parent (ns ! i)") auto
    have "q < i" using less.prems(1,2) q by (rule parents_okD)
    then obtain ys where "ancestors ns q = ancestors ns p @ ys" "p \<notin> set ys"
      using less.IH [of q] less.prems q False by (auto simp: ancestors_child)
    then show ?thesis
      using less.prems q False by (auto simp: ancestors_child)
  qed simp
qed

text \<open>
  The part of a path inside the reused range, innermost first: the content of \<open>source_stack\<close>. In a
  range in preorder the parent of a node, when it is in the range, lies on the path to the node
  before it.
\<close>

definition path_from :: "dispatch_node list \<Rightarrow> nat \<Rightarrow> nat \<Rightarrow> nat list" where
  "path_from ns s i = rev (filter (\<lambda>p. s \<le> p) (ancestors ns i))"

definition preorder :: "dispatch_node list \<Rightarrow> nat \<Rightarrow> nat \<Rightarrow> bool" where
  "preorder ns s e \<longleftrightarrow>
     list_all (\<lambda>j. case dn_parent (ns ! j) of
                    None \<Rightarrow> True
                  | Some p \<Rightarrow> s \<le> p \<longrightarrow> p \<in> set (ancestors ns (j - 1))) [Suc s..<e]"

lemma dropWhile_path_from:
  assumes po: "parents_ok ns" and j: "j < length ns" "s < j" and pre: "preorder ns s e" "j < e"
  shows "j # dropWhile (\<lambda>a. dn_parent (ns ! j) \<noteq> Some a) (path_from ns s (j - 1)) = path_from ns s j"
    (is "?L = _")
proof (cases "dn_parent (ns ! j)")
  case None
  then show ?thesis using j by (simp add: path_from_def ancestors_root)
next
  case (Some p)
  have pj: "path_from ns s j = j # rev (filter (\<lambda>p. s \<le> p) (ancestors ns p))"
    using j ancestors_child [OF po j(1) Some] by (simp add: path_from_def)
  have "dropWhile (\<lambda>a. Some p \<noteq> Some a) (path_from ns s (j - 1)) =
      rev (filter (\<lambda>p. s \<le> p) (ancestors ns p))"
  proof (cases "s \<le> p")
    case False
    then have "filter (\<lambda>p. s \<le> p) (ancestors ns p) = []"
      by (auto simp: filter_empty_conv dest: ancestors_le)
    moreover have "a \<noteq> p" if "a \<in> set (path_from ns s (j - 1))" for a
      using that False by (auto simp: path_from_def)
    ultimately show ?thesis by (auto simp: dropWhile_eq_Nil_conv)
  next
    case True
    have pl: "p < length ns" using parents_okD [OF po j(1) Some] j(1) by simp
    have "p \<in> set (ancestors ns (j - 1))"
      using bspec [OF pre(1) [unfolded preorder_def list_all_iff], of j] pre(2) j True Some by simp
    then obtain ys where ys: "ancestors ns (j - 1) = ancestors ns p @ ys" "p \<notin> set ys"
      using ancestors_split [OF po less_imp_diff_less [OF j(1)]] by blast
    obtain zs where "ancestors ns p = zs @ [p]"
      using last_ancestors [OF pl] append_butlast_last_id by metis
    then show ?thesis
      using ys True by (simp add: path_from_def) (subst dropWhile_append2, auto)
  qed
  then show ?thesis using Some pj by simp
qed

text \<open>
  What a reused node becomes in the new tree \<open>ns\<close>, whose nodes were \<open>start\<close> many and whose stack was
  \<open>base\<close>: its parent moves along, a node whose parent is outside the range hangs under the active
  node, and a view that is already the innermost one around the node is not entered again.
\<close>

definition reused_as ::
  "dispatch_node list \<Rightarrow> nat \<Rightarrow> nat \<Rightarrow> nat list \<Rightarrow> dispatch_node list \<Rightarrow> nat \<Rightarrow> dispatch_node" where
  "reused_as src s start base ns j =
     (src ! j)\<lparr>
       dn_parent := (case dn_parent (src ! j) of
                       None \<Rightarrow> last_opt base
                     | Some p \<Rightarrow> if s \<le> p then Some (p - s + start) else last_opt base),
       dn_view_id := (if last_opt (along dn_view_id ns (butlast (ancestors ns (j - s + start)))) =
                        dn_view_id (src ! j)
                      then None else dn_view_id (src ! j))\<rparr>"

lemma reused_as_append:
  assumes "parents_ok (ns @ xs)" "j - s + start < length ns"
  shows "reused_as src s start base (ns @ xs) j = reused_as src s start base ns j"
proof -
  have "along dn_view_id (ns @ xs) (butlast (ancestors ns (j - s + start))) =
      along dn_view_id ns (butlast (ancestors ns (j - s + start)))"
    using assms(2) by (intro along_append_nodes) (auto dest: butlast_ancestors_less)
  then show ?thesis using assms by (simp add: reused_as_def ancestors_prefix)
qed

text \<open>The state of the loop of \<open>reuse_subtree\<close> before it reads the source node \<open>j\<close>.\<close>

definition reuse_state ::
  "dispatch_node list \<Rightarrow> nat \<Rightarrow> dispatch_tree \<Rightarrow> nat \<Rightarrow> nat list \<Rightarrow> dispatch_tree \<Rightarrow> bool" where
  "reuse_state src s t0 j ss t \<longleftrightarrow>
     dt_wf t \<and>
     ss = (if j = s then [] else path_from src s (j - 1)) \<and>
     dt_node_stack t = dt_node_stack t0 @ map (\<lambda>p. p - s + length (dt_nodes t0)) (rev ss) \<and>
     dt_nodes t = dt_nodes t0 @
       map (reused_as src s (length (dt_nodes t0)) (dt_node_stack t0) (dt_nodes t)) [s..<j]"

lemma last_opt_append: "last_opt (xs @ ys) = (if ys = [] then last_opt xs else Some (last ys))"
  by (simp add: last_opt_def)

lemma last_path_from:
  "i < length ns \<Longrightarrow> s \<le> i \<Longrightarrow> path_from ns s i = i # tl (path_from ns s i)"
  using last_ancestors [of i ns]
  by (cases "ancestors ns i" rule: rev_cases) (simp_all add: path_from_def)

text \<open>The stack below a node of the range is that of its parent.\<close>

lemma parent_of_stack:
  assumes po: "parents_ok ns" and j: "j < length ns" "s \<le> j" and eq: "j # ss = path_from ns s j"
  shows "(case dn_parent (ns ! j) of None \<Rightarrow> b | Some p \<Rightarrow> if s \<le> p then Some (g p) else b) =
    (if ss = [] then b else Some (g (hd ss)))"
proof (cases "dn_parent (ns ! j)")
  case None
  then show ?thesis using eq j by (simp add: path_from_def ancestors_root)
next
  case (Some p)
  have pl: "p < length ns" using parents_okD [OF po j(1) Some] j(1) by simp
  have ss: "ss = path_from ns s p"
    using eq j ancestors_child [OF po j(1) Some] by (simp add: path_from_def)
  show ?thesis
  proof (cases "s \<le> p")
    case True
    then have "ss = p # tl ss" using last_path_from [OF pl True] ss by simp
    then show ?thesis using Some True by (cases ss) simp_all
  next
    case False
    then have "ss = []" using ss by (auto simp: path_from_def filter_empty_conv dest: ancestors_le)
    then show ?thesis using Some False by simp
  qed
qed

lemma reuse_state_step:
  assumes po: "parents_ok src" and pre: "preorder src s e" and j: "s \<le> j" "j < e" "e \<le> length src"
    and st: "reuse_state src s t0 j ss t"
  shows "\<exists>ss1 t1 t2. unwind_source_stack (dn_parent (src ! j)) ss t = Some (ss1, t1) \<and>
    move_node t1 (src ! j) = Some (t2, emptied_node (src ! j)) \<and>
    reuse_state src s t0 (Suc j) (j # ss1) t2"
proof -
  let ?g = "\<lambda>p. p - s + length (dt_nodes t0)"
  let ?R = "\<lambda>t. reused_as src s (length (dt_nodes t0)) (dt_node_stack t0) (dt_nodes t)"
  let ?ss1 = "dropWhile (\<lambda>a. dn_parent (src ! j) \<noteq> Some a) ss"
  have wf: "dt_wf t" and ss: "ss = (if j = s then [] else path_from src s (j - 1))"
    and stack: "dt_node_stack t = dt_node_stack t0 @ map ?g (rev ss)"
    and nodes: "dt_nodes t = dt_nodes t0 @
      map (reused_as src s (length (dt_nodes t0)) (dt_node_stack t0) (dt_nodes t)) [s..<j]"
    using st by (simp_all only: reuse_state_def)
  have jl: "j < length src" using j by simp
  obtain t1 where t1: "unwind_source_stack (dn_parent (src ! j)) ss t = Some (?ss1, t1)" "dt_wf t1"
    "dt_nodes t1 = dt_nodes t" "dt_node_stack t1 = dt_node_stack t0 @ map ?g (rev ?ss1)"
    using unwind_source_stack_wf [OF wf stack] by blast
  obtain t2 where t2: "move_node t1 (src ! j) = Some (t2, emptied_node (src ! j))" "dt_wf t2"
    "dt_nodes t2 = dt_nodes t @ [copied_node t1 (src ! j)]"
    "dt_node_stack t2 = dt_node_stack t1 @ [length (dt_nodes t)]"
    using move_node_wf [OF t1(2)] t1(3) by auto
  have len: "length (dt_nodes t) = ?g j" using arg_cong [OF nodes, of length] by simp
  have path: "j # ?ss1 = path_from src s j"
  proof (cases "j = s")
    case True
    have "path_from src s s = [s]"
    proof (cases "dn_parent (src ! s)")
      case (Some p)
      then have "p < s" using parents_okD [OF po] jl True by blast
      then show ?thesis
        using Some jl True po
        by (auto simp: path_from_def ancestors_child filter_empty_conv dest: ancestors_le)
    qed (use jl True in \<open>simp add: path_from_def ancestors_root\<close>)
    then show ?thesis using True ss by simp
  next
    case False
    then show ?thesis using dropWhile_path_from [OF po jl _ pre j(2)] ss j(1) by simp
  qed
  have anc: "ancestors (dt_nodes t2) (?g j) = dt_node_stack t2"
    using active_node_iff [OF t2(2), of "?g j"] t2(4) len by (simp add: active_node_id_def last_opt_def)
  have views: "along dn_view_id (dt_nodes t2) (dt_node_stack t1) = dt_view_stack t1"
    using dt_wfD(4) [OF t1(2)] stack_ok_bound [OF dt_wfD(1,2) [OF t1(2)]] t1(3) t2(3)
    by (simp add: along_append_nodes)
  have "last_opt (dt_node_stack t1) =
      (case dn_parent (src ! j) of None \<Rightarrow> last_opt (dt_node_stack t0)
       | Some p \<Rightarrow> if s \<le> p then Some (?g p) else last_opt (dt_node_stack t0))"
    unfolding parent_of_stack [OF po jl j(1) path, of _ ?g]
    by (simp add: t1(4) last_opt_append last_map last_rev hd_map)
  then have copy: "copied_node t1 (src ! j) = ?R t2 j"
    using anc views t2(4) by (simp add: copied_node_def reused_as_def)
  have "?R t i = ?R t2 i" if "i \<in> set [s..<j]" for i
    unfolding t2(3) by (rule reused_as_append [symmetric])
      (use dt_wfD(1) [OF t2(2)] t2(3) that len in auto)
  then have "map (?R t) [s..<j] = map (?R t2) [s..<j]" by (rule map_cong [OF refl])
  then have "dt_nodes t = dt_nodes t0 @ map (?R t2) [s..<j]"
    by (intro trans [OF nodes]) (simp only:)
  then have "dt_nodes t2 = dt_nodes t0 @ map (?R t2) [s..<j] @ [?R t2 j]"
    by (intro trans [OF t2(3)]) (simp only: copy append_assoc)
  then have "dt_nodes t2 = dt_nodes t0 @ map (?R t2) [s..<Suc j]"
    using j(1) by (simp only: upt_Suc_append map_append list.map)
  then have "reuse_state src s t0 (Suc j) (j # ?ss1) t2"
    unfolding reuse_state_def
  proof (intro conjI)
    show "j # ?ss1 = (if Suc j = s then [] else path_from src s (Suc j - 1))"
      using path j(1) by simp
    show "dt_node_stack t2 = dt_node_stack t0 @ map ?g (rev (j # ?ss1))"
      by (simp add: t2(4) t1(4) len)
  qed (rule t2(2))
  then show ?thesis using t1(1) t2(1) by blast
qed

lemma reuse_nodes_state:
  assumes po: "parents_ok src" and pre: "preorder src s e" and e: "e \<le> length src"
  shows "s \<le> j \<Longrightarrow> j \<le> e \<Longrightarrow> reuse_state src s t0 j ss t \<Longrightarrow>
    \<exists>ss' t'. reuse_nodes focus (map (\<lambda>i. (i, src ! i)) [j..<e]) ss cf t =
      Some (map (\<lambda>i. emptied_node (src ! i)) [j..<e], ss',
        cf \<or> list_ex (\<lambda>i. dn_focus_id (src ! i) \<noteq> None \<and> dn_focus_id (src ! i) = focus) [j..<e], t') \<and>
      reuse_state src s t0 e ss' t'"
proof (induction "e - j" arbitrary: j ss t cf)
  case 0
  then show ?case by simp
next
  case (Suc n)
  then have j: "j < e" "[j..<e] = j # [Suc j..<e]" by (simp_all add: upt_conv_Cons)
  from reuse_state_step [OF po pre Suc.prems(1) j(1) e Suc.prems(3)] obtain ss1 t1 t2 where
    step: "unwind_source_stack (dn_parent (src ! j)) ss t = Some (ss1, t1)"
      "move_node t1 (src ! j) = Some (t2, emptied_node (src ! j))"
      "reuse_state src s t0 (Suc j) (j # ss1) t2" by blast
  have n: "n = e - Suc j" "s \<le> Suc j" "Suc j \<le> e" using Suc j(1) by simp_all
  obtain ss' t' where IH: "reuse_nodes focus (map (\<lambda>i. (i, src ! i)) [Suc j..<e]) (j # ss1)
      (cf \<or> dn_focus_id (src ! j) \<noteq> None \<and> dn_focus_id (src ! j) = focus) t2 =
      Some (map (\<lambda>i. emptied_node (src ! i)) [Suc j..<e], ss',
        (cf \<or> dn_focus_id (src ! j) \<noteq> None \<and> dn_focus_id (src ! j) = focus) \<or>
        list_ex (\<lambda>i. dn_focus_id (src ! i) \<noteq> None \<and> dn_focus_id (src ! i) = focus) [Suc j..<e], t')"
    "reuse_state src s t0 e ss' t'"
    using Suc.hyps(1) [OF n step(3)] by blast
  then show ?case
    by (intro exI [of _ ss'] exI [of _ t'])
      (simp only: j(2) list.map reuse_nodes.simps step option.case prod.case list.pred_inject list_ex_iff list.set bex_simps disj_assoc)
qed

lemma enumerate_upt: "List.enumerate 0 xs = map (\<lambda>i. (i, xs ! i)) [0..<length xs]"
  by (rule nth_equalityI) (simp_all add: nth_enumerate_eq)

lemma picked_nodes:
  assumes "s \<le> e" "e \<le> length xs"
  shows "take (e - s) (drop s (List.enumerate 0 xs)) = map (\<lambda>i. (i, xs ! i)) [s..<e]"
  using assms by (simp add: enumerate_upt drop_map take_map)

section \<open>Reachable trees\<close>

text \<open>Reusing keeps the invariant whatever the range and the source.\<close>

lemma reuse_nodes_wf:
  assumes "dt_wf t" "dt_node_stack t = base @ ts" "length ts = length ss"
  shows "\<exists>emptied ss' cf' t' ts'. reuse_nodes focus picked ss cf t = Some (emptied, ss', cf', t') \<and>
    dt_wf t' \<and> dt_node_stack t' = base @ ts' \<and> length ts' = length ss'"
  using assms
proof (induction picked arbitrary: ss cf t ts)
  case Nil
  then show ?case by auto
next
  case (Cons x picked)
  obtain i n where x: "x = (i, n)" by (cases x)
  let ?ss1 = "dropWhile (\<lambda>a. dn_parent n \<noteq> Some a) ss"
  obtain t1 where t1: "unwind_source_stack (dn_parent n) ss t = Some (?ss1, t1)" "dt_wf t1"
    "dt_node_stack t1 = base @ take (length ?ss1) ts"
    using unwind_source_stack_length [OF Cons.prems] by blast
  obtain t2 where t2: "move_node t1 n = Some (t2, emptied_node n)" "dt_wf t2"
    "dt_node_stack t2 = base @ (take (length ?ss1) ts @ [length (dt_nodes t1)])"
    using move_node_wf [OF t1(2), of n] t1(3) by auto
  have "length (take (length ?ss1) ts @ [length (dt_nodes t1)]) = length (i # ?ss1)"
    using Cons.prems(3) length_dropWhile_le [of "\<lambda>a. dn_parent n \<noteq> Some a" ss] by simp
  from Cons.IH [OF t2(2,3) this,
      of "cf \<or> dn_focus_id n \<noteq> None \<and> dn_focus_id n = focus"] show ?case
    by (elim exE conjE) (simp add: x t1(1) t2(1) del: not_None_eq)
qed

lemma reuse_subtree_wf:
  assumes "dt_wf t"
  shows "\<exists>r t' source'. reuse_subtree t a b source focus = Some (r, t', source') \<and> dt_wf t'"
proof -
  let ?picked = "take (b - a) (drop a (List.enumerate 0 (dt_nodes source)))"
  obtain emptied ss' cf' t1 ts' where *: "reuse_nodes focus ?picked [] False t = Some (emptied, ss', cf', t1)"
    "dt_wf t1" "dt_node_stack t1 = dt_node_stack t @ ts'" "length ts' = length ss'"
    using reuse_nodes_wf [of t "dt_node_stack t" "[]" "[]" focus ?picked False] assms by auto
  then obtain t2 where "pop_nodes ss' t1 = Some t2" "dt_wf t2"
    using pop_nodes_wf by blast
  then show ?thesis using *(1) by (simp add: reuse_subtree_def Let_def)
qed

lemma dt_wf_step: "dt_step t t' \<Longrightarrow> dt_wf t \<Longrightarrow> dt_wf t'"
proof (induction rule: dt_step.induct)
  case (step_pop t t')
  then have "dt_node_stack t \<noteq> []"
    by (auto simp: pop_node_def active_node_id_def last_opt_def split: if_splits)
  then show ?case using step_pop pop_node_wf by (metis option.inject)
next
  case (step_set_active_node t i t')
  then have "i < length (dt_nodes t)"
    by (auto simp: set_active_node_def nth_opt_def split: if_splits)
  then show ?case using step_set_active_node set_active_node_wf by fastforce
next
  case (step_reuse_subtree t a b source focus r t' source')
  then show ?case using reuse_subtree_wf [of t a b source focus] by auto
next
  case (step_on_key_event t l t')
  then show ?case using dt_wf_listeners [OF _ step_on_key_event(1) [unfolded on_key_event_def]] by simp
next
  case (step_on_modifiers_changed t l t')
  then show ?case
    using dt_wf_listeners [OF _ step_on_modifiers_changed(1) [unfolded on_modifiers_changed_def]] by simp
next
  case (step_on_action t a l t')
  then show ?case using dt_wf_listeners [OF _ step_on_action(1) [unfolded on_action_def]] by simp
qed (blast intro: dt_wf_clear dt_wf_push dt_wf_set_key_context dt_wf_set_focus_id dt_wf_set_view_id
    dt_wf_truncate)+

interpretation tree: transition_invariant "\<lambda>t. \<exists>km. t = dt_new km" dt_step dt_wf
  by unfold_locales (auto simp: dt_wf_new intro: dt_wf_step)

lemma reachable_wf: "dt_reachable t \<Longrightarrow> dt_wf t"
  by (auto simp: dt_reachable_def intro: tree.inv_reachable)

section \<open>The loops over parents\<close>

lemma collect_path_eq:
  "parents_ok ns \<Longrightarrow> i < length ns \<Longrightarrow> collect_path ns (Some i) acc = Some (ancestors ns i @ acc)"
proof (induction i arbitrary: acc rule: less_induct)
  case (less i)
  show ?case
  proof (cases "dn_parent (ns ! i)")
    case None
    then show ?thesis
      using less.prems
      by (subst collect_path.simps)
        (simp add: nth_opt_def collect_path.simps [of _ None] ancestors_root)
  next
    case (Some p)
    then have p: "p < i" using less.prems parents_okD by blast
    then show ?thesis
      using less.prems Some
      by (subst collect_path.simps) (simp add: nth_opt_def less.IH [OF p] ancestors_child)
  qed
qed

lemma is_ancestor_eq:
  "parents_ok ns \<Longrightarrow> i < length ns \<Longrightarrow> is_ancestor ns q (Some i) = Some (q \<in> set (ancestors ns i))"
proof (induction i rule: less_induct)
  case (less i)
  show ?case
  proof (cases "dn_parent (ns ! i)")
    case None
    then show ?thesis
      using less.prems
      by (subst is_ancestor.simps)
        (auto simp: nth_opt_def is_ancestor.simps [of _ _ None] ancestors_root)
  next
    case (Some p)
    then have p: "p < i" using less.prems parents_okD by blast
    then show ?thesis
      using less.prems Some
      by (subst is_ancestor.simps) (auto simp: nth_opt_def less.IH [OF p] ancestors_child)
  qed
qed

lemma path_contexts_eq:
  "(\<And>j. j \<in> set path \<Longrightarrow> j < length (dt_nodes t)) \<Longrightarrow>
   path_contexts t path = Some (along dn_context (dt_nodes t) path)"
  by (induction path) (simp_all add: nth_opt_def along_def)

section \<open>Correctness of the tree\<close>

text \<open>
  The discipline of the steps is needed, the operations do not check it: when a node that has a key context is given a second one and then popped, the
  first context stays on the context stack.
\<close>

lemma second_context_stays:
  assumes wf: "dt_wf t" and active: "active_node_id t = Some i" and c0: "dn_context (dt_nodes t ! i) = Some c0"
  shows "\<exists>t1 t2. set_key_context t c = Some t1 \<and> pop_node t1 = Some t2 \<and>
    dt_context_stack t2 = along dn_context (dt_nodes t2) (dt_node_stack t2) @ [c0]"
proof -
  have st: "dt_node_stack t \<noteq> []" "last (dt_node_stack t) = i"
    using active by (auto simp: active_node_id_def last_opt_def split: if_splits)
  then have i: "i < length (dt_nodes t)" and path: "dt_node_stack t = ancestors (dt_nodes t) i"
    using dt_wfD(2) [OF wf] by (auto simp: stack_ok_def)
  let ?ns = "(dt_nodes t)[i := (dt_nodes t ! i)\<lparr>dn_context := Some c\<rparr>]" and ?st = "butlast (dt_node_stack t)"
  have "along dn_context ?ns ?st = along dn_context (dt_nodes t) ?st"
    unfolding path using butlast_ancestors_less [of _ "dt_nodes t" i]
    by (intro along_cong) (metis nat_less_le nth_list_update_neq)
  moreover have "along dn_context (dt_nodes t) (dt_node_stack t) = along dn_context (dt_nodes t) ?st @ [c0]"
    using along_snoc [OF st(1), of dn_context "dt_nodes t"] c0 st(2) by (simp add: along_single)
  ultimately have "dt_context_stack t = along dn_context ?ns ?st @ [c0]" using dt_wfD(3) [OF wf] by simp
  then show ?thesis
    using active i by (simp add: set_key_context_def update_active_node_def pop_node_def active_node_id_def nth_opt_def butlast_append Let_def)
qed

text \<open>
  C31. Every tree that is built by the operations in the way elements use them satisfies the invariant: parents precede their children,
  the node stack is the path to the active node, the context and view stacks are the contexts and
  views along it, and the maps from focus handles and views name existing nodes that carry them
  (also after \<open>truncate\<close> and \<open>reuse_subtree\<close>). The way elements use them is that a node is given a key context, a focus handle and a view only while
  it has none, and that \<open>truncate\<close> takes away no node of the stack; all other operations are free, in any order and with any arguments.
\<close>

theorem dt_reachable_invariant:
  assumes "dt_reachable t" shows "dt_wf t"
  using assms by (auto simp: dt_reachable_def intro: tree.inv_reachable)

text \<open>
  In every reachable tree \<open>set_active_node\<close> of an existing node returns without touching the nodes,
  whether it extends the stack or rebuilds it: the node stack becomes the dispatch path of the node
  and the context stack the contexts along that path.
\<close>

theorem set_active_node_spec:
  assumes "dt_reachable t" and "i < dt_len t"
  shows "\<exists>t'. set_active_node t i = Some t' \<and> dt_nodes t' = dt_nodes t \<and>
    active_node_id t' = Some i \<and>
    dispatch_path t i = Some (dt_node_stack t') \<and>
    path_contexts t (dt_node_stack t') = Some (dt_context_stack t')"
proof -
  note wf = reachable_wf [OF assms(1)]
  have i: "i < length (dt_nodes t)" using assms(2) by (simp add: dt_len_def)
  obtain t' where t': "set_active_node t i = Some t'" "dt_nodes t' = dt_nodes t" "dt_wf t'"
    "dt_node_stack t' = ancestors (dt_nodes t) i"
    using set_active_node_wf [OF wf i] by blast
  moreover have "dispatch_path t i = Some (dt_node_stack t')"
    using collect_path_eq [OF dt_wfD(1) [OF wf] i] t'(4) by (simp add: dispatch_path_def)
  moreover have "path_contexts t (dt_node_stack t') = Some (dt_context_stack t')"
    using dt_wfD(3) [OF t'(3)] t'(2,4) ancestors_length [OF dt_wfD(1) [OF wf] i]
    by (simp add: path_contexts_eq)
  ultimately show ?thesis
    using active_node_iff [OF t'(3), of i] i by auto
qed

text \<open>
  In every reachable tree \<open>focus_contains\<close> returns, and says that one focus handle contains another
  exactly when they are equal, or both are in the tree and the dispatch path of the second goes
  through the node of the first.
\<close>

theorem focus_contains_spec:
  assumes "dt_reachable t"
  shows "focus_contains t parent child = Some
    (parent = child \<or>
     (case (dt_focusable_node_ids t parent, dt_focusable_node_ids t child) of
        (Some p, Some c) \<Rightarrow> p \<in> set (the (dispatch_path t c))
      | _ \<Rightarrow> False))"
proof -
  note w = dt_wfD [OF reachable_wf [OF assms]]
  have "c < length (dt_nodes t)" if "dt_focusable_node_ids t child = Some c" for c
    using w(5) that by (simp add: ids_ok_def)
  then show ?thesis
    using is_ancestor_eq [OF w(1)] collect_path_eq [OF w(1)]
    by (auto simp: focus_contains_def dispatch_path_def is_ancestor.simps [of _ _ None]
        split: option.split)
qed

text \<open>
  C15. Reusing the nodes \<open>s..<e\<close> of the last frame's tree, a range in preorder, returns: the range is
  appended to the new tree with listeners, contexts and focus handles kept and parents translated
  (\<open>refresh_node_id\<close> gives the new ids), the three stacks are as before, the copied source nodes
  keep everything but their listeners, and \<open>contains_focus\<close> says whether the focused node is among
  them.
\<close>

theorem reuse_subtree_spec:
  assumes "dt_reachable t" and "dt_reachable source"
    and "s \<le> e" and "e \<le> dt_len source" and "preorder (dt_nodes source) s e"
  shows "\<exists>r t' source'. reuse_subtree t s e source focus = Some (r, t', source') \<and>
    dt_nodes t' = dt_nodes t @
      map (reused_as (dt_nodes source) s (dt_len t) (dt_node_stack t) (dt_nodes t')) [s..<e] \<and>
    dt_node_stack t' = dt_node_stack t \<and> dt_context_stack t' = dt_context_stack t \<and>
    dt_view_stack t' = dt_view_stack t \<and>
    dt_nodes source' = take s (dt_nodes source) @ map emptied_node (take (e - s) (drop s (dt_nodes source))) @
      drop e (dt_nodes source) \<and>
    map (refresh_node_id r) [s..<e] = map Some [dt_len t..<dt_len t'] \<and>
    (rs_contains_focus r \<longleftrightarrow>
      list_ex (\<lambda>j. dn_focus_id (dt_nodes source ! j) \<noteq> None \<and> dn_focus_id (dt_nodes source ! j) = focus)
        [s..<e])"
proof -
  let ?src = "dt_nodes source" and ?n = "length (dt_nodes t)"
  note wf = reachable_wf [OF assms(1)] and po = dt_wfD(1) [OF reachable_wf [OF assms(2)]]
  have e: "e \<le> length ?src" using assms(4) by (simp add: dt_len_def)
  have init: "reuse_state ?src s t s [] t" using wf by (simp add: reuse_state_def)
  obtain ss t1 where run: "reuse_nodes focus (map (\<lambda>i. (i, ?src ! i)) [s..<e]) [] False t =
      Some (map (\<lambda>i. emptied_node (?src ! i)) [s..<e], ss, list_ex (\<lambda>j. dn_focus_id (?src ! j) \<noteq> None \<and>
        dn_focus_id (?src ! j) = focus) [s..<e], t1)" "reuse_state ?src s t e ss t1"
    using reuse_nodes_state [OF po assms(5) e order.refl assms(3) init, of focus False]
    by (simp only: simp_thms) blast
  have t1: "dt_wf t1" "dt_nodes t1 = dt_nodes t @ map (reused_as ?src s ?n (dt_node_stack t) (dt_nodes t1)) [s..<e]"
    "dt_node_stack t1 = dt_node_stack t @ map (\<lambda>p. p - s + ?n) (rev ss)"
    using run(2) by (simp_all only: reuse_state_def)
  obtain t2 where t2: "pop_nodes ss t1 = Some t2" "dt_wf t2" "dt_nodes t2 = dt_nodes t1"
    "dt_node_stack t2 = dt_node_stack t"
    using pop_nodes_wf [OF t1(1,3)] by auto
  have nodes: "dt_nodes t2 = dt_nodes t @ map (reused_as ?src s ?n (dt_node_stack t) (dt_nodes t2)) [s..<e]"
    unfolding t2(3) by (rule t1(2))
  have old: "along f (dt_nodes t2) (dt_node_stack t) = along f (dt_nodes t) (dt_node_stack t)"
    for f :: "dispatch_node \<Rightarrow> 'a option"
    using stack_ok_bound [OF dt_wfD(1,2) [OF wf]] by (subst nodes) (simp add: along_append_nodes)
  have stacks: "dt_context_stack t2 = dt_context_stack t" "dt_view_stack t2 = dt_view_stack t"
    using dt_wfD(3,4) [OF wf] dt_wfD(3,4) [OF t2(2)] t2(4) old by simp_all
  have len: "length (dt_nodes t2) = ?n + (e - s)" using arg_cong [OF nodes, of length] by simp
  let ?r = "\<lparr>rs_old_start = s, rs_old_end = e, rs_new_start = ?n, rs_new_end = ?n + (e - s),
    rs_contains_focus = list_ex (\<lambda>j. dn_focus_id (?src ! j) \<noteq> None \<and> dn_focus_id (?src ! j) = focus) [s..<e]\<rparr>"
  have ids: "map (refresh_node_id ?r) [s..<e] = map Some [?n..<length (dt_nodes t2)]"
    using len by (intro nth_equalityI) (auto simp: refresh_node_id_def)
  have emptied: "map (\<lambda>i. emptied_node (?src ! i)) [s..<e] = map emptied_node (take (e - s) (drop s ?src))"
    using e by (intro nth_equalityI) auto
  define source' where "source' = source\<lparr>dt_nodes :=
    take s ?src @ map emptied_node (take (e - s) (drop s ?src)) @ drop e ?src\<rparr>"
  have "reuse_subtree t s e source focus = Some (?r, t2, source')"
    unfolding reuse_subtree_def Let_def picked_nodes [OF assms(3) e] run(1) option.case prod.case t2(1)
    using assms(3) e by (simp add: emptied source'_def)
  then show ?thesis
    by (intro exI [of _ ?r] exI [of _ t2] exI [of _ source'] conjI)
      (use nodes t2(4) stacks ids in \<open>simp_all add: dt_len_def source'_def\<close>)
qed

subsection \<open>An example tree\<close>

text \<open>A root with a context and a focus handle, and under it a node with a view.\<close>

definition example_tree :: "keymap \<Rightarrow> dispatch_tree" where
  "example_tree km =
     the (set_view_id (snd (push_node (the (set_focus_id
       (the (set_key_context (snd (push_node (dt_new km))) [])) 7)))) 3)"

lemmas example_simps = example_tree_def push_node_def set_key_context_def set_focus_id_def
  set_view_id_def update_active_node_def active_node_id_def last_opt_def dt_new_def dn_default_def
  Let_def

lemma example_tree_eq:
  "example_tree km = \<lparr>dt_node_stack = [0, 1], dt_context_stack = [[]], dt_view_stack = [3],
     dt_nodes = [dn_default\<lparr>dn_context := Some [], dn_focus_id := Some 7\<rparr>,
                 dn_default\<lparr>dn_parent := Some 0, dn_view_id := Some 3\<rparr>],
     dt_focusable_node_ids = [7 \<mapsto> 0], dt_view_node_ids = [3 \<mapsto> 1], dt_keymap = km\<rparr>"
  by (simp add: example_simps)

lemma example_tree_reachable: "dt_reachable (example_tree km)"
proof -
  define t1 where "t1 = snd (push_node (dt_new km))"
  define t2 where "t2 = the (set_key_context t1 [])"
  define t3 where "t3 = the (set_focus_id t2 7)"
  define t4 where "t4 = snd (push_node t3)"
  note defs = t1_def t2_def t3_def t4_def
  have "dt_step (dt_new km) t1" unfolding t1_def by (rule step_push)
  moreover have "dt_step t1 t2"
    by (rule step_set_key_context [of t1 0 "[]"]) (simp_all add: defs example_simps)
  moreover have "dt_step t2 t3"
    by (rule step_set_focus_id [of t2 0 7]) (simp_all add: defs example_simps)
  moreover have "dt_step t3 t4" unfolding t4_def by (rule step_push)
  moreover have "dt_step t4 (example_tree km)"
    by (rule step_set_view_id [of t4 1 3]) (simp_all add: defs example_simps)
  ultimately have "dt_step\<^sup>*\<^sup>* (dt_new km) (example_tree km)"
    by (meson converse_rtranclp_into_rtranclp rtranclp.rtrancl_refl)
  then show ?thesis by (auto simp: dt_reachable_def)
qed

lemma example_tree_preorder: "preorder (dt_nodes (example_tree km)) 0 2"
  by (simp add: preorder_def example_tree_eq upt_rec ancestors.simps nth_opt_def dn_default_def)

theorem dt_reachable_invariant_witness:
  "dt_reachable (example_tree km_default) \<and> dt_wf (example_tree km_default)"
  using dt_reachable_invariant [OF example_tree_reachable] example_tree_reachable by simp

theorem set_active_node_spec_witness:
  "\<exists>t'. set_active_node (example_tree km_default) 0 = Some t' \<and> active_node_id t' = Some 0 \<and>
     dispatch_path (example_tree km_default) 0 = Some (dt_node_stack t')"
  using set_active_node_spec [OF example_tree_reachable, of 0 km_default]
  by (auto simp: dt_len_def example_tree_eq)

theorem focus_contains_spec_witness: "focus_contains (example_tree km_default) 7 8 = Some False"
  using focus_contains_spec [OF example_tree_reachable, of km_default 7 8]
  by (simp add: example_tree_eq)

theorem reuse_subtree_spec_witness:
  "\<exists>r t' source'. reuse_subtree (example_tree km_default) 0 2 (example_tree km_default) (Some 7) =
     Some (r, t', source') \<and>
     dt_node_stack t' = [0, 1] \<and> dt_len t' = 4 \<and> rs_contains_focus r"
proof -
  have two: "2 \<le> dt_len (example_tree km_default)" by (simp add: dt_len_def example_tree_eq)
  obtain r t' source' where
    "reuse_subtree (example_tree km_default) 0 2 (example_tree km_default) (Some 7) = Some (r, t', source')"
    and nodes: "dt_nodes t' = dt_nodes (example_tree km_default) @
      map (reused_as (dt_nodes (example_tree km_default)) 0 (dt_len (example_tree km_default))
        (dt_node_stack (example_tree km_default)) (dt_nodes t')) [0..<2]"
    and "dt_node_stack t' = dt_node_stack (example_tree km_default)"
    and "rs_contains_focus r \<longleftrightarrow>
      list_ex (\<lambda>j. dn_focus_id (dt_nodes (example_tree km_default) ! j) \<noteq> None \<and>
        dn_focus_id (dt_nodes (example_tree km_default) ! j) = Some 7) [0..<2]"
    using reuse_subtree_spec [OF example_tree_reachable example_tree_reachable _ two
        example_tree_preorder, of km_default "Some 7"] by blast
  moreover have "dt_len t' = 4"
    using arg_cong [OF nodes, of length] by (simp add: dt_len_def example_tree_eq)
  ultimately show ?thesis by (simp add: example_tree_eq upt_rec)
qed

end
