(* ===== verification/Sum_Tree.thy ===== *)
theory Sum_Tree
  imports Prelude
begin

text \<open>
  The B+ tree of \<open>crates/sum_tree/src/sum_tree.rs\<close>: leaves hold items and their summaries, inner nodes
  hold children and their summaries. The \<open>Item\<close> and \<open>Summary\<close> traits are a record of functions, with the
  context fixed. A panic (a full \<open>ArrayVec\<close>, an \<open>unwrap\<close> of nothing, a height that underflows, an
  operation on the wrong kind of node) is \<open>None\<close>. Heights are natural numbers where the
  code has a \<open>u8\<close>. The theory shows that building, pushing and appending never panic,
  keep the invariant of the tree, and act on the sequence of items like the list operations.
\<close>

section \<open>Data\<close>

record ('a, 's) summary_ops =
  so_summary :: "'a \<Rightarrow> 's"
  so_zero :: 's
  so_add :: "'s \<Rightarrow> 's \<Rightarrow> 's"

definition TREE_BASE :: nat where "TREE_BASE = 6"

definition CAPACITY :: nat where "CAPACITY = 2 * TREE_BASE"

datatype ('a, 's) sum_tree =
  Internal nat 's "'s list" "('a, 's) sum_tree list"
| Leaf 's "'a list" "'s list"

text \<open>Collecting into an \<open>ArrayVec\<close> panics beyond its capacity.\<close>

definition array_vec :: "'x list \<Rightarrow> 'x list option" where
  "array_vec xs = (if length xs \<le> CAPACITY then Some xs else None)"

definition sum_of :: "('a, 's) summary_ops \<Rightarrow> 's list \<Rightarrow> 's" where
  "sum_of ops xs = foldl (so_add ops) (so_zero ops) xs"

section \<open>Nodes\<close>

fun is_leaf :: "('a, 's) sum_tree \<Rightarrow> bool" where
  "is_leaf (Leaf _ _ _) = True"
| "is_leaf (Internal _ _ _ _) = False"

fun st_height :: "('a, 's) sum_tree \<Rightarrow> nat" where
  "st_height (Internal height _ _ _) = height"
| "st_height (Leaf _ _ _) = 0"

fun st_summary :: "('a, 's) sum_tree \<Rightarrow> 's" where
  "st_summary (Internal _ summary _ _) = summary"
| "st_summary (Leaf summary _ _) = summary"

fun child_summaries :: "('a, 's) sum_tree \<Rightarrow> 's list" where
  "child_summaries (Internal _ _ child_sums _) = child_sums"
| "child_summaries (Leaf _ _ item_summaries) = item_summaries"

fun child_trees :: "('a, 's) sum_tree \<Rightarrow> ('a, 's) sum_tree list option" where
  "child_trees (Internal _ _ _ trees) = Some trees"
| "child_trees (Leaf _ _ _) = None"

fun node_items :: "('a, 's) sum_tree \<Rightarrow> 'a list option" where
  "node_items (Leaf _ items _) = Some items"
| "node_items (Internal _ _ _ _) = None"

fun is_underflowing :: "('a, 's) sum_tree \<Rightarrow> bool" where
  "is_underflowing (Internal _ _ _ trees) \<longleftrightarrow> length trees < TREE_BASE"
| "is_underflowing (Leaf _ items _) \<longleftrightarrow> length items < TREE_BASE"

fun st_is_empty :: "('a, 's) sum_tree \<Rightarrow> bool" where
  "st_is_empty (Internal _ _ _ _) = False"
| "st_is_empty (Leaf _ items _) \<longleftrightarrow> items = []"

fun leftmost_leaf :: "('a, 's) sum_tree \<Rightarrow> ('a, 's) sum_tree option" where
  "leftmost_leaf (Leaf s xs ss) = Some (Leaf s xs ss)"
| "leftmost_leaf (Internal _ _ _ (t # _)) = leftmost_leaf t"
| "leftmost_leaf (Internal _ _ _ []) = None"

lemma size_last [termination_simp]: "ts \<noteq> [] \<Longrightarrow> size (last ts) < Suc (n + size_list size ts)"
  using size_list_estimation' [OF last_in_set order.refl, of ts size] by simp

fun rightmost_leaf :: "('a, 's) sum_tree \<Rightarrow> ('a, 's) sum_tree option" where
  "rightmost_leaf (Leaf s xs ss) = Some (Leaf s xs ss)"
| "rightmost_leaf (Internal _ _ _ ts) = (if ts = [] then None else rightmost_leaf (last ts))"

text \<open>\<open>None\<close> is the panic, \<open>Some None\<close> the empty tree.\<close>

definition st_first :: "('a, 's) sum_tree \<Rightarrow> 'a option option" where
  "st_first t =
     (case leftmost_leaf t of
        None \<Rightarrow> None
      | Some leaf \<Rightarrow> map_option (\<lambda>items. nth_opt items 0) (node_items leaf))"

definition st_last :: "('a, 's) sum_tree \<Rightarrow> 'a option option" where
  "st_last t =
     (case rightmost_leaf t of
        None \<Rightarrow> None
      | Some leaf \<Rightarrow>
          map_option (\<lambda>items. if items = [] then None else Some (last items)) (node_items leaf))"

section \<open>Building\<close>

definition st_new :: "('a, 's) summary_ops \<Rightarrow> ('a, 's) sum_tree" where
  "st_new ops = Leaf (so_zero ops) [] []"

definition from_summary :: "'s \<Rightarrow> ('a, 's) sum_tree" where
  "from_summary summary = Leaf summary [] []"

subsection \<open>Appending\<close>

definition midpoint :: "nat \<Rightarrow> nat" where
  "midpoint child_count = (child_count + child_count mod 2) div 2"

text \<open>
  Both branches of \<open>push_tree_recursive\<close> end by adding children to a node, which is split in two when
  it would overflow.
\<close>

definition extend_internal ::
  "('a, 's) summary_ops \<Rightarrow> nat \<Rightarrow> 's \<Rightarrow> 's list \<Rightarrow> ('a, 's) sum_tree list \<Rightarrow> 's list \<Rightarrow>
   ('a, 's) sum_tree list \<Rightarrow> (('a, 's) sum_tree \<times> ('a, 's) sum_tree option) option" where
  "extend_internal ops height summary child_sums trees summaries_to_append trees_to_append =
     (let child_count = length trees + length trees_to_append in
      if child_count > CAPACITY then
        do {
          let mid = midpoint child_count;
          let all_summaries = child_sums @ summaries_to_append;
          let all_trees = trees @ trees_to_append;
          left_summaries \<leftarrow> array_vec (take mid all_summaries);
          right_summaries \<leftarrow> array_vec (drop mid all_summaries);
          left_trees \<leftarrow> array_vec (take mid all_trees);
          right_trees \<leftarrow> array_vec (drop mid all_trees);
          Some (Internal height (sum_of ops left_summaries) left_summaries left_trees,
                Some (Internal height (sum_of ops right_summaries) right_summaries right_trees))
        }
      else
        do {
          child_sums' \<leftarrow> array_vec (child_sums @ summaries_to_append);
          trees' \<leftarrow> array_vec (trees @ trees_to_append);
          Some (Internal height summary child_sums' trees', None)
        })"

definition extend_leaf ::
  "('a, 's) summary_ops \<Rightarrow> 's \<Rightarrow> 'a list \<Rightarrow> 's list \<Rightarrow> ('a, 's) sum_tree \<Rightarrow>
   (('a, 's) sum_tree \<times> ('a, 's) sum_tree option) option" where
  "extend_leaf ops summary items item_summaries other =
     do {
       other_items \<leftarrow> node_items other;
       let child_count = length items + length other_items;
       if child_count > CAPACITY then
         do {
           let mid = midpoint child_count;
           let all_items = items @ other_items;
           let all_summaries = item_summaries @ child_summaries other;
           left_items \<leftarrow> array_vec (take mid all_items);
           right_items \<leftarrow> array_vec (drop mid all_items);
           left_summaries \<leftarrow> array_vec (take mid all_summaries);
           right_summaries \<leftarrow> array_vec (drop mid all_summaries);
           Some (Leaf (sum_of ops left_summaries) left_items left_summaries,
                 Some (Leaf (sum_of ops right_summaries) right_items right_summaries))
         }
       else
         do {
           items' \<leftarrow> array_vec (items @ other_items);
           item_summaries' \<leftarrow> array_vec (item_summaries @ child_summaries other);
           Some (Leaf (so_add ops summary (st_summary other)) items' item_summaries', None)
         }
     }"

function push_tree_recursive ::
  "('a, 's) summary_ops \<Rightarrow> ('a, 's) sum_tree \<Rightarrow> ('a, 's) sum_tree \<Rightarrow>
   (('a, 's) sum_tree \<times> ('a, 's) sum_tree option) option" where
  "push_tree_recursive ops (Leaf summary items item_summaries) other =
     extend_leaf ops summary items item_summaries other"
| "push_tree_recursive ops (Internal height summary child_sums trees) other =
     (let summary' = so_add ops summary (st_summary other) in
      if height < st_height other then None
      else if height = st_height other then
        (case child_trees other of
           None \<Rightarrow> None
         | Some other_trees \<Rightarrow>
             extend_internal ops height summary' child_sums trees (child_summaries other) other_trees)
      else if height - st_height other = 1 \<and> \<not> is_underflowing other then
        extend_internal ops height summary' child_sums trees [st_summary other] [other]
      else if trees = [] \<or> child_sums = [] then None
      else
        (case push_tree_recursive ops (last trees) other of
           None \<Rightarrow> None
         | Some (last_child, tree_to_append) \<Rightarrow>
             let trees' = butlast trees @ [last_child];
                 child_sums' = butlast child_sums @ [st_summary last_child]
             in case tree_to_append of
                  None \<Rightarrow> extend_internal ops height summary' child_sums' trees' [] []
                | Some split_tree \<Rightarrow>
                    extend_internal ops height summary' child_sums' trees'
                      [st_summary split_tree] [split_tree]))"
  by pat_completeness auto
termination
  by (relation "measure (\<lambda>(_, t, _). size t)") (auto simp: size_last)

definition from_child_trees ::
  "('a, 's) summary_ops \<Rightarrow> ('a, 's) sum_tree \<Rightarrow> ('a, 's) sum_tree \<Rightarrow> ('a, 's) sum_tree" where
  "from_child_trees ops left right =
     Internal (st_height left + 1) (sum_of ops [st_summary left, st_summary right])
       [st_summary left, st_summary right] [left, right]"

function (sequential) append_tree ::
  "('a, 's) summary_ops \<Rightarrow> ('a, 's) sum_tree \<Rightarrow> ('a, 's) sum_tree \<Rightarrow> ('a, 's) sum_tree option"
and append_trees ::
  "('a, 's) summary_ops \<Rightarrow> ('a, 's) sum_tree \<Rightarrow> ('a, 's) sum_tree list \<Rightarrow> ('a, 's) sum_tree option" where
  "append_tree ops self other =
     (if st_is_empty self then Some other
      else if \<not> is_leaf other \<or> node_items other \<noteq> Some [] then
        (if st_height self < st_height other then
           (case other of
              Internal _ _ _ trees \<Rightarrow> append_trees ops self trees
            | Leaf _ _ _ \<Rightarrow> None)
         else
           (case push_tree_recursive ops self other of
              None \<Rightarrow> None
            | Some (self', None) \<Rightarrow> Some self'
            | Some (self', Some split_tree) \<Rightarrow> Some (from_child_trees ops self' split_tree)))
      else Some self)"
| "append_trees ops self [] = Some self"
| "append_trees ops self (t # ts) =
     (case append_tree ops self t of
        None \<Rightarrow> None
      | Some self' \<Rightarrow> append_trees ops self' ts)"
  by pat_completeness auto
termination
  by (relation "measure (\<lambda>x. case x of Inl (_, _, t) \<Rightarrow> size t | Inr (_, _, ts) \<Rightarrow> size_list size ts)")
    auto

declare append_tree.simps [simp del]

definition st_push :: "('a, 's) summary_ops \<Rightarrow> ('a, 's) sum_tree \<Rightarrow> 'a \<Rightarrow> ('a, 's) sum_tree option" where
  "st_push ops self item =
     append_tree ops self (Leaf (so_summary ops item) [item] [so_summary ops item])"

definition from_item :: "('a, 's) summary_ops \<Rightarrow> 'a \<Rightarrow> ('a, 's) sum_tree option" where
  "from_item ops item = st_push ops (st_new ops) item"

subsection \<open>Building from a sequence\<close>

fun chunks :: "nat \<Rightarrow> 'x list \<Rightarrow> 'x list list" where
  "chunks n xs = (if n = 0 \<or> xs = [] then [] else take n xs # chunks n (drop n xs))"

declare chunks.simps [simp del]

text \<open>A sum that starts with the first summary; there is always one.\<close>

fun sum_nonempty :: "('a, 's) summary_ops \<Rightarrow> 's list \<Rightarrow> 's option" where
  "sum_nonempty ops [] = None"
| "sum_nonempty ops (s # ss) = Some (foldl (so_add ops) s ss)"

definition leaf_node :: "('a, 's) summary_ops \<Rightarrow> 'a list \<Rightarrow> ('a, 's) sum_tree option" where
  "leaf_node ops items =
     (let item_summaries = map (so_summary ops) items
      in map_option (\<lambda>summary. Leaf summary items item_summaries) (sum_nonempty ops item_summaries))"

text \<open>
  One level of \<open>from_iter\<close>: children are added to the current parent, which is emitted as soon as it
  is full.
\<close>

fun group_children ::
  "('a, 's) summary_ops \<Rightarrow> nat \<Rightarrow> ('s \<times> 's list \<times> ('a, 's) sum_tree list) option \<Rightarrow>
   ('a, 's) sum_tree list \<Rightarrow> ('a, 's) sum_tree list" where
  "group_children ops height None [] = []"
| "group_children ops height (Some (summary, child_sums, trees)) [] =
     [Internal height summary child_sums trees]"
| "group_children ops height current (child # nodes) =
     (let (summary, child_sums, trees) = (case current of None \<Rightarrow> (so_zero ops, [], []) | Some c \<Rightarrow> c);
          summary' = so_add ops summary (st_summary child);
          child_sums' = child_sums @ [st_summary child];
          trees' = trees @ [child]
      in if length trees' = CAPACITY
         then Internal height summary' child_sums' trees' # group_children ops height None nodes
         else group_children ops height (Some (summary', child_sums', trees')) nodes)"

definition current_trees :: "('s \<times> 's list \<times> ('a, 's) sum_tree list) option \<Rightarrow> ('a, 's) sum_tree list" where
  "current_trees current = (case current of None \<Rightarrow> [] | Some (_, _, trees) \<Rightarrow> trees)"

lemma capacity_simps [simp]: "CAPACITY = 12" "TREE_BASE = 6"
  by (simp_all add: CAPACITY_def TREE_BASE_def)

lemma chunks_Nil [simp]: "chunks n [] = []"
  by (simp add: chunks.simps)

lemma chunks_short: "xs \<noteq> [] \<Longrightarrow> length xs \<le> n \<Longrightarrow> chunks n xs = [xs]"
  by (cases xs) (subst chunks.simps, auto)+

lemma chunks_full: "length xs = n \<Longrightarrow> 0 < n \<Longrightarrow> chunks n (xs @ ys) = xs # chunks n ys"
  by (subst chunks.simps) auto

lemma chunks_full_Cons: "Suc (length xs) = n \<Longrightarrow> chunks n (xs @ x # ys) = (xs @ [x]) # chunks n ys"
  using chunks_full [of "xs @ [x]" n ys] by simp

lemma length_chunks_le: "length (chunks n xs) \<le> length xs"
proof (induction n xs rule: chunks.induct)
  case (1 n xs)
  then show ?case by (cases xs) (subst chunks.simps, auto)+
qed

lemma length_chunks_less:
  assumes "1 < n" "1 < length xs" shows "length (chunks n xs) < length xs"
proof -
  have "length (chunks n xs) = Suc (length (chunks n (drop n xs)))"
    using assms by (subst chunks.simps) auto
  then show ?thesis using length_chunks_le [of n "drop n xs"] assms by simp
qed

lemma length_group_children:
  "length (current_trees current) < CAPACITY \<Longrightarrow>
   (\<And>s ss. current \<noteq> Some (s, ss, [])) \<Longrightarrow>
   length (group_children ops height current nodes) = length (chunks CAPACITY (current_trees current @ nodes))"
  by (induction ops height current nodes rule: group_children.induct)
    (auto simp: current_trees_def Let_def chunks_short chunks_full_Cons split: option.split)

function build_levels ::
  "('a, 's) summary_ops \<Rightarrow> nat \<Rightarrow> ('a, 's) sum_tree list \<Rightarrow> ('a, 's) sum_tree list" where
  "build_levels ops height nodes =
     (if 1 < length nodes
      then build_levels ops (height + 1) (group_children ops (height + 1) None nodes)
      else nodes)"
  by pat_completeness auto
termination
  by (relation "measure (\<lambda>(_, _, nodes). length nodes)")
    (auto simp: length_group_children current_trees_def length_chunks_less)

declare build_levels.simps [simp del]

text \<open>The final \<open>nodes.pop()\<close>; more than one node is the failing \<open>debug_assert_eq!\<close>.\<close>

fun root_node :: "('a, 's) summary_ops \<Rightarrow> ('a, 's) sum_tree list \<Rightarrow> ('a, 's) sum_tree option" where
  "root_node ops [] = Some (st_new ops)"
| "root_node ops [t] = Some t"
| "root_node ops (_ # _ # _) = None"

definition st_from_iter :: "('a, 's) summary_ops \<Rightarrow> 'a list \<Rightarrow> ('a, 's) sum_tree option" where
  "st_from_iter ops xs =
     (case those (map (leaf_node ops) (chunks CAPACITY xs)) of
        None \<Rightarrow> None
      | Some nodes \<Rightarrow> root_node ops (build_levels ops 0 nodes))"

definition internal_node ::
  "('a, 's) summary_ops \<Rightarrow> nat \<Rightarrow> ('a, 's) sum_tree list \<Rightarrow> ('a, 's) sum_tree option" where
  "internal_node ops height trees =
     (let child_sums = map st_summary trees
      in map_option (\<lambda>summary. Internal height summary child_sums trees) (sum_nonempty ops child_sums))"

text \<open>\<open>from_par_iter\<close>: rayon's \<open>chunks\<close> and \<open>collect\<close> keep the order, so that the result is the sequential one.\<close>

lemma length_those: "those xs = Some ys \<Longrightarrow> length ys = length xs"
  by (induction xs arbitrary: ys) (auto split: option.splits)

function build_levels_par ::
  "('a, 's) summary_ops \<Rightarrow> nat \<Rightarrow> ('a, 's) sum_tree list \<Rightarrow> ('a, 's) sum_tree list option" where
  "build_levels_par ops height nodes =
     (if 1 < length nodes then
        (case those (map (internal_node ops (height + 1)) (chunks CAPACITY nodes)) of
           None \<Rightarrow> None
         | Some parents \<Rightarrow> build_levels_par ops (height + 1) parents)
      else Some nodes)"
  by pat_completeness auto
termination
  by (relation "measure (\<lambda>(_, _, nodes). length nodes)")
    (auto dest!: length_those simp: length_chunks_less)

declare build_levels_par.simps [simp del]

definition st_from_par_iter :: "('a, 's) summary_ops \<Rightarrow> 'a list \<Rightarrow> ('a, 's) sum_tree option" where
  "st_from_par_iter ops xs =
     (case those (map (leaf_node ops) (chunks CAPACITY xs)) of
        None \<Rightarrow> None
      | Some nodes \<Rightarrow>
          (case build_levels_par ops 0 nodes of
             None \<Rightarrow> None
           | Some nodes' \<Rightarrow> root_node ops nodes'))"

definition st_extend :: "('a, 's) summary_ops \<Rightarrow> ('a, 's) sum_tree \<Rightarrow> 'a list \<Rightarrow> ('a, 's) sum_tree option" where
  "st_extend ops self xs =
     (case st_from_iter ops xs of None \<Rightarrow> None | Some other \<Rightarrow> append_tree ops self other)"

definition st_par_extend :: "('a, 's) summary_ops \<Rightarrow> ('a, 's) sum_tree \<Rightarrow> 'a list \<Rightarrow> ('a, 's) sum_tree option" where
  "st_par_extend ops self xs =
     (case st_from_par_iter ops xs of None \<Rightarrow> None | Some other \<Rightarrow> append_tree ops self other)"

subsection \<open>Updating the last item\<close>

function update_last_recursive ::
  "('a, 's) summary_ops \<Rightarrow> ('a \<Rightarrow> 'a) \<Rightarrow> ('a, 's) sum_tree \<Rightarrow> (('a, 's) sum_tree \<times> 's option) option" where
  "update_last_recursive ops f (Leaf summary items item_summaries) =
     (if items \<noteq> [] \<and> item_summaries \<noteq> [] then
        (let item = f (last items);
             item_summaries' = butlast item_summaries @ [so_summary ops item];
             summary' = sum_of ops item_summaries'
         in Some (Leaf summary' (butlast items @ [item]) item_summaries', Some summary'))
      else Some (Leaf summary items item_summaries, None))"
| "update_last_recursive ops f (Internal height summary child_sums trees) =
     (if child_sums = [] \<or> trees = [] then None
      else
        (case update_last_recursive ops f (last trees) of
           Some (last_child, Some last_summary) \<Rightarrow>
             let child_sums' = butlast child_sums @ [last_summary];
                 summary' = sum_of ops child_sums'
             in Some (Internal height summary' child_sums' (butlast trees @ [last_child]), Some summary')
         | _ \<Rightarrow> None))"
  by pat_completeness auto
termination
  by (relation "measure (\<lambda>(_, _, t). size t)") (auto simp: size_last)

definition update_last ::
  "('a, 's) summary_ops \<Rightarrow> ('a \<Rightarrow> 'a) \<Rightarrow> ('a, 's) sum_tree \<Rightarrow> ('a, 's) sum_tree option" where
  "update_last ops f t = map_option fst (update_last_recursive ops f t)"

section \<open>Invariant and abstraction\<close>

fun items_of :: "('a, 's) sum_tree \<Rightarrow> 'a list" where
  "items_of (Leaf _ items _) = items"
| "items_of (Internal _ _ _ trees) = concat (map items_of trees)"

fun st_wf :: "('a, 's) summary_ops \<Rightarrow> ('a, 's) sum_tree \<Rightarrow> bool" where
  "st_wf ops (Leaf summary items item_summaries) \<longleftrightarrow>
     length items \<le> CAPACITY \<and> item_summaries = map (so_summary ops) items \<and>
     summary = sum_of ops item_summaries"
| "st_wf ops (Internal height summary child_sums trees) \<longleftrightarrow>
     trees \<noteq> [] \<and> length trees \<le> CAPACITY \<and> child_sums = map st_summary trees \<and>
     summary = sum_of ops child_sums \<and>
     (\<forall>t \<in> set trees. st_wf ops t \<and> Suc (st_height t) = height \<and> \<not> st_is_empty t)"

text \<open>A tree that may be a child of an inner node of height \<open>Suc h\<close>.\<close>

definition good :: "('a, 's) summary_ops \<Rightarrow> nat \<Rightarrow> ('a, 's) sum_tree \<Rightarrow> bool" where
  "good ops h t \<longleftrightarrow> st_wf ops t \<and> st_height t = h \<and> \<not> st_is_empty t"

definition total :: "('a, 's) summary_ops \<Rightarrow> 'a list \<Rightarrow> 's" where
  "total ops xs = sum_of ops (map (so_summary ops) xs)"

lemma st_wf_internal:
  "st_wf ops (Internal height summary child_sums trees) \<longleftrightarrow>
     trees \<noteq> [] \<and> length trees \<le> CAPACITY \<and> child_sums = map st_summary trees \<and>
     summary = sum_of ops child_sums \<and> 0 < height \<and> (\<forall>t \<in> set trees. good ops (height - 1) t)"
  by (cases trees) (auto simp: good_def)

lemma items_nonempty: "st_wf ops t \<Longrightarrow> \<not> st_is_empty t \<Longrightarrow> items_of t \<noteq> []"
proof (induction t)
  case (Internal h s ss ts)
  then show ?case by (cases ts) auto
qed simp

lemma st_is_empty_iff: "st_wf ops t \<Longrightarrow> st_is_empty t \<longleftrightarrow> items_of t = []"
  using items_nonempty [of ops t] st_is_empty.elims(2) [of t] by fastforce

lemma good_items: "good ops h t \<Longrightarrow> items_of t \<noteq> []"
  using items_nonempty by (auto simp: good_def)

text \<open>The result of pushing a tree: the tree itself, or its two halves.\<close>

definition pushed ::
  "('a, 's) summary_ops \<Rightarrow> nat \<Rightarrow> 'a list \<Rightarrow> ('a, 's) sum_tree \<times> ('a, 's) sum_tree option \<Rightarrow> bool" where
  "pushed ops h xs r \<longleftrightarrow>
     good ops h (fst r) \<and>
     (case snd r of
        None \<Rightarrow> items_of (fst r) = xs
      | Some t \<Rightarrow> good ops h t \<and> items_of (fst r) @ items_of t = xs)"

lemma midpoint_bounds:
  assumes "CAPACITY < n" "n \<le> 2 * CAPACITY"
  shows "0 < midpoint n" "midpoint n \<le> CAPACITY" "midpoint n < n" "n - midpoint n \<le> CAPACITY"
  using assms unfolding midpoint_def capacity_simps by presburger+

text \<open>
  The laws the tree needs of a summary: addition is associative and the zero is neutral on the left.
  It need not be neutral on the right (the keys of a \<open>TreeMap\<close> are not), because no operation adds the
  summary of an empty tree.
\<close>

locale summary_laws =
  fixes ops :: "('a, 's) summary_ops"
  assumes add_assoc: "so_add ops (so_add ops a b) c = so_add ops a (so_add ops b c)"
    and zero_left: "so_add ops (so_zero ops) a = a"
begin

lemma foldl_add: "foldl (so_add ops) (so_add ops a b) xs = so_add ops a (foldl (so_add ops) b xs)"
  by (induction xs arbitrary: b) (simp_all add: add_assoc)

lemma sum_of_Cons: "sum_of ops (x # xs) = foldl (so_add ops) x xs"
  by (simp add: sum_of_def zero_left)

lemma sum_of_append: "ys \<noteq> [] \<Longrightarrow> sum_of ops (xs @ ys) = so_add ops (sum_of ops xs) (sum_of ops ys)"
  by (cases ys) (simp_all add: sum_of_def foldl_add zero_left)

lemma total_append: "ys \<noteq> [] \<Longrightarrow> total ops (xs @ ys) = so_add ops (total ops xs) (total ops ys)"
  by (simp add: total_def sum_of_append)

lemma total_concat:
  assumes "\<And>t. t \<in> set ts \<Longrightarrow> st_summary t = total ops (items_of t) \<and> items_of t \<noteq> []"
  shows "sum_of ops (map st_summary ts) = total ops (concat (map items_of ts))"
  using assms
proof (induction ts rule: rev_induct)
  case Nil
  then show ?case by (simp add: total_def)
next
  case (snoc t ts)
  then show ?case by (simp add: sum_of_append total_append) (simp add: sum_of_def zero_left)
qed

lemma st_summary_total: "st_wf ops t \<Longrightarrow> st_summary t = total ops (items_of t)"
proof (induction t)
  case (Internal h s ss ts)
  then show ?case using total_concat [of ts] items_nonempty [of ops] by auto
qed (simp add: total_def)

lemma good_sums:
  "\<forall>t \<in> set ts. good ops h t \<Longrightarrow> sum_of ops (map st_summary ts) = total ops (concat (map items_of ts))"
  by (rule total_concat) (auto simp: good_def st_summary_total items_nonempty)

lemma internal_good:
  assumes "\<forall>t \<in> set ts. good ops h t" "ts \<noteq> []" "length ts \<le> CAPACITY"
    "s = total ops (concat (map items_of ts))"
  shows "good ops (Suc h) (Internal (Suc h) s (map st_summary ts) ts)"
  using assms good_sums [OF assms(1)] by (auto simp: good_def)

subsection \<open>Appending\<close>

lemma extend_internal_ok:
  assumes good: "\<forall>t \<in> set (ts @ us). good ops h t" and "ts \<noteq> []"
    and len: "length ts \<le> CAPACITY" "length us \<le> CAPACITY"
    and s: "s = total ops (concat (map items_of (ts @ us)))"
  shows "\<exists>r. extend_internal ops (Suc h) s (map st_summary ts) ts (map st_summary us) us = Some r \<and>
    pushed ops (Suc h) (concat (map items_of (ts @ us))) r"
proof (cases "CAPACITY < length ts + length us")
  case True
  define l where "l = take (midpoint (length ts + length us)) (ts @ us)"
  define r where "r = drop (midpoint (length ts + length us)) (ts @ us)"
  have lr: "ts @ us = l @ r" unfolding l_def r_def by (rule append_take_drop_id [symmetric])
  have mb: "l \<noteq> []" "length l \<le> CAPACITY" "r \<noteq> []" "length r \<le> CAPACITY"
    using midpoint_bounds [OF True] len by (auto simp: l_def r_def)
  have halves: "\<forall>t \<in> set l. good ops h t" "\<forall>t \<in> set r. good ops h t"
    using good by (simp_all add: lr)
  have "good ops (Suc h) (Internal (Suc h) (sum_of ops (map st_summary l)) (map st_summary l) l)"
    "good ops (Suc h) (Internal (Suc h) (sum_of ops (map st_summary r)) (map st_summary r) r)"
    using mb good_sums halves by (auto intro!: internal_good)
  moreover have "extend_internal ops (Suc h) s (map st_summary ts) ts (map st_summary us) us =
      Some (Internal (Suc h) (sum_of ops (map st_summary l)) (map st_summary l) l,
        Some (Internal (Suc h) (sum_of ops (map st_summary r)) (map st_summary r) r))"
    unfolding extend_internal_def Let_def map_append [symmetric] take_map drop_map l_def [symmetric] r_def [symmetric]
    using True mb by (simp add: array_vec_def)
  ultimately show ?thesis unfolding lr by (simp add: pushed_def)
next
  case False
  then show ?thesis
    using internal_good [of "ts @ us" h s] good len s \<open>ts \<noteq> []\<close>
    by (simp add: extend_internal_def array_vec_def pushed_def)
qed

lemma leaf_good:
  "xs \<noteq> [] \<Longrightarrow> length xs \<le> CAPACITY \<Longrightarrow>
   good ops 0 (Leaf (total ops xs) xs (map (so_summary ops) xs))"
  by (simp add: good_def total_def)

lemma extend_leaf_ok:
  assumes xs: "xs \<noteq> []" "length xs \<le> CAPACITY" and other: "good ops 0 other"
  shows "\<exists>r. extend_leaf ops (total ops xs) xs (map (so_summary ops) xs) other = Some r \<and>
    pushed ops 0 (xs @ items_of other) r"
proof -
  obtain ys where o: "other = Leaf (total ops ys) ys (map (so_summary ops) ys)" "ys \<noteq> []"
    "length ys \<le> CAPACITY"
    using other by (cases other) (auto simp: good_def total_def)
  show ?thesis
  proof (cases "CAPACITY < length xs + length ys")
    case True
    define l where "l = take (midpoint (length xs + length ys)) (xs @ ys)"
    define r where "r = drop (midpoint (length xs + length ys)) (xs @ ys)"
    have lr: "xs @ ys = l @ r" unfolding l_def r_def by (rule append_take_drop_id [symmetric])
    have mb: "l \<noteq> []" "length l \<le> CAPACITY" "r \<noteq> []" "length r \<le> CAPACITY"
      using midpoint_bounds [OF True] xs o by (auto simp: l_def r_def)
    have "extend_leaf ops (total ops xs) xs (map (so_summary ops) xs) other =
        Some (Leaf (total ops l) l (map (so_summary ops) l),
          Some (Leaf (total ops r) r (map (so_summary ops) r)))"
      unfolding extend_leaf_def Let_def o(1) node_items.simps child_summaries.simps
        map_append [symmetric] take_map drop_map l_def [symmetric] r_def [symmetric] Option.bind.bind_lunit
      using True mb by (simp add: array_vec_def total_def)
    then show ?thesis
      using leaf_good [of l] leaf_good [of r] mb lr o(1) by (simp add: pushed_def)
  next
    case False
    then show ?thesis
      using xs o leaf_good [of "xs @ ys"]
      by (simp add: extend_leaf_def array_vec_def pushed_def total_append)
  qed
qed

lemma push_tree_recursive_ok:
  "good ops h self \<Longrightarrow> good ops h' other \<Longrightarrow> h' \<le> h \<Longrightarrow>
   \<exists>r. push_tree_recursive ops self other = Some r \<and> pushed ops h (items_of self @ items_of other) r"
proof (induction self arbitrary: h)
  case (Leaf s xs ss)
  then have "h = 0" "h' = 0" "s = total ops xs" "ss = map (so_summary ops) xs" "xs \<noteq> []"
    "length xs \<le> CAPACITY"
    by (auto simp: good_def total_def)
  then show ?case using extend_leaf_ok [of xs other] Leaf.prems(2) by simp
next
  case (Internal h0 s css ts)
  obtain k where k: "h = Suc k" "h0 = Suc k" and ts: "\<forall>t \<in> set ts. good ops k t" "ts \<noteq> []"
    "length ts \<le> CAPACITY" and css: "css = map st_summary ts"
    using Internal.prems(1) by (cases h) (auto simp: good_def)
  let ?xs = "concat (map items_of ts)"
  have s: "s = total ops ?xs"
    using Internal.prems(1) css good_sums [OF ts(1)] by (simp add: good_def)
  have other: "st_summary other = total ops (items_of other)" "items_of other \<noteq> []"
    "st_height other = h'"
    using Internal.prems(2) st_summary_total good_items by (auto simp: good_def)
  then have s': "so_add ops s (st_summary other) = total ops (?xs @ items_of other)"
    using s by (simp add: total_append)
  consider (same) "h' = h" | (child) "h' < h" "h - h' = 1 \<and> \<not> is_underflowing other"
    | (deep) "h' < h" "\<not> (h - h' = 1 \<and> \<not> is_underflowing other)"
    using Internal.prems(3) by linarith
  then show ?case
  proof cases
    case same
    obtain us where us: "child_trees other = Some us" "child_summaries other = map st_summary us"
      "items_of other = concat (map items_of us)" "\<forall>t \<in> set us. good ops k t" "length us \<le> CAPACITY"
      using Internal.prems(2) same k(1) by (cases other) (auto simp: good_def)
    show ?thesis
      using extend_internal_ok [of ts us k "so_add ops s (st_summary other)"] ts us css same k s' other(3)
      by auto
  next
    case child
    have "h' = k" using child k(1) by linarith
    then have "good ops k other" using Internal.prems(2) by simp
    then show ?thesis
      using extend_internal_ok [of ts "[other]" k "so_add ops s (st_summary other)"] ts css child k s' other(3)
      by auto
  next
    case deep
    have lst: "last ts \<in> set ts" "good ops k (last ts)" using ts(1,2) by auto
    have "h' \<le> k" using deep(1) k(1) by simp
    then obtain c sp where rec: "push_tree_recursive ops (last ts) other = Some (c, sp)"
      and c: "pushed ops k (items_of (last ts) @ items_of other) (c, sp)"
      using Internal.IH [OF lst Internal.prems(2)] by (metis surj_pair)
    have split: "?xs = concat (map items_of (butlast ts)) @ items_of (last ts)"
      using ts(2) by (cases ts rule: rev_cases) simp_all
    have bl: "\<forall>t \<in> set (butlast ts). good ops k t" using ts(1) in_set_butlastD by fast
    have bcss: "butlast css @ [st_summary c] = map st_summary (butlast ts @ [c])"
      by (simp add: css map_butlast)
    let ?us = "case sp of None \<Rightarrow> [] | Some t \<Rightarrow> [t]"
    have "\<exists>r. extend_internal ops (Suc k) (so_add ops s (st_summary other))
        (map st_summary (butlast ts @ [c])) (butlast ts @ [c]) (map st_summary ?us) ?us = Some r \<and>
      pushed ops (Suc k) (concat (map items_of ((butlast ts @ [c]) @ ?us))) r"
      by (rule extend_internal_ok)
        (use bl c ts(3) s' split in \<open>auto simp: pushed_def split: option.splits\<close>)
    moreover have "concat (map items_of ((butlast ts @ [c]) @ ?us)) = ?xs @ items_of other"
      using c split by (auto simp: pushed_def split: option.splits)
    moreover have "push_tree_recursive ops (Internal h0 s css ts) other =
        extend_internal ops (Suc k) (so_add ops s (st_summary other))
          (map st_summary (butlast ts @ [c])) (butlast ts @ [c]) (map st_summary ?us) ?us"
      using deep ts(2) css k other(3) rec bcss
      by (auto simp: Let_def split: option.split)
    ultimately show ?thesis by (simp add: k)
  qed
qed

lemma from_child_trees_good:
  "good ops h l \<Longrightarrow> good ops h r \<Longrightarrow> good ops (Suc h) (from_child_trees ops l r)"
  by (simp add: from_child_trees_def good_def)

lemma append_by_push:
  assumes self: "st_wf ops self" "\<not> st_is_empty self" and other: "st_wf ops other" "\<not> st_is_empty other"
    and "st_height other \<le> st_height self"
  shows "\<exists>t. append_tree ops self other = Some t \<and> st_wf ops t \<and> items_of t = items_of self @ items_of other"
proof -
  obtain t sp where r: "push_tree_recursive ops self other = Some (t, sp)"
    "pushed ops (st_height self) (items_of self @ items_of other) (t, sp)"
    using push_tree_recursive_ok [of "st_height self" self "st_height other" other] assms
    by (auto simp: good_def)
  have "\<not> is_leaf other \<or> node_items other \<noteq> Some []" using other(2) by (cases other) auto
  then show ?thesis
    using r self(2) assms(5) from_child_trees_good [of "st_height self" t]
    by (cases sp) (auto simp: append_tree.simps pushed_def good_def from_child_trees_def)
qed

lemma append_tree_ok:
  "st_wf ops self \<Longrightarrow> st_wf ops other \<Longrightarrow>
   \<exists>t. append_tree ops self other = Some t \<and> st_wf ops t \<and> items_of t = items_of self @ items_of other"
proof (induction other arbitrary: self)
  case (Leaf s xs ss)
  show ?case
  proof (cases "st_is_empty self \<or> xs = []")
    case True
    then show ?thesis using Leaf by (auto simp: append_tree.simps st_is_empty_iff [of ops])
  next
    case False
    then show ?thesis using append_by_push [of self "Leaf s xs ss"] Leaf by simp
  qed
next
  case (Internal h s css ts)
  have all: "set us \<subseteq> set ts \<Longrightarrow> st_wf ops self \<Longrightarrow> \<exists>t. append_trees ops self us = Some t \<and> st_wf ops t \<and>
      items_of t = items_of self @ concat (map items_of us)" for us self
  proof (induction us arbitrary: self)
    case (Cons u us)
    then obtain t1 where t1: "append_tree ops self u = Some t1" "st_wf ops t1"
      "items_of t1 = items_of self @ items_of u"
      using Internal.IH [of u self] Internal.prems(2) by auto
    then show ?case using Cons.IH [of t1] Cons.prems by auto
  qed simp
  consider "st_is_empty self" | "\<not> st_is_empty self" "st_height self < h" | "\<not> st_is_empty self" "h \<le> st_height self"
    by linarith
  then show ?case
  proof cases
    case 1
    then have "items_of self = []" using st_is_empty_iff [OF Internal.prems(1)] by simp
    then show ?thesis using Internal.prems 1 by (simp add: append_tree.simps)
  next
    case 2
    then show ?thesis using all [of ts self] Internal.prems(1) by (simp add: append_tree.simps)
  next
    case 3
    then show ?thesis using append_by_push [of self "Internal h s css ts"] Internal.prems by simp
  qed
qed

subsection \<open>Building from a sequence\<close>

lemma sum_nonempty_eq: "xs \<noteq> [] \<Longrightarrow> sum_nonempty ops xs = Some (sum_of ops xs)"
  by (cases xs) (simp_all add: sum_of_Cons)

lemma chunks_props: "0 < n \<Longrightarrow> concat (chunks n xs) = xs \<and> (\<forall>c \<in> set (chunks n xs). c \<noteq> [] \<and> length c \<le> n)"
proof (induction n xs rule: chunks.induct)
  case (1 n xs)
  then show ?case by (subst (1 2) chunks.simps) auto
qed

lemma those_map_Some: "(\<And>x. x \<in> set xs \<Longrightarrow> f x = Some (g x)) \<Longrightarrow> those (map f xs) = Some (map g xs)"
  by (induction xs) simp_all

lemma leaves_ok:
  "\<exists>nodes. those (map (leaf_node ops) (chunks CAPACITY xs)) = Some nodes \<and>
     (\<forall>t \<in> set nodes. good ops 0 t) \<and> concat (map items_of nodes) = xs"
proof -
  let ?leaf = "\<lambda>c. Leaf (total ops c) c (map (so_summary ops) c)"
  have c: "concat (chunks CAPACITY xs) = xs" "c \<in> set (chunks CAPACITY xs) \<Longrightarrow> c \<noteq> [] \<and> length c \<le> CAPACITY" for c
    using chunks_props [of CAPACITY xs] by simp_all
  have "those (map (leaf_node ops) (chunks CAPACITY xs)) = Some (map ?leaf (chunks CAPACITY xs))"
    using c(2) by (intro those_map_Some) (simp add: leaf_node_def Let_def sum_nonempty_eq total_def)
  moreover have "\<forall>t \<in> set (map ?leaf (chunks CAPACITY xs)). good ops 0 t"
    using c(2) leaf_good by auto
  ultimately show ?thesis using c(1) by (simp add: comp_def)
qed

lemma group_children_ok:
  "\<forall>t \<in> set (current_trees current @ nodes). good ops h t \<Longrightarrow>
   (case current of None \<Rightarrow> True
    | Some (s, ss, ts) \<Rightarrow> ts \<noteq> [] \<and> length ts < CAPACITY \<and> ss = map st_summary ts \<and> s = sum_of ops ss) \<Longrightarrow>
   (\<forall>t \<in> set (group_children ops (Suc h) current nodes). good ops (Suc h) t) \<and>
   concat (map items_of (group_children ops (Suc h) current nodes)) =
     concat (map items_of (current_trees current @ nodes))"
proof (induction nodes arbitrary: current)
  case Nil
  then show ?case
    by (cases current) (auto simp: current_trees_def intro!: internal_good good_sums [of _ h])
next
  case (Cons t nodes)
  let ?ts = "current_trees current @ [t]"
  have ts: "\<forall>t \<in> set ?ts. good ops h t" "length ?ts \<le> CAPACITY"
    using Cons.prems by (auto simp: current_trees_def split: option.splits)
  have step: "group_children ops (Suc h) current (t # nodes) =
    (if length ?ts = CAPACITY
     then Internal (Suc h) (sum_of ops (map st_summary ?ts)) (map st_summary ?ts) ?ts #
       group_children ops (Suc h) None nodes
     else group_children ops (Suc h) (Some (sum_of ops (map st_summary ?ts), map st_summary ?ts, ?ts)) nodes)"
    using Cons.prems(2)
    by (auto simp: current_trees_def Let_def sum_of_append zero_left sum_of_def split: option.split)
  show ?case
  proof (cases "length ?ts = CAPACITY")
    case True
    have "good ops (Suc h) (Internal (Suc h) (sum_of ops (map st_summary ?ts)) (map st_summary ?ts) ?ts)"
      using ts good_sums [OF ts(1)] by (intro internal_good) auto
    then show ?thesis
      using Cons.IH [of None] Cons.prems True unfolding step by (auto simp: current_trees_def)
  next
    case False
    then show ?thesis
      using Cons.IH [of "Some (sum_of ops (map st_summary ?ts), map st_summary ?ts, ?ts)"] Cons.prems ts
      unfolding step by (auto simp: current_trees_def)
  qed
qed

text \<open>Both ways to add levels end with at most one node.\<close>

lemma build_levels_ok:
  "\<forall>t \<in> set nodes. good ops h t \<Longrightarrow>
   length (build_levels ops h nodes) \<le> 1 \<and> (\<forall>t \<in> set (build_levels ops h nodes). st_wf ops t) \<and>
   concat (map items_of (build_levels ops h nodes)) = concat (map items_of nodes)"
proof (induction "length nodes" arbitrary: h nodes rule: less_induct)
  case less
  show ?case
  proof (cases "1 < length nodes")
    case True
    let ?p = "group_children ops (Suc h) None nodes"
    have "length ?p < length nodes"
      using True by (simp add: length_group_children current_trees_def length_chunks_less)
    moreover have "(\<forall>t \<in> set ?p. good ops (Suc h) t) \<and> concat (map items_of ?p) = concat (map items_of nodes)"
      using group_children_ok [of None nodes h] less.prems by (simp add: current_trees_def)
    ultimately show ?thesis
      using less.hyps [of ?p "Suc h"] True by (subst (1 2 3) build_levels.simps) simp
  next
    case False
    then show ?thesis using less.prems by (subst (1 2 3) build_levels.simps) (auto simp: good_def)
  qed
qed

lemma internal_nodes_ok:
  assumes "\<forall>t \<in> set nodes. good ops h t"
  shows "\<exists>ps. those (map (internal_node ops (Suc h)) (chunks CAPACITY nodes)) = Some ps \<and>
    (\<forall>t \<in> set ps. good ops (Suc h) t) \<and> concat (map items_of ps) = concat (map items_of nodes)"
proof -
  let ?node = "\<lambda>c. Internal (Suc h) (sum_of ops (map st_summary c)) (map st_summary c) c"
  have c: "concat (chunks CAPACITY nodes) = nodes"
    "c \<in> set (chunks CAPACITY nodes) \<Longrightarrow> c \<noteq> [] \<and> length c \<le> CAPACITY" for c
    using chunks_props [of CAPACITY nodes] by simp_all
  have g: "\<forall>t \<in> set c. good ops h t" if "c \<in> set (chunks CAPACITY nodes)" for c
    using assms that c(1) by (metis UN_I set_concat)
  have "those (map (internal_node ops (Suc h)) (chunks CAPACITY nodes)) = Some (map ?node (chunks CAPACITY nodes))"
    using c(2) by (intro those_map_Some) (simp add: internal_node_def Let_def sum_nonempty_eq)
  moreover have "\<forall>t \<in> set (map ?node (chunks CAPACITY nodes)). good ops (Suc h) t"
    using c(2) g by (auto intro!: internal_good good_sums [of _ h])
  moreover have "concat (map items_of (map ?node cs)) = concat (map items_of (concat cs))" for cs
    by (induction cs) simp_all
  from this [of "chunks CAPACITY nodes"]
  have "concat (map items_of (map ?node (chunks CAPACITY nodes))) = concat (map items_of nodes)"
    unfolding c(1) .
  ultimately show ?thesis by blast
qed

lemma build_levels_par_ok:
  "\<forall>t \<in> set nodes. good ops h t \<Longrightarrow>
   \<exists>ns. build_levels_par ops h nodes = Some ns \<and> length ns \<le> 1 \<and> (\<forall>t \<in> set ns. st_wf ops t) \<and>
     concat (map items_of ns) = concat (map items_of nodes)"
proof (induction "length nodes" arbitrary: h nodes rule: less_induct)
  case less
  show ?case
  proof (cases "1 < length nodes")
    case True
    obtain ps where ps: "those (map (internal_node ops (Suc h)) (chunks CAPACITY nodes)) = Some ps"
      "\<forall>t \<in> set ps. good ops (Suc h) t" "concat (map items_of ps) = concat (map items_of nodes)"
      using internal_nodes_ok [OF less.prems] by blast
    have "length ps < length nodes"
      using length_those [OF ps(1)] True by (simp add: length_chunks_less)
    then show ?thesis
      using less.hyps [of ps "Suc h"] ps True by (subst build_levels_par.simps) simp
  next
    case False
    then show ?thesis using less.prems by (subst build_levels_par.simps) (auto simp: good_def)
  qed
qed

lemma root_node_ok:
  "length ns \<le> 1 \<Longrightarrow> \<forall>t \<in> set ns. st_wf ops t \<Longrightarrow>
   \<exists>t. root_node ops ns = Some t \<and> st_wf ops t \<and> items_of t = concat (map items_of ns)"
  by (cases ns) (auto simp: st_new_def sum_of_def)

lemma st_from_iter_ok: "\<exists>t. st_from_iter ops xs = Some t \<and> st_wf ops t \<and> items_of t = xs"
proof -
  obtain nodes where n: "those (map (leaf_node ops) (chunks CAPACITY xs)) = Some nodes"
    "\<forall>t \<in> set nodes. good ops 0 t" "concat (map items_of nodes) = xs"
    using leaves_ok by blast
  then show ?thesis
    using build_levels_ok [OF n(2)] root_node_ok [of "build_levels ops 0 nodes"]
    by (simp add: st_from_iter_def)
qed

lemma st_from_par_iter_ok: "\<exists>t. st_from_par_iter ops xs = Some t \<and> st_wf ops t \<and> items_of t = xs"
proof -
  obtain nodes where n: "those (map (leaf_node ops) (chunks CAPACITY xs)) = Some nodes"
    "\<forall>t \<in> set nodes. good ops 0 t" "concat (map items_of nodes) = xs"
    using leaves_ok by blast
  from build_levels_par_ok [OF n(2)] obtain ns where "build_levels_par ops 0 nodes = Some ns"
    "length ns \<le> 1" "\<forall>t \<in> set ns. st_wf ops t" "concat (map items_of ns) = xs"
    using n(3) by auto
  then show ?thesis using root_node_ok [of ns] n(1) by (simp add: st_from_par_iter_def)
qed

lemma st_push_ok:
  assumes "st_wf ops self"
  shows "\<exists>t. st_push ops self x = Some t \<and> st_wf ops t \<and> items_of t = items_of self @ [x]"
  using append_tree_ok [OF assms, of "Leaf (so_summary ops x) [x] [so_summary ops x]"]
  by (simp add: st_push_def sum_of_def zero_left)

lemma st_new_ok: "st_wf ops (st_new ops) \<and> items_of (st_new ops) = []"
  by (simp add: st_new_def sum_of_def)

lemma st_extend_ok:
  assumes "st_wf ops self"
  shows "\<exists>t. st_extend ops self xs = Some t \<and> st_wf ops t \<and> items_of t = items_of self @ xs"
  using st_from_iter_ok [of xs] append_tree_ok [OF assms] by (fastforce simp: st_extend_def)

lemma st_par_extend_ok:
  assumes "st_wf ops self"
  shows "\<exists>t. st_par_extend ops self xs = Some t \<and> st_wf ops t \<and> items_of t = items_of self @ xs"
  using st_from_par_iter_ok [of xs] append_tree_ok [OF assms] by (fastforce simp: st_par_extend_def)

subsection \<open>The last item\<close>

lemma update_last_recursive_ok:
  "st_wf ops t \<Longrightarrow> \<not> st_is_empty t \<Longrightarrow>
   \<exists>t'. update_last_recursive ops f t = Some (t', Some (st_summary t')) \<and>
     st_wf ops t' \<and> st_height t' = st_height t \<and> \<not> st_is_empty t' \<and>
     items_of t' = butlast (items_of t) @ [f (last (items_of t))]"
proof (induction t)
  case (Leaf s xs ss)
  then show ?case by (auto simp: Let_def map_butlast)
next
  case (Internal h s ss ts)
  then have ts: "ts \<noteq> []" "last ts \<in> set ts" "st_wf ops (last ts)" "\<not> st_is_empty (last ts)"
    "Suc (st_height (last ts)) = h" by auto
  then obtain c where c: "update_last_recursive ops f (last ts) = Some (c, Some (st_summary c))"
    "st_wf ops c" "st_height c = st_height (last ts)" "\<not> st_is_empty c"
    "items_of c = butlast (items_of (last ts)) @ [f (last (items_of (last ts)))]"
    using Internal.IH [OF ts(2-4)] by blast
  obtain us u where us: "ts = us @ [u]" using ts(1) by (cases ts rule: rev_cases) auto
  have "items_of u \<noteq> []" using items_nonempty [OF ts(3,4)] us by simp
  then show ?case using Internal.prems c us by (auto simp: Let_def butlast_append)
qed

end

section \<open>First and last item\<close>

lemma leftmost_leaf_ok:
  "st_wf ops t \<Longrightarrow> \<exists>s xs ss. leftmost_leaf t = Some (Leaf s xs ss) \<and>
     (items_of t \<noteq> [] \<longrightarrow> xs \<noteq> [] \<and> hd xs = hd (items_of t)) \<and> (items_of t = [] \<longrightarrow> xs = [])"
proof (induction t rule: leftmost_leaf.induct)
  case (2 h s ss t ts)
  then have t: "st_wf ops t" "items_of t \<noteq> []" using items_nonempty [of ops t] by auto
  then show ?case using "2.IH" by auto
qed auto

lemma rightmost_leaf_ok:
  "st_wf ops t \<Longrightarrow> \<exists>s xs ss. rightmost_leaf t = Some (Leaf s xs ss) \<and>
     (items_of t \<noteq> [] \<longrightarrow> xs \<noteq> [] \<and> last xs = last (items_of t)) \<and> (items_of t = [] \<longrightarrow> xs = [])"
proof (induction t rule: rightmost_leaf.induct)
  case (2 h s ss ts)
  then obtain us u where us: "ts = us @ [u]" "st_wf ops u" "items_of u \<noteq> []"
    using items_nonempty [of ops "last ts"] by (cases ts rule: rev_cases) auto
  then show ?case using "2.IH" "2.prems" by auto
qed auto

lemma st_first_ok:
  "st_wf ops t \<Longrightarrow> st_first t = Some (if items_of t = [] then None else Some (hd (items_of t)))"
  using leftmost_leaf_ok [of ops t] by (auto simp: st_first_def nth_opt_def hd_conv_nth)

lemma st_last_ok:
  "st_wf ops t \<Longrightarrow> st_last t = Some (if items_of t = [] then None else Some (last (items_of t)))"
  using rightmost_leaf_ok [of ops t] by (auto simp: st_last_def)

section \<open>Correctness\<close>

text \<open>
  C36. Appending concatenates. For every lawful summary and well-formed trees, \<open>SumTree::append\<close> does
  not panic (no array overflows, no height underflows, no \<open>unwrap\<close> fails), whatever the heights of
  the two trees; the result is well-formed, holds the items of the first tree followed by those of
  the second, and its root summary is the sum of the summaries of all items.
\<close>

theorem append_tree_concat:
  assumes "summary_laws ops" and "st_wf ops self" and "st_wf ops other"
  shows "\<exists>t. append_tree ops self other = Some t \<and> st_wf ops t \<and>
    items_of t = items_of self @ items_of other \<and>
    st_summary t = sum_of ops (map (so_summary ops) (items_of self @ items_of other))"
proof -
  obtain t where t: "append_tree ops self other = Some t" "st_wf ops t"
    "items_of t = items_of self @ items_of other"
    using summary_laws.append_tree_ok [OF assms] by blast
  then show ?thesis
    using summary_laws.st_summary_total [OF assms(1) t(2)] by (simp add: total_def)
qed

text \<open>
  Building a tree from a sequence, sequentially or in parallel, returns a well-formed tree whose
  items are that sequence.
\<close>

theorem from_iter_items:
  assumes "summary_laws ops"
  shows "\<exists>t u. st_from_iter ops xs = Some t \<and> st_from_par_iter ops xs = Some u \<and>
    st_wf ops t \<and> st_wf ops u \<and> items_of t = xs \<and> items_of u = xs"
  using summary_laws.st_from_iter_ok [OF assms, of xs] summary_laws.st_from_par_iter_ok [OF assms, of xs]
  by blast

text \<open>
  \<open>update_last\<close> replaces the last item of a non-empty tree and brings every summary on the path up
  to date.
\<close>

theorem update_last_items:
  assumes "summary_laws ops" and "st_wf ops t" and "items_of t \<noteq> []"
  shows "\<exists>t'. update_last ops f t = Some t' \<and> st_wf ops t' \<and>
    items_of t' = butlast (items_of t) @ [f (last (items_of t))]"
  using summary_laws.update_last_recursive_ok [OF assms(1,2), of f] assms(3) st_is_empty_iff [OF assms(2)]
  by (auto simp: update_last_def)

text \<open>Summaries that count items.\<close>

definition count_ops :: "(nat, nat) summary_ops" where
  "count_ops = \<lparr>so_summary = (\<lambda>_. 1), so_zero = 0, so_add = (+)\<rparr>"

interpretation count: summary_laws count_ops
  by unfold_locales (simp_all add: count_ops_def)

lemma example_leaf_wf: "st_wf count_ops (Leaf 2 [a, b] [1, 1])"
  by (simp add: count_ops_def sum_of_def)

theorem append_tree_concat_witness:
  "\<exists>t. append_tree count_ops (Leaf 2 [1, 2] [1, 1]) (Leaf 2 [3, 4] [1, 1]) = Some t \<and>
     items_of t = [1, 2, 3, 4] \<and> st_summary t = 4"
  using append_tree_concat [OF count.summary_laws_axioms example_leaf_wf example_leaf_wf, of 1 2 3 4]
  by (auto simp: sum_of_def count_ops_def)

theorem from_iter_items_witness:
  "\<exists>t u. st_from_iter count_ops [0..<40] = Some t \<and> st_from_par_iter count_ops [0..<40] = Some u \<and>
     items_of t = [0..<40] \<and> items_of u = [0..<40]"
  using from_iter_items [OF count.summary_laws_axioms, of "[0..<40]"] by blast

theorem update_last_items_witness:
  "\<exists>t'. update_last count_ops Suc (Leaf 2 [5, 6] [1, 1]) = Some t' \<and> items_of t' = [5, 7]"
  using update_last_items [OF count.summary_laws_axioms example_leaf_wf, of 5 6 Suc] by auto

end
