(* ===== verification/Cursor.thy ===== *)
theory Cursor
  imports Sum_Tree
begin

text \<open>
  The cursor of \<open>crates/sum_tree/src/cursor.rs\<close>. A cursor walks over a tree with a stack of entries
  (kept here with the top first) and carries the value of a dimension at its place. The \<open>Dimension\<close>,
  \<open>SeekTarget\<close> and \<open>SeekAggregate\<close> traits are records of functions. \<open>None\<close> is a panic, also that of a
  stack deeper than its 16 entries, or a loop that does not end. The theory shows that seeking and
  stepping agree with the position in the list of items, and what \<open>slice\<close> and \<open>summary\<close> collect.
\<close>

section \<open>Traits\<close>

record ('s, 'd) dimension =
  dim_zero :: 'd
  dim_add :: "'d \<Rightarrow> 's \<Rightarrow> 'd"

definition from_summary_dim :: "('s, 'd) dimension \<Rightarrow> 's \<Rightarrow> 'd" where
  "from_summary_dim dm summary = dim_add dm (dim_zero dm) summary"

definition extent :: "('s, 'd) dimension \<Rightarrow> ('a, 's) sum_tree \<Rightarrow> 'd" where
  "extent dm t = dim_add dm (dim_zero dm) (st_summary t)"

datatype ordering = Less | Equal | Greater

text \<open>\<open>Ord::cmp\<close>.\<close>

definition cmp :: "'k::linorder \<Rightarrow> 'k \<Rightarrow> ordering" where
  "cmp a b = (if a < b then Less else if a = b then Equal else Greater)"

datatype bias = Left | Right

fun invert :: "bias \<Rightarrow> bias" where
  "invert Left = Right"
| "invert Right = Left"

text \<open>A seek target is given by its comparison with a location; \<open>End\<close> lies behind all of them.\<close>

type_synonym 'd seek_target = "'d \<Rightarrow> ordering"

definition end_target :: "'d seek_target" where
  "end_target _ = Greater"

record ('a, 's, 'g) seek_aggregate =
  ag_begin_leaf :: "'g \<Rightarrow> 'g"
  ag_end_leaf :: "'g \<Rightarrow> 'g option"
  ag_push_item :: "'g \<Rightarrow> 'a \<Rightarrow> 's \<Rightarrow> 'g option"
  ag_push_tree :: "'g \<Rightarrow> ('a, 's) sum_tree \<Rightarrow> 's \<Rightarrow> 'g option"

definition unit_aggregate :: "('a, 's, unit) seek_aggregate" where
  "unit_aggregate = \<lparr>ag_begin_leaf = id, ag_end_leaf = Some, ag_push_item = (\<lambda>g _ _. Some g),
     ag_push_tree = (\<lambda>g _ _. Some g)\<rparr>"

record ('a, 's) slice_state =
  sl_tree :: "('a, 's) sum_tree"
  sl_leaf_items :: "'a list"
  sl_leaf_item_summaries :: "'s list"
  sl_leaf_summary :: 's

definition slice_aggregate :: "('a, 's) summary_ops \<Rightarrow> ('a, 's, ('a, 's) slice_state) seek_aggregate" where
  "slice_aggregate ops =
     \<lparr>ag_begin_leaf = id,
      ag_end_leaf = (\<lambda>g.
        map_option
          (\<lambda>t. \<lparr>sl_tree = t, sl_leaf_items = [], sl_leaf_item_summaries = [], sl_leaf_summary = so_zero ops\<rparr>)
          (append_tree ops (sl_tree g)
             (Leaf (sl_leaf_summary g) (sl_leaf_items g) (sl_leaf_item_summaries g)))),
      ag_push_item = (\<lambda>g item summary. do {
        items \<leftarrow> array_vec (sl_leaf_items g @ [item]);
        summaries \<leftarrow> array_vec (sl_leaf_item_summaries g @ [summary]);
        Some (g\<lparr>sl_leaf_items := items, sl_leaf_item_summaries := summaries,
                sl_leaf_summary := so_add ops (sl_leaf_summary g) summary\<rparr>) }),
      ag_push_tree = (\<lambda>g t _. map_option (\<lambda>t'. g\<lparr>sl_tree := t'\<rparr>) (append_tree ops (sl_tree g) t))\<rparr>"

definition summary_aggregate :: "('s, 'o) dimension \<Rightarrow> ('a, 's, 'o) seek_aggregate" where
  "summary_aggregate out =
     \<lparr>ag_begin_leaf = id, ag_end_leaf = Some,
      ag_push_item = (\<lambda>g _ summary. Some (dim_add out g summary)),
      ag_push_tree = (\<lambda>g _ summary. Some (dim_add out g summary))\<rparr>"

section \<open>Cursors\<close>

record ('a, 's, 'd) stack_entry =
  se_tree :: "('a, 's) sum_tree"
  se_index :: nat
  se_position :: 'd

record ('a, 's, 'd) cursor =
  cu_tree :: "('a, 's) sum_tree"
  cu_stack :: "('a, 's, 'd) stack_entry list"
  cu_position :: 'd
  cu_did_seek :: bool
  cu_at_end :: bool

definition STACK_CAPACITY :: nat where "STACK_CAPACITY = 16"

definition push_entry ::
  "('a, 's, 'd) stack_entry \<Rightarrow> ('a, 's, 'd) stack_entry list \<Rightarrow> ('a, 's, 'd) stack_entry list option" where
  "push_entry e stack = (if length stack < STACK_CAPACITY then Some (e # stack) else None)"

definition cursor_new :: "('s, 'd) dimension \<Rightarrow> ('a, 's) sum_tree \<Rightarrow> ('a, 's, 'd) cursor" where
  "cursor_new dm t = \<lparr>cu_tree = t, cu_stack = [], cu_position = dim_zero dm, cu_did_seek = False,
     cu_at_end = st_is_empty t\<rparr>"

definition cursor_reset :: "('s, 'd) dimension \<Rightarrow> ('a, 's, 'd) cursor \<Rightarrow> ('a, 's, 'd) cursor" where
  "cursor_reset dm c = c\<lparr>cu_did_seek := False, cu_at_end := st_is_empty (cu_tree c), cu_stack := [],
     cu_position := dim_zero dm\<rparr>"

definition cursor_item :: "('a, 's, 'd) cursor \<Rightarrow> 'a option option" where
  "cursor_item c =
     (if \<not> cu_did_seek c then None
      else case cu_stack c of
        [] \<Rightarrow> Some None
      | entry # _ \<Rightarrow>
          (case se_tree entry of
             Leaf _ items _ \<Rightarrow>
               if se_index entry = length items then Some None
               else map_option Some (nth_opt items (se_index entry))
           | Internal _ _ _ _ \<Rightarrow> None))"

definition item_summary :: "('a, 's, 'd) cursor \<Rightarrow> 's option option" where
  "item_summary c =
     (if \<not> cu_did_seek c then None
      else case cu_stack c of
        [] \<Rightarrow> Some None
      | entry # _ \<Rightarrow>
          (case se_tree entry of
             Leaf _ _ item_summaries \<Rightarrow>
               if se_index entry = length item_summaries then Some None
               else map_option Some (nth_opt item_summaries (se_index entry))
           | Internal _ _ _ _ \<Rightarrow> None))"

definition cursor_start :: "('a, 's, 'd) cursor \<Rightarrow> 'd" where
  "cursor_start c = cu_position c"

definition cursor_end :: "('s, 'd) dimension \<Rightarrow> ('a, 's, 'd) cursor \<Rightarrow> 'd option" where
  "cursor_end dm c =
     map_option (\<lambda>s. case s of Some summary \<Rightarrow> dim_add dm (cursor_start c) summary | None \<Rightarrow> cursor_start c)
       (item_summary c)"

text \<open>The loops of \<open>next_leaf\<close> and \<open>prev_leaf\<close> over the entries below the top.\<close>

fun next_leaf :: "('a, 's, 'd) stack_entry list \<Rightarrow> ('a, 's) sum_tree option option" where
  "next_leaf [] = Some None"
| "next_leaf (entry # stack) =
     (case child_trees (se_tree entry) of
        None \<Rightarrow> None
      | Some trees \<Rightarrow>
          if trees = [] then None
          else if se_index entry < length trees - 1
          then map_option Some (leftmost_leaf (trees ! (se_index entry + 1)))
          else next_leaf stack)"

fun prev_leaf :: "('a, 's, 'd) stack_entry list \<Rightarrow> ('a, 's) sum_tree option option" where
  "prev_leaf [] = Some None"
| "prev_leaf (entry # stack) =
     (if se_index entry \<noteq> 0 then
        (case child_trees (se_tree entry) of
           None \<Rightarrow> None
         | Some trees \<Rightarrow>
             (case nth_opt trees (se_index entry - 1) of
                None \<Rightarrow> None
              | Some t \<Rightarrow> map_option Some (rightmost_leaf t)))
      else prev_leaf stack)"

definition next_item :: "('a, 's, 'd) cursor \<Rightarrow> 'a option option" where
  "next_item c =
     (if \<not> cu_did_seek c then None
      else case cu_stack c of
        entry # stack \<Rightarrow>
          (case node_items (se_tree entry) of
             None \<Rightarrow> None
           | Some items \<Rightarrow>
               if items = [] then None
               else if se_index entry = length items - 1 then
                 (case next_leaf stack of
                    None \<Rightarrow> None
                  | Some None \<Rightarrow> Some None
                  | Some (Some leaf) \<Rightarrow>
                      (case node_items leaf of
                         Some (item # _) \<Rightarrow> Some (Some item)
                       | _ \<Rightarrow> None))
               else map_option Some (nth_opt items (se_index entry + 1)))
      | [] \<Rightarrow> if cu_at_end c then Some None else st_first (cu_tree c))"

definition prev_item :: "('a, 's, 'd) cursor \<Rightarrow> 'a option option" where
  "prev_item c =
     (if \<not> cu_did_seek c then None
      else case cu_stack c of
        entry # stack \<Rightarrow>
          if se_index entry = 0 then
            (case prev_leaf stack of
               None \<Rightarrow> None
             | Some None \<Rightarrow> Some None
             | Some (Some leaf) \<Rightarrow>
                 (case node_items leaf of
                    Some items \<Rightarrow> if items = [] then None else Some (Some (last items))
                  | None \<Rightarrow> None))
          else
            (case node_items (se_tree entry) of
               None \<Rightarrow> None
             | Some items \<Rightarrow> map_option Some (nth_opt items (se_index entry - 1)))
      | [] \<Rightarrow> if cu_at_end c then st_last (cu_tree c) else Some None)"

subsection \<open>Stepping\<close>

text \<open>The inner loops of \<open>search_forward\<close>: skip the summaries the filter rejects.\<close>

fun skip_rejected ::
  "('s, 'd) dimension \<Rightarrow> ('s \<Rightarrow> bool) \<Rightarrow> 's list \<Rightarrow> nat \<Rightarrow> 'd \<Rightarrow> 'd \<Rightarrow> nat \<times> 'd \<times> 'd" where
  "skip_rejected dm filter_node [] index entry_position position = (index, entry_position, position)"
| "skip_rejected dm filter_node (summary # summaries) index entry_position position =
     (if filter_node summary then (index, entry_position, position)
      else skip_rejected dm filter_node summaries (index + 1) (dim_add dm entry_position summary)
             (dim_add dm position summary))"

partial_function (option) forward_loop ::
  "('s, 'd) dimension \<Rightarrow> ('s \<Rightarrow> bool) \<Rightarrow> ('a, 's, 'd) stack_entry list \<Rightarrow> 'd \<Rightarrow> bool \<Rightarrow>
   (('a, 's, 'd) stack_entry list \<times> 'd) option" where
  "forward_loop dm filter_node stack position descend =
     (case stack of
        [] \<Rightarrow> Some ([], position)
      | entry # below \<Rightarrow>
          (case se_tree entry of
             Internal _ _ child_sums trees \<Rightarrow>
               (let index = (if descend then se_index entry else se_index entry + 1);
                    entry_position = (if descend then se_position entry else position);
                    (index', entry_position', position') =
                      skip_rejected dm filter_node (drop index child_sums) index entry_position position
                in case nth_opt trees index' of
                     Some subtree \<Rightarrow>
                       (case push_entry \<lparr>se_tree = subtree, se_index = 0, se_position = position'\<rparr>
                               (entry\<lparr>se_index := index', se_position := entry_position'\<rparr> # below) of
                          None \<Rightarrow> None
                        | Some stack' \<Rightarrow> forward_loop dm filter_node stack' position' True)
                   | None \<Rightarrow> forward_loop dm filter_node below position' False)
           | Leaf _ _ item_summaries \<Rightarrow>
               (case (if descend then Some (se_index entry, se_position entry, position)
                      else map_option
                        (\<lambda>s. (se_index entry + 1, dim_add dm (se_position entry) s, dim_add dm position s))
                        (nth_opt item_summaries (se_index entry))) of
                  None \<Rightarrow> None
                | Some (index, entry_position, position1) \<Rightarrow>
                    (let (index', entry_position', position') =
                       skip_rejected dm filter_node (drop index item_summaries) index entry_position position1
                     in if index' < length item_summaries
                        then Some (entry\<lparr>se_index := index', se_position := entry_position'\<rparr> # below, position')
                        else forward_loop dm filter_node below position' False))))"

text \<open>The early \<open>return\<close> at an accepted item leaves \<open>at_end\<close> alone.\<close>

definition search_forward ::
  "('s, 'd) dimension \<Rightarrow> ('s \<Rightarrow> bool) \<Rightarrow> ('a, 's, 'd) cursor \<Rightarrow> ('a, 's, 'd) cursor option" where
  "search_forward dm filter_node c =
     (let fresh = (cu_stack c = []);
          stack = (if fresh \<and> \<not> cu_at_end c
                   then [\<lparr>se_tree = cu_tree c, se_index = 0, se_position = dim_zero dm\<rparr>] else cu_stack c);
          descend = (fresh \<and> \<not> cu_at_end c)
      in case forward_loop dm filter_node stack (cu_position c) descend of
           None \<Rightarrow> None
         | Some (stack', position') \<Rightarrow>
             Some (c\<lparr>cu_stack := stack', cu_position := position',
                     cu_did_seek := (cu_did_seek c \<or> fresh),
                     cu_at_end := (if stack' = [] then True else cu_at_end c)\<rparr>))"

definition cursor_next :: "('s, 'd) dimension \<Rightarrow> ('a, 's, 'd) cursor \<Rightarrow> ('a, 's, 'd) cursor option" where
  "cursor_next dm c = search_forward dm (\<lambda>_. True) c"

partial_function (option) backward_loop ::
  "('s, 'd) dimension \<Rightarrow> ('s \<Rightarrow> bool) \<Rightarrow> ('a, 's, 'd) stack_entry list \<Rightarrow> 'd \<Rightarrow> bool \<Rightarrow>
   (('a, 's, 'd) stack_entry list \<times> 'd) option" where
  "backward_loop dm filter_node stack position descending =
     (case stack of
        [] \<Rightarrow> Some ([], position)
      | entry # below \<Rightarrow>
          (let base = (case below of parent # _ \<Rightarrow> se_position parent | [] \<Rightarrow> dim_zero dm) in
           if \<not> descending \<and> se_index entry = 0 then backward_loop dm filter_node below base False
           else
             (let index = (if descending then se_index entry else se_index entry - 1);
                  summaries = child_summaries (se_tree entry)
              in if index < length summaries then
                   (let position' = foldl (dim_add dm) base (take index summaries);
                        entry' = entry\<lparr>se_index := index, se_position := position'\<rparr>;
                        descending' = filter_node (summaries ! index)
                    in case se_tree entry of
                         Internal _ _ _ trees \<Rightarrow>
                           if descending' then
                             (case nth_opt trees index of
                                None \<Rightarrow> None
                              | Some t \<Rightarrow>
                                  if child_summaries t = [] then None
                                  else
                                    (case push_entry
                                       \<lparr>se_tree = t, se_index = length (child_summaries t) - 1,
                                        se_position = dim_zero dm\<rparr> (entry' # below) of
                                       None \<Rightarrow> None
                                     | Some stack' \<Rightarrow> backward_loop dm filter_node stack' position' True))
                           else backward_loop dm filter_node (entry' # below) position' False
                       | Leaf _ _ _ \<Rightarrow>
                           if descending' then Some (entry' # below, position')
                           else backward_loop dm filter_node (entry' # below) position' False)
                 else None)))"

definition search_backward ::
  "('s, 'd) dimension \<Rightarrow> ('s \<Rightarrow> bool) \<Rightarrow> ('a, 's, 'd) cursor \<Rightarrow> ('a, 's, 'd) cursor option" where
  "search_backward dm filter_node c =
     (let at_end = (if cu_did_seek c then cu_at_end c else True);
          position = (if at_end then dim_zero dm else cu_position c);
          at_end' = (if at_end then st_is_empty (cu_tree c) else at_end)
      in case (if at_end \<and> \<not> st_is_empty (cu_tree c)
               then push_entry \<lparr>se_tree = cu_tree c, se_index = length (child_summaries (cu_tree c)),
                      se_position = from_summary_dim dm (st_summary (cu_tree c))\<rparr> (cu_stack c)
               else Some (cu_stack c)) of
           None \<Rightarrow> None
         | Some stack \<Rightarrow>
             (case backward_loop dm filter_node stack position False of
                None \<Rightarrow> None
              | Some (stack', position') \<Rightarrow>
                  Some (c\<lparr>cu_stack := stack', cu_position := position', cu_did_seek := True,
                          cu_at_end := at_end'\<rparr>)))"

definition cursor_prev :: "('s, 'd) dimension \<Rightarrow> ('a, 's, 'd) cursor \<Rightarrow> ('a, 's, 'd) cursor option" where
  "cursor_prev dm c = search_backward dm (\<lambda>_. True) c"

subsection \<open>Seeking\<close>

text \<open>A child or item lies before the target when the target is behind its end.\<close>

definition past :: "'d seek_target \<Rightarrow> bias \<Rightarrow> 'd \<Rightarrow> bool" where
  "past target bias child_end \<longleftrightarrow>
     target child_end = Greater \<or> target child_end = Equal \<and> bias = Right"

text \<open>
  The two \<open>for\<close> loops of \<open>seek_internal\<close>, over the children of an inner node and the items of a leaf.
  They end with the child to descend into, or the item to stop at, if there is one.
\<close>

fun seek_children ::
  "('s, 'd) dimension \<Rightarrow> ('d \<Rightarrow> bool) \<Rightarrow> ('a, 's, 'g) seek_aggregate \<Rightarrow>
   (('a, 's) sum_tree \<times> 's) list \<Rightarrow> nat \<Rightarrow> 'd \<Rightarrow> 'd \<Rightarrow> 'g \<Rightarrow>
   (nat \<times> 'd \<times> 'd \<times> 'g \<times> ('a, 's) sum_tree option) option" where
  "seek_children dm is_past ag [] index entry_position position g =
     Some (index, entry_position, position, g, None)"
| "seek_children dm is_past ag ((child_tree, child_summary) # rest) index entry_position position g =
     (let child_end = dim_add dm position child_summary in
      if is_past child_end then
        (case ag_push_tree ag g child_tree child_summary of
           None \<Rightarrow> None
         | Some g' \<Rightarrow> seek_children dm is_past ag rest (index + 1) child_end child_end g')
      else Some (index, entry_position, position, g, Some child_tree))"

fun seek_items ::
  "('s, 'd) dimension \<Rightarrow> ('d \<Rightarrow> bool) \<Rightarrow> ('a, 's, 'g) seek_aggregate \<Rightarrow> ('a \<times> 's) list \<Rightarrow> nat \<Rightarrow> 'd \<Rightarrow> 'g \<Rightarrow>
   (nat \<times> 'd \<times> 'g \<times> bool) option" where
  "seek_items dm is_past ag [] index position g = Some (index, position, g, False)"
| "seek_items dm is_past ag ((item, item_sum) # rest) index position g =
     (let child_end = dim_add dm position item_sum in
      if is_past child_end then
        (case ag_push_item ag g item item_sum of
           None \<Rightarrow> None
         | Some g' \<Rightarrow> seek_items dm is_past ag rest (index + 1) child_end g')
      else Some (index, position, g, True))"

partial_function (option) seek_loop ::
  "('s, 'd) dimension \<Rightarrow> ('d \<Rightarrow> bool) \<Rightarrow> ('a, 's, 'g) seek_aggregate \<Rightarrow>
   ('a, 's, 'd) stack_entry list \<Rightarrow> 'd \<Rightarrow> bool \<Rightarrow> 'g \<Rightarrow>
   (('a, 's, 'd) stack_entry list \<times> 'd \<times> 'g) option" where
  "seek_loop dm is_past ag stack position ascending g =
     (case stack of
        [] \<Rightarrow> Some ([], position, g)
      | entry # below \<Rightarrow>
          (case se_tree entry of
             Internal _ _ child_sums trees \<Rightarrow>
               (let index = (if ascending then se_index entry + 1 else se_index entry);
                    entry_position = (if ascending then position else se_position entry)
                in if index \<le> length trees \<and> index \<le> length child_sums then
                     (case seek_children dm is_past ag (zip (drop index trees) (drop index child_sums))
                             index entry_position position g of
                        None \<Rightarrow> None
                      | Some (index', entry_position', position', g', Some child_tree) \<Rightarrow>
                          (case push_entry \<lparr>se_tree = child_tree, se_index = 0, se_position = position'\<rparr>
                                  (entry\<lparr>se_index := index', se_position := entry_position'\<rparr> # below) of
                             None \<Rightarrow> None
                           | Some stack' \<Rightarrow> seek_loop dm is_past ag stack' position' False g')
                      | Some (index', entry_position', position', g', None) \<Rightarrow>
                          seek_loop dm is_past ag below position' True g')
                   else None)
           | Leaf _ items item_summaries \<Rightarrow>
               if se_index entry \<le> length items \<and> se_index entry \<le> length item_summaries then
                 (case seek_items dm is_past ag
                         (zip (drop (se_index entry) items) (drop (se_index entry) item_summaries))
                         (se_index entry) position (ag_begin_leaf ag g) of
                    None \<Rightarrow> None
                  | Some (index', position', g', stopped) \<Rightarrow>
                      (case ag_end_leaf ag g' of
                         None \<Rightarrow> None
                       | Some g'' \<Rightarrow>
                           if stopped then Some (entry\<lparr>se_index := index'\<rparr> # below, position', g'')
                           else seek_loop dm is_past ag below position' True g''))
               else None))"

definition seek_internal ::
  "('s, 'd) dimension \<Rightarrow> 'd seek_target \<Rightarrow> bias \<Rightarrow> ('a, 's, 'g) seek_aggregate \<Rightarrow>
   ('a, 's, 'd) cursor \<Rightarrow> 'g \<Rightarrow> (('a, 's, 'd) cursor \<times> bool \<times> 'g) option" where
  "seek_internal dm target bias ag c g =
     (if target (cu_position c) = Less then None
      else
        (case (if cu_did_seek c then Some (cu_stack c)
               else push_entry \<lparr>se_tree = cu_tree c, se_index = 0, se_position = dim_zero dm\<rparr> (cu_stack c)) of
           None \<Rightarrow> None
         | Some stack \<Rightarrow>
             (case seek_loop dm (past target bias) ag stack (cu_position c) False g of
                None \<Rightarrow> None
              | Some (stack', position', g') \<Rightarrow>
                  (let c' = c\<lparr>cu_stack := stack', cu_position := position', cu_did_seek := True,
                              cu_at_end := (stack' = [])\<rparr>
                   in case (if bias = Left then item_summary c' else Some None) of
                        None \<Rightarrow> None
                      | Some None \<Rightarrow> Some (c', target position' = Equal, g')
                      | Some (Some summary) \<Rightarrow>
                          Some (c', target (dim_add dm position' summary) = Equal, g')))))"

definition seek ::
  "('s, 'd) dimension \<Rightarrow> 'd seek_target \<Rightarrow> bias \<Rightarrow> ('a, 's, 'd) cursor \<Rightarrow> (('a, 's, 'd) cursor \<times> bool) option" where
  "seek dm target bias c =
     map_option (\<lambda>(c', found, _). (c', found))
       (seek_internal dm target bias unit_aggregate (cursor_reset dm c) ())"

definition seek_forward ::
  "('s, 'd) dimension \<Rightarrow> 'd seek_target \<Rightarrow> bias \<Rightarrow> ('a, 's, 'd) cursor \<Rightarrow> (('a, 's, 'd) cursor \<times> bool) option" where
  "seek_forward dm target bias c =
     map_option (\<lambda>(c', found, _). (c', found)) (seek_internal dm target bias unit_aggregate c ())"

definition slice ::
  "('a, 's) summary_ops \<Rightarrow> ('s, 'd) dimension \<Rightarrow> 'd seek_target \<Rightarrow> bias \<Rightarrow> ('a, 's, 'd) cursor \<Rightarrow>
   (('a, 's, 'd) cursor \<times> ('a, 's) sum_tree) option" where
  "slice ops dm target bias c =
     map_option (\<lambda>(c', _, g). (c', sl_tree g))
       (seek_internal dm target bias (slice_aggregate ops) c
          \<lparr>sl_tree = st_new ops, sl_leaf_items = [], sl_leaf_item_summaries = [], sl_leaf_summary = so_zero ops\<rparr>)"

definition suffix ::
  "('a, 's) summary_ops \<Rightarrow> ('s, 'd) dimension \<Rightarrow> ('a, 's, 'd) cursor \<Rightarrow>
   (('a, 's, 'd) cursor \<times> ('a, 's) sum_tree) option" where
  "suffix ops dm c = slice ops dm end_target Right c"

definition cursor_summary ::
  "('s, 'd) dimension \<Rightarrow> ('s, 'o) dimension \<Rightarrow> 'd seek_target \<Rightarrow> bias \<Rightarrow> ('a, 's, 'd) cursor \<Rightarrow>
   (('a, 's, 'd) cursor \<times> 'o) option" where
  "cursor_summary dm out target bias c =
     map_option (\<lambda>(c', _, g). (c', g))
       (seek_internal dm target bias (summary_aggregate out) c (dim_zero out))"

end
