(* ===== verification/Cursor_Seek.thy ===== *)
theory Cursor_Seek
  imports Cursor
begin

text \<open>
  Seeking with the cursor of \<open>crates/sum_tree/src/cursor.rs\<close> skips exactly the items that lie before the
  target, and the aggregate sees exactly these items. The laws of the \<open>Dimension\<close> and \<open>SeekAggregate\<close>
  traits are locales; the three aggregates of the code are interpretations.
\<close>

section \<open>Specification\<close>

text \<open>The dimension behind a list of items, and the items a seek skips.\<close>

definition advance :: "('a, 's) summary_ops \<Rightarrow> ('s, 'd) dimension \<Rightarrow> 'd \<Rightarrow> 'a list \<Rightarrow> 'd" where
  "advance ops dm position xs = foldl (\<lambda>d x. dim_add dm d (so_summary ops x)) position xs"

fun skipped :: "('a, 's) summary_ops \<Rightarrow> ('s, 'd) dimension \<Rightarrow> ('d \<Rightarrow> bool) \<Rightarrow> 'd \<Rightarrow> 'a list \<Rightarrow> 'a list" where
  "skipped ops dm is_past position [] = []"
| "skipped ops dm is_past position (x # xs) =
     (let item_end = dim_add dm position (so_summary ops x)
      in if is_past item_end then x # skipped ops dm is_past item_end xs else [])"

text \<open>A target that is behind a location is behind all earlier ones.\<close>

definition past_mono ::
  "('a, 's) summary_ops \<Rightarrow> ('s, 'd) dimension \<Rightarrow> ('d \<Rightarrow> bool) \<Rightarrow> 'd \<Rightarrow> 'a list \<Rightarrow> bool" where
  "past_mono ops dm is_past position xs \<longleftrightarrow>
     (\<forall>i j. 0 < i \<longrightarrow> i \<le> j \<longrightarrow> j \<le> length xs \<longrightarrow> is_past (advance ops dm position (take j xs)) \<longrightarrow>
        is_past (advance ops dm position (take i xs)))"

text \<open>Items before and after the place a stack stands for; the top entry is the first.\<close>

fun entry_before :: "('a, 's, 'd) stack_entry \<Rightarrow> 'a list" where
  "entry_before e =
     (case se_tree e of
        Internal _ _ _ trees \<Rightarrow> concat (map items_of (take (se_index e) trees))
      | Leaf _ items _ \<Rightarrow> take (se_index e) items)"

declare entry_before.simps [simp del]

fun before :: "('a, 's, 'd) stack_entry list \<Rightarrow> 'a list" where
  "before [] = []"
| "before (e # stack) = before stack @ entry_before e"

fun after :: "('a, 's, 'd) stack_entry list \<Rightarrow> 'a list" where
  "after [] = []"
| "after (e # stack) =
     (case se_tree e of
        Internal _ _ _ trees \<Rightarrow> concat (map items_of (drop (Suc (se_index e)) trees))
      | Leaf _ _ _ \<Rightarrow> []) @ after stack"

text \<open>The entries below the top lead from the root to a subtree, and know its start.\<close>

fun path_to ::
  "('a, 's) summary_ops \<Rightarrow> ('s, 'd) dimension \<Rightarrow> ('a, 's) sum_tree \<Rightarrow> ('a, 's, 'd) stack_entry list \<Rightarrow>
   ('a, 's) sum_tree \<Rightarrow> bool" where
  "path_to ops dm root [] t \<longleftrightarrow> t = root"
| "path_to ops dm root (e # stack) t \<longleftrightarrow>
     (case se_tree e of
        Internal _ _ _ trees \<Rightarrow> se_index e < length trees \<and> trees ! se_index e = t
      | Leaf _ _ _ \<Rightarrow> False) \<and>
     se_position e = advance ops dm (dim_zero dm) (before (e # stack)) \<and>
     path_to ops dm root stack (se_tree e)"

definition at_leaf ::
  "('a, 's) summary_ops \<Rightarrow> ('s, 'd) dimension \<Rightarrow> ('a, 's) sum_tree \<Rightarrow> ('a, 's, 'd) stack_entry list \<Rightarrow>
   'a list \<Rightarrow> bool" where
  "at_leaf ops dm root stack xs \<longleftrightarrow>
     (case stack of
        [] \<Rightarrow> False
      | e # below \<Rightarrow>
          (case se_tree e of
             Leaf _ items _ \<Rightarrow> se_index e < length items
           | Internal _ _ _ _ \<Rightarrow> False) \<and>
          path_to ops dm root below (se_tree e)) \<and>
     before stack = xs"

text \<open>The cursor stands at item \<open>k\<close> of its tree, or behind the last one.\<close>

definition cursor_at ::
  "('a, 's) summary_ops \<Rightarrow> ('s, 'd) dimension \<Rightarrow> ('a, 's) sum_tree \<Rightarrow> nat \<Rightarrow> ('a, 's, 'd) cursor \<Rightarrow> bool" where
  "cursor_at ops dm root k c \<longleftrightarrow>
     cu_tree c = root \<and> cu_did_seek c \<and> k \<le> length (items_of root) \<and>
     cu_position c = advance ops dm (dim_zero dm) (take k (items_of root)) \<and>
     (if k = length (items_of root) then cu_stack c = [] \<and> cu_at_end c
      else at_leaf ops dm root (cu_stack c) (take k (items_of root)) \<and> \<not> cu_at_end c)"

text \<open>A cursor that has not moved yet counts as standing at the first item.\<close>

definition placed ::
  "('a, 's) summary_ops \<Rightarrow> ('s, 'd) dimension \<Rightarrow> ('a, 's) sum_tree \<Rightarrow> nat \<Rightarrow> ('a, 's, 'd) cursor \<Rightarrow> bool" where
  "placed ops dm root k c \<longleftrightarrow>
     cursor_at ops dm root k c \<or>
     k = 0 \<and> cu_tree c = root \<and> \<not> cu_did_seek c \<and> cu_stack c = [] \<and> cu_position c = dim_zero dm \<and>
     cu_at_end c = st_is_empty root"

section \<open>Laws\<close>

locale dimension_laws = summary_laws ops for ops :: "('a, 's) summary_ops" +
  fixes dm :: "('s, 'd) dimension"
  assumes dim_add_add: "dim_add dm d (so_add ops a b) = dim_add dm (dim_add dm d a) b"
begin

lemma advance_simps [simp]:
  "advance ops dm p [] = p"
  "advance ops dm p (x # xs) = advance ops dm (dim_add dm p (so_summary ops x)) xs"
  "advance ops dm p (xs @ ys) = advance ops dm (advance ops dm p xs) ys"
  by (simp_all add: advance_def)

lemma dim_add_total: "xs \<noteq> [] \<Longrightarrow> dim_add dm p (total ops xs) = advance ops dm p xs"
proof (induction xs rule: rev_induct)
  case (snoc x xs)
  have "total ops [x] = so_summary ops x" by (simp add: total_def sum_of_def zero_left)
  then show ?case
    using snoc by (cases "xs = []") (simp_all add: total_append dim_add_add)
qed simp

lemma dim_add_summary: "good ops h t \<Longrightarrow> dim_add dm p (st_summary t) = advance ops dm p (items_of t)"
  using dim_add_total [OF good_items] by (simp add: good_def st_summary_total)

lemma past_mono_append:
  assumes "past_mono ops dm P p (xs @ ys)"
  shows "past_mono ops dm P p xs" "past_mono ops dm P (advance ops dm p xs) ys"
proof -
  show "past_mono ops dm P p xs"
    unfolding past_mono_def
  proof (intro allI impI)
    fix i j :: nat
    assume "0 < i" "i \<le> j" "j \<le> length xs" "P (advance ops dm p (take j xs))"
    then show "P (advance ops dm p (take i xs))"
      using assms [unfolded past_mono_def, rule_format, of i j] by simp
  qed
  show "past_mono ops dm P (advance ops dm p xs) ys"
    unfolding past_mono_def
  proof (intro allI impI)
    fix i j :: nat
    assume "0 < i" "i \<le> j" "j \<le> length ys" "P (advance ops dm (advance ops dm p xs) (take j ys))"
    then show "P (advance ops dm (advance ops dm p xs) (take i ys))"
      using assms [unfolded past_mono_def, rule_format, of "length xs + i" "length xs + j"] by simp
  qed
qed

lemma past_monoD:
  "past_mono ops dm P p (xs @ ys) \<Longrightarrow> xs \<noteq> [] \<Longrightarrow> P (advance ops dm p (xs @ ys)) \<Longrightarrow> P (advance ops dm p xs)"
  unfolding past_mono_def
  by (drule spec [of _ "length xs"], drule spec [of _ "length (xs @ ys)"]) simp

lemma skipped_all:
  "past_mono ops dm P p xs \<Longrightarrow> (xs \<noteq> [] \<Longrightarrow> P (advance ops dm p xs)) \<Longrightarrow>
   skipped ops dm P p (xs @ ys) = xs @ skipped ops dm P (advance ops dm p xs) ys"
proof (induction xs arbitrary: p)
  case (Cons x xs)
  have m: "past_mono ops dm P p ([x] @ xs)" using Cons.prems(1) by simp
  have "P (dim_add dm p (so_summary ops x))"
    using past_monoD [OF m] Cons.prems(2) by simp
  then show ?case
    using Cons.IH [of "dim_add dm p (so_summary ops x)"] past_mono_append(2) [OF m] Cons.prems(2)
    by (simp add: Let_def)
qed simp

lemma skipped_stop:
  "xs \<noteq> [] \<Longrightarrow> \<not> P (advance ops dm p xs) \<Longrightarrow> skipped ops dm P p (xs @ ys) = skipped ops dm P p xs"
proof (induction xs arbitrary: p)
  case (Cons x xs)
  then show ?case by (cases "xs = []") (auto simp: Let_def)
qed simp

lemma skipped_take: "skipped ops dm P p xs = take (length (skipped ops dm P p xs)) xs"
  by (induction xs arbitrary: p) (simp_all add: Let_def)

lemma length_skipped: "length (skipped ops dm P p xs) \<le> length xs"
  by (metis skipped_take length_take min.cobounded1)

lemma skipped_less:
  "xs \<noteq> [] \<Longrightarrow> \<not> P (advance ops dm p xs) \<Longrightarrow> length (skipped ops dm P p xs) < length xs"
proof (induction xs arbitrary: p)
  case (Cons x xs)
  then show ?case by (cases "xs = []") (auto simp: Let_def)
qed simp

text \<open>A path leads to a well-formed subtree, with the remaining items around it.\<close>

lemma path_to_Cons:
  assumes "path_to ops dm root (e # st) t"
  obtains h s ss ts where "se_tree e = Internal h s ss ts" "se_index e < length ts" "ts ! se_index e = t"
    "t \<in> set ts" "path_to ops dm root st (Internal h s ss ts)"
  using assms by (cases "se_tree e") auto

lemma path_to_wf:
  "st_wf ops root \<Longrightarrow> path_to ops dm root st t \<Longrightarrow>
   st_wf ops t \<and> length st + st_height t = st_height root \<and> (st \<noteq> [] \<longrightarrow> \<not> st_is_empty t)"
proof (induction st arbitrary: t)
  case (Cons e st)
  from Cons.prems(2) obtain h s ss ts where e: "se_tree e = Internal h s ss ts" "t \<in> set ts"
    "path_to ops dm root st (Internal h s ss ts)" by (rule path_to_Cons)
  show ?case using Cons.IH [OF Cons.prems(1) e(3)] e(2) by auto
qed simp

lemma path_to_items: "path_to ops dm root st t \<Longrightarrow> before st @ items_of t @ after st = items_of root"
proof (induction st arbitrary: t)
  case (Cons e st)
  from Cons.prems obtain h s ss ts where e: "se_tree e = Internal h s ss ts" "se_index e < length ts"
    "ts ! se_index e = t" "path_to ops dm root st (Internal h s ss ts)" by (rule path_to_Cons)
  have "ts = take (se_index e) ts @ t # drop (Suc (se_index e)) ts"
    using id_take_nth_drop [OF e(2)] e(3) by simp
  then have "concat (map items_of ts) = concat (map items_of (take (se_index e) ts)) @ items_of t @
      concat (map items_of (drop (Suc (se_index e)) ts))"
    by (metis concat.simps(2) concat_append list.simps(9) map_append)
  then show ?case using Cons.IH [OF e(4)] e(1) by (simp add: entry_before.simps)
qed simp

lemma at_leaf_item:
  assumes wf: "st_wf ops root" and "at_leaf ops dm root stack (take k (items_of root))"
    and k: "k < length (items_of root)"
  obtains e below s xs where "stack = e # below" "se_tree e = Leaf s xs (map (so_summary ops) xs)"
    "se_index e < length xs" "path_to ops dm root below (Leaf s xs (map (so_summary ops) xs))"
    "before stack = take k (items_of root)"
    "xs ! se_index e = items_of root ! k" "drop (se_index e) xs @ after below = drop k (items_of root)"
proof -
  from assms(2) obtain e below s xs ss where e: "stack = e # below" "se_tree e = Leaf s xs ss"
    "se_index e < length xs" "path_to ops dm root below (Leaf s xs ss)"
    "before stack = take k (items_of root)"
    by (cases stack; cases "se_tree (hd stack)") (auto simp: at_leaf_def)
  have ss: "ss = map (so_summary ops) xs" using path_to_wf [OF wf e(4)] by simp
  have "before stack @ drop (se_index e) xs @ after below = items_of root"
    using path_to_items [OF e(4)] e(1,2) by (simp add: entry_before.simps) (metis append_assoc append_take_drop_id)
  then have rest: "drop (se_index e) xs @ after below = drop k (items_of root)"
    unfolding e(5) by (metis append_take_drop_id same_append_eq)
  have "xs ! se_index e = hd (drop (se_index e) xs @ after below)"
    using e(3) by (simp add: hd_drop_conv_nth)
  also have "\<dots> = items_of root ! k" unfolding rest using k by (simp add: hd_drop_conv_nth)
  finally show ?thesis using that e ss rest by blast
qed

lemma at_leaf_less:
  assumes "at_leaf ops dm root stack xs" shows "length xs < length (items_of root)"
proof -
  from assms obtain e below s ys ss where e: "stack = e # below" "se_tree e = Leaf s ys ss"
    "se_index e < length ys" "path_to ops dm root below (Leaf s ys ss)" "before stack = xs"
    by (cases stack; cases "se_tree (hd stack)") (auto simp: at_leaf_def)
  have "length xs = length (before below) + se_index e"
    using arg_cong [OF e(5), of length] e(1-3) by (simp add: entry_before.simps)
  then show ?thesis using e(3) arg_cong [OF path_to_items [OF e(4)], of length] by simp
qed

lemma cursor_at_item:
  assumes "st_wf ops root" "cursor_at ops dm root k c"
  shows "cursor_item c = Some (nth_opt (items_of root) k)"
    and "item_summary c = Some (map_option (so_summary ops) (nth_opt (items_of root) k))"
proof -
  have "cursor_item c = Some (nth_opt (items_of root) k) \<and>
    item_summary c = Some (map_option (so_summary ops) (nth_opt (items_of root) k))"
  proof (cases "k = length (items_of root)")
    case True
    then show ?thesis
      using assms(2) by (simp add: cursor_at_def cursor_item_def item_summary_def nth_opt_def)
  next
    case False
    then have k: "k < length (items_of root)" "at_leaf ops dm root (cu_stack c) (take k (items_of root))"
      "cu_did_seek c" using assms(2) by (auto simp: cursor_at_def)
    from at_leaf_item [OF assms(1) k(2,1)] obtain e below s xs where
      "cu_stack c = e # below" "se_tree e = Leaf s xs (map (so_summary ops) xs)"
      "se_index e < length xs" "xs ! se_index e = items_of root ! k" by metis
    then show ?thesis using k by (simp add: cursor_item_def item_summary_def nth_opt_def)
  qed
  then show "cursor_item c = Some (nth_opt (items_of root) k)"
    "item_summary c = Some (map_option (so_summary ops) (nth_opt (items_of root) k))" by simp_all
qed

end

text \<open>
  What \<open>seek_internal\<close> expects of an aggregate: \<open>inv g xs\<close> says that it has collected the items \<open>xs\<close>, and
  \<open>inv_leaf g xs ys\<close> that it is inside a leaf, of which it has seen the items \<open>ys\<close>.
\<close>

locale aggregate_laws =
  fixes ops :: "('a, 's) summary_ops" and ag :: "('a, 's, 'g) seek_aggregate"
    and inv :: "'g \<Rightarrow> 'a list \<Rightarrow> bool" and inv_leaf :: "'g \<Rightarrow> 'a list \<Rightarrow> 'a list \<Rightarrow> bool"
  assumes begin_leaf: "inv g xs \<Longrightarrow> inv_leaf (ag_begin_leaf ag g) xs []"
    and end_leaf: "inv_leaf g xs ys \<Longrightarrow> \<exists>g'. ag_end_leaf ag g = Some g' \<and> inv g' (xs @ ys)"
    and push_item: "inv_leaf g xs ys \<Longrightarrow> length ys < CAPACITY \<Longrightarrow>
      \<exists>g'. ag_push_item ag g y (so_summary ops y) = Some g' \<and> inv_leaf g' xs (ys @ [y])"
    and push_tree: "inv g xs \<Longrightarrow> good ops h t \<Longrightarrow>
      \<exists>g'. ag_push_tree ag g t (st_summary t) = Some g' \<and> inv g' (xs @ items_of t)"

locale seek_laws = dimension_laws ops dm + aggregate_laws ops ag inv inv_leaf
  for ops :: "('a, 's) summary_ops" and dm :: "('s, 'd) dimension"
    and ag :: "('a, 's, 'g) seek_aggregate" and inv inv_leaf
begin

lemma seek_items_ok:
  assumes "inv_leaf g acc ys" "length ys + length xs \<le> CAPACITY"
  shows "\<exists>g'. seek_items dm P ag (zip xs (map (so_summary ops) xs)) i p g =
      Some (i + length (skipped ops dm P p xs), advance ops dm p (skipped ops dm P p xs), g',
        length (skipped ops dm P p xs) < length xs) \<and>
    inv_leaf g' acc (ys @ skipped ops dm P p xs)"
  using assms
proof (induction xs arbitrary: i p g ys)
  case (Cons x xs)
  let ?e = "dim_add dm p (so_summary ops x)"
  show ?case
  proof (cases "P ?e")
    case True
    obtain g1 where g1: "ag_push_item ag g x (so_summary ops x) = Some g1" "inv_leaf g1 acc (ys @ [x])"
      using push_item [OF Cons.prems(1), of x] Cons.prems(2) by auto
    then show ?thesis
      using Cons.IH [OF g1(2), of "i + 1" ?e] Cons.prems(2) True by (auto simp: Let_def)
  qed (use Cons.prems in \<open>simp add: Let_def\<close>)
qed simp

lemma seek_children_ok:
  assumes "\<forall>u \<in> set us. good ops h u" "inv g acc" "past_mono ops dm P p (concat (map items_of us))"
  shows "(\<exists>j g'. j < length us \<and>
      seek_children dm P ag (zip us (map st_summary us)) i ep p g =
        Some (i + j, if j = 0 then ep else advance ops dm p (concat (map items_of (take j us))),
          advance ops dm p (concat (map items_of (take j us))), g', Some (us ! j)) \<and>
      inv g' (acc @ concat (map items_of (take j us))) \<and>
      \<not> P (advance ops dm p (concat (map items_of (take (Suc j) us)))) \<and>
      (\<forall>zs. skipped ops dm P p (concat (map items_of us) @ zs) = concat (map items_of (take j us)) @
         skipped ops dm P (advance ops dm p (concat (map items_of (take j us)))) (items_of (us ! j)))) \<or>
    (\<exists>g' ep'. seek_children dm P ag (zip us (map st_summary us)) i ep p g =
        Some (i + length us, ep', advance ops dm p (concat (map items_of us)), g', None) \<and>
      inv g' (acc @ concat (map items_of us)) \<and>
      (us \<noteq> [] \<longrightarrow> P (advance ops dm p (concat (map items_of us)))) \<and>
      (\<forall>zs. skipped ops dm P p (concat (map items_of us) @ zs) = concat (map items_of us) @
         skipped ops dm P (advance ops dm p (concat (map items_of us))) zs))"
  using assms
proof (induction us arbitrary: i ep p g acc)
  case (Cons u us)
  let ?e = "advance ops dm p (items_of u)"
  have u: "good ops h u" "items_of u \<noteq> []" using Cons.prems(1) good_items by auto
  have e: "dim_add dm p (st_summary u) = ?e" using dim_add_summary [OF u(1)] .
  have m: "past_mono ops dm P p (items_of u)" "past_mono ops dm P ?e (concat (map items_of us))"
    using past_mono_append [of P p "items_of u" "concat (map items_of us)"] Cons.prems(3) by simp_all
  show ?case
  proof (cases "P ?e")
    case False
    then show ?thesis
      using Cons.prems(2) skipped_stop [OF u(2), of P p] e
      by (intro disjI1 exI [of _ 0] exI [of _ g]) (simp add: Let_def)
  next
    case True
    obtain g1 where g1: "ag_push_tree ag g u (st_summary u) = Some g1" "inv g1 (acc @ items_of u)"
      using push_tree [OF Cons.prems(2) u(1)] by blast
    have skip: "skipped ops dm P p (items_of u @ zs) = items_of u @ skipped ops dm P ?e zs" for zs
      using skipped_all [OF m(1)] True by simp
    have step: "seek_children dm P ag (zip (u # us) (map st_summary (u # us))) i ep p g =
        seek_children dm P ag (zip us (map st_summary us)) (i + 1) ?e ?e g1"
      using True e g1(1) by (simp add: Let_def)
    have us: "\<forall>u \<in> set us. good ops h u" using Cons.prems(1) by simp
    from Cons.IH [OF us g1(2) m(2), of "i + 1" ?e] show ?thesis
    proof (elim disjE exE conjE)
      fix j g'
      assume "j < length us" and
        "seek_children dm P ag (zip us (map st_summary us)) (i + 1) ?e ?e g1 =
          Some (i + 1 + j, if j = 0 then ?e else advance ops dm ?e (concat (map items_of (take j us))),
            advance ops dm ?e (concat (map items_of (take j us))), g', Some (us ! j))"
        "inv g' ((acc @ items_of u) @ concat (map items_of (take j us)))"
        "\<not> P (advance ops dm ?e (concat (map items_of (take (Suc j) us))))"
        "\<forall>zs. skipped ops dm P ?e (concat (map items_of us) @ zs) = concat (map items_of (take j us)) @
          skipped ops dm P (advance ops dm ?e (concat (map items_of (take j us)))) (items_of (us ! j))"
      then show ?thesis
        unfolding step by (intro disjI1 exI [of _ "Suc j"] exI [of _ g']) (auto simp: skip)
    next
      fix g' ep'
      assume "seek_children dm P ag (zip us (map st_summary us)) (i + 1) ?e ?e g1 =
          Some (i + 1 + length us, ep', advance ops dm ?e (concat (map items_of us)), g', None)"
        "inv g' ((acc @ items_of u) @ concat (map items_of us))"
        "us \<noteq> [] \<longrightarrow> P (advance ops dm ?e (concat (map items_of us)))"
        "\<forall>zs. skipped ops dm P ?e (concat (map items_of us) @ zs) = concat (map items_of us) @
          skipped ops dm P (advance ops dm ?e (concat (map items_of us))) zs"
      then show ?thesis
        unfolding step using True
        by (intro disjI2 exI [of _ g'] exI [of _ ep']) (cases us; auto simp: skip)
    qed
  qed
qed simp

text \<open>Descending into a subtree that ends behind the target stops at one of its items.\<close>

lemma seek_descend:
  assumes "st_height root < STACK_CAPACITY" "st_wf ops root"
  shows "path_to ops dm root st t \<Longrightarrow> \<not> st_is_empty t \<Longrightarrow> p = advance ops dm (dim_zero dm) (before st) \<Longrightarrow>
    inv g acc \<Longrightarrow> past_mono ops dm P p (items_of t) \<Longrightarrow> \<not> P (advance ops dm p (items_of t)) \<Longrightarrow>
    \<exists>st' g'. seek_loop dm P ag (\<lparr>se_tree = t, se_index = 0, se_position = p\<rparr> # st) p False g =
        Some (st', advance ops dm p (skipped ops dm P p (items_of t)), g') \<and>
      inv g' (acc @ skipped ops dm P p (items_of t)) \<and>
      at_leaf ops dm root st' (before st @ skipped ops dm P p (items_of t))"
proof (induction t arbitrary: st p g acc)
  case (Leaf s xs ss)
  let ?k = "length (skipped ops dm P p xs)"
  have wf: "ss = map (so_summary ops) xs" "length xs \<le> CAPACITY"
    using path_to_wf [OF assms(2) Leaf.prems(1)] by auto
  obtain g1 where g1: "seek_items dm P ag (zip xs ss) 0 p (ag_begin_leaf ag g) =
      Some (?k, advance ops dm p (skipped ops dm P p xs), g1, ?k < length xs)"
    "inv_leaf g1 acc (skipped ops dm P p xs)"
    using seek_items_ok [OF begin_leaf [OF Leaf.prems(4)], of xs P 0 p] wf by auto
  obtain g2 where g2: "ag_end_leaf ag g1 = Some g2" "inv g2 (acc @ skipped ops dm P p xs)"
    using end_leaf [OF g1(2)] by blast
  have pre: "skipped ops dm P p xs = take ?k xs" "?k < length xs"
    using skipped_take skipped_less Leaf.prems(2,6) by auto
  show ?case
    using g1(1) g2 pre Leaf.prems(1)
    by (subst seek_loop.simps) (simp add: at_leaf_def entry_before.simps)
next
  case (Internal h s css ts)
  note wf = path_to_wf [OF assms(2) Internal.prems(1)]
  have ts: "\<forall>t \<in> set ts. good ops (h - 1) t" "css = map st_summary ts" "ts \<noteq> []" "0 < h"
    using wf st_wf_internal [of ops h s css ts] by auto
  from seek_children_ok [OF ts(1) Internal.prems(4), of P p 0 p] Internal.prems(5,6) ts(3) obtain j g1 where
    j: "j < length ts" and
    run: "seek_children dm P ag (zip ts css) 0 p p g =
      Some (j, if j = 0 then p else advance ops dm p (concat (map items_of (take j ts))),
        advance ops dm p (concat (map items_of (take j ts))), g1, Some (ts ! j))" and
    g1: "inv g1 (acc @ concat (map items_of (take j ts)))" and
    stop: "\<not> P (advance ops dm p (concat (map items_of (take (Suc j) ts))))" and
    skip: "\<forall>zs. skipped ops dm P p (concat (map items_of ts) @ zs) = concat (map items_of (take j ts)) @
      skipped ops dm P (advance ops dm p (concat (map items_of (take j ts)))) (items_of (ts ! j))"
    unfolding ts(2) by (auto simp del: advance_simps)
  let ?B = "concat (map items_of (take j ts))" and ?t = "ts ! j"
  let ?p = "advance ops dm p ?B"
  let ?st = "\<lparr>se_tree = Internal h s css ts, se_index = j, se_position = ?p\<rparr> # st"
  have path: "path_to ops dm root ?st ?t" "before ?st = before st @ ?B"
    using Internal.prems(1,3) j by (simp_all add: entry_before.simps)
  have t: "?t \<in> set ts" "\<not> st_is_empty ?t" using j ts(1) by (auto simp: good_def)
  have "concat (map items_of (take (Suc j) ts)) = ?B @ items_of ?t"
    using j by (simp add: take_Suc_conv_app_nth)
  moreover have "items_of (Internal h s css ts) = ?B @ items_of ?t @ concat (map items_of (drop (Suc j) ts))"
    using id_take_nth_drop [OF j] by (metis concat.simps(2) concat_append items_of.simps(2) list.simps(9) map_append)
  ultimately have m: "past_mono ops dm P ?p (items_of ?t)" "\<not> P (advance ops dm ?p (items_of ?t))"
    using Internal.prems(5) stop past_mono_append by (metis, simp)
  from Internal.IH [OF t(1) path(1) t(2) _ g1 m] obtain st' g' where
    rec: "seek_loop dm P ag (\<lparr>se_tree = ?t, se_index = 0, se_position = ?p\<rparr> # ?st) ?p False g1 =
      Some (st', advance ops dm ?p (skipped ops dm P ?p (items_of ?t)), g')"
    "inv g' ((acc @ ?B) @ skipped ops dm P ?p (items_of ?t))"
    "at_leaf ops dm root st' (before ?st @ skipped ops dm P ?p (items_of ?t))"
    using path(2) Internal.prems(3) by auto
  have "length ?st < STACK_CAPACITY" using wf assms(1) ts(4) by simp
  then have "seek_loop dm P ag (\<lparr>se_tree = Internal h s css ts, se_index = 0, se_position = p\<rparr> # st) p False g =
      seek_loop dm P ag (\<lparr>se_tree = ?t, se_index = 0, se_position = ?p\<rparr> # ?st) ?p False g1"
    using run ts(2) by (subst seek_loop.simps) (cases "j = 0"; simp add: push_entry_def Let_def)
  then show ?case
    using rec path(2) skip [rule_format, of "[]"] by (simp del: before.simps)
qed

text \<open>
  Scanning the children of the top entry from the index \<open>i\<close> on either stops below one of them or goes
  on with the entries below.
\<close>

definition found :: "('a, 's) sum_tree \<Rightarrow> ('d \<Rightarrow> bool) \<Rightarrow> 'd \<Rightarrow> 'a list \<Rightarrow> 'a list \<Rightarrow> 'a list \<Rightarrow>
    (('a, 's, 'd) stack_entry list \<times> 'd \<times> 'g) option \<Rightarrow> bool" where
  "found root P p bef rest acc r \<longleftrightarrow>
     (\<exists>st' g'. r = Some (st', advance ops dm p (skipped ops dm P p rest), g') \<and>
        inv g' (acc @ skipped ops dm P p rest) \<and>
        (if st' = [] then skipped ops dm P p rest = rest
         else at_leaf ops dm root st' (bef @ skipped ops dm P p rest)))"

lemma found_shift:
  assumes "found root P (advance ops dm p ys) (bef @ ys) zs (acc @ ys) r"
    and "skipped ops dm P p (ys @ zs) = ys @ skipped ops dm P (advance ops dm p ys) zs"
  shows "found root P p bef (ys @ zs) acc r"
proof -
  obtain st' g' where "r = Some (st', advance ops dm (advance ops dm p ys)
      (skipped ops dm P (advance ops dm p ys) zs), g')"
    "inv g' ((acc @ ys) @ skipped ops dm P (advance ops dm p ys) zs)"
    "if st' = [] then skipped ops dm P (advance ops dm p ys) zs = zs
     else at_leaf ops dm root st' ((bef @ ys) @ skipped ops dm P (advance ops dm p ys) zs)"
    using assms(1) unfolding found_def by blast
  then show ?thesis
    unfolding found_def assms(2) by (intro exI [of _ st'] exI [of _ g']) (simp split: if_splits)
qed

lemma seek_entry:
  assumes cap: "st_height root < STACK_CAPACITY" and wf: "st_wf ops root"
    and path: "path_to ops dm root st (Internal h s css ts)" and i: "i \<le> length ts"
    and p: "p = advance ops dm (dim_zero dm) (before st @ concat (map items_of (take i ts)))"
    and m: "past_mono ops dm P p (concat (map items_of (drop i ts)) @ zs)" and g: "inv g acc"
    and below: "\<And>p' g'. p' = advance ops dm p (concat (map items_of (drop i ts))) \<Longrightarrow>
      inv g' (acc @ concat (map items_of (drop i ts))) \<Longrightarrow>
      found root P p' (before st @ concat (map items_of ts)) zs (acc @ concat (map items_of (drop i ts)))
        (seek_loop dm P ag st p' True g')"
    and e: "se_tree e = Internal h s css ts" "(if asc then Suc (se_index e) else se_index e) = i"
      "\<not> asc \<Longrightarrow> se_position e = p"
  shows "found root P p (before st @ concat (map items_of (take i ts)))
    (concat (map items_of (drop i ts)) @ zs) acc (seek_loop dm P ag (e # st) p asc g)"
proof -
  let ?us = "drop i ts" and ?C = "concat (map items_of (take i ts))"
  have ts: "\<forall>t \<in> set ts. good ops (h - 1) t" "css = map st_summary ts" "0 < h"
    using path_to_wf [OF wf path] st_wf_internal [of ops h s css ts] by auto
  have us: "\<forall>t \<in> set ?us. good ops (h - 1) t" using ts(1) in_set_dropD by fast
  have ep: "(if asc then p else se_position e) = p" using e(3) by simp
  have loop: "seek_loop dm P ag (e # st) p asc g =
    (case seek_children dm P ag (zip ?us (map st_summary ?us)) i p p g of
       None \<Rightarrow> None
     | Some (index', entry_position', position', g', Some child_tree) \<Rightarrow>
         (case push_entry \<lparr>se_tree = child_tree, se_index = 0, se_position = position'\<rparr>
                 (e\<lparr>se_index := index', se_position := entry_position'\<rparr> # st) of
            None \<Rightarrow> None
          | Some stack' \<Rightarrow> seek_loop dm P ag stack' position' False g')
     | Some (index', entry_position', position', g', None) \<Rightarrow> seek_loop dm P ag st position' True g')"
    using e ep i ts(2) by (subst seek_loop.simps, cases asc) (simp_all add: drop_map Let_def)
  from seek_children_ok [OF us g past_mono_append(1) [OF m], of i p] show ?thesis
  proof (elim disjE exE conjE)
    fix j g1
    let ?B = "concat (map items_of (take j ?us))"
    let ?p = "advance ops dm p ?B" and ?t = "?us ! j"
    assume j: "j < length ?us" and run: "seek_children dm P ag (zip ?us (map st_summary ?us)) i p p g =
        Some (i + j, if j = 0 then p else ?p, ?p, g1, Some ?t)"
      and g1: "inv g1 (acc @ ?B)"
      and stop: "\<not> P (advance ops dm p (concat (map items_of (take (Suc j) ?us))))"
      and skip: "\<forall>zs. skipped ops dm P p (concat (map items_of ?us) @ zs) = ?B @ skipped ops dm P ?p (items_of ?t)"
    let ?e = "e\<lparr>se_index := i + j, se_position := ?p\<rparr>"
    have tj: "?t = ts ! (i + j)" "?t \<in> set ts" using j i by auto
    have tk: "concat (map items_of (take (i + j) ts)) = ?C @ ?B" by (simp only: take_add map_append concat_append)
    have path': "path_to ops dm root (?e # st) ?t"
      using path e(1) j tj p by (simp add: entry_before.simps tk)
    have t: "\<not> st_is_empty ?t" using tj(2) ts(1) by (auto simp: good_def)
    have tkj: "concat (map items_of (take (Suc j) ?us)) = ?B @ items_of ?t"
      using j by (simp add: take_Suc_conv_app_nth)
    have "concat (map items_of ?us) = ?B @ items_of ?t @ concat (map items_of (drop (Suc j) ?us))"
      using id_take_nth_drop [OF j] by (metis concat.simps(2) concat_append list.simps(9) map_append)
    then have m': "past_mono ops dm P ?p (items_of ?t)"
      using m past_mono_append by (metis append_assoc)
    have np: "\<not> P (advance ops dm ?p (items_of ?t))" using stop tkj by simp
    have "length (?e # st) < STACK_CAPACITY"
      using path_to_wf [OF wf path] cap ts(3) by simp
    then have "seek_loop dm P ag (e # st) p asc g =
        seek_loop dm P ag (\<lparr>se_tree = ?t, se_index = 0, se_position = ?p\<rparr> # ?e # st) ?p False g1"
      using loop run by (cases "j = 0") (simp_all add: push_entry_def)
    moreover have "before (?e # st) = before st @ ?C @ ?B"
      using e(1) by (simp add: entry_before.simps tk)
    moreover have "?p = advance ops dm (dim_zero dm) (before (?e # st))"
      using p e(1) by (simp add: entry_before.simps tk)
    ultimately show ?thesis
      using seek_descend [OF cap wf path' t _ g1 m' np] skip
      by (fastforce simp: found_def at_leaf_def)
  next
    fix g1 ep'
    assume "seek_children dm P ag (zip ?us (map st_summary ?us)) i p p g =
        Some (i + length ?us, ep', advance ops dm p (concat (map items_of ?us)), g1, None)"
      and g1: "inv g1 (acc @ concat (map items_of ?us))"
      and skip: "\<forall>zs. skipped ops dm P p (concat (map items_of ?us) @ zs) = concat (map items_of ?us) @
        skipped ops dm P (advance ops dm p (concat (map items_of ?us))) zs"
    then have "seek_loop dm P ag (e # st) p asc g =
        seek_loop dm P ag st (advance ops dm p (concat (map items_of ?us))) True g1"
      using loop by simp
    moreover have "concat (map items_of ts) = ?C @ concat (map items_of ?us)"
      by (metis append_take_drop_id concat_append map_append)
    ultimately show ?thesis
      using below [OF refl g1] skip [rule_format, of zs] by (intro found_shift) simp_all
  qed
qed

lemma seek_ascend:
  assumes cap: "st_height root < STACK_CAPACITY" and wf: "st_wf ops root"
  shows "path_to ops dm root st t \<Longrightarrow> p = advance ops dm (dim_zero dm) (before st @ items_of t) \<Longrightarrow>
    past_mono ops dm P p (after st) \<Longrightarrow> inv g acc \<Longrightarrow>
    found root P p (before st @ items_of t) (after st) acc (seek_loop dm P ag st p True g)"
proof (induction st arbitrary: t p g acc)
  case Nil
  then show ?case by (simp add: found_def seek_loop.simps)
next
  case (Cons e st)
  from Cons.prems(1) obtain h s css ts where e: "se_tree e = Internal h s css ts" "se_index e < length ts"
    "ts ! se_index e = t" "path_to ops dm root st (Internal h s css ts)" by (rule path_to_Cons)
  let ?i = "Suc (se_index e)"
  have tk: "concat (map items_of (take ?i ts)) = entry_before e @ items_of t"
    using e by (simp add: entry_before.simps take_Suc_conv_app_nth)
  have all: "concat (map items_of ts) = concat (map items_of (take ?i ts)) @ concat (map items_of (drop ?i ts))"
    by (metis append_take_drop_id concat_append map_append)
  have "found root P p (before st @ concat (map items_of (take ?i ts)))
      (concat (map items_of (drop ?i ts)) @ after st) acc (seek_loop dm P ag (e # st) p True g)"
  proof (rule seek_entry [OF cap wf e(4)])
    fix p' g'
    assume p': "p' = advance ops dm p (concat (map items_of (drop ?i ts)))"
      and g': "inv g' (acc @ concat (map items_of (drop ?i ts)))"
    have "p' = advance ops dm (dim_zero dm) (before st @ items_of (Internal h s css ts))"
      unfolding p' Cons.prems(2) items_of.simps all tk by simp
    moreover have "past_mono ops dm P p' (after st)"
      unfolding p' using Cons.prems(3) e(1) by (intro past_mono_append(2)) simp
    ultimately show "found root P p' (before st @ concat (map items_of ts)) (after st)
        (acc @ concat (map items_of (drop ?i ts))) (seek_loop dm P ag st p' True g')"
      using Cons.IH [OF e(4) _ _ g'] by simp
  qed (use Cons.prems e tk in auto)
  then show ?case using tk e(1) by simp
qed

text \<open>The same from the leaf the cursor stands at, and from the root.\<close>

lemma seek_leaf:
  assumes cap: "st_height root < STACK_CAPACITY" and wf: "st_wf ops root"
    and path: "path_to ops dm root st (Leaf s xs ss)" and e: "se_tree e = Leaf s xs ss" "se_index e \<le> length xs"
    and p: "p = advance ops dm (dim_zero dm) (before (e # st))"
    and m: "past_mono ops dm P p (drop (se_index e) xs @ after st)" and g: "inv g acc"
  shows "found root P p (before (e # st)) (drop (se_index e) xs @ after st) acc
    (seek_loop dm P ag (e # st) p asc g)"
proof -
  let ?i = "se_index e" and ?K = "skipped ops dm P p (drop (se_index e) xs)"
  have ss: "ss = map (so_summary ops) xs" "length xs \<le> CAPACITY" using path_to_wf [OF wf path] by auto
  have len: "length ([] :: 'a list) + length (drop ?i xs) \<le> CAPACITY" using ss(2) by (simp add: le_diff_conv)
  obtain g1 where g1: "seek_items dm P ag (zip (drop ?i xs) (drop ?i ss)) ?i p (ag_begin_leaf ag g) =
      Some (?i + length ?K, advance ops dm p ?K, g1, length ?K < length (drop ?i xs))" "inv_leaf g1 acc ?K"
    using seek_items_ok [OF begin_leaf [OF g] len, of P ?i p] ss(1) by (auto simp: drop_map)
  obtain g2 where g2: "ag_end_leaf ag g1 = Some g2" "inv g2 (acc @ ?K)" using end_leaf [OF g1(2)] by blast
  have loop: "seek_loop dm P ag (e # st) p asc g =
    (if length ?K < length (drop ?i xs) then Some (e\<lparr>se_index := ?i + length ?K\<rparr> # st, advance ops dm p ?K, g2)
     else seek_loop dm P ag st (advance ops dm p ?K) True g2)"
    using g1(1) g2(1) e ss by (subst seek_loop.simps) simp
  have bef: "before (e # st) = before st @ take ?i xs" using e by (simp add: entry_before.simps)
  show ?thesis
  proof (cases "length ?K < length (drop ?i xs)")
    case True
    have "\<not> P (advance ops dm p (drop ?i xs))"
      using skipped_all [OF past_mono_append(1) [OF m], of "[]"] True by auto
    then have "skipped ops dm P p (drop ?i xs @ after st) = ?K"
      using True by (intro skipped_stop) auto
    moreover have "take (?i + length ?K) xs = take ?i xs @ ?K"
      using skipped_take [of P p "drop ?i xs"] by (metis take_add)
    ultimately show ?thesis
      using True loop g2(2) path e(1) bef
      by (auto simp: found_def at_leaf_def entry_before.simps)
  next
    case False
    then have K: "?K = drop ?i xs" using skipped_take [of P p "drop ?i xs"] by simp
    have "skipped ops dm P p (drop ?i xs @ after st) =
        drop ?i xs @ skipped ops dm P (advance ops dm p (drop ?i xs)) (after st)"
    proof (cases "drop ?i xs = []")
      case nonempty: False
      have "P (advance ops dm p (drop ?i xs))"
        using skipped_less [OF nonempty, of P p] K by auto
      then show ?thesis using skipped_all [OF past_mono_append(1) [OF m]] by simp
    qed simp
    moreover have "found root P (advance ops dm p (drop ?i xs)) (before st @ items_of (Leaf s xs ss))
        (after st) (acc @ drop ?i xs) (seek_loop dm P ag st (advance ops dm p (drop ?i xs)) True g2)"
      by (rule seek_ascend [OF cap wf path])
        (use p bef g2(2) K past_mono_append(2) [OF m] in \<open>simp_all flip: advance_simps(3)\<close>)
    moreover have "take ?i xs @ drop ?i xs = xs" by simp
    ultimately show ?thesis
      using False loop K bef by (intro found_shift) simp_all
  qed
qed

lemma seek_root:
  assumes cap: "st_height root < STACK_CAPACITY" and wf: "st_wf ops root"
    and m: "past_mono ops dm P (dim_zero dm) (items_of root)" and g: "inv g acc"
  shows "found root P (dim_zero dm) [] (items_of root) acc
    (seek_loop dm P ag [\<lparr>se_tree = root, se_index = 0, se_position = dim_zero dm\<rparr>] (dim_zero dm) False g)"
proof (cases root)
  case (Leaf s xs ss)
  then show ?thesis
    using seek_leaf [OF cap wf, of "[]" s xs ss "\<lparr>se_tree = root, se_index = 0, se_position = dim_zero dm\<rparr>"
        "dim_zero dm" P g acc False] m g
    by (simp add: entry_before.simps)
next
  case (Internal h s css ts)
  have "found root P (dim_zero dm) (before ([] :: ('a, 's, 'd) stack_entry list) @ concat (map items_of (take 0 ts)))
      (concat (map items_of (drop 0 ts)) @ []) acc
      (seek_loop dm P ag [\<lparr>se_tree = root, se_index = 0, se_position = dim_zero dm\<rparr>] (dim_zero dm) False g)"
    by (rule seek_entry [OF cap wf, where st = "[]" and h = h and s = s and css = css])
      (use Internal m g in \<open>simp_all add: found_def seek_loop.simps\<close>)
  then show ?thesis using Internal by simp
qed

lemma seek_internal_ok:
  assumes cap: "st_height root < STACK_CAPACITY" and wf: "st_wf ops root" and c: "placed ops dm root k c"
    and m: "past_mono ops dm (past target bias) (cu_position c) (drop k (items_of root))"
    and target: "target (cu_position c) \<noteq> Less" and g: "inv g acc"
  shows "\<exists>c' g'. let K = skipped ops dm (past target bias) (cu_position c) (drop k (items_of root));
      k' = k + length K
    in seek_internal dm target bias ag c g =
        Some (c', target (advance ops dm (dim_zero dm)
          (take (if bias = Left \<and> k' < length (items_of root) then Suc k' else k') (items_of root))) = Equal, g') \<and>
      cursor_at ops dm root k' c' \<and> inv g' (acc @ K)"
proof -
  let ?P = "past target bias" and ?p = "cu_position c" and ?xs = "items_of root"
  let ?K = "skipped ops dm ?P ?p (drop k ?xs)"
  let ?st = "if cu_did_seek c then cu_stack c
    else [\<lparr>se_tree = root, se_index = 0, se_position = dim_zero dm\<rparr>]"
  have facts: "cu_tree c = root" "k \<le> length ?xs" "?p = advance ops dm (dim_zero dm) (take k ?xs)"
    "cu_did_seek c \<or> cu_stack c = []"
    using c by (auto simp: placed_def cursor_at_def)
  have "found root ?P ?p (take k ?xs) (drop k ?xs) acc (seek_loop dm ?P ag ?st ?p False g)"
  proof (cases "cu_did_seek c")
    case False
    then have "k = 0" "?p = dim_zero dm" using c by (auto simp: placed_def cursor_at_def)
    then show ?thesis using seek_root [OF cap wf _ g] m False by simp
  next
    case True
    then have at: "cursor_at ops dm root k c" using c by (auto simp: placed_def)
    show ?thesis
    proof (cases "k = length ?xs")
      case at_end: True
      then show ?thesis
        using at True g by (simp add: cursor_at_def found_def seek_loop.simps)
    next
      case False
      then have k: "k < length ?xs" "at_leaf ops dm root (cu_stack c) (take k ?xs)"
        using at facts(2) by (auto simp: cursor_at_def)
      from at_leaf_item [OF wf k(2,1)] obtain e below s xs where e: "cu_stack c = e # below"
        "se_tree e = Leaf s xs (map (so_summary ops) xs)" "se_index e < length xs"
        "path_to ops dm root below (Leaf s xs (map (so_summary ops) xs))"
        "before (cu_stack c) = take k ?xs" "drop (se_index e) xs @ after below = drop k ?xs" by metis
      have "found root ?P ?p (before (e # below)) (drop (se_index e) xs @ after below) acc
          (seek_loop dm ?P ag (e # below) ?p False g)"
        by (rule seek_leaf [OF cap wf e(4,2)]) (use e facts(3) m g in \<open>auto simp del: before.simps\<close>)
      then show ?thesis using True e by simp
    qed
  qed
  then obtain st' g' where r: "seek_loop dm ?P ag ?st ?p False g = Some (st', advance ops dm ?p ?K, g')"
    "inv g' (acc @ ?K)" "if st' = [] then ?K = drop k ?xs else at_leaf ops dm root st' (take k ?xs @ ?K)"
    by (auto simp: found_def)
  have tk: "take k ?xs @ ?K = take (k + length ?K) ?xs"
    using skipped_take [of ?P ?p "drop k ?xs"] by (metis take_add)
  have le: "k + length ?K \<le> length ?xs"
    using length_skipped [of ?P ?p "drop k ?xs"] facts(2) by simp
  define c' where "c' = c\<lparr>cu_stack := st', cu_position := advance ops dm ?p ?K, cu_did_seek := True,
    cu_at_end := (st' = [])\<rparr>"
  have pos: "advance ops dm ?p ?K = advance ops dm (dim_zero dm) (take (k + length ?K) ?xs)"
    using arg_cong [OF tk, of "advance ops dm (dim_zero dm)"] facts(3) by simp
  have at': "cursor_at ops dm root (k + length ?K) c'"
  proof (cases "st' = []")
    case True
    then have "k + length ?K = length ?xs" using r(3) facts(2) by simp
    then show ?thesis using True pos facts(1) by (simp add: cursor_at_def c'_def)
  next
    case False
    then have "at_leaf ops dm root st' (take (k + length ?K) ?xs)" using r(3) tk by simp
    then show ?thesis
      using at_leaf_less [of root st'] False pos facts(1) le
      by (fastforce simp: cursor_at_def c'_def)
  qed
  have st: "(if cu_did_seek c then Some (cu_stack c)
      else push_entry \<lparr>se_tree = cu_tree c, se_index = 0, se_position = dim_zero dm\<rparr> (cu_stack c)) = Some ?st"
    using facts(1,4) by (cases "cu_did_seek c") (simp_all add: push_entry_def STACK_CAPACITY_def)
  define k' where "k' = k + length ?K"
  have cp: "cu_position c' = advance ops dm ?p ?K" by (simp add: c'_def)
  have step: "seek_internal dm target bias ag c g =
    (case (if bias = Left then item_summary c' else Some None) of
       None \<Rightarrow> None
     | Some None \<Rightarrow> Some (c', target (cu_position c') = Equal, g')
     | Some (Some summary) \<Rightarrow> Some (c', target (dim_add dm (cu_position c') summary) = Equal, g'))"
    unfolding seek_internal_def st if_not_P [OF target] option.case r(1) prod.case Let_def c'_def [symmetric]
    by (simp only: cp)
  have "cu_position c' = advance ops dm (dim_zero dm) (take k' ?xs)" using at' by (simp add: cursor_at_def k'_def)
  then have "seek_internal dm target bias ag c g =
      Some (c', target (advance ops dm (dim_zero dm)
        (take (if bias = Left \<and> k' < length ?xs then Suc k' else k') ?xs)) = Equal, g')"
    unfolding step using cursor_at_item(2) [OF wf at' [folded k'_def]]
    by (cases bias) (simp_all add: nth_opt_def take_Suc_conv_app_nth)
  then show ?thesis unfolding Let_def using at' r(2) by (auto simp: k'_def)
qed

end

section \<open>The aggregates\<close>

definition slice_inv :: "('a, 's) summary_ops \<Rightarrow> ('a, 's) slice_state \<Rightarrow> 'a list \<Rightarrow> 'a list \<Rightarrow> bool" where
  "slice_inv ops g xs ys \<longleftrightarrow>
     st_wf ops (sl_tree g) \<and> items_of (sl_tree g) = xs \<and> length ys \<le> CAPACITY \<and>
     sl_leaf_items g = ys \<and> sl_leaf_item_summaries g = map (so_summary ops) ys \<and>
     sl_leaf_summary g = total ops ys"

sublocale dimension_laws \<subseteq> unit_seek: seek_laws ops dm unit_aggregate "\<lambda>_ _. True" "\<lambda>_ _ _. True"
  by unfold_locales (simp_all add: unit_aggregate_def)

sublocale dimension_laws \<subseteq> slice_seek:
  seek_laws ops dm "slice_aggregate ops" "\<lambda>g xs. slice_inv ops g xs []" "slice_inv ops"
proof unfold_locales
  fix g :: "('a, 's) slice_state" and xs ys :: "'a list" and y :: 'a and t :: "('a, 's) sum_tree" and h :: nat
  show "slice_inv ops g xs [] \<Longrightarrow> slice_inv ops (ag_begin_leaf (slice_aggregate ops) g) xs []"
    by (simp add: slice_aggregate_def)
  show "\<exists>g'. ag_end_leaf (slice_aggregate ops) g = Some g' \<and> slice_inv ops g' (xs @ ys) []"
    if "slice_inv ops g xs ys"
    using that append_tree_ok [of "sl_tree g" "Leaf (total ops ys) ys (map (so_summary ops) ys)"]
    by (auto simp: slice_aggregate_def slice_inv_def total_def sum_of_def)
  show "\<exists>g'. ag_push_item (slice_aggregate ops) g y (so_summary ops y) = Some g' \<and> slice_inv ops g' xs (ys @ [y])"
    if "slice_inv ops g xs ys" "length ys < CAPACITY"
    using that
    by (auto simp: slice_aggregate_def slice_inv_def array_vec_def total_def sum_of_def)
  show "\<exists>g'. ag_push_tree (slice_aggregate ops) g t (st_summary t) = Some g' \<and> slice_inv ops g' (xs @ items_of t) []"
    if "slice_inv ops g xs []" "good ops h t"
    using that append_tree_ok [of "sl_tree g" t]
    by (auto simp: slice_aggregate_def slice_inv_def good_def)
qed

context dimension_laws
begin

lemma summary_seek_laws:
  assumes "dimension_laws ops out"
  shows "seek_laws ops dm (summary_aggregate out) (\<lambda>g xs. g = advance ops out (dim_zero out) xs)
    (\<lambda>g xs ys. g = advance ops out (dim_zero out) (xs @ ys))"
  using dimension_laws.dim_add_summary [OF assms] dimension_laws.advance_simps [OF assms]
  by unfold_locales (simp_all add: summary_aggregate_def)

lemma skipped_all_past: "(\<And>d. P d) \<Longrightarrow> skipped ops dm P p xs = xs"
  by (induction xs arbitrary: p) (simp_all add: Let_def)

lemma placed_reset: "placed ops dm (cu_tree c) 0 (cursor_reset dm c)"
  by (simp add: placed_def cursor_reset_def)

lemma placed_new: "placed ops dm t 0 (cursor_new dm t)"
  by (simp add: placed_def cursor_new_def)

lemma placed_position:
  "placed ops dm root k c \<Longrightarrow> cu_position c = advance ops dm (dim_zero dm) (take k (items_of root))"
  by (auto simp: placed_def cursor_at_def)

lemma slice_ok:
  assumes "st_height root < STACK_CAPACITY" "st_wf ops root" "placed ops dm root k c"
    "past_mono ops dm (past target bias) (cu_position c) (drop k (items_of root))"
    "target (cu_position c) \<noteq> Less"
  shows "\<exists>c' t. slice ops dm target bias c = Some (c', t) \<and> st_wf ops t \<and>
    items_of t = skipped ops dm (past target bias) (cu_position c) (drop k (items_of root)) \<and>
    cursor_at ops dm root (k + length (items_of t)) c'"
proof -
  have "slice_inv ops \<lparr>sl_tree = st_new ops, sl_leaf_items = [], sl_leaf_item_summaries = [],
      sl_leaf_summary = so_zero ops\<rparr> [] []"
    using st_new_ok by (simp add: slice_inv_def total_def sum_of_def)
  from slice_seek.seek_internal_ok [OF assms this] show ?thesis
    by (auto simp: Let_def slice_def slice_inv_def)
qed

lemma suffix_ok:
  assumes "st_height root < STACK_CAPACITY" "st_wf ops root" "placed ops dm root k c"
  shows "\<exists>c' t. suffix ops dm c = Some (c', t) \<and> st_wf ops t \<and> items_of t = drop k (items_of root)"
proof -
  have P: "past end_target Right = (\<lambda>d :: 'd. True)" by (simp add: past_def end_target_def fun_eq_iff)
  have "past_mono ops dm (past end_target Right) (cu_position c) (drop k (items_of root))"
    by (simp add: past_mono_def P)
  from slice_ok [OF assms this] show ?thesis
    using skipped_all_past [of "past end_target Right"]
    by (auto simp: suffix_def end_target_def P)
qed

lemma seek_ok:
  assumes "st_height (cu_tree c) < STACK_CAPACITY" "st_wf ops (cu_tree c)"
    "past_mono ops dm (past target bias) (dim_zero dm) (items_of (cu_tree c))"
    "target (dim_zero dm) \<noteq> Less"
  shows "\<exists>c'. let K = skipped ops dm (past target bias) (dim_zero dm) (items_of (cu_tree c)); k = length K
    in seek dm target bias c = Some (c', target (advance ops dm (dim_zero dm)
        (take (if bias = Left \<and> k < length (items_of (cu_tree c)) then Suc k else k) (items_of (cu_tree c)))) = Equal) \<and>
      cursor_at ops dm (cu_tree c) k c'"
  using unit_seek.seek_internal_ok [OF assms(1,2) placed_reset] assms(3,4)
  by (auto simp: Let_def seek_def cursor_reset_def)

lemma seek_forward_ok:
  assumes "st_height root < STACK_CAPACITY" "st_wf ops root" "placed ops dm root k c"
    "past_mono ops dm (past target bias) (cu_position c) (drop k (items_of root))"
    "target (cu_position c) \<noteq> Less"
  shows "\<exists>c' b. seek_forward dm target bias c = Some (c', b) \<and>
    cursor_at ops dm root
      (k + length (skipped ops dm (past target bias) (cu_position c) (drop k (items_of root)))) c'"
  using unit_seek.seek_internal_ok [OF assms TrueI] by (auto simp: Let_def seek_forward_def)

lemma cursor_summary_ok:
  assumes "dimension_laws ops out"
    "st_height root < STACK_CAPACITY" "st_wf ops root" "placed ops dm root k c"
    "past_mono ops dm (past target bias) (cu_position c) (drop k (items_of root))"
    "target (cu_position c) \<noteq> Less"
  shows "\<exists>c'. cursor_summary dm out target bias c = Some (c', advance ops out (dim_zero out)
      (skipped ops dm (past target bias) (cu_position c) (drop k (items_of root)))) \<and>
    cursor_at ops dm root
      (k + length (skipped ops dm (past target bias) (cu_position c) (drop k (items_of root)))) c'"
proof -
  have "dim_zero out = advance ops out (dim_zero out) []" by (simp add: advance_def)
  from seek_laws.seek_internal_ok [OF summary_seek_laws [OF assms(1)] assms(2-6) this] show ?thesis
    by (auto simp: Let_def cursor_summary_def)
qed

end

section \<open>Correctness of seeking\<close>

text \<open>When a position lies before the target of a seek, the bias settling equality.\<close>

definition before_target :: "('d \<Rightarrow> ordering) \<Rightarrow> bias \<Rightarrow> 'd \<Rightarrow> bool" where
  "before_target target bias d \<longleftrightarrow>
     (case bias of Left \<Rightarrow> target d = Greater | Right \<Rightarrow> target d \<noteq> Less)"

lemma before_target_past: "before_target target bias = past target bias"
  by (auto simp: fun_eq_iff before_target_def past_def split: bias.splits intro: ordering.exhaust)

text \<open>
  C37. Seeking. In a well-formed tree no higher than the cursor's stack, for a target that is monotone
  along the items and not before the start of the tree (the code asserts that no seek goes backward), \<open>seek\<close> returns with the cursor at the first item whose end is not before the target
  (with the bias settling equality), its position being the dimension of all items before it; the
  result says whether the target was met exactly.
\<close>

theorem seek_spec:
  assumes "dimension_laws ops dm" and "st_wf ops (cu_tree c)" and "st_height (cu_tree c) < STACK_CAPACITY"
    and "past_mono ops dm (before_target target bias) (dim_zero dm) (items_of (cu_tree c))"
    and "target (dim_zero dm) \<noteq> Less"
  shows "\<exists>c'. let xs = items_of (cu_tree c);
      k = length (skipped ops dm (before_target target bias) (dim_zero dm) xs)
    in seek dm target bias c = Some (c', target (advance ops dm (dim_zero dm)
         (take (if bias = Left \<and> k < length xs then Suc k else k) xs)) = Equal) \<and>
       cursor_at ops dm (cu_tree c) k c' \<and>
       cursor_item c' = Some (nth_opt xs k) \<and>
       cursor_start c' = advance ops dm (dim_zero dm) (take k xs)"
proof -
  note past = assms(4) [unfolded before_target_past]
  obtain c' where c': "let K = skipped ops dm (past target bias) (dim_zero dm) (items_of (cu_tree c)); k = length K
    in seek dm target bias c = Some (c', target (advance ops dm (dim_zero dm)
        (take (if bias = Left \<and> k < length (items_of (cu_tree c)) then Suc k else k) (items_of (cu_tree c)))) = Equal) \<and>
      cursor_at ops dm (cu_tree c) k c'"
    using dimension_laws.seek_ok [OF assms(1,3,2) past assms(5)] by blast
  then show ?thesis
    using dimension_laws.cursor_at_item(1) [OF assms(1,2), of _ c']
    by (intro exI [of _ c']) (simp add: Let_def cursor_start_def cursor_at_def before_target_past)
qed

text \<open>
  \<open>slice\<close> returns, as a well-formed tree, exactly the items between the cursor and the target, and
  leaves the cursor behind them; \<open>summary\<close> returns their dimension.
\<close>

theorem slice_spec:
  assumes "dimension_laws ops dm" and "dimension_laws ops out"
    and "st_wf ops root" and "st_height root < STACK_CAPACITY" and "placed ops dm root k c"
    and "past_mono ops dm (before_target target bias) (cu_position c) (drop k (items_of root))"
    and "target (cu_position c) \<noteq> Less"
  shows "\<exists>c1 c2 t. let xs = skipped ops dm (before_target target bias) (cu_position c) (drop k (items_of root))
    in slice ops dm target bias c = Some (c1, t) \<and> st_wf ops t \<and> items_of t = xs \<and>
       cursor_at ops dm root (k + length xs) c1 \<and>
       cursor_summary dm out target bias c = Some (c2, advance ops out (dim_zero out) xs) \<and>
       cursor_at ops dm root (k + length xs) c2"
  using dimension_laws.slice_ok [OF assms(1,4,3,5-7) [unfolded before_target_past]]
    dimension_laws.cursor_summary_ok [OF assms(1,2,4,3,5-7) [unfolded before_target_past]]
  by (auto simp: Let_def before_target_past)

text \<open>The count of items as a dimension.\<close>

definition count_dim :: "(nat, nat) dimension" where
  "count_dim = \<lparr>dim_zero = 0, dim_add = (+)\<rparr>"

interpretation count: dimension_laws count_ops count_dim
  by unfold_locales (simp_all add: count_dim_def count_ops_def)

lemma count_simps: "dim_add count_dim a b = a + b" "so_summary count_ops x = 1"
  by (simp_all add: count_dim_def count_ops_def)

lemma count_advance: "advance count_ops count_dim p xs = p + length xs"
  by (induction xs arbitrary: p) (simp_all add: count_ops_def count_dim_def advance_def)

lemma count_mono: "past_mono count_ops count_dim (before_target (cmp n) b) p xs"
  by (auto simp: past_mono_def count_advance before_target_def cmp_def split: if_splits bias.splits)

definition two_items :: "(nat, nat) sum_tree" where
  "two_items = Leaf 2 [7, 8] [1, 1]"

lemma two_items_facts:
  "st_wf count_ops two_items" "st_height two_items < STACK_CAPACITY" "items_of two_items = [7, 8]"
  "cu_tree (cursor_new count_dim two_items) = two_items" "cu_position (cursor_new count_dim two_items) = 0"
  "dim_zero count_dim = 0" "skipped count_ops count_dim (before_target (cmp 1) Right) 0 [7, 8] = [7]"
  "cmp (1 :: nat) 0 = Greater" "cmp (1 :: nat) 1 = Equal"
  using example_leaf_wf [of 7 8]
  by (simp_all add: two_items_def cursor_new_def count_dim_def STACK_CAPACITY_def count_ops_def
      before_target_def cmp_def Let_def)

theorem seek_spec_witness:
  "\<exists>c'. seek count_dim (cmp 1) Right (cursor_new count_dim two_items) = Some (c', True) \<and>
     cursor_item c' = Some (Some 8)"
proof -
  have one: "length [7 :: nat] = 1" "nth_opt [7, 8 :: nat] 1 = Some 8" "take 1 [7, 8 :: nat] = [7]"
    "advance count_ops count_dim 0 [7] = 1"
    by (simp_all add: nth_opt_def count_advance)
  have "cmp (1 :: nat) 0 \<noteq> Less" by (simp add: cmp_def)
  from seek_spec [where c = "cursor_new count_dim two_items" and bias = Right and dm = count_dim
      and target = "cmp 1", unfolded two_items_facts(3-6),
      OF count.dimension_laws_axioms two_items_facts(1,2) count_mono this]
  show ?thesis unfolding Let_def two_items_facts(7) one by (auto simp: cmp_def count_simps)
qed

theorem slice_spec_witness:
  "\<exists>c1 c2 t. slice count_ops count_dim (cmp 1) Right (cursor_new count_dim two_items) = Some (c1, t) \<and>
     items_of t = [7] \<and>
     cursor_summary count_dim count_dim (cmp 1) Right (cursor_new count_dim two_items) = Some (c2, 1)"
proof -
  have "advance count_ops count_dim 0 [7] = 1" by (simp add: count_advance)
  then show ?thesis
    using slice_spec [OF count.dimension_laws_axioms count.dimension_laws_axioms two_items_facts(1,2)
        count.placed_new count_mono, of 1 Right]
    unfolding two_items_facts Let_def drop_0 by auto
qed

end
