(* ===== verification/Cursor_Step.thy ===== *)
theory Cursor_Step
  imports Cursor_Seek
begin

text \<open>
  Stepping with the cursor of \<open>crates/sum_tree/src/cursor.rs\<close>: \<open>search_forward\<close> goes to the next item the
  filter accepts, whole subtrees being rejected by their summaries; \<open>next\<close> is the case of a filter
  that accepts everything, and \<open>prev\<close> is its inverse.
\<close>

section \<open>Searching forward\<close>

definition rejected :: "('a, 's) summary_ops \<Rightarrow> ('s \<Rightarrow> bool) \<Rightarrow> 'a list \<Rightarrow> 'a list" where
  "rejected ops f xs = takeWhile (\<lambda>x. \<not> f (so_summary ops x)) xs"

text \<open>
  The result \<open>r\<close> of a loop that has \<open>rest\<close> in front of it: it stops at the first accepted item, or else
  goes on behind \<open>rest\<close>.
\<close>

definition forwarded ::
  "('a, 's) summary_ops \<Rightarrow> ('s, 'd) dimension \<Rightarrow> ('s \<Rightarrow> bool) \<Rightarrow> ('a, 's) sum_tree \<Rightarrow> 'd \<Rightarrow> 'a list \<Rightarrow> 'a list \<Rightarrow>
   ('d \<Rightarrow> (('a, 's, 'd) stack_entry list \<times> 'd) option) \<Rightarrow>
   (('a, 's, 'd) stack_entry list \<times> 'd) option \<Rightarrow> bool" where
  "forwarded ops dm f root p bef rest go_on r \<longleftrightarrow>
     (if rejected ops f rest = rest then r = go_on (advance ops dm p rest)
      else \<exists>st'. r = Some (st', advance ops dm p (rejected ops f rest)) \<and>
        at_leaf ops dm root st' (bef @ rejected ops f rest))"

text \<open>Where a cursor starts to look: behind the current item, or at the first one.\<close>

definition search_start :: "('a, 's, 'd) cursor \<Rightarrow> nat \<Rightarrow> nat" where
  "search_start c k = (if cu_did_seek c then min (Suc k) (length (items_of (cu_tree c))) else 0)"

lemma rejected_all_iff: "rejected ops f xs = xs \<longleftrightarrow> (\<forall>x \<in> set xs. \<not> f (so_summary ops x))"
  by (simp add: rejected_def takeWhile_eq_all_conv)

lemma rejected_append:
  "rejected ops f xs = xs \<Longrightarrow> rejected ops f (xs @ ys) = xs @ rejected ops f ys"
  "rejected ops f xs \<noteq> xs \<Longrightarrow> rejected ops f (xs @ ys) = rejected ops f xs"
  by (auto simp: rejected_all_iff) (auto simp: rejected_def)

text \<open>A summary filter rejects a subtree only if it rejects all its items.\<close>

locale filter_laws = dimension_laws ops dm
  for ops :: "('a, 's) summary_ops" and dm :: "('s, 'd) dimension" +
  fixes f :: "'s \<Rightarrow> bool"
  assumes accept_total: "x \<in> set xs \<Longrightarrow> f (so_summary ops x) \<Longrightarrow> f (total ops xs)"
begin

lemma forwarded_shift:
  assumes "rejected ops f xs = xs" "forwarded ops dm f root (advance ops dm p xs) (bef @ xs) rest go_on r"
  shows "forwarded ops dm f root p bef (xs @ rest) go_on r"
  using assms(2) rejected_append(1) [OF assms(1)] by (simp add: forwarded_def split: if_splits)

lemma forwarded_stop:
  assumes "rejected ops f xs \<noteq> xs" "forwarded ops dm f root p bef xs go_on r"
  shows "forwarded ops dm f root p bef (xs @ rest) go_on' r"
proof -
  have "rejected ops f (xs @ rest) \<noteq> xs @ rest"
    using assms(1) by (auto simp: rejected_all_iff)
  then show ?thesis
    using assms rejected_append(2) [OF assms(1)] by (simp add: forwarded_def)
qed

lemma skip_items:
  "skip_rejected dm f (map (so_summary ops) xs) i ep p =
     (i + length (rejected ops f xs), advance ops dm ep (rejected ops f xs), advance ops dm p (rejected ops f xs))"
  by (induction xs arbitrary: i ep p) (simp_all add: rejected_def)

lemma skip_children:
  assumes "\<forall>u \<in> set us. good ops h u"
  shows "\<exists>j \<le> length us. skip_rejected dm f (map st_summary us) i p p =
      (i + j, advance ops dm p (concat (map items_of (take j us))), advance ops dm p (concat (map items_of (take j us)))) \<and>
    rejected ops f (concat (map items_of (take j us))) = concat (map items_of (take j us))"
  using assms
proof (induction us arbitrary: i p)
  case (Cons u us)
  have u: "good ops h u" "st_summary u = total ops (items_of u)"
    using Cons.prems st_summary_total by (auto simp: good_def)
  show ?case
  proof (cases "f (st_summary u)")
    case True
    then show ?thesis by (intro exI [of _ 0]) (simp add: rejected_def)
  next
    case False
    then have "\<forall>x \<in> set (items_of u). \<not> f (so_summary ops x)" using accept_total u(2) by metis
    then have rej: "rejected ops f (items_of u) = items_of u" by (simp add: rejected_all_iff)
    have us: "\<forall>u \<in> set us. good ops h u" using Cons.prems by simp
    from Cons.IH [OF us, of "i + 1" "advance ops dm p (items_of u)"] obtain j where j: "j \<le> length us"
      "skip_rejected dm f (map st_summary us) (i + 1) (advance ops dm p (items_of u)) (advance ops dm p (items_of u)) =
        (i + 1 + j, advance ops dm (advance ops dm p (items_of u)) (concat (map items_of (take j us))),
          advance ops dm (advance ops dm p (items_of u)) (concat (map items_of (take j us))))"
      "rejected ops f (concat (map items_of (take j us))) = concat (map items_of (take j us))" by blast
    then show ?thesis
      using False rej dim_add_summary [OF u(1)] rejected_append(1) [OF rej]
      by (intro exI [of _ "Suc j"]) simp
  qed
qed (simp add: rejected_def)

text \<open>The loop at an inner node that is about to look at its child \<open>i\<close>.\<close>

lemma forward_children:
  assumes cap: "st_height root < STACK_CAPACITY" and wf: "st_wf ops root"
    and path: "path_to ops dm root st (Internal h s css ts)"
    and desc: "\<And>u st' p'. u \<in> set ts \<Longrightarrow> path_to ops dm root st' u \<Longrightarrow>
      p' = advance ops dm (dim_zero dm) (before st') \<Longrightarrow>
      forwarded ops dm f root p' (before st') (items_of u) (\<lambda>q. forward_loop dm f st' q False)
        (forward_loop dm f (\<lparr>se_tree = u, se_index = 0, se_position = p'\<rparr> # st') p' True)"
  shows "i \<le> length ts \<Longrightarrow> se_tree e = Internal h s css ts \<Longrightarrow>
    (if d then se_index e = i \<and> se_position e = p else Suc (se_index e) = i) \<Longrightarrow>
    p = advance ops dm (dim_zero dm) (before st @ concat (map items_of (take i ts))) \<Longrightarrow>
    forwarded ops dm f root p (before st @ concat (map items_of (take i ts)))
      (concat (map items_of (drop i ts))) (\<lambda>q. forward_loop dm f st q False)
      (forward_loop dm f (e # st) p d)"
proof (induction "length ts - i" arbitrary: i e d p rule: less_induct)
  case less
  have ts: "\<forall>t \<in> set ts. good ops (h - 1) t" "css = map st_summary ts" "0 < h"
    using path_to_wf [OF wf path] st_wf_internal [of ops h s css ts] by auto
  have us: "\<forall>t \<in> set (drop i ts). good ops (h - 1) t" using ts(1) in_set_dropD by fast
  obtain j where j: "j \<le> length (drop i ts)" and
    skip: "skip_rejected dm f (map st_summary (drop i ts)) i p p =
      (i + j, advance ops dm p (concat (map items_of (take j (drop i ts)))),
        advance ops dm p (concat (map items_of (take j (drop i ts)))))" and
    rej: "rejected ops f (concat (map items_of (take j (drop i ts)))) = concat (map items_of (take j (drop i ts)))"
    using skip_children [OF us] by blast
  let ?B = "concat (map items_of (take j (drop i ts)))"
  let ?p = "advance ops dm p ?B" and ?e = "e\<lparr>se_index := i + j, se_position := advance ops dm p ?B\<rparr>"
  have loop: "forward_loop dm f (e # st) p d =
    (case nth_opt ts (i + j) of
       Some subtree \<Rightarrow>
         (case push_entry \<lparr>se_tree = subtree, se_index = 0, se_position = ?p\<rparr> (?e # st) of
            None \<Rightarrow> None
          | Some stack' \<Rightarrow> forward_loop dm f stack' ?p True)
     | None \<Rightarrow> forward_loop dm f st ?p False)"
    using less.prems(2,3) skip ts(2)
    by (subst forward_loop.simps, cases d) (simp_all add: drop_map Let_def)
  show ?case
  proof (cases "i + j < length ts")
    case False
    then have "take j (drop i ts) = drop i ts" using j by simp
    then show ?thesis
      using False loop rej by (simp add: forwarded_def nth_opt_def)
  next
    case True
    let ?u = "ts ! (i + j)"
    have u: "?u \<in> set ts" using True by simp
    have tk: "concat (map items_of (take (i + j) ts)) = concat (map items_of (take i ts)) @ ?B"
      by (simp only: take_add map_append concat_append)
    have dr: "concat (map items_of (drop i ts)) = ?B @ items_of ?u @ concat (map items_of (drop (Suc (i + j)) ts))"
    proof -
      have "drop i ts = take j (drop i ts) @ ?u # drop (Suc (i + j)) ts"
        using id_take_nth_drop [of j "drop i ts"] True by (simp add: add.commute)
      then show ?thesis by (metis concat.simps(2) concat_append list.simps(9) map_append)
    qed
    have path': "path_to ops dm root (?e # st) ?u"
      using path less.prems(2,4) True by (simp add: entry_before.simps tk)
    have bef: "before (?e # st) = (before st @ concat (map items_of (take i ts))) @ ?B"
      using less.prems(2) by (simp add: entry_before.simps tk)
    have p': "?p = advance ops dm (dim_zero dm) (before (?e # st))"
      by (simp only: bef) (simp add: less.prems(4))
    have "length (?e # st) < STACK_CAPACITY" using path_to_wf [OF wf path] cap ts(3) by simp
    then have run: "forward_loop dm f (e # st) p d =
        forward_loop dm f (\<lparr>se_tree = ?u, se_index = 0, se_position = ?p\<rparr> # ?e # st) ?p True"
      using loop True by (simp add: nth_opt_def push_entry_def)
    have sub: "forwarded ops dm f root ?p ((before st @ concat (map items_of (take i ts))) @ ?B) (items_of ?u)
        (\<lambda>q. forward_loop dm f (?e # st) q False) (forward_loop dm f (e # st) p d)"
      using desc [OF u path' p'] unfolding bef run .
    show ?thesis
      unfolding dr
    proof (rule forwarded_shift [OF rej], cases "rejected ops f (items_of ?u) = items_of ?u")
      case False
      then show "forwarded ops dm f root ?p ((before st @ concat (map items_of (take i ts))) @ ?B)
          (items_of ?u @ concat (map items_of (drop (Suc (i + j)) ts)))
          (\<lambda>q. forward_loop dm f st q False) (forward_loop dm f (e # st) p d)"
        by (rule forwarded_stop [OF _ sub])
    next
      case all: True
      let ?q = "advance ops dm ?p (items_of ?u)"
      have tk': "concat (map items_of (take (Suc (i + j)) ts)) = concat (map items_of (take i ts)) @ ?B @ items_of ?u"
        using True tk by (simp add: take_Suc_conv_app_nth)
      have "forwarded ops dm f root ?q (before st @ concat (map items_of (take (Suc (i + j)) ts)))
          (concat (map items_of (drop (Suc (i + j)) ts))) (\<lambda>q. forward_loop dm f st q False)
          (forward_loop dm f (?e # st) ?q False)"
        by (rule less.hyps) (use True less.prems(2,4) tk' in auto)
      moreover have "forward_loop dm f (e # st) p d = forward_loop dm f (?e # st) ?q False"
        using sub all by (simp add: forwarded_def)
      ultimately show "forwarded ops dm f root ?p ((before st @ concat (map items_of (take i ts))) @ ?B)
          (items_of ?u @ concat (map items_of (drop (Suc (i + j)) ts)))
          (\<lambda>q. forward_loop dm f st q False) (forward_loop dm f (e # st) p d)"
        using tk' by (intro forwarded_shift [OF all]) simp
    qed
  qed
qed

lemma forward_descend:
  assumes cap: "st_height root < STACK_CAPACITY" and wf: "st_wf ops root"
  shows "path_to ops dm root st t \<Longrightarrow> p = advance ops dm (dim_zero dm) (before st) \<Longrightarrow>
    forwarded ops dm f root p (before st) (items_of t) (\<lambda>q. forward_loop dm f st q False)
      (forward_loop dm f (\<lparr>se_tree = t, se_index = 0, se_position = p\<rparr> # st) p True)"
proof (induction t arbitrary: st p)
  case (Leaf s xs ss)
  have ss: "ss = map (so_summary ops) xs" using path_to_wf [OF wf Leaf.prems(1)] by auto
  let ?R = "rejected ops f xs"
  have "length ?R \<le> length xs" by (simp add: rejected_def length_takeWhile_le)
  moreover have "?R = take (length ?R) xs" unfolding rejected_def by (rule takeWhile_eq_take)
  moreover have "forward_loop dm f (\<lparr>se_tree = Leaf s xs ss, se_index = 0, se_position = p\<rparr> # st) p True =
      (if length ?R < length xs
       then Some (\<lparr>se_tree = Leaf s xs ss, se_index = length ?R, se_position = advance ops dm p ?R\<rparr> # st,
         advance ops dm p ?R)
       else forward_loop dm f st (advance ops dm p ?R) False)"
    by (subst forward_loop.simps) (simp add: ss skip_items)
  ultimately show ?case
    using Leaf.prems(1)
    by (cases "length ?R < length xs") (auto simp: forwarded_def at_leaf_def entry_before.simps)
next
  case (Internal h s css ts)
  have "forwarded ops dm f root p (before st @ concat (map items_of (take 0 ts)))
      (concat (map items_of (drop 0 ts))) (\<lambda>q. forward_loop dm f st q False)
      (forward_loop dm f (\<lparr>se_tree = Internal h s css ts, se_index = 0, se_position = p\<rparr> # st) p True)"
    by (rule forward_children [OF cap wf Internal.prems(1)]) (use Internal in auto)
  then show ?case by simp
qed

lemma forward_ascend:
  assumes cap: "st_height root < STACK_CAPACITY" and wf: "st_wf ops root"
  shows "path_to ops dm root st t \<Longrightarrow> p = advance ops dm (dim_zero dm) (before st @ items_of t) \<Longrightarrow>
    forwarded ops dm f root p (before st @ items_of t) (after st) (\<lambda>q. Some ([], q)) (forward_loop dm f st p False)"
proof (induction st arbitrary: t p)
  case Nil
  then show ?case by (simp add: forwarded_def forward_loop.simps rejected_def)
next
  case (Cons e st)
  from Cons.prems(1) obtain h s css ts where e: "se_tree e = Internal h s css ts" "se_index e < length ts"
    "ts ! se_index e = t" "path_to ops dm root st (Internal h s css ts)" by (rule path_to_Cons)
  let ?i = "Suc (se_index e)" and ?R = "concat (map items_of (drop (Suc (se_index e)) ts))"
  have tk: "concat (map items_of (take ?i ts)) = entry_before e @ items_of t"
    using e by (simp add: entry_before.simps take_Suc_conv_app_nth)
  have all: "concat (map items_of ts) = concat (map items_of (take ?i ts)) @ ?R"
    by (metis append_take_drop_id concat_append map_append)
  have bef: "before (e # st) @ items_of t = before st @ concat (map items_of (take ?i ts))"
    using tk by simp
  have pp: "p = advance ops dm (dim_zero dm) (before st @ concat (map items_of (take ?i ts)))"
    unfolding Cons.prems(2) bef ..
  have here: "forwarded ops dm f root p (before st @ concat (map items_of (take ?i ts))) ?R
      (\<lambda>q. forward_loop dm f st q False) (forward_loop dm f (e # st) p False)"
    by (rule forward_children [OF cap wf e(4) forward_descend [OF cap wf]])
      (use e pp in \<open>simp_all add: Suc_leI\<close>)
  have aft: "after (e # st) = ?R @ after st" using e(1) by simp
  show ?case
    unfolding bef aft
  proof (cases "rejected ops f ?R = ?R")
    case False
    then show "forwarded ops dm f root p (before st @ concat (map items_of (take ?i ts))) (?R @ after st)
        (\<lambda>q. Some ([], q)) (forward_loop dm f (e # st) p False)"
      by (rule forwarded_stop [OF _ here])
  next
    case True
    have "advance ops dm p ?R = advance ops dm (dim_zero dm) (before st @ items_of (Internal h s css ts))"
      unfolding items_of.simps all Cons.prems(2) bef by simp
    from Cons.IH [OF e(4) this] have "forwarded ops dm f root (advance ops dm p ?R)
        ((before st @ concat (map items_of (take ?i ts))) @ ?R) (after st) (\<lambda>q. Some ([], q))
        (forward_loop dm f st (advance ops dm p ?R) False)"
      using all by simp
    moreover have "forward_loop dm f (e # st) p False = forward_loop dm f st (advance ops dm p ?R) False"
      using here True by (simp add: forwarded_def)
    ultimately show "forwarded ops dm f root p (before st @ concat (map items_of (take ?i ts))) (?R @ after st)
        (\<lambda>q. Some ([], q)) (forward_loop dm f (e # st) p False)"
      by (intro forwarded_shift [OF True]) simp
  qed
qed

text \<open>From the leaf of the current item.\<close>

lemma forward_leaf:
  assumes cap: "st_height root < STACK_CAPACITY" and wf: "st_wf ops root"
    and path: "path_to ops dm root st (Leaf s xs ss)" and e: "se_tree e = Leaf s xs ss" "se_index e < length xs"
    and p: "p = advance ops dm (dim_zero dm) (before (e # st))"
  shows "forwarded ops dm f root (advance ops dm p [xs ! se_index e]) (before (e # st) @ [xs ! se_index e])
    (drop (Suc (se_index e)) xs @ after st) (\<lambda>q. Some ([], q)) (forward_loop dm f (e # st) p False)"
proof -
  let ?i = "Suc (se_index e)" and ?x = "xs ! se_index e"
  let ?R = "rejected ops f (drop ?i xs)" and ?p = "advance ops dm p [xs ! se_index e]"
  have ss: "ss = map (so_summary ops) xs" using path_to_wf [OF wf path] by auto
  have le: "length ?R \<le> length (drop ?i xs)" unfolding rejected_def by (rule length_takeWhile_le)
  have tk: "?R = take (length ?R) (drop ?i xs)" unfolding rejected_def by (rule takeWhile_eq_take)
  have loop: "\<exists>ep. forward_loop dm f (e # st) p False =
      (if ?i + length ?R < length xs
       then Some (e\<lparr>se_index := ?i + length ?R, se_position := ep\<rparr> # st, advance ops dm ?p ?R)
       else forward_loop dm f st (advance ops dm ?p ?R) False)"
    using e by (subst forward_loop.simps) (simp add: ss skip_items drop_map nth_opt_def, blast)
  have bef: "before (e # st) @ [?x] = before st @ take ?i xs"
    using e by (simp add: entry_before.simps take_Suc_conv_app_nth)
  show ?thesis
  proof (cases "?i + length ?R < length xs")
    case True
    then have "?R \<noteq> drop ?i xs" by (metis add_diff_inverse_nat e(2) length_drop less_irrefl not_less_eq)
    moreover have "take (?i + length ?R) xs = take ?i xs @ ?R" using tk by (metis take_add)
    ultimately have "forwarded ops dm f root ?p (before (e # st) @ [?x]) (drop ?i xs) (\<lambda>q. Some ([], q))
        (forward_loop dm f (e # st) p False)"
      using loop True path e(1) bef by (auto simp: forwarded_def at_leaf_def entry_before.simps)
    then show ?thesis using \<open>?R \<noteq> drop ?i xs\<close> by (rule forwarded_stop [rotated])
  next
    case False
    then have R: "?R = drop ?i xs" using tk le e(2) by simp
    have q: "advance ops dm ?p (drop ?i xs) = advance ops dm (dim_zero dm) (before st @ items_of (Leaf s xs ss))"
      using p bef by (metis advance_simps(3) append_assoc append_take_drop_id items_of.simps(1))
    have "forward_loop dm f (e # st) p False = forward_loop dm f st (advance ops dm ?p (drop ?i xs)) False"
      using loop False R by auto
    moreover have "(before (e # st) @ [?x]) @ drop ?i xs = before st @ items_of (Leaf s xs ss)"
      unfolding bef by simp
    ultimately show ?thesis
      using forward_ascend [OF cap wf path q] by (intro forwarded_shift [OF R]) simp
  qed
qed

lemma forwarded_end:
  assumes "forwarded ops dm f root (advance ops dm (dim_zero dm) (take k xs)) (take k xs) (drop k xs)
      (\<lambda>q. Some ([], q)) r" and "k \<le> length xs"
  shows "\<exists>st'. r = Some (st', advance ops dm (dim_zero dm) (take (k + length (rejected ops f (drop k xs))) xs)) \<and>
    (if k + length (rejected ops f (drop k xs)) = length xs then st' = []
     else at_leaf ops dm root st' (take (k + length (rejected ops f (drop k xs))) xs))"
proof -
  let ?R = "rejected ops f (drop k xs)"
  have R: "?R = take (length ?R) (drop k xs)" unfolding rejected_def by (rule takeWhile_eq_take)
  have tk: "take k xs @ ?R = take (k + length ?R) xs" using R by (metis take_add)
  show ?thesis
  proof (cases "?R = drop k xs")
    case True
    then have "k + length ?R = length xs" using assms(2) by simp
    then show ?thesis using assms(1) True by (auto simp: forwarded_def simp flip: advance_simps(3))
  next
    case False
    then have "k + length ?R \<noteq> length xs"
      using R assms(2) by (metis diff_add_inverse length_drop take_all order.refl)
    then show ?thesis
      using assms(1) False tk by (auto simp: forwarded_def simp flip: advance_simps(3))
  qed
qed

lemma forward_run:
  assumes cap: "st_height root < STACK_CAPACITY" and wf: "st_wf ops root" and c: "placed ops dm root k c"
    and k0: "k0 = search_start c k"
  shows "\<exists>st'. forward_loop dm f (if cu_stack c = [] \<and> \<not> cu_at_end c
        then [\<lparr>se_tree = cu_tree c, se_index = 0, se_position = dim_zero dm\<rparr>] else cu_stack c)
        (cu_position c) (cu_stack c = [] \<and> \<not> cu_at_end c) =
      Some (st', advance ops dm (dim_zero dm)
        (take (k0 + length (rejected ops f (drop k0 (items_of root)))) (items_of root))) \<and>
    (if k0 + length (rejected ops f (drop k0 (items_of root))) = length (items_of root) then st' = []
     else at_leaf ops dm root st'
       (take (k0 + length (rejected ops f (drop k0 (items_of root)))) (items_of root)))"
proof -
  let ?xs = "items_of root"
  have tree: "cu_tree c = root" and kle: "k0 \<le> length ?xs"
    using c by (auto simp: placed_def cursor_at_def k0 search_start_def)
  note fwd = forwarded_end [OF _ kle]
  consider (fresh) "\<not> cu_did_seek c" "root = root" | (at_end) "cu_did_seek c" "k = length ?xs"
    | (item) "cu_did_seek c" "k < length ?xs"
    using c by (fastforce simp: placed_def cursor_at_def)
  then show ?thesis
  proof cases
    case fresh
    then have k: "k = 0" "cu_position c = dim_zero dm" "cu_stack c = []" "cu_at_end c = st_is_empty root"
      "k0 = 0"
      using c by (auto simp: placed_def cursor_at_def k0 search_start_def)
    show ?thesis
    proof (cases "st_is_empty root")
      case True
      then have "?xs = []" using st_is_empty_iff [OF wf] by simp
      then show ?thesis
        using k True by (simp add: forward_loop.simps rejected_def)
    next
      case False
      have "forwarded ops dm f root (dim_zero dm) (before ([] :: ('a, 's, 'd) stack_entry list)) ?xs
          (\<lambda>q. forward_loop dm f [] q False)
          (forward_loop dm f [\<lparr>se_tree = root, se_index = 0, se_position = dim_zero dm\<rparr>] (dim_zero dm) True)"
        by (rule forward_descend [OF cap wf]) simp_all
      then have "forwarded ops dm f root (dim_zero dm) [] ?xs (\<lambda>q. Some ([], q))
          (forward_loop dm f [\<lparr>se_tree = root, se_index = 0, se_position = dim_zero dm\<rparr>] (dim_zero dm) True)"
        by (simp add: forward_loop.simps [of _ _ "[]"])
      then show ?thesis using fwd k False tree by simp
    qed
  next
    case at_end
    then have "cu_stack c = []" "cu_at_end c" "cu_position c = advance ops dm (dim_zero dm) ?xs" "k0 = length ?xs"
      using c by (auto simp: placed_def cursor_at_def k0 search_start_def)
    then show ?thesis by (simp add: forward_loop.simps rejected_def)
  next
    case item
    then have at: "cursor_at ops dm root k c" "k0 = Suc k"
      using c tree by (auto simp: placed_def k0 search_start_def)
    then have lf: "at_leaf ops dm root (cu_stack c) (take k ?xs)" "\<not> cu_at_end c"
      "cu_position c = advance ops dm (dim_zero dm) (take k ?xs)"
      using item by (auto simp: cursor_at_def)
    from at_leaf_item [OF wf lf(1) item(2)] obtain e below s xs where e: "cu_stack c = e # below"
      "se_tree e = Leaf s xs (map (so_summary ops) xs)" "se_index e < length xs"
      "path_to ops dm root below (Leaf s xs (map (so_summary ops) xs))"
      "before (cu_stack c) = take k ?xs" "xs ! se_index e = ?xs ! k"
      "drop (se_index e) xs @ after below = drop k ?xs" by metis
    have rest: "drop (Suc (se_index e)) xs @ after below = drop (Suc k) ?xs"
      using e(3,7) item(2) by (metis Cons_nth_drop_Suc append_Cons list.inject)
    have bef: "before (e # below) @ [xs ! se_index e] = take (Suc k) ?xs"
      using e(1,5,6) item(2) by (simp add: take_Suc_conv_app_nth)
    have "forwarded ops dm f root (advance ops dm (cu_position c) [xs ! se_index e])
        (before (e # below) @ [xs ! se_index e]) (drop (Suc (se_index e)) xs @ after below)
        (\<lambda>q. Some ([], q)) (forward_loop dm f (e # below) (cu_position c) False)"
      by (rule forward_leaf [OF cap wf e(4,2,3)]) (use e(1,5) lf(3) in simp)
    moreover have "advance ops dm (cu_position c) [xs ! se_index e] = advance ops dm (dim_zero dm) (take (Suc k) ?xs)"
      using lf(3) e(6) item(2) by (simp add: take_Suc_conv_app_nth)
    ultimately show ?thesis using fwd rest bef at(2) e(1) by simp
  qed
qed

lemma search_forward_ok:
  assumes cap: "st_height root < STACK_CAPACITY" and wf: "st_wf ops root" and c: "placed ops dm root k c"
  shows "\<exists>c'. search_forward dm f c = Some c' \<and>
    cursor_at ops dm root
      (search_start c k + length (rejected ops f (drop (search_start c k) (items_of root)))) c'"
proof -
  let ?xs = "items_of root" and ?k0 = "search_start c k"
  define k' where "k' = ?k0 + length (rejected ops f (drop ?k0 ?xs))"
  obtain st' where st': "forward_loop dm f (if cu_stack c = [] \<and> \<not> cu_at_end c
        then [\<lparr>se_tree = cu_tree c, se_index = 0, se_position = dim_zero dm\<rparr>] else cu_stack c)
        (cu_position c) (cu_stack c = [] \<and> \<not> cu_at_end c) =
      Some (st', advance ops dm (dim_zero dm) (take k' ?xs))"
    "if k' = length ?xs then st' = [] else at_leaf ops dm root st' (take k' ?xs)"
    using forward_run [OF cap wf c refl] unfolding k'_def by blast
  define c' where "c' = c\<lparr>cu_stack := st', cu_position := advance ops dm (dim_zero dm) (take k' ?xs),
    cu_did_seek := (cu_did_seek c \<or> cu_stack c = []), cu_at_end := (if st' = [] then True else cu_at_end c)\<rparr>"
  have "search_forward dm f c = Some c'"
    unfolding search_forward_def Let_def st'(1) by (simp add: c'_def)
  moreover have "cursor_at ops dm root k' c'"
  proof (cases "k' = length ?xs")
    case True
    then show ?thesis
      using st'(2) c by (auto simp: cursor_at_def c'_def placed_def)
  next
    case False
    then have lf: "at_leaf ops dm root st' (take k' ?xs)" using st'(2) by simp
    then have "st' \<noteq> []" "k' < length ?xs" "0 < length ?xs"
      using at_leaf_less [OF lf] False by (auto simp: at_leaf_def)
    moreover have "\<not> cu_at_end c"
      using c False \<open>0 < length ?xs\<close> st_is_empty_iff [OF wf]
      by (auto simp: placed_def cursor_at_def k'_def search_start_def rejected_def split: if_splits)
    ultimately show ?thesis
      using lf c by (auto simp: cursor_at_def c'_def placed_def)
  qed
  ultimately show ?thesis unfolding k'_def by blast
qed

end

end
