(* ===== verification/Cursor_Back.thy ===== *)
theory Cursor_Back
  imports Cursor_Step
begin

text \<open>
  Stepping back with the cursor of \<open>crates/sum_tree/src/cursor.rs\<close>: \<open>search_backward\<close> goes to the last
  accepted item before the cursor, or in front of the first item. \<open>next\<close> and \<open>prev\<close> are the case of
  a filter that accepts everything.
\<close>

section \<open>Searching backward\<close>

definition all_rejected :: "('a, 's) summary_ops \<Rightarrow> ('s \<Rightarrow> bool) \<Rightarrow> 'a list \<Rightarrow> bool" where
  "all_rejected ops f xs \<longleftrightarrow> (\<forall>x \<in> set xs. \<not> f (so_summary ops x))"

text \<open>The items in front of the last accepted one.\<close>

definition to_last_accepted :: "('a, 's) summary_ops \<Rightarrow> ('s \<Rightarrow> bool) \<Rightarrow> 'a list \<Rightarrow> 'a list" where
  "to_last_accepted ops f xs = rev (tl (dropWhile (\<lambda>x. \<not> f (so_summary ops x)) (rev xs)))"

lemma to_last_accepted_simps:
  "all_rejected ops f zs \<Longrightarrow> to_last_accepted ops f (ys @ zs) = to_last_accepted ops f ys"
  "\<not> all_rejected ops f zs \<Longrightarrow> to_last_accepted ops f (ys @ zs) = ys @ to_last_accepted ops f zs"
  "f (so_summary ops x) \<Longrightarrow> to_last_accepted ops f (ys @ [x]) = ys"
proof -
  show "all_rejected ops f zs \<Longrightarrow> to_last_accepted ops f (ys @ zs) = to_last_accepted ops f ys"
    unfolding to_last_accepted_def all_rejected_def rev_append by (subst dropWhile_append2) simp_all
  assume "\<not> all_rejected ops f zs"
  then obtain z where z: "z \<in> set (rev zs)" "f (so_summary ops z)" by (auto simp: all_rejected_def)
  then have "dropWhile (\<lambda>x. \<not> f (so_summary ops x)) (rev zs) \<noteq> []" by (simp add: dropWhile_eq_Nil_conv) blast
  then show "to_last_accepted ops f (ys @ zs) = ys @ to_last_accepted ops f zs"
    using z by (simp add: to_last_accepted_def dropWhile_append1)
qed (simp add: to_last_accepted_def)

text \<open>
  The result \<open>r\<close> of a loop that has \<open>ys\<close> behind it, and \<open>bef\<close> behind these: it stops at the last accepted
  item, or else goes on with \<open>r0\<close>.
\<close>

definition backed ::
  "('a, 's) summary_ops \<Rightarrow> ('s, 'd) dimension \<Rightarrow> ('s \<Rightarrow> bool) \<Rightarrow> ('a, 's) sum_tree \<Rightarrow>
   (('a, 's, 'd) stack_entry list \<times> 'd) option \<Rightarrow> 'a list \<Rightarrow> 'a list \<Rightarrow>
   (('a, 's, 'd) stack_entry list \<times> 'd) option \<Rightarrow> bool" where
  "backed ops dm f root r0 bef ys r \<longleftrightarrow>
     (if all_rejected ops f ys then r = r0
      else \<exists>st'. r = Some (st', advance ops dm (dim_zero dm) (bef @ to_last_accepted ops f ys)) \<and>
        at_leaf ops dm root st' (bef @ to_last_accepted ops f ys))"

lemma backed_shift:
  assumes "all_rejected ops f zs" "backed ops dm f root r0 bef ys r"
  shows "backed ops dm f root r0 bef (ys @ zs) r"
proof -
  have "all_rejected ops f (ys @ zs) = all_rejected ops f ys" using assms(1) by (auto simp: all_rejected_def)
  then show ?thesis using assms(2) unfolding backed_def to_last_accepted_simps(1) [OF assms(1)] by simp
qed

lemma backed_stop:
  assumes "\<not> all_rejected ops f zs" "backed ops dm f root r0 (bef @ ys) zs r"
  shows "backed ops dm f root r0' bef (ys @ zs) r"
proof -
  have "\<not> all_rejected ops f (ys @ zs)" using assms(1) by (auto simp: all_rejected_def)
  then show ?thesis
    using assms unfolding backed_def to_last_accepted_simps(2) [OF assms(1)] by simp
qed

text \<open>The loop recomputes the position from the entry below the top.\<close>

definition base_position :: "('s, 'd) dimension \<Rightarrow> ('a, 's, 'd) stack_entry list \<Rightarrow> 'd" where
  "base_position dm below = (case below of parent # _ \<Rightarrow> se_position parent | [] \<Rightarrow> dim_zero dm)"

lemma path_to_base:
  "path_to ops dm root below t \<Longrightarrow> base_position dm below = advance ops dm (dim_zero dm) (before below)"
  by (cases below) (auto simp: base_position_def advance_def)

lemma backward_pop:
  "se_index e = 0 \<Longrightarrow> backward_loop dm f (e # below) p False = backward_loop dm f below (base_position dm below) False"
  by (subst backward_loop.simps) (simp add: base_position_def Let_def)

lemma backward_descending:
  assumes "0 < n" "se_index e = n - 1" "n \<le> length (child_summaries (se_tree e))"
  shows "backward_loop dm f (e # below) p True = backward_loop dm f (e\<lparr>se_index := n\<rparr> # below) q False"
  using assms by (subst (1 2) backward_loop.simps) (auto simp: Let_def)

context filter_laws
begin

lemma rejected_child:
  "good ops h t \<Longrightarrow> \<not> f (st_summary t) \<Longrightarrow> all_rejected ops f (items_of t)"
  using accept_total st_summary_total by (metis all_rejected_def good_def)

lemma foldl_summaries:
  "\<forall>t \<in> set ts. good ops h t \<Longrightarrow>
     foldl (dim_add dm) p (map st_summary ts) = advance ops dm p (concat (map items_of ts))"
  by (induction ts arbitrary: p) (simp_all add: dim_add_summary [where h = h])

lemma foldl_item_summaries: "foldl (dim_add dm) p (map (so_summary ops) xs) = advance ops dm p xs"
  by (induction xs arbitrary: p) (simp_all add: advance_def)

lemma backward_leaf:
  assumes "path_to ops dm root below (Leaf s xs (map (so_summary ops) xs))"
  shows "se_tree e = Leaf s xs (map (so_summary ops) xs) \<Longrightarrow> se_index e \<le> length xs \<Longrightarrow>
    backed ops dm f root (backward_loop dm f below (base_position dm below) False) (before below)
      (entry_before e) (backward_loop dm f (e # below) p False)"
proof (induction "se_index e" arbitrary: e p)
  case 0
  then show ?case
    using backward_pop [of e] by (simp add: backed_def all_rejected_def entry_before.simps)
next
  case (Suc i)
  let ?e = "e\<lparr>se_index := i, se_position := advance ops dm (base_position dm below) (take i xs)\<rparr>"
  let ?p = "advance ops dm (base_position dm below) (take i xs)"
  have i: "i < length xs" "se_index e - 1 = i" "se_index e = Suc i" using Suc by auto
  have eb: "entry_before e = entry_before ?e @ [xs ! i]" "entry_before ?e = take i xs"
    using Suc(2,3) i by (simp_all add: entry_before.simps take_Suc_conv_app_nth flip: Suc(2))
  have loop: "backward_loop dm f (e # below) p False =
      (if f (so_summary ops (xs ! i)) then Some (?e # below, ?p) else backward_loop dm f (?e # below) ?p False)"
    using Suc(3) i foldl_item_summaries
    by (subst backward_loop.simps) (simp add: Let_def take_map base_position_def)
  show ?case
  proof (cases "f (so_summary ops (xs ! i))")
    case True
    then have "to_last_accepted ops f (entry_before e) = take i xs" "\<not> all_rejected ops f (entry_before e)"
      unfolding eb by (simp_all add: to_last_accepted_simps(3) all_rejected_def)
    moreover have "at_leaf ops dm root (?e # below) (before below @ take i xs)"
      using assms Suc(3) i(1) by (simp add: at_leaf_def entry_before.simps)
    ultimately show ?thesis
      using loop True path_to_base [OF assms] by (simp add: backed_def)
  next
    case False
    have "backed ops dm f root (backward_loop dm f below (base_position dm below) False) (before below)
        (entry_before ?e) (backward_loop dm f (?e # below) ?p False)"
      using Suc(3) i by (intro Suc.hyps(1)) simp_all
    then show ?thesis
      unfolding eb(1) loop using False by (intro backed_shift) (simp_all add: all_rejected_def)
  qed
qed

lemma backward_children:
  assumes cap: "st_height root < STACK_CAPACITY" and wf: "st_wf ops root"
    and path: "path_to ops dm root below (Internal h s css ts)"
    and sub: "\<And>u st' e p. u \<in> set ts \<Longrightarrow> path_to ops dm root st' u \<Longrightarrow> se_tree e = u \<Longrightarrow>
      se_index e \<le> length (child_summaries u) \<Longrightarrow>
      backed ops dm f root (backward_loop dm f st' (base_position dm st') False) (before st')
        (entry_before e) (backward_loop dm f (e # st') p False)"
  shows "se_tree e = Internal h s css ts \<Longrightarrow> se_index e \<le> length ts \<Longrightarrow>
    backed ops dm f root (backward_loop dm f below (base_position dm below) False) (before below)
      (entry_before e) (backward_loop dm f (e # below) p False)"
proof (induction "se_index e" arbitrary: e p)
  case 0
  then show ?case
    using backward_pop [of e] by (simp add: backed_def all_rejected_def entry_before.simps)
next
  case (Suc i)
  have ts: "\<forall>t \<in> set ts. good ops (h - 1) t" "css = map st_summary ts" "0 < h"
    using path_to_wf [OF wf path] st_wf_internal [of ops h s css ts] by auto
  let ?P = "advance ops dm (base_position dm below) (concat (map items_of (take i ts)))"
  let ?e = "e\<lparr>se_index := i, se_position := ?P\<rparr>" and ?u = "ts ! i"
  have i: "i < length ts" "se_index e - 1 = i" "se_index e = Suc i" using Suc by auto
  have u: "?u \<in> set ts" "good ops (h - 1) ?u" using i(1) ts(1) by simp_all
  have pos: "foldl (dim_add dm) (base_position dm below) (map st_summary (take i ts)) = ?P"
    using ts(1) by (intro foldl_summaries) (auto dest: in_set_takeD)
  have eb: "entry_before e = entry_before ?e @ items_of ?u" "entry_before ?e = concat (map items_of (take i ts))"
    using Suc(3) i by (simp_all add: entry_before.simps take_Suc_conv_app_nth)
  have path': "path_to ops dm root (?e # below) ?u"
    using path Suc(3) i(1) eb(2) path_to_base [OF path] by simp
  have IH: "backed ops dm f root (backward_loop dm f below (base_position dm below) False) (before below)
      (entry_before ?e) (backward_loop dm f (?e # below) q False)" for q
    using Suc(3) i by (intro Suc.hyps(1)) simp_all
  have len: "length (?e # below) < STACK_CAPACITY" using path_to_wf [OF wf path] cap ts(3) by simp
  let ?c = "\<lparr>se_tree = ?u, se_index = length (child_summaries ?u) - 1, se_position = dim_zero dm\<rparr>"
  have cs: "child_summaries ?u \<noteq> []"
    using u(2) by (cases ?u) (auto simp: good_def)
  have loop: "backward_loop dm f (e # below) p False =
      (if f (st_summary ?u) then backward_loop dm f (?c # ?e # below) ?P True
       else backward_loop dm f (?e # below) ?P False)"
    using Suc(3) i ts(2) pos len cs
    by (subst backward_loop.simps)
      (simp add: Let_def take_map push_entry_def nth_opt_def base_position_def)
  show ?case
  proof (cases "f (st_summary ?u)")
    case False
    then show ?thesis
      unfolding eb(1) loop using IH rejected_child [OF u(2) False] by (simp add: backed_shift)
  next
    case True
    let ?d = "?c\<lparr>se_index := length (child_summaries ?u)\<rparr>"
    have d: "entry_before ?d = items_of ?u"
      using u(2) by (cases ?u) (auto simp: good_def entry_before.simps)
    have "backward_loop dm f (e # below) p False = backward_loop dm f (?d # ?e # below) ?P False"
      using loop True cs backward_descending [of "length (child_summaries ?u)" ?c] by simp
    moreover have "backed ops dm f root (backward_loop dm f (?e # below) (base_position dm (?e # below)) False)
        (before (?e # below)) (items_of ?u) (backward_loop dm f (?d # ?e # below) ?P False)"
      using sub [OF u(1) path', of ?d] d by simp
    ultimately have b: "backed ops dm f root (backward_loop dm f (?e # below) (base_position dm (?e # below)) False)
        (before below @ entry_before ?e) (items_of ?u) (backward_loop dm f (e # below) p False)"
      by simp
    show ?thesis
    proof (cases "all_rejected ops f (items_of ?u)")
      case True
      have "backward_loop dm f (e # below) p False =
          backward_loop dm f (?e # below) (base_position dm (?e # below)) False"
        using b True by (simp add: backed_def)
      then show ?thesis unfolding eb(1) using IH by (simp add: backed_shift [OF True])
    next
      case False
      then show ?thesis unfolding eb(1) by (rule backed_stop [OF _ b])
    qed
  qed
qed

lemma backward_entry:
  assumes cap: "st_height root < STACK_CAPACITY" and wf: "st_wf ops root"
  shows "path_to ops dm root below t \<Longrightarrow> se_tree e = t \<Longrightarrow> se_index e \<le> length (child_summaries t) \<Longrightarrow>
    backed ops dm f root (backward_loop dm f below (base_position dm below) False) (before below)
      (entry_before e) (backward_loop dm f (e # below) p False)"
proof (induction t arbitrary: below e p)
  case (Leaf s xs ss)
  have ss: "ss = map (so_summary ops) xs" using path_to_wf [OF wf Leaf.prems(1)] by auto
  then show ?case using Leaf.prems by (intro backward_leaf [where s = s and xs = xs]) simp_all
next
  case (Internal h s css ts)
  have "css = map st_summary ts" using path_to_wf [OF wf Internal.prems(1)] by auto
  then show ?case
    using Internal.prems by (intro backward_children [OF cap wf Internal.prems(1) Internal.IH]) simp_all
qed

lemma backward_ascend:
  assumes cap: "st_height root < STACK_CAPACITY" and wf: "st_wf ops root"
  shows "path_to ops dm root below t \<Longrightarrow>
    backed ops dm f root (Some ([], dim_zero dm)) [] (before below)
      (backward_loop dm f below (base_position dm below) False)"
proof (induction below arbitrary: t)
  case Nil
  then show ?case
    by (simp add: backed_def all_rejected_def backward_loop.simps base_position_def)
next
  case (Cons e below)
  from Cons.prems obtain h s css ts where e: "se_tree e = Internal h s css ts" "se_index e < length ts"
    "path_to ops dm root below (Internal h s css ts)" by (rule path_to_Cons)
  have "css = map st_summary ts" using path_to_wf [OF wf e(3)] by auto
  then have b: "backed ops dm f root (backward_loop dm f below (base_position dm below) False) (before below)
      (entry_before e) (backward_loop dm f (e # below) (base_position dm (e # below)) False)"
    using e by (intro backward_entry [OF cap wf e(3) e(1)]) simp
  show ?case
  proof (cases "all_rejected ops f (entry_before e)")
    case True
    then show ?thesis
      using b Cons.IH [OF e(3)] unfolding before.simps by (intro backed_shift) (simp_all add: backed_def)
  next
    case False
    then show ?thesis using b unfolding before.simps by (intro backed_stop) simp_all
  qed
qed

text \<open>A loop that starts at a leaf, or at the root behind all items.\<close>

lemma backward_run:
  assumes cap: "st_height root < STACK_CAPACITY" and wf: "st_wf ops root"
    and path: "path_to ops dm root below (se_tree e)" and i: "se_index e \<le> length (child_summaries (se_tree e))"
  shows "backed ops dm f root (Some ([], dim_zero dm)) [] (before (e # below)) (backward_loop dm f (e # below) p False)"
proof -
  note b = backward_entry [OF cap wf path refl i, of p]
  show ?thesis
  proof (cases "all_rejected ops f (entry_before e)")
    case True
    then show ?thesis
      using b backward_ascend [OF cap wf path] unfolding before.simps
      by (intro backed_shift) (simp_all add: backed_def)
  next
    case False
    then show ?thesis using b unfolding before.simps by (intro backed_stop) simp_all
  qed
qed

end

text \<open>A cursor in front of the first item; in an empty tree it is also behind the last.\<close>

definition in_front :: "('s, 'd) dimension \<Rightarrow> ('a, 's) sum_tree \<Rightarrow> ('a, 's, 'd) cursor \<Rightarrow> bool" where
  "in_front dm root c \<longleftrightarrow> cu_tree c = root \<and> cu_did_seek c \<and> cu_stack c = [] \<and>
     cu_position c = dim_zero dm \<and> cu_at_end c = st_is_empty root"

text \<open>Where a cursor starts to look back: a cursor that has not moved starts behind the last item.\<close>

definition back_start :: "('a, 's, 'd) cursor \<Rightarrow> nat \<Rightarrow> nat" where
  "back_start c k = (if cu_did_seek c then k else length (items_of (cu_tree c)))"

definition backed_cursor ::
  "('a, 's) summary_ops \<Rightarrow> ('s, 'd) dimension \<Rightarrow> ('s \<Rightarrow> bool) \<Rightarrow> ('a, 's) sum_tree \<Rightarrow> 'a list \<Rightarrow>
   ('a, 's, 'd) cursor \<Rightarrow> bool" where
  "backed_cursor ops dm f root bef c' \<longleftrightarrow>
     (if all_rejected ops f bef then in_front dm root c'
      else cursor_at ops dm root (length (to_last_accepted ops f bef)) c')"

lemma to_last_accepted_prefix: "\<exists>ys. xs = to_last_accepted ops f xs @ ys"
proof -
  have "rev xs = takeWhile (\<lambda>x. \<not> f (so_summary ops x)) (rev xs) @ dropWhile (\<lambda>x. \<not> f (so_summary ops x)) (rev xs)"
    by simp
  moreover have "\<exists>zs. ys = zs @ tl ys" for ys :: "'a list" by (cases ys) auto
  ultimately obtain zs where "rev xs = zs @ tl (dropWhile (\<lambda>x. \<not> f (so_summary ops x)) (rev xs))"
    by (metis append_assoc)
  then have "xs = rev (zs @ tl (dropWhile (\<lambda>x. \<not> f (so_summary ops x)) (rev xs)))" by (metis rev_rev_ident)
  then show ?thesis unfolding to_last_accepted_def by (metis rev_append)
qed

lemma to_last_accepted_take: "to_last_accepted ops f (take k xs) = take (length (to_last_accepted ops f (take k xs))) xs"
proof -
  obtain ys where ys: "take k xs = to_last_accepted ops f (take k xs) @ ys" using to_last_accepted_prefix by blast
  then have "xs = to_last_accepted ops f (take k xs) @ ys @ drop k xs"
    by (metis append_assoc append_take_drop_id)
  then show ?thesis by (metis append_eq_conv_conj)
qed

context filter_laws
begin

lemma backed_at:
  assumes "backed ops dm f root (Some ([], dim_zero dm)) [] (take k (items_of root)) r" "\<not> st_is_empty root"
    "cu_tree c = root"
  shows "\<exists>st p. r = Some (st, p) \<and> backed_cursor ops dm f root (take k (items_of root))
    (c\<lparr>cu_stack := st, cu_position := p, cu_did_seek := True, cu_at_end := False\<rparr>)"
proof (cases "all_rejected ops f (take k (items_of root))")
  case True
  then show ?thesis using assms by (simp add: backed_def backed_cursor_def in_front_def)
next
  case False
  let ?ys = "to_last_accepted ops f (take k (items_of root))"
  obtain st where st: "r = Some (st, advance ops dm (dim_zero dm) ?ys)" "at_leaf ops dm root st ?ys"
    using assms(1) False by (auto simp: backed_def)
  have "length ?ys < length (items_of root)" by (rule at_leaf_less [OF st(2)])
  moreover have "take (length ?ys) (items_of root) = ?ys" using to_last_accepted_take [of ops f k] by simp
  ultimately show ?thesis using st False assms(3) by (auto simp: backed_cursor_def cursor_at_def)
qed

lemma search_backward_ok:
  assumes cap: "st_height root < STACK_CAPACITY" and wf: "st_wf ops root" and c: "placed ops dm root k c"
  shows "\<exists>c'. search_backward dm f c = Some c' \<and>
    backed_cursor ops dm f root (take (back_start c k) (items_of root)) c'"
proof -
  let ?xs = "items_of root"
  have tree: "cu_tree c = root" using c by (auto simp: placed_def cursor_at_def)
  consider (empty) "st_is_empty root" | (behind) "\<not> st_is_empty root" "cu_stack c = []" "\<not> cu_did_seek c \<or> cu_at_end c"
      "back_start c k = length ?xs"
    | (item) "\<not> st_is_empty root" "cu_did_seek c" "k < length ?xs"
    using c by (fastforce simp: placed_def cursor_at_def back_start_def)
  then show ?thesis
  proof cases
    case empty
    then have "?xs = []" "cu_stack c = []" "cu_did_seek c \<Longrightarrow> cu_at_end c"
      using st_is_empty_iff [OF wf] c by (auto simp: placed_def cursor_at_def)
    then show ?thesis
      using empty tree
      by (simp add: search_backward_def Let_def backward_loop.simps backed_cursor_def all_rejected_def in_front_def)
  next
    case behind
    let ?e = "\<lparr>se_tree = root, se_index = length (child_summaries root),
      se_position = from_summary_dim dm (st_summary root)\<rparr>"
    have "before [?e] = take (length ?xs) ?xs"
      using wf by (cases root) (auto simp: entry_before.simps)
    then have b: "backed ops dm f root (Some ([], dim_zero dm)) [] (take (length ?xs) ?xs)
        (backward_loop dm f [?e] (dim_zero dm) False)"
      using backward_run [OF cap wf, of "[]" ?e] by (simp del: before.simps)
    obtain st p where "backward_loop dm f [?e] (dim_zero dm) False = Some (st, p)"
      "backed_cursor ops dm f root (take (length ?xs) ?xs)
        (c\<lparr>cu_stack := st, cu_position := p, cu_did_seek := True, cu_at_end := False\<rparr>)"
      using backed_at [OF b behind(1) tree] by blast
    then show ?thesis
      using behind tree by (auto simp: search_backward_def Let_def push_entry_def STACK_CAPACITY_def)
  next
    case item
    then have at: "cursor_at ops dm root k c" "back_start c k = k" "\<not> cu_at_end c"
      "at_leaf ops dm root (cu_stack c) (take k ?xs)"
      using c by (auto simp: placed_def back_start_def cursor_at_def)
    from at_leaf_item [OF wf at(4) item(3)] obtain e below s xs where e: "cu_stack c = e # below"
      "se_tree e = Leaf s xs (map (so_summary ops) xs)" "se_index e < length xs"
      "path_to ops dm root below (Leaf s xs (map (so_summary ops) xs))"
      "before (cu_stack c) = take k ?xs" by metis
    have b: "backed ops dm f root (Some ([], dim_zero dm)) [] (take k ?xs)
        (backward_loop dm f (cu_stack c) (cu_position c) False)"
      using backward_run [OF cap wf, of below e] e by (simp del: before.simps)
    obtain st p where "backward_loop dm f (cu_stack c) (cu_position c) False = Some (st, p)"
      "backed_cursor ops dm f root (take k ?xs)
        (c\<lparr>cu_stack := st, cu_position := p, cu_did_seek := True, cu_at_end := False\<rparr>)"
      using backed_at [OF b item(1) tree] by blast
    then show ?thesis
      using item(2) at(2,3) by (auto simp: search_backward_def Let_def)
  qed
qed

lemma search_forward_front:
  assumes "st_height root < STACK_CAPACITY" "st_wf ops root" "in_front dm root c"
  shows "\<exists>c'. search_forward dm f c = Some c' \<and>
    cursor_at ops dm root (length (rejected ops f (items_of root))) c'"
proof -
  let ?c = "c\<lparr>cu_did_seek := False\<rparr>"
  have "search_forward dm f c = search_forward dm f ?c"
    using assms(3) by (auto simp: search_forward_def in_front_def Let_def split: option.splits)
  moreover have "placed ops dm root 0 ?c" using assms(3) by (simp add: placed_def in_front_def)
  ultimately show ?thesis
    using search_forward_ok [OF assms(1,2), of 0 ?c] by (simp add: search_start_def)
qed

lemma search_backward_front:
  assumes "st_wf ops root" "in_front dm root c"
  shows "search_backward dm f c = Some c"
  using assms by (auto simp: search_backward_def in_front_def Let_def backward_loop.simps)

end

subsection \<open>Stepping one item\<close>

lemma rejected_none [simp]: "rejected ops (\<lambda>_. True) xs = []"
  by (cases xs) (simp_all add: rejected_def)

sublocale dimension_laws \<subseteq> every: filter_laws ops dm "\<lambda>_. True"
  by unfold_locales simp

context dimension_laws
begin

lemma cursor_next_ok:
  assumes "st_height root < STACK_CAPACITY" "st_wf ops root" "placed ops dm root k c"
  shows "\<exists>c'. cursor_next dm c = Some c' \<and> cursor_at ops dm root (search_start c k) c'"
  using every.search_forward_ok [OF assms] by (simp add: cursor_next_def rejected_none)

lemma cursor_next_front:
  assumes "st_height root < STACK_CAPACITY" "st_wf ops root" "in_front dm root c"
  shows "\<exists>c'. cursor_next dm c = Some c' \<and> cursor_at ops dm root 0 c'"
  using every.search_forward_front [OF assms] by (simp add: cursor_next_def)

lemma cursor_prev_ok:
  assumes "st_height root < STACK_CAPACITY" "st_wf ops root" "placed ops dm root k c"
  shows "\<exists>c'. cursor_prev dm c = Some c' \<and>
    (if back_start c k = 0 then in_front dm root c' else cursor_at ops dm root (back_start c k - 1) c')"
proof -
  have le: "back_start c k \<le> length (items_of root)"
    using assms(3) by (auto simp: back_start_def placed_def cursor_at_def)
  obtain c' where c': "cursor_prev dm c = Some c'"
    "backed_cursor ops dm (\<lambda>_. True) root (take (back_start c k) (items_of root)) c'"
    using every.search_backward_ok [OF assms] by (auto simp: cursor_prev_def)
  moreover have "all_rejected ops (\<lambda>_. True) (take (back_start c k) (items_of root)) \<longleftrightarrow> back_start c k = 0"
    using le by (auto simp: all_rejected_def)
  moreover have "length (to_last_accepted ops (\<lambda>_. True) ys) = length ys - 1" for ys :: "'a list"
    by (simp add: to_last_accepted_def dropWhile_eq_self_iff)
  ultimately show ?thesis using le by (auto simp: backed_cursor_def split: if_splits)
qed

end

end
