(* ===== verification/Iterators.thy ===== *)
theory Iterators
  imports Cursor_Back
begin

text \<open>
  The iterators of \<open>crates/sum_tree/src/cursor.rs\<close> (\<open>Iter\<close>, the cursor as an iterator, \<open>FilterCursor\<close>) and
  the operations of \<open>sum_tree.rs\<close> that walk over all items. Collecting an iterator ends and gives
  the items in order, of a filter cursor those the filter accepts.
\<close>

section \<open>Iterators\<close>

text \<open>\<open>Iter::next\<close>: the loop returns with the entry of the item on the top, or with an empty stack.\<close>

partial_function (option) iter_loop ::
  "('a, 's, unit) stack_entry list \<Rightarrow> bool \<Rightarrow> (('a, 's, unit) stack_entry list \<times> 'a option) option" where
  "iter_loop stack descend =
     (case stack of
        [] \<Rightarrow> Some ([], None)
      | entry # below \<Rightarrow>
          (let index = (if descend then se_index entry else se_index entry + 1);
               entry' = entry\<lparr>se_index := index\<rparr>
           in case se_tree entry of
                Internal _ _ _ trees \<Rightarrow>
                  (case nth_opt trees index of
                     Some subtree \<Rightarrow>
                       (case push_entry \<lparr>se_tree = subtree, se_index = 0, se_position = ()\<rparr> (entry' # below) of
                          None \<Rightarrow> None
                        | Some stack' \<Rightarrow> iter_loop stack' True)
                   | None \<Rightarrow> iter_loop below False)
              | Leaf _ items _ \<Rightarrow>
                  (case nth_opt items index of
                     Some item \<Rightarrow> Some (entry' # below, Some item)
                   | None \<Rightarrow> iter_loop below False)))"

record ('a, 's) iter =
  it_tree :: "('a, 's) sum_tree"
  it_stack :: "('a, 's, unit) stack_entry list"

definition iter_new :: "('a, 's) sum_tree \<Rightarrow> ('a, 's) iter" where
  "iter_new t = \<lparr>it_tree = t, it_stack = []\<rparr>"

definition iter_next :: "('a, 's) iter \<Rightarrow> ('a option \<times> ('a, 's) iter) option" where
  "iter_next it =
     (let fresh = (it_stack it = []);
          stack = (if fresh then [\<lparr>se_tree = it_tree it, se_index = 0, se_position = ()\<rparr>] else it_stack it)
      in map_option (\<lambda>(stack', item). (item, it\<lparr>it_stack := stack'\<rparr>)) (iter_loop stack fresh))"

text \<open>\<open>Iterator for FilterCursor\<close>; \<open>Iterator for Cursor\<close> is the same with \<open>next\<close> for \<open>search_forward\<close>.\<close>

definition filter_iter_next ::
  "('s, 'd) dimension \<Rightarrow> ('s \<Rightarrow> bool) \<Rightarrow> ('a, 's, 'd) cursor \<Rightarrow> ('a option \<times> ('a, 's, 'd) cursor) option" where
  "filter_iter_next dm filter_node c =
     do {
       c1 \<leftarrow> (if cu_did_seek c then Some c else search_forward dm filter_node c);
       item \<leftarrow> cursor_item c1;
       case item of
         Some x \<Rightarrow> map_option (\<lambda>c2. (Some x, c2)) (search_forward dm filter_node c1)
       | None \<Rightarrow> Some (None, c1)
     }"

definition cursor_iter_next ::
  "('s, 'd) dimension \<Rightarrow> ('a, 's, 'd) cursor \<Rightarrow> ('a option \<times> ('a, 's, 'd) cursor) option" where
  "cursor_iter_next dm c =
     do {
       c1 \<leftarrow> (if cu_did_seek c then Some c else cursor_next dm c);
       item \<leftarrow> cursor_item c1;
       case item of
         Some x \<Rightarrow> map_option (\<lambda>c2. (Some x, c2)) (cursor_next dm c1)
       | None \<Rightarrow> Some (None, c1)
     }"

text \<open>A \<open>for\<close> loop or \<open>collect\<close> over an iterator; the loop may not end, which is \<open>None\<close>.\<close>

partial_function (option) collect_iter :: "('i \<Rightarrow> ('a option \<times> 'i) option) \<Rightarrow> 'i \<Rightarrow> 'a list option" where
  "collect_iter step it =
     (case step it of
        None \<Rightarrow> None
      | Some (None, _) \<Rightarrow> Some []
      | Some (Some x, it') \<Rightarrow> Option.bind (collect_iter step it') (\<lambda>xs. Some (x # xs)))"

section \<open>Walking over a tree\<close>

definition unit_dim :: "('s, unit) dimension" where
  "unit_dim = \<lparr>dim_zero = (), dim_add = (\<lambda>_ _. ())\<rparr>"

text \<open>The loop of \<open>SumTree::items\<close>, from a cursor that has moved to the first item.\<close>

definition items_step :: "('a, 's, unit) cursor \<Rightarrow> ('a option \<times> ('a, 's, unit) cursor) option" where
  "items_step c =
     (case cursor_item c of
        None \<Rightarrow> None
      | Some None \<Rightarrow> Some (None, c)
      | Some (Some x) \<Rightarrow> map_option (\<lambda>c'. (Some x, c')) (cursor_next unit_dim c))"

definition st_items :: "('a, 's) sum_tree \<Rightarrow> 'a list option" where
  "st_items t =
     (case cursor_next unit_dim (cursor_new unit_dim t) of
        None \<Rightarrow> None
      | Some c \<Rightarrow> collect_iter items_step c)"

definition iter_items :: "('a, 's) sum_tree \<Rightarrow> 'a list option" where
  "iter_items t = collect_iter iter_next (iter_new t)"

definition st_eq :: "('a, 's) sum_tree \<Rightarrow> ('a, 's) sum_tree \<Rightarrow> bool option" where
  "st_eq self other =
     do { xs \<leftarrow> iter_items self; ys \<leftarrow> iter_items other; Some (xs = ys) }"

section \<open>Correctness\<close>

lemma collect_iter_Some:
  assumes "\<And>i it. i < length xs \<Longrightarrow> P i it \<Longrightarrow> \<exists>it'. step it = Some (Some (xs ! i), it') \<and> P (Suc i) it'"
    and "\<And>it. P (length xs) it \<Longrightarrow> \<exists>it'. step it = Some (None, it')"
    and "P k it" "k \<le> length xs"
  shows "collect_iter step it = Some (drop k xs)"
  using assms(3,4)
proof (induction "length xs - k" arbitrary: k it)
  case 0
  then show ?case using assms(2) [of it] by (subst collect_iter.simps) auto
next
  case (Suc n)
  then have k: "k < length xs" by simp
  obtain it' where it': "step it = Some (Some (xs ! k), it')" "P (Suc k) it'" using assms(1) [OF k Suc.prems(1)] by blast
  have "collect_iter step it' = Some (drop (Suc k) xs)"
    using Suc.hyps(2) k it'(2) by (intro Suc.hyps(1)) simp_all
  then show ?case using it'(1) k by (subst collect_iter.simps) (simp add: Cons_nth_drop_Suc)
qed

subsection \<open>Cursors and filter cursors\<close>

lemma filter_skip_rejected:
  "filter (\<lambda>x. f (so_summary ops x)) (drop (length (rejected ops f ys)) ys) = filter (\<lambda>x. f (so_summary ops x)) ys"
proof -
  have "ys = rejected ops f ys @ drop (length (rejected ops f ys)) ys"
    unfolding rejected_def by (metis append_take_drop_id takeWhile_eq_take)
  moreover have "filter (\<lambda>x. f (so_summary ops x)) (rejected ops f ys) = []"
    unfolding rejected_def by (auto simp: filter_empty_conv dest: set_takeWhileD)
  ultimately show ?thesis by (metis append_Nil filter_append)
qed

definition accepted_at :: "('a, 's) summary_ops \<Rightarrow> ('s \<Rightarrow> bool) \<Rightarrow> 'a list \<Rightarrow> nat \<Rightarrow> bool" where
  "accepted_at ops f xs k \<longleftrightarrow> (case nth_opt xs k of None \<Rightarrow> True | Some x \<Rightarrow> f (so_summary ops x))"

lemma accepted_at_skip: "accepted_at ops f xs (k + length (rejected ops f (drop k xs)))"
proof (cases "k + length (rejected ops f (drop k xs)) < length xs")
  case True
  let ?ys = "drop k xs"
  have "length (rejected ops f ?ys) < length ?ys" using True by simp
  then have "f (so_summary ops (?ys ! length (rejected ops f ?ys)))"
    using nth_length_takeWhile unfolding rejected_def by blast
  then show ?thesis using True by (simp add: accepted_at_def nth_opt_def)
qed (simp add: accepted_at_def nth_opt_def)

context filter_laws
begin

lemma filter_iter_seeked:
  assumes cap: "st_height root < STACK_CAPACITY" and wf: "st_wf ops root"
  shows "cursor_at ops dm root k c \<Longrightarrow> accepted_at ops f (items_of root) k \<Longrightarrow>
    collect_iter (filter_iter_next dm f) c =
      Some (filter (\<lambda>x. f (so_summary ops x)) (drop k (items_of root)))"
proof (induction "length (items_of root) - k" arbitrary: k c rule: less_induct)
  case less
  let ?xs = "items_of root"
  have seek: "cu_did_seek c" "k \<le> length ?xs" "placed ops dm root k c" "cu_tree c = root"
    using less.prems(1) by (auto simp: cursor_at_def placed_def)
  note item = cursor_at_item(1) [OF wf less.prems(1)]
  show ?case
  proof (cases "k < length ?xs")
    case False
    then have "filter_iter_next dm f c = Some (None, c)"
      using seek(1) item by (simp add: filter_iter_next_def nth_opt_def)
    then show ?thesis using False by (subst collect_iter.simps) simp
  next
    case True
    let ?ys = "drop (Suc k) ?xs"
    define k' where "k' = Suc k + length (rejected ops f ?ys)"
    have k: "search_start c k = Suc k" using True seek by (simp add: search_start_def)
    obtain c' where c': "search_forward dm f c = Some c'" "cursor_at ops dm root k' c'"
      using search_forward_ok [OF cap wf seek(3)] unfolding k k'_def by blast
    have x: "f (so_summary ops (?xs ! k))" "nth_opt ?xs k = Some (?xs ! k)"
      using less.prems(2) True by (auto simp: nth_opt_def accepted_at_def)
    have step: "filter_iter_next dm f c = Some (Some (?xs ! k), c')"
      using seek(1) item x(2) c'(1) by (simp add: filter_iter_next_def)
    have acc: "accepted_at ops f ?xs k'" unfolding k'_def by (rule accepted_at_skip)
    have "collect_iter (filter_iter_next dm f) c' = Some (filter (\<lambda>x. f (so_summary ops x)) (drop k' ?xs))"
      using True by (intro less.hyps [OF _ c'(2) acc]) (simp add: k'_def)
    moreover have "filter (\<lambda>x. f (so_summary ops x)) (drop k' ?xs) = filter (\<lambda>x. f (so_summary ops x)) ?ys"
      using filter_skip_rejected [of f ops ?ys] by (simp add: k'_def add.commute)
    ultimately show ?thesis
      using step x(1) True by (subst collect_iter.simps) (simp flip: Cons_nth_drop_Suc)
  qed
qed

lemma filter_iter_new:
  assumes cap: "st_height t < STACK_CAPACITY" and wf: "st_wf ops t"
  shows "collect_iter (filter_iter_next dm f) (cursor_new dm t) =
    Some (filter (\<lambda>x. f (so_summary ops x)) (items_of t))"
proof -
  let ?k = "length (rejected ops f (items_of t))"
  have new: "\<not> cu_did_seek (cursor_new dm t)" "search_start (cursor_new dm t) 0 = 0"
    by (simp_all add: cursor_new_def search_start_def)
  obtain c where c: "search_forward dm f (cursor_new dm t) = Some c" "cursor_at ops dm t ?k c"
    using search_forward_ok [OF cap wf placed_new] new(2) by auto
  have "filter_iter_next dm f (cursor_new dm t) = filter_iter_next dm f c"
    using new(1) c by (simp add: filter_iter_next_def cursor_at_def)
  then have "collect_iter (filter_iter_next dm f) (cursor_new dm t) = collect_iter (filter_iter_next dm f) c"
    by (subst (1 2) collect_iter.simps) simp
  then show ?thesis
    using filter_iter_seeked [OF cap wf c(2)] accepted_at_skip [of ops f "items_of t" 0]
      filter_skip_rejected [of f ops "items_of t"]
    by simp
qed

end

lemma cursor_iter_filter: "cursor_iter_next dm = filter_iter_next dm (\<lambda>_. True)"
  by (intro ext) (simp only: cursor_iter_next_def filter_iter_next_def cursor_next_def)

context dimension_laws
begin

text \<open>The cursor as an iterator gives the items from its place on.\<close>

lemma cursor_iter_ok:
  assumes "st_height root < STACK_CAPACITY" "st_wf ops root" "cursor_at ops dm root k c"
  shows "collect_iter (cursor_iter_next dm) c = Some (drop k (items_of root))"
  using every.filter_iter_seeked [OF assms] unfolding cursor_iter_filter
  by (simp add: accepted_at_def split: option.splits)

end

lemma unit_dimension_laws: "summary_laws ops \<Longrightarrow> dimension_laws ops unit_dim"
  by (simp add: dimension_laws_def dimension_laws_axioms_def unit_dim_def)

context summary_laws
begin

lemma st_items_ok:
  assumes "st_height t < STACK_CAPACITY" "st_wf ops t"
  shows "st_items t = Some (items_of t)"
proof -
  note D = unit_dimension_laws [OF summary_laws_axioms]
  have new: "search_start (cursor_new unit_dim t) 0 = 0" by (simp add: cursor_new_def search_start_def)
  obtain c where c: "cursor_next unit_dim (cursor_new unit_dim t) = Some c" "cursor_at ops unit_dim t 0 c"
    using dimension_laws.cursor_next_ok [OF D assms dimension_laws.placed_new [OF D]] new by auto
  have "collect_iter items_step c = Some (drop 0 (items_of t))"
  proof (rule collect_iter_Some [where P = "cursor_at ops unit_dim t"])
    fix i c
    assume i: "i < length (items_of t)" "cursor_at ops unit_dim t i c"
    then have st: "search_start c i = Suc i" by (simp add: search_start_def cursor_at_def)
    have "placed ops unit_dim t i c" using i(2) by (simp add: placed_def)
    from dimension_laws.cursor_next_ok [OF D assms this]
    show "\<exists>c'. items_step c = Some (Some (items_of t ! i), c') \<and> cursor_at ops unit_dim t (Suc i) c'"
      using dimension_laws.cursor_at_item(1) [OF D assms(2) i(2)] i(1) st
      by (auto simp: items_step_def nth_opt_def)
  next
    fix c
    assume "cursor_at ops unit_dim t (length (items_of t)) c"
    from dimension_laws.cursor_at_item(1) [OF D assms(2) this]
    show "\<exists>c'. items_step c = Some (None, c')" by (simp add: items_step_def nth_opt_def)
  qed (use c(2) in auto)
  then show ?thesis using c(1) by (simp add: st_items_def)
qed

end

subsection \<open>The iterator without positions\<close>

text \<open>\<open>Iter\<close> walks like a cursor without a dimension.\<close>

definition stack_wf :: "('a, 's) summary_ops \<Rightarrow> ('a, 's, 'd) stack_entry list \<Rightarrow> bool" where
  "stack_wf ops st \<longleftrightarrow> (\<forall>e \<in> set st. st_wf ops (se_tree e))"

definition top_item :: "('a, 's, 'd) stack_entry list \<Rightarrow> 'a option" where
  "top_item st = (case st of [] \<Rightarrow> None | e # _ \<Rightarrow>
     (case se_tree e of Leaf _ items _ \<Rightarrow> nth_opt items (se_index e) | Internal _ _ _ _ \<Rightarrow> None))"

lemma skip_all_accepted [simp]:
  "skip_rejected dm (\<lambda>_. True) ss i ep p = (i, ep, p)"
  by (cases ss) simp_all

lemma entry_unit [simp]: "e\<lparr>se_index := i, se_position := q\<rparr> = e\<lparr>se_index := i\<rparr>"
  for e :: "('a, 's, unit) stack_entry"
  by (cases e) simp

lemma iter_forward:
  assumes "forward_loop dm f st p d = Some r" "f = (\<lambda>_. True)" "stack_wf ops st"
  shows "iter_loop (st :: ('a, 's, unit) stack_entry list) d = Some (fst r, top_item (fst r))"
  using assms(2,3)
proof (induction dm f st p d r rule: forward_loop.raw_induct)
  case (1 loop dm f st p d r)
  show ?case
  proof (cases st)
    case Nil
    then show ?thesis using 1(2) by (auto simp: iter_loop.simps top_item_def)
  next
    case (Cons e below)
    then have wf: "st_wf ops (se_tree e)" "stack_wf ops below" using 1(4) by (auto simp: stack_wf_def)
    show ?thesis
    proof (cases "se_tree e")
      case (Internal h s css ts)
      let ?i = "if d then se_index e else se_index e + 1"
      show ?thesis
      proof (cases "nth_opt ts ?i")
        case None
        then have "loop dm f below p False = Some r"
          using 1(2,3) Cons Internal by (auto simp: Let_def split: if_splits)
        then show ?thesis
          using 1(1) [of dm f below p False r] 1(3) wf(2) None Cons Internal
          by (subst iter_loop.simps) (auto simp: Let_def)
      next
        case (Some t)
        let ?st = "\<lparr>se_tree = t, se_index = 0, se_position = ()\<rparr> # e\<lparr>se_index := ?i\<rparr> # below"
        have push: "push_entry \<lparr>se_tree = t, se_index = 0, se_position = ()\<rparr> (e\<lparr>se_index := ?i\<rparr> # below) = Some ?st"
            and run: "loop dm f ?st p True = Some r"
          using 1(2,3) Cons Internal Some
          by (auto simp: Let_def push_entry_def split: if_splits)
        have "t \<in> set ts" using Some by (auto simp: nth_opt_def split: if_splits)
        then have "stack_wf ops ?st" using wf Internal by (auto simp: stack_wf_def)
        then show ?thesis
          using 1(1) [OF run 1(3)] push Some Cons Internal
          by (subst iter_loop.simps) (auto simp: Let_def)
      qed
    next
      case (Leaf s xs ss)
      have ss: "length ss = length xs" using wf(1) Leaf by auto
      let ?i = "if d then se_index e else se_index e + 1"
      show ?thesis
      proof (cases "?i < length xs")
        case True
        then have "fst r = e\<lparr>se_index := ?i\<rparr> # below"
          using 1(2,3) Cons Leaf ss by (auto simp: Let_def nth_opt_def split: if_splits)
        then show ?thesis
          using True Cons Leaf by (subst iter_loop.simps) (auto simp: Let_def nth_opt_def top_item_def)
      next
        case False
        then have "loop dm f below p False = Some r"
          using 1(2,3) Cons Leaf ss by (auto simp: Let_def nth_opt_def split: if_splits option.splits)
        then show ?thesis
          using 1(1) [of dm f below p False r] 1(3) wf(2) False Cons Leaf
          by (subst iter_loop.simps) (auto simp: Let_def nth_opt_def)
      qed
    qed
  qed
next
  case 2
  show ?case by (rule assms(1))
qed

context summary_laws
begin

lemma path_stack_wf:
  assumes wf: "st_wf ops root"
  shows "path_to ops unit_dim root st t \<Longrightarrow> stack_wf ops st"
proof (induction st arbitrary: t)
  case (Cons e st)
  then have "path_to ops unit_dim root st (se_tree e)" by simp
  then show ?case
    using Cons.IH dimension_laws.path_to_wf [OF unit_dimension_laws [OF summary_laws_axioms] wf]
    by (auto simp: stack_wf_def)
qed (simp add: stack_wf_def)

lemma at_leaf_stack_wf:
  assumes "st_wf ops root" "at_leaf ops unit_dim root st xs" shows "stack_wf ops st"
  using assms path_stack_wf [OF assms(1)]
    dimension_laws.path_to_wf [OF unit_dimension_laws [OF summary_laws_axioms] assms(1)]
  by (cases st) (auto simp: at_leaf_def stack_wf_def)

lemma top_item_at_leaf:
  assumes "st_wf ops root" "at_leaf ops unit_dim root st (take k (items_of root))" "k < length (items_of root)"
  shows "top_item st = Some (items_of root ! k)"
proof -
  from dimension_laws.at_leaf_item [OF unit_dimension_laws [OF summary_laws_axioms] assms]
  obtain e below s xs where "st = e # below" "se_tree e = Leaf s xs (map (so_summary ops) xs)"
    "se_index e < length xs" "xs ! se_index e = items_of root ! k" by metis
  then show ?thesis by (simp add: top_item_def nth_opt_def)
qed

definition iter_at :: "('a, 's) sum_tree \<Rightarrow> nat \<Rightarrow> ('a, 's) iter \<Rightarrow> bool" where
  "iter_at t i it \<longleftrightarrow> it_tree it = t \<and>
     (if i = 0 then it_stack it = []
      else at_leaf ops unit_dim t (it_stack it) (take (i - 1) (items_of t)))"

lemma iter_next_ok:
  assumes cap: "st_height t < STACK_CAPACITY" and wf: "st_wf ops t" and it: "iter_at t i it" and ne: "\<not> st_is_empty t"
  shows "\<exists>it'. iter_next it = Some (nth_opt (items_of t) i, it') \<and> (i < length (items_of t) \<longrightarrow> iter_at t (Suc i) it')"
proof -
  let ?xs = "items_of t"
  let ?c = "\<lparr>cu_tree = t, cu_stack = it_stack it, cu_position = (), cu_did_seek = (i \<noteq> 0), cu_at_end = False\<rparr>"
  note D = unit_dimension_laws [OF summary_laws_axioms]
  have lt: "i - 1 < length ?xs" if "i \<noteq> 0"
    using dimension_laws.at_leaf_less [OF D, of t "it_stack it" "take (i - 1) ?xs"] it that
    by (auto simp: iter_at_def min_def split: if_splits)
  have placed: "placed ops unit_dim t (i - 1) ?c"
    using it ne lt by (cases "i = 0") (simp_all add: placed_def cursor_at_def iter_at_def)
  have start: "search_start ?c (i - 1) = i" using lt by (auto simp: search_start_def)
  obtain c' where c': "search_forward unit_dim (\<lambda>_. True) ?c = Some c'" "cursor_at ops unit_dim t i c'"
    using dimension_laws.cursor_next_ok [OF D cap wf placed] unfolding start cursor_next_def by blast
  let ?st = "if it_stack it = [] then [\<lparr>se_tree = t, se_index = 0, se_position = ()\<rparr>] else it_stack it"
  have "forward_loop unit_dim (\<lambda>_. True) ?st () (it_stack it = []) = Some (cu_stack c', cu_position c')"
    using c'(1) by (auto simp: search_forward_def Let_def unit_dim_def split: option.splits prod.splits if_splits)
  moreover have "stack_wf ops ?st"
    using it at_leaf_stack_wf [OF wf] wf by (auto simp: iter_at_def stack_wf_def split: if_splits)
  ultimately have "iter_loop ?st (it_stack it = []) = Some (cu_stack c', top_item (cu_stack c'))"
    using iter_forward by fastforce
  then have step: "iter_next it = Some (top_item (cu_stack c'), it\<lparr>it_stack := cu_stack c'\<rparr>)"
    using it by (cases "it_stack it = []") (simp_all add: iter_next_def iter_at_def Let_def)
  show ?thesis
  proof (cases "i < length ?xs")
    case True
    then have "at_leaf ops unit_dim t (cu_stack c') (take i ?xs)" using c'(2) by (simp add: cursor_at_def)
    then show ?thesis
      using step True top_item_at_leaf [OF wf _ True] it by (simp add: iter_at_def nth_opt_def)
  next
    case False
    then have "cu_stack c' = []" using c'(2) by (auto simp: cursor_at_def split: if_splits)
    then show ?thesis using step False by (simp add: top_item_def nth_opt_def)
  qed
qed

lemma iter_items_ok:
  assumes "st_height t < STACK_CAPACITY" "st_wf ops t"
  shows "iter_items t = Some (items_of t)"
proof (cases "st_is_empty t")
  case True
  then have "iter_next (iter_new t) = Some (None, iter_new t)"
    by (cases t) (simp_all add: iter_next_def iter_new_def iter_loop.simps nth_opt_def)
  then show ?thesis
    using st_is_empty_iff [OF assms(2)] True by (simp add: iter_items_def collect_iter.simps)
next
  case False
  have "iter_at t 0 (iter_new t)" by (simp add: iter_at_def iter_new_def)
  then have "collect_iter iter_next (iter_new t) = Some (drop 0 (items_of t))"
  proof (rule collect_iter_Some [where P = "iter_at t", rotated 2])
    fix i it
    assume "i < length (items_of t)" "iter_at t i it"
    then show "\<exists>it'. iter_next it = Some (Some (items_of t ! i), it') \<and> iter_at t (Suc i) it'"
      using iter_next_ok [OF assms _ False, of i it] by (auto simp: nth_opt_def)
  next
    fix it
    assume "iter_at t (length (items_of t)) it"
    then show "\<exists>it'. iter_next it = Some (None, it')"
      using iter_next_ok [OF assms _ False, of "length (items_of t)" it] by (auto simp: nth_opt_def)
  qed simp
  then show ?thesis by (simp add: iter_items_def)
qed

lemma st_eq_ok:
  assumes "st_height t < STACK_CAPACITY" "st_wf ops t" "st_height u < STACK_CAPACITY" "st_wf ops u"
  shows "st_eq t u = Some (items_of t = items_of u)"
  using iter_items_ok [OF assms(1,2)] iter_items_ok [OF assms(3,4)] by (simp add: st_eq_def)

end

section \<open>Properties\<close>

text \<open>
  Stepping. From any place \<open>next\<close> goes to the following item (to the first one when the cursor has
  not moved yet, behind the last one at the end) and \<open>prev\<close> to the preceding one (to the last one when
  the cursor has not moved yet, in front of the first one at the start), each time with the position
  recomputed for the new place; from in front of the first item \<open>next\<close> comes back to it.
\<close>

theorem next_prev_spec:
  assumes "dimension_laws ops dm" and "st_wf ops root" and "st_height root < STACK_CAPACITY"
    and "placed ops dm root k c"
  shows "(\<exists>c'. cursor_next dm c = Some c' \<and>
       cursor_at ops dm root (if cu_did_seek c then min (Suc k) (length (items_of root)) else 0) c') \<and>
     (\<exists>c'. let k' = (if cu_did_seek c then k else length (items_of root))
       in cursor_prev dm c = Some c' \<and>
         (if k' = 0 then in_front dm root c' \<and>
            (\<exists>c''. cursor_next dm c' = Some c'' \<and> cursor_at ops dm root 0 c'')
          else cursor_at ops dm root (k' - 1) c'))"
proof -
  have tree: "cu_tree c = root" using assms(4) by (auto simp: placed_def cursor_at_def)
  have "\<exists>c''. cursor_next dm c' = Some c'' \<and> cursor_at ops dm root 0 c''" if "in_front dm root c'" for c'
    using dimension_laws.cursor_next_front [OF assms(1,3,2) that] .
  moreover obtain c1 where "cursor_next dm c = Some c1" "cursor_at ops dm root (search_start c k) c1"
    using dimension_laws.cursor_next_ok [OF assms(1,3,2,4)] by blast
  moreover obtain c2 where "cursor_prev dm c = Some c2"
    "if back_start c k = 0 then in_front dm root c2 else cursor_at ops dm root (back_start c k - 1) c2"
    using dimension_laws.cursor_prev_ok [OF assms(1,3,2,4)] by blast
  ultimately show ?thesis
    unfolding search_start_def back_start_def tree Let_def
    by (intro conjI exI [of _ c1] exI [of _ c2]) (simp_all split: if_splits)
qed

text \<open>
  Filtered search. For a filter that accepts a summary whenever it accepts one of the items summed up
  in it, \<open>search_forward\<close> (\<open>FilterCursor::next\<close>) stops at the first accepted item behind the cursor, or
  behind the last item, and \<open>search_backward\<close> (\<open>FilterCursor::prev\<close>) at the last accepted item before
  it, or in front of the first; the rejected subtrees between are never entered.
\<close>

theorem filtered_search_spec:
  assumes "filter_laws ops dm f" and "st_wf ops root" and "st_height root < STACK_CAPACITY"
    and "cursor_at ops dm root k c" and "k < length (items_of root)"
  shows "(\<exists>c'. search_forward dm f c = Some c' \<and>
       cursor_at ops dm root (Suc k + length (rejected ops f (drop (Suc k) (items_of root)))) c') \<and>
     (\<exists>c'. search_backward dm f c = Some c' \<and>
       (if all_rejected ops f (take k (items_of root)) then in_front dm root c'
        else cursor_at ops dm root (length (to_last_accepted ops f (take k (items_of root)))) c'))"
proof -
  have c: "placed ops dm root k c" "search_start c k = Suc k" "back_start c k = k"
    using assms(4,5) by (auto simp: placed_def search_start_def back_start_def cursor_at_def)
  show ?thesis
    using filter_laws.search_forward_ok [OF assms(1,3,2) c(1)] filter_laws.search_backward_ok [OF assms(1,3,2) c(1)]
    unfolding c(2,3) backed_cursor_def by blast
qed

text \<open>
  Iteration. Over a well-formed tree every way to collect the items ends and gives the same list:
  \<open>items\<close>, the iterator \<open>iter\<close>, and a cursor used as an iterator; a filter cursor gives the accepted
  items, in order. Equality of trees is equality of these lists, whatever the shapes.
\<close>

theorem iteration_spec:
  assumes "filter_laws ops dm f" and "st_wf ops t" and "st_height t < STACK_CAPACITY"
    and "st_wf ops u" and "st_height u < STACK_CAPACITY"
  shows "st_items t = Some (items_of t) \<and> iter_items t = Some (items_of t) \<and>
    collect_iter (cursor_iter_next dm) (cursor_new dm t) = Some (items_of t) \<and>
    collect_iter (filter_iter_next dm f) (cursor_new dm t) = Some (filter (\<lambda>x. f (so_summary ops x)) (items_of t)) \<and>
    st_eq t u = Some (items_of t = items_of u)"
proof -
  have D: "dimension_laws ops dm" using assms(1) by (simp add: filter_laws_def)
  have S: "summary_laws ops" using D by (simp add: dimension_laws_def)
  have all: "filter_laws ops dm (\<lambda>_. True)" using D by (simp add: filter_laws_def filter_laws_axioms_def)
  show ?thesis
    using summary_laws.st_items_ok [OF S assms(3,2)] summary_laws.iter_items_ok [OF S assms(3,2)]
      filter_laws.filter_iter_new [OF all assms(3,2)] filter_laws.filter_iter_new [OF assms(1,3,2)]
      summary_laws.st_eq_ok [OF S assms(3,2,5,4)]
    by (simp add: cursor_iter_filter)
qed

section \<open>An example: searching by the maximum\<close>

definition max_ops :: "(nat, nat) summary_ops" where
  "max_ops = \<lparr>so_summary = id, so_zero = 0, so_add = max\<rparr>"

lemma foldl_max_start: "x \<le> a \<Longrightarrow> x \<le> foldl max a xs" for x :: nat
  by (induction xs arbitrary: a) (simp_all add: max.coboundedI1)

lemma foldl_max_member: "x \<in> set xs \<Longrightarrow> x \<le> foldl max a xs" for x :: nat
proof (induction xs arbitrary: a)
  case (Cons y ys)
  then show ?case using foldl_max_start [of x "max a y" ys] by (cases "x = y") simp_all
qed simp

lemma max_total: "x \<in> set xs \<Longrightarrow> x \<le> total max_ops xs"
  using foldl_max_member [of x xs 0] by (simp add: total_def sum_of_def max_ops_def)

lemma maximum_laws: "filter_laws max_ops unit_dim (\<lambda>s. 8 \<le> s)"
proof unfold_locales
  show "so_add max_ops (so_add max_ops a b) c = so_add max_ops a (so_add max_ops b c)" for a b c
    by (simp add: max_ops_def max.assoc)
  show "x \<in> set xs \<Longrightarrow> 8 \<le> so_summary max_ops x \<Longrightarrow> 8 \<le> total max_ops xs" for x xs
    using max_total [of x xs] by (simp add: max_ops_def)
qed (simp_all add: max_ops_def)

definition three_items :: "(nat, nat) sum_tree" where
  "three_items = Leaf 9 [8, 7, 9] [8, 7, 9]"

definition at_middle :: "(nat, nat, unit) cursor" where
  "at_middle = \<lparr>cu_tree = three_items, cu_stack = [\<lparr>se_tree = three_items, se_index = 1, se_position = ()\<rparr>],
     cu_position = (), cu_did_seek = True, cu_at_end = False\<rparr>"

lemma three_items_facts:
  "st_wf max_ops three_items" "st_height three_items < STACK_CAPACITY" "items_of three_items = [8, 7, 9]"
  "cursor_at max_ops unit_dim three_items 1 at_middle"
  by (simp_all add: three_items_def STACK_CAPACITY_def max_ops_def at_middle_def cursor_at_def at_leaf_def
      sum_of_def total_def entry_before.simps)

theorem next_prev_spec_witness:
  "\<exists>c1 c2. cursor_next unit_dim at_middle = Some c1 \<and> cursor_at max_ops unit_dim three_items 2 c1 \<and>
     cursor_prev unit_dim at_middle = Some c2 \<and> cursor_at max_ops unit_dim three_items 0 c2"
proof -
  have p: "placed max_ops unit_dim three_items 1 at_middle" using three_items_facts(4) by (simp add: placed_def)
  have d: "cu_did_seek at_middle" "min (Suc 1) (length [8, 7, 9 :: nat]) = 2" by (simp_all add: at_middle_def)
  show ?thesis
    using next_prev_spec [OF filter_laws.axioms(1) [OF maximum_laws] three_items_facts(1,2) p]
    unfolding three_items_facts(3) Let_def d(2) by (simp add: d(1))
qed

theorem filtered_search_spec_witness:
  "\<exists>c1 c2. search_forward unit_dim (\<lambda>s. 8 \<le> s) at_middle = Some c1 \<and>
     cursor_at max_ops unit_dim three_items 2 c1 \<and>
     search_backward unit_dim (\<lambda>s. 8 \<le> s) at_middle = Some c2 \<and> cursor_at max_ops unit_dim three_items 0 c2"
  using filtered_search_spec [OF maximum_laws three_items_facts(1,2,4)]
  unfolding three_items_facts(3)
  by (simp add: rejected_def all_rejected_def to_last_accepted_def max_ops_def numeral_2_eq_2)

theorem iteration_spec_witness:
  "st_items three_items = Some [8, 7, 9] \<and>
   collect_iter (filter_iter_next unit_dim (\<lambda>s. 8 \<le> s)) (cursor_new unit_dim three_items) = Some [8, 9]"
  using iteration_spec [OF maximum_laws three_items_facts(1,2) three_items_facts(1,2)]
  unfolding three_items_facts(3) by (simp add: max_ops_def)

end
