(* ===== verification/Keyed_Tree.thy ===== *)
theory Keyed_Tree
  imports Iterators "HOL-Library.Multiset"
begin

text \<open>
  The operations of \<open>crates/sum_tree/src/sum_tree.rs\<close> on trees of keyed items: \<open>insert_or_replace\<close>,
  \<open>remove\<close>, \<open>edit\<close> and \<open>get\<close>. The \<open>KeyedItem\<close> trait is a function and a dimension whose locations are
  the keys; a tree is used as an ordered map when its keys ascend. The theory shows what each
  operation does to the sequence of items.
\<close>

section \<open>Operations\<close>

text \<open>The key of an item, and the key type as a dimension with an order (\<open>Ord::cmp\<close>).\<close>

record ('a, 's, 'k) keyed_item =
  ki_key :: "'a \<Rightarrow> 'k"
  ki_dim :: "('s, 'k) dimension"
  ki_cmp :: "'k \<Rightarrow> 'k \<Rightarrow> ordering"

definition insert_or_replace ::
  "('a, 's) summary_ops \<Rightarrow> ('a, 's, 'k) keyed_item \<Rightarrow> ('a, 's) sum_tree \<Rightarrow> 'a \<Rightarrow>
   (('a, 's) sum_tree \<times> 'a option) option" where
  "insert_or_replace ops ki self item =
     do {
       (c, new_tree) \<leftarrow> slice ops (ki_dim ki) (ki_cmp ki (ki_key ki item)) Left (cursor_new (ki_dim ki) self);
       found \<leftarrow> cursor_item c;
       (c, replaced) \<leftarrow>
         (case found of
            Some x \<Rightarrow>
              if ki_key ki x = ki_key ki item then map_option (\<lambda>c. (c, Some x)) (cursor_next (ki_dim ki) c)
              else Some (c, None)
          | None \<Rightarrow> Some (c, None));
       new_tree \<leftarrow> st_push ops new_tree item;
       (_, rest) \<leftarrow> suffix ops (ki_dim ki) c;
       new_tree \<leftarrow> append_tree ops new_tree rest;
       Some (new_tree, replaced)
     }"

definition st_remove ::
  "('a, 's) summary_ops \<Rightarrow> ('a, 's, 'k) keyed_item \<Rightarrow> ('a, 's) sum_tree \<Rightarrow> 'k \<Rightarrow>
   (('a, 's) sum_tree \<times> 'a option) option" where
  "st_remove ops ki self k =
     do {
       (c, new_tree) \<leftarrow> slice ops (ki_dim ki) (ki_cmp ki k) Left (cursor_new (ki_dim ki) self);
       found \<leftarrow> cursor_item c;
       (c, removed) \<leftarrow>
         (case found of
            Some x \<Rightarrow>
              if ki_key ki x = k then map_option (\<lambda>c. (c, Some x)) (cursor_next (ki_dim ki) c)
              else Some (c, None)
          | None \<Rightarrow> Some (c, None));
       (_, rest) \<leftarrow> suffix ops (ki_dim ki) c;
       new_tree \<leftarrow> append_tree ops new_tree rest;
       Some (new_tree, removed)
     }"

definition st_get :: "('a, 's, 'k) keyed_item \<Rightarrow> ('a, 's) sum_tree \<Rightarrow> 'k \<Rightarrow> 'a option option" where
  "st_get ki self k =
     do {
       (c, found) \<leftarrow> seek (ki_dim ki) (ki_cmp ki k) Left (cursor_new (ki_dim ki) self);
       if found then cursor_item c else Some None
     }"

datatype ('a, 'k) edit = Insert 'a | Remove 'k

fun edit_key :: "('a \<Rightarrow> 'k) \<Rightarrow> ('a, 'k) edit \<Rightarrow> 'k" where
  "edit_key key (Insert item) = key item"
| "edit_key key (Remove k) = k"

fun edit_inserts :: "('a, 'k) edit \<Rightarrow> 'a list" where
  "edit_inserts (Insert item) = [item]"
| "edit_inserts (Remove k) = []"

text \<open>The loop of \<open>edit\<close>, over the sorted edits; its state is the cursor, the new tree and the two buffers.\<close>

fun edit_loop ::
  "('a, 's) summary_ops \<Rightarrow> ('a, 's, 'k) keyed_item \<Rightarrow> ('a, 'k) edit list \<Rightarrow>
   ('a, 's, 'k) cursor \<Rightarrow> ('a, 's) sum_tree \<Rightarrow> 'a list \<Rightarrow> 'a list \<Rightarrow>
   (('a, 's, 'k) cursor \<times> ('a, 's) sum_tree \<times> 'a list \<times> 'a list) option" where
  "edit_loop ops ki [] c new_tree buffered_items removed = Some (c, new_tree, buffered_items, removed)"
| "edit_loop ops ki (edit # edits) c new_tree buffered_items removed =
     do {
       let new_key = edit_key (ki_key ki) edit;
       old_item \<leftarrow> cursor_item c;
       (c, new_tree, buffered_items, old_item) \<leftarrow>
         (case old_item of
            Some old \<Rightarrow>
              if ki_cmp ki (ki_key ki old) new_key = Less then
                do {
                  new_tree \<leftarrow> st_extend ops new_tree buffered_items;
                  (c, sliced) \<leftarrow> slice ops (ki_dim ki) (ki_cmp ki new_key) Left c;
                  new_tree \<leftarrow> append_tree ops new_tree sliced;
                  old_item \<leftarrow> cursor_item c;
                  Some (c, new_tree, [], old_item)
                }
              else Some (c, new_tree, buffered_items, old_item)
          | None \<Rightarrow> Some (c, new_tree, buffered_items, old_item));
       (c, removed) \<leftarrow>
         (case old_item of
            Some old \<Rightarrow>
              if ki_key ki old = new_key then map_option (\<lambda>c. (c, removed @ [old])) (cursor_next (ki_dim ki) c)
              else Some (c, removed)
          | None \<Rightarrow> Some (c, removed));
       edit_loop ops ki edits c new_tree (buffered_items @ edit_inserts edit) removed
     }"

text \<open>
  \<open>sort_unstable_by_key\<close> leaves the order of edits with the same key open: it is an argument, a
  function that sorts.
\<close>

definition edit_tree ::
  "(('a, 'k) edit list \<Rightarrow> ('a, 'k) edit list) \<Rightarrow> ('a, 's) summary_ops \<Rightarrow> ('a, 's, 'k) keyed_item \<Rightarrow>
   ('a, 's) sum_tree \<Rightarrow> ('a, 'k) edit list \<Rightarrow> (('a, 's) sum_tree \<times> 'a list) option" where
  "edit_tree sorter ops ki self edits =
     (if edits = [] then Some (self, [])
      else
        do {
          (c, _) \<leftarrow> seek (ki_dim ki) (ki_cmp ki (dim_zero (ki_dim ki))) Left (cursor_new (ki_dim ki) self);
          (c, new_tree, buffered_items, removed) \<leftarrow> edit_loop ops ki (sorter edits) c (st_new ops) [] [];
          new_tree \<leftarrow> st_extend ops new_tree buffered_items;
          (_, rest) \<leftarrow> suffix ops (ki_dim ki) c;
          new_tree \<leftarrow> append_tree ops new_tree rest;
          Some (new_tree, removed)
        })"

section \<open>Specification on lists\<close>

text \<open>Keys are compared by their ranks.\<close>

definition sorts_edits ::
  "('a \<Rightarrow> 'k) \<Rightarrow> ('k \<Rightarrow> 'r::linorder) \<Rightarrow> (('a, 'k) edit list \<Rightarrow> ('a, 'k) edit list) \<Rightarrow> bool" where
  "sorts_edits key rank sorter \<longleftrightarrow>
     (\<forall>es. mset (sorter es) = mset es \<and> sorted (map (\<lambda>e. rank (edit_key key e)) (sorter es)))"

definition ascending :: "('a \<Rightarrow> 'r::linorder) \<Rightarrow> 'a list \<Rightarrow> bool" where
  "ascending rk xs \<longleftrightarrow> sorted_wrt (\<lambda>a b. rk a < rk b) xs"

definition lookup :: "('a \<Rightarrow> 'k) \<Rightarrow> 'a list \<Rightarrow> 'k \<Rightarrow> 'a option" where
  "lookup key xs k = find (\<lambda>x. key x = k) xs"

fun drop_rank :: "('a \<Rightarrow> 'r) \<Rightarrow> 'r \<Rightarrow> 'a list \<Rightarrow> 'a list" where
  "drop_rank rk r [] = []"
| "drop_rank rk r (x # xs) = (if rk x = r then xs else x # xs)"

text \<open>The items of rank \<open>r\<close> replaced by \<open>ys\<close>, in an ascending list.\<close>

definition splice :: "('a \<Rightarrow> 'r::linorder) \<Rightarrow> 'r \<Rightarrow> 'a list \<Rightarrow> 'a list \<Rightarrow> 'a list" where
  "splice rk r ys xs =
     takeWhile (\<lambda>x. rk x < r) xs @ ys @ drop_rank rk r (dropWhile (\<lambda>x. rk x < r) xs)"

text \<open>The list after a series of edits with ascending keys, and what they remove.\<close>

fun edit_items :: "('a \<Rightarrow> 'k) \<Rightarrow> ('k \<Rightarrow> 'r::linorder) \<Rightarrow> ('a, 'k) edit list \<Rightarrow> 'a list \<Rightarrow> 'a list" where
  "edit_items key rank [] xs = xs"
| "edit_items key rank (e # es) xs =
     (let r = rank (edit_key key e)
      in takeWhile (\<lambda>x. rank (key x) < r) xs @ edit_inserts e @
         edit_items key rank es (drop_rank (\<lambda>x. rank (key x)) r (dropWhile (\<lambda>x. rank (key x) < r) xs)))"

definition removed_items :: "('a \<Rightarrow> 'k) \<Rightarrow> ('a, 'k) edit list \<Rightarrow> 'a list \<Rightarrow> 'a list" where
  "removed_items key es xs = concat (map (\<lambda>e. case lookup key xs (edit_key key e) of Some x \<Rightarrow> [x] | None \<Rightarrow> []) es)"

text \<open>A target that the locations of ascending ranks pass once.\<close>

definition mono_target :: "('k \<Rightarrow> 'r::linorder) \<Rightarrow> 'k seek_target \<Rightarrow> bias \<Rightarrow> bool" where
  "mono_target rank target bias \<longleftrightarrow>
     (\<forall>a b. rank a \<le> rank b \<longrightarrow> past target bias b \<longrightarrow> past target bias a)"

section \<open>Ascending lists\<close>

lemma ascending_simps [simp]:
  "ascending rk []"
  "ascending rk (x # xs) \<longleftrightarrow> (\<forall>y \<in> set xs. rk x < rk y) \<and> ascending rk xs"
  "ascending rk (xs @ ys) \<longleftrightarrow> ascending rk xs \<and> ascending rk ys \<and> (\<forall>x \<in> set xs. \<forall>y \<in> set ys. rk x < rk y)"
  by (simp_all add: ascending_def sorted_wrt_append)

lemma ascending_take_drop: "ascending rk xs \<Longrightarrow> ascending rk (take k xs)" "ascending rk xs \<Longrightarrow> ascending rk (drop k xs)"
  by (metis append_take_drop_id ascending_simps(3))+

lemma ascending_nth: "ascending rk xs \<Longrightarrow> i \<le> j \<Longrightarrow> j < length xs \<Longrightarrow> rk (xs ! i) \<le> rk (xs ! j)"
  unfolding ascending_def by (metis le_neq_implies_less less_imp_le order.refl sorted_wrt_nth_less)

lemma lookup_simps [simp]:
  "lookup key [] k = None"
  "lookup key (x # xs) k = (if key x = k then Some x else lookup key xs k)"
  by (simp_all add: lookup_def)

lemma lookup_append: "lookup key (xs @ ys) k = (case lookup key xs k of None \<Rightarrow> lookup key ys k | Some x \<Rightarrow> Some x)"
  by (induction xs) auto

lemma lookup_None_iff: "lookup key xs k = None \<longleftrightarrow> k \<notin> key ` set xs"
  by (induction xs) auto

lemma dropWhile_ascending:
  "ascending rk xs \<Longrightarrow> x \<in> set (dropWhile (\<lambda>x. rk x < r) xs) \<Longrightarrow> r \<le> rk x"
  by (induction xs) (auto split: if_splits)

lemma ascending_while:
  assumes "ascending rk xs"
  shows "ascending rk (takeWhile P xs)" "ascending rk (dropWhile P xs)"
  using assms by (metis takeWhile_dropWhile_id ascending_simps(3))+

lemma drop_rank_ascending: "ascending rk xs \<Longrightarrow> ascending rk (drop_rank rk r xs) \<and> set (drop_rank rk r xs) \<subseteq> set xs"
  by (cases xs) auto

lemma drop_rank_greater:
  "ascending rk xs \<Longrightarrow> x \<in> set (drop_rank rk r (dropWhile (\<lambda>x. rk x < r) xs)) \<Longrightarrow> r < rk x"
proof -
  assume asc: "ascending rk xs" and x: "x \<in> set (drop_rank rk r (dropWhile (\<lambda>x. rk x < r) xs))"
  note d = ascending_while(2) [OF asc, of "\<lambda>x. rk x < r"]
  show "r < rk x"
  proof (cases "dropWhile (\<lambda>x. rk x < r) xs")
    case (Cons a list)
    then have "r \<le> rk a" "\<forall>y \<in> set list. rk a < rk y" using dropWhile_ascending [OF asc, of a r] d by auto
    then show ?thesis using x Cons by (fastforce split: if_splits)
  next
    case Nil
    show ?thesis using x unfolding Nil by simp
  qed
qed

text \<open>Splicing keeps the order, and changes the items of one rank only.\<close>

lemma splice_ascending:
  assumes "ascending rk xs" "ascending rk ys" "\<forall>y \<in> set ys. rk y = r"
  shows "ascending rk (splice rk r ys xs)"
proof -
  note d = ascending_while(2) [OF assms(1), of "\<lambda>x. rk x < r"]
  have l: "rk x < r" if "x \<in> set (takeWhile (\<lambda>x. rk x < r) xs)" for x using set_takeWhileD [OF that] by simp
  note g = drop_rank_greater [OF assms(1), of _ r]
  have "rk x < rk y" if "x \<in> set (takeWhile (\<lambda>x. rk x < r) xs)"
    "y \<in> set (ys @ drop_rank rk r (dropWhile (\<lambda>x. rk x < r) xs))" for x y
    using l [OF that(1)] g [of y] that(2) assms(3) by auto
  moreover have "rk x < rk y" if "x \<in> set ys" "y \<in> set (drop_rank rk r (dropWhile (\<lambda>x. rk x < r) xs))" for x y
    using g [OF that(2)] that(1) assms(3) by simp
  ultimately show ?thesis
    unfolding splice_def ascending_simps(3) set_append
    using assms(2) drop_rank_ascending [OF d] ascending_while(1) [OF assms(1)] by blast
qed

section \<open>Keyed trees\<close>

text \<open>
  What the operations rely on: keys are ordered by their ranks, the location behind an item has the
  rank of its key, and the zero location comes first.
\<close>

locale keyed_laws = dimension_laws ops "ki_dim ki"
  for ops :: "('a, 's) summary_ops" and ki :: "('a, 's, 'k) keyed_item" +
  fixes rank :: "'k \<Rightarrow> 'r::linorder"
  assumes cmp_rank: "ki_cmp ki a b = cmp (rank a) (rank b)"
    and rank_add: "rank (dim_add (ki_dim ki) d (so_summary ops x)) = rank (ki_key ki x)"
    and rank_zero: "rank (dim_zero (ki_dim ki)) \<le> rank a"
begin

abbreviation rk :: "'a \<Rightarrow> 'r" where "rk x \<equiv> rank (ki_key ki x)"

lemma advance_rank: "rank (advance ops (ki_dim ki) p xs) = (if xs = [] then rank p else rk (last xs))"
  by (induction xs rule: rev_induct) (simp_all add: rank_add)

lemma past_rank: "mono_target rank target bias \<Longrightarrow> rank a = rank b \<Longrightarrow> past target bias a = past target bias b"
  unfolding mono_target_def by (metis order.refl)

lemma mono_cmp: "mono_target rank (ki_cmp ki k) bias"
  by (auto simp: mono_target_def past_def cmp_rank cmp_def split: if_splits)

lemma past_cmp: "past (ki_cmp ki k) Left d \<longleftrightarrow> rank d < rank k" "past (ki_cmp ki k) Right d \<longleftrightarrow> rank d \<le> rank k"
  by (auto simp: past_def cmp_rank cmp_def)

lemma past_mono_keyed:
  assumes "mono_target rank target bias" "ascending rk xs"
  shows "past_mono ops (ki_dim ki) (past target bias) p xs"
  unfolding past_mono_def
proof (intro allI impI)
  fix i j
  assume ij: "0 < i" "i \<le> j" "j \<le> length xs" "past target bias (advance ops (ki_dim ki) p (take j xs))"
  have r: "rank (advance ops (ki_dim ki) p (take n xs)) = rk (xs ! (n - 1))" if "0 < n" "n \<le> length xs" for n
    using that by (auto simp: advance_rank last_conv_nth)
  have "rk (xs ! (i - 1)) \<le> rk (xs ! (j - 1))" using ij by (intro ascending_nth [OF assms(2)]) auto
  then show "past target bias (advance ops (ki_dim ki) p (take i xs))"
    using assms(1) ij r [of i] r [of j] unfolding mono_target_def by (metis order.strict_trans2 order.trans)
qed

lemma skipped_keyed:
  assumes "mono_target rank target bias"
  shows "skipped ops (ki_dim ki) (past target bias) p xs = takeWhile (\<lambda>x. past target bias (ki_key ki x)) xs"
  using past_rank [OF assms rank_add] by (induction xs arbitrary: p) (simp_all add: Let_def)

text \<open>Slicing and seeking.\<close>

lemma slice_keyed:
  assumes "st_height root < STACK_CAPACITY" "st_wf ops root" "placed ops (ki_dim ki) root j c"
    "ascending rk (items_of root)" "mono_target rank target bias" "target (cu_position c) \<noteq> Less"
  shows "\<exists>c' t. slice ops (ki_dim ki) target bias c = Some (c', t) \<and> st_wf ops t \<and>
    items_of t = takeWhile (\<lambda>x. past target bias (ki_key ki x)) (drop j (items_of root)) \<and>
    cursor_at ops (ki_dim ki) root (j + length (items_of t)) c'"
  using slice_ok [OF assms(1-3) past_mono_keyed [OF assms(5) ascending_take_drop(2) [OF assms(4)]] assms(6)]
  unfolding skipped_keyed [OF assms(5)] by auto

lemma seek_keyed:
  assumes "st_height root < STACK_CAPACITY" "st_wf ops root"
    "ascending rk (items_of root)" "mono_target rank target bias" "target (dim_zero (ki_dim ki)) \<noteq> Less"
    "cu_tree c = root"
  shows "\<exists>c' b. seek (ki_dim ki) target bias c = Some (c', b) \<and>
    cursor_at ops (ki_dim ki) root
      (length (takeWhile (\<lambda>x. past target bias (ki_key ki x)) (items_of root))) c'"
  using seek_ok [of c target bias] assms past_mono_keyed [OF assms(4,3)]
  unfolding skipped_keyed [OF assms(4)] by (auto simp: Let_def skipped_keyed [OF assms(4)])

lemma suffix_at:
  assumes "st_height root < STACK_CAPACITY" "st_wf ops root" "cursor_at ops (ki_dim ki) root j c"
  shows "\<exists>c' t. suffix ops (ki_dim ki) c = Some (c', t) \<and> st_wf ops t \<and> items_of t = drop j (items_of root)"
  using suffix_ok [OF assms(1,2)] assms(3) by (simp add: placed_def)

lemma cmp_zero: "ki_cmp ki k (dim_zero (ki_dim ki)) \<noteq> Less"
  using rank_zero [of k] by (auto simp: cmp_rank cmp_def)

text \<open>The step that is shared by the operations: leave the item with the given key, if it is the next one.\<close>

lemma step_found:
  assumes cap: "st_height root < STACK_CAPACITY" and wf: "st_wf ops root" and c: "cursor_at ops (ki_dim ki) root j c"
    and asc: "ascending rk (drop j (items_of root))" and ge: "\<forall>y \<in> set (drop j (items_of root)). rank k \<le> rk y"
    and key: "\<forall>x \<in> set (items_of root). rk x = rank k \<longrightarrow> ki_key ki x = k"
  shows "\<exists>c' j'. (case nth_opt (items_of root) j of
       Some x \<Rightarrow> if ki_key ki x = k then map_option (\<lambda>c. (c, g x)) (cursor_next (ki_dim ki) c) else Some (c, d)
     | None \<Rightarrow> Some (c, d)) =
       Some (c', case lookup (ki_key ki) (drop j (items_of root)) k of Some x \<Rightarrow> g x | None \<Rightarrow> d) \<and>
     cursor_at ops (ki_dim ki) root j' c' \<and> j \<le> j' \<and>
     drop j' (items_of root) = drop_rank rk (rank k) (drop j (items_of root)) \<and>
     (\<forall>x \<in> set (take j' (items_of root)). x \<in> set (take j (items_of root)) \<or> rk x = rank k)"
proof (cases "j < length (items_of root)")
  case False
  then show ?thesis using c by (intro exI [of _ c] exI [of _ j]) (simp add: nth_opt_def)
next
  case True
  let ?xs = "items_of root" and ?x = "items_of root ! j"
  have d: "drop j ?xs = ?x # drop (Suc j) ?xs" using True by (simp add: Cons_nth_drop_Suc)
  have in_xs: "y \<in> set ?xs" if "y \<in> set (drop j ?xs)" for y using that by (rule in_set_dropD)
  show ?thesis
  proof (cases "ki_key ki ?x = k")
    case k: True
    have st: "search_start c j = Suc j" "placed ops (ki_dim ki) root j c"
      using c True by (auto simp: search_start_def placed_def cursor_at_def)
    obtain c' where "cursor_next (ki_dim ki) c = Some c'" "cursor_at ops (ki_dim ki) root (Suc j) c'"
      using cursor_next_ok [OF cap wf st(2)] unfolding st(1) by blast
    then show ?thesis
      using k True d by (intro exI [of _ c'] exI [of _ "Suc j"]) (auto simp: nth_opt_def take_Suc_conv_app_nth)
  next
    case ne: False
    then have lt: "rank k < rk ?x" using key True ge d by (metis in_xs list.set_intros(1) order.not_eq_order_implies_strict)
    have "lookup (ki_key ki) (drop j ?xs) k = None"
      using lt asc d by (fastforce simp: lookup_None_iff)
    then show ?thesis
      using c ne lt True d by (intro exI [of _ c] exI [of _ j]) (simp add: nth_opt_def)
  qed
qed

lemma drop_takeWhile: "drop (length (takeWhile P xs)) xs = dropWhile P xs"
  by (metis append_eq_conv_conj takeWhile_dropWhile_id)

lemma lookup_dropWhile:
  "lookup (ki_key ki) (dropWhile (\<lambda>x. rk x < rank k) xs) k = lookup (ki_key ki) xs k"
  by (induction xs) auto

text \<open>Cutting the tree in front of the key, and leaving the item with the key.\<close>

lemma cut_at_key:
  assumes cap: "st_height root < STACK_CAPACITY" and wf: "st_wf ops root" and asc: "ascending rk (items_of root)"
    and key: "\<forall>x \<in> set (items_of root). rk x = rank k \<longrightarrow> ki_key ki x = k"
  obtains c t found c' t'' c'' where
    "slice ops (ki_dim ki) (ki_cmp ki k) Left (cursor_new (ki_dim ki) root) = Some (c, t)" "st_wf ops t"
    "items_of t = takeWhile (\<lambda>x. rk x < rank k) (items_of root)"
    "cursor_at ops (ki_dim ki) root (length (items_of t)) c"
    "cursor_item c = Some found"
    "(case found of
        Some x \<Rightarrow> if ki_key ki x = k then map_option (\<lambda>c. (c, Some x)) (cursor_next (ki_dim ki) c) else Some (c, None)
      | None \<Rightarrow> Some (c, None)) = Some (c', lookup (ki_key ki) (items_of root) k)"
    "suffix ops (ki_dim ki) c' = Some (c'', t'')" "st_wf ops t''"
    "items_of t'' = drop_rank rk (rank k) (dropWhile (\<lambda>x. rk x < rank k) (items_of root))"
proof -
  let ?xs = "items_of root" and ?P = "\<lambda>x. rk x < rank k"
  have zero: "ki_cmp ki k (cu_position (cursor_new (ki_dim ki) root)) \<noteq> Less"
    using cmp_zero by (simp add: cursor_new_def)
  obtain c t where t: "slice ops (ki_dim ki) (ki_cmp ki k) Left (cursor_new (ki_dim ki) root) = Some (c, t)"
    "st_wf ops t" "items_of t = takeWhile ?P ?xs" "cursor_at ops (ki_dim ki) root (length (items_of t)) c"
    using slice_keyed [OF cap wf placed_new asc mono_cmp [of k Left] zero] by (auto simp: past_cmp)
  let ?j = "length (items_of t)"
  have drop: "drop ?j ?xs = dropWhile ?P ?xs" unfolding t(3) by (rule drop_takeWhile)
  have asc': "ascending rk (drop ?j ?xs)" using ascending_take_drop(2) [OF asc] .
  have ge: "\<forall>y \<in> set (drop ?j ?xs). rank k \<le> rk y" unfolding drop using dropWhile_ascending [OF asc] by blast
  from step_found [OF cap wf t(4) asc' ge key, where g = Some and d = None]
  obtain c' j' where c': "(case nth_opt ?xs ?j of
        Some x \<Rightarrow> if ki_key ki x = k then map_option (\<lambda>c. (c, Some x)) (cursor_next (ki_dim ki) c) else Some (c, None)
      | None \<Rightarrow> Some (c, None)) =
       Some (c', case lookup (ki_key ki) (drop ?j ?xs) k of Some x \<Rightarrow> Some x | None \<Rightarrow> None)"
    "cursor_at ops (ki_dim ki) root j' c'" "drop j' ?xs = drop_rank rk (rank k) (drop ?j ?xs)" by blast
  have l: "(case lookup (ki_key ki) (drop ?j ?xs) k of Some x \<Rightarrow> Some x | None \<Rightarrow> None) = lookup (ki_key ki) ?xs k"
    unfolding drop lookup_dropWhile by (cases "lookup (ki_key ki) ?xs k") simp_all
  obtain c'' t'' where t'': "suffix ops (ki_dim ki) c' = Some (c'', t'')" "st_wf ops t''" "items_of t'' = drop j' ?xs"
    using suffix_at [OF cap wf c'(2)] by blast
  show ?thesis
    using that [OF t cursor_at_item(1) [OF wf t(4)] c'(1) [unfolded l] t''(1,2)] t''(3) c'(3) drop by simp
qed

lemma insert_or_replace_ok:
  assumes cap: "st_height self < STACK_CAPACITY" and wf: "st_wf ops self" and asc: "ascending rk (items_of self)"
    and key: "\<forall>x \<in> set (items_of self). rk x = rk item \<longrightarrow> ki_key ki x = ki_key ki item"
  shows "\<exists>t. insert_or_replace ops ki self item = Some (t, lookup (ki_key ki) (items_of self) (ki_key ki item)) \<and>
    st_wf ops t \<and> items_of t = splice rk (rk item) [item] (items_of self)"
proof -
  obtain c t found c' t'' c'' where cut:
    "slice ops (ki_dim ki) (ki_cmp ki (ki_key ki item)) Left (cursor_new (ki_dim ki) self) = Some (c, t)" "st_wf ops t"
    "items_of t = takeWhile (\<lambda>x. rk x < rk item) (items_of self)" "cursor_item c = Some found"
    "(case found of
        Some x \<Rightarrow> if ki_key ki x = ki_key ki item then map_option (\<lambda>c. (c, Some x)) (cursor_next (ki_dim ki) c)
          else Some (c, None)
      | None \<Rightarrow> Some (c, None)) = Some (c', lookup (ki_key ki) (items_of self) (ki_key ki item))"
    "suffix ops (ki_dim ki) c' = Some (c'', t'')" "st_wf ops t''"
    "items_of t'' = drop_rank rk (rk item) (dropWhile (\<lambda>x. rk x < rk item) (items_of self))"
    by (rule cut_at_key [OF cap wf asc key])
  obtain t1 where t1: "st_push ops t item = Some t1" "st_wf ops t1" "items_of t1 = items_of t @ [item]"
    using st_push_ok [OF cut(2)] by blast
  obtain t2 where "append_tree ops t1 t'' = Some t2" "st_wf ops t2" "items_of t2 = items_of t1 @ items_of t''"
    using append_tree_ok [OF t1(2) cut(7)] by blast
  then show ?thesis
    using cut(1,3,4,6,8) t1(1,3) unfolding insert_or_replace_def by (simp add: cut(5) splice_def)
qed

lemma st_remove_ok:
  assumes cap: "st_height self < STACK_CAPACITY" and wf: "st_wf ops self" and asc: "ascending rk (items_of self)"
    and key: "\<forall>x \<in> set (items_of self). rk x = rank k \<longrightarrow> ki_key ki x = k"
  shows "\<exists>t. st_remove ops ki self k = Some (t, lookup (ki_key ki) (items_of self) k) \<and>
    st_wf ops t \<and> items_of t = splice rk (rank k) [] (items_of self)"
proof -
  obtain c t found c' t'' c'' where cut:
    "slice ops (ki_dim ki) (ki_cmp ki k) Left (cursor_new (ki_dim ki) self) = Some (c, t)" "st_wf ops t"
    "items_of t = takeWhile (\<lambda>x. rk x < rank k) (items_of self)" "cursor_item c = Some found"
    "(case found of
        Some x \<Rightarrow> if ki_key ki x = k then map_option (\<lambda>c. (c, Some x)) (cursor_next (ki_dim ki) c) else Some (c, None)
      | None \<Rightarrow> Some (c, None)) = Some (c', lookup (ki_key ki) (items_of self) k)"
    "suffix ops (ki_dim ki) c' = Some (c'', t'')" "st_wf ops t''"
    "items_of t'' = drop_rank rk (rank k) (dropWhile (\<lambda>x. rk x < rank k) (items_of self))"
    by (rule cut_at_key [OF cap wf asc key])
  obtain t2 where "append_tree ops t t'' = Some t2" "st_wf ops t2" "items_of t2 = items_of t @ items_of t''"
    using append_tree_ok [OF cut(2,7)] by blast
  then show ?thesis
    using cut(1,3,4,6,8) unfolding st_remove_def by (simp add: cut(5) splice_def)
qed

lemma lookup_at:
  assumes asc: "ascending rk xs" and key: "\<forall>x \<in> set xs. rk x = rank k \<longrightarrow> ki_key ki x = k"
    and n: "n = length (takeWhile (\<lambda>x. rk x < rank k) xs)"
  shows "n < length xs \<Longrightarrow> lookup (ki_key ki) xs k = (if rk (xs ! n) = rank k then Some (xs ! n) else None)"
    and "\<not> n < length xs \<Longrightarrow> lookup (ki_key ki) xs k = None \<and> (\<forall>x \<in> set xs. rk x < rank k)"
proof -
  let ?P = "\<lambda>x. rk x < rank k" and ?x = "xs ! n"
  assume lt: "n < length xs"
  have dw: "dropWhile ?P xs = ?x # drop (Suc n) xs"
    using lt drop_takeWhile [of ?P xs] unfolding n by (simp add: Cons_nth_drop_Suc)
  have look: "lookup (ki_key ki) xs k = lookup (ki_key ki) (?x # drop (Suc n) xs) k"
    using lookup_dropWhile [of k xs] unfolding dw by simp
  have rest: "\<forall>y \<in> set (drop (Suc n) xs). rk ?x < rk y" using ascending_while(2) [OF asc, of ?P] unfolding dw by simp
  have ge: "rank k \<le> rk ?x" using dropWhile_ascending [OF asc, of ?x "rank k"] unfolding dw by simp
  show "lookup (ki_key ki) xs k = (if rk ?x = rank k then Some ?x else None)"
  proof (cases "rk ?x = rank k")
    case True
    then show ?thesis using key lt unfolding look by simp
  next
    case False
    then have "rank k < rk ?x" using ge by simp
    then have "k \<notin> ki_key ki ` set (?x # drop (Suc n) xs)" using rest by fastforce
    then show ?thesis using False unfolding look by (auto simp: lookup_None_iff)
  qed
next
  assume "\<not> n < length xs"
  then have "takeWhile (\<lambda>x. rk x < rank k) xs = xs"
    unfolding n by (metis length_takeWhile_le order.not_eq_order_implies_strict takeWhile_eq_take take_all)
  then have "\<forall>x \<in> set xs. rk x < rank k" by (metis set_takeWhileD)
  then show "lookup (ki_key ki) xs k = None \<and> (\<forall>x \<in> set xs. rk x < rank k)" by (auto simp: lookup_None_iff)
qed

lemma st_get_ok:
  assumes cap: "st_height self < STACK_CAPACITY" and wf: "st_wf ops self" and asc: "ascending rk (items_of self)"
    and key: "\<forall>x \<in> set (items_of self). rk x = rank k \<longrightarrow> ki_key ki x = k"
  shows "st_get ki self k = Some (lookup (ki_key ki) (items_of self) k)"
proof -
  let ?xs = "items_of self" and ?P = "\<lambda>x. rk x < rank k"
  let ?n = "length (takeWhile ?P ?xs)"
  have skip: "skipped ops (ki_dim ki) (past (ki_cmp ki k) Left) (dim_zero (ki_dim ki)) ?xs = takeWhile ?P ?xs"
    by (simp add: skipped_keyed [OF mono_cmp] past_cmp)
  have tree: "cu_tree (cursor_new (ki_dim ki) self) = self" by (simp add: cursor_new_def)
  note mono = past_mono_keyed [OF mono_cmp [of k Left] asc]
  from seek_ok [of "cursor_new (ki_dim ki) self" "ki_cmp ki k" Left, unfolded tree, OF cap wf mono cmp_zero]
  obtain c' where c': "seek (ki_dim ki) (ki_cmp ki k) Left (cursor_new (ki_dim ki) self) = Some (c',
      ki_cmp ki k (advance ops (ki_dim ki) (dim_zero (ki_dim ki)) (take (if ?n < length ?xs then Suc ?n else ?n) ?xs)) = Equal)"
    "cursor_at ops (ki_dim ki) self ?n c'"
    by (auto simp: Let_def skip)
  note item = cursor_at_item(1) [OF wf c'(2)] and look = lookup_at [OF asc key refl]
  show ?thesis
  proof (cases "?n < length ?xs")
    case True
    then have "rank (advance ops (ki_dim ki) (dim_zero (ki_dim ki)) (take (Suc ?n) ?xs)) = rk (?xs ! ?n)"
      by (simp add: take_Suc_conv_app_nth rank_add)
    then show ?thesis
      using c'(1) item True look(1) by (auto simp: st_get_def cmp_rank cmp_def nth_opt_def)
  next
    case False
    then show ?thesis using c'(1) item look(2) by (simp add: st_get_def nth_opt_def)
  qed
qed

text \<open>The end of the place a cut leads to meets the key exactly if there is an item with the key.\<close>

lemma cut_end:
  assumes wf: "st_wf ops root" and asc: "ascending rk (items_of root)"
    and key: "\<forall>x \<in> set (items_of root). rk x = rank k \<longrightarrow> ki_key ki x = k"
    and c: "cursor_at ops (ki_dim ki) root n c" and n: "n = length (takeWhile (\<lambda>x. rk x < rank k) (items_of root))"
    and pos: "rank (dim_zero (ki_dim ki)) < rank k"
  shows "\<exists>l. cursor_end (ki_dim ki) c = Some l \<and> (ki_cmp ki k l = Equal \<longleftrightarrow> lookup (ki_key ki) (items_of root) k \<noteq> None)"
proof (cases "n < length (items_of root)")
  case True
  then show ?thesis
    using cursor_at_item(2) [OF wf c] lookup_at(1) [OF asc key n True]
    by (simp add: cursor_end_def nth_opt_def cmp_rank rank_add cmp_def)
next
  case False
  have "n \<le> length (items_of root)" unfolding n by (rule length_takeWhile_le)
  then have "rank (cu_position c) < rank k"
    using False c pos lookup_at(2) [OF asc key n False] by (auto simp: cursor_at_def advance_rank)
  then show ?thesis
    using False cursor_at_item(2) [OF wf c] lookup_at(2) [OF asc key n False]
    by (simp add: cursor_end_def cursor_start_def nth_opt_def cmp_rank cmp_def)
qed

lemma cut_cases:
  assumes "(case found of
      Some x \<Rightarrow> if ki_key ki x = k then map_option (\<lambda>c. (c, Some x)) (cursor_next (ki_dim ki) c) else Some (c, None)
    | None \<Rightarrow> Some (c, None)) = Some (c', hit)"
  shows "hit = Some x \<Longrightarrow> found = Some x \<and> ki_key ki x = k \<and> cursor_next (ki_dim ki) c = Some c'"
    and "hit = None \<Longrightarrow> c' = c"
  using assms by (auto split: option.splits if_splits)

subsection \<open>Series of edits\<close>

text \<open>The first half of the loop body: copy the items in front of the key.\<close>

lemma edit_advance:
  assumes cap: "st_height root < STACK_CAPACITY" and wf: "st_wf ops root" and asc: "ascending rk (items_of root)"
    and c: "cursor_at ops (ki_dim ki) root j c" and new: "st_wf ops new"
    and less: "\<forall>x \<in> set (take j (items_of root)). rk x < rank k"
  shows "\<exists>c' j' new' buf'.
    (case nth_opt (items_of root) j of
       Some old \<Rightarrow>
         if ki_cmp ki (ki_key ki old) k = Less then
           do {
             new_tree \<leftarrow> st_extend ops new buf;
             (c, sliced) \<leftarrow> slice ops (ki_dim ki) (ki_cmp ki k) Left c;
             new_tree \<leftarrow> append_tree ops new_tree sliced;
             old_item \<leftarrow> cursor_item c;
             Some (c, new_tree, [], old_item)
           }
         else Some (c, new, buf, nth_opt (items_of root) j)
     | None \<Rightarrow> Some (c, new, buf, nth_opt (items_of root) j)) = Some (c', new', buf', nth_opt (items_of root) j') \<and>
    cursor_at ops (ki_dim ki) root j' c' \<and> st_wf ops new' \<and>
    items_of new' @ buf' = items_of new @ buf @ takeWhile (\<lambda>x. rk x < rank k) (drop j (items_of root)) \<and>
    drop j' (items_of root) = dropWhile (\<lambda>x. rk x < rank k) (drop j (items_of root)) \<and>
    (\<forall>x \<in> set (take j' (items_of root)). rk x < rank k)"
proof (cases "j < length (items_of root) \<and> rk (items_of root ! j) < rank k")
  case True
  let ?xs = "items_of root" and ?P = "\<lambda>x. rk x < rank k"
  have pos: "ki_cmp ki k (cu_position c) \<noteq> Less"
  proof -
    have "rank (cu_position c) \<le> rank k"
      using c less rank_zero [of k] by (auto simp: cursor_at_def advance_rank intro: less_imp_le)
    then show ?thesis by (auto simp: cmp_rank cmp_def)
  qed
  have pl: "placed ops (ki_dim ki) root j c" using c by (simp add: placed_def)
  obtain c' t where t: "slice ops (ki_dim ki) (ki_cmp ki k) Left c = Some (c', t)" "st_wf ops t"
    "items_of t = takeWhile ?P (drop j ?xs)" "cursor_at ops (ki_dim ki) root (j + length (items_of t)) c'"
    using slice_keyed [OF cap wf pl asc mono_cmp [of k Left] pos] by (auto simp: past_cmp)
  obtain t1 where t1: "st_extend ops new buf = Some t1" "st_wf ops t1" "items_of t1 = items_of new @ buf"
    using st_extend_ok [OF new] by blast
  obtain t2 where t2: "append_tree ops t1 t = Some t2" "st_wf ops t2" "items_of t2 = items_of t1 @ items_of t"
    using append_tree_ok [OF t1(2) t(2)] by blast
  define i where "i = j + length (items_of t)"
  have item: "cursor_item c' = Some (nth_opt ?xs i)" unfolding i_def by (rule cursor_at_item(1) [OF wf t(4)])
  have d: "drop i ?xs = dropWhile ?P (drop j ?xs)"
    using drop_takeWhile [of ?P "drop j ?xs"] unfolding i_def t(3) by (simp add: add.commute)
  have "take i ?xs = take j ?xs @ takeWhile ?P (drop j ?xs)"
    unfolding i_def t(3) by (metis take_add takeWhile_eq_take)
  then have le: "\<forall>x \<in> set (take i ?xs). rk x < rank k" using less set_takeWhileD by fastforce
  show ?thesis
  proof (intro exI [of _ c'] exI [of _ i] exI [of _ t2] exI [of _ "[]"] conjI)
    show "items_of t2 @ [] = items_of new @ buf @ takeWhile ?P (drop j ?xs)" using t(3) t1(3) t2(3) by simp
    show "cursor_at ops (ki_dim ki) root i c'" unfolding i_def by (rule t(4))
  qed (use True t(1) t1(1) t2(1,2) item d le in \<open>simp_all add: nth_opt_def [of _ j] cmp_rank cmp_def\<close>)
next
  case False
  let ?xs = "items_of root"
  have "takeWhile (\<lambda>x. rk x < rank k) (drop j ?xs) = []" "dropWhile (\<lambda>x. rk x < rank k) (drop j ?xs) = drop j ?xs"
    using False by (cases "j < length ?xs"; simp flip: Cons_nth_drop_Suc)+
  then show ?thesis
    using False c new less
    by (intro exI [of _ c] exI [of _ j] exI [of _ new] exI [of _ buf])
      (simp add: nth_opt_def cmp_rank cmp_def split: if_splits)
qed

lemma lookup_later:
  assumes "r < rank k"
  shows "lookup (ki_key ki) (drop_rank rk r (dropWhile (\<lambda>x. rk x < r) ys)) k = lookup (ki_key ki) ys k"
proof (induction ys)
  case (Cons y ys)
  show ?case
  proof (cases "rk y < r")
    case True
    then have "ki_key ki y \<noteq> k" using assms by auto
    then show ?thesis using True Cons.IH by simp
  next
    case False
    then show ?thesis using assms by auto
  qed
qed simp

lemma removed_later:
  assumes "\<forall>e \<in> set es. r < rank (edit_key (ki_key ki) e)"
  shows "removed_items (ki_key ki) es (drop_rank rk r (dropWhile (\<lambda>x. rk x < r) ys)) = removed_items (ki_key ki) es ys"
  using assms lookup_later by (induction es) (simp_all add: removed_items_def)

lemma edit_loop_ok:
  assumes cap: "st_height root < STACK_CAPACITY" and wf: "st_wf ops root" and asc: "ascending rk (items_of root)"
  shows "cursor_at ops (ki_dim ki) root j c \<Longrightarrow> st_wf ops new \<Longrightarrow>
    ascending (\<lambda>e. rank (edit_key (ki_key ki) e)) es \<Longrightarrow>
    \<forall>e \<in> set es. \<forall>x \<in> set (take j (items_of root)). rk x < rank (edit_key (ki_key ki) e) \<Longrightarrow>
    \<forall>e \<in> set es. \<forall>x \<in> set (items_of root). rk x = rank (edit_key (ki_key ki) e) \<longrightarrow> ki_key ki x = edit_key (ki_key ki) e \<Longrightarrow>
    \<exists>c' j' new' buf'. edit_loop ops ki es c new buf rem =
        Some (c', new', buf', rem @ removed_items (ki_key ki) es (drop j (items_of root))) \<and>
      cursor_at ops (ki_dim ki) root j' c' \<and> st_wf ops new' \<and>
      items_of new' @ buf' @ drop j' (items_of root) =
        items_of new @ buf @ edit_items (ki_key ki) rank es (drop j (items_of root))"
proof (induction es arbitrary: j c new buf rem)
  case Nil
  then show ?case by (auto simp: removed_items_def)
next
  case (Cons e es)
  let ?xs = "items_of root" and ?k = "edit_key (ki_key ki) e"
  let ?P = "\<lambda>x. rk x < rank ?k"
  have less: "\<forall>x \<in> set (take j ?xs). rk x < rank ?k" and key: "\<forall>x \<in> set ?xs. rk x = rank ?k \<longrightarrow> ki_key ki x = ?k"
    and es: "\<forall>e' \<in> set es. rank ?k < rank (edit_key (ki_key ki) e')"
    using Cons.prems(3-5) by simp_all
  note item = cursor_at_item(1) [OF wf Cons.prems(1)]
  from edit_advance [OF cap wf asc Cons.prems(1,2) less, of buf] obtain c1 j1 new1 buf1 where adv:
    "(case nth_opt ?xs j of
       Some old \<Rightarrow>
         if ki_cmp ki (ki_key ki old) ?k = Less then
           do {
             new_tree \<leftarrow> st_extend ops new buf;
             (c, sliced) \<leftarrow> slice ops (ki_dim ki) (ki_cmp ki ?k) Left c;
             new_tree \<leftarrow> append_tree ops new_tree sliced;
             old_item \<leftarrow> cursor_item c;
             Some (c, new_tree, [], old_item)
           }
         else Some (c, new, buf, nth_opt ?xs j)
     | None \<Rightarrow> Some (c, new, buf, nth_opt ?xs j)) = Some (c1, new1, buf1, nth_opt ?xs j1)"
    "cursor_at ops (ki_dim ki) root j1 c1" "st_wf ops new1"
    "items_of new1 @ buf1 = items_of new @ buf @ takeWhile ?P (drop j ?xs)"
    "drop j1 ?xs = dropWhile ?P (drop j ?xs)" "\<forall>x \<in> set (take j1 ?xs). rk x < rank ?k"
    by blast
  note ascj = ascending_take_drop(2) [OF asc, of j]
  have asc1: "ascending rk (drop j1 ?xs)" unfolding adv(5) by (rule ascending_while(2) [OF ascj])
  have ge: "\<forall>y \<in> set (drop j1 ?xs). rank ?k \<le> rk y"
    unfolding adv(5) using dropWhile_ascending [OF ascj] by blast
  from step_found [OF cap wf adv(2) asc1 ge key, where g = "\<lambda>old. rem @ [old]" and d = rem]
  obtain c2 j2 where fnd: "(case nth_opt ?xs j1 of
       Some x \<Rightarrow> if ki_key ki x = ?k then map_option (\<lambda>c. (c, rem @ [x])) (cursor_next (ki_dim ki) c1) else Some (c1, rem)
     | None \<Rightarrow> Some (c1, rem)) =
       Some (c2, case lookup (ki_key ki) (drop j1 ?xs) ?k of Some x \<Rightarrow> rem @ [x] | None \<Rightarrow> rem)"
    "cursor_at ops (ki_dim ki) root j2 c2" "drop j2 ?xs = drop_rank rk (rank ?k) (drop j1 ?xs)"
    "\<forall>x \<in> set (take j2 ?xs). x \<in> set (take j1 ?xs) \<or> rk x = rank ?k" by blast
  define rem2 where "rem2 = rem @ (case lookup (ki_key ki) (drop j ?xs) ?k of Some x \<Rightarrow> [x] | None \<Rightarrow> [])"
  have rem2: "(case lookup (ki_key ki) (drop j1 ?xs) ?k of Some x \<Rightarrow> rem @ [x] | None \<Rightarrow> rem) = rem2"
    unfolding adv(5) lookup_dropWhile rem2_def by (simp split: option.splits)
  have "\<forall>x \<in> set (take j2 ?xs). rk x \<le> rank ?k" using fnd(4) adv(6) by (metis order.order_iff_strict)
  then have less2: "\<forall>e \<in> set es. \<forall>x \<in> set (take j2 ?xs). rk x < rank (edit_key (ki_key ki) e)"
    using es by (meson order.strict_trans1)
  obtain c3 j3 new3 buf3 where IH:
    "edit_loop ops ki es c2 new1 (buf1 @ edit_inserts e) rem2 =
       Some (c3, new3, buf3, rem2 @ removed_items (ki_key ki) es (drop j2 ?xs))"
    "cursor_at ops (ki_dim ki) root j3 c3" "st_wf ops new3"
    "items_of new3 @ buf3 @ drop j3 ?xs =
       items_of new1 @ (buf1 @ edit_inserts e) @ edit_items (ki_key ki) rank es (drop j2 ?xs)"
    using Cons.IH [OF fnd(2) adv(3) _ less2, of "buf1 @ edit_inserts e" rem2] Cons.prems(3,5) by auto
  have loop: "edit_loop ops ki (e # es) c new buf rem =
      edit_loop ops ki es c2 new1 (buf1 @ edit_inserts e) rem2"
    unfolding edit_loop.simps Let_def item Option.bind.simps adv(1) prod.case fnd(1) rem2 ..
  have "rem2 @ removed_items (ki_key ki) es (drop j2 ?xs) = rem @ removed_items (ki_key ki) (e # es) (drop j ?xs)"
    unfolding fnd(3) adv(5) removed_later [OF es] by (simp add: rem2_def removed_items_def)
  moreover have "items_of new1 @ (buf1 @ edit_inserts e) @ edit_items (ki_key ki) rank es (drop j2 ?xs) =
      items_of new @ buf @ edit_items (ki_key ki) rank (e # es) (drop j ?xs)"
    using adv(4) unfolding fnd(3) adv(5) by (simp add: Let_def)
  ultimately show ?case using IH unfolding loop by auto
qed

lemma edit_tree_ok:
  assumes cap: "st_height self < STACK_CAPACITY" and wf: "st_wf ops self" and asc: "ascending rk (items_of self)"
    and es: "ascending (\<lambda>e. rank (edit_key (ki_key ki) e)) (sorter es)"
    and key: "\<forall>e \<in> set (sorter es). \<forall>x \<in> set (items_of self). rk x = rank (edit_key (ki_key ki) e) \<longrightarrow> ki_key ki x = edit_key (ki_key ki) e"
    and ne: "es \<noteq> []"
  shows "\<exists>t. edit_tree sorter ops ki self es = Some (t, removed_items (ki_key ki) (sorter es) (items_of self)) \<and>
    st_wf ops t \<and> items_of t = edit_items (ki_key ki) rank (sorter es) (items_of self)"
proof -
  let ?z = "dim_zero (ki_dim ki)" and ?xs = "items_of self"
  have "takeWhile (\<lambda>x. past (ki_cmp ki ?z) Left (ki_key ki x)) ?xs = []"
    using rank_zero by (cases ?xs) (simp_all add: past_cmp not_less)
  then obtain c b where c: "seek (ki_dim ki) (ki_cmp ki ?z) Left (cursor_new (ki_dim ki) self) = Some (c, b)"
    "cursor_at ops (ki_dim ki) self 0 c"
    using seek_keyed [OF cap wf asc mono_cmp [of ?z Left] cmp_zero, of "cursor_new (ki_dim ki) self"]
    by (auto simp: cursor_new_def)
  obtain c1 j new buf where loop: "edit_loop ops ki (sorter es) c (st_new ops) [] [] =
      Some (c1, new, buf, [] @ removed_items (ki_key ki) (sorter es) (drop 0 ?xs))"
    "cursor_at ops (ki_dim ki) self j c1" "st_wf ops new"
    "items_of new @ buf @ drop j ?xs = items_of (st_new ops) @ [] @ edit_items (ki_key ki) rank (sorter es) (drop 0 ?xs)"
    using edit_loop_ok [OF cap wf asc c(2) conjunct1 [OF st_new_ok] es _ key, of "[]" "[]"] by auto
  obtain t1 where t1: "st_extend ops new buf = Some t1" "st_wf ops t1" "items_of t1 = items_of new @ buf"
    using st_extend_ok [OF loop(3)] by blast
  obtain c2 t2 where t2: "suffix ops (ki_dim ki) c1 = Some (c2, t2)" "st_wf ops t2" "items_of t2 = drop j ?xs"
    using suffix_at [OF cap wf loop(2)] by blast
  obtain t3 where t3: "append_tree ops t1 t2 = Some t3" "st_wf ops t3" "items_of t3 = items_of t1 @ items_of t2"
    using append_tree_ok [OF t1(2) t2(2)] by blast
  have "items_of t3 = edit_items (ki_key ki) rank (sorter es) ?xs"
    using loop(4) t1(3) t2(3) t3(3) conjunct2 [OF st_new_ok] by simp
  then show ?thesis
    using c(1) loop(1) t1(1) t2(1) t3(1,2) ne by (simp add: edit_tree_def)
qed

end

subsection \<open>What edits do to a list\<close>

lemma edit_items_members:
  "y \<in> set (edit_items key rank es xs) \<Longrightarrow> y \<in> set xs \<or> (\<exists>e \<in> set es. y \<in> set (edit_inserts e))"
proof (induction es arbitrary: xs)
  case (Cons e es)
  have "set (drop_rank rk r zs) \<subseteq> set zs" for rk :: "'a \<Rightarrow> 'c" and r zs by (cases zs) auto
  then have sub: "set (drop_rank rk r (dropWhile P xs)) \<subseteq> set xs" for rk :: "'a \<Rightarrow> 'c" and r P
    using set_dropWhileD by fastforce
  from Cons.prems Cons.IH sub show ?case
    by (auto simp: Let_def dest: set_takeWhileD) (meson subsetD)
qed simp

lemma edit_inserts_key: "y \<in> set (edit_inserts e) \<Longrightarrow> key y = edit_key key e"
  by (cases e) auto

lemma edit_items_ascending:
  "ascending (\<lambda>x. rank (key x)) xs \<Longrightarrow> ascending (\<lambda>e. rank (edit_key key e)) es \<Longrightarrow>
   ascending (\<lambda>x. rank (key x)) (edit_items key rank es xs)"
proof (induction es arbitrary: xs)
  case (Cons e es)
  let ?rk = "\<lambda>x. rank (key x)" and ?r = "rank (edit_key key e)"
  let ?rest = "drop_rank ?rk ?r (dropWhile (\<lambda>x. ?rk x < ?r) xs)"
  note tk = ascending_while(1) [OF Cons.prems(1), of "\<lambda>x. ?rk x < ?r"]
  note dw = ascending_while(2) [OF Cons.prems(1), of "\<lambda>x. ?rk x < ?r"]
  have l: "?rk x < ?r" if "x \<in> set (takeWhile (\<lambda>x. ?rk x < ?r) xs)" for x using set_takeWhileD [OF that] by simp
  have es: "\<forall>e' \<in> set es. ?r < rank (edit_key key e')" using Cons.prems(2) by simp
  have g: "?r < ?rk y" if "y \<in> set (edit_items key rank es ?rest)" for y
    using edit_items_members [OF that] drop_rank_greater [OF Cons.prems(1)] es edit_inserts_key [of y _ key] by fastforce
  have ins: "ascending ?rk (edit_inserts e)" "\<forall>y \<in> set (edit_inserts e). ?rk y = ?r" by (cases e; simp)+
  have IH: "ascending ?rk (edit_items key rank es ?rest)"
    using Cons.prems(2) drop_rank_ascending [OF dw] by (intro Cons.IH) auto
  have "?rk x < ?rk y" if "x \<in> set (takeWhile (\<lambda>x. ?rk x < ?r) xs)"
    "y \<in> set (edit_inserts e @ edit_items key rank es ?rest)" for x y
    using l [OF that(1)] that(2) ins(2) g [of y] by auto
  moreover have "?rk x < ?rk y" if "x \<in> set (edit_inserts e)" "y \<in> set (edit_items key rank es ?rest)" for x y
    using ins(2) that(1) g [OF that(2)] by simp
  ultimately show ?case
    unfolding edit_items.simps Let_def ascending_simps(3) set_append using tk ins(1) IH by blast
qed simp

text \<open>The value of the map after an edit with the key.\<close>

fun edit_value :: "('a, 'k) edit \<Rightarrow> 'a option" where
  "edit_value (Insert item) = Some item"
| "edit_value (Remove k) = None"

lemma lookup_splice:
  assumes "ascending (\<lambda>x. rank (key x)) xs" "inj rank"
  shows "lookup key (drop_rank (\<lambda>x. rank (key x)) (rank k) (dropWhile (\<lambda>x. rank (key x) < rank k) xs)) k' =
      (if rank k' \<le> rank k then None else lookup key xs k')"
    and "lookup key (takeWhile (\<lambda>x. rank (key x) < rank k) xs) k' = (if rank k' < rank k then lookup key xs k' else None)"
proof -
  let ?d = "drop_rank (\<lambda>x. rank (key x)) (rank k) (dropWhile (\<lambda>x. rank (key x) < rank k) xs)"
  show "lookup key (takeWhile (\<lambda>x. rank (key x) < rank k) xs) k' = (if rank k' < rank k then lookup key xs k' else None)"
  proof (cases "rank k' < rank k")
    case True
    have "lookup key (dropWhile (\<lambda>x. rank (key x) < rank k) xs) k' = None"
      using dropWhile_ascending [OF assms(1), of _ "rank k"] True by (fastforce simp: lookup_None_iff)
    then show ?thesis
      using True lookup_append [of key "takeWhile (\<lambda>x. rank (key x) < rank k) xs" "dropWhile (\<lambda>x. rank (key x) < rank k) xs" k']
      by (simp split: option.splits)
  next
    case False
    then show ?thesis using set_takeWhileD by (fastforce simp: lookup_None_iff)
  qed
  show "lookup key ?d k' = (if rank k' \<le> rank k then None else lookup key xs k')"
  proof (cases "rank k' \<le> rank k")
    case True
    then show ?thesis using drop_rank_greater [OF assms(1), of _ "rank k"] by (fastforce simp: lookup_None_iff)
  next
    case False
    then show ?thesis by (induction xs) auto
  qed
qed

lemma lookup_edit_items:
  assumes "inj rank"
  shows "ascending (\<lambda>x. rank (key x)) xs \<Longrightarrow> ascending (\<lambda>e. rank (edit_key key e)) es \<Longrightarrow>
    lookup key (edit_items key rank es xs) k =
      (case find (\<lambda>e. edit_key key e = k) es of Some e \<Rightarrow> edit_value e | None \<Rightarrow> lookup key xs k)"
proof (induction es arbitrary: xs)
  case (Cons e es)
  let ?k = "edit_key key e"
  let ?rest = "drop_rank (\<lambda>x. rank (key x)) (rank ?k) (dropWhile (\<lambda>x. rank (key x) < rank ?k) xs)"
  have IH: "lookup key (edit_items key rank es ?rest) k =
      (case find (\<lambda>e. edit_key key e = k) es of Some e \<Rightarrow> edit_value e | None \<Rightarrow> lookup key ?rest k)"
    using Cons.prems drop_rank_ascending [OF ascending_while(2) [OF Cons.prems(1)]] by (intro Cons.IH) auto
  have later: "find (\<lambda>e. edit_key key e = k) es = None" if "rank k \<le> rank ?k"
    using Cons.prems(2) that by (auto simp: find_None_iff)
  have ins: "lookup key (edit_inserts e) k = (if k = ?k then edit_value e else None)" by (cases e) auto
  have keq: "k = ?k \<longleftrightarrow> rank k = rank ?k" using assms by (auto dest: injD)
  note spl = lookup_splice [OF Cons.prems(1) assms, of ?k k]
  consider (lt) "rank k < rank ?k" | (eq) "k = ?k" | (gt) "rank ?k < rank k" using keq by (metis less_linear)
  then show ?case
  proof cases
    case lt
    then have "k \<noteq> ?k" by auto
    then show ?thesis
      using lt spl IH ins later by (cases "lookup key xs k") (simp_all add: Let_def lookup_append)
  next
    case eq
    have "lookup key (edit_items key rank es ?rest) k = None" using IH eq spl(1) later by simp
    then show ?thesis
      using eq spl(2) ins by (cases "edit_value e") (simp_all add: Let_def lookup_append)
  next
    case gt
    then have "k \<noteq> ?k" "\<not> rank k < rank ?k" "\<not> rank k \<le> rank ?k" by auto
    then show ?thesis using spl IH ins
      by (cases "find (\<lambda>e. edit_key key e = k) es") (simp_all add: Let_def lookup_append)
  qed
qed simp

end
