(* ===== verification/Tree_Map.thy ===== *)
theory Tree_Map
  imports Keyed_Tree "HOL-Library.Option_ord"
begin

text \<open>
  The ordered map and set of \<open>crates/sum_tree/src/tree_map.rs\<close>. \<open>MapKey\<close> and \<open>MapKeyRef\<close> are options of a
  key, \<open>None\<close> being smaller than every key (the derived \<open>Ord\<close>). A map is a tree of entries with
  ascending keys; each operation is shown to implement the operation of the same name on the
  function from keys to values that the entries stand for.
\<close>

section \<open>Entries\<close>

record ('k, 'v) map_entry =
  me_key :: 'k
  me_value :: 'v

type_synonym ('k, 'v) tree_map = "(('k, 'v) map_entry, 'k option) sum_tree"

definition map_ops :: "(('k, 'v) map_entry, 'k option) summary_ops" where
  "map_ops = \<lparr>so_summary = (\<lambda>e. Some (me_key e)), so_zero = None, so_add = (\<lambda>_ s. s)\<rparr>"

definition map_dim :: "('k option, 'k option) dimension" where
  "map_dim = \<lparr>dim_zero = None, dim_add = (\<lambda>_ s. s)\<rparr>"

definition map_item :: "(('k::linorder, 'v) map_entry, 'k option, 'k option) keyed_item" where
  "map_item = \<lparr>ki_key = (\<lambda>e. Some (me_key e)), ki_dim = map_dim, ki_cmp = cmp\<rparr>"

text \<open>A \<open>MapSeekTarget\<close> is given by its comparison with a key; \<open>MapSeekTargetAdaptor\<close> makes it a seek target.\<close>

definition target_adaptor :: "('k \<Rightarrow> ordering) \<Rightarrow> 'k option seek_target" where
  "target_adaptor cmp_cursor location =
     (case location of Some key \<Rightarrow> cmp_cursor key | None \<Rightarrow> Greater)"

section \<open>Maps\<close>

definition from_ordered_entries :: "('k \<times> 'v) list \<Rightarrow> ('k, 'v) tree_map option" where
  "from_ordered_entries entries = st_from_iter map_ops (map (\<lambda>(k, v). \<lparr>me_key = k, me_value = v\<rparr>) entries)"

definition tm_default :: "('k, 'v) tree_map" where
  "tm_default = st_new map_ops"

definition tm_is_empty :: "('k, 'v) tree_map \<Rightarrow> bool" where
  "tm_is_empty m = st_is_empty m"

definition tm_get :: "('k::linorder, 'v) tree_map \<Rightarrow> 'k \<Rightarrow> 'v option option" where
  "tm_get m key =
     do {
       (c, _) \<leftarrow> seek map_dim (cmp (Some key)) Left (cursor_new map_dim m);
       item \<leftarrow> cursor_item c;
       Some (case item of
               Some e \<Rightarrow> if Some key = Some (me_key e) then Some (me_value e) else None
             | None \<Rightarrow> None)
     }"

definition tm_insert :: "('k::linorder, 'v) tree_map \<Rightarrow> 'k \<Rightarrow> 'v \<Rightarrow> ('k, 'v) tree_map option" where
  "tm_insert m key value =
     map_option fst (insert_or_replace map_ops map_item m \<lparr>me_key = key, me_value = value\<rparr>)"

definition tm_extend ::
  "((('k, 'v) map_entry, 'k option) edit list \<Rightarrow> (('k, 'v) map_entry, 'k option) edit list) \<Rightarrow>
   ('k::linorder, 'v) tree_map \<Rightarrow> ('k \<times> 'v) list \<Rightarrow> ('k, 'v) tree_map option" where
  "tm_extend sorter m entries =
     map_option fst
       (edit_tree sorter map_ops map_item m (map (\<lambda>(k, v). Insert \<lparr>me_key = k, me_value = v\<rparr>) entries))"

definition tm_clear :: "('k, 'v) tree_map \<Rightarrow> ('k, 'v) tree_map" where
  "tm_clear m = tm_default"

definition tm_remove ::
  "('k::linorder, 'v) tree_map \<Rightarrow> 'k \<Rightarrow> (('k, 'v) tree_map \<times> 'v option) option" where
  "tm_remove m k =
     do {
       let key = Some k;
       (c, new_tree) \<leftarrow> slice map_ops map_dim (cmp key) Left (cursor_new map_dim m);
       location \<leftarrow> cursor_end map_dim c;
       (c, removed) \<leftarrow>
         (if cmp key location = Equal then
            do {
              item \<leftarrow> cursor_item c;
              e \<leftarrow> item;
              c' \<leftarrow> cursor_next map_dim c;
              Some (c', Some (me_value e))
            }
          else Some (c, None));
       (_, rest) \<leftarrow> suffix map_ops map_dim c;
       new_tree \<leftarrow> append_tree map_ops new_tree rest;
       Some (new_tree, removed)
     }"

definition remove_range ::
  "('k::linorder, 'v) tree_map \<Rightarrow> ('k \<Rightarrow> ordering) \<Rightarrow> ('k \<Rightarrow> ordering) \<Rightarrow> ('k, 'v) tree_map option" where
  "remove_range m start_target stop_target =
     do {
       (c, new_tree) \<leftarrow> slice map_ops map_dim (target_adaptor start_target) Left (cursor_new map_dim m);
       (c, _) \<leftarrow> seek map_dim (target_adaptor stop_target) Left c;
       (_, rest) \<leftarrow> suffix map_ops map_dim c;
       append_tree map_ops new_tree rest
     }"

definition closest :: "('k::linorder, 'v) tree_map \<Rightarrow> 'k \<Rightarrow> ('k \<times> 'v) option option" where
  "closest m k =
     do {
       (c, _) \<leftarrow> seek map_dim (cmp (Some k)) Right (cursor_new map_dim m);
       c \<leftarrow> cursor_prev map_dim c;
       item \<leftarrow> cursor_item c;
       Some (map_option (\<lambda>e. (me_key e, me_value e)) item)
     }"

definition iter_from :: "('k::linorder, 'v) tree_map \<Rightarrow> 'k \<Rightarrow> ('k \<times> 'v) list option" where
  "iter_from m from_key =
     do {
       (c, _) \<leftarrow> seek map_dim (cmp (Some from_key)) Left (cursor_new map_dim m);
       map_option (map (\<lambda>e. (me_key e, me_value e))) (collect_iter (cursor_iter_next map_dim) c)
     }"

text \<open>The function updates the value and returns a result.\<close>

definition tm_update ::
  "('k::linorder, 'v) tree_map \<Rightarrow> 'k \<Rightarrow> ('v \<Rightarrow> 'v \<times> 'r) \<Rightarrow> (('k, 'v) tree_map \<times> 'r option) option" where
  "tm_update m k f =
     do {
       let key = Some k;
       (c, new_tree) \<leftarrow> slice map_ops map_dim (cmp key) Left (cursor_new map_dim m);
       location \<leftarrow> cursor_end map_dim c;
       (c, new_tree, result) \<leftarrow>
         (if cmp key location = Equal then
            do {
              item \<leftarrow> cursor_item c;
              updated \<leftarrow> item;
              let (value, r) = f (me_value updated);
              new_tree \<leftarrow> st_push map_ops new_tree (updated\<lparr>me_value := value\<rparr>);
              c' \<leftarrow> cursor_next map_dim c;
              Some (c', new_tree, Some r)
            }
          else Some (c, new_tree, None));
       (_, rest) \<leftarrow> suffix map_ops map_dim c;
       new_tree \<leftarrow> append_tree map_ops new_tree rest;
       Some (new_tree, result)
     }"

text \<open>The predicate of \<open>retain\<close> may change a state of its own.\<close>

partial_function (option) retain_loop ::
  "('p \<Rightarrow> 'k \<Rightarrow> 'v \<Rightarrow> bool \<times> 'p) \<Rightarrow> (('k::linorder, 'v) map_entry, 'k option, 'k option) cursor \<Rightarrow> 'p \<Rightarrow>
   ('k, 'v) tree_map \<Rightarrow> (('k, 'v) tree_map \<times> 'p) option" where
  "retain_loop predicate c p new_map =
     (case cursor_item c of
        None \<Rightarrow> None
      | Some None \<Rightarrow> Some (new_map, p)
      | Some (Some item) \<Rightarrow>
          (let (keep, p') = predicate p (me_key item) (me_value item)
           in case (if keep then st_push map_ops new_map item else Some new_map) of
                None \<Rightarrow> None
              | Some new_map' \<Rightarrow>
                  (case cursor_next map_dim c of
                     None \<Rightarrow> None
                   | Some c' \<Rightarrow> retain_loop predicate c' p' new_map')))"

definition retain ::
  "('p \<Rightarrow> 'k \<Rightarrow> 'v \<Rightarrow> bool \<times> 'p) \<Rightarrow> 'p \<Rightarrow> ('k::linorder, 'v) tree_map \<Rightarrow> (('k, 'v) tree_map \<times> 'p) option" where
  "retain predicate p m =
     do {
       c \<leftarrow> cursor_next map_dim (cursor_new map_dim m);
       retain_loop predicate c p (st_new map_ops)
     }"

definition tm_iter :: "('k, 'v) tree_map \<Rightarrow> ('k \<times> 'v) list option" where
  "tm_iter m = map_option (map (\<lambda>e. (me_key e, me_value e))) (iter_items m)"

definition tm_values :: "('k, 'v) tree_map \<Rightarrow> 'v list option" where
  "tm_values m = map_option (map me_value) (iter_items m)"

definition tm_first :: "('k, 'v) tree_map \<Rightarrow> ('k \<times> 'v) option option" where
  "tm_first m = map_option (map_option (\<lambda>e. (me_key e, me_value e))) (st_first m)"

definition tm_last :: "('k, 'v) tree_map \<Rightarrow> ('k \<times> 'v) option option" where
  "tm_last m = map_option (map_option (\<lambda>e. (me_key e, me_value e))) (st_last m)"

definition insert_tree ::
  "((('k, 'v) map_entry, 'k option) edit list \<Rightarrow> (('k, 'v) map_entry, 'k option) edit list) \<Rightarrow>
   ('k::linorder, 'v) tree_map \<Rightarrow> ('k, 'v) tree_map \<Rightarrow> ('k, 'v) tree_map option" where
  "insert_tree sorter m other =
     do {
       entries \<leftarrow> tm_iter other;
       map_option fst
         (edit_tree sorter map_ops map_item m (map (\<lambda>(k, v). Insert \<lparr>me_key = k, me_value = v\<rparr>) entries))
     }"

section \<open>Sets\<close>

type_synonym 'k tree_set = "('k, unit) tree_map"

definition ts_from_ordered_entries :: "'k list \<Rightarrow> 'k tree_set option" where
  "ts_from_ordered_entries entries = from_ordered_entries (map (\<lambda>key. (key, ())) entries)"

definition ts_is_empty :: "'k tree_set \<Rightarrow> bool" where
  "ts_is_empty s = tm_is_empty s"

definition ts_insert :: "'k::linorder tree_set \<Rightarrow> 'k \<Rightarrow> 'k tree_set option" where
  "ts_insert s key = tm_insert s key ()"

definition ts_remove :: "'k::linorder tree_set \<Rightarrow> 'k \<Rightarrow> ('k tree_set \<times> bool) option" where
  "ts_remove s key = map_option (\<lambda>(s', r). (s', r \<noteq> None)) (tm_remove s key)"

definition ts_extend ::
  "((('k, unit) map_entry, 'k option) edit list \<Rightarrow> (('k, unit) map_entry, 'k option) edit list) \<Rightarrow>
   'k::linorder tree_set \<Rightarrow> 'k list \<Rightarrow> 'k tree_set option" where
  "ts_extend sorter s keys = tm_extend sorter s (map (\<lambda>key. (key, ())) keys)"

definition ts_contains :: "'k::linorder tree_set \<Rightarrow> 'k \<Rightarrow> bool option" where
  "ts_contains s key = map_option (\<lambda>v. v \<noteq> None) (tm_get s key)"

definition ts_iter :: "'k tree_set \<Rightarrow> 'k list option" where
  "ts_iter s = map_option (map fst) (tm_iter s)"

definition ts_iter_from :: "'k::linorder tree_set \<Rightarrow> 'k \<Rightarrow> 'k list option" where
  "ts_iter_from s key = map_option (map fst) (iter_from s key)"

section \<open>Specification\<close>

definition tm_wf :: "('k::linorder, 'v) tree_map \<Rightarrow> bool" where
  "tm_wf m \<longleftrightarrow> st_wf map_ops m \<and> ascending me_key (items_of m)"

text \<open>Operations walk over a map with a cursor, so its height has to fit the cursor's stack.\<close>

definition tm_ok :: "('k::linorder, 'v) tree_map \<Rightarrow> bool" where
  "tm_ok m \<longleftrightarrow> tm_wf m \<and> st_height m < STACK_CAPACITY"

definition entries_of :: "('k, 'v) tree_map \<Rightarrow> ('k \<times> 'v) list" where
  "entries_of m = map (\<lambda>e. (me_key e, me_value e)) (items_of m)"

definition tm_map :: "('k, 'v) tree_map \<Rightarrow> 'k \<rightharpoonup> 'v" where
  "tm_map m = map_of (entries_of m)"

text \<open>Filtering entries in order, with a predicate that has a state.\<close>

fun filter_state ::
  "('p \<Rightarrow> 'k \<Rightarrow> 'v \<Rightarrow> bool \<times> 'p) \<Rightarrow> 'p \<Rightarrow> ('k, 'v) map_entry list \<Rightarrow> ('k, 'v) map_entry list \<times> 'p" where
  "filter_state predicate p [] = ([], p)"
| "filter_state predicate p (e # es) =
     (let (keep, p') = predicate p (me_key e) (me_value e);
          (es', p'') = filter_state predicate p' es
      in (if keep then e # es' else es', p''))"

section \<open>The laws of keyed items\<close>

lemma map_item_simps [simp]:
  "ki_key map_item = (\<lambda>e. Some (me_key e))" "ki_dim map_item = map_dim" "ki_cmp map_item = cmp"
  "so_summary map_ops e = Some (me_key e)" "so_zero map_ops = None" "so_add map_ops a b = b"
  "dim_zero map_dim = None" "dim_add map_dim d s = s"
  by (simp_all add: map_item_def map_ops_def map_dim_def)

interpretation entry: keyed_laws map_ops map_item "\<lambda>k :: 'k::linorder option. k"
  by unfold_locales simp_all

lemma ascending_some [simp]: "ascending (\<lambda>e. Some (me_key e)) xs = ascending me_key xs"
  by (simp add: ascending_def)

abbreviation find_entry :: "('k, 'v) map_entry list \<Rightarrow> 'k \<Rightarrow> ('k, 'v) map_entry option" where
  "find_entry xs k \<equiv> lookup (\<lambda>e. Some (me_key e)) xs (Some k)"

lemma tm_map_lookup: "tm_map m k = map_option me_value (find_entry (items_of m) k)"
proof -
  have "map_of (map (\<lambda>e. (me_key e, me_value e)) xs) k = map_option me_value (find_entry xs k)"
    for xs
    by (induction xs) auto
  then show ?thesis by (simp add: tm_map_def entries_of_def)
qed

lemma find_entry_key: "find_entry xs k = Some e \<Longrightarrow> me_key e = k \<and> e \<in> set xs"
  by (induction xs) (auto split: if_splits)

lemma tm_okD:
  assumes "tm_ok m"
  shows "st_height m < STACK_CAPACITY" "st_wf map_ops m" "ascending me_key (items_of m)"
  using assms by (simp_all add: tm_ok_def tm_wf_def)

lemma single_edit: "splice (\<lambda>e. Some (me_key e)) (Some (me_key x)) [x] xs =
    edit_items (\<lambda>e. Some (me_key e)) (\<lambda>k. k) [Insert x] xs"
  "splice (\<lambda>e. Some (me_key e)) (Some k) [] xs =
    edit_items (\<lambda>e. Some (me_key e)) (\<lambda>k. k) [Remove (Some k)] xs"
  by (simp_all add: splice_def Let_def)

lemma lookup_entry_edits:
  assumes "ascending me_key xs" "ascending (edit_key (\<lambda>e. Some (me_key e))) es"
  shows "find_entry (edit_items (\<lambda>e. Some (me_key e)) (\<lambda>k. k) es xs) k =
    (case find (\<lambda>e. edit_key (\<lambda>e. Some (me_key e)) e = Some k) es of Some e \<Rightarrow> edit_value e | None \<Rightarrow> find_entry xs k)"
  using lookup_edit_items [of "\<lambda>k. k" "\<lambda>e. Some (me_key e)" xs es "Some k"] assms by simp

lemma entry_edits_ascending:
  assumes "ascending me_key xs" "ascending (edit_key (\<lambda>e. Some (me_key e))) es"
  shows "ascending me_key (edit_items (\<lambda>e. Some (me_key e)) (\<lambda>k. k) es xs)"
  using edit_items_ascending [of "\<lambda>k. k" "\<lambda>e. Some (me_key e)" xs es] assms by simp

subsection \<open>Single keys\<close>

lemma seek_map_entry:
  assumes "tm_ok m"
  shows "\<exists>c b. seek map_dim (cmp (Some k)) Left (cursor_new map_dim m) = Some (c, b) \<and>
      cursor_at map_ops map_dim m (length (takeWhile (\<lambda>e. me_key e < k) (items_of m))) c"
    and "\<exists>c b. seek map_dim (cmp (Some k)) Right (cursor_new map_dim m) = Some (c, b) \<and>
      cursor_at map_ops map_dim m (length (takeWhile (\<lambda>e. me_key e \<le> k) (items_of m))) c"
proof -
  note m = tm_okD [OF assms]
  have asc: "ascending (\<lambda>x. ki_key map_item x) (items_of m)" and tree: "cu_tree (cursor_new map_dim m) = m"
    using m(3) by (simp_all add: cursor_new_def)
  from entry.seek_keyed [OF m(1,2) asc entry.mono_cmp [of "Some k" Left] entry.cmp_zero, of "cursor_new map_dim m"] tree
  show "\<exists>c b. seek map_dim (cmp (Some k)) Left (cursor_new map_dim m) = Some (c, b) \<and>
      cursor_at map_ops map_dim m (length (takeWhile (\<lambda>e. me_key e < k) (items_of m))) c"
    by (simp add: entry.past_cmp [simplified])
  from entry.seek_keyed [OF m(1,2) asc entry.mono_cmp [of "Some k" Right] entry.cmp_zero, of "cursor_new map_dim m"] tree
  show "\<exists>c b. seek map_dim (cmp (Some k)) Right (cursor_new map_dim m) = Some (c, b) \<and>
      cursor_at map_ops map_dim m (length (takeWhile (\<lambda>e. me_key e \<le> k) (items_of m))) c"
    by (simp add: entry.past_cmp [simplified])
qed

lemma cursor_at_entry: "tm_ok m \<Longrightarrow> cursor_at map_ops map_dim m n c \<Longrightarrow> cursor_item c = Some (nth_opt (items_of m) n)"
  using entry.cursor_at_item(1) [of m n c] tm_okD(2) [of m] by simp

lemma find_at:
  assumes "tm_ok m" and n: "n = length (takeWhile (\<lambda>e. me_key e < k) (items_of m))"
  shows "find_entry (items_of m) k =
    (case nth_opt (items_of m) n of Some e \<Rightarrow> if me_key e = k then Some e else None | None \<Rightarrow> None)"
proof -
  have asc: "ascending (\<lambda>x. ki_key map_item x) (items_of m)" using tm_okD(3) [OF assms(1)] by simp
  have n': "n = length (takeWhile (\<lambda>x. ki_key map_item x < Some k) (items_of m))" by (simp add: n)
  show ?thesis
    using entry.lookup_at [OF asc _ n'] by (cases "n < length (items_of m)") (simp_all add: nth_opt_def)
qed

lemma tm_get_ok:
  assumes "tm_ok m" shows "tm_get m k = Some (tm_map m k)"
proof -
  let ?n = "length (takeWhile (\<lambda>e. me_key e < k) (items_of m))"
  obtain c b where c: "seek map_dim (cmp (Some k)) Left (cursor_new map_dim m) = Some (c, b)"
    "cursor_at map_ops map_dim m ?n c"
    using seek_map_entry(1) [OF assms] by blast
  show ?thesis
    using c(1) cursor_at_entry [OF assms c(2)] find_at [OF assms refl, of k]
    by (simp add: tm_get_def tm_map_lookup split: option.splits)
qed

lemma edited_wf:
  assumes "tm_ok m" "st_wf map_ops m'" "items_of m' = edit_items (\<lambda>e. Some (me_key e)) (\<lambda>k. k) es (items_of m)"
    "ascending (edit_key (\<lambda>e. Some (me_key e))) es"
  shows "tm_wf m'"
    and "tm_map m' k = (case find (\<lambda>e. edit_key (\<lambda>e. Some (me_key e)) e = Some k) es of
      Some e \<Rightarrow> map_option me_value (edit_value e) | None \<Rightarrow> tm_map m k)"
  using assms entry_edits_ascending [OF tm_okD(3) assms(4)] lookup_entry_edits [OF tm_okD(3) assms(4)]
  by (auto simp: tm_wf_def tm_map_lookup split: option.splits)

lemma tm_insert_ok:
  assumes "tm_ok m"
  shows "\<exists>m'. tm_insert m k v = Some m' \<and> tm_wf m' \<and> tm_map m' = (tm_map m)(k \<mapsto> v)"
proof -
  note m = tm_okD [OF assms]
  let ?e = "\<lparr>me_key = k, me_value = v\<rparr>"
  have asc: "ascending (\<lambda>x. ki_key map_item x) (items_of m)" using m(3) by simp
  obtain m' where m': "insert_or_replace map_ops map_item m ?e = Some (m', find_entry (items_of m) k)"
    "st_wf map_ops m'" "items_of m' = edit_items (\<lambda>e. Some (me_key e)) (\<lambda>k. k) [Insert ?e] (items_of m)"
    using entry.insert_or_replace_ok [OF m(1,2) asc, of ?e] single_edit(1) [of ?e "items_of m"] by auto
  have "tm_map m' k' = ((tm_map m)(k \<mapsto> v)) k'" for k'
    using edited_wf(2) [OF assms m'(2,3), of k'] by simp
  then show ?thesis
    using m'(1) edited_wf(1) [OF assms m'(2,3)] by (auto simp: tm_insert_def)
qed

text \<open>Cutting a map in front of a key, as \<open>remove\<close> and \<open>update\<close> do.\<close>

lemma cut_entry:
  assumes "tm_ok m"
  obtains c t l c' t'' c'' where
    "slice map_ops map_dim (cmp (Some k)) Left (cursor_new map_dim m) = Some (c, t)" "st_wf map_ops t"
    "cursor_end map_dim c = Some l" "cmp (Some k) l = Equal \<longleftrightarrow> find_entry (items_of m) k \<noteq> None"
    "\<forall>e. find_entry (items_of m) k = Some e \<longrightarrow> cursor_item c = Some (Some e) \<and> cursor_next map_dim c = Some c'"
    "find_entry (items_of m) k = None \<longrightarrow> c' = c"
    "suffix map_ops map_dim c' = Some (c'', t'')" "st_wf map_ops t''"
    "\<forall>ys. items_of t @ ys @ items_of t'' = splice (\<lambda>e. Some (me_key e)) (Some k) ys (items_of m)"
proof -
  note m = tm_okD [OF assms]
  have asc: "ascending (\<lambda>x. Some (me_key x)) (items_of m)" using m(3) by simp
  have key: "\<forall>x \<in> set (items_of m). Some (me_key x) = Some k \<longrightarrow> Some (me_key x) = Some k" by simp
  obtain c t found c' t'' c'' where cut:
    "slice map_ops map_dim (cmp (Some k)) Left (cursor_new map_dim m) = Some (c, t)"
    "st_wf map_ops t" "items_of t = takeWhile (\<lambda>x. Some (me_key x) < Some k) (items_of m)"
    "cursor_at map_ops map_dim m (length (items_of t)) c" "cursor_item c = Some found"
    "(case found of
        Some x \<Rightarrow> if Some (me_key x) = Some k then map_option (\<lambda>c. (c, Some x)) (cursor_next map_dim c)
          else Some (c, None)
      | None \<Rightarrow> Some (c, None)) = Some (c', lookup (\<lambda>e. Some (me_key e)) (items_of m) (Some k))"
    "suffix map_ops map_dim c' = Some (c'', t'')" "st_wf map_ops t''"
    "items_of t'' = drop_rank (\<lambda>x. Some (me_key x)) (Some k) (dropWhile (\<lambda>x. Some (me_key x) < Some k) (items_of m))"
    by (rule entry.cut_at_key [OF m(1,2), unfolded map_item_simps, OF asc key]) (rule that; assumption)
  have n: "length (items_of t) = length (takeWhile (\<lambda>x. Some (me_key x) < Some k) (items_of m))" by (simp add: cut(3))
  obtain l where l: "cursor_end map_dim c = Some l"
    "cmp (Some k) l = Equal \<longleftrightarrow> lookup (\<lambda>e. Some (me_key e)) (items_of m) (Some k) \<noteq> None"
    using entry.cut_end [OF m(2), unfolded map_item_simps, OF asc key cut(4) n] by auto
  note cases = entry.cut_cases [unfolded map_item_simps, OF cut(6)]
  show ?thesis
  proof (rule that)
    show "\<forall>ys. items_of t @ ys @ items_of t'' = splice (\<lambda>e. Some (me_key e)) (Some k) ys (items_of m)"
      using cut(3,9) by (simp add: splice_def)
    show "\<forall>e. find_entry (items_of m) k = Some e \<longrightarrow> cursor_item c = Some (Some e) \<and> cursor_next map_dim c = Some c'"
      unfolding cut(5) by (intro allI impI) (drule cases(1), simp)
    show "find_entry (items_of m) k = None \<longrightarrow> c' = c" by (intro impI) (rule cases(2))
  qed (use cut(1,2,7,8) l in simp_all)
qed

lemma tm_remove_ok:
  assumes "tm_ok m"
  shows "\<exists>m'. tm_remove m k = Some (m', tm_map m k) \<and> tm_wf m' \<and> tm_map m' = (tm_map m)(k := None)"
proof -
  obtain c t l c' t'' c'' where cut:
    "slice map_ops map_dim (cmp (Some k)) Left (cursor_new map_dim m) = Some (c, t)" "st_wf map_ops t"
    "cursor_end map_dim c = Some l" "cmp (Some k) l = Equal \<longleftrightarrow> find_entry (items_of m) k \<noteq> None"
    "\<forall>e. find_entry (items_of m) k = Some e \<longrightarrow> cursor_item c = Some (Some e) \<and> cursor_next map_dim c = Some c'"
    "find_entry (items_of m) k = None \<longrightarrow> c' = c"
    "suffix map_ops map_dim c' = Some (c'', t'')" "st_wf map_ops t''"
    "\<forall>ys. items_of t @ ys @ items_of t'' = splice (\<lambda>e. Some (me_key e)) (Some k) ys (items_of m)"
    by (rule cut_entry [OF assms, of k]) (rule that; assumption)
  obtain m' where m': "append_tree map_ops t t'' = Some m'" "st_wf map_ops m'" "items_of m' = items_of t @ items_of t''"
    using entry.append_tree_ok [OF cut(2,8)] by blast
  have ed: "items_of m' = edit_items (\<lambda>e. Some (me_key e)) (\<lambda>k. k) [Remove (Some k)] (items_of m)"
    using m'(3) spec [OF cut(9), of "[]"] single_edit(2) [of k "items_of m"] by simp
  have "tm_remove m k = Some (m', tm_map m k)"
    using cut(1,3,4,7) cut(5) cut(6) m'(1)
    by (cases "find_entry (items_of m) k") (auto simp: tm_remove_def tm_map_lookup)
  moreover have "tm_map m' k' = ((tm_map m)(k := None)) k'" for k'
    using edited_wf(2) [OF assms m'(2) ed, of k'] by simp
  ultimately show ?thesis using edited_wf(1) [OF assms m'(2) ed] by auto
qed

lemma tm_update_ok:
  assumes "tm_ok m"
  shows "\<exists>m'. tm_update m k f = Some (m', map_option (\<lambda>v. snd (f v)) (tm_map m k)) \<and> tm_wf m' \<and>
    tm_map m' = (tm_map m)(k := map_option (\<lambda>v. fst (f v)) (tm_map m k))"
proof -
  obtain c t l c' t'' c'' where cut:
    "slice map_ops map_dim (cmp (Some k)) Left (cursor_new map_dim m) = Some (c, t)" "st_wf map_ops t"
    "cursor_end map_dim c = Some l" "cmp (Some k) l = Equal \<longleftrightarrow> find_entry (items_of m) k \<noteq> None"
    "\<forall>e. find_entry (items_of m) k = Some e \<longrightarrow> cursor_item c = Some (Some e) \<and> cursor_next map_dim c = Some c'"
    "find_entry (items_of m) k = None \<longrightarrow> c' = c"
    "suffix map_ops map_dim c' = Some (c'', t'')" "st_wf map_ops t''"
    "\<forall>ys. items_of t @ ys @ items_of t'' = splice (\<lambda>e. Some (me_key e)) (Some k) ys (items_of m)"
    by (rule cut_entry [OF assms, of k]) (rule that; assumption)
  show ?thesis
  proof (cases "find_entry (items_of m) k")
    case None
    obtain m' where m': "append_tree map_ops t t'' = Some m'" "st_wf map_ops m'" "items_of m' = items_of t @ items_of t''"
      using entry.append_tree_ok [OF cut(2,8)] by blast
    have ed: "items_of m' = edit_items (\<lambda>e. Some (me_key e)) (\<lambda>k. k) [Remove (Some k)] (items_of m)"
      using m'(3) spec [OF cut(9), of "[]"] single_edit(2) [of k "items_of m"] by simp
    have "tm_update m k f = Some (m', None)"
      using cut(1,3,4,6,7) None m'(1) by (auto simp: tm_update_def)
    moreover have "tm_map m' k' = ((tm_map m)(k := None)) k'" for k'
      using edited_wf(2) [OF assms m'(2) ed, of k'] by simp
    ultimately show ?thesis
      using edited_wf(1) [OF assms m'(2) ed] None by (auto simp: tm_map_lookup)
  next
    case (Some e)
    let ?e = "e\<lparr>me_value := fst (f (me_value e))\<rparr>"
    have k: "me_key ?e = k" using find_entry_key [OF Some] by simp
    obtain t1 where t1: "st_push map_ops t ?e = Some t1" "st_wf map_ops t1" "items_of t1 = items_of t @ [?e]"
      using entry.st_push_ok [OF cut(2)] by blast
    obtain m' where m': "append_tree map_ops t1 t'' = Some m'" "st_wf map_ops m'" "items_of m' = items_of t1 @ items_of t''"
      using entry.append_tree_ok [OF t1(2) cut(8)] by blast
    have ed: "items_of m' = edit_items (\<lambda>e. Some (me_key e)) (\<lambda>k. k) [Insert ?e] (items_of m)"
      using m'(3) t1(3) spec [OF cut(9), of "[?e]"] single_edit(1) [of ?e "items_of m"] k by simp
    have "tm_update m k f = Some (m', Some (snd (f (me_value e))))"
      using cut(1,3,4,7) cut(5) Some m'(1) t1(1) by (auto simp: tm_update_def split: prod.splits)
    moreover have "tm_map m' k' = ((tm_map m)(k \<mapsto> fst (f (me_value e)))) k'" for k'
      using edited_wf(2) [OF assms m'(2) ed, of k'] k by simp
    ultimately show ?thesis
      using edited_wf(1) [OF assms m'(2) ed] Some by (auto simp: tm_map_lookup)
  qed
qed

subsection \<open>Several keys\<close>

lemma find_unique: "distinct (map f es) \<Longrightarrow> e \<in> set es \<Longrightarrow> find (\<lambda>e'. f e' = f e) es = Some e"
  by (induction es) auto

lemma distinct_mset_map: "mset xs = mset ys \<Longrightarrow> distinct (map f xs) = distinct (map f ys)"
  by (rule mset_eq_imp_distinct_iff) (simp only: mset_map)

lemma find_mset:
  assumes "distinct (map f es)" "mset es' = mset es"
  shows "find (\<lambda>e. f e = x) es' = find (\<lambda>e. f e = x) es"
proof (cases "\<exists>e \<in> set es. f e = x")
  case True
  then obtain e where e: "e \<in> set es" "f e = x" by blast
  have "distinct (map f es')" using assms(1) distinct_mset_map [OF assms(2)] by blast
  moreover have "e \<in> set es'" using e(1) assms(2) by (metis set_mset_mset)
  ultimately show ?thesis using find_unique [of f es' e] find_unique [OF assms(1) e(1)] e(2) by simp
next
  case False
  then have "find (\<lambda>e. f e = x) es = None" by (auto simp: find_None_iff)
  moreover have "find (\<lambda>e. f e = x) es' = None" using False mset_eq_setD [OF assms(2)] by (auto simp: find_None_iff)
  ultimately show ?thesis by simp
qed

lemma sorted_distinct_ascending: "sorted (map f xs) \<Longrightarrow> distinct (map f xs) \<Longrightarrow> ascending f xs"
  by (induction xs) (auto simp: less_le)

abbreviation inserts :: "('k \<times> 'v) list \<Rightarrow> (('k, 'v) map_entry, 'k option) edit list" where
  "inserts entries \<equiv> map (\<lambda>(k, v). Insert \<lparr>me_key = k, me_value = v\<rparr>) entries"

lemma find_inserts:
  "find (\<lambda>e. edit_key (\<lambda>e. Some (me_key e)) e = Some k) (inserts entries) =
     map_option (\<lambda>v. Insert \<lparr>me_key = k, me_value = v\<rparr>) (map_of entries k)"
  by (induction entries) auto

lemma inserts_keys: "map (edit_key (\<lambda>e. Some (me_key e))) (inserts entries) = map (\<lambda>e. Some (fst e)) entries"
  by (induction entries) auto

lemma edit_entries_ok:
  assumes ok: "tm_ok m" and sorter: "sorts_edits (\<lambda>e. Some (me_key e)) (\<lambda>k. k) sorter"
    and dist: "distinct (map fst entries)"
  shows "\<exists>m'. map_option fst (edit_tree sorter map_ops map_item m (inserts entries)) = Some m' \<and> tm_wf m' \<and>
    tm_map m' = tm_map m ++ map_of entries"
proof (cases "entries = []")
  case True
  then show ?thesis using ok by (simp add: edit_tree_def tm_ok_def)
next
  case False
  let ?key = "edit_key (\<lambda>e :: ('a, 'b) map_entry. Some (me_key e))"
  note m = tm_okD [OF ok]
  have keys: "distinct (map ?key (inserts entries))"
    unfolding inserts_keys using dist by (simp add: distinct_map inj_on_def)
  have mset: "mset (sorter (inserts entries)) = mset (inserts entries)" and srt: "sorted (map ?key (sorter (inserts entries)))"
    using sorter by (auto simp: sorts_edits_def)
  have asc: "ascending ?key (sorter (inserts entries))"
  proof (rule sorted_distinct_ascending [OF srt])
    show "distinct (map ?key (sorter (inserts entries)))"
      using keys distinct_mset_map [OF mset] by blast
  qed
  obtain m' where m': "edit_tree sorter map_ops map_item m (inserts entries) =
      Some (m', removed_items (\<lambda>e. Some (me_key e)) (sorter (inserts entries)) (items_of m))" "st_wf map_ops m'"
    "items_of m' = edit_items (\<lambda>e. Some (me_key e)) (\<lambda>k. k) (sorter (inserts entries)) (items_of m)"
    using entry.edit_tree_ok [where sorter = sorter and es = "inserts entries", OF m(1,2),
        unfolded map_item_simps ascending_some, OF m(3) asc] False by auto
  have "tm_map m' k = (tm_map m ++ map_of entries) k" for k
    using edited_wf(2) [OF ok m'(2,3) asc, of k] find_mset [OF keys mset, of "Some k"]
    by (simp add: find_inserts map_add_def split: option.splits)
  then show ?thesis using m'(1) edited_wf(1) [OF ok m'(2,3) asc] by auto
qed

lemma entries_distinct: "tm_wf m \<Longrightarrow> distinct (map fst (entries_of m))"
proof -
  have "ascending me_key xs \<Longrightarrow> distinct (map me_key xs)" for xs :: "('a, 'b) map_entry list"
    by (induction xs) auto
  then show "tm_wf m \<Longrightarrow> distinct (map fst (entries_of m))" by (simp add: tm_wf_def entries_of_def comp_def)
qed

lemma tm_iter_ok: "tm_ok m \<Longrightarrow> tm_iter m = Some (entries_of m)"
  using entry.iter_items_ok tm_okD by (fastforce simp: tm_iter_def entries_of_def)

lemma from_ordered_entries_ok:
  fixes entries :: "('k::linorder \<times> 'v) list"
  shows "\<exists>m. from_ordered_entries entries = Some m \<and> st_wf map_ops m \<and> entries_of m = entries"
  using entry.st_from_iter_ok [of "map (\<lambda>(k, v). \<lparr>me_key = k, me_value = v\<rparr>) entries"]
  by (auto simp: from_ordered_entries_def entries_of_def comp_def case_prod_unfold)

lemma takeWhile_eq_filter_asc:
  assumes "ascending me_key xs" "\<And>a b. a \<le> b \<Longrightarrow> P b \<Longrightarrow> P a"
  shows "takeWhile (\<lambda>e. P (me_key e)) xs = filter (\<lambda>e. P (me_key e)) xs"
    and "dropWhile (\<lambda>e. P (me_key e)) xs = filter (\<lambda>e. \<not> P (me_key e)) xs"
proof -
  have "takeWhile (\<lambda>e. P (me_key e)) xs = filter (\<lambda>e. P (me_key e)) xs \<and>
      dropWhile (\<lambda>e. P (me_key e)) xs = filter (\<lambda>e. \<not> P (me_key e)) xs"
    using assms(1)
  proof (induction xs)
    case (Cons x xs)
    have "\<not> P (me_key y)" if "\<not> P (me_key x)" "y \<in> set xs" for y
      using Cons.prems that assms(2) [of "me_key x" "me_key y"] by (auto simp: less_imp_le)
    then show ?case using Cons by (auto simp: filter_empty_conv filter_id_conv)
  qed simp
  then show "takeWhile (\<lambda>e. P (me_key e)) xs = filter (\<lambda>e. P (me_key e)) xs"
    "dropWhile (\<lambda>e. P (me_key e)) xs = filter (\<lambda>e. \<not> P (me_key e)) xs" by auto
qed

subsection \<open>Ranges and neighbours\<close>

text \<open>A \<open>MapSeekTarget\<close> that is behind a key is behind all smaller keys.\<close>

definition down_closed :: "('k::linorder \<Rightarrow> ordering) \<Rightarrow> bool" where
  "down_closed t \<longleftrightarrow> (\<forall>a b. a \<le> b \<longrightarrow> t b = Greater \<longrightarrow> t a = Greater)"

lemma adaptor_mono: "down_closed t \<Longrightarrow> mono_target (\<lambda>k. k) (target_adaptor t) Left"
  by (auto simp: mono_target_def past_def target_adaptor_def down_closed_def split: option.splits)

lemma remove_range_items:
  assumes "tm_ok m" "down_closed start_target" "down_closed stop_target"
  shows "\<exists>m'. remove_range m start_target stop_target = Some m' \<and> st_wf map_ops m' \<and>
    items_of m' = filter (\<lambda>e. start_target (me_key e) = Greater) (items_of m) @
      filter (\<lambda>e. stop_target (me_key e) \<noteq> Greater) (items_of m)"
proof -
  note m = tm_okD [OF assms(1)]
  let ?xs = "items_of m"
  have past: "past (target_adaptor t) Left (Some k) \<longleftrightarrow> t k = Greater" for t :: "'a \<Rightarrow> ordering" and k
    by (simp add: past_def target_adaptor_def)
  have zero: "target_adaptor t None \<noteq> Less" for t :: "'a \<Rightarrow> ordering" by (simp add: target_adaptor_def)
  have pos: "target_adaptor start_target (cu_position (cursor_new map_dim m)) \<noteq> Less"
    using zero by (simp add: cursor_new_def)
  obtain c t where t: "slice map_ops map_dim (target_adaptor start_target) Left (cursor_new map_dim m) = Some (c, t)"
    "st_wf map_ops t" "items_of t = takeWhile (\<lambda>e. start_target (me_key e) = Greater) ?xs"
    "cursor_at map_ops map_dim m (length (items_of t)) c"
    using entry.slice_keyed [OF m(1,2), unfolded map_item_simps ascending_some,
        OF entry.placed_new [unfolded map_item_simps] m(3) adaptor_mono [OF assms(2)] pos]
    by (auto simp: past)
  have tree: "cu_tree c = m" using t(4) by (simp add: cursor_at_def)
  obtain c1 b where c1: "seek map_dim (target_adaptor stop_target) Left c = Some (c1, b)"
    "cursor_at map_ops map_dim m (length (takeWhile (\<lambda>e. stop_target (me_key e) = Greater) ?xs)) c1"
    using entry.seek_keyed [OF m(1,2), unfolded map_item_simps ascending_some, OF m(3) adaptor_mono [OF assms(3)] zero tree]
    by (auto simp: past)
  obtain c2 t2 where t2: "suffix map_ops map_dim c1 = Some (c2, t2)" "st_wf map_ops t2"
    "items_of t2 = dropWhile (\<lambda>e. stop_target (me_key e) = Greater) ?xs"
    using entry.suffix_at [OF m(1,2), unfolded map_item_simps, OF c1(2)] by (auto simp: entry.drop_takeWhile)
  obtain m' where m': "append_tree map_ops t t2 = Some m'" "st_wf map_ops m'" "items_of m' = items_of t @ items_of t2"
    using entry.append_tree_ok [OF t(2) t2(2)] by blast
  have "remove_range m start_target stop_target = Some m'"
    unfolding remove_range_def using t(1) c1(1) t2(1) m'(1) by simp
  moreover have "items_of t = filter (\<lambda>e. start_target (me_key e) = Greater) ?xs"
    unfolding t(3) using assms(2) by (intro takeWhile_eq_filter_asc(1) [OF m(3)]) (auto simp: down_closed_def)
  moreover have "items_of t2 = filter (\<lambda>e. stop_target (me_key e) \<noteq> Greater) ?xs"
    unfolding t2(3) using assms(3) by (intro takeWhile_eq_filter_asc(2) [OF m(3)]) (auto simp: down_closed_def)
  ultimately show ?thesis using m' by auto
qed

lemma closest_ok:
  assumes "tm_ok m"
  shows "closest m k = Some (let xs = filter (\<lambda>e. me_key e \<le> k) (items_of m)
    in if xs = [] then None else Some (me_key (last xs), me_value (last xs)))"
proof -
  note m = tm_okD [OF assms]
  let ?ys = "takeWhile (\<lambda>e. me_key e \<le> k) (items_of m)"
  obtain c b where c: "seek map_dim (cmp (Some k)) Right (cursor_new map_dim m) = Some (c, b)"
    "cursor_at map_ops map_dim m (length ?ys) c"
    using seek_map_entry(2) [OF assms] by blast
  have pl: "placed map_ops map_dim m (length ?ys) c" "back_start c (length ?ys) = length ?ys"
    using c(2) by (auto simp: placed_def back_start_def cursor_at_def)
  obtain c1 where c1: "cursor_prev map_dim c = Some c1"
    "if length ?ys = 0 then in_front map_dim m c1 else cursor_at map_ops map_dim m (length ?ys - 1) c1"
    using entry.cursor_prev_ok [OF m(1,2), unfolded map_item_simps, OF pl(1), unfolded pl(2)] by blast
  have "cursor_item c1 = Some (if ?ys = [] then None else Some (last ?ys))"
  proof (cases "?ys = []")
    case True
    then show ?thesis using c1(2) by (simp add: in_front_def cursor_item_def)
  next
    case False
    then have "cursor_item c1 = Some (nth_opt (items_of m) (length ?ys - 1))"
      using c1(2) cursor_at_entry [OF assms] by simp
    moreover have "length ?ys - 1 < length (items_of m)"
      using False length_takeWhile_le [of "\<lambda>e. me_key e \<le> k" "items_of m"]
      by (meson diff_less length_greater_0_conv order.strict_trans2 zero_less_one)
    moreover have "last ?ys = ?ys ! (length ?ys - 1)" using False by (rule last_conv_nth)
    moreover have "?ys ! (length ?ys - 1) = items_of m ! (length ?ys - 1)"
      using False by (intro takeWhile_nth) simp
    ultimately show ?thesis using False by (simp add: nth_opt_def)
  qed
  moreover have "?ys = filter (\<lambda>e. me_key e \<le> k) (items_of m)"
    by (rule takeWhile_eq_filter_asc(1) [OF m(3)]) simp
  ultimately show ?thesis using c(1) c1(1) by (simp add: closest_def Let_def)
qed

lemma iter_from_ok:
  assumes "tm_ok m"
  shows "iter_from m k = Some (filter (\<lambda>(k', v). k \<le> k') (entries_of m))"
proof -
  note m = tm_okD [OF assms]
  obtain c b where c: "seek map_dim (cmp (Some k)) Left (cursor_new map_dim m) = Some (c, b)"
    "cursor_at map_ops map_dim m (length (takeWhile (\<lambda>e. me_key e < k) (items_of m))) c"
    using seek_map_entry(1) [OF assms] by blast
  have "collect_iter (cursor_iter_next map_dim) c = Some (dropWhile (\<lambda>e. me_key e < k) (items_of m))"
    using entry.cursor_iter_ok [OF m(1,2), unfolded map_item_simps, OF c(2)] by (simp add: entry.drop_takeWhile)
  moreover have "dropWhile (\<lambda>e. me_key e < k) (items_of m) = filter (\<lambda>e. \<not> me_key e < k) (items_of m)"
    by (rule takeWhile_eq_filter_asc(2) [OF m(3)]) simp
  ultimately show ?thesis
    using c(1) by (simp add: iter_from_def entries_of_def filter_map comp_def not_less)
qed

lemma retain_loop_ok:
  assumes "tm_ok m"
  shows "cursor_at map_ops map_dim m j c \<Longrightarrow> st_wf map_ops new \<Longrightarrow>
    \<exists>m'. retain_loop predicate c p new = Some (m', snd (filter_state predicate p (drop j (items_of m)))) \<and> st_wf map_ops m' \<and>
      items_of m' = items_of new @ fst (filter_state predicate p (drop j (items_of m)))"
proof (induction "length (items_of m) - j" arbitrary: j c p new)
  case 0
  then show ?case
    using cursor_at_entry [OF assms 0(2)] by (subst retain_loop.simps) (simp add: nth_opt_def)
next
  case (Suc n)
  note m = tm_okD [OF assms]
  let ?x = "items_of m ! j"
  have j: "j < length (items_of m)" using Suc(2) by simp
  obtain keep p' where p': "predicate p (me_key ?x) (me_value ?x) = (keep, p')" by fastforce
  have pl: "placed map_ops map_dim m j c" "search_start c j = Suc j"
    using Suc.prems(1) j by (auto simp: placed_def search_start_def cursor_at_def)
  obtain c' where c': "cursor_next map_dim c = Some c'" "cursor_at map_ops map_dim m (Suc j) c'"
    using entry.cursor_next_ok [OF m(1,2), unfolded map_item_simps, OF pl(1)] pl(2) by auto
  obtain new' where new': "(if keep then st_push map_ops new ?x else Some new) = Some new'" "st_wf map_ops new'"
    "items_of new' = items_of new @ (if keep then [?x] else [])"
    using entry.st_push_ok [OF Suc.prems(2), of ?x] Suc.prems(2) by (cases keep) auto
  have "n = length (items_of m) - Suc j" using Suc(2) by simp
  from Suc.hyps(1) [OF this c'(2) new'(2), of p'] show ?case
    using cursor_at_entry [OF assms Suc.prems(1)] j p' new'(1,3) c'(1)
    by (subst retain_loop.simps) (auto simp: nth_opt_def simp flip: Cons_nth_drop_Suc split: prod.splits)
qed

lemma filter_state_Cons:
  obtains keep p' where "fst (filter_state predicate p (x # xs)) =
    (if keep then [x] else []) @ fst (filter_state predicate p' xs)"
proof -
  obtain keep p' where pr: "predicate p (me_key x) (me_value x) = (keep, p')" by fastforce
  show ?thesis by (rule that [of keep p']) (simp add: pr split: prod.splits)
qed

lemma filter_state_set: "set (fst (filter_state predicate p xs)) \<subseteq> set xs"
proof (induction xs arbitrary: p)
  case (Cons x xs)
  obtain keep p' where f: "fst (filter_state predicate p (x # xs)) =
      (if keep then [x] else []) @ fst (filter_state predicate p' xs)"
    by (rule filter_state_Cons)
  show ?case unfolding f using Cons.IH [of p'] by auto
qed simp

lemma filter_state_ascending: "ascending me_key xs \<Longrightarrow> ascending me_key (fst (filter_state predicate p xs))"
proof (induction xs arbitrary: p)
  case (Cons x xs)
  obtain keep p' where f: "fst (filter_state predicate p (x # xs)) =
      (if keep then [x] else []) @ fst (filter_state predicate p' xs)"
    by (rule filter_state_Cons)
  have "ascending me_key (fst (filter_state predicate p' xs))" using Cons by simp
  then show ?case unfolding f using Cons.prems filter_state_set [of predicate p' xs] by auto
qed simp

lemma retain_ok:
  assumes "tm_ok m"
  shows "\<exists>m'. retain predicate p m = Some (m', snd (filter_state predicate p (items_of m))) \<and> tm_wf m' \<and>
    items_of m' = fst (filter_state predicate p (items_of m))"
proof -
  note m = tm_okD [OF assms]
  have st: "search_start (cursor_new map_dim m) 0 = 0" by (simp add: search_start_def cursor_new_def)
  obtain c where c: "cursor_next map_dim (cursor_new map_dim m) = Some c" "cursor_at map_ops map_dim m 0 c"
    using entry.cursor_next_ok [OF m(1,2), unfolded map_item_simps, OF entry.placed_new [unfolded map_item_simps]] st by auto
  from retain_loop_ok [OF assms c(2) conjunct1 [OF entry.st_new_ok], of predicate p,
      unfolded conjunct2 [OF entry.st_new_ok] drop_0 append_Nil]
  show ?thesis
    using c(1) filter_state_ascending [OF m(3), of predicate p] by (auto simp: retain_def tm_wf_def)
qed

lemma tm_map_dom: "dom (tm_map m) = me_key ` set (items_of m)"
  by (simp add: tm_map_def entries_of_def dom_map_of_conv_image_fst image_image)

lemma tm_map_member: "tm_ok m \<Longrightarrow> e \<in> set (items_of m) \<Longrightarrow> tm_map m (me_key e) = Some (me_value e)"
  unfolding tm_map_def tm_ok_def using entries_distinct [of m] by (intro map_of_is_SomeI) (auto simp: entries_of_def)

lemma ascending_sorted: "ascending f xs \<Longrightarrow> sorted (map f xs)"
  by (induction xs) (auto simp: less_imp_le)

lemma ascending_filter: "ascending f xs \<Longrightarrow> ascending f (filter P xs)"
  by (induction xs) auto

lemma ascending_last: "ascending f xs \<Longrightarrow> x \<in> set xs \<Longrightarrow> f x \<le> f (last xs)"
  by (induction xs) (auto simp: less_imp_le)

lemma closest_greatest:
  assumes "tm_ok m"
  shows "\<exists>r. closest m k = Some r \<and>
      (case r of
         None \<Rightarrow> \<forall>k'. k' \<in> dom (tm_map m) \<longrightarrow> k < k'
       | Some (k0, v) \<Rightarrow> k0 \<le> k \<and> tm_map m k0 = Some v \<and> (\<forall>k'. k' \<in> dom (tm_map m) \<longrightarrow> k' \<le> k \<longrightarrow> k' \<le> k0))"
proof -
  let ?ys = "filter (\<lambda>e. me_key e \<le> k) (items_of m)"
  note c = closest_ok [OF assms, of k, unfolded Let_def]
  show ?thesis
  proof (cases "?ys = []")
    case True
    then have "\<forall>e \<in> set (items_of m). k < me_key e" by (auto simp: filter_empty_conv not_le)
    then show ?thesis using c True by (auto simp: tm_map_dom)
  next
    case False
    note asc = ascending_filter [OF tm_okD(3) [OF assms], of "\<lambda>e. me_key e \<le> k"]
    have "last ?ys \<in> set ?ys" using False by (rule last_in_set)
    then have l: "last ?ys \<in> set (items_of m)" "me_key (last ?ys) \<le> k" by auto
    have "k' \<le> me_key (last ?ys)" if "k' \<in> dom (tm_map m)" "k' \<le> k" for k'
      using that ascending_last [OF asc] by (auto simp: tm_map_dom)
    then show ?thesis using c False l tm_map_member [OF assms l(1)] by auto
  qed
qed

lemma find_entry_filter: "find_entry (filter (\<lambda>e. P (me_key e)) xs) k = (if P k then find_entry xs k else None)"
  by (induction xs) auto

text \<open>On an empty map, \<open>extend\<close> keeps every entry.\<close>

lemma edit_loop_empty:
  "cursor_item c = Some None \<Longrightarrow>
   edit_loop ops ki es c new buf rem = Some (c, new, buf @ concat (map edit_inserts es), rem)"
  by (induction es arbitrary: buf) simp_all

lemma mset_concat_map: "mset (concat (map g xs)) = sum_mset (image_mset (\<lambda>x. mset (g x)) (mset xs))"
  by (induction xs) simp_all

lemma concat_inserts: "concat (map edit_inserts (inserts entries)) = map (\<lambda>(k, v). \<lparr>me_key = k, me_value = v\<rparr>) entries"
  by (induction entries) auto

lemma tm_default_ok: "tm_ok (tm_default :: ('k::linorder, 'v) tree_map)"
  using entry.st_new_ok by (simp add: tm_ok_def tm_wf_def tm_default_def) (simp add: st_new_def STACK_CAPACITY_def)

lemma extend_empty:
  assumes "entries \<noteq> []"
  shows "\<exists>m'. tm_extend sorter (tm_default :: ('k::linorder, 'v) tree_map) entries = Some m' \<and> st_wf map_ops m' \<and>
    items_of m' = concat (map edit_inserts (sorter (inserts entries)))"
proof -
  let ?m = "tm_default :: ('k, 'v) tree_map"
  have m: "st_height ?m < STACK_CAPACITY" "st_wf map_ops ?m" "items_of ?m = []"
    using tm_okD [OF tm_default_ok] by (simp_all add: tm_default_def) (simp add: st_new_def)
  have tree: "cu_tree (cursor_new map_dim ?m) = ?m" by (simp add: cursor_new_def)
  have zero: "cmp (None :: 'k option) None \<noteq> Less" by (simp add: cmp_def)
  have asc: "ascending me_key (items_of ?m)" by (simp add: m(3))
  obtain c b where c: "seek map_dim (cmp None) Left (cursor_new map_dim ?m) = Some (c, b)"
    "cursor_at map_ops map_dim ?m 0 c"
    using entry.seek_keyed [OF m(1,2), unfolded map_item_simps ascending_some,
        OF asc entry.mono_cmp [unfolded map_item_simps, of None Left] zero tree] m(3) by auto
  have item: "cursor_item c = Some None"
    using entry.cursor_at_item(1) [OF m(2), unfolded map_item_simps, OF c(2)] m(3) by (simp add: nth_opt_def)
  let ?xs = "concat (map edit_inserts (sorter (inserts entries)))"
  obtain t1 where t1: "st_extend map_ops (st_new map_ops :: ('k, 'v) tree_map) ?xs = Some t1" "st_wf map_ops t1" "items_of t1 = ?xs"
    using entry.st_extend_ok [OF conjunct1 [OF entry.st_new_ok], of ?xs] conjunct2 [OF entry.st_new_ok] by auto
  obtain c2 t2 where t2: "suffix map_ops map_dim c = Some (c2, t2)" "st_wf map_ops t2" "items_of t2 = []"
    using entry.suffix_at [OF m(1,2), unfolded map_item_simps, OF c(2)] m(3) by auto
  obtain m' where "append_tree map_ops t1 t2 = Some m'" "st_wf map_ops m'" "items_of m' = items_of t1 @ items_of t2"
    using entry.append_tree_ok [OF t1(2) t2(2)] by blast
  then show ?thesis
    using assms c(1) edit_loop_empty [OF item] t1(1,3) t2(1,3) by (simp add: tm_extend_def edit_tree_def)
qed

section \<open>Properties\<close>

text \<open>
  C35. Refinement. A map whose height fits the cursor's stack implements a partial function: \<open>get\<close> reads
  it, \<open>insert\<close> updates one point, \<open>remove\<close> returns the old value and deletes the point, \<open>update\<close> applies
  its function to the value, if there is one. No operation panics, and each result is again a
  well-formed map.
\<close>

theorem tree_map_refines:
  assumes "tm_ok m"
  shows "tm_get m k = Some (tm_map m k) \<and>
    (\<exists>m'. tm_insert m k v = Some m' \<and> tm_wf m' \<and> tm_map m' = (tm_map m)(k \<mapsto> v)) \<and>
    (\<exists>m'. tm_remove m k = Some (m', tm_map m k) \<and> tm_wf m' \<and> tm_map m' = (tm_map m)(k := None)) \<and>
    (\<exists>m'. tm_update m k f = Some (m', map_option (\<lambda>v. snd (f v)) (tm_map m k)) \<and> tm_wf m' \<and>
       tm_map m' = (tm_map m)(k := map_option (\<lambda>v. fst (f v)) (tm_map m k)))"
  using tm_get_ok [OF assms] tm_insert_ok [OF assms] tm_remove_ok [OF assms] tm_update_ok [OF assms] by blast

text \<open>
  Series of insertions. For entries with distinct keys, and whatever order \<open>sort_unstable_by_key\<close>
  chooses, \<open>extend\<close> overrides the map with the entries, and \<open>insert_tree\<close> with another map.
\<close>

theorem tree_map_extend:
  assumes "tm_ok m" and "tm_ok other" and "sorts_edits (\<lambda>e. Some (me_key e)) (\<lambda>k. k) sorter"
    and "distinct (map fst entries)"
  shows "(\<exists>m'. tm_extend sorter m entries = Some m' \<and> tm_wf m' \<and> tm_map m' = tm_map m ++ map_of entries) \<and>
    (\<exists>m'. insert_tree sorter m other = Some m' \<and> tm_wf m' \<and> tm_map m' = tm_map m ++ tm_map other)"
proof -
  have "distinct (map fst (entries_of other))" using assms(2) entries_distinct [of other] by (simp add: tm_ok_def)
  then show ?thesis
    using edit_entries_ok [OF assms(1,3,4)] edit_entries_ok [OF assms(1,3), of "entries_of other"]
      tm_iter_ok [OF assms(2)]
    by (simp add: tm_extend_def insert_tree_def tm_map_def)
qed

text \<open>
  Queries in key order. \<open>iter\<close> gives the entries with ascending keys, \<open>iter_from\<close> those from a key on,
  \<open>first\<close> and \<open>last\<close> the ends, and \<open>closest\<close> the entry with the greatest key that is at most the given
  one.
\<close>

theorem tree_map_order:
  assumes "tm_ok m"
  shows "tm_iter m = Some (entries_of m) \<and> sorted (map fst (entries_of m)) \<and> map_of (entries_of m) = tm_map m \<and>
    iter_from m k = Some (filter (\<lambda>(k', v). k \<le> k') (entries_of m)) \<and>
    tm_first m = Some (if entries_of m = [] then None else Some (hd (entries_of m))) \<and>
    tm_last m = Some (if entries_of m = [] then None else Some (last (entries_of m))) \<and>
    (\<exists>r. closest m k = Some r \<and>
      (case r of
         None \<Rightarrow> \<forall>k'. k' \<in> dom (tm_map m) \<longrightarrow> k < k'
       | Some (k0, v) \<Rightarrow> k0 \<le> k \<and> tm_map m k0 = Some v \<and> (\<forall>k'. k' \<in> dom (tm_map m) \<longrightarrow> k' \<le> k \<longrightarrow> k' \<le> k0)))"
proof -
  note m = tm_okD [OF assms]
  have "sorted (map fst (entries_of m))"
    using ascending_sorted [OF m(3)] by (simp add: entries_of_def comp_def)
  moreover have "tm_first m = Some (if entries_of m = [] then None else Some (hd (entries_of m)))"
    using st_first_ok [OF m(2)] by (auto simp: tm_first_def entries_of_def hd_map)
  moreover have "tm_last m = Some (if entries_of m = [] then None else Some (last (entries_of m)))"
    using st_last_ok [OF m(2)] by (auto simp: tm_last_def entries_of_def last_map)
  ultimately show ?thesis
    using tm_iter_ok [OF assms] iter_from_ok [OF assms] closest_greatest [OF assms] by (simp add: tm_map_def)
qed

text \<open>
  Bulk removal. \<open>retain\<close> ends, shows every entry to the predicate once and in key order, and keeps
  those it accepts. \<open>remove_range\<close> keeps the keys in front of the start or not in front of the end.
\<close>

theorem tree_map_bulk_removal:
  assumes "tm_ok m" and "down_closed start_target" and "down_closed stop_target"
    and "\<And>k. start_target k = Greater \<Longrightarrow> stop_target k = Greater"
  shows "(\<exists>m'. retain predicate p m = Some (m', snd (filter_state predicate p (items_of m))) \<and> tm_wf m' \<and>
       items_of m' = fst (filter_state predicate p (items_of m))) \<and>
     (\<exists>m'. remove_range m start_target stop_target = Some m' \<and> tm_wf m' \<and>
       tm_map m' = tm_map m |` {k. start_target k = Greater \<or> stop_target k \<noteq> Greater})"
proof -
  note m = tm_okD [OF assms(1)]
  let ?P = "\<lambda>e. start_target (me_key e) = Greater" and ?Q = "\<lambda>e. stop_target (me_key e) \<noteq> Greater"
  obtain m' where m': "remove_range m start_target stop_target = Some m'" "st_wf map_ops m'"
    "items_of m' = filter ?P (items_of m) @ filter ?Q (items_of m)"
    using remove_range_items [OF assms(1-3)] by blast
  have "me_key x < me_key y" if "start_target (me_key x) = Greater" "stop_target (me_key y) \<noteq> Greater" for x y :: "('a, 'b) map_entry"
    using that assms(3) assms(4) [of "me_key x"] unfolding down_closed_def by (metis not_le)
  then have "ascending me_key (items_of m')"
    unfolding m'(3) using ascending_filter [OF m(3)] by auto
  moreover have "find_entry (filter ?P xs @ filter ?Q xs) k =
      (if start_target k = Greater \<or> stop_target k \<noteq> Greater then find_entry xs k else None)" for xs :: "('a, 'b) map_entry list" and k
    using assms(4) [of k] find_entry_filter [of "\<lambda>k. start_target k = Greater" xs k]
      find_entry_filter [of "\<lambda>k. stop_target k \<noteq> Greater" xs k]
    by (auto simp: lookup_append split: option.splits)
  ultimately show ?thesis
    using retain_ok [OF assms(1)] m' by (auto simp: tm_wf_def tm_map_lookup fun_eq_iff restrict_map_def)
qed

text \<open>
  Duplicate keys in \<open>extend\<close>. On an empty map every given entry is kept, also those whose keys are
  equal: then the result has several entries with one key and is no longer a well-formed map.
\<close>

theorem extend_keeps_duplicates:
  assumes "sorts_edits (\<lambda>e. Some (me_key e)) (\<lambda>k. k) sorter" and "entries \<noteq> []"
  shows "\<exists>m'. tm_extend sorter (tm_default :: ('k::linorder, 'v) tree_map) entries = Some m' \<and>
    mset (entries_of m') = mset entries \<and> (tm_wf m' \<longleftrightarrow> distinct (map fst entries))"
proof -
  obtain m' where m': "tm_extend sorter (tm_default :: ('k, 'v) tree_map) entries = Some m'" "st_wf map_ops m'"
    "items_of m' = concat (map edit_inserts (sorter (inserts entries)))"
    using extend_empty [OF assms(2)] by blast
  have "mset (sorter (inserts entries)) = mset (inserts entries)" using assms(1) by (auto simp: sorts_edits_def)
  then have "mset (items_of m') = mset (map (\<lambda>(k, v). \<lparr>me_key = k, me_value = v\<rparr>) entries)"
    unfolding m'(3) by (metis concat_inserts mset_concat_map)
  then have "mset (map (\<lambda>e. (me_key e, me_value e)) (items_of m')) =
      mset (map (\<lambda>e. (me_key e, me_value e)) (map (\<lambda>(k, v). \<lparr>me_key = k, me_value = v\<rparr>) entries))"
    by (simp only: mset_map)
  then have ms: "mset (entries_of m') = mset entries"
    by (simp only: entries_of_def map_map comp_def) (simp add: case_prod_unfold)
  have "tm_wf m'" if "distinct (map fst entries)"
    using edit_entries_ok [OF tm_default_ok assms(1) that] m'(1) by (auto simp: tm_extend_def)
  then show ?thesis using m'(1) ms entries_distinct [of m'] distinct_mset_map [OF ms, of fst] by auto
qed

section \<open>An example\<close>

definition two_entries :: "(nat, nat) tree_map" where
  "two_entries = Leaf (Some 5) [\<lparr>me_key = 3, me_value = 10\<rparr>, \<lparr>me_key = 5, me_value = 20\<rparr>] [Some 3, Some 5]"

lemma two_entries_ok: "tm_ok two_entries" "entries_of two_entries = [(3, 10), (5, 20)]"
  by (simp_all add: tm_ok_def tm_wf_def two_entries_def STACK_CAPACITY_def sum_of_def entries_of_def)

definition sort_edits :: "(('k::linorder, 'v) map_entry, 'k option) edit list \<Rightarrow> (('k, 'v) map_entry, 'k option) edit list" where
  "sort_edits es = sort_key (edit_key (\<lambda>e. Some (me_key e))) es"

lemma sort_edits_sorts: "sorts_edits (\<lambda>e. Some (me_key e)) (\<lambda>k. k) sort_edits"
  by (simp add: sorts_edits_def sort_edits_def)

theorem tree_map_refines_witness:
  "tm_get two_entries 5 = Some (Some 20) \<and>
   (\<exists>m'. tm_insert two_entries 4 30 = Some m' \<and> tm_map m' 4 = Some 30 \<and> tm_map m' 3 = Some 10) \<and>
   (\<exists>m'. tm_remove two_entries 5 = Some (m', Some 20) \<and> tm_map m' 5 = None)"
proof -
  have t: "tm_map two_entries 5 = Some 20" "tm_map two_entries 3 = Some 10" by (simp_all add: tm_map_def two_entries_ok(2))
  show ?thesis
    using tree_map_refines [OF two_entries_ok(1), of 5 0 "\<lambda>v. (v, ())"]
      tree_map_refines [OF two_entries_ok(1), of 4 30 "\<lambda>v. (v, ())"]
    unfolding t by (auto simp: t)
qed

theorem tree_map_extend_witness:
  "\<exists>m'. tm_extend sort_edits two_entries [(4, 30), (3, 7)] = Some m' \<and> tm_map m' 3 = Some 7 \<and> tm_map m' 5 = Some 20"
  using tree_map_extend [OF two_entries_ok(1) two_entries_ok(1) sort_edits_sorts, of "[(4, 30), (3, 7)]"]
  by (auto simp: tm_map_def two_entries_ok(2))

theorem tree_map_order_witness:
  "iter_from two_entries 4 = Some [(5, 20)] \<and> tm_last two_entries = Some (Some (5, 20))"
  using tree_map_order [OF two_entries_ok(1), of 4] unfolding two_entries_ok(2) by simp

theorem tree_map_bulk_removal_witness:
  "\<exists>m'. remove_range two_entries (cmp 4) (cmp 6) = Some m' \<and> tm_map m' 3 = Some 10 \<and> tm_map m' 5 = None"
proof -
  have d: "down_closed (cmp (n :: nat))" for n by (auto simp: down_closed_def cmp_def split: if_splits)
  have le: "cmp 4 k = Greater \<Longrightarrow> cmp (6 :: nat) k = Greater" for k by (auto simp: cmp_def split: if_splits)
  have t: "tm_map two_entries 5 = Some 20" "tm_map two_entries 3 = Some 10" by (simp_all add: tm_map_def two_entries_ok(2))
  obtain m' where "remove_range two_entries (cmp 4) (cmp 6) = Some m'"
    "tm_map m' = tm_map two_entries |` {k. cmp 4 k = Greater \<or> cmp 6 k \<noteq> Greater}"
    using tree_map_bulk_removal [where start_target = "cmp 4" and stop_target = "cmp (6 :: nat)"
        and predicate = "\<lambda>p _ _. (True, p)" and p = "()", OF two_entries_ok(1) d d le] by blast
  then show ?thesis using t by (simp add: cmp_def restrict_map_def)
qed

theorem extend_keeps_duplicates_witness:
  "\<exists>m'. tm_extend sort_edits (tm_default :: (nat, nat) tree_map) [(3, 10), (3, 20)] = Some m' \<and>
     mset (entries_of m') = {#(3, 10), (3, 20)#} \<and> \<not> tm_wf m'"
  using extend_keeps_duplicates [OF sort_edits_sorts, of "[(3, 10), (3, 20)] :: (nat \<times> nat) list"] by auto

end
