(* ===== verification/Tab_Stop.thy ===== *)
theory Tab_Stop
  imports Keyed_Tree "HOL-Library.List_Lexorder" "HOL-Library.Product_Lexorder"
begin

text \<open>
  The tab order of \<open>crates/gpui/src/tab_stop.rs\<close>: focus handles are kept in a tree of keyed items, ordered by
  the path of tab indices of their groups and then by insertion. The theory shows that the tree
  always holds the inserted handles in that order, that \<open>next\<close> and \<open>prev\<close> walk around the tab stops
  in a circle, and that the insertion history rebuilds the map. \<open>None\<close> is a panic, a failed
  \<open>debug_assert\<close> included.
\<close>

section \<open>Data\<close>

record focus_handle =
  fh_id :: nat
  fh_tab_index :: int
  fh_tab_stop :: bool

datatype tab_stop_operation = InsertHandle focus_handle | Group int | GroupEnd

fun operation_handle :: "tab_stop_operation \<Rightarrow> focus_handle option" where
  "operation_handle (InsertHandle h) = Some h"
| "operation_handle (Group _) = None"
| "operation_handle GroupEnd = None"

record tab_stop_node =
  tn_path :: "int list"
  tn_insertion_index :: nat
  tn_tab_stop :: bool

definition tn_default :: tab_stop_node where
  "tn_default = \<lparr>tn_path = [], tn_insertion_index = 0, tn_tab_stop = False\<rparr>"

text \<open>\<open>Ord for TabStopNode\<close>, and the same comparison as a seek target.\<close>

definition tn_cmp :: "tab_stop_node \<Rightarrow> tab_stop_node \<Rightarrow> ordering" where
  "tn_cmp a b =
     (case cmp (tn_path a) (tn_path b) of
        Equal \<Rightarrow> cmp (tn_insertion_index a) (tn_insertion_index b)
      | Less \<Rightarrow> Less
      | Greater \<Rightarrow> Greater)"

record node_summary =
  ns_max_index :: nat
  ns_max_path :: "int list"
  ns_tab_stops :: nat

definition node_ops :: "(tab_stop_node, node_summary) summary_ops" where
  "node_ops =
     \<lparr>so_summary = (\<lambda>n. \<lparr>ns_max_index = tn_insertion_index n, ns_max_path = tn_path n,
        ns_tab_stops = (if tn_tab_stop n then 1 else 0)\<rparr>),
      so_zero = \<lparr>ns_max_index = 0, ns_max_path = [], ns_tab_stops = 0\<rparr>,
      so_add = (\<lambda>a b. \<lparr>ns_max_index = ns_max_index b, ns_max_path = ns_max_path b,
        ns_tab_stops = ns_tab_stops a + ns_tab_stops b\<rparr>)\<rparr>"

definition node_dim :: "(node_summary, tab_stop_node) dimension" where
  "node_dim =
     \<lparr>dim_zero = tn_default,
      dim_add = (\<lambda>n s. n\<lparr>tn_insertion_index := ns_max_index s, tn_path := ns_max_path s\<rparr>)\<rparr>"

definition tab_stop_count_dim :: "(node_summary, nat) dimension" where
  "tab_stop_count_dim = \<lparr>dim_zero = 0, dim_add = (\<lambda>n s. n + ns_tab_stops s)\<rparr>"

definition node_item :: "(tab_stop_node, node_summary, tab_stop_node) keyed_item" where
  "node_item = \<lparr>ki_key = (\<lambda>n. n), ki_dim = node_dim, ki_cmp = tn_cmp\<rparr>"

record tab_stop_map =
  ts_current_path :: "int list"
  ts_insertion_history :: "tab_stop_operation list"
  ts_by_id :: "nat \<rightharpoonup> tab_stop_node"
  ts_order :: "(tab_stop_node, node_summary) sum_tree"

section \<open>Operations\<close>

definition ts_default :: tab_stop_map where
  "ts_default = \<lparr>ts_current_path = [], ts_insertion_history = [], ts_by_id = Map.empty, ts_order = st_new node_ops\<rparr>"

definition ts_insert_handle :: "tab_stop_map \<Rightarrow> focus_handle \<Rightarrow> tab_stop_map option" where
  "ts_insert_handle m focus_handle =
     (let history = ts_insertion_history m @ [InsertHandle focus_handle];
          path = ts_current_path m @ [fh_tab_index focus_handle];
          order = \<lparr>tn_path = path, tn_insertion_index = length history - 1, tn_tab_stop = fh_tab_stop focus_handle\<rparr>
      in map_option
           (\<lambda>(tree, _). m\<lparr>ts_insertion_history := history, ts_by_id := (ts_by_id m)(fh_id focus_handle \<mapsto> order),
              ts_order := tree\<rparr>)
           (insert_or_replace node_ops node_item (ts_order m) order))"

definition ts_begin_group :: "tab_stop_map \<Rightarrow> int \<Rightarrow> tab_stop_map" where
  "ts_begin_group m tab_index =
     m\<lparr>ts_insertion_history := ts_insertion_history m @ [Group tab_index],
       ts_current_path := ts_current_path m @ [tab_index]\<rparr>"

definition ts_end_group :: "tab_stop_map \<Rightarrow> tab_stop_map" where
  "ts_end_group m =
     m\<lparr>ts_insertion_history := ts_insertion_history m @ [GroupEnd],
       ts_current_path := butlast (ts_current_path m)\<rparr>"

definition ts_clear :: "tab_stop_map \<Rightarrow> tab_stop_map" where
  "ts_clear m = ts_default\<lparr>ts_current_path := [], ts_insertion_history := [], ts_by_id := Map.empty,
     ts_order := st_new node_ops\<rparr>"

definition ts_step :: "tab_stop_operation \<Rightarrow> tab_stop_map \<Rightarrow> tab_stop_map option" where
  "ts_step node m =
     (case node of
        InsertHandle focus_handle \<Rightarrow> ts_insert_handle m focus_handle
      | Group tab_index \<Rightarrow> Some (ts_begin_group m tab_index)
      | GroupEnd \<Rightarrow> Some (ts_end_group m))"

fun ts_replay :: "tab_stop_operation list \<Rightarrow> tab_stop_map \<Rightarrow> tab_stop_map option" where
  "ts_replay [] m = Some m"
| "ts_replay (node # nodes) m = Option.bind (ts_step node m) (ts_replay nodes)"

definition paint_index :: "tab_stop_map \<Rightarrow> nat" where
  "paint_index m = length (ts_insertion_history m)"

definition focus_handle_for_order :: "tab_stop_map \<Rightarrow> tab_stop_node \<Rightarrow> focus_handle option" where
  "focus_handle_for_order m order =
     Option.bind (nth_opt (ts_insertion_history m) (tn_insertion_index order)) operation_handle"

definition tab_node_for_focus_id :: "tab_stop_map \<Rightarrow> nat \<Rightarrow> tab_stop_node option" where
  "tab_node_for_focus_id m focused_id = ts_by_id m focused_id"

partial_function (option) skip_non_stops ::
  "((tab_stop_node, node_summary, tab_stop_node) cursor \<Rightarrow> (tab_stop_node, node_summary, tab_stop_node) cursor option) \<Rightarrow>
   (tab_stop_node, node_summary, tab_stop_node) cursor \<Rightarrow> tab_stop_node option option" where
  "skip_non_stops step c =
     (case cursor_item c of
        None \<Rightarrow> None
      | Some None \<Rightarrow> Some None
      | Some (Some item) \<Rightarrow>
          if tn_tab_stop item then Some (Some item)
          else (case step c of None \<Rightarrow> None | Some c' \<Rightarrow> skip_non_stops step c'))"

definition next_inner :: "tab_stop_map \<Rightarrow> tab_stop_node \<Rightarrow> tab_stop_node option option" where
  "next_inner m node =
     do {
       (c, _) \<leftarrow> seek node_dim (tn_cmp node) Left (cursor_new node_dim (ts_order m));
       c \<leftarrow> cursor_next node_dim c;
       skip_non_stops (cursor_next node_dim) c
     }"

definition prev_inner :: "tab_stop_map \<Rightarrow> tab_stop_node \<Rightarrow> tab_stop_node option option" where
  "prev_inner m node =
     do {
       (c, _) \<leftarrow> seek node_dim (tn_cmp node) Left (cursor_new node_dim (ts_order m));
       c \<leftarrow> cursor_prev node_dim c;
       skip_non_stops (cursor_prev node_dim) c
     }"

text \<open>The inner \<open>None\<close> is the \<open>None\<close> of the code.\<close>

definition handle_of :: "tab_stop_map \<Rightarrow> tab_stop_node option \<Rightarrow> focus_handle option option" where
  "handle_of m node = (case node of None \<Rightarrow> Some None | Some n \<Rightarrow> map_option Some (focus_handle_for_order m n))"

definition ts_next_none :: "tab_stop_map \<Rightarrow> focus_handle option option" where
  "ts_next_none m =
     (case st_first (ts_order m) of
        None \<Rightarrow> None
      | Some None \<Rightarrow> Some None
      | Some (Some first) \<Rightarrow>
          if tn_tab_stop first then handle_of m (Some first) else Option.bind (next_inner m first) (handle_of m))"

definition ts_next :: "tab_stop_map \<Rightarrow> nat option \<Rightarrow> focus_handle option option" where
  "ts_next m focused =
     (case focused of
        None \<Rightarrow> ts_next_none m
      | Some focused_id \<Rightarrow>
          (case tab_node_for_focus_id m focused_id of
             None \<Rightarrow> ts_next_none m
           | Some node \<Rightarrow>
               do {
                 item \<leftarrow> next_inner m node;
                 if item = None then ts_next_none m else handle_of m item
               }))"

definition ts_prev_none :: "tab_stop_map \<Rightarrow> focus_handle option option" where
  "ts_prev_none m =
     (case st_last (ts_order m) of
        None \<Rightarrow> None
      | Some None \<Rightarrow> Some None
      | Some (Some last_node) \<Rightarrow>
          if tn_tab_stop last_node then handle_of m (Some last_node)
          else Option.bind (prev_inner m last_node) (handle_of m))"

definition ts_prev :: "tab_stop_map \<Rightarrow> nat option \<Rightarrow> focus_handle option option" where
  "ts_prev m focused =
     (case focused of
        None \<Rightarrow> ts_prev_none m
      | Some focused_id \<Rightarrow>
          (case tab_node_for_focus_id m focused_id of
             None \<Rightarrow> ts_prev_none m
           | Some node \<Rightarrow>
               do {
                 item \<leftarrow> prev_inner m node;
                 if item = None then ts_prev_none m else handle_of m item
               }))"

section \<open>The laws of keyed items\<close>

definition tn_rank :: "tab_stop_node \<Rightarrow> int list \<times> nat" where
  "tn_rank n = (tn_path n, tn_insertion_index n)"

lemma tn_cmp_rank: "tn_cmp a b = cmp (tn_rank a) (tn_rank b)"
  by (auto simp: tn_cmp_def tn_rank_def cmp_def less_prod_def less_eq_prod_def)

lemma node_item_simps [simp]:
  "ki_key node_item = (\<lambda>n. n)" "ki_dim node_item = node_dim" "ki_cmp node_item = tn_cmp"
  "dim_zero node_dim = tn_default"
  by (simp_all add: node_item_def node_dim_def)

interpretation node: keyed_laws node_ops node_item tn_rank
  by unfold_locales
    (simp_all add: node_ops_def node_dim_def tn_rank_def tn_default_def tn_cmp_rank less_eq_prod_def)

section \<open>Specification\<close>

text \<open>What a history of operations inserts: each handle with its node, and the path of open groups.\<close>

fun hist_path :: "int list \<Rightarrow> tab_stop_operation list \<Rightarrow> int list" where
  "hist_path path [] = path"
| "hist_path path (InsertHandle _ # ops) = hist_path path ops"
| "hist_path path (Group t # ops) = hist_path (path @ [t]) ops"
| "hist_path path (GroupEnd # ops) = hist_path (butlast path) ops"

fun hist_entries :: "int list \<Rightarrow> nat \<Rightarrow> tab_stop_operation list \<Rightarrow> (focus_handle \<times> tab_stop_node) list" where
  "hist_entries path i [] = []"
| "hist_entries path i (InsertHandle h # ops) =
     (h, \<lparr>tn_path = path @ [fh_tab_index h], tn_insertion_index = i, tn_tab_stop = fh_tab_stop h\<rparr>) #
       hist_entries path (Suc i) ops"
| "hist_entries path i (Group t # ops) = hist_entries (path @ [t]) (Suc i) ops"
| "hist_entries path i (GroupEnd # ops) = hist_entries (butlast path) (Suc i) ops"

abbreviation inserted :: "tab_stop_map \<Rightarrow> (focus_handle \<times> tab_stop_node) list" where
  "inserted m \<equiv> hist_entries [] 0 (ts_insertion_history m)"

definition ts_inv :: "tab_stop_map \<Rightarrow> bool" where
  "ts_inv m \<longleftrightarrow>
     st_wf node_ops (ts_order m) \<and> ascending tn_rank (items_of (ts_order m)) \<and>
     mset (items_of (ts_order m)) = mset (map snd (inserted m)) \<and>
     ts_current_path m = hist_path [] (ts_insertion_history m) \<and>
     ts_by_id m = map_of (rev (map (\<lambda>(h, n). (fh_id h, n)) (inserted m)))"

definition ts_fits :: "tab_stop_map \<Rightarrow> bool" where
  "ts_fits m \<longleftrightarrow> st_height (ts_order m) < STACK_CAPACITY"

text \<open>The handles that are tab stops, in tab order.\<close>

definition tab_handles :: "tab_stop_map \<Rightarrow> focus_handle list" where
  "tab_handles m = List.map_filter (focus_handle_for_order m) (filter tn_tab_stop (items_of (ts_order m)))"

inductive ts_reachable :: "tab_stop_map \<Rightarrow> bool" where
  ts_start: "ts_reachable ts_default"
| ts_more: "ts_reachable m \<Longrightarrow> ts_fits m \<Longrightarrow> ts_step op m = Some m' \<Longrightarrow> ts_reachable m'"

section \<open>The invariant\<close>

lemma hist_path_append: "hist_path p (os @ os') = hist_path (hist_path p os) os'"
  by (induction p os rule: hist_path.induct) simp_all

lemma hist_entries_append:
  "hist_entries p i (os @ os') = hist_entries p i os @ hist_entries (hist_path p os) (i + length os) os'"
  by (induction p i os rule: hist_entries.induct) simp_all

lemma hist_entries_member:
  "(h, n) \<in> set (hist_entries p i os) \<Longrightarrow>
   i \<le> tn_insertion_index n \<and> tn_insertion_index n < i + length os \<and>
   os ! (tn_insertion_index n - i) = InsertHandle h \<and> tn_tab_stop n = fh_tab_stop h"
proof (induction p i os rule: hist_entries.induct)
  case (2 path i h' os)
  then show ?case by (fastforce simp: nth_Cons')
qed (fastforce simp: nth_Cons')+

lemma hist_entries_sorted: "sorted_wrt (\<lambda>a b. tn_insertion_index (snd a) < tn_insertion_index (snd b)) (hist_entries p i os)"
  by (induction p i os rule: hist_entries.induct) (auto dest: hist_entries_member)

lemma inserted_handle:
  assumes "ts_inv m" "n \<in> set (items_of (ts_order m))"
  obtains h where "(h, n) \<in> set (inserted m)" "focus_handle_for_order m n = Some h" "tn_tab_stop n = fh_tab_stop h"
    "tn_insertion_index n < length (ts_insertion_history m)"
proof -
  have "n \<in> set (map snd (inserted m))" using assms by (metis set_mset_mset ts_inv_def)
  then obtain h where h: "(h, n) \<in> set (inserted m)" by auto
  from hist_entries_member [OF h] show ?thesis
    using h that by (simp add: focus_handle_for_order_def nth_opt_def)
qed

lemma splice_fresh:
  assumes "\<forall>x \<in> set xs. rk x \<noteq> r" shows "mset (splice rk r [y] xs) = add_mset y (mset xs)"
proof -
  have "drop_rank rk r zs = zs" if "set zs \<subseteq> set xs" for zs using assms that by (cases zs) auto
  moreover have "set (dropWhile (\<lambda>x. rk x < r) xs) \<subseteq> set xs" by (auto dest: set_dropWhileD)
  ultimately have "splice rk r [y] xs = takeWhile (\<lambda>x. rk x < r) xs @ y # dropWhile (\<lambda>x. rk x < r) xs"
    by (simp add: splice_def)
  then show ?thesis by (metis mset.simps(2) mset_append takeWhile_dropWhile_id union_mset_add_mset_right)
qed

lemma ts_insert_ok:
  assumes "ts_inv m" "ts_fits m"
  shows "\<exists>m'. ts_insert_handle m h = Some m' \<and> ts_inv m' \<and>
    ts_insertion_history m' = ts_insertion_history m @ [InsertHandle h]"
proof -
  let ?n = "\<lparr>tn_path = ts_current_path m @ [fh_tab_index h], tn_insertion_index = length (ts_insertion_history m),
    tn_tab_stop = fh_tab_stop h\<rparr>"
  let ?xs = "items_of (ts_order m)"
  have inv: "st_wf node_ops (ts_order m)" "ascending tn_rank ?xs" "mset ?xs = mset (map snd (inserted m))"
    "ts_current_path m = hist_path [] (ts_insertion_history m)"
    "ts_by_id m = map_of (rev (map (\<lambda>(h, n). (fh_id h, n)) (inserted m)))"
    using assms(1) by (simp_all add: ts_inv_def)
  have "tn_insertion_index x < length (ts_insertion_history m)" if "x \<in> set ?xs" for x
    using inserted_handle [OF assms(1) that] by blast
  then have fresh: "\<forall>x \<in> set ?xs. tn_rank x \<noteq> tn_rank ?n" by (fastforce simp: tn_rank_def)
  obtain t r where t: "insert_or_replace node_ops node_item (ts_order m) ?n = Some (t, r)" "st_wf node_ops t"
    "items_of t = splice tn_rank (tn_rank ?n) [?n] ?xs"
    using node.insert_or_replace_ok [unfolded node_item_simps, OF assms(2) [unfolded ts_fits_def] inv(1,2), of ?n] fresh
    by blast
  have "ascending tn_rank (items_of t)" unfolding t(3) by (rule splice_ascending [OF inv(2)]) simp_all
  moreover have "mset (items_of t) = mset (map snd (inserted m @ [(h, ?n)]))"
    unfolding t(3) splice_fresh [OF fresh] using inv(3) by simp
  ultimately show ?thesis
    using t(1,2) inv(4,5)
    by (auto simp: ts_insert_handle_def Let_def ts_inv_def hist_entries_append hist_path_append)
qed

lemma ts_step_ok:
  assumes "ts_inv m" "ts_fits m"
  shows "\<exists>m'. ts_step op m = Some m' \<and> ts_inv m' \<and> ts_insertion_history m' = ts_insertion_history m @ [op]"
proof (cases op)
  case (InsertHandle h)
  then show ?thesis using ts_insert_ok [OF assms] by (simp add: ts_step_def)
qed (use assms(1) in \<open>auto simp: ts_step_def ts_begin_group_def ts_end_group_def ts_inv_def hist_entries_append hist_path_append\<close>)

lemma ts_default_inv: "ts_inv ts_default"
  using node.st_new_ok by (simp add: ts_inv_def ts_default_def)

lemma ts_reachable_inv: "ts_reachable m \<Longrightarrow> ts_inv m"
proof (induction rule: ts_reachable.induct)
  case (ts_more m op m')
  then show ?case using ts_step_ok [of m op] by auto
qed (rule ts_default_inv)

section \<open>Walking over the tab order\<close>

definition ts_ok :: "tab_stop_map \<Rightarrow> bool" where
  "ts_ok m \<longleftrightarrow> ts_inv m \<and> ts_fits m"

lemma ts_okD:
  assumes "ts_ok m"
  shows "st_height (ts_order m) < STACK_CAPACITY" "st_wf node_ops (ts_order m)"
    "ascending tn_rank (items_of (ts_order m))" "ts_inv m"
  using assms by (simp_all add: ts_ok_def ts_inv_def ts_fits_def)

lemma seek_node:
  assumes "ts_ok m" "i < length (items_of (ts_order m))"
  shows "\<exists>c b. seek node_dim (tn_cmp (items_of (ts_order m) ! i)) Left (cursor_new node_dim (ts_order m)) = Some (c, b) \<and>
    cursor_at node_ops node_dim (ts_order m) i c"
proof -
  note m = ts_okD [OF assms(1)]
  let ?xs = "items_of (ts_order m)"
  have tree: "cu_tree (cursor_new node_dim (ts_order m)) = ts_order m" by (simp add: cursor_new_def)
  have split: "?xs = take i ?xs @ ?xs ! i # drop (Suc i) ?xs" by (rule id_take_nth_drop [OF assms(2)])
  have "ascending tn_rank (take i ?xs @ ?xs ! i # drop (Suc i) ?xs)" using m(3) split by simp
  then have "takeWhile (\<lambda>x. tn_rank x < tn_rank (?xs ! i)) ?xs = take i ?xs"
    by (subst split) (auto simp: takeWhile_tail)
  then show ?thesis
    using node.seek_keyed [unfolded node_item_simps, OF m(1-3) node.mono_cmp [unfolded node_item_simps, of "?xs ! i" Left]
        node.cmp_zero [unfolded node_item_simps] tree] assms(2)
    by (simp add: node.past_cmp [unfolded node_item_simps])
qed

lemma node_item_at:
  "ts_ok m \<Longrightarrow> cursor_at node_ops node_dim (ts_order m) k c \<Longrightarrow>
   cursor_item c = Some (nth_opt (items_of (ts_order m)) k)"
  using node.cursor_at_item(1) [unfolded node_item_simps, OF ts_okD(2)] .

lemma skip_forward:
  assumes "ts_ok m"
  shows "cursor_at node_ops node_dim (ts_order m) k c \<Longrightarrow>
    skip_non_stops (cursor_next node_dim) c = Some (find tn_tab_stop (drop k (items_of (ts_order m))))"
proof (induction "length (items_of (ts_order m)) - k" arbitrary: k c)
  case 0
  then show ?case using node_item_at [OF assms 0(2)] by (subst skip_non_stops.simps) (simp add: nth_opt_def)
next
  case (Suc n)
  note m = ts_okD [OF assms]
  have k: "k < length (items_of (ts_order m))" using Suc(2) by simp
  have pl: "placed node_ops node_dim (ts_order m) k c" "search_start c k = Suc k"
    using Suc.prems k by (auto simp: placed_def search_start_def cursor_at_def)
  obtain c' where c': "cursor_next node_dim c = Some c'" "cursor_at node_ops node_dim (ts_order m) (Suc k) c'"
    using node.cursor_next_ok [unfolded node_item_simps, OF m(1,2) pl(1)] unfolding pl(2) by blast
  have "n = length (items_of (ts_order m)) - Suc k" using Suc(2) by simp
  from Suc.hyps(1) [OF this c'(2)] show ?case
    using node_item_at [OF assms Suc.prems] c'(1) k
    by (subst skip_non_stops.simps) (simp add: nth_opt_def flip: Cons_nth_drop_Suc)
qed

lemma skip_backward:
  assumes "ts_ok m"
  shows "cursor_at node_ops node_dim (ts_order m) k c \<Longrightarrow> k < length (items_of (ts_order m)) \<Longrightarrow>
    skip_non_stops (cursor_prev node_dim) c = Some (find tn_tab_stop (rev (take (Suc k) (items_of (ts_order m)))))"
proof (induction k arbitrary: c)
  case 0
  note m = ts_okD [OF assms]
  have pl: "placed node_ops node_dim (ts_order m) 0 c" "back_start c 0 = 0"
    using 0 by (auto simp: placed_def back_start_def cursor_at_def)
  obtain c' where "cursor_prev node_dim c = Some c'" "in_front node_dim (ts_order m) c'"
    using node.cursor_prev_ok [unfolded node_item_simps, OF m(1,2) pl(1)] pl(2) by auto
  moreover from this have "skip_non_stops (cursor_prev node_dim) c' = Some None"
    by (subst skip_non_stops.simps) (simp add: cursor_item_def in_front_def)
  ultimately show ?case
    using node_item_at [OF assms 0(1)] 0(2)
    by (subst skip_non_stops.simps) (simp add: nth_opt_def take_Suc_conv_app_nth)
next
  case (Suc k)
  note m = ts_okD [OF assms]
  have pl: "placed node_ops node_dim (ts_order m) (Suc k) c" "back_start c (Suc k) = Suc k"
    using Suc.prems by (auto simp: placed_def back_start_def cursor_at_def)
  obtain c' where c': "cursor_prev node_dim c = Some c'" "cursor_at node_ops node_dim (ts_order m) k c'"
    using node.cursor_prev_ok [unfolded node_item_simps, OF m(1,2) pl(1)] pl(2) by auto
  have "k < length (items_of (ts_order m))" using Suc.prems(2) by simp
  from Suc.IH [OF c'(2) this] show ?case
    using node_item_at [OF assms Suc.prems(1)] c'(1) Suc.prems(2)
    by (subst skip_non_stops.simps) (simp add: nth_opt_def take_Suc_conv_app_nth [of "Suc k"])
qed

lemma next_inner_ok:
  assumes "ts_ok m" "i < length (items_of (ts_order m))"
  shows "next_inner m (items_of (ts_order m) ! i) = Some (find tn_tab_stop (drop (Suc i) (items_of (ts_order m))))"
proof -
  note m = ts_okD [OF assms(1)]
  obtain c b where c: "seek node_dim (tn_cmp (items_of (ts_order m) ! i)) Left (cursor_new node_dim (ts_order m)) = Some (c, b)"
    "cursor_at node_ops node_dim (ts_order m) i c"
    using seek_node [OF assms] by blast
  have pl: "placed node_ops node_dim (ts_order m) i c" "search_start c i = Suc i"
    using c(2) assms(2) by (auto simp: placed_def search_start_def cursor_at_def)
  obtain c' where "cursor_next node_dim c = Some c'" "cursor_at node_ops node_dim (ts_order m) (Suc i) c'"
    using node.cursor_next_ok [unfolded node_item_simps, OF m(1,2) pl(1)] unfolding pl(2) by blast
  then show ?thesis using c(1) skip_forward [OF assms(1)] by (simp add: next_inner_def)
qed

lemma prev_inner_ok:
  assumes "ts_ok m" "i < length (items_of (ts_order m))"
  shows "prev_inner m (items_of (ts_order m) ! i) = Some (find tn_tab_stop (rev (take i (items_of (ts_order m)))))"
proof -
  note m = ts_okD [OF assms(1)]
  obtain c b where c: "seek node_dim (tn_cmp (items_of (ts_order m) ! i)) Left (cursor_new node_dim (ts_order m)) = Some (c, b)"
    "cursor_at node_ops node_dim (ts_order m) i c"
    using seek_node [OF assms] by blast
  have pl: "placed node_ops node_dim (ts_order m) i c" "back_start c i = i"
    using c(2) by (auto simp: placed_def back_start_def cursor_at_def)
  obtain c' where c': "cursor_prev node_dim c = Some c'"
    "if i = 0 then in_front node_dim (ts_order m) c' else cursor_at node_ops node_dim (ts_order m) (i - 1) c'"
    using node.cursor_prev_ok [unfolded node_item_simps, OF m(1,2) pl(1)] unfolding pl(2) by blast
  have "skip_non_stops (cursor_prev node_dim) c' = Some (find tn_tab_stop (rev (take i (items_of (ts_order m)))))"
  proof (cases i)
    case 0
    then show ?thesis
      using c'(2) by (subst skip_non_stops.simps) (simp add: cursor_item_def in_front_def)
  next
    case (Suc j)
    then show ?thesis using c'(2) skip_backward [OF assms(1), of j c'] assms(2) by simp
  qed
  then show ?thesis using c(1) c'(1) by (simp add: prev_inner_def)
qed

lemma find_filter_hd: "find P xs = (case filter P xs of [] \<Rightarrow> None | x # _ \<Rightarrow> Some x)"
  by (induction xs) auto

definition node_handle :: "tab_stop_map \<Rightarrow> tab_stop_node \<Rightarrow> focus_handle" where
  "node_handle m n = the (focus_handle_for_order m n)"

lemma node_handle:
  assumes "ts_ok m" "n \<in> set (items_of (ts_order m))"
  shows "focus_handle_for_order m n = Some (node_handle m n)" "(node_handle m n, n) \<in> set (inserted m)"
proof -
  obtain h where "(h, n) \<in> set (inserted m)" "focus_handle_for_order m n = Some h"
    using inserted_handle [OF ts_okD(4) [OF assms(1)] assms(2)] by blast
  then show "focus_handle_for_order m n = Some (node_handle m n)" "(node_handle m n, n) \<in> set (inserted m)"
    by (simp_all add: node_handle_def)
qed

lemma map_filter_handles:
  assumes "ts_ok m"
  shows "set ns \<subseteq> set (items_of (ts_order m)) \<Longrightarrow> List.map_filter (focus_handle_for_order m) ns = map (node_handle m) ns"
  by (induction ns) (simp_all add: List.map_filter_simps node_handle [OF assms])

lemma tab_handles_eq: "ts_ok m \<Longrightarrow> tab_handles m = map (node_handle m) (filter tn_tab_stop (items_of (ts_order m)))"
  unfolding tab_handles_def by (rule map_filter_handles) auto

lemma handle_of_find:
  assumes "ts_ok m" "set ns \<subseteq> set (items_of (ts_order m))"
  shows "handle_of m (find tn_tab_stop ns) =
    Some (case map (node_handle m) (filter tn_tab_stop ns) of [] \<Rightarrow> None | h # _ \<Rightarrow> Some h)"
proof (cases "filter tn_tab_stop ns")
  case (Cons n ns')
  then have "n \<in> set (items_of (ts_order m))" using assms(2) by (metis filter_is_subset list.set_intros(1) subset_iff)
  then show ?thesis using Cons node_handle(1) [OF assms(1)] by (simp add: find_filter_hd handle_of_def)
qed (simp add: find_filter_hd handle_of_def)

text \<open>Without a focused element, \<open>next\<close> and \<open>prev\<close> find the first and the last tab stop.\<close>

lemma ts_next_none_ok:
  assumes "ts_ok m"
  shows "ts_next_none m = handle_of m (find tn_tab_stop (items_of (ts_order m)))"
proof (cases "items_of (ts_order m)")
  case Nil
  then show ?thesis using st_first_ok [OF ts_okD(2) [OF assms]] by (simp add: ts_next_none_def handle_of_def)
next
  case (Cons n ns)
  then have "st_first (ts_order m) = Some (Some n)" using st_first_ok [OF ts_okD(2) [OF assms]] by simp
  moreover have "next_inner m n = Some (find tn_tab_stop ns)" using next_inner_ok [OF assms, of 0] Cons by simp
  ultimately show ?thesis using Cons by (simp add: ts_next_none_def)
qed

lemma ts_prev_none_ok:
  assumes "ts_ok m"
  shows "ts_prev_none m = handle_of m (find tn_tab_stop (rev (items_of (ts_order m))))"
proof (cases "items_of (ts_order m)" rule: rev_cases)
  case Nil
  then show ?thesis using st_last_ok [OF ts_okD(2) [OF assms]] by (simp add: ts_prev_none_def handle_of_def)
next
  case (snoc ns n)
  then have "st_last (ts_order m) = Some (Some n)" using st_last_ok [OF ts_okD(2) [OF assms]] by simp
  moreover have "prev_inner m n = Some (find tn_tab_stop (rev ns))"
    using prev_inner_ok [OF assms, of "length ns"] snoc by (simp add: nth_append)
  ultimately show ?thesis using snoc by (simp add: ts_prev_none_def)
qed

text \<open>From a focused element, they find the nearest tab stop behind or in front of it, or start over.\<close>

lemma ts_next_focused:
  assumes "ts_ok m" "ts_by_id m f = Some n" "items_of (ts_order m) = as @ n # bs"
  shows "ts_next m (Some f) = handle_of m (find tn_tab_stop (bs @ items_of (ts_order m)))"
    and "ts_prev m (Some f) = handle_of m (find tn_tab_stop (rev as @ rev (items_of (ts_order m))))"
proof -
  have n: "n = items_of (ts_order m) ! length as" "length as < length (items_of (ts_order m))" using assms(3) by simp_all
  have find_append: "find P (xs @ ys) = (if find P xs = None then find P ys else find P xs)" for P :: "'x \<Rightarrow> bool" and xs ys
    by (induction xs) auto
  have "next_inner m n = Some (find tn_tab_stop bs)"
    using next_inner_ok [OF assms(1) n(2)] unfolding n(1) [symmetric] assms(3) by simp
  then show "ts_next m (Some f) = handle_of m (find tn_tab_stop (bs @ items_of (ts_order m)))"
    using ts_next_none_ok [OF assms(1)] assms(2)
    by (simp add: ts_next_def tab_node_for_focus_id_def find_append)
  have "prev_inner m n = Some (find tn_tab_stop (rev as))"
    using prev_inner_ok [OF assms(1) n(2)] unfolding n(1) [symmetric] assms(3) by simp
  then show "ts_prev m (Some f) = handle_of m (find tn_tab_stop (rev as @ rev (items_of (ts_order m))))"
    using ts_prev_none_ok [OF assms(1)] assms(2)
    by (simp add: ts_prev_def tab_node_for_focus_id_def find_append)
qed

lemma nth_filter_split:
  "i < length (filter P xs) \<Longrightarrow> \<exists>as x bs. xs = as @ x # bs \<and> P x \<and> length (filter P as) = i \<and> x = filter P xs ! i"
proof (induction xs arbitrary: i)
  case (Cons y xs)
  show ?case
  proof (cases "P y \<and> i = 0")
    case True
    then show ?thesis by (intro exI [of _ "[]"] exI [of _ y] exI [of _ xs]) simp
  next
    case False
    let ?i = "if P y then i - 1 else i"
    have "?i < length (filter P xs)" using Cons.prems False by (auto split: if_splits)
    from Cons.IH [OF this] obtain as x bs where "xs = as @ x # bs" "P x" "length (filter P as) = ?i"
      "x = filter P xs ! ?i" by blast
    then show ?thesis
      using False by (intro exI [of _ "y # as"] exI [of _ x] exI [of _ bs]) (auto simp: nth_Cons')
  qed
qed simp

lemma by_id_distinct:
  assumes "ts_inv m" "distinct (map (\<lambda>e. fh_id (fst e)) (inserted m))" "(h, n) \<in> set (inserted m)"
  shows "ts_by_id m (fh_id h) = Some n"
proof -
  have "ts_by_id m = map_of (rev (map (\<lambda>(h, n). (fh_id h, n)) (inserted m)))" using assms(1) by (simp add: ts_inv_def)
  moreover have "distinct (map fst (rev (map (\<lambda>(h, n). (fh_id h, n)) (inserted m))))"
    using assms(2) by (simp add: comp_def case_prod_unfold flip: rev_map)
  ultimately show ?thesis using assms(3) by (force intro: map_of_is_SomeI)
qed

text \<open>One step around the circle.\<close>

lemma tab_step:
  assumes ok: "ts_ok m" and dist: "distinct (map (\<lambda>e. fh_id (fst e)) (inserted m))" and i: "i < length (tab_handles m)"
  shows "ts_next m (Some (fh_id (tab_handles m ! i))) = Some (Some (tab_handles m ! (Suc i mod length (tab_handles m))))"
    and "ts_prev m (Some (fh_id (tab_handles m ! i))) =
      Some (Some (tab_handles m ! ((i + length (tab_handles m) - 1) mod length (tab_handles m))))"
proof -
  let ?xs = "items_of (ts_order m)" and ?H = "\<lambda>ns. map (node_handle m) (filter tn_tab_stop ns)"
  let ?hs = "tab_handles m"
  have "i < length (filter tn_tab_stop ?xs)" using i by (simp add: tab_handles_eq [OF ok])
  from nth_filter_split [OF this] obtain as n bs where split: "?xs = as @ n # bs" "tn_tab_stop n"
    "length (filter tn_tab_stop as) = i" by blast
  have n: "n \<in> set ?xs" by (simp add: split(1))
  let ?h = "node_handle m n"
  have hs: "?hs = ?H as @ ?h # ?H bs" unfolding tab_handles_eq [OF ok] split(1) using split(2) by simp
  have hi: "?hs ! i = ?h" unfolding hs using split(3) by (simp add: nth_append)
  have id: "ts_by_id m (fh_id ?h) = Some n"
    using by_id_distinct [OF ts_okD(4) [OF ok] dist node_handle(2) [OF ok n]] .
  have "ts_next m (Some (fh_id ?h)) = Some (case ?H bs @ ?hs of [] \<Rightarrow> None | h # _ \<Rightarrow> Some h)"
    unfolding ts_next_focused(1) [OF ok id split(1)] tab_handles_eq [OF ok]
    by (subst handle_of_find [OF ok]) (auto simp: split(1))
  moreover have "(case ?H bs @ ?hs of [] \<Rightarrow> None | h # _ \<Rightarrow> Some h) = Some (?hs ! (Suc i mod length ?hs))"
    unfolding hs using split(3) by (cases "?H bs"; cases "?H as") (auto simp: nth_append)
  ultimately show "ts_next m (Some (fh_id (?hs ! i))) = Some (Some (?hs ! (Suc i mod length ?hs)))"
    unfolding hi by simp
  have "ts_prev m (Some (fh_id ?h)) = Some (case rev (?H as) @ rev ?hs of [] \<Rightarrow> None | h # _ \<Rightarrow> Some h)"
    unfolding ts_next_focused(2) [OF ok id split(1)] tab_handles_eq [OF ok]
    by (subst handle_of_find [OF ok]) (auto simp: split(1) rev_filter rev_map)
  moreover have "(case rev (?H as) @ rev ?hs of [] \<Rightarrow> None | h # _ \<Rightarrow> Some h) =
      Some (?hs ! ((i + length ?hs - 1) mod length ?hs))"
  proof (cases "?H as" rule: rev_cases)
    case Nil
    then have "i = 0" using split(3) by simp
    then show ?thesis
      unfolding hs Nil by (cases "?H bs" rule: rev_cases) (auto simp: nth_append nth_Cons')
  next
    case (snoc ys y)
    then have "i = Suc (length ys)" using split(3) by (metis length_append_singleton length_map)
    moreover have "(Suc (length ys) + length ?hs - 1) mod length ?hs = length ys"
    proof -
      have "length ys < length ?hs" unfolding hs snoc by simp
      then show ?thesis by (metis add_Suc diff_Suc_1 mod_add_self2 mod_less)
    qed
    ultimately show ?thesis unfolding hs snoc by (simp add: nth_append)
  qed
  ultimately show "ts_prev m (Some (fh_id (?hs ! i))) = Some (Some (?hs ! ((i + length ?hs - 1) mod length ?hs)))"
    unfolding hi by simp
qed

text \<open>Pressing the key for the next tab stop several times.\<close>

fun press_next :: "nat \<Rightarrow> tab_stop_map \<Rightarrow> focus_handle \<Rightarrow> focus_handle option option" where
  "press_next 0 m h = Some (Some h)"
| "press_next (Suc k) m h =
     (case ts_next m (Some (fh_id h)) of Some (Some h') \<Rightarrow> press_next k m h' | r \<Rightarrow> r)"

lemma press_next_ok:
  assumes "ts_ok m" "distinct (map (\<lambda>e. fh_id (fst e)) (inserted m))"
  shows "i < length (tab_handles m) \<Longrightarrow>
    press_next k m (tab_handles m ! i) = Some (Some (tab_handles m ! ((i + k) mod length (tab_handles m))))"
proof (induction k arbitrary: i)
  case (Suc k)
  have "Suc i mod length (tab_handles m) < length (tab_handles m)" using Suc.prems by (intro mod_less_divisor) auto
  from Suc.IH [OF this] show ?case
    using tab_step(1) [OF assms Suc.prems] by (simp add: mod_add_left_eq)
qed simp

lemma ts_replay_append: "ts_replay (os @ os') m = Option.bind (ts_replay os m) (ts_replay os')"
proof (induction os arbitrary: m)
  case (Cons op os)
  then show ?case by (cases "ts_step op m") simp_all
qed simp

section \<open>Properties\<close>

text \<open>
  C38. Tab order. In every map reached from the empty one by inserting handles and opening and closing
  groups, the tree holds exactly the inserted handles, sorted by the path of tab indices and then by
  insertion, and a handle is found by the id it was last inserted with. No operation panics.
\<close>

theorem tab_order_invariant:
  assumes "ts_reachable m"
  shows "mset (items_of (ts_order m)) = mset (map snd (inserted m)) \<and>
    sorted_wrt (\<lambda>a b. (tn_path a, tn_insertion_index a) < (tn_path b, tn_insertion_index b)) (items_of (ts_order m)) \<and>
    ts_by_id m = map_of (rev (map (\<lambda>(h, n). (fh_id h, n)) (inserted m))) \<and>
    (ts_fits m \<longrightarrow> (\<exists>m'. ts_step op m = Some m' \<and> ts_reachable m'))"
proof -
  have inv: "ts_inv m" by (rule ts_reachable_inv [OF assms])
  then have "ts_fits m \<longrightarrow> (\<exists>m'. ts_step op m = Some m' \<and> ts_reachable m')"
    using ts_step_ok [OF inv, of op] ts_more [OF assms] by blast
  then show ?thesis using inv by (simp add: ts_inv_def ascending_def tn_rank_def)
qed

text \<open>
  Replay. The insertion history of a reachable map rebuilds the map, starting from the empty one.
\<close>

theorem replay_history:
  assumes "ts_reachable m"
  shows "ts_replay (ts_insertion_history m) ts_default = Some m"
  using assms
proof (induction rule: ts_reachable.induct)
  case ts_start
  then show ?case by (simp add: ts_default_def)
next
  case (ts_more m op m')
  have "ts_insertion_history m' = ts_insertion_history m @ [op]"
    using ts_step_ok [OF ts_reachable_inv [OF ts_more(1)] ts_more(2), of op] ts_more(3) by auto
  then show ?case using ts_more(3,4) by (simp add: ts_replay_append)
qed

text \<open>
  C39. Walking in a circle. When the inserted handles have different ids, \<open>next\<close> goes from each tab stop to
  the following one in tab order and from the last to the first, \<open>prev\<close> the other way round, and
  without focus they start at the first and the last one.
\<close>

theorem tab_circle:
  assumes "ts_ok m" and "distinct (map (\<lambda>e. fh_id (fst e)) (inserted m))" and "i < length (tab_handles m)"
  shows "let hs = tab_handles m in
    ts_next m (Some (fh_id (hs ! i))) = Some (Some (hs ! (Suc i mod length hs))) \<and>
    ts_prev m (Some (fh_id (hs ! i))) = Some (Some (hs ! ((i + length hs - 1) mod length hs))) \<and>
    ts_next m None = Some (Some (hd hs)) \<and> ts_prev m None = Some (Some (last hs))"
proof -
  have ne: "tab_handles m \<noteq> []" using assms(3) by auto
  have "ts_next m None = Some (Some (hd (tab_handles m)))"
    using handle_of_find [OF assms(1) order.refl] ts_next_none_ok [OF assms(1)] ne
    unfolding tab_handles_eq [OF assms(1)] by (cases "filter tn_tab_stop (items_of (ts_order m))") (simp_all add: ts_next_def)
  moreover have "ts_prev m None = Some (Some (last (tab_handles m)))"
    using handle_of_find [OF assms(1), of "rev (items_of (ts_order m))"] ts_prev_none_ok [OF assms(1)] ne
    unfolding tab_handles_eq [OF assms(1)]
    by (cases "filter tn_tab_stop (items_of (ts_order m))" rule: rev_cases) (simp_all add: ts_prev_def flip: rev_filter)
  ultimately show ?thesis using tab_step [OF assms] by (simp add: Let_def)
qed

text \<open>
  C40. Every tab stop is reached. From any tab stop, going to the next one \<open>k\<close> times leads \<open>k\<close> places further
  around the circle: every other tab stop is reached in less than one round.
\<close>

theorem tab_reaches_every_stop:
  assumes "ts_ok m" and "distinct (map (\<lambda>e. fh_id (fst e)) (inserted m))"
    and "i < length (tab_handles m)" and "j < length (tab_handles m)"
  shows "press_next k m (tab_handles m ! i) = Some (Some (tab_handles m ! ((i + k) mod length (tab_handles m)))) \<and>
    (\<exists>k' < length (tab_handles m). press_next k' m (tab_handles m ! i) = Some (Some (tab_handles m ! j)))"
proof -
  let ?n = "length (tab_handles m)" and ?k = "(j + length (tab_handles m) - i) mod length (tab_handles m)"
  have "(i + ?k) mod ?n = j" using assms(3,4) by (simp add: mod_add_right_eq)
  moreover have "?k < ?n" using assms(3) by (intro mod_less_divisor) auto
  ultimately show ?thesis using press_next_ok [OF assms(1-3)] by metis
qed

section \<open>An example\<close>

definition example_nodes :: "tab_stop_node list" where
  "example_nodes = [\<lparr>tn_path = [3, 0], tn_insertion_index = 2, tn_tab_stop = True\<rparr>,
     \<lparr>tn_path = [4], tn_insertion_index = 0, tn_tab_stop = True\<rparr>]"

definition example_map :: tab_stop_map where
  "example_map =
     \<lparr>ts_current_path = [],
      ts_insertion_history = [InsertHandle \<lparr>fh_id = 7, fh_tab_index = 4, fh_tab_stop = True\<rparr>, Group 3,
        InsertHandle \<lparr>fh_id = 8, fh_tab_index = 0, fh_tab_stop = True\<rparr>, GroupEnd],
      ts_by_id = [7 \<mapsto> example_nodes ! 1, 8 \<mapsto> example_nodes ! 0],
      ts_order = Leaf (sum_of node_ops (map (so_summary node_ops) example_nodes)) example_nodes
        (map (so_summary node_ops) example_nodes)\<rparr>"

lemma example_map_ok: "ts_ok example_map" "distinct (map (\<lambda>e. fh_id (fst e)) (inserted example_map))"
  "tab_handles example_map = [\<lparr>fh_id = 8, fh_tab_index = 0, fh_tab_stop = True\<rparr>, \<lparr>fh_id = 7, fh_tab_index = 4, fh_tab_stop = True\<rparr>]"
  by (simp_all add: example_map_def example_nodes_def ts_ok_def ts_inv_def ts_fits_def STACK_CAPACITY_def tn_rank_def
      less_prod_def less_eq_prod_def tab_handles_def List.map_filter_simps focus_handle_for_order_def nth_opt_def fun_eq_iff)

theorem tab_circle_witness:
  "ts_next example_map (Some 8) = Some (Some \<lparr>fh_id = 7, fh_tab_index = 4, fh_tab_stop = True\<rparr>) \<and>
   ts_next example_map (Some 7) = Some (Some \<lparr>fh_id = 8, fh_tab_index = 0, fh_tab_stop = True\<rparr>)"
  using tab_circle [OF example_map_ok(1,2), of 0] tab_circle [OF example_map_ok(1,2), of 1]
  by (simp add: example_map_ok(3))

theorem tab_reaches_every_stop_witness:
  "\<exists>k < 2. press_next k example_map (tab_handles example_map ! 0) = Some (Some (tab_handles example_map ! 1))"
proof -
  have len: "length (tab_handles example_map) = 2" by (simp add: example_map_ok(3))
  show ?thesis using tab_reaches_every_stop [OF example_map_ok(1,2), of 0 1 0] unfolding len by simp
qed

lemma group_reachable: "ts_reachable (ts_begin_group ts_default 5)"
proof (rule ts_more [OF ts_start])
  show "ts_fits ts_default" by (simp add: ts_fits_def ts_default_def st_new_def STACK_CAPACITY_def)
  show "ts_step (Group 5) ts_default = Some (ts_begin_group ts_default 5)" by (simp add: ts_step_def)
qed

theorem tab_order_invariant_witness:
  "\<exists>m'. ts_step (InsertHandle \<lparr>fh_id = 7, fh_tab_index = 4, fh_tab_stop = True\<rparr>) (ts_begin_group ts_default 5) = Some m' \<and>
     ts_reachable m'"
proof -
  have "ts_fits (ts_begin_group ts_default 5)"
    by (simp add: ts_fits_def ts_begin_group_def ts_default_def st_new_def STACK_CAPACITY_def)
  then show ?thesis using tab_order_invariant [OF group_reachable] by blast
qed

theorem replay_history_witness:
  "ts_replay [Group 5] ts_default = Some (ts_begin_group ts_default 5)"
  using replay_history [OF group_reachable] by (simp add: ts_begin_group_def ts_default_def)

end
