(* ===== verification/Geometry.thy ===== *)
theory Geometry
  imports Prelude
begin

text \<open>
  Points, sizes, edges, corners and bounds: the generic part of \<open>crates/gpui/src/geometry.rs\<close>. The unit
  type of the code is any type with \<open>Add\<close>, \<open>Sub\<close> and \<open>PartialOrd\<close>; here it is a linearly ordered
  Abelian group, so the theorems hold for exact arithmetic and do not speak about the rounding of
  \<open>f32\<close>, \<open>NaN\<close> or the overflow of \<open>i32\<close>. The \<open>half\<close> of the \<open>Half\<close> trait is an argument. The theory shows that
  bounds behave as the regions they stand for: intersection, union, containment and the operations
  that grow and shrink them.
\<close>

section \<open>Axes and corners\<close>

datatype axis = Vertical | Horizontal

fun axis_invert :: "axis \<Rightarrow> axis" where
  "axis_invert Vertical = Horizontal"
| "axis_invert Horizontal = Vertical"

datatype corner = TopLeft | TopRight | BottomLeft | BottomRight

fun opposite_corner :: "corner \<Rightarrow> corner" where
  "opposite_corner TopLeft = BottomRight"
| "opposite_corner TopRight = BottomLeft"
| "opposite_corner BottomLeft = TopRight"
| "opposite_corner BottomRight = TopLeft"

fun other_side_corner_along :: "corner \<Rightarrow> axis \<Rightarrow> corner" where
  "other_side_corner_along TopLeft Vertical = BottomLeft"
| "other_side_corner_along TopRight Vertical = BottomRight"
| "other_side_corner_along BottomLeft Vertical = TopLeft"
| "other_side_corner_along BottomRight Vertical = TopRight"
| "other_side_corner_along TopLeft Horizontal = TopRight"
| "other_side_corner_along TopRight Horizontal = TopLeft"
| "other_side_corner_along BottomLeft Horizontal = BottomRight"
| "other_side_corner_along BottomRight Horizontal = BottomLeft"

fun is_bottom :: "corner \<Rightarrow> bool" where
  "is_bottom c \<longleftrightarrow> c = BottomLeft \<or> c = BottomRight"

section \<open>Points and sizes\<close>

record 'u point =
  p_x :: 'u
  p_y :: 'u

definition mk_point :: "'u \<Rightarrow> 'u \<Rightarrow> 'u point" where
  "mk_point x y = \<lparr>p_x = x, p_y = y\<rparr>"

definition point_map :: "('u \<Rightarrow> 'v) \<Rightarrow> 'u point \<Rightarrow> 'v point" where
  "point_map f p = \<lparr>p_x = f (p_x p), p_y = f (p_y p)\<rparr>"

fun point_along :: "'u point \<Rightarrow> axis \<Rightarrow> 'u" where
  "point_along p Horizontal = p_x p"
| "point_along p Vertical = p_y p"

fun point_apply_along :: "'u point \<Rightarrow> axis \<Rightarrow> ('u \<Rightarrow> 'u) \<Rightarrow> 'u point" where
  "point_apply_along p Horizontal f = \<lparr>p_x = f (p_x p), p_y = p_y p\<rparr>"
| "point_apply_along p Vertical f = \<lparr>p_x = p_x p, p_y = f (p_y p)\<rparr>"

text \<open>\<open>Add\<close> and \<open>Sub\<close> are derived, field by field.\<close>

definition point_add :: "('u::plus) point \<Rightarrow> 'u point \<Rightarrow> 'u point" where
  "point_add p q = \<lparr>p_x = p_x p + p_x q, p_y = p_y p + p_y q\<rparr>"

definition point_sub :: "('u::minus) point \<Rightarrow> 'u point \<Rightarrow> 'u point" where
  "point_sub p q = \<lparr>p_x = p_x p - p_x q, p_y = p_y p - p_y q\<rparr>"

definition relative_to :: "('u::minus) point \<Rightarrow> 'u point \<Rightarrow> 'u point" where
  "relative_to p origin = mk_point (p_x p - p_x origin) (p_y p - p_y origin)"

definition point_max :: "('u::linorder) point \<Rightarrow> 'u point \<Rightarrow> 'u point" where
  "point_max p q = \<lparr>p_x = (if p_x p > p_x q then p_x p else p_x q),
                    p_y = (if p_y p > p_y q then p_y p else p_y q)\<rparr>"

definition point_min :: "('u::linorder) point \<Rightarrow> 'u point \<Rightarrow> 'u point" where
  "point_min p q = \<lparr>p_x = (if p_x p \<le> p_x q then p_x p else p_x q),
                    p_y = (if p_y p \<le> p_y q then p_y p else p_y q)\<rparr>"

definition point_clamp :: "('u::linorder) point \<Rightarrow> 'u point \<Rightarrow> 'u point \<Rightarrow> 'u point" where
  "point_clamp p low high = point_min (point_max p low) high"

record 'u size =
  s_width :: 'u
  s_height :: 'u

definition size_map :: "('u \<Rightarrow> 'v) \<Rightarrow> 'u size \<Rightarrow> 'v size" where
  "size_map f s = \<lparr>s_width = f (s_width s), s_height = f (s_height s)\<rparr>"

definition size_center :: "('u \<Rightarrow> 'u) \<Rightarrow> 'u size \<Rightarrow> 'u point" where
  "size_center half s = \<lparr>p_x = half (s_width s), p_y = half (s_height s)\<rparr>"

fun size_along :: "'u size \<Rightarrow> axis \<Rightarrow> 'u" where
  "size_along s Horizontal = s_width s"
| "size_along s Vertical = s_height s"

fun size_apply_along :: "'u size \<Rightarrow> axis \<Rightarrow> ('u \<Rightarrow> 'u) \<Rightarrow> 'u size" where
  "size_apply_along s Horizontal f = \<lparr>s_width = f (s_width s), s_height = s_height s\<rparr>"
| "size_apply_along s Vertical f = \<lparr>s_width = s_width s, s_height = f (s_height s)\<rparr>"

definition size_max :: "('u::linorder) size \<Rightarrow> 'u size \<Rightarrow> 'u size" where
  "size_max s t = \<lparr>s_width = (if s_width s \<ge> s_width t then s_width s else s_width t),
                   s_height = (if s_height s \<ge> s_height t then s_height s else s_height t)\<rparr>"

definition size_min :: "('u::linorder) size \<Rightarrow> 'u size \<Rightarrow> 'u size" where
  "size_min s t = \<lparr>s_width = (if s_width s \<ge> s_width t then s_width t else s_width s),
                   s_height = (if s_height s \<ge> s_height t then s_height t else s_height s)\<rparr>"

definition size_sub :: "('u::minus) size \<Rightarrow> 'u size \<Rightarrow> 'u size" where
  "size_sub s t = \<lparr>s_width = s_width s - s_width t, s_height = s_height s - s_height t\<rparr>"

definition size_add :: "('u::plus) size \<Rightarrow> 'u size \<Rightarrow> 'u size" where
  "size_add s t = \<lparr>s_width = s_width s + s_width t, s_height = s_height s + s_height t\<rparr>"

definition size_of_point :: "'u point \<Rightarrow> 'u size" where
  "size_of_point p = \<lparr>s_width = p_x p, s_height = p_y p\<rparr>"

section \<open>Edges and corner values\<close>

record 'u edges =
  e_top :: 'u
  e_right :: 'u
  e_bottom :: 'u
  e_left :: 'u

definition edges_all :: "'u \<Rightarrow> 'u edges" where
  "edges_all v = \<lparr>e_top = v, e_right = v, e_bottom = v, e_left = v\<rparr>"

definition edges_map :: "('u \<Rightarrow> 'v) \<Rightarrow> 'u edges \<Rightarrow> 'v edges" where
  "edges_map f e = \<lparr>e_top = f (e_top e), e_right = f (e_right e), e_bottom = f (e_bottom e), e_left = f (e_left e)\<rparr>"

definition edges_any :: "('u \<Rightarrow> bool) \<Rightarrow> 'u edges \<Rightarrow> bool" where
  "edges_any f e \<longleftrightarrow> f (e_top e) \<or> f (e_right e) \<or> f (e_bottom e) \<or> f (e_left e)"

record 'u corners =
  c_top_left :: 'u
  c_top_right :: 'u
  c_bottom_right :: 'u
  c_bottom_left :: 'u

definition corners_all :: "'u \<Rightarrow> 'u corners" where
  "corners_all v = \<lparr>c_top_left = v, c_top_right = v, c_bottom_right = v, c_bottom_left = v\<rparr>"

fun corners_corner :: "'u corners \<Rightarrow> corner \<Rightarrow> 'u" where
  "corners_corner cs TopLeft = c_top_left cs"
| "corners_corner cs TopRight = c_top_right cs"
| "corners_corner cs BottomLeft = c_bottom_left cs"
| "corners_corner cs BottomRight = c_bottom_right cs"

definition corners_map :: "('u \<Rightarrow> 'v) \<Rightarrow> 'u corners \<Rightarrow> 'v corners" where
  "corners_map f cs = \<lparr>c_top_left = f (c_top_left cs), c_top_right = f (c_top_right cs),
                       c_bottom_right = f (c_bottom_right cs), c_bottom_left = f (c_bottom_left cs)\<rparr>"

section \<open>Bounds\<close>

record 'u bounds =
  b_origin :: "'u point"
  b_size :: "'u size"

definition from_corners :: "('u::minus) point \<Rightarrow> 'u point \<Rightarrow> 'u bounds" where
  "from_corners upper_left lower_right =
     (let origin = \<lparr>p_x = p_x upper_left, p_y = p_y upper_left\<rparr>;
          sz = \<lparr>s_width = p_x lower_right - p_x upper_left, s_height = p_y lower_right - p_y upper_left\<rparr>
      in \<lparr>b_origin = origin, b_size = sz\<rparr>)"

definition from_corner_and_size :: "corner \<Rightarrow> ('u::minus) point \<Rightarrow> 'u size \<Rightarrow> 'u bounds" where
  "from_corner_and_size corner origin sz =
     (let origin =
        (case corner of
           TopLeft \<Rightarrow> origin
         | TopRight \<Rightarrow> \<lparr>p_x = p_x origin - s_width sz, p_y = p_y origin\<rparr>
         | BottomLeft \<Rightarrow> \<lparr>p_x = p_x origin, p_y = p_y origin - s_height sz\<rparr>
         | BottomRight \<Rightarrow> \<lparr>p_x = p_x origin - s_width sz, p_y = p_y origin - s_height sz\<rparr>)
      in \<lparr>b_origin = origin, b_size = sz\<rparr>)"

definition centered_at :: "('u \<Rightarrow> 'u::minus) \<Rightarrow> 'u point \<Rightarrow> 'u size \<Rightarrow> 'u bounds" where
  "centered_at half center sz =
     \<lparr>b_origin = \<lparr>p_x = p_x center - half (s_width sz), p_y = p_y center - half (s_height sz)\<rparr>,
      b_size = sz\<rparr>"

definition b_center :: "('u \<Rightarrow> 'u::plus) \<Rightarrow> 'u bounds \<Rightarrow> 'u point" where
  "b_center half b = \<lparr>p_x = p_x (b_origin b) + half (s_width (b_size b)),
                      p_y = p_y (b_origin b) + half (s_height (b_size b))\<rparr>"

definition b_top :: "'u bounds \<Rightarrow> 'u" where
  "b_top b = p_y (b_origin b)"

definition b_bottom :: "('u::plus) bounds \<Rightarrow> 'u" where
  "b_bottom b = p_y (b_origin b) + s_height (b_size b)"

definition b_left :: "'u bounds \<Rightarrow> 'u" where
  "b_left b = p_x (b_origin b)"

definition b_right :: "('u::plus) bounds \<Rightarrow> 'u" where
  "b_right b = p_x (b_origin b) + s_width (b_size b)"

definition top_right :: "('u::plus) bounds \<Rightarrow> 'u point" where
  "top_right b = \<lparr>p_x = p_x (b_origin b) + s_width (b_size b), p_y = p_y (b_origin b)\<rparr>"

definition bottom_right :: "('u::plus) bounds \<Rightarrow> 'u point" where
  "bottom_right b = \<lparr>p_x = p_x (b_origin b) + s_width (b_size b), p_y = p_y (b_origin b) + s_height (b_size b)\<rparr>"

definition bottom_left :: "('u::plus) bounds \<Rightarrow> 'u point" where
  "bottom_left b = \<lparr>p_x = p_x (b_origin b), p_y = p_y (b_origin b) + s_height (b_size b)\<rparr>"

fun b_corner :: "('u::plus) bounds \<Rightarrow> corner \<Rightarrow> 'u point" where
  "b_corner b TopLeft = b_origin b"
| "b_corner b TopRight = top_right b"
| "b_corner b BottomLeft = bottom_left b"
| "b_corner b BottomRight = bottom_right b"

definition intersects :: "('u::{plus,linorder}) bounds \<Rightarrow> 'u bounds \<Rightarrow> bool" where
  "intersects b other \<longleftrightarrow>
     (let my_lower_right = bottom_right b;
          their_lower_right = bottom_right other
      in p_x (b_origin b) < p_x their_lower_right \<and>
         p_x my_lower_right > p_x (b_origin other) \<and>
         p_y (b_origin b) < p_y their_lower_right \<and>
         p_y my_lower_right > p_y (b_origin other))"

definition half_perimeter :: "('u::plus) bounds \<Rightarrow> 'u" where
  "half_perimeter b = s_width (b_size b) + s_height (b_size b)"

definition dilate :: "('u::{plus,minus}) bounds \<Rightarrow> 'u \<Rightarrow> 'u bounds" where
  "dilate b amount =
     (let double_amount = amount + amount
      in \<lparr>b_origin = point_sub (b_origin b) (mk_point amount amount),
          b_size = size_add (b_size b) \<lparr>s_width = double_amount, s_height = double_amount\<rparr>\<rparr>)"

definition contract :: "('u::{plus,minus}) bounds \<Rightarrow> 'u \<Rightarrow> 'u bounds" where
  "contract b amount =
     (let double_amount = amount + amount
      in \<lparr>b_origin = point_add (b_origin b) (mk_point amount amount),
          b_size = \<lparr>s_width = s_width (b_size b) - double_amount,
                    s_height = s_height (b_size b) - double_amount\<rparr>\<rparr>)"

definition b_extend :: "('u::{plus,minus}) bounds \<Rightarrow> 'u edges \<Rightarrow> 'u bounds" where
  "b_extend b amount =
     \<lparr>b_origin = point_sub (b_origin b) (mk_point (e_left amount) (e_top amount)),
      b_size = size_add (b_size b) \<lparr>s_width = e_left amount + e_right amount,
                                    s_height = e_top amount + e_bottom amount\<rparr>\<rparr>"

definition inset :: "('u::{plus,minus,uminus}) bounds \<Rightarrow> 'u \<Rightarrow> 'u bounds" where
  "inset b amount = dilate b (- amount)"

definition intersect :: "('u::{plus,minus,linorder}) bounds \<Rightarrow> 'u bounds \<Rightarrow> 'u bounds" where
  "intersect b other =
     (let upper_left = point_max (b_origin b) (b_origin other);
          lower_right = point_min (bottom_right b) (bottom_right other)
      in from_corners upper_left lower_right)"

definition b_union :: "('u::{plus,minus,linorder}) bounds \<Rightarrow> 'u bounds \<Rightarrow> 'u bounds" where
  "b_union b other =
     (let top_left = point_min (b_origin b) (b_origin other);
          lower_right = point_max (bottom_right b) (bottom_right other)
      in from_corners top_left lower_right)"

definition space_within :: "('u::{plus,minus}) bounds \<Rightarrow> 'u bounds \<Rightarrow> 'u edges" where
  "space_within b outer =
     \<lparr>e_top = b_top b - b_top outer, e_right = b_right outer - b_right b,
      e_bottom = b_bottom outer - b_bottom b, e_left = b_left b - b_left outer\<rparr>"

definition bounds_add :: "('u::plus) bounds \<Rightarrow> 'u point \<Rightarrow> 'u bounds" where
  "bounds_add b rhs = \<lparr>b_origin = point_add (b_origin b) rhs, b_size = b_size b\<rparr>"

definition bounds_sub :: "('u::minus) bounds \<Rightarrow> 'u point \<Rightarrow> 'u bounds" where
  "bounds_sub b rhs = \<lparr>b_origin = point_sub (b_origin b) rhs, b_size = b_size b\<rparr>"

definition contains :: "('u::{plus,linorder}) bounds \<Rightarrow> 'u point \<Rightarrow> bool" where
  "contains b p \<longleftrightarrow>
     p_x p \<ge> p_x (b_origin b) \<and> p_x p \<le> p_x (b_origin b) + s_width (b_size b) \<and>
     p_y p \<ge> p_y (b_origin b) \<and> p_y p \<le> p_y (b_origin b) + s_height (b_size b)"

definition is_contained_within :: "('u::{plus,linorder}) bounds \<Rightarrow> 'u bounds \<Rightarrow> bool" where
  "is_contained_within b other \<longleftrightarrow> contains other (b_origin b) \<and> contains other (bottom_right b)"

definition bounds_map :: "('u \<Rightarrow> 'v) \<Rightarrow> 'u bounds \<Rightarrow> 'v bounds" where
  "bounds_map f b = \<lparr>b_origin = point_map f (b_origin b), b_size = size_map f (b_size b)\<rparr>"

definition map_origin :: "('u \<Rightarrow> 'u) \<Rightarrow> 'u bounds \<Rightarrow> 'u bounds" where
  "map_origin f b = \<lparr>b_origin = point_map f (b_origin b), b_size = b_size b\<rparr>"

definition map_size :: "('u \<Rightarrow> 'u) \<Rightarrow> 'u bounds \<Rightarrow> 'u bounds" where
  "map_size f b = \<lparr>b_origin = b_origin b, b_size = size_map f (b_size b)\<rparr>"

definition localize :: "('u::{plus,minus,linorder}) bounds \<Rightarrow> 'u point \<Rightarrow> 'u point option" where
  "localize b p = (if contains b p then Some (relative_to p (b_origin b)) else None)"

definition is_empty :: "('u::{zero,linorder}) bounds \<Rightarrow> bool" where
  "is_empty b \<longleftrightarrow> s_width (b_size b) \<le> 0 \<or> s_height (b_size b) \<le> 0"

section \<open>Bounds as regions\<close>

text \<open>Bounds are determined by their four sides, and every operation acts on the sides.\<close>

lemmas side_defs = b_left_def b_right_def b_top_def b_bottom_def

lemmas bounds_defs = from_corners_def bottom_right_def top_right_def bottom_left_def mk_point_def point_add_def
  point_sub_def point_max_def point_min_def size_add_def Let_def

lemma bounds_eqI:
  fixes a b :: "'u::linordered_ab_group_add bounds"
  assumes "b_left a = b_left b" "b_right a = b_right b" "b_top a = b_top b" "b_bottom a = b_bottom b"
  shows "a = b"
  using assms
  by (cases a, cases b, cases "b_origin a", cases "b_origin b", cases "b_size a", cases "b_size b")
    (simp add: side_defs)

lemma sides_simps:
  fixes a b :: "'u::linordered_ab_group_add bounds"
  shows "p_x (b_origin a) = b_left a" "p_y (b_origin a) = b_top a"
    "s_width (b_size a) = b_right a - b_left a" "s_height (b_size a) = b_bottom a - b_top a"
    "p_x (bottom_right a) = b_right a" "p_y (bottom_right a) = b_bottom a"
  by (simp_all add: side_defs bottom_right_def)

lemma sides_from_corners:
  fixes p q :: "'u::linordered_ab_group_add point"
  shows "b_left (from_corners p q) = p_x p" "b_right (from_corners p q) = p_x q"
    "b_top (from_corners p q) = p_y p" "b_bottom (from_corners p q) = p_y q"
  by (simp_all add: side_defs from_corners_def)

lemma sides_intersect:
  fixes a b :: "'u::linordered_ab_group_add bounds"
  shows "b_left (intersect a b) = max (b_left a) (b_left b)" "b_right (intersect a b) = min (b_right a) (b_right b)"
    "b_top (intersect a b) = max (b_top a) (b_top b)" "b_bottom (intersect a b) = min (b_bottom a) (b_bottom b)"
  by (auto simp: intersect_def Let_def sides_from_corners point_max_def point_min_def sides_simps max_def min_def)

lemma sides_union:
  fixes a b :: "'u::linordered_ab_group_add bounds"
  shows "b_left (b_union a b) = min (b_left a) (b_left b)" "b_right (b_union a b) = max (b_right a) (b_right b)"
    "b_top (b_union a b) = min (b_top a) (b_top b)" "b_bottom (b_union a b) = max (b_bottom a) (b_bottom b)"
  by (auto simp: b_union_def Let_def sides_from_corners point_max_def point_min_def sides_simps max_def min_def)

lemma sides_grown:
  fixes b :: "'u::linordered_ab_group_add bounds"
  shows "b_left (dilate b d) = b_left b - d" "b_right (dilate b d) = b_right b + d"
    "b_top (dilate b d) = b_top b - d" "b_bottom (dilate b d) = b_bottom b + d"
    "b_left (contract b d) = b_left b + d" "b_right (contract b d) = b_right b - d"
    "b_top (contract b d) = b_top b + d" "b_bottom (contract b d) = b_bottom b - d"
    "b_left (b_extend b e) = b_left b - e_left e" "b_right (b_extend b e) = b_right b + e_right e"
    "b_top (b_extend b e) = b_top b - e_top e" "b_bottom (b_extend b e) = b_bottom b + e_bottom e"
  by (simp_all add: side_defs dilate_def contract_def b_extend_def bounds_defs)

lemma sides_moved:
  fixes b :: "'u::linordered_ab_group_add bounds"
  shows "b_left (bounds_add b p) = b_left b + p_x p" "b_right (bounds_add b p) = b_right b + p_x p"
    "b_top (bounds_add b p) = b_top b + p_y p" "b_bottom (bounds_add b p) = b_bottom b + p_y p"
    "b_left (bounds_sub b p) = b_left b - p_x p" "b_right (bounds_sub b p) = b_right b - p_x p"
    "b_top (bounds_sub b p) = b_top b - p_y p" "b_bottom (bounds_sub b p) = b_bottom b - p_y p"
  by (simp_all add: side_defs bounds_add_def bounds_sub_def bounds_defs)

text \<open>The tests on bounds in terms of the sides.\<close>

lemma contains_sides:
  fixes b :: "'u::linordered_ab_group_add bounds"
  shows "contains b p \<longleftrightarrow> b_left b \<le> p_x p \<and> p_x p \<le> b_right b \<and> b_top b \<le> p_y p \<and> p_y p \<le> b_bottom b"
  by (simp add: contains_def side_defs)

lemma intersects_sides:
  fixes a b :: "'u::linordered_ab_group_add bounds"
  shows "intersects a b \<longleftrightarrow> b_left a < b_right b \<and> b_left b < b_right a \<and> b_top a < b_bottom b \<and> b_top b < b_bottom a"
  by (simp add: intersects_def Let_def sides_simps)

lemma is_empty_sides:
  fixes b :: "'u::linordered_ab_group_add bounds"
  shows "is_empty b \<longleftrightarrow> b_right b \<le> b_left b \<or> b_bottom b \<le> b_top b"
  by (simp add: is_empty_def sides_simps)

text \<open>Bounds whose size is not negative.\<close>

definition proper :: "('u::{zero,linorder}) bounds \<Rightarrow> bool" where
  "proper b \<longleftrightarrow> 0 \<le> s_width (b_size b) \<and> 0 \<le> s_height (b_size b)"

lemma proper_sides:
  fixes b :: "'u::linordered_ab_group_add bounds"
  shows "proper b \<longleftrightarrow> b_left b \<le> b_right b \<and> b_top b \<le> b_bottom b"
  by (simp add: proper_def sides_simps)

lemma is_contained_within_sides:
  fixes a b :: "'u::linordered_ab_group_add bounds"
  assumes "proper a"
  shows "is_contained_within a b \<longleftrightarrow>
    b_left b \<le> b_left a \<and> b_right a \<le> b_right b \<and> b_top b \<le> b_top a \<and> b_bottom a \<le> b_bottom b"
  using assms by (auto simp: is_contained_within_def contains_sides sides_simps proper_sides)

text \<open>What the tree of bounds relies on.\<close>

lemma intersects_union:
  fixes q a b :: "'u::linordered_ab_group_add bounds"
  shows "intersects q a \<Longrightarrow> intersects q (b_union a b)" "intersects q b \<Longrightarrow> intersects q (b_union a b)"
  by (auto simp: intersects_sides sides_union min_less_iff_disj less_max_iff_disj)

lemma contains_all_iff:
  fixes a b :: "'u::linordered_ab_group_add bounds"
  assumes "proper a"
  shows "is_contained_within a b \<longleftrightarrow> (\<forall>p. contains a p \<longrightarrow> contains b p)"
proof
  assume "is_contained_within a b"
  then show "\<forall>p. contains a p \<longrightarrow> contains b p"
    by (auto simp: is_contained_within_sides [OF assms] contains_sides)
next
  assume "\<forall>p. contains a p \<longrightarrow> contains b p"
  moreover have "contains a (b_origin a)" "contains a (bottom_right a)"
    using assms by (simp_all add: contains_sides sides_simps proper_sides)
  ultimately show "is_contained_within a b" by (simp add: is_contained_within_def)
qed

text \<open>
  Bounds as regions. The intersection holds the points of both bounds, and it is empty exactly when
  one of them is or \<open>intersects\<close> is false; one bounds lies within another when all its points do; the
  union is the smallest bounds around both; \<open>localize\<close> gives the offset of a point inside. (The sizes
  of the bounds whose containment is tested must not be negative.)
\<close>

theorem bounds_regions:
  fixes a b c :: "'u::linordered_ab_group_add bounds"
  shows "(contains (intersect a b) p \<longleftrightarrow> contains a p \<and> contains b p) \<and>
    (is_empty (intersect a b) \<longleftrightarrow> is_empty a \<or> is_empty b \<or> \<not> intersects a b) \<and>
    (proper a \<longrightarrow> (is_contained_within a b \<longleftrightarrow> (\<forall>p. contains a p \<longrightarrow> contains b p))) \<and>
    (proper a \<and> proper b \<longrightarrow>
       (is_contained_within (b_union a b) c \<longleftrightarrow> is_contained_within a c \<and> is_contained_within b c)) \<and>
    (localize b p = Some q \<longleftrightarrow> contains b p \<and> p = point_add (b_origin b) q)"
proof (intro conjI impI)
  show "contains (intersect a b) p \<longleftrightarrow> contains a p \<and> contains b p"
    by (auto simp: contains_sides sides_intersect)
  show "is_empty (intersect a b) \<longleftrightarrow> is_empty a \<or> is_empty b \<or> \<not> intersects a b"
    by (auto simp: is_empty_sides intersects_sides sides_intersect min_le_iff_disj le_max_iff_disj not_less)
  show "is_contained_within a b \<longleftrightarrow> (\<forall>p. contains a p \<longrightarrow> contains b p)" if "proper a"
    by (rule contains_all_iff [OF that])
  show "is_contained_within (b_union a b) c \<longleftrightarrow> is_contained_within a c \<and> is_contained_within b c"
    if "proper a \<and> proper b"
  proof -
    have "proper (b_union a b)" using that by (auto simp: proper_sides sides_union min_le_iff_disj le_max_iff_disj)
    then show ?thesis using that by (auto simp: is_contained_within_sides sides_union)
  qed
  show "localize b p = Some q \<longleftrightarrow> contains b p \<and> p = point_add (b_origin b) q"
    by (auto simp: localize_def relative_to_def bounds_defs)
qed

definition unit_square :: "int \<Rightarrow> int bounds" where
  "unit_square i = \<lparr>b_origin = \<lparr>p_x = i, p_y = i\<rparr>, b_size = \<lparr>s_width = 2, s_height = 2\<rparr>\<rparr>"

theorem bounds_regions_witness:
  "proper (unit_square 0) \<and> proper (unit_square 1) \<and>
   is_contained_within (b_union (unit_square 0) (unit_square 1)) (b_union (unit_square 0) (unit_square 1)) \<and>
   is_contained_within (unit_square 0) (b_union (unit_square 0) (unit_square 1)) \<and>
   is_contained_within (unit_square 1) (b_union (unit_square 0) (unit_square 1))"
proof -
  have "proper (unit_square i)" for i by (simp add: proper_def unit_square_def)
  moreover have "is_contained_within (b_union (unit_square 0) (unit_square 1)) (b_union (unit_square 0) (unit_square 1))"
    by code_simp
  ultimately show ?thesis
    using bounds_regions [of "unit_square 0" "unit_square 1" _ "b_union (unit_square 0) (unit_square 1)"] by blast
qed

text \<open>
  The operations that grow, shrink and move bounds have inverses: \<open>contract\<close> undoes \<open>dilate\<close> and is
  \<open>inset\<close>, \<open>dilate\<close> is \<open>extend\<close> by equal edges, extending bounds by the space left within other bounds gives
  these, moving there and back gives the bounds again, bounds are rebuilt from their corners, and
  the chosen corner of \<open>from_corner_and_size\<close> is where it was asked for.
\<close>

theorem bounds_round_trips:
  fixes b outer :: "'u::linordered_ab_group_add bounds"
  shows "contract (dilate b d) d = b \<and> dilate (contract b d) d = b \<and> inset b d = contract b d \<and>
    b_extend b (edges_all d) = dilate b d \<and> b_extend b (space_within b outer) = outer \<and>
    bounds_sub (bounds_add b p) p = b \<and>
    from_corners (b_origin b) (bottom_right b) = b \<and>
    b_corner (from_corner_and_size k p s) k = p \<and> b_size (from_corner_and_size k p s) = s \<and>
    from_corner_and_size k (b_corner b k) (b_size b) = b"
proof (intro conjI)
  show "contract (dilate b d) d = b" "dilate (contract b d) d = b"
    "b_extend b (edges_all d) = dilate b d" "b_extend b (space_within b outer) = outer"
    "bounds_sub (bounds_add b p) p = b" "from_corners (b_origin b) (bottom_right b) = b" "inset b d = contract b d"
    by (rule bounds_eqI;
        simp add: sides_grown sides_moved sides_from_corners sides_simps edges_all_def space_within_def inset_def)+
  show "b_corner (from_corner_and_size k p s) k = p" "b_size (from_corner_and_size k p s) = s"
    by (cases k; simp add: from_corner_and_size_def bounds_defs)+
  show "from_corner_and_size k (b_corner b k) (b_size b) = b"
    by (cases k; simp add: from_corner_and_size_def bounds_defs)
qed

text \<open>The intersection of bounds that do not meet has a negative size, not the size zero.\<close>

lemma intersect_disjoint_negative:
  fixes a b :: "'u::linordered_ab_group_add bounds"
  assumes "b_right a < b_left b" "proper a" "proper b"
  shows "s_width (b_size (intersect a b)) < 0"
  using assms by (auto simp: sides_simps sides_intersect proper_sides min_def max_def)

text \<open>Turning corners.\<close>

lemma corner_turns:
  "opposite_corner (opposite_corner c) = c"
  "opposite_corner c = other_side_corner_along (other_side_corner_along c Vertical) Horizontal"
  "other_side_corner_along (other_side_corner_along c ax) ax = c"
  "is_bottom (opposite_corner c) \<longleftrightarrow> \<not> is_bottom c"
  by (cases c; cases ax; simp)+

end
