(* ===== verification/Bounds_Tree.thy ===== *)
theory Bounds_Tree
  imports Geometry
begin

text \<open>
  The tree of bounds of \<open>crates/gpui/src/bounds_tree.rs\<close>, which assigns to each painted bounds an
  order above all the bounds it overlaps. The nodes live in one vector and name their children by
  index. The two reusable stacks of the code, which it clears before every use, are
  local here; the pointers on the search stack are indices. \<open>None\<close> is a panic (an index out of range, a
  full node, the overflow of an order of 32 bits) or a loop that does not end. The theory shows that
  none of this happens and that the orders are those of a plain search through all earlier bounds.
\<close>

section \<open>Data\<close>

definition MAX_CHILDREN :: nat where
  "MAX_CHILDREN = 12"

text \<open>\<open>NodeChildren\<close>: the first \<open>len\<close> entries of its array.\<close>

type_synonym node_children = "nat list"

definition children_push :: "node_children \<Rightarrow> nat \<Rightarrow> node_children option" where
  "children_push children index =
     (if length children < MAX_CHILDREN then Some (children @ [index]) else None)"

datatype node_kind = LeafNode nat | InternalNode node_children

record 'u bnode =
  bn_bounds :: "'u bounds"
  bn_max_order :: nat
  bn_kind :: node_kind

record 'u bounds_tree =
  bt_nodes :: "'u bnode list"
  bt_root :: "nat option"
  bt_max_leaf :: "nat option"

fun is_leaf_node :: "'u bnode \<Rightarrow> bool" where
  "is_leaf_node node = (case bn_kind node of LeafNode _ \<Rightarrow> True | InternalNode _ \<Rightarrow> False)"

section \<open>Search\<close>

definition filter_children :: "'u bnode list \<Rightarrow> nat \<Rightarrow> node_children \<Rightarrow> nat list option" where
  "filter_children nodes max_found children =
     (if list_all (\<lambda>i. i < length nodes) children
      then Some (filter (\<lambda>i. bn_max_order (nodes ! i) > max_found) children) else None)"

partial_function (option) search_loop ::
  "('u::{plus,linorder}) bnode list \<Rightarrow> 'u bounds \<Rightarrow> nat list \<Rightarrow> nat \<Rightarrow> nat option" where
  "search_loop nodes query stack max_found =
     (case stack of
        [] \<Rightarrow> Some max_found
      | i # rest \<Rightarrow>
          (case nth_opt nodes i of
             None \<Rightarrow> None
           | Some node \<Rightarrow>
               if bn_max_order node \<le> max_found then search_loop nodes query rest max_found
               else if \<not> intersects query (bn_bounds node) then search_loop nodes query rest max_found
               else
                 (case bn_kind node of
                    LeafNode order \<Rightarrow> search_loop nodes query rest (max max_found order)
                  | InternalNode children \<Rightarrow>
                      (case filter_children nodes max_found children of
                         None \<Rightarrow> None
                       | Some pushed \<Rightarrow> search_loop nodes query (rev pushed @ rest) max_found))))"

definition find_max_ordering :: "('u::{plus,linorder}) bounds_tree \<Rightarrow> 'u bounds \<Rightarrow> nat option" where
  "find_max_ordering t query =
     (case bt_root t of
        None \<Rightarrow> Some 0
      | Some root_idx \<Rightarrow>
          (case bt_max_leaf t of
             None \<Rightarrow> search_loop (bt_nodes t) query [root_idx] 0
           | Some max_idx \<Rightarrow>
               (case nth_opt (bt_nodes t) max_idx of
                  None \<Rightarrow> None
                | Some max_node \<Rightarrow>
                    if intersects query (bn_bounds max_node) then Some (bn_max_order max_node)
                    else search_loop (bt_nodes t) query [root_idx] 0)))"

section \<open>Insertion\<close>

definition child_cost :: "('u::{plus,minus,linorder}) bnode list \<Rightarrow> 'u bounds \<Rightarrow> nat \<Rightarrow> 'u option" where
  "child_cost nodes b child_idx =
     map_option (\<lambda>node. half_perimeter (b_union b (bn_bounds node))) (nth_opt nodes child_idx)"

fun best_child_loop ::
  "('u::{plus,minus,linorder}) bnode list \<Rightarrow> 'u bounds \<Rightarrow> nat \<Rightarrow> nat list \<Rightarrow> 'u \<Rightarrow> nat \<Rightarrow> nat \<Rightarrow> (nat \<times> nat) option" where
  "best_child_loop nodes b pos [] best_cost best_child_idx best_child_pos = Some (best_child_idx, best_child_pos)"
| "best_child_loop nodes b pos (child_idx # children) best_cost best_child_idx best_child_pos =
     (case child_cost nodes b child_idx of
        None \<Rightarrow> None
      | Some cost \<Rightarrow>
          if cost < best_cost then best_child_loop nodes b (pos + 1) children cost child_idx pos
          else best_child_loop nodes b (pos + 1) children best_cost best_child_idx best_child_pos)"

fun best_child :: "('u::{plus,minus,linorder}) bnode list \<Rightarrow> 'u bounds \<Rightarrow> nat list \<Rightarrow> (nat \<times> nat) option" where
  "best_child nodes b [] = None"
| "best_child nodes b (child_idx # children) =
     (case child_cost nodes b child_idx of
        None \<Rightarrow> None
      | Some cost \<Rightarrow> best_child_loop nodes b 1 children cost child_idx 0)"

text \<open>
  The descent: the path to the node the leaf goes to (this one last), and its best child, which is a
  leaf, with its position.
\<close>

partial_function (option) descend ::
  "('u::{plus,minus,linorder}) bnode list \<Rightarrow> 'u bounds \<Rightarrow> nat list \<Rightarrow> nat \<Rightarrow> (nat list \<times> nat \<times> nat) option" where
  "descend nodes b insert_path current_idx =
     (case nth_opt nodes current_idx of
        None \<Rightarrow> None
      | Some current \<Rightarrow>
          (case bn_kind current of
             LeafNode _ \<Rightarrow> None
           | InternalNode children \<Rightarrow>
               (case best_child nodes b children of
                  None \<Rightarrow> None
                | Some (best_child_idx, best_child_pos) \<Rightarrow>
                    (case nth_opt nodes best_child_idx of
                       None \<Rightarrow> None
                     | Some child \<Rightarrow>
                         if is_leaf_node child
                         then Some (insert_path @ [current_idx], best_child_idx, best_child_pos)
                         else descend nodes b (insert_path @ [current_idx]) best_child_idx))))"

definition swap :: "'a list \<Rightarrow> nat \<Rightarrow> nat \<Rightarrow> 'a list" where
  "swap xs i j = xs[i := xs ! j, j := xs ! i]"

text \<open>A new internal node over an old leaf and the new one, the greater order last.\<close>

definition pair_children :: "nat \<Rightarrow> nat \<Rightarrow> nat \<Rightarrow> nat \<Rightarrow> node_children option" where
  "pair_children old_idx old_order new_idx order =
     (if order > old_order
      then do { children \<leftarrow> children_push [] old_idx; children_push children new_idx }
      else do { children \<leftarrow> children_push [] new_idx; children_push children old_idx })"

text \<open>The node at the end of the descent takes the new leaf.\<close>

definition add_leaf ::
  "('u::{plus,minus,linorder}) bnode list \<Rightarrow> 'u bounds \<Rightarrow> nat \<Rightarrow> nat \<Rightarrow> nat \<Rightarrow> nat \<Rightarrow> nat \<Rightarrow> 'u bnode list option" where
  "add_leaf nodes b order new_leaf_idx current_idx best_child_idx best_child_pos =
     do {
       node \<leftarrow> nth_opt nodes current_idx;
       children \<leftarrow> (case bn_kind node of LeafNode _ \<Rightarrow> None | InternalNode children \<Rightarrow> Some children);
       if length children < MAX_CHILDREN then
         do {
           children \<leftarrow> children_push children new_leaf_idx;
           let last_pos = length children - 1;
           let children = (if order \<le> bn_max_order node then swap children (last_pos - 1) last_pos else children);
           Some (nodes[current_idx := node\<lparr>bn_kind := InternalNode children,
             bn_bounds := b_union (bn_bounds node) b, bn_max_order := max (bn_max_order node) order\<rparr>])
         }
       else
         do {
           sibling \<leftarrow> nth_opt nodes best_child_idx;
           new_children \<leftarrow> pair_children best_child_idx (bn_max_order sibling) new_leaf_idx order;
           let new_internal_idx = length nodes;
           let new_internal_max = max (bn_max_order sibling) order;
           let nodes = nodes @ [\<lparr>bn_bounds = b_union (bn_bounds sibling) b, bn_max_order = new_internal_max,
                                  bn_kind = InternalNode new_children\<rparr>];
           let children_len = length children;
           let children = children[best_child_pos := new_internal_idx];
           let children = (if new_internal_max > bn_max_order node
                           then swap children best_child_pos (children_len - 1) else children);
           Some (nodes[current_idx := node\<lparr>bn_kind := InternalNode children\<rparr>])
         }
     }"

fun index_of :: "nat list \<Rightarrow> nat \<Rightarrow> nat option" where
  "index_of [] c = None"
| "index_of (x # xs) c = (if x = c then Some 0 else map_option Suc (index_of xs c))"

definition swap_to_end :: "node_children \<Rightarrow> nat \<Rightarrow> node_children" where
  "swap_to_end children child_idx =
     (case index_of children child_idx of
        None \<Rightarrow> children
      | Some pos \<Rightarrow>
          let last_pos = length children - 1
          in if pos \<noteq> last_pos then swap children pos last_pos else children)"

definition propagate_node ::
  "('u::{plus,minus,linorder}) bounds \<Rightarrow> nat \<Rightarrow> nat option \<Rightarrow> 'u bnode \<Rightarrow> 'u bnode" where
  "propagate_node b order updated_child_idx node =
     (let node = node\<lparr>bn_bounds := b_union (bn_bounds node) b\<rparr>
      in if bn_max_order node < order then
           (let node = node\<lparr>bn_max_order := order\<rparr>
            in case (updated_child_idx, bn_kind node) of
                 (Some child_idx, InternalNode children) \<Rightarrow>
                   node\<lparr>bn_kind := InternalNode (swap_to_end children child_idx)\<rparr>
               | _ \<Rightarrow> node)
         else node)"

text \<open>The argument is the path, from its end to the root.\<close>

fun propagate ::
  "('u::{plus,minus,linorder}) bounds \<Rightarrow> nat \<Rightarrow> nat list \<Rightarrow> nat option \<Rightarrow> 'u bnode list \<Rightarrow> 'u bnode list option" where
  "propagate b order [] updated_child_idx nodes = Some nodes"
| "propagate b order (node_idx # path) updated_child_idx nodes =
     (case nth_opt nodes node_idx of
        None \<Rightarrow> None
      | Some node \<Rightarrow>
          propagate b order path (Some node_idx)
            (nodes[node_idx := propagate_node b order updated_child_idx node]))"

definition insert_leaf ::
  "('u::{plus,minus,linorder}) bounds_tree \<Rightarrow> 'u bounds \<Rightarrow> nat \<Rightarrow> ('u bounds_tree \<times> nat) option" where
  "insert_leaf t b order =
     do {
       let new_leaf_idx = length (bt_nodes t);
       let nodes = bt_nodes t @ [\<lparr>bn_bounds = b, bn_max_order = order, bn_kind = LeafNode order\<rparr>];
       case bt_root t of
         None \<Rightarrow> Some (t\<lparr>bt_nodes := nodes, bt_root := Some new_leaf_idx\<rparr>, new_leaf_idx)
       | Some root_idx \<Rightarrow>
           do {
             root \<leftarrow> nth_opt nodes root_idx;
             if is_leaf_node root then
               do {
                 children \<leftarrow> pair_children root_idx (bn_max_order root) new_leaf_idx order;
                 let new_root_idx = length nodes;
                 Some (t\<lparr>bt_nodes := nodes @ [\<lparr>bn_bounds = b_union (bn_bounds root) b,
                            bn_max_order = max (bn_max_order root) order, bn_kind = InternalNode children\<rparr>],
                         bt_root := Some new_root_idx\<rparr>, new_leaf_idx)
               }
             else
               do {
                 (insert_path, best_child_idx, best_child_pos) \<leftarrow> descend nodes b [] root_idx;
                 nodes \<leftarrow> add_leaf nodes b order new_leaf_idx (last insert_path) best_child_idx best_child_pos;
                 nodes \<leftarrow> propagate b order (rev insert_path) None nodes;
                 Some (t\<lparr>bt_nodes := nodes\<rparr>, new_leaf_idx)
               }
           }
     }"

definition bt_insert ::
  "('u::{plus,minus,linorder}) bounds_tree \<Rightarrow> 'u bounds \<Rightarrow> ('u bounds_tree \<times> nat) option" where
  "bt_insert t new_bounds =
     do {
       max_intersecting \<leftarrow> find_max_ordering t new_bounds;
       ordering \<leftarrow> (if max_intersecting + 1 < 2 ^ 32 then Some (max_intersecting + 1) else None);
       (t, new_leaf_idx) \<leftarrow> insert_leaf t new_bounds ordering;
       max_leaf \<leftarrow>
         (case bt_max_leaf t of
            None \<Rightarrow> Some (Some new_leaf_idx)
          | Some old_idx \<Rightarrow>
              (case nth_opt (bt_nodes t) old_idx of
                 None \<Rightarrow> None
               | Some old \<Rightarrow> Some (if bn_max_order old < ordering then Some new_leaf_idx else bt_max_leaf t)));
       Some (t\<lparr>bt_max_leaf := max_leaf\<rparr>, ordering)
     }"

definition bt_clear :: "'u bounds_tree \<Rightarrow> 'u bounds_tree" where
  "bt_clear t = t\<lparr>bt_nodes := [], bt_root := None, bt_max_leaf := None\<rparr>"

definition bt_default :: "'u bounds_tree" where
  "bt_default = \<lparr>bt_nodes = [], bt_root = None, bt_max_leaf = None\<rparr>"

section \<open>The invariant\<close>

definition children_of :: "'u bnode list \<Rightarrow> nat \<Rightarrow> nat list" where
  "children_of nodes i =
     (if i < length nodes then (case bn_kind (nodes ! i) of LeafNode _ \<Rightarrow> [] | InternalNode cs \<Rightarrow> cs) else [])"

definition edges_of :: "'u bnode list \<Rightarrow> (nat \<times> nat) set" where
  "edges_of nodes = {(p, c). c \<in> set (children_of nodes p)}"

lemma edge_iff: "(p, c) \<in> edges_of nodes \<longleftrightarrow> c \<in> set (children_of nodes p)"
  unfolding edges_of_def by blast

lemma edgeE:
  assumes "(p, c) \<in> edges_of nodes"
  obtains cs where "p < length nodes" "bn_kind (nodes ! p) = InternalNode cs" "c \<in> set cs"
proof (cases "p < length nodes")
  case True
  then show ?thesis
    using assms that by (cases "bn_kind (nodes ! p)") (simp_all add: edge_iff children_of_def)
next
  case False
  then show ?thesis using assms by (simp add: edge_iff children_of_def)
qed

text \<open>The edges form a tree under the root that reaches every node.\<close>

definition tree_shape :: "(nat \<times> nat) set \<Rightarrow> nat \<Rightarrow> nat \<Rightarrow> bool" where
  "tree_shape E n root \<longleftrightarrow>
     root < n \<and>
     (\<forall>(p, c) \<in> E. p < n \<and> c < n) \<and>
     (\<forall>p p' c. (p, c) \<in> E \<longrightarrow> (p', c) \<in> E \<longrightarrow> p = p') \<and>
     (\<exists>rank :: nat \<Rightarrow> nat. \<forall>(p, c) \<in> E. rank c < rank p) \<and>
     (\<forall>i < n. (root, i) \<in> E\<^sup>*)"

definition covers :: "('u::linordered_ab_group_add) bounds \<Rightarrow> 'u bounds \<Rightarrow> bool" where
  "covers a b \<longleftrightarrow> b_left a \<le> b_left b \<and> b_right b \<le> b_right a \<and> b_top a \<le> b_top b \<and> b_bottom b \<le> b_bottom a"

text \<open>
  A node is a leaf with its own order, or it has between 2 and \<open>MAX_CHILDREN\<close> children which it covers,
  and its order is that of the last of them, the greatest.
\<close>

definition node_ok :: "('u::linordered_ab_group_add) bnode list \<Rightarrow> 'u bnode \<Rightarrow> bool" where
  "node_ok nodes node \<longleftrightarrow>
     (case bn_kind node of
        LeafNode order \<Rightarrow> bn_max_order node = order
      | InternalNode cs \<Rightarrow>
          2 \<le> length cs \<and> length cs \<le> MAX_CHILDREN \<and> distinct cs \<and>
          (\<forall>c \<in> set cs. c < length nodes \<and> covers (bn_bounds node) (bn_bounds (nodes ! c)) \<and>
             bn_max_order (nodes ! c) \<le> bn_max_order node) \<and>
          bn_max_order (nodes ! last cs) = bn_max_order node)"

definition arena_ok :: "('u::linordered_ab_group_add) bnode list \<Rightarrow> nat \<Rightarrow> bool" where
  "arena_ok nodes root \<longleftrightarrow> tree_shape (edges_of nodes) (length nodes) root \<and> (\<forall>node \<in> set nodes. node_ok nodes node)"

definition leaf_of :: "'u bnode \<Rightarrow> ('u bounds \<times> nat) option" where
  "leaf_of node = (case bn_kind node of LeafNode order \<Rightarrow> Some (bn_bounds node, order) | InternalNode _ \<Rightarrow> None)"

text \<open>The bounds with their orders, in the order of insertion.\<close>

definition leaves_of :: "'u bnode list \<Rightarrow> ('u bounds \<times> nat) list" where
  "leaves_of nodes = List.map_filter leaf_of nodes"

definition bt_wf :: "('u::linordered_ab_group_add) bounds_tree \<Rightarrow> bool" where
  "bt_wf t \<longleftrightarrow>
     (case (bt_root t, bt_max_leaf t) of
        (None, None) \<Rightarrow> bt_nodes t = []
      | (Some root, Some m) \<Rightarrow>
          arena_ok (bt_nodes t) root \<and>
          m < length (bt_nodes t) \<and> is_leaf_node (bt_nodes t ! m) \<and>
          (\<forall>(_, order) \<in> set (leaves_of (bt_nodes t)). order \<le> bn_max_order (bt_nodes t ! m))
      | _ \<Rightarrow> False)"

section \<open>Search is exact\<close>

text \<open>The reference: the greatest order among the leaves that meet the query.\<close>

definition max_order_of :: "('u::{plus,linorder}) bounds \<Rightarrow> ('u bounds \<times> nat) list \<Rightarrow> nat" where
  "max_order_of query leaves = fold max (map snd (filter (\<lambda>(b, _). intersects query b) leaves)) 0"

lemma fold_max_nat:
  fixes xs :: "nat list"
  shows "fold max xs m = Max (insert m (set xs))"
proof (induction xs arbitrary: m)
  case (Cons x xs)
  have "fold max (x # xs) m = Max (insert (max x m) (set xs))" using Cons.IH by simp
  also have "\<dots> = Max (insert m (set (x # xs)))"
    by (cases "set xs = {}") (simp_all add: max.assoc max.left_commute)
  finally show ?case .
qed simp

lemma max_order_of_eqI:
  assumes "\<And>b order. (b, order) \<in> set leaves \<Longrightarrow> intersects query b \<Longrightarrow> order \<le> m"
    and "m = 0 \<or> (\<exists>b. (b, m) \<in> set leaves \<and> intersects query b)"
  shows "max_order_of query leaves = m"
  unfolding max_order_of_def fold_max_nat
  by (rule Max_eqI) (use assms in \<open>force+\<close>)

lemma covers_intersects: "covers a b \<Longrightarrow> intersects q b \<Longrightarrow> intersects q a"
  by (auto simp: covers_def intersects_sides)

lemma in_leaves_iff:
  "(b, order) \<in> set (leaves_of nodes) \<longleftrightarrow> (\<exists>i < length nodes. leaf_of (nodes ! i) = Some (b, order))"
  by (auto simp: leaves_of_def map_filter_def in_set_conv_nth image_iff Bex_def split: option.splits)

lemma node_okD:
  assumes "node_ok nodes node" "bn_kind node = InternalNode cs" "c \<in> set cs"
  shows "c < length nodes" "covers (bn_bounds node) (bn_bounds (nodes ! c))"
    "bn_max_order (nodes ! c) \<le> bn_max_order node"
  using assms by (auto simp: node_ok_def)

text \<open>The leaves below a node that meet the query.\<close>

definition hits :: "('u::{plus,linorder}) bnode list \<Rightarrow> 'u bounds \<Rightarrow> nat \<Rightarrow> nat set" where
  "hits nodes query i =
     {order. \<exists>j b. (i, j) \<in> (edges_of nodes)\<^sup>* \<and> j < length nodes \<and> leaf_of (nodes ! j) = Some (b, order) \<and>
        intersects query b}"

lemma hits_leaf:
  assumes "i < length nodes" "bn_kind (nodes ! i) = LeafNode order"
  shows "hits nodes query i = (if intersects query (bn_bounds (nodes ! i)) then {order} else {})"
proof -
  have "(i, j) \<in> (edges_of nodes)\<^sup>* \<longleftrightarrow> j = i" for j
  proof
    assume "(i, j) \<in> (edges_of nodes)\<^sup>*"
    then show "j = i" by (rule converse_rtranclE) (use assms in \<open>auto simp: edge_iff children_of_def\<close>)
  qed simp
  then show ?thesis using assms by (auto simp: hits_def leaf_of_def)
qed

lemma hits_internal:
  assumes "i < length nodes" "bn_kind (nodes ! i) = InternalNode cs"
  shows "hits nodes query i = (\<Union>c \<in> set cs. hits nodes query c)"
proof -
  have edge: "(i, c) \<in> edges_of nodes \<longleftrightarrow> c \<in> set cs" for c
    using assms by (simp add: edge_iff children_of_def)
  have "leaf_of (nodes ! i) = None" using assms by (simp add: leaf_of_def)
  then have "j \<noteq> i" if "leaf_of (nodes ! j) = Some x" for j x using that by auto
  then have "(i, j) \<in> (edges_of nodes)\<^sup>* \<longleftrightarrow> (\<exists>c \<in> set cs. (c, j) \<in> (edges_of nodes)\<^sup>*)"
    if "leaf_of (nodes ! j) = Some x" for j x
    using that edge by (metis converse_rtranclE converse_rtrancl_into_rtrancl)
  then show ?thesis unfolding hits_def by blast
qed

lemma hits_bounded:
  assumes "arena_ok nodes root" "order \<in> hits nodes query i"
  shows "order \<le> bn_max_order (nodes ! i) \<and> intersects query (bn_bounds (nodes ! i))"
proof -
  obtain j b where j: "(i, j) \<in> (edges_of nodes)\<^sup>*" "j < length nodes" "leaf_of (nodes ! j) = Some (b, order)" "intersects query b"
    using assms(2) by (auto simp: hits_def)
  have ok: "node_ok nodes (nodes ! k)" if "k < length nodes" for k
    using assms(1) that by (simp add: arena_ok_def)
  from j(1) show ?thesis
  proof (induction rule: converse_rtrancl_induct)
    case base
    show ?case using j(2-4) ok [OF j(2)] by (auto simp: leaf_of_def node_ok_def split: node_kind.splits)
  next
    case (step p c)
    obtain cs where p: "p < length nodes" "bn_kind (nodes ! p) = InternalNode cs" "c \<in> set cs"
      using step(1) by (rule edgeE)
    show ?case
      using step.IH node_okD [OF ok [OF p(1)] p(2,3)] covers_intersects [of "bn_bounds (nodes ! p)"] by auto
  qed
qed

text \<open>
  Searching below a node: the loop goes on with the rest of the stack, having raised the result to the
  greatest order among the leaves below the node that meet the query.
\<close>

definition searched :: "nat set \<Rightarrow> nat \<Rightarrow> nat \<Rightarrow> bool" where
  "searched H m m' \<longleftrightarrow> m \<le> m' \<and> (\<forall>order \<in> H. order \<le> m') \<and> (m' = m \<or> m' \<in> H)"

lemma searched_simps:
  "searched {} m m"
  "(\<forall>order \<in> H. order \<le> m) \<Longrightarrow> searched H m m"
  "searched {order} m (max m order)"
  by (auto simp: searched_def)

lemma searched_trans: "searched H m m' \<Longrightarrow> searched H' m' m'' \<Longrightarrow> searched (H \<union> H') m m''"
  by (fastforce simp: searched_def)

lemma search_stack:
  assumes "\<And>i m rest. i \<in> set is \<Longrightarrow> \<exists>m'. search_loop nodes query (i # rest) m = search_loop nodes query rest m' \<and>
      searched (hits nodes query i) m m'"
  shows "\<exists>m'. search_loop nodes query (is @ rest) m = search_loop nodes query rest m' \<and>
      searched (\<Union>i \<in> set is. hits nodes query i) m m'"
  using assms
proof (induction "is" arbitrary: m)
  case Nil
  show ?case by (auto simp: searched_simps)
next
  case (Cons i "is")
  obtain m1 where m1: "search_loop nodes query ((i # is) @ rest) m = search_loop nodes query (is @ rest) m1"
    "searched (hits nodes query i) m m1"
    using Cons.prems [of i "is @ rest" m] by auto
  obtain m2 where m2: "search_loop nodes query (is @ rest) m1 = search_loop nodes query rest m2"
    "searched (\<Union>i \<in> set is. hits nodes query i) m1 m2"
    using Cons.IH [of m1] Cons.prems by fastforce
  show ?case using m1 m2 searched_trans [OF m1(2) m2(2)] by auto
qed

lemma search_node:
  assumes ok: "arena_ok nodes root" and rank: "\<forall>(p, c) \<in> edges_of nodes. rank c < (rank p :: nat)"
    and i: "i < length nodes"
  shows "\<exists>m'. search_loop nodes query (i # rest) m = search_loop nodes query rest m' \<and>
    searched (hits nodes query i) m m'"
  using i
proof (induction "rank i" arbitrary: i rest m rule: less_induct)
  case less
  let ?node = "nodes ! i"
  have node: "nth_opt nodes i = Some ?node" "node_ok nodes ?node"
    using less.prems ok by (simp_all add: nth_opt_def arena_ok_def)
  note bounded = hits_bounded [OF ok, of _ query i]
  consider "bn_max_order ?node \<le> m \<or> \<not> intersects query (bn_bounds ?node)"
    | order where "\<not> bn_max_order ?node \<le> m" "intersects query (bn_bounds ?node)" "bn_kind ?node = LeafNode order"
    | cs where "\<not> bn_max_order ?node \<le> m" "intersects query (bn_bounds ?node)" "bn_kind ?node = InternalNode cs"
    by (cases "bn_kind ?node") auto
  then show ?case
  proof cases
    case 1
    then have "\<forall>order \<in> hits nodes query i. order \<le> m" using bounded by (meson order_trans)
    then show ?thesis using 1 node by (auto simp: search_loop.simps [of _ _ "i # rest"] intro: searched_simps(2))
  next
    case 2
    then show ?thesis
      using node hits_leaf [OF less.prems 2(3), of query]
      by (auto simp: search_loop.simps [of _ _ "i # rest"] searched_simps)
  next
    case 3
    let ?ks = "filter (\<lambda>c. bn_max_order (nodes ! c) > m) cs"
    have cs: "c < length nodes" "rank c < rank i" if "c \<in> set cs" for c
      using node_okD(1) [OF node(2) 3(3) that] rank that less.prems 3(3)
      by (auto simp: edge_iff children_of_def)
    have "search_loop nodes query (i # rest) m = search_loop nodes query (rev ?ks @ rest) m"
      using 3 node cs by (simp add: search_loop.simps [of _ _ "i # rest"] filter_children_def list_all_iff)
    moreover obtain m' where m': "search_loop nodes query (rev ?ks @ rest) m = search_loop nodes query rest m'"
      "searched (\<Union>c \<in> set (rev ?ks). hits nodes query c) m m'"
      using search_stack [of "rev ?ks" nodes query rest m] less.hyps cs by auto
    moreover have "order \<le> m'" if hit: "order \<in> hits nodes query i" for order
    proof -
      obtain c where c: "c \<in> set cs" "order \<in> hits nodes query c"
        using hit hits_internal [OF less.prems 3(3), of query] by auto
      show ?thesis
        using m'(2) hits_bounded [OF ok c(2)] c by (cases "c \<in> set ?ks") (auto simp: searched_def)
    qed
    ultimately show ?thesis
      using hits_internal [OF less.prems 3(3), of query] by (auto simp: searched_def)
  qed
qed

lemma hits_root:
  assumes "arena_ok nodes root"
  shows "hits nodes query root = {order. \<exists>b. (b, order) \<in> set (leaves_of nodes) \<and> intersects query b}"
  using assms by (auto simp: hits_def in_leaves_iff arena_ok_def tree_shape_def)

lemma find_max_ordering_ok:
  assumes "bt_wf t"
  shows "find_max_ordering t query = Some (max_order_of query (leaves_of (bt_nodes t)))"
proof (cases "bt_root t")
  case None
  then show ?thesis
    using assms by (simp add: bt_wf_def find_max_ordering_def leaves_of_def max_order_of_def split: option.splits)
next
  case (Some root)
  let ?nodes = "bt_nodes t"
  obtain m where m: "bt_max_leaf t = Some m" "arena_ok ?nodes root" "m < length ?nodes" "is_leaf_node (?nodes ! m)"
    "\<forall>(_, order) \<in> set (leaves_of ?nodes). order \<le> bn_max_order (?nodes ! m)"
    using assms Some by (auto simp: bt_wf_def split: option.splits)
  have leaf: "(bn_bounds (?nodes ! m), bn_max_order (?nodes ! m)) \<in> set (leaves_of ?nodes)"
    using m(2-4) nth_mem [OF m(3)]
    by (auto simp: in_leaves_iff leaf_of_def arena_ok_def node_ok_def split: node_kind.splits)
  have root: "root < length ?nodes" and "\<exists>rank :: nat \<Rightarrow> nat. \<forall>(p, c) \<in> edges_of ?nodes. rank c < rank p"
    using m(2) by (simp_all add: arena_ok_def tree_shape_def)
  then obtain rank :: "nat \<Rightarrow> nat" where rank: "\<forall>(p, c) \<in> edges_of ?nodes. rank c < rank p" by blast
  obtain m' where m': "search_loop ?nodes query [root] 0 = search_loop ?nodes query [] m'"
    "searched (hits ?nodes query root) 0 m'"
    using search_node [OF m(2) rank root] by blast
  have "search_loop ?nodes query [root] 0 = Some (max_order_of query (leaves_of ?nodes))"
    using m' hits_root [OF m(2), of query]
    by (subst max_order_of_eqI [of _ _ m']) (auto simp: searched_def search_loop.simps [of _ _ "[]"])
  moreover have "max_order_of query (leaves_of ?nodes) = bn_max_order (?nodes ! m)"
    if "intersects query (bn_bounds (?nodes ! m))"
    by (rule max_order_of_eqI) (use leaf m(5) that in auto)
  ultimately show ?thesis
    using Some m(1,3) by (auto simp: find_max_ordering_def nth_opt_def)
qed

end
