(* ===== verification/Bounds_Insert.thy ===== *)
theory Bounds_Insert
  imports Bounds_Tree
begin

text \<open>
  Insertion into the tree of bounds of \<open>crates/gpui/src/bounds_tree.rs\<close>: the descent ends at a node with a leaf,
  adding the new leaf there and raising the bounds and orders on the way back to the root keeps
  the invariant, and the orders of a sequence of insertions are those of a plain search.
\<close>

section \<open>The shape of the tree\<close>

lemma tree_shape_root: "tree_shape E n root \<Longrightarrow> (p, root) \<notin> E"
proof
  assume t: "tree_shape E n root" and e: "(p, root) \<in> E"
  then obtain rank :: "nat \<Rightarrow> nat" where rank: "\<forall>(p, c) \<in> E. rank c < rank p" and "(root, p) \<in> E\<^sup>*"
    by (auto simp: tree_shape_def)
  from this(2) have "rank p \<le> rank root" by induction (use rank in fastforce)+
  then show False using e rank by fastforce
qed

lemma rtrancl_subst:
  assumes "(x, y) \<in> E\<^sup>*" "\<And>p c. (p, c) \<in> E \<Longrightarrow> (p, c) \<in> F\<^sup>*"
  shows "(x, y) \<in> F\<^sup>*"
  using assms(1) by induction (auto intro: rtrancl_trans assms(2))

lemma tree_shape_add_leaf:
  assumes "tree_shape E n root" "p < n"
  shows "tree_shape (insert (p, n) E) (Suc n) root"
proof -
  obtain rank :: "nat \<Rightarrow> nat" where rank: "\<forall>(p, c) \<in> E. rank c < rank p"
    using assms(1) by (auto simp: tree_shape_def)
  let ?rank = "\<lambda>i. if i = n then 0 else Suc (rank i)"
  have "\<forall>(q, c) \<in> insert (p, n) E. ?rank c < ?rank q"
    using rank assms by (fastforce simp: tree_shape_def)
  then have r: "\<exists>rank :: nat \<Rightarrow> nat. \<forall>(q, c) \<in> insert (p, n) E. rank c < rank q" by (rule exI [of _ ?rank])
  have "(root, i) \<in> (insert (p, n) E)\<^sup>*" if "i < n" for i
    using assms(1) that by (auto simp: tree_shape_def intro: rtrancl_mono [THEN subsetD, rotated])
  then have "(root, i) \<in> (insert (p, n) E)\<^sup>*" if "i < Suc n" for i
    using that assms(2) by (cases "i = n") (auto intro: rtrancl_into_rtrancl)
  then show ?thesis using assms r unfolding tree_shape_def by (auto simp: less_Suc_eq)
qed

lemma tree_shape_split:
  assumes "tree_shape E n root" "(p, c) \<in> E"
  defines "F \<equiv> (E - {(p, c)}) \<union> {(p, Suc n), (Suc n, c), (Suc n, n)}"
  shows "tree_shape F (Suc (Suc n)) root"
proof -
  obtain rank :: "nat \<Rightarrow> nat" where rank: "\<forall>(p, c) \<in> E. rank c < rank p"
    using assms(1) by (auto simp: tree_shape_def)
  have bound: "q < n \<and> d < n" if "(q, d) \<in> E" for q d using assms(1) that by (auto simp: tree_shape_def)
  have uniq: "q = q'" if "(q, d) \<in> E" "(q', d) \<in> E" for q q' d using assms(1) that by (auto simp: tree_shape_def)
  let ?rank = "\<lambda>i. if i = n then 0 else if i = Suc n then 2 * rank c + 1 else 2 * rank i"
  have up: "rank d < rank q" if "(q, d) \<in> E" for q d using rank that by auto
  have "?rank d < ?rank q" if "(q, d) \<in> F" for q d
  proof (cases "(q, d) \<in> E")
    case True
    then show ?thesis using up [OF True] bound [OF True] by simp
  next
    case False
    then show ?thesis using that up [OF assms(2)] bound [OF assms(2)] by (auto simp: F_def)
  qed
  then have "\<forall>(q, d) \<in> F. ?rank d < ?rank q" by blast
  then have r: "\<exists>rank :: nat \<Rightarrow> nat. \<forall>(q, d) \<in> F. rank d < rank q" by (rule exI [of _ ?rank])
  have new: "(p, Suc n) \<in> F" "(Suc n, c) \<in> F" "(Suc n, n) \<in> F" by (auto simp: F_def)
  have old: "(q, d) \<in> F\<^sup>*" if "(q, d) \<in> E" for q d
    using that new by (cases "(q, d) = (p, c)") (auto simp: F_def intro: converse_rtrancl_into_rtrancl)
  have reach: "(root, i) \<in> F\<^sup>*" if "i < n" for i
    using assms(1) that by (auto simp: tree_shape_def intro: rtrancl_subst [OF _ old])
  have "(root, Suc n) \<in> F\<^sup>*" using reach [of p] bound [OF assms(2)] new(1) by (auto intro: rtrancl_into_rtrancl)
  then have "(root, i) \<in> F\<^sup>*" if "i < Suc (Suc n)" for i
    using that reach new(3) by (auto simp: less_Suc_eq intro: rtrancl_into_rtrancl)
  moreover have "q = q'" if "(q, d) \<in> F" "(q', d) \<in> F" for q q' d
    using that uniq assms(2) bound unfolding F_def by (auto dest: bound)
  moreover have "q < Suc (Suc n) \<and> d < Suc (Suc n)" if "(q, d) \<in> F" for q d
    using that bound assms(2) unfolding F_def by (fastforce dest: bound)
  moreover have "root < Suc (Suc n)" using assms(1) by (simp add: tree_shape_def)
  ultimately show ?thesis using r unfolding tree_shape_def by blast
qed

lemma tree_shape_new_root:
  assumes "tree_shape E n root"
  defines "F \<equiv> E \<union> {(Suc n, root), (Suc n, n)}"
  shows "tree_shape F (Suc (Suc n)) (Suc n)"
proof -
  obtain rank :: "nat \<Rightarrow> nat" where rank: "\<forall>(p, c) \<in> E. rank c < rank p"
    using assms(1) by (auto simp: tree_shape_def)
  have bound: "q < n \<and> d < n" if "(q, d) \<in> E" for q d using assms(1) that by (auto simp: tree_shape_def)
  have root: "root < n" "\<And>p. (p, root) \<notin> E"
    using assms(1) tree_shape_root [OF assms(1)] by (simp_all add: tree_shape_def)
  let ?rank = "\<lambda>i. if i = n then 0 else if i = Suc n then Suc (rank root) else rank i"
  have "?rank d < ?rank q" if "(q, d) \<in> F" for q d
  proof (cases "(q, d) \<in> E")
    case True
    then show ?thesis using rank bound [OF True] by fastforce
  next
    case False
    then show ?thesis using that root by (auto simp: F_def)
  qed
  then have "\<forall>(q, d) \<in> F. ?rank d < ?rank q" by blast
  then have r: "\<exists>rank :: nat \<Rightarrow> nat. \<forall>(q, d) \<in> F. rank d < rank q" by (rule exI [of _ ?rank])
  have reach: "(Suc n, i) \<in> F\<^sup>*" if "i < n" for i
  proof -
    have "(root, i) \<in> F\<^sup>*"
      using assms(1) that unfolding F_def tree_shape_def by (auto intro: rtrancl_mono [THEN subsetD, rotated])
    then show ?thesis by (rule converse_rtrancl_into_rtrancl [rotated]) (simp add: F_def)
  qed
  have "(Suc n, n) \<in> F\<^sup>*" by (rule r_into_rtrancl) (simp add: F_def)
  then have "(Suc n, i) \<in> F\<^sup>*" if "i < Suc (Suc n)" for i using that reach by (auto simp: less_Suc_eq)
  moreover have "q = q'" if "(q, d) \<in> F" "(q', d) \<in> F" for q q' d
    using that assms(1) root bound unfolding F_def tree_shape_def by (auto dest: bound)
  moreover have "q < Suc (Suc n) \<and> d < Suc (Suc n)" if "(q, d) \<in> F" for q d
    using that root unfolding F_def by (fastforce dest: bound)
  ultimately show ?thesis using r unfolding tree_shape_def by blast
qed

section \<open>Descending\<close>

lemma best_child_loop_ok:
  assumes "\<forall>c \<in> set ks. c < length nodes" "bp < length (pre @ ks)" "(pre @ ks) ! bp = bi" "length pre = pos"
  shows "\<exists>idx p. best_child_loop nodes b pos ks cost bi bp = Some (idx, p) \<and> p < length (pre @ ks) \<and>
    (pre @ ks) ! p = idx"
  using assms
proof (induction ks arbitrary: pre pos cost bi bp)
  case (Cons k ks)
  have "(pre @ k # ks) ! pos = k" "pos < length (pre @ k # ks)" using Cons.prems(4) by auto
  then show ?case
    using Cons.IH [of bp "pre @ [k]" bi "Suc pos" cost] Cons.IH [of pos "pre @ [k]" k "Suc pos"] Cons.prems
    by (auto simp: child_cost_def nth_opt_def)
qed simp

lemma best_child_ok:
  assumes "\<forall>c \<in> set cs. c < length nodes" "cs \<noteq> []"
  obtains idx p where "best_child nodes b cs = Some (idx, p)" "p < length cs" "cs ! p = idx"
proof (cases cs)
  case (Cons c ks)
  then show ?thesis
    using best_child_loop_ok [of ks nodes 0 "[c]" c 1 b] assms that
    by (fastforce simp: child_cost_def nth_opt_def)
qed (use assms in simp)

text \<open>A path from a node up to the root.\<close>

fun up_path :: "(nat \<times> nat) set \<Rightarrow> nat \<Rightarrow> nat list \<Rightarrow> bool" where
  "up_path E root [] = False"
| "up_path E root [i] \<longleftrightarrow> i = root"
| "up_path E root (i # j # rest) \<longleftrightarrow> (j, i) \<in> E \<and> up_path E root (j # rest)"

lemma descend_ok:
  assumes ok: "\<forall>node \<in> set nodes. node_ok nodes node" and rank: "\<forall>(p, c) \<in> edges_of nodes. rank c < (rank p :: nat)"
    and "i < length nodes" "\<not> is_leaf_node (nodes ! i)" "up_path (edges_of nodes) root (i # rev path)"
  shows "\<exists>path' cur best pos cs. descend nodes b path i = Some (path' @ [cur], best, pos) \<and>
    up_path (edges_of nodes) root (cur # rev path') \<and> cur < length nodes \<and>
    bn_kind (nodes ! cur) = InternalNode cs \<and> pos < length cs \<and> cs ! pos = best \<and>
    best < length nodes \<and> is_leaf_node (nodes ! best)"
  using assms(3-)
proof (induction "rank i" arbitrary: i path rule: less_induct)
  case less
  obtain cs where cs: "bn_kind (nodes ! i) = InternalNode cs"
    using less.prems(2) by (cases "bn_kind (nodes ! i)") auto
  have nok: "node_ok nodes (nodes ! i)" using ok less.prems(1) by simp
  then have "cs \<noteq> []" "\<forall>c \<in> set cs. c < length nodes" using cs by (auto simp: node_ok_def)
  then obtain best p where bp: "best_child nodes b cs = Some (best, p)" "p < length cs" "cs ! p = best"
    using best_child_ok by metis
  have best: "best \<in> set cs" "best < length nodes" using bp \<open>\<forall>c \<in> set cs. c < length nodes\<close> nth_mem by blast+
  have edge: "(i, best) \<in> edges_of nodes" using cs best less.prems(1) by (simp add: edge_iff children_of_def)
  have step: "descend nodes b path i =
    (if is_leaf_node (nodes ! best) then Some (path @ [i], best, p) else descend nodes b (path @ [i]) best)"
    using less.prems(1) cs bp best by (simp add: descend.simps [of _ _ path] nth_opt_def)
  show ?case
  proof (cases "is_leaf_node (nodes ! best)")
    case True
    then show ?thesis using step less.prems cs bp best by auto
  next
    case False
    have "up_path (edges_of nodes) root (best # rev (path @ [i]))" using less.prems(3) edge by simp
    then show ?thesis
      using less.hyps [of best "path @ [i]"] rank edge best False step by auto
  qed
qed

section \<open>Propagating\<close>

lemma covers_simps:
  fixes a b c :: "'u::linordered_ab_group_add bounds"
  shows "covers a a" "covers a b \<Longrightarrow> covers (b_union a c) b" "covers (b_union a c) c"
    "covers a b \<Longrightarrow> covers (b_union a c) (b_union b c)" "covers a (b_union b c) \<longleftrightarrow> covers a b \<and> covers a c"
  by (auto simp: covers_def sides_union min_le_iff_disj le_max_iff_disj intro: min.mono max.mono)

lemma union_absorb:
  fixes a b :: "'u::linordered_ab_group_add bounds"
  shows "b_union (b_union a b) b = b_union a b"
  by (rule bounds_eqI) (simp_all add: sides_union)

lemma swap_facts:
  assumes "i < length xs" "j < length xs"
  shows "length (swap xs i j) = length xs" "set (swap xs i j) = set xs" "distinct (swap xs i j) = distinct xs"
    "swap xs i j ! j = xs ! i"
  using assms by (simp_all add: swap_def)

lemma last_swap:
  assumes "i < length xs"
  shows "last (swap xs i (length xs - 1)) = xs ! i"
proof -
  have "length xs - 1 < length xs" using assms by simp
  then show ?thesis
    using swap_facts [OF assms, of "length xs - 1"] assms by (subst last_conv_nth) auto
qed

lemma index_of_ok: "c \<in> set xs \<Longrightarrow> \<exists>i. index_of xs c = Some i \<and> i < length xs \<and> xs ! i = c"
  by (induction xs) auto

lemma swap_to_end_facts:
  assumes "c \<in> set xs"
  shows "length (swap_to_end xs c) = length xs" "set (swap_to_end xs c) = set xs"
    "distinct (swap_to_end xs c) = distinct xs" "last (swap_to_end xs c) = c"
proof -
  obtain i where i: "index_of xs c = Some i" "i < length xs" "xs ! i = c" using index_of_ok [OF assms] by blast
  have l: "length xs - 1 < length xs" "xs \<noteq> []" using i(2) by auto
  show "length (swap_to_end xs c) = length xs" "set (swap_to_end xs c) = set xs"
    "distinct (swap_to_end xs c) = distinct xs"
    using i swap_facts [OF i(2) l(1)] by (simp_all add: swap_to_end_def Let_def)
  show "last (swap_to_end xs c) = c"
    using i last_swap [OF i(2)] last_conv_nth [OF l(2)] by (cases "i = length xs - 1") (auto simp: swap_to_end_def Let_def)
qed

text \<open>
  A node in front of the loop: its bounds and order are not yet raised, while those of a child
  already are.
\<close>

definition pending ::
  "('u::linordered_ab_group_add) bnode list \<Rightarrow> 'u bounds \<Rightarrow> nat \<Rightarrow> nat \<Rightarrow> 'u bnode \<Rightarrow> bool" where
  "pending nodes b order child node \<longleftrightarrow>
     (case bn_kind node of
        LeafNode _ \<Rightarrow> False
      | InternalNode cs \<Rightarrow>
          2 \<le> length cs \<and> length cs \<le> MAX_CHILDREN \<and> distinct cs \<and> child \<in> set cs \<and>
          (\<forall>c \<in> set cs. c < length nodes \<and> covers (b_union (bn_bounds node) b) (bn_bounds (nodes ! c)) \<and>
             bn_max_order (nodes ! c) \<le> max (bn_max_order node) order) \<and>
          (if bn_max_order node < order then bn_max_order (nodes ! child) = order
           else bn_max_order (nodes ! last cs) = bn_max_order node))"

definition grown :: "('u::linordered_ab_group_add) bnode list \<Rightarrow> 'u bounds \<Rightarrow> nat \<Rightarrow> nat \<Rightarrow> bool" where
  "grown nodes b order i \<longleftrightarrow>
     i < length nodes \<and> node_ok nodes (nodes ! i) \<and>
     (\<forall>k < length nodes. k \<noteq> i \<longrightarrow>
        (if (k, i) \<in> edges_of nodes then pending nodes b order i (nodes ! k) else node_ok nodes (nodes ! k)))"


lemma node_ok_cong:
  assumes "node_ok nodes node" "length nodes \<le> length nodes'"
    "\<And>cs c. bn_kind node = InternalNode cs \<Longrightarrow> c \<in> set cs \<Longrightarrow> nodes' ! c = nodes ! c"
  shows "node_ok nodes' node"
proof (cases "bn_kind node")
  case (InternalNode cs)
  have "last cs \<in> set cs" using assms(1) InternalNode by (intro last_in_set) (auto simp: node_ok_def)
  then show ?thesis using assms InternalNode by (auto simp: node_ok_def)
qed (use assms in \<open>simp add: node_ok_def\<close>)

text \<open>A node that was raised leaves its parent pending.\<close>

lemma pending_parent:
  assumes ok: "node_ok nodes node" and kind: "bn_kind node = InternalNode cs" "i \<in> set cs" "i < length nodes"
    and raised: "bn_bounds n' = b_union (bn_bounds (nodes ! i)) b" "bn_max_order n' = max (bn_max_order (nodes ! i)) order"
  shows "pending (nodes[i := n']) b order i node"
proof -
  have cs: "2 \<le> length cs" "length cs \<le> MAX_CHILDREN" "distinct cs" "last cs \<in> set cs"
    "bn_max_order (nodes ! last cs) = bn_max_order node"
    using ok kind by (auto simp: node_ok_def intro!: last_in_set)
  note child = node_okD [OF ok kind(1)]
  have "covers (b_union (bn_bounds node) b) (bn_bounds (nodes[i := n'] ! c)) \<and>
      bn_max_order (nodes[i := n'] ! c) \<le> max (bn_max_order node) order" if "c \<in> set cs" for c
    using child [OF that] kind(3) raised by (cases "c = i") (auto simp: covers_simps intro: max.mono)
  moreover have "if bn_max_order node < order then bn_max_order (nodes[i := n'] ! i) = order
      else bn_max_order (nodes[i := n'] ! last cs) = bn_max_order node"
    using child(3) [OF kind(2)] cs(5) kind(3) raised by (cases "last cs = i") auto
  ultimately show ?thesis using cs kind child(1) by (simp add: pending_def)
qed

lemma grownI:
  assumes ok: "\<And>k. k < length nodes \<Longrightarrow> k \<noteq> i \<Longrightarrow> node_ok nodes (nodes ! k)" and i: "i < length nodes"
    and raised: "bn_bounds n' = b_union (bn_bounds (nodes ! i)) b" "bn_max_order n' = max (bn_max_order (nodes ! i)) order"
    and new: "node_ok (nodes[i := n']) n'"
  shows "grown (nodes[i := n']) b order i"
proof -
  have "if (k, i) \<in> edges_of (nodes[i := n']) then pending (nodes[i := n']) b order i (nodes ! k)
      else node_ok (nodes[i := n']) (nodes ! k)" if k: "k < length nodes" "k \<noteq> i" for k
  proof (cases "(k, i) \<in> edges_of (nodes[i := n'])")
    case True
    then obtain cs where "bn_kind (nodes ! k) = InternalNode cs" "i \<in> set cs"
      using k by (auto elim!: edgeE)
    then show ?thesis using pending_parent [OF ok [OF k] _ _ i raised] True by simp
  next
    case False
    then have other: "c \<noteq> i" if "bn_kind (nodes ! k) = InternalNode cs" "c \<in> set cs" for cs c
      using that k by (auto simp: edge_iff children_of_def)
    have "node_ok (nodes[i := n']) (nodes ! k)"
      by (rule node_ok_cong [OF ok [OF k]]) (simp_all add: nth_list_update_neq [OF other [symmetric]])
    then show ?thesis using False by simp
  qed
  then show ?thesis using i new by (simp add: grown_def)
qed

lemma children_of_update: "k \<noteq> i \<Longrightarrow> children_of (nodes[i := n']) k = children_of nodes k"
  by (simp add: children_of_def)

text \<open>One step of the loop.\<close>

lemma propagate_node_facts:
  assumes "pending nodes b order child node" "bn_kind node = InternalNode cs"
  obtains cs' where "bn_kind (propagate_node b order (Some child) node) = InternalNode cs'"
    "length cs' = length cs" "set cs' = set cs" "distinct cs'"
    "bn_max_order (nodes ! last cs') = max (bn_max_order node) order"
proof -
  have child: "child \<in> set cs" "distinct cs" using assms by (simp_all add: pending_def)
  let ?cs = "if bn_max_order node < order then swap_to_end cs child else cs"
  have "bn_kind (propagate_node b order (Some child) node) = InternalNode ?cs"
    using assms(2) by (simp add: propagate_node_def Let_def)
  moreover have "bn_max_order (nodes ! last ?cs) = max (bn_max_order node) order"
    using assms swap_to_end_facts(4) [OF child(1)] by (auto simp: pending_def split: if_splits)
  ultimately show ?thesis using that [of ?cs] swap_to_end_facts [OF child(1)] child(2) by simp
qed

lemma propagate_node_raised:
  "bn_bounds (propagate_node b order upd node) = b_union (bn_bounds node) b"
  "bn_max_order (propagate_node b order upd node) = max (bn_max_order node) order"
  "leaf_of node = None \<Longrightarrow> leaf_of (propagate_node b order upd node) = None"
  by (auto simp: propagate_node_def Let_def leaf_of_def split: option.splits node_kind.splits)

lemma propagate_node_ok:
  assumes "pending nodes b order child (nodes ! i)" "i < length nodes" "(i, i) \<notin> edges_of nodes"
  defines "n' \<equiv> propagate_node b order (Some child) (nodes ! i)"
  shows "node_ok (nodes[i := n']) n'" "edges_of (nodes[i := n']) = edges_of nodes" "leaf_of n' = leaf_of (nodes ! i)"
proof -
  obtain cs where cs: "bn_kind (nodes ! i) = InternalNode cs"
    using assms(1) by (auto simp: pending_def split: node_kind.splits)
  obtain cs' where cs': "bn_kind n' = InternalNode cs'" "length cs' = length cs" "set cs' = set cs" "distinct cs'"
    "bn_max_order (nodes ! last cs') = max (bn_max_order (nodes ! i)) order"
    using propagate_node_facts [OF assms(1) cs] unfolding n'_def by blast
  have "i \<notin> set cs" using assms(2,3) cs by (simp add: edge_iff children_of_def)
  moreover have "last cs' \<in> set cs" using cs'(2,3) assms(1) cs by (subst cs'(3) [symmetric], intro last_in_set) (auto simp: pending_def)
  ultimately have "nodes[i := n'] ! last cs' = nodes ! last cs'" "\<And>c. c \<in> set cs \<Longrightarrow> nodes[i := n'] ! c = nodes ! c"
    by (auto intro!: nth_list_update_neq)
  then show "node_ok (nodes[i := n']) n'"
    using assms(1) cs cs' propagate_node_raised(1,2) [of b order "Some child" "nodes ! i", folded n'_def]
    by (simp add: pending_def node_ok_def)
  have "children_of (nodes[i := n']) i = cs'" "children_of nodes i = cs"
    using cs cs'(1) assms(2) by (simp_all add: children_of_def)
  then have "set (children_of (nodes[i := n']) k) = set (children_of nodes k)" for k
    using cs'(3) by (cases "k = i") (simp_all add: children_of_update)
  then show "edges_of (nodes[i := n']) = edges_of nodes"
    by (intro subset_antisym subrelI) (simp_all add: edge_iff)
  show "leaf_of n' = leaf_of (nodes ! i)" using cs cs'(1) by (simp add: leaf_of_def)
qed

lemma leaves_of_simps:
  "leaves_of (xs @ ys) = leaves_of xs @ leaves_of ys"
  "leaves_of [] = []"
  "leaves_of (n # xs) = (case leaf_of n of None \<Rightarrow> [] | Some l \<Rightarrow> [l]) @ leaves_of xs"
  by (simp_all add: leaves_of_def map_filter_def split: option.splits)

lemma leaves_of_update:
  assumes "i < length nodes" "leaf_of n = leaf_of (nodes ! i)"
  shows "leaves_of (nodes[i := n]) = leaves_of nodes"
proof -
  have "nodes = take i nodes @ [nodes ! i] @ drop (Suc i) nodes" using assms(1) by (simp add: id_take_nth_drop)
  then have "leaves_of nodes = leaves_of (take i nodes) @ leaves_of [nodes ! i] @ leaves_of (drop (Suc i) nodes)"
    by (metis leaves_of_simps(1))
  then show ?thesis using assms by (simp add: upd_conv_take_nth_drop leaves_of_simps)
qed

lemma propagate_ok:
  assumes "grown nodes b order i" "up_path (edges_of nodes) root (i # path)"
    "tree_shape (edges_of nodes) (length nodes) root"
  shows "\<exists>nodes'. propagate b order path (Some i) nodes = Some nodes' \<and> arena_ok nodes' root \<and>
    length nodes' = length nodes \<and> leaves_of nodes' = leaves_of nodes \<and>
    (\<forall>k < length nodes. is_leaf_node (nodes ! k) \<longrightarrow> nodes' ! k = nodes ! k)"
  using assms
proof (induction path arbitrary: i nodes)
  case Nil
  have "i = root" using Nil.prems(2) by simp
  have "node_ok nodes (nodes ! k)" if "k < length nodes" for k
    using Nil.prems(1) tree_shape_root [OF Nil.prems(3), of k] that unfolding grown_def \<open>i = root\<close>
    by (cases "k = root") auto
  then show ?case using Nil.prems(3) by (auto simp: arena_ok_def in_set_conv_nth)
next
  case (Cons j path)
  have edge: "(j, i) \<in> edges_of nodes" and up: "up_path (edges_of nodes) root (j # path)"
    using Cons.prems(2) by simp_all
  have uniq: "(k, i) \<in> edges_of nodes \<Longrightarrow> k = j" for k using edge Cons.prems(3) by (auto simp: tree_shape_def)
  have irrefl: "(k, k) \<notin> edges_of nodes" for k using Cons.prems(3) by (auto simp: tree_shape_def)
  have j: "j < length nodes" "j \<noteq> i" using edge irrefl by (auto elim: edgeE)
  then have pend: "pending nodes b order i (nodes ! j)" using Cons.prems(1) edge by (auto simp: grown_def)
  let ?n = "propagate_node b order (Some i) (nodes ! j)" and ?nodes = "nodes[j := propagate_node b order (Some i) (nodes ! j)]"
  note step = propagate_node_ok [OF pend j(1) irrefl]
  have "grown ?nodes b order j"
  proof (rule grownI)
    fix k assume "k < length nodes" "k \<noteq> j"
    then show "node_ok nodes (nodes ! k)"
      using Cons.prems(1) uniq [of k] by (cases "k = i") (auto simp: grown_def split: if_splits)
  qed (use j step propagate_node_raised in auto)
  moreover have "nth_opt nodes j = Some (nodes ! j)" using j by (simp add: nth_opt_def)
  moreover have "leaves_of ?nodes = leaves_of nodes" using leaves_of_update [OF j(1) step(3)] .
  moreover have "?nodes ! k = nodes ! k" if "is_leaf_node (nodes ! k)" for k
    using that pend by (cases "k = j") (auto simp: pending_def split: node_kind.splits)
  ultimately show ?case using Cons.IH [of ?nodes j] up Cons.prems(3) step(2) by auto
qed

section \<open>Inserting\<close>

lemma edge_update:
  assumes "i < length nodes" "bn_kind n' = InternalNode cs'"
  shows "(p, c) \<in> edges_of (nodes[i := n']) \<longleftrightarrow> (if p = i then c \<in> set cs' else (p, c) \<in> edges_of nodes)"
proof (cases "p = i")
  case True
  have "children_of (nodes[i := n']) i = cs'" using assms by (simp add: children_of_def)
  then show ?thesis using True by (simp add: edge_iff)
qed (simp add: edge_iff children_of_update)

lemma edge_append:
  "(p, c) \<in> edges_of (xs @ [n]) \<longleftrightarrow>
     (if p = length xs then c \<in> set (children_of (xs @ [n]) (length xs)) else (p, c) \<in> edges_of xs)"
proof (cases "p = length xs")
  case False
  then have "children_of (xs @ [n]) p = children_of xs p" by (auto simp: children_of_def nth_append)
  then show ?thesis using False by (simp add: edge_iff)
qed (simp add: edge_iff)

lemma children_of_snoc:
  "bn_kind n = LeafNode order \<Longrightarrow> children_of (xs @ [n]) (length xs) = []"
  "bn_kind n = InternalNode cs \<Longrightarrow> children_of (xs @ [n]) (length xs) = cs"
  by (simp_all add: children_of_def)

lemma edges_of_leaf: "bn_kind n = LeafNode order \<Longrightarrow> edges_of (xs @ [n]) = edges_of xs"
proof (intro subset_antisym subrelI)
  fix p c assume n: "bn_kind n = LeafNode order"
  show "(p, c) \<in> edges_of xs" if "(p, c) \<in> edges_of (xs @ [n])"
    using that by (simp add: edge_append children_of_snoc(1) [OF n] split: if_splits)
  show "(p, c) \<in> edges_of (xs @ [n])" if "(p, c) \<in> edges_of xs"
    using that by (auto simp: edge_append children_of_snoc(1) [OF n] elim: edgeE)
qed

lemma node_ok_append: "node_ok nodes node \<Longrightarrow> node_ok (nodes @ xs) node"
  by (rule node_ok_cong, assumption) (auto simp: nth_append dest: node_okD(1))

lemma raised_node_ok:
  assumes "bn_kind n' = InternalNode cs'" "bn_bounds n' = b_union (bn_bounds (nodes ! i)) b"
    "bn_max_order n' = max (bn_max_order (nodes ! i)) order"
    and "2 \<le> length cs'" "length cs' \<le> MAX_CHILDREN" "distinct cs'"
    and child: "\<And>c. c \<in> set cs' \<Longrightarrow> c < length nodes \<and> c \<noteq> i \<and> covers (b_union (bn_bounds (nodes ! i)) b) (bn_bounds (nodes ! c)) \<and>
        bn_max_order (nodes ! c) \<le> max (bn_max_order (nodes ! i)) order"
    and "bn_max_order (nodes ! last cs') = max (bn_max_order (nodes ! i)) order"
  shows "node_ok (nodes[i := n']) n'"
proof -
  have "last cs' \<in> set cs'" using assms(4) by (intro last_in_set) auto
  moreover have "nodes[i := n'] ! c = nodes ! c" if "c \<in> set cs'" for c using child [OF that] by auto
  ultimately show ?thesis using assms by (simp add: node_ok_def)
qed

text \<open>
  The state after the descent has ended, a leaf was added at its end and the first step of the loop
  was made there.
\<close>

definition new_leaf :: "'u bounds \<Rightarrow> nat \<Rightarrow> 'u bnode" where
  "new_leaf b order = \<lparr>bn_bounds = b, bn_max_order = order, bn_kind = LeafNode order\<rparr>"

lemma new_leaf_simps:
  "bn_bounds (new_leaf b order) = b" "bn_max_order (new_leaf b order) = order"
  "bn_kind (new_leaf b order) = LeafNode order" "leaf_of (new_leaf b order) = Some (b, order)"
  "is_leaf_node (new_leaf b order)" "node_ok nodes (new_leaf b order)"
  by (simp_all add: new_leaf_def leaf_of_def node_ok_def)

definition leaf_added ::
  "('u::linordered_ab_group_add) bnode list \<Rightarrow> 'u bounds \<Rightarrow> nat \<Rightarrow> nat \<Rightarrow> nat \<Rightarrow> nat \<Rightarrow> 'u bnode list \<Rightarrow> bool" where
  "leaf_added nodes b order root cur best nodes' \<longleftrightarrow>
     grown nodes' b order cur \<and> tree_shape (edges_of nodes') (length nodes') root \<and>
     length nodes < length nodes' \<and> length nodes' \<le> length nodes + 2 \<and>
     leaves_of nodes' = leaves_of nodes @ [(b, order)] \<and>
     nodes' ! length nodes = new_leaf b order \<and>
     (\<forall>k < length nodes. k \<noteq> cur \<longrightarrow> nodes' ! k = nodes ! k) \<and>
     (\<forall>(p, c) \<in> edges_of nodes. c \<noteq> best \<longrightarrow> (p, c) \<in> edges_of nodes')"

lemma leaf_addedI:
  fixes ext :: "('u::linordered_ab_group_add) bnode list"
  assumes ok: "\<And>k. k < length ext \<Longrightarrow> node_ok ext (ext ! k)"
    and ext: "ext = nodes @ new_leaf b order # extra" "leaves_of extra = []" "cur < length nodes" "length extra \<le> 1"
    and raised: "bn_kind n' = InternalNode cs'" "bn_bounds n' = b_union (bn_bounds (ext ! cur)) b"
      "bn_max_order n' = max (bn_max_order (ext ! cur)) order" "node_ok (ext[cur := n']) n'"
    and kind: "bn_kind (nodes ! cur) = InternalNode cs"
    and shape: "tree_shape (edges_of (ext[cur := n'])) (length ext) root"
      "\<And>p c. (p, c) \<in> edges_of nodes \<Longrightarrow> c \<noteq> best \<Longrightarrow> (p, c) \<in> edges_of (ext[cur := n'])"
  shows "leaf_added nodes b order root cur best (ext[cur := n'])"
proof -
  have cur: "cur < length ext" "ext ! cur = nodes ! cur" using ext by (simp_all add: nth_append)
  have "grown (ext[cur := n']) b order cur" using ok cur(1) raised(2-4) by (intro grownI) auto
  moreover have "leaves_of (ext[cur := n']) = leaves_of nodes @ [(b, order)]"
    using leaves_of_update [OF cur(1), of n'] raised(1) kind ext(2) cur(2)
    by (simp add: ext(1) leaves_of_simps new_leaf_simps leaf_of_def [of n'] leaf_of_def [of "nodes ! cur"])
  moreover have "\<forall>(p, c) \<in> edges_of nodes. c \<noteq> best \<longrightarrow> (p, c) \<in> edges_of (ext[cur := n'])"
    using shape(2) by blast
  ultimately show ?thesis
    using shape(1) ext cur unfolding leaf_added_def by (simp add: nth_append)
qed

lemma internal_facts:
  assumes ok: "arena_ok nodes root" and cur: "cur < length nodes" "bn_kind (nodes ! cur) = InternalNode cs"
  shows "\<And>k. k < length nodes \<Longrightarrow> node_ok nodes (nodes ! k)"
    and "2 \<le> length cs" "length cs \<le> MAX_CHILDREN" "distinct cs" "cs \<noteq> []"
      "bn_max_order (nodes ! last cs) = bn_max_order (nodes ! cur)"
    and "\<And>c. c \<in> set cs \<Longrightarrow> c < length nodes \<and> covers (bn_bounds (nodes ! cur)) (bn_bounds (nodes ! c)) \<and>
      bn_max_order (nodes ! c) \<le> bn_max_order (nodes ! cur)"
    and "\<And>c. (cur, c) \<in> edges_of nodes \<longleftrightarrow> c \<in> set cs" "cur \<notin> set cs"
proof -
  show all: "node_ok nodes (nodes ! k)" if "k < length nodes" for k using ok that by (simp add: arena_ok_def)
  show "2 \<le> length cs" "length cs \<le> MAX_CHILDREN" "distinct cs" "cs \<noteq> []"
      "bn_max_order (nodes ! last cs) = bn_max_order (nodes ! cur)"
      "\<And>c. c \<in> set cs \<Longrightarrow> c < length nodes \<and> covers (bn_bounds (nodes ! cur)) (bn_bounds (nodes ! c)) \<and>
        bn_max_order (nodes ! c) \<le> bn_max_order (nodes ! cur)"
    using all [OF cur(1)] cur(2) by (auto simp: node_ok_def)
  show E: "(cur, c) \<in> edges_of nodes \<longleftrightarrow> c \<in> set cs" for c using cur by (simp add: edge_iff children_of_def)
  have "(cur, cur) \<notin> edges_of nodes" using ok by (auto simp: arena_ok_def tree_shape_def)
  then show "cur \<notin> set cs" using E by simp
qed

text \<open>Adding a child in front of the last one or behind it, and replacing a child.\<close>

lemma pushed_children:
  fixes keep :: bool
  assumes "distinct cs" "cs \<noteq> []" "n \<notin> set cs"
  defines "xs \<equiv> if keep then swap (cs @ [n]) (length cs - 1) (length cs) else cs @ [n]"
  shows "length xs = Suc (length cs)" "set xs = insert n (set cs)" "distinct xs" "last xs = (if keep then last cs else n)"
proof -
  have sw: "length cs - 1 < length (cs @ [n])" "length cs < length (cs @ [n])" by simp_all
  show "length xs = Suc (length cs)" "set xs = insert n (set cs)" "distinct xs" "last xs = (if keep then last cs else n)"
    using swap_facts [OF sw] last_swap [OF sw(1)] assms(1-3) by (auto simp: xs_def nth_append last_conv_nth)
qed

lemma replaced_children:
  fixes raise :: bool
  assumes "distinct cs" "pos < length cs" "n \<notin> set cs"
  defines "xs \<equiv> if raise then swap (cs[pos := n]) pos (length cs - 1) else cs[pos := n]"
  shows "length xs = length cs" "set xs = insert n (set cs - {cs ! pos})" "distinct xs"
    "last xs = (if raise \<or> pos = length cs - 1 then n else last cs)"
proof -
  have sw: "pos < length (cs[pos := n])" "length cs - 1 < length (cs[pos := n])" using assms(2) by simp_all
  show "length xs = length cs" "set xs = insert n (set cs - {cs ! pos})" "distinct xs"
    using swap_facts [OF sw] set_update_distinct [OF assms(1,2), of n] assms(1,3)
    by (auto simp: xs_def intro: distinct_list_update)
  have "cs \<noteq> []" using assms(2) by auto
  then show "last xs = (if raise \<or> pos = length cs - 1 then n else last cs)"
    using last_swap [OF sw(1)] assms(2) by (cases raise) (simp_all add: xs_def last_list_update last_conv_nth)
qed

lemma add_leaf_room:
  fixes nodes :: "('u::linordered_ab_group_add) bnode list"
  assumes ok: "arena_ok nodes root" and cur: "cur < length nodes" "bn_kind (nodes ! cur) = InternalNode cs"
    and room: "length cs < MAX_CHILDREN"
  shows "\<exists>N. add_leaf (nodes @ [new_leaf b order]) b order (length nodes) cur best pos = Some N \<and> cur < length N \<and>
    leaf_added nodes b order root cur best (N[cur := propagate_node b order None (N ! cur)])"
proof -
  let ?ext = "nodes @ [new_leaf b order]" and ?n = "length nodes" and ?node = "nodes ! cur"
  let ?cs = "if order \<le> bn_max_order ?node then swap (cs @ [length nodes]) (length cs - 1) (length cs) else cs @ [length nodes]"
  let ?m = "?node\<lparr>bn_kind := InternalNode ?cs, bn_bounds := b_union (bn_bounds ?node) b,
      bn_max_order := max (bn_max_order ?node) order\<rparr>"
  note cs = internal_facts [OF ok cur]
  have "?n \<notin> set cs" using cs(7) by auto
  note xs = pushed_children [OF cs(4,5) this, of "order \<le> bn_max_order ?node"]
  have add: "add_leaf ?ext b order ?n cur best pos = Some (?ext[cur := ?m])"
    using cur room by (simp add: add_leaf_def nth_opt_def nth_append children_push_def Let_def)
  define n' where "n' = propagate_node b order None ?m"
  have n': "bn_kind n' = InternalNode ?cs" "bn_bounds n' = b_union (bn_bounds (?ext ! cur)) b"
    "bn_max_order n' = max (bn_max_order (?ext ! cur)) order"
    using cur(1) by (simp_all add: n'_def propagate_node_def Let_def union_absorb nth_append)
  have n'_ok: "node_ok (?ext[cur := n']) n'"
  proof (rule raised_node_ok [OF n'])
    show "c < length ?ext \<and> c \<noteq> cur \<and> covers (b_union (bn_bounds (?ext ! cur)) b) (bn_bounds (?ext ! c)) \<and>
        bn_max_order (?ext ! c) \<le> max (bn_max_order (?ext ! cur)) order" if "c \<in> set ?cs" for c
      using that cs(7) [of c] cs(9) cur(1) unfolding xs(2)
      by (auto simp: nth_append new_leaf_simps covers_simps)
    show "bn_max_order (?ext ! last ?cs) = max (bn_max_order (?ext ! cur)) order"
      unfolding xs(4) using cs(5-7) cur(1) by (auto simp: nth_append new_leaf_simps)
  qed (use cs(2) room xs in auto)
  have ext: "cur < length ?ext" "edges_of ?ext = edges_of nodes"
    using cur(1) edges_of_leaf [OF new_leaf_simps(3), of nodes b order] by simp_all
  have edges: "edges_of (?ext[cur := n']) = insert (cur, ?n) (edges_of nodes)"
    by (intro subset_antisym subrelI) (auto simp: edge_update [OF ext(1) n'(1)] xs(2) cs(8) ext(2) split: if_splits)
  have "leaf_added nodes b order root cur best (?ext[cur := n'])"
  proof (rule leaf_addedI [where extra = "[]", OF _ _ _ cur(1) _ n' n'_ok cur(2)])
    show "node_ok ?ext (?ext ! k)" if "k < length ?ext" for k
      using that node_ok_append [OF cs(1)] by (auto simp: nth_append new_leaf_simps)
    show "tree_shape (edges_of (?ext[cur := n'])) (length ?ext) root"
      using tree_shape_add_leaf [of _ ?n root cur] ok cur(1) by (simp add: edges arena_ok_def)
  qed (simp_all add: edges leaves_of_simps)
  then show ?thesis using add cur(1) by (intro exI [of _ "?ext[cur := ?m]"]) (simp add: n'_def)
qed

text \<open>A new internal node over a leaf and the new one.\<close>

lemma pair_children_ok:
  assumes "old \<noteq> new"
  obtains cs where "pair_children old old_order new order = Some cs" "set cs = {old, new}" "distinct cs" "length cs = 2"
    "last cs = (if order > old_order then new else old)"
proof (cases "order > old_order")
  case True
  then show ?thesis
    using that [of "[old, new]"] assms by (simp add: pair_children_def children_push_def MAX_CHILDREN_def)
next
  case False
  then show ?thesis
    using that [of "[new, old]"] assms
    by (simp add: pair_children_def children_push_def MAX_CHILDREN_def insert_commute)
qed

lemma pair_node_ok:
  fixes nodes :: "('u::linordered_ab_group_add) bnode list"
  assumes "old < length nodes" "set cs = {old, new}" "distinct cs" "length cs = 2"
    "last cs = (if order > bn_max_order (nodes ! old) then new else old)" "new = length nodes"
  shows "node_ok (nodes @ new_leaf b order # extra)
    \<lparr>bn_bounds = b_union (bn_bounds (nodes ! old)) b, bn_max_order = max (bn_max_order (nodes ! old)) order,
     bn_kind = InternalNode cs\<rparr>"
  using assms by (auto simp: node_ok_def nth_append new_leaf_simps covers_simps MAX_CHILDREN_def)

lemma add_leaf_full:
  fixes nodes :: "('u::linordered_ab_group_add) bnode list"
  assumes ok: "arena_ok nodes root" and cur: "cur < length nodes" "bn_kind (nodes ! cur) = InternalNode cs"
    and full: "\<not> length cs < MAX_CHILDREN" and pos: "pos < length cs" "cs ! pos = best"
  shows "\<exists>N. add_leaf (nodes @ [new_leaf b order]) b order (length nodes) cur best pos = Some N \<and> cur < length N \<and>
    leaf_added nodes b order root cur best (N[cur := propagate_node b order None (N ! cur)])"
proof -
  let ?n = "length nodes" and ?node = "nodes ! cur" and ?ni = "Suc (length nodes)"
  note cs = internal_facts [OF ok cur]
  have best: "best \<in> set cs" "best < ?n" using pos cs(7) nth_mem by blast+
  note best_child = cs(7) [OF best(1)]
  obtain ps where ps: "pair_children best (bn_max_order (nodes ! best)) ?n order = Some ps" "set ps = {best, ?n}"
    "distinct ps" "length ps = 2" "last ps = (if order > bn_max_order (nodes ! best) then ?n else best)"
    using pair_children_ok [of best ?n] best(2) by (metis less_irrefl)
  let ?int = "\<lparr>bn_bounds = b_union (bn_bounds (nodes ! best)) b, bn_max_order = max (bn_max_order (nodes ! best)) order,
      bn_kind = InternalNode ps\<rparr>"
  let ?ext = "nodes @ [new_leaf b order, ?int]"
  let ?raise = "max (bn_max_order (nodes ! best)) order > bn_max_order ?node"
  let ?cs = "if ?raise then swap (cs[pos := ?ni]) pos (length cs - 1) else cs[pos := ?ni]"
  have "?ni \<notin> set cs" using cs(7) by force
  note xs = replaced_children [OF cs(4) pos(1) this, of ?raise, unfolded pos(2)]
  have raise: "?raise \<longleftrightarrow> bn_max_order ?node < order" using best_child by auto
  have pos_last: "pos = length cs - 1 \<Longrightarrow> bn_max_order (nodes ! best) = bn_max_order ?node"
    using cs(5,6) pos by (simp add: last_conv_nth)
  let ?m = "?node\<lparr>bn_kind := InternalNode ?cs\<rparr>"
  have add: "add_leaf (nodes @ [new_leaf b order]) b order ?n cur best pos = Some (?ext[cur := ?m])"
    using cur full best ps(1) by (simp add: add_leaf_def nth_opt_def nth_append Let_def)
  define n' where "n' = propagate_node b order None ?m"
  have n': "bn_kind n' = InternalNode ?cs" "bn_bounds n' = b_union (bn_bounds (?ext ! cur)) b"
    "bn_max_order n' = max (bn_max_order (?ext ! cur)) order"
    using cur(1) by (simp_all add: n'_def propagate_node_def Let_def nth_append)
  have n'_ok: "node_ok (?ext[cur := n']) n'"
  proof (rule raised_node_ok [OF n'])
    show "c < length ?ext \<and> c \<noteq> cur \<and> covers (b_union (bn_bounds (?ext ! cur)) b) (bn_bounds (?ext ! c)) \<and>
        bn_max_order (?ext ! c) \<le> max (bn_max_order (?ext ! cur)) order" if "c \<in> set ?cs" for c
    proof (cases "c = ?ni")
      case True
      then show ?thesis using cur(1) best_child by (auto simp: nth_append covers_simps)
    next
      case False
      then have "c \<in> set cs" using that unfolding xs(2) by simp
      then show ?thesis using cs(7) [of c] cs(9) cur(1)
        by (auto simp: nth_append covers_simps)
    qed
    show "bn_max_order (?ext ! last ?cs) = max (bn_max_order (?ext ! cur)) order"
      unfolding xs(4) using cs(5-7) cur(1) pos_last best_child raise by (auto simp: nth_append)
  qed (use cs(2,3) xs in auto)
  have ext: "cur < length ?ext" using cur(1) by simp
  have "bn_kind ?int = InternalNode ps" by simp
  from edge_append [of _ _ "nodes @ [new_leaf b order]" ?int, unfolded children_of_snoc(2) [OF this]]
  have Eext: "(p, c) \<in> edges_of ?ext \<longleftrightarrow> (if p = ?ni then c \<in> set ps else (p, c) \<in> edges_of nodes)" for p c
    by (simp add: edges_of_leaf [OF new_leaf_simps(3)])
  have E': "(p, c) \<in> edges_of (?ext[cur := n']) \<longleftrightarrow> (if p = cur then c \<in> set ?cs
      else if p = ?ni then c \<in> set ps else (p, c) \<in> edges_of nodes)" for p c
    by (simp only: edge_update [OF ext n'(1)] Eext)
  have bound: "p < ?n" if "(p, c) \<in> edges_of nodes" for p c using that by (rule edgeE)
  have edges: "edges_of (?ext[cur := n']) = (edges_of nodes - {(cur, best)}) \<union> {(cur, ?ni), (?ni, best), (?ni, ?n)}"
  proof (intro subset_antisym subrelI)
    fix p c
    show "(p, c) \<in> (edges_of nodes - {(cur, best)}) \<union> {(cur, ?ni), (?ni, best), (?ni, ?n)}"
      if "(p, c) \<in> edges_of (?ext[cur := n'])"
      using that cs(8) [of c] unfolding E' xs(2) ps(2) by (auto split: if_splits)
    show "(p, c) \<in> edges_of (?ext[cur := n'])"
      if "(p, c) \<in> (edges_of nodes - {(cur, best)}) \<union> {(cur, ?ni), (?ni, best), (?ni, ?n)}"
      using that cs(8) [of c] cur(1) bound [of p c] unfolding E' xs(2) ps(2) by auto
  qed
  have "leaf_added nodes b order root cur best (?ext[cur := n'])"
  proof (rule leaf_addedI [where extra = "[?int]", OF _ _ _ cur(1) _ n' n'_ok cur(2)])
    show "node_ok ?ext (?ext ! k)" if "k < length ?ext" for k
      using that node_ok_append [OF cs(1)] pair_node_ok [OF best(2) ps(2-5) refl]
      by (auto simp: nth_append new_leaf_simps less_Suc_eq)
    show "tree_shape (edges_of (?ext[cur := n'])) (length ?ext) root"
      using tree_shape_split [of _ ?n root cur best] ok cs(8) best(1) by (simp add: edges arena_ok_def)
  qed (simp_all add: edges leaves_of_simps leaf_of_def)
  then show ?thesis using add cur(1) by (intro exI [of _ "?ext[cur := ?m]"]) (simp add: n'_def)
qed

lemma up_path_internal: "up_path (edges_of nodes) root (i # path) \<Longrightarrow> j \<in> set path \<Longrightarrow> \<not> is_leaf_node (nodes ! j)"
proof (induction path arbitrary: i)
  case (Cons k path)
  then show ?case by (auto elim!: edgeE)
qed simp

lemma up_path_mono:
  assumes "up_path E root (i # path)" "best \<notin> set (i # path)" "\<And>p c. (p, c) \<in> E \<Longrightarrow> c \<noteq> best \<Longrightarrow> (p, c) \<in> F"
  shows "up_path F root (i # path)"
  using assms by (induction path arbitrary: i) auto

text \<open>The nodes after a leaf was inserted.\<close>

definition leaf_inserted ::
  "('u::linordered_ab_group_add) bnode list \<Rightarrow> 'u bounds \<Rightarrow> nat \<Rightarrow> nat \<Rightarrow> 'u bnode list \<Rightarrow> bool" where
  "leaf_inserted nodes b order root nodes' \<longleftrightarrow>
     arena_ok nodes' root \<and> length nodes < length nodes' \<and> length nodes' \<le> length nodes + 2 \<and>
     leaves_of nodes' = leaves_of nodes @ [(b, order)] \<and>
     nodes' ! length nodes = new_leaf b order \<and>
     (\<forall>k < length nodes. is_leaf_node (nodes ! k) \<longrightarrow> nodes' ! k = nodes ! k)"

lemma insert_below_root:
  fixes nodes :: "('u::linordered_ab_group_add) bnode list"
  assumes ok: "arena_ok nodes root" and root: "\<not> is_leaf_node (nodes ! root)"
  shows "\<exists>path best pos N nodes'. descend (nodes @ [new_leaf b order]) b [] root = Some (path, best, pos) \<and>
    add_leaf (nodes @ [new_leaf b order]) b order (length nodes) (last path) best pos = Some N \<and>
    propagate b order (rev path) None N = Some nodes' \<and> leaf_inserted nodes b order root nodes'"
proof -
  let ?ext = "nodes @ [new_leaf b order]"
  have E: "edges_of ?ext = edges_of nodes" by (rule edges_of_leaf [OF new_leaf_simps(3)])
  have rt: "root < length nodes" using ok by (simp add: arena_ok_def tree_shape_def)
  obtain rank :: "nat \<Rightarrow> nat" where rank: "\<forall>(p, c) \<in> edges_of ?ext. rank c < rank p"
    using ok by (auto simp: arena_ok_def tree_shape_def E)
  have "\<forall>node \<in> set ?ext. node_ok ?ext node"
    using ok by (auto simp: arena_ok_def node_ok_append new_leaf_simps)
  from descend_ok [OF this rank, of root root "[]" b] rt root
  obtain path cur best pos cs where d: "descend ?ext b [] root = Some (path @ [cur], best, pos)"
    "up_path (edges_of nodes) root (cur # rev path)" "cur < length ?ext" "bn_kind (?ext ! cur) = InternalNode cs"
    "pos < length cs" "cs ! pos = best" "best < length ?ext" "is_leaf_node (?ext ! best)"
    by (auto simp: E nth_append)
  have cur: "cur < length nodes" "bn_kind (nodes ! cur) = InternalNode cs"
    using d(3,4) by (auto simp: nth_append new_leaf_simps split: if_splits)
  then have "best < length nodes" using ok d(5,6) nth_mem by (fastforce simp: arena_ok_def node_ok_def)
  then have best: "is_leaf_node (nodes ! best)" using d(8) by (simp add: nth_append)
  obtain N where N: "add_leaf ?ext b order (length nodes) cur best pos = Some N" "cur < length N"
    "leaf_added nodes b order root cur best (N[cur := propagate_node b order None (N ! cur)])"
    using add_leaf_room [OF ok cur] add_leaf_full [OF ok cur _ d(5,6)] by (cases "length cs < MAX_CHILDREN") blast+
  let ?N = "N[cur := propagate_node b order None (N ! cur)]"
  have added: "grown ?N b order cur" "tree_shape (edges_of ?N) (length ?N) root"
    "length nodes < length N \<and> length N \<le> length nodes + 2" "leaves_of ?N = leaves_of nodes @ [(b, order)]" "?N ! length nodes = new_leaf b order"
    "\<And>k. k < length nodes \<Longrightarrow> k \<noteq> cur \<Longrightarrow> ?N ! k = nodes ! k"
    "\<And>p c. (p, c) \<in> edges_of nodes \<Longrightarrow> c \<noteq> best \<Longrightarrow> (p, c) \<in> edges_of ?N"
    using N(3) by (auto simp: leaf_added_def)
  have "best \<noteq> cur" using best cur(2) by auto
  then have "best \<notin> set (cur # rev path)" using up_path_internal [OF d(2), of best] best by auto
  then have "up_path (edges_of ?N) root (cur # rev path)" by (rule up_path_mono [OF d(2) _ added(7)])
  from propagate_ok [OF added(1) this added(2)]
  obtain nodes' where nodes': "propagate b order (rev path) (Some cur) ?N = Some nodes'" "arena_ok nodes' root"
    "length nodes' = length N" "leaves_of nodes' = leaves_of ?N" "\<forall>k < length N. is_leaf_node (?N ! k) \<longrightarrow> nodes' ! k = ?N ! k"
    by auto
  have propagated: "propagate b order (rev (path @ [cur])) None N = Some nodes'"
    using nodes'(1) N(2) by (simp add: nth_opt_def)
  have "nodes' ! k = nodes ! k" if "k < length nodes" "is_leaf_node (nodes ! k)" for k
  proof -
    have "k \<noteq> cur" using that cur(2) by auto
    then show ?thesis using nodes'(5) added(3) added(6) [OF that(1)] that by auto
  qed
  then have inserted: "leaf_inserted nodes b order root nodes'"
    using nodes' added(3-5) by (simp add: leaf_inserted_def new_leaf_simps)
  have "add_leaf ?ext b order (length nodes) (last (path @ [cur])) best pos = Some N" using N(1) by simp
  with d(1) propagated inserted show ?thesis by blast
qed

lemma new_root_ok:
  fixes nodes :: "('u::linordered_ab_group_add) bnode list"
  assumes ok: "arena_ok nodes root" and ps: "set ps = {root, length nodes}" "distinct ps" "length ps = 2"
    "last ps = (if order > bn_max_order (nodes ! root) then length nodes else root)"
  shows "leaf_inserted nodes b order (Suc (length nodes)) (nodes @ [new_leaf b order,
     \<lparr>bn_bounds = b_union (bn_bounds (nodes ! root)) b, bn_max_order = max (bn_max_order (nodes ! root)) order,
      bn_kind = InternalNode ps\<rparr>])" (is "leaf_inserted _ _ _ _ (nodes @ [_, ?int])")
proof -
  let ?n = "length nodes" and ?N = "nodes @ [new_leaf b order, ?int]"
  have rt: "root < ?n" using ok by (simp add: arena_ok_def tree_shape_def)
  have "bn_kind ?int = InternalNode ps" by simp
  from edge_append [of _ _ "nodes @ [new_leaf b order]" ?int, unfolded children_of_snoc(2) [OF this]]
  have E: "(p, c) \<in> edges_of ?N \<longleftrightarrow> (if p = Suc ?n then c \<in> set ps else (p, c) \<in> edges_of nodes)" for p c
    by (simp add: edges_of_leaf [OF new_leaf_simps(3)])
  have bound: "p < ?n" if "(p, c) \<in> edges_of nodes" for p c using that by (rule edgeE)
  have "edges_of ?N = edges_of nodes \<union> {(Suc ?n, root), (Suc ?n, ?n)}"
    by (intro subset_antisym subrelI) (auto simp: E ps(1) dest: bound split: if_splits)
  then have "tree_shape (edges_of ?N) (length ?N) (Suc ?n)"
    using tree_shape_new_root [of _ ?n root] ok by (simp add: arena_ok_def)
  moreover have "\<forall>node \<in> set ?N. node_ok ?N node"
    using ok pair_node_ok [OF rt ps refl] by (auto simp: arena_ok_def node_ok_append new_leaf_simps)
  ultimately show ?thesis
    by (simp add: leaf_inserted_def arena_ok_def leaves_of_simps new_leaf_simps leaf_of_def nth_append)
qed

lemma first_leaf_ok: "leaf_inserted [] b order 0 [new_leaf b order]"
proof -
  have "(p, c) \<notin> edges_of ([] :: 'a bnode list)" for p c by (simp add: edge_iff children_of_def)
  then have "edges_of [new_leaf b order] = {}"
    using edges_of_leaf [OF new_leaf_simps(3), of "[]" b order] by auto
  then show ?thesis
    by (auto simp: leaf_inserted_def arena_ok_def tree_shape_def new_leaf_simps leaves_of_simps)
qed

lemma insert_leaf_ok:
  assumes "bt_wf t"
  shows "\<exists>t' root. insert_leaf t b order = Some (t', length (bt_nodes t)) \<and> bt_max_leaf t' = bt_max_leaf t \<and>
    bt_root t' = Some root \<and> leaf_inserted (bt_nodes t) b order root (bt_nodes t')"
proof (cases "bt_root t")
  case None
  then have "bt_nodes t = []" using assms by (simp add: bt_wf_def split: option.splits)
  then show ?thesis
    using None first_leaf_ok [of b order] by (simp add: insert_leaf_def new_leaf_def)
next
  case (Some root)
  let ?nodes = "bt_nodes t"
  have ok: "arena_ok ?nodes root" using assms Some by (auto simp: bt_wf_def split: option.splits)
  then have rt: "root < length ?nodes" by (simp add: arena_ok_def tree_shape_def)
  show ?thesis
  proof (cases "is_leaf_node (?nodes ! root)")
    case True
    obtain ps where ps: "pair_children root (bn_max_order (?nodes ! root)) (length ?nodes) order = Some ps"
      "set ps = {root, length ?nodes}" "distinct ps" "length ps = 2"
      "last ps = (if order > bn_max_order (?nodes ! root) then length ?nodes else root)"
      using pair_children_ok [of root "length ?nodes"] rt by (metis less_irrefl)
    show ?thesis
      using True Some rt ps(1) new_root_ok [OF ok ps(2-5), of b]
      by (simp add: insert_leaf_def Let_def nth_opt_def nth_append flip: new_leaf_def)
  next
    case False
    then show ?thesis
      using Some rt insert_below_root [OF ok False, of b order]
      by (auto simp: insert_leaf_def Let_def nth_opt_def nth_append simp flip: new_leaf_def)
  qed
qed

lemma bt_insert_eq:
  assumes "find_max_ordering t b = Some m" "m + 1 < 2 ^ 32" "insert_leaf t b (m + 1) = Some (t', new)"
  shows "bt_max_leaf t' = None \<Longrightarrow> bt_insert t b = Some (t'\<lparr>bt_max_leaf := Some new\<rparr>, m + 1)"
    "bt_max_leaf t' = Some old \<Longrightarrow> old < length (bt_nodes t') \<Longrightarrow>
     bt_insert t b = Some (t'\<lparr>bt_max_leaf := Some (if bn_max_order (bt_nodes t' ! old) < m + 1 then new else old)\<rparr>, m + 1)"
  using assms by (simp_all add: bt_insert_def nth_opt_def)

lemma bt_wf_inserted:
  assumes "leaf_inserted nodes b order root (bt_nodes t)" "bt_root t = Some root"
    and "m < length (bt_nodes t)" "is_leaf_node (bt_nodes t ! m)" "order \<le> bn_max_order (bt_nodes t ! m)"
    and "\<And>b' order'. (b', order') \<in> set (leaves_of nodes) \<Longrightarrow> order' \<le> bn_max_order (bt_nodes t ! m)"
  shows "bt_wf (t\<lparr>bt_max_leaf := Some m\<rparr>)"
  using assms by (auto simp: bt_wf_def leaf_inserted_def)

lemma bt_insert_ok:
  assumes wf: "bt_wf t" and small: "max_order_of b (leaves_of (bt_nodes t)) + 1 < 2 ^ 32"
  shows "\<exists>t'. let order = max_order_of b (leaves_of (bt_nodes t)) + 1
    in bt_insert t b = Some (t', order) \<and> bt_wf t' \<and> leaves_of (bt_nodes t') = leaves_of (bt_nodes t) @ [(b, order)] \<and>
       length (bt_nodes t') \<le> length (bt_nodes t) + 2"
proof -
  let ?nodes = "bt_nodes t" and ?order = "max_order_of b (leaves_of (bt_nodes t)) + 1"
  obtain t1 root where t1: "insert_leaf t b ?order = Some (t1, length ?nodes)" "bt_max_leaf t1 = bt_max_leaf t"
    "bt_root t1 = Some root" "leaf_inserted ?nodes b ?order root (bt_nodes t1)"
    using insert_leaf_ok [OF wf] by blast
  then have ins: "length ?nodes < length (bt_nodes t1)"
    "leaves_of (bt_nodes t1) = leaves_of ?nodes @ [(b, ?order)]" "bt_nodes t1 ! length ?nodes = new_leaf b ?order"
    "\<And>k. k < length ?nodes \<Longrightarrow> is_leaf_node (?nodes ! k) \<Longrightarrow> bt_nodes t1 ! k = ?nodes ! k"
    and len: "length (bt_nodes t1) \<le> length ?nodes + 2"
    by (auto simp: leaf_inserted_def)
  note new = bt_wf_inserted [OF t1(4,3) ins(1), unfolded ins(3) new_leaf_simps, simplified]
  note eq = bt_insert_eq [OF find_max_ordering_ok [OF wf] small t1(1)]
  show ?thesis
  proof (cases "bt_max_leaf t")
    case None
    then have "?nodes = []" using wf by (simp add: bt_wf_def split: option.splits)
    then show ?thesis using eq(1) None t1(2) ins(2) len new by (simp add: Let_def leaves_of_simps new_leaf_simps)
  next
    case (Some m)
    have m: "m < length ?nodes" "is_leaf_node (?nodes ! m)"
      "\<And>b' order'. (b', order') \<in> set (leaves_of ?nodes) \<Longrightarrow> order' \<le> bn_max_order (?nodes ! m)"
      using wf Some by (auto simp: bt_wf_def split: option.splits)
    define m' where "m' = (if bn_max_order (?nodes ! m) < ?order then length ?nodes else m)"
    have "bt_insert t b = Some (t1\<lparr>bt_max_leaf := Some m'\<rparr>, ?order)"
      using eq(2) [of m] Some t1(2) m(1) ins(1) ins(4) [OF m(1,2)] by (simp add: m'_def)
    moreover have "bt_wf (t1\<lparr>bt_max_leaf := Some m'\<rparr>)"
    proof (cases "bn_max_order (?nodes ! m) < ?order")
      case True
      then show ?thesis using m(3) by (simp add: m'_def, intro new) (force simp: new_leaf_simps)+
    next
      case False
      then show ?thesis
        using m ins(1) ins(4) [OF m(1,2)] by (simp add: m'_def, intro bt_wf_inserted [OF t1(4,3)]) auto
    qed
    ultimately show ?thesis using ins(2) len by (auto simp: Let_def)
  qed
qed

section \<open>Sequences of insertions\<close>

fun bt_insert_all ::
  "('u::{plus,minus,linorder}) bounds_tree \<Rightarrow> 'u bounds list \<Rightarrow> ('u bounds_tree \<times> nat list) option" where
  "bt_insert_all t [] = Some (t, [])"
| "bt_insert_all t (b # bs) =
     do {
       (t, order) \<leftarrow> bt_insert t b;
       (t, orders) \<leftarrow> bt_insert_all t bs;
       Some (t, order # orders)
     }"

lemma bt_default_wf: "bt_wf bt_default"
  by (simp add: bt_wf_def bt_default_def)

lemma max_order_of_le: "(\<And>b order. (b, order) \<in> set leaves \<Longrightarrow> order \<le> n) \<Longrightarrow> max_order_of q leaves \<le> n"
  unfolding max_order_of_def fold_max_nat by (rule Max.boundedI) auto

text \<open>The orders of the bounds before the \<open>j\<close>th that meet \<open>q\<close>.\<close>

definition met :: "('u::{plus,linorder}) bounds list \<Rightarrow> nat list \<Rightarrow> nat \<Rightarrow> 'u bounds \<Rightarrow> nat set" where
  "met bs os j q = {os ! i | i. i < j \<and> intersects q (bs ! i)}"

lemma met_facts:
  "finite (met bs os j q)"
  "j \<le> length bs \<Longrightarrow> length os = length bs \<Longrightarrow> met (bs @ cs) (os @ ds) j q = met bs os j q"
  unfolding met_def by (simp, rule Collect_cong) (metis nth_append order.strict_trans2)

lemma max_order_of_met:
  assumes "length os = length bs"
  shows "max_order_of q (zip bs os) = Max (insert 0 (met bs os (length bs) q))"
proof -
  have "set (map snd (filter (\<lambda>(b, _). intersects q b) (zip bs os))) = met bs os (length bs) q"
    using assms by (force simp: set_zip met_def)
  then show ?thesis unfolding max_order_of_def fold_max_nat by simp
qed

text \<open>What is known after the bounds \<open>bs\<close> were given the orders \<open>os\<close>.\<close>

definition orders_ok :: "('u::{plus,linorder}) bounds list \<Rightarrow> nat list \<Rightarrow> bool" where
  "orders_ok bs os \<longleftrightarrow> length os = length bs \<and>
     (\<forall>j < length bs. os ! j = Suc (Max (insert 0 (met bs os j (bs ! j)))))"

lemma orders_ok_snoc:
  assumes "orders_ok bs os"
  shows "orders_ok (bs @ [b]) (os @ [Suc (max_order_of b (zip bs os))])"
proof -
  have len: "length os = length bs" using assms by (simp add: orders_ok_def)
  note same = met_facts(2) [OF _ len]
  show ?thesis unfolding orders_ok_def
  proof (intro conjI allI impI)
    fix j assume "j < length (bs @ [b])"
    then consider "j < length bs" | "j = length bs" by fastforce
    then show "(os @ [Suc (max_order_of b (zip bs os))]) ! j =
        Suc (Max (insert 0 (met (bs @ [b]) (os @ [Suc (max_order_of b (zip bs os))]) j ((bs @ [b]) ! j))))"
      using assms len max_order_of_met [OF len, of b] same [of j] by cases (auto simp: orders_ok_def nth_append)
  qed (simp add: len)
qed

lemma orders_le: "orders_ok bs os \<Longrightarrow> j < length bs \<Longrightarrow> os ! j \<le> Suc j"
proof (induction j rule: less_induct)
  case (less j)
  have "x \<le> j" if hit: "x \<in> met bs os j (bs ! j)" for x
  proof -
    obtain i where "x = os ! i" "i < j" using hit by (auto simp: met_def)
    then show ?thesis using less.IH [of i] less.prems by simp
  qed
  then have "Max (insert 0 (met bs os j (bs ! j))) \<le> j" by (intro Max.boundedI) (auto simp: met_facts)
  then show ?case using less.prems by (simp add: orders_ok_def)
qed

lemma bt_insert_trace:
  assumes wf: "bt_wf t" and leaves: "leaves_of (bt_nodes t) = zip cs os" and ok: "orders_ok cs os"
    and small: "length cs + 1 < 2 ^ 32"
  obtains t' order where "bt_insert t b = Some (t', order)" "bt_wf t'"
    "leaves_of (bt_nodes t') = zip (cs @ [b]) (os @ [order])" "orders_ok (cs @ [b]) (os @ [order])"
    "length (bt_nodes t') \<le> length (bt_nodes t) + 2"
proof -
  let ?order = "max_order_of b (zip cs os) + 1"
  have len: "length os = length cs" using ok by (simp add: orders_ok_def)
  have "max_order_of b (zip cs os) \<le> length cs"
  proof (rule max_order_of_le)
    fix c order assume "(c, order) \<in> set (zip cs os)"
    then obtain i where "i < length cs" "order = os ! i" using len by (auto simp: in_set_zip)
    then show "order \<le> length cs" using orders_le [OF ok, of i] by simp
  qed
  then have "max_order_of b (leaves_of (bt_nodes t)) + 1 < 2 ^ 32" using leaves small by simp
  from bt_insert_ok [OF wf this] show ?thesis
    using leaves len orders_ok_snoc [OF ok, of b] that [of _ ?order] by (auto simp: Let_def)
qed

lemma bt_insert_all_ok:
  assumes "bt_wf t" "leaves_of (bt_nodes t) = zip cs os" "orders_ok cs os" "length cs + length bs < 2 ^ 32"
  shows "\<exists>t' os'. bt_insert_all t bs = Some (t', os') \<and> bt_wf t' \<and> orders_ok (cs @ bs) (os @ os') \<and>
    leaves_of (bt_nodes t') = zip (cs @ bs) (os @ os') \<and> length (bt_nodes t') \<le> length (bt_nodes t) + 2 * length bs"
  using assms
proof (induction bs arbitrary: t cs os)
  case (Cons b bs)
  have "length cs + 1 < 2 ^ 32" using Cons.prems(4) by simp
  from bt_insert_trace [OF Cons.prems(1-3) this, of b]
  obtain t1 order where t1: "bt_insert t b = Some (t1, order)" "bt_wf t1"
    "leaves_of (bt_nodes t1) = zip (cs @ [b]) (os @ [order])" "orders_ok (cs @ [b]) (os @ [order])"
    "length (bt_nodes t1) \<le> length (bt_nodes t) + 2" .
  from Cons.IH [OF t1(2-4)] Cons.prems(4) obtain t2 os' where "bt_insert_all t1 bs = Some (t2, os')" "bt_wf t2"
    "orders_ok ((cs @ [b]) @ bs) ((os @ [order]) @ os')" "leaves_of (bt_nodes t2) = zip ((cs @ [b]) @ bs) ((os @ [order]) @ os')"
    "length (bt_nodes t2) \<le> length (bt_nodes t1) + 2 * length bs"
    by auto
  then show ?case using t1 by auto
qed auto

lemma bt_insert_all_default:
  fixes bs :: "('u::linordered_ab_group_add) bounds list"
  assumes "length bs < 2 ^ 32"
  obtains t os where "bt_insert_all bt_default bs = Some (t, os)" "bt_wf t" "orders_ok bs os"
    "leaves_of (bt_nodes t) = zip bs os" "length (bt_nodes t) \<le> 2 * length bs"
proof -
  let ?t = "bt_default :: 'u bounds_tree"
  have "leaves_of (bt_nodes ?t) = zip [] []" "bt_nodes ?t = []" "orders_ok ([] :: 'u bounds list) []"
    by (simp_all add: bt_default_def leaves_of_simps orders_ok_def)
  then show ?thesis
    using bt_insert_all_ok [of ?t "[]" "[]" bs] assms that bt_default_wf by auto
qed

text \<open>
  C27. The orders of the bounds tree. Inserting bounds one after the other never panics as long as there
  are fewer of them than the orders of 32 bits, and gives each the order one above the greatest
  order of the earlier bounds it meets: the pruned search through the tree agrees with a plain
  search through all earlier bounds.
\<close>

theorem bt_orders_spec:
  fixes bs :: "('u::linordered_ab_group_add) bounds list"
  assumes "length bs < 2 ^ 32"
  shows "\<exists>t os. bt_insert_all bt_default bs = Some (t, os) \<and> length os = length bs \<and>
    (\<forall>j < length bs. os ! j = Suc (Max (insert 0 {os ! i | i. i < j \<and> intersects (bs ! j) (bs ! i)})))"
proof -
  obtain t os where "bt_insert_all bt_default bs = Some (t, os)" "orders_ok bs os"
    by (rule bt_insert_all_default [OF assms])
  then show ?thesis unfolding orders_ok_def met_def by blast
qed

theorem bt_orders_spec_witness:
  "\<exists>t os. bt_insert_all bt_default [unit_square 0, unit_square 5, unit_square 1] = Some (t, os) \<and> length os = 3"
  using bt_orders_spec [of "[unit_square 0, unit_square 5, unit_square 1]"] by auto

text \<open>
  The tree stays well formed: every node has between 2 and \<open>MAX_CHILDREN\<close> children which it covers, with
  the greatest order at the end, every node is reached from the root in one way, and \<open>max_leaf\<close> is a
  leaf of the greatest order. It has at most two nodes for every bounds, and the \<open>j\<close>th bounds (from
  0) has an order between 1 and \<open>j + 1\<close>.
\<close>

theorem bt_bounds:
  fixes bs :: "('u::linordered_ab_group_add) bounds list"
  assumes "bt_insert_all bt_default bs = Some (t, os)" and "length bs < 2 ^ 32"
  shows "bt_wf t \<and> leaves_of (bt_nodes t) = zip bs os \<and> length (bt_nodes t) \<le> 2 * length bs \<and>
    (\<forall>j < length bs. 1 \<le> os ! j \<and> os ! j \<le> j + 1)"
proof -
  obtain t' os' where t': "bt_insert_all bt_default bs = Some (t', os')" "bt_wf t'" "orders_ok bs os'"
    "leaves_of (bt_nodes t') = zip bs os'" "length (bt_nodes t') \<le> 2 * length bs"
    by (rule bt_insert_all_default [OF assms(2)])
  then have "1 \<le> os' ! j \<and> os' ! j \<le> j + 1" if "j < length bs" for j
    using orders_le [OF t'(3) that] that by (simp add: orders_ok_def)
  then show ?thesis using assms(1) t' by simp
qed

theorem bt_bounds_witness:
  "\<exists>t os. bt_insert_all bt_default [unit_square 0, unit_square 1] = Some (t, os) \<and> bt_wf t \<and> os ! 1 \<le> 2"
proof -
  obtain t os where t: "bt_insert_all bt_default [unit_square 0, unit_square 1] = Some (t, os)"
    by (rule bt_insert_all_default [of "[unit_square 0, unit_square 1]"]) simp_all
  have "os ! 1 \<le> 2" "bt_wf t"
    using bt_bounds [OF t] by force+
  then show ?thesis using t by blast
qed

end
