(* ===== verification/Scene.thy ===== *)
theory Scene
  imports Bounds_Insert "HOL-Library.Multiset" "HOL-Library.Product_Lexorder"
begin

text \<open>
  The scene of \<open>crates/gpui/src/scene.rs\<close>: the primitives painted in a frame, the draw orders they get from
  the tree of bounds, the replay of a range of an earlier frame, and the batches that are handed to
  the renderer. The seven structs of primitives are one record: the fields the scene reads (order,
  bounds, content mask, and of single kinds the blend mode, the path id and the atlas tile)
  and the rest of the struct as one value. The seven vectors of the scene are one function from
  the kind to its vector. \<open>sort_unstable_by_key\<close> is an argument. \<open>None\<close> is a panic.
\<close>

section \<open>Data\<close>

datatype primitive_kind = Shadow | Quad | Path | Underline | MonochromeSprite | PolychromeSprite | Surface

text \<open>The derived \<open>Ord\<close>: the order of the constructors.\<close>

fun kind_index :: "primitive_kind \<Rightarrow> nat" where
  "kind_index Shadow = 0"
| "kind_index Quad = 1"
| "kind_index Path = 2"
| "kind_index Underline = 3"
| "kind_index MonochromeSprite = 4"
| "kind_index PolychromeSprite = 5"
| "kind_index Surface = 6"

lemma kind_index_inject: "kind_index a = kind_index b \<longleftrightarrow> a = b"
  by (cases a; cases b) simp_all

instantiation primitive_kind :: linorder
begin

definition less_eq_primitive_kind :: "primitive_kind \<Rightarrow> primitive_kind \<Rightarrow> bool" where
  "a \<le> b \<longleftrightarrow> kind_index a \<le> kind_index b"

definition less_primitive_kind :: "primitive_kind \<Rightarrow> primitive_kind \<Rightarrow> bool" where
  "a < b \<longleftrightarrow> kind_index a < kind_index b"

instance
  by standard (auto simp: less_eq_primitive_kind_def less_primitive_kind_def kind_index_inject)

end

record atlas_tile =
  at_texture_id :: "nat \<times> nat"
  at_tile_id :: nat

text \<open>
  What only some kinds have: the blend mode of a quad, the id of a path, the tile of a sprite.
\<close>

datatype details =
  ShadowDetails
| QuadDetails nat
| PathDetails nat
| UnderlineDetails
| MonochromeDetails atlas_tile
| PolychromeDetails atlas_tile
| SurfaceDetails

record ('u, 'p) primitive =
  pr_order :: nat
  pr_bounds :: "'u bounds"
  pr_content_mask :: "'u bounds"
  pr_details :: details
  pr_paint :: 'p

fun details_kind :: "details \<Rightarrow> primitive_kind" where
  "details_kind ShadowDetails = Shadow"
| "details_kind (QuadDetails _) = Quad"
| "details_kind (PathDetails _) = Path"
| "details_kind UnderlineDetails = Underline"
| "details_kind (MonochromeDetails _) = MonochromeSprite"
| "details_kind (PolychromeDetails _) = PolychromeSprite"
| "details_kind SurfaceDetails = Surface"

definition kind_of :: "('u, 'p) primitive \<Rightarrow> primitive_kind" where
  "kind_of p = details_kind (pr_details p)"

datatype 'u paint_operation = PrimitiveOp primitive_kind nat | StartLayer "'u bounds" | EndLayer

record ('u, 'p) scene =
  sc_paint_operations :: "'u paint_operation list"
  sc_primitive_bounds :: "'u bounds_tree"
  sc_layer_stack :: "nat list"
  sc_prims :: "primitive_kind \<Rightarrow> ('u, 'p) primitive list"

definition scene_default :: "('u, 'p) scene" where
  "scene_default = \<lparr>sc_paint_operations = [], sc_primitive_bounds = bt_default, sc_layer_stack = [], sc_prims = (\<lambda>_. [])\<rparr>"

section \<open>Painting\<close>

definition scene_clear :: "('u, 'p) scene \<Rightarrow> ('u, 'p) scene" where
  "scene_clear s = s\<lparr>sc_paint_operations := [], sc_primitive_bounds := bt_clear (sc_primitive_bounds s),
     sc_layer_stack := [], sc_prims := (\<lambda>_. [])\<rparr>"

definition scene_len :: "('u, 'p) scene \<Rightarrow> nat" where
  "scene_len s = length (sc_paint_operations s)"

definition push_layer ::
  "('u::{plus,minus,linorder}, 'p) scene \<Rightarrow> 'u bounds \<Rightarrow> ('u, 'p) scene option" where
  "push_layer s b =
     do {
       (tree, order) \<leftarrow> bt_insert (sc_primitive_bounds s) b;
       Some (s\<lparr>sc_primitive_bounds := tree, sc_layer_stack := sc_layer_stack s @ [order],
               sc_paint_operations := sc_paint_operations s @ [StartLayer b]\<rparr>)
     }"

definition pop_layer :: "('u, 'p) scene \<Rightarrow> ('u, 'p) scene" where
  "pop_layer s = s\<lparr>sc_layer_stack := butlast (sc_layer_stack s),
     sc_paint_operations := sc_paint_operations s @ [EndLayer]\<rparr>"

definition clipped_bounds :: "('u::{plus,minus,linorder}, 'p) primitive \<Rightarrow> 'u bounds" where
  "clipped_bounds p = intersect (pr_bounds p) (pr_content_mask p)"

text \<open>The primitive as it is stored: with its order, and a path with its index as id.\<close>

definition assigned :: "nat \<Rightarrow> nat \<Rightarrow> ('u, 'p) primitive \<Rightarrow> ('u, 'p) primitive" where
  "assigned order index p =
     p\<lparr>pr_order := order,
       pr_details := (case pr_details p of PathDetails _ \<Rightarrow> PathDetails index | d \<Rightarrow> d)\<rparr>"

definition insert_primitive ::
  "('u::{plus,minus,zero,linorder}, 'p) scene \<Rightarrow> ('u, 'p) primitive \<Rightarrow> ('u, 'p) scene option" where
  "insert_primitive s p =
     (let clipped = clipped_bounds p in
      if is_empty clipped then Some s
      else
        do {
          (tree, order) \<leftarrow>
            (if sc_layer_stack s = [] then bt_insert (sc_primitive_bounds s) clipped
             else Some (sc_primitive_bounds s, last (sc_layer_stack s)));
          let kind = kind_of p;
          let index = length (sc_prims s kind);
          Some (s\<lparr>sc_primitive_bounds := tree,
                  sc_prims := (sc_prims s)(kind := sc_prims s kind @ [assigned order index p]),
                  sc_paint_operations := sc_paint_operations s @ [PrimitiveOp kind index]\<rparr>)
        })"

section \<open>Replaying\<close>

fun replay_operation ::
  "('u::{plus,minus,zero,linorder}, 'p) scene \<Rightarrow> 'u paint_operation \<Rightarrow> ('u, 'p) scene \<Rightarrow> ('u, 'p) scene option" where
  "replay_operation prev (PrimitiveOp kind index) s =
     (case nth_opt (sc_prims prev kind) index of None \<Rightarrow> None | Some p \<Rightarrow> insert_primitive s p)"
| "replay_operation prev (StartLayer b) s = push_layer s b"
| "replay_operation prev EndLayer s = Some (pop_layer s)"

fun replay_operations ::
  "('u::{plus,minus,zero,linorder}, 'p) scene \<Rightarrow> 'u paint_operation list \<Rightarrow> ('u, 'p) scene \<Rightarrow> ('u, 'p) scene option" where
  "replay_operations prev [] s = Some s"
| "replay_operations prev (operation # operations) s =
     do { s \<leftarrow> replay_operation prev operation s; replay_operations prev operations s }"

definition scene_replay ::
  "('u::{plus,minus,zero,linorder}, 'p) scene \<Rightarrow> nat \<Rightarrow> nat \<Rightarrow> ('u, 'p) scene \<Rightarrow> ('u, 'p) scene option" where
  "scene_replay s range_start range_end prev =
     (if range_start \<le> range_end \<and> range_end \<le> length (sc_paint_operations prev)
      then replay_operations prev (drop range_start (take range_end (sc_paint_operations prev))) s else None)"

section \<open>Finishing\<close>

text \<open>The key of the sort: the order, for sprites with the tile id; here with 0 for the other kinds.\<close>

definition draw_key :: "('u, 'p) primitive \<Rightarrow> nat \<times> nat" where
  "draw_key p =
     (pr_order p,
      case pr_details p of MonochromeDetails t \<Rightarrow> at_tile_id t | PolychromeDetails t \<Rightarrow> at_tile_id t | _ \<Rightarrow> 0)"

type_synonym ('u, 'p) sorter =
  "(('u, 'p) primitive \<Rightarrow> nat \<times> nat) \<Rightarrow> ('u, 'p) primitive list \<Rightarrow> ('u, 'p) primitive list"

definition finish :: "('u, 'p) sorter \<Rightarrow> ('u, 'p) scene \<Rightarrow> ('u, 'p) scene" where
  "finish sort_unstable_by_key s =
     s\<lparr>sc_prims := (\<lambda>kind. let ps = sc_prims s kind
         in if sorted (map draw_key ps) then ps else sort_unstable_by_key draw_key ps)\<rparr>"

section \<open>Batches\<close>

definition U32_MAX :: nat where
  "U32_MAX = 2 ^ 32 - 1"

definition all_kinds :: "primitive_kind list" where
  "all_kinds = [Shadow, Quad, Path, Underline, MonochromeSprite, PolychromeSprite, Surface]"

text \<open>The vectors, the start of the next batch in each, and the iterators over what is left.\<close>

record ('u, 'p) batch_iterator =
  bi_prims :: "primitive_kind \<Rightarrow> ('u, 'p) primitive list"
  bi_start :: "primitive_kind \<Rightarrow> nat"
  bi_iter :: "primitive_kind \<Rightarrow> ('u, 'p) primitive list"

definition batches :: "('u, 'p) scene \<Rightarrow> ('u, 'p) batch_iterator" where
  "batches s = \<lparr>bi_prims = sc_prims s, bi_start = (\<lambda>_. 0), bi_iter = sc_prims s\<rparr>"

text \<open>A batch: the kind, the texture of sprites, the slice of primitives.\<close>

datatype ('u, 'p) primitive_batch =
  Batch (batch_kind: primitive_kind) (batch_texture: "(nat \<times> nat) option") (batch_prims: "('u, 'p) primitive list")

fun texture_of :: "details \<Rightarrow> (nat \<times> nat) option" where
  "texture_of (MonochromeDetails t) = Some (at_texture_id t)"
| "texture_of (PolychromeDetails t) = Some (at_texture_id t)"
| "texture_of _ = None"

fun blend_mode :: "details \<Rightarrow> nat" where
  "blend_mode (QuadDetails mode) = mode"
| "blend_mode _ = 0"

text \<open>The condition of \<open>next_if\<close> for the primitive behind the head of the batch.\<close>

definition joins_batch ::
  "primitive_kind \<Rightarrow> nat \<times> primitive_kind \<Rightarrow> ('u, 'p) primitive \<Rightarrow> ('u, 'p) primitive \<Rightarrow> bool" where
  "joins_batch kind max_order_and_kind head p \<longleftrightarrow>
     (pr_order p, kind) < max_order_and_kind \<and>
     (case kind of
        Quad \<Rightarrow> blend_mode (pr_details head) = 0 \<and> blend_mode (pr_details p) = 0
      | MonochromeSprite \<Rightarrow> texture_of (pr_details p) = texture_of (pr_details head)
      | PolychromeSprite \<Rightarrow> texture_of (pr_details p) = texture_of (pr_details head)
      | _ \<Rightarrow> True)"

definition peeked :: "('u, 'p) batch_iterator \<Rightarrow> primitive_kind \<Rightarrow> nat option \<times> primitive_kind" where
  "peeked bi kind = (case bi_iter bi kind of [] \<Rightarrow> None | p # _ \<Rightarrow> Some (pr_order p), kind)"

definition order_key :: "nat option \<times> primitive_kind \<Rightarrow> nat \<times> primitive_kind" where
  "order_key = (\<lambda>(order, kind). (case order of None \<Rightarrow> U32_MAX | Some order \<Rightarrow> order, kind))"

definition batch_next ::
  "('u, 'p) batch_iterator \<Rightarrow> (('u, 'p) primitive_batch option \<times> ('u, 'p) batch_iterator) option" where
  "batch_next bi =
     (let orders_and_kinds = sort_key order_key (map (peeked bi) all_kinds);
          first = orders_and_kinds ! 0;
          second = orders_and_kinds ! 1
      in if fst first = None then Some (None, bi)
         else
           (let kind = snd first;
                max_order_and_kind = order_key second
            in case bi_iter bi kind of
                 [] \<Rightarrow> None
               | head # rest \<Rightarrow>
                   (let joined = takeWhile (joins_batch kind max_order_and_kind head) rest;
                        start = bi_start bi kind;
                        stop = start + 1 + length joined
                    in if stop \<le> length (bi_prims bi kind) then
                         Some (Some (Batch kind (texture_of (pr_details head)) (take (stop - start) (drop start (bi_prims bi kind)))),
                           bi\<lparr>bi_iter := (bi_iter bi)(kind := drop (length joined) rest),
                              bi_start := (bi_start bi)(kind := stop)\<rparr>)
                       else None)))"

text \<open>Running the iterator to its end.\<close>

partial_function (option) collect_batches ::
  "('u, 'p) batch_iterator \<Rightarrow> ('u, 'p) primitive_batch list option" where
  "collect_batches bi =
     (case batch_next bi of
        None \<Rightarrow> None
      | Some (None, _) \<Rightarrow> Some []
      | Some (Some batch, bi') \<Rightarrow>
          do { rest \<leftarrow> collect_batches bi'; Some (batch # rest) })"

section \<open>The order of the batches\<close>

text \<open>What the renderer draws, one primitive after the other.\<close>

definition drawn :: "('u, 'p) primitive_batch list \<Rightarrow> (primitive_kind \<times> ('u, 'p) primitive) list" where
  "drawn bs = concat (map (\<lambda>b. map (Pair (batch_kind b)) (batch_prims b)) bs)"

definition bi_ok :: "('u, 'p) batch_iterator \<Rightarrow> bool" where
  "bi_ok bi \<longleftrightarrow> (\<forall>k. bi_start bi k \<le> length (bi_prims bi k) \<and> bi_iter bi k = drop (bi_start bi k) (bi_prims bi k))"

definition drawable :: "(primitive_kind \<Rightarrow> ('u, 'p) primitive list) \<Rightarrow> bool" where
  "drawable ps \<longleftrightarrow> (\<forall>k. sorted (map pr_order (ps k)) \<and> (\<forall>p \<in> set (ps k). pr_order p < U32_MAX))"

lemma all_kinds_facts: "set all_kinds = UNIV" "length all_kinds = 7" "distinct all_kinds"
proof -
  have "k \<in> set all_kinds" for k by (cases k) (simp_all add: all_kinds_def)
  then show "set all_kinds = UNIV" by auto
qed (simp_all add: all_kinds_def)

lemma snd_peeked: "snd (peeked bi k) = k"
  by (simp add: peeked_def)

lemma order_key_peeked:
  "bi_iter bi k = p # ps \<Longrightarrow> order_key (peeked bi k) = (pr_order p, k)"
  "bi_iter bi k = [] \<Longrightarrow> order_key (peeked bi k) = (U32_MAX, k)"
  by (simp_all add: order_key_def peeked_def)

text \<open>The kind of the next batch, and the key that ends it.\<close>

lemma sorted_peeked:
  obtains k second rest where "sort_key order_key (map (peeked bi) all_kinds) = peeked bi k # second # rest"
    "\<forall>k'. order_key (peeked bi k) \<le> order_key (peeked bi k')"
    "\<forall>k'. k' \<noteq> k \<longrightarrow> order_key second \<le> order_key (peeked bi k')"
proof -
  let ?L = "sort_key order_key (map (peeked bi) all_kinds)"
  have "length ?L = Suc (Suc 5)" by (simp add: all_kinds_facts)
  then obtain first second rest where L: "?L = first # second # rest" unfolding length_Suc_conv by blast
  have mem: "set ?L = range (peeked bi)" by (simp add: all_kinds_facts)
  then obtain k where k: "first = peeked bi k" using L by auto
  have srt: "sorted (map order_key ?L)" by (rule sorted_sort_key)
  have "order_key (peeked bi k) \<le> order_key (peeked bi k')" for k'
  proof -
    have "peeked bi k' \<in> set (first # second # rest)" using mem unfolding L by blast
    then show ?thesis using srt k unfolding L by auto
  qed
  moreover have "order_key second \<le> order_key (peeked bi k')" if "k' \<noteq> k" for k'
  proof -
    have "peeked bi k' \<noteq> first" using that k by (metis snd_peeked)
    then have "peeked bi k' \<in> set (second # rest)" using mem unfolding L by (metis rangeI set_ConsD)
    then show ?thesis using srt unfolding L by auto
  qed
  ultimately show ?thesis using that [of k second rest] L k by simp
qed

text \<open>One step of the iterator.\<close>

definition batch_step ::
  "('u, 'p) batch_iterator \<Rightarrow> ('u, 'p) primitive_batch \<Rightarrow> ('u, 'p) batch_iterator \<Rightarrow> bool" where
  "batch_step bi b bi' \<longleftrightarrow>
     (\<exists>head joined rest. batch_prims b = head # joined \<and> bi_iter bi (batch_kind b) = head # joined @ rest \<and>
        bi_iter bi' = (bi_iter bi)(batch_kind b := rest) \<and> bi_ok bi' \<and>
        batch_texture b = texture_of (pr_details head) \<and>
        (\<forall>p \<in> set joined. \<exists>m. joins_batch (batch_kind b) m head p) \<and>
        (\<forall>p \<in> set (head # joined). \<forall>k. k \<noteq> batch_kind b \<longrightarrow> (\<forall>q \<in> set (bi_iter bi k). (pr_order p, batch_kind b) \<le> (pr_order q, k))))"

lemma batch_next_ok:
  assumes ok: "bi_ok bi" and dr: "drawable (bi_iter bi)"
  shows "(\<forall>k. bi_iter bi k = []) \<and> batch_next bi = Some (None, bi) \<or>
    (\<exists>b bi'. batch_next bi = Some (Some b, bi') \<and> batch_step bi b bi')"
proof -
  obtain k second others where L: "sort_key order_key (map (peeked bi) all_kinds) = peeked bi k # second # others"
    and mins: "\<forall>k'. order_key (peeked bi k) \<le> order_key (peeked bi k')"
      "\<forall>k'. k' \<noteq> k \<longrightarrow> order_key second \<le> order_key (peeked bi k')"
    by (rule sorted_peeked [of bi])
  note min = mins [rule_format]
  have least: "(pr_order p, k') \<le> (pr_order q, k')" if "bi_iter bi k' = p # ps" "q \<in> set (p # ps)" for p q k' ps
  proof -
    have "sorted (map pr_order (p # ps))" using dr that(1) unfolding drawable_def by metis
    then show ?thesis using that(2) by (auto simp: less_eq_prod_def)
  qed
  show ?thesis
  proof (cases "bi_iter bi k")
    case Nil
    have "bi_iter bi k' = []" for k'
    proof (cases "bi_iter bi k'")
      case (Cons p ps)
      then have "(U32_MAX, k) \<le> (pr_order p, k')"
        using min(1) [of k'] order_key_peeked(2) [OF Nil] order_key_peeked(1) [OF Cons] by simp
      moreover have "p \<in> set (bi_iter bi k')" using Cons by simp
      then have "pr_order p < U32_MAX" using dr by (simp add: drawable_def)
      ultimately show ?thesis by (simp add: less_eq_prod_def)
    qed
    moreover have "fst (peeked bi k) = None" using Nil by (simp add: peeked_def)
    ultimately show ?thesis using L by (simp add: batch_next_def Let_def)
  next
    case (Cons head ps)
    let ?joined = "takeWhile (joins_batch k (order_key second) head) ps"
    let ?n = "length ?joined" and ?start = "bi_start bi k"
    have it: "bi_iter bi k = drop ?start (bi_prims bi k)" using ok by (simp add: bi_ok_def)
    have stop: "?start + 1 + ?n \<le> length (bi_prims bi k)"
      using arg_cong [OF it, of length] Cons length_takeWhile_le [of "joins_batch k (order_key second) head" ps] by simp
    have slice: "take (?start + 1 + ?n - ?start) (drop ?start (bi_prims bi k)) = head # ?joined"
      using takeWhile_eq_take [of "joins_batch k (order_key second) head" ps, symmetric]
      unfolding it [symmetric] Cons by simp
    let ?bi = "bi\<lparr>bi_iter := (bi_iter bi)(k := drop ?n ps), bi_start := (bi_start bi)(k := ?start + 1 + ?n)\<rparr>"
    let ?b = "Batch k (texture_of (pr_details head)) (head # ?joined)"
    have "batch_next bi = Some (Some ?b, ?bi)"
      using L Cons stop slice snd_peeked [of bi k] by (simp add: batch_next_def Let_def peeked_def [of bi k])
    moreover have "drop ?n ps = drop (?start + 1 + ?n) (bi_prims bi k)"
      using it Cons by (metis add.commute drop_drop drop_Suc_Cons plus_1_eq_Suc)
    then have "bi_ok ?bi" using ok stop by (auto simp: bi_ok_def)
    moreover have "(pr_order p, k) \<le> (pr_order q, k')"
      if p: "p \<in> set (head # ?joined)" and k': "k' \<noteq> k" and q: "q \<in> set (bi_iter bi k')" for p q k'
    proof -
      obtain q0 qs where q0: "bi_iter bi k' = q0 # qs" using q by (cases "bi_iter bi k'") auto
      have "(pr_order p, k) \<le> order_key (peeked bi k')"
      proof (cases "p = head")
        case True
        then show ?thesis using min(1) [of k'] order_key_peeked(1) [OF Cons] by simp
      next
        case False
        then have "joins_batch k (order_key second) head p" using p by (auto dest: set_takeWhileD)
        then show ?thesis using min(2) [OF k'] by (auto simp: joins_batch_def)
      qed
      then show ?thesis using order_key_peeked(1) [OF q0] least [OF q0] q q0 by (metis order_trans)
    qed
    moreover have "\<forall>p \<in> set ?joined. \<exists>m. joins_batch k m head p" using set_takeWhileD by metis
    moreover have "ps = ?joined @ drop ?n ps" by (metis append_take_drop_id takeWhile_eq_take)
    ultimately have "batch_step bi ?b ?bi" unfolding batch_step_def using Cons
      by (intro exI [of _ head] exI [of _ ?joined] exI [of _ "drop ?n ps"]) auto
    then show ?thesis using \<open>batch_next bi = Some (Some ?b, ?bi)\<close> by blast
  qed
qed

lemma batch_step_facts:
  assumes "batch_step bi b bi'" "drawable (bi_iter bi)"
  shows "bi_ok bi'" "drawable (bi_iter bi')"
    "bi_iter bi k = (if k = batch_kind b then batch_prims b else []) @ bi_iter bi' k"
    "batch_prims b \<noteq> []"
    "p \<in> set (batch_prims b) \<Longrightarrow> q \<in> set (bi_iter bi' k) \<Longrightarrow> (pr_order p, batch_kind b) \<le> (pr_order q, k)"
    "sorted (map pr_order (batch_prims b))"
proof -
  obtain head joined rest where b: "batch_prims b = head # joined" "bi_iter bi (batch_kind b) = head # joined @ rest"
    "bi_iter bi' = (bi_iter bi)(batch_kind b := rest)" "bi_ok bi'"
    "\<forall>p \<in> set (head # joined). \<forall>k. k \<noteq> batch_kind b \<longrightarrow> (\<forall>q \<in> set (bi_iter bi k). (pr_order p, batch_kind b) \<le> (pr_order q, k))"
    using assms(1) unfolding batch_step_def by blast
  show "bi_ok bi'" by (rule b(4))
  have srt: "sorted (map pr_order ((head # joined) @ rest))" "\<forall>p \<in> set ((head # joined) @ rest). pr_order p < U32_MAX"
    using assms(2) b(2) unfolding drawable_def by (metis append_Cons)+
  have other: "sorted (map pr_order (bi_iter bi k))" "\<forall>p \<in> set (bi_iter bi k). pr_order p < U32_MAX" for k
    using assms(2) by (simp_all add: drawable_def)
  show "drawable (bi_iter bi')"
    using srt other unfolding drawable_def b(3) by (auto simp: sorted_append)
  show "bi_iter bi k = (if k = batch_kind b then batch_prims b else []) @ bi_iter bi' k"
    using b(1-3) by simp
  show "batch_prims b \<noteq> []" using b(1) by simp
  show "(pr_order p, batch_kind b) \<le> (pr_order q, k)" if "p \<in> set (batch_prims b)" "q \<in> set (bi_iter bi' k)"
  proof (cases "k = batch_kind b")
    case True
    then have "q \<in> set rest" "p \<in> set (head # joined)" using that b(1,3) by simp_all
    then show ?thesis using srt(1) True unfolding map_append sorted_append by (auto simp: less_eq_prod_def)
  next
    case False
    then have "q \<in> set (bi_iter bi k)" "p \<in> set (head # joined)" using that b(1,3) by simp_all
    then show ?thesis using b(5) False by blast
  qed
  show "sorted (map pr_order (batch_prims b))" using srt(1) unfolding b(1) map_append sorted_append by simp
qed

text \<open>The batches draw the primitives \<open>ps\<close> in order.\<close>

definition draws :: "(primitive_kind \<times> ('u, 'p) primitive) list \<Rightarrow> (primitive_kind \<Rightarrow> ('u, 'p) primitive list) \<Rightarrow> bool" where
  "draws xs ps \<longleftrightarrow>
     sorted (map (\<lambda>(k, p). (pr_order p, k)) xs) \<and>
     (\<forall>k. map snd (filter (\<lambda>(k', p). k' = k) xs) = ps k)"

lemma draws_mem: "draws xs ps \<Longrightarrow> (k, p) \<in> set xs \<longleftrightarrow> p \<in> set (ps k)"
proof -
  assume "draws xs ps"
  then have "set (ps k) = snd ` set (filter (\<lambda>(k', p). k' = k) xs)" unfolding draws_def by (metis set_map)
  then show ?thesis by force
qed

definition homogeneous :: "('u, 'p) primitive_batch \<Rightarrow> bool" where
  "homogeneous b \<longleftrightarrow> batch_prims b \<noteq> [] \<and>
     (batch_kind b = Quad \<longrightarrow> length (batch_prims b) = 1 \<or> (\<forall>p \<in> set (batch_prims b). blend_mode (pr_details p) = 0)) \<and>
     (batch_kind b \<in> {MonochromeSprite, PolychromeSprite} \<longrightarrow>
        (\<forall>p \<in> set (batch_prims b). texture_of (pr_details p) = batch_texture b))"

lemma batch_step_homogeneous: "batch_step bi b bi' \<Longrightarrow> homogeneous b"
  unfolding batch_step_def homogeneous_def joins_batch_def
  by (cases "batch_kind b") (fastforce simp: neq_Nil_conv)+

definition remaining :: "('u, 'p) batch_iterator \<Rightarrow> nat" where
  "remaining bi = sum_list (map (\<lambda>k. length (bi_iter bi k)) all_kinds)"

lemma remaining_step: "batch_step bi b bi' \<Longrightarrow> remaining bi' < remaining bi"
  unfolding batch_step_def remaining_def all_kinds_def by (cases "batch_kind b") auto

lemma drawn_Cons:
  assumes "draws (drawn bs) (bi_iter bi')" "batch_step bi b bi'" "drawable (bi_iter bi)"
  shows "draws (drawn (b # bs)) (bi_iter bi)"
proof -
  note step = batch_step_facts [OF assms(2,3)]
  let ?key = "\<lambda>(k, p). (pr_order p, k)"
  have split: "drawn (b # bs) = map (Pair (batch_kind b)) (batch_prims b) @ drawn bs" by (simp add: drawn_def)
  have "sorted (map ?key (map (Pair (batch_kind b)) (batch_prims b)))"
    using step(6) by (simp add: sorted_iff_nth_mono less_eq_prod_def)
  moreover have "\<forall>x \<in> set (map (Pair (batch_kind b)) (batch_prims b)). \<forall>y \<in> set (drawn bs). ?key x \<le> ?key y"
    using step(5) draws_mem [OF assms(1)] by auto
  ultimately have "sorted (map ?key (drawn (b # bs)))"
    using assms(1) unfolding split map_append sorted_append draws_def by auto
  moreover have "map snd (filter (\<lambda>(k', p). k' = k) (drawn (b # bs))) = bi_iter bi k" for k
    using assms(1) step(3) [of k] unfolding split draws_def by (auto simp: filter_map o_def)
  ultimately show ?thesis unfolding draws_def by blast
qed

lemma collect_batches_ok:
  assumes "bi_ok bi" "drawable (bi_iter bi)"
  shows "\<exists>bs. collect_batches bi = Some bs \<and> draws (drawn bs) (bi_iter bi) \<and> (\<forall>b \<in> set bs. homogeneous b)"
  using assms
proof (induction "remaining bi" arbitrary: bi rule: less_induct)
  case less
  from batch_next_ok [OF less.prems] show ?case
  proof
    assume "(\<forall>k. bi_iter bi k = []) \<and> batch_next bi = Some (None, bi)"
    then show ?case by (subst collect_batches.simps) (simp add: drawn_def draws_def)
  next
    assume "\<exists>b bi'. batch_next bi = Some (Some b, bi') \<and> batch_step bi b bi'"
    then obtain b bi' where b: "batch_next bi = Some (Some b, bi')" "batch_step bi b bi'" by blast
    obtain bs where bs: "collect_batches bi' = Some bs" "draws (drawn bs) (bi_iter bi')" "\<forall>b \<in> set bs. homogeneous b"
      using less.hyps [OF remaining_step [OF b(2)] batch_step_facts(1,2) [OF b(2) less.prems(2)]] by blast
    then show ?case
      using b(1) drawn_Cons [OF bs(2) b(2) less.prems(2)] batch_step_homogeneous [OF b(2)]
      by (subst collect_batches.simps) simp
  qed
qed

text \<open>A function that sorts, as \<open>sort_unstable_by_key\<close> does.\<close>

definition sorts :: "('u, 'p) sorter \<Rightarrow> bool" where
  "sorts srt \<longleftrightarrow> (\<forall>key ps. sorted (map key (srt key ps)) \<and> mset (srt key ps) = mset ps)"

lemma finish_facts:
  assumes "sorts srt"
  shows "sorted (map draw_key (sc_prims (finish srt s) k))" "mset (sc_prims (finish srt s) k) = mset (sc_prims s k)"
  using assms by (simp_all add: finish_def sorts_def Let_def)

lemma sorted_draw_key: "sorted (map draw_key ps) \<Longrightarrow> sorted (map pr_order ps)"
  unfolding sorted_iff_nth_mono by (fastforce simp: draw_key_def less_eq_prod_def)

lemma batches_finish:
  assumes "sorts srt" "\<forall>k. \<forall>p \<in> set (sc_prims s k). pr_order p < U32_MAX"
  shows "\<exists>bs. collect_batches (batches (finish srt s)) = Some bs \<and> draws (drawn bs) (sc_prims (finish srt s)) \<and>
    (\<forall>b \<in> set bs. homogeneous b)"
proof -
  let ?bi = "batches (finish srt s)"
  have "bi_ok ?bi" "bi_iter ?bi = sc_prims (finish srt s)" by (simp_all add: bi_ok_def batches_def)
  moreover have "drawable (sc_prims (finish srt s))"
    unfolding drawable_def using finish_facts [OF assms(1)] assms(2) sorted_draw_key by (metis set_mset_mset)
  ultimately show ?thesis using collect_batches_ok [of ?bi] by simp
qed

end
