(* ===== verification/Scene_Paint.thy ===== *)
theory Scene_Paint
  imports Scene
begin

text \<open>
  Sequences of calls that paint into the scene of \<open>crates/gpui/src/scene.rs\<close>: the orders of overlapping
  primitives ascend, so that later ones are drawn later, and replaying a range of an earlier scene
  repeats its calls, unless \<open>finish\<close> has sorted a vector.
\<close>

section \<open>Sequences of paint calls\<close>

datatype ('u, 'p) paint_call = PaintPrimitive "('u, 'p) primitive" | PushLayer "'u bounds" | PopLayer

fun paint_step ::
  "('u::{plus,minus,zero,linorder}, 'p) scene \<Rightarrow> ('u, 'p) paint_call \<Rightarrow> ('u, 'p) scene option" where
  "paint_step s (PaintPrimitive p) = insert_primitive s p"
| "paint_step s (PushLayer b) = push_layer s b"
| "paint_step s PopLayer = Some (pop_layer s)"

fun paint ::
  "('u::{plus,minus,zero,linorder}, 'p) scene \<Rightarrow> ('u, 'p) paint_call list \<Rightarrow> ('u, 'p) scene option" where
  "paint s [] = Some s"
| "paint s (c # cs) = do { s \<leftarrow> paint_step s c; paint s cs }"

lemma paint_append: "paint s (cs @ ds) = do { s \<leftarrow> paint s cs; paint s ds }"
  by (induction cs arbitrary: s) (simp_all add: Option.bind_assoc)

text \<open>The bounds of the layers that are open, and the region whose order a primitive gets.\<close>

fun open_layers :: "'u bounds list \<Rightarrow> ('u, 'p) paint_call list \<Rightarrow> 'u bounds list" where
  "open_layers ls [] = ls"
| "open_layers ls (PaintPrimitive p # cs) = open_layers ls cs"
| "open_layers ls (PushLayer b # cs) = open_layers (ls @ [b]) cs"
| "open_layers ls (PopLayer # cs) = open_layers (butlast ls) cs"

definition region :: "'u bounds list \<Rightarrow> ('u::{plus,minus,linorder}, 'p) primitive \<Rightarrow> 'u bounds" where
  "region ls p = (if ls = [] then clipped_bounds p else last ls)"

text \<open>A scene after the bounds \<open>bs\<close> were registered with the orders \<open>os\<close>, with the layers \<open>ls\<close> open.\<close>

definition traced ::
  "('u::linordered_ab_group_add, 'p) scene \<Rightarrow> 'u bounds list \<Rightarrow> nat list \<Rightarrow> 'u bounds list \<Rightarrow> bool" where
  "traced s bs os ls \<longleftrightarrow>
     bt_wf (sc_primitive_bounds s) \<and> leaves_of (bt_nodes (sc_primitive_bounds s)) = zip bs os \<and> orders_ok bs os \<and>
     list_all2 (\<lambda>b order. (b, order) \<in> set (zip bs os)) ls (sc_layer_stack s) \<and>
     (\<forall>k. \<forall>p \<in> set (sc_prims s k). pr_order p \<in> set os)"

lemma traced_default: "traced scene_default [] [] []"
  by (simp add: traced_def scene_default_def bt_default_wf orders_ok_def) (simp add: bt_default_def leaves_of_simps)

lemma list_all2_butlast: "list_all2 P xs ys \<Longrightarrow> list_all2 P (butlast xs) (butlast ys)"
  by (auto simp: butlast_conv_take list_all2_lengthD intro: list_all2_takeI)

lemma list_all2_last: "list_all2 P xs ys \<Longrightarrow> ys \<noteq> [] \<Longrightarrow> P (last xs) (last ys)"
  by (metis last_conv_nth list_all2_conv_all_nth length_0_conv length_greater_0_conv diff_less zero_less_one)

lemma list_all2_zip_mono:
  assumes "list_all2 (\<lambda>b order. (b, order) \<in> set (zip bs os)) ls st" "length bs = length os"
  shows "list_all2 (\<lambda>b order. (b, order) \<in> set (zip (bs @ cs) (os @ ds))) ls st"
  using assms by (auto elim!: list_all2_mono)

lemma kind_assigned: "kind_of (assigned order index p) = kind_of p" "pr_order (assigned order index p) = order"
  "clipped_bounds (assigned order index p) = clipped_bounds p"
  "assigned order' index' (assigned order index p) = assigned order' index' p"
  by (simp_all add: kind_of_def assigned_def clipped_bounds_def split: details.splits)

lemma insert_primitive_ok:
  assumes tr: "traced s bs os ls" and small: "length bs + 1 < 2 ^ 32" and vis: "\<not> is_empty (clipped_bounds p)"
  obtains s' order bs' os' where "insert_primitive s p = Some s'" "traced s' (bs @ bs') (os @ os') ls"
    "length bs' \<le> 1" "ls = [] \<longrightarrow> bs' = [clipped_bounds p] \<and> os' = [order]"
    "(region ls p, order) \<in> set (zip (bs @ bs') (os @ os'))"
    "sc_prims s' = (sc_prims s)(kind_of p := sc_prims s (kind_of p) @ [assigned order (length (sc_prims s (kind_of p))) p])"
    "sc_paint_operations s' = sc_paint_operations s @ [PrimitiveOp (kind_of p) (length (sc_prims s (kind_of p)))]"
proof -
  have t: "bt_wf (sc_primitive_bounds s)" "leaves_of (bt_nodes (sc_primitive_bounds s)) = zip bs os" "orders_ok bs os"
    and st: "list_all2 (\<lambda>b order. (b, order) \<in> set (zip bs os)) ls (sc_layer_stack s)"
    and pr: "\<forall>k. \<forall>p \<in> set (sc_prims s k). pr_order p \<in> set os" and len: "length os = length bs"
    using tr by (auto simp: traced_def orders_ok_def)
  have empty: "ls = [] \<longleftrightarrow> sc_layer_stack s = []" using st by auto
  let ?new = "\<lambda>tree order. s\<lparr>sc_primitive_bounds := tree, sc_prims := (sc_prims s)(kind_of p := sc_prims s (kind_of p) @
      [assigned order (length (sc_prims s (kind_of p))) p]),
      sc_paint_operations := sc_paint_operations s @ [PrimitiveOp (kind_of p) (length (sc_prims s (kind_of p)))]\<rparr>"
  show ?thesis
  proof (cases "ls = []")
    case True
    obtain t' order where t': "bt_insert (sc_primitive_bounds s) (clipped_bounds p) = Some (t', order)" "bt_wf t'"
      "leaves_of (bt_nodes t') = zip (bs @ [clipped_bounds p]) (os @ [order])"
      "orders_ok (bs @ [clipped_bounds p]) (os @ [order])"
      by (rule bt_insert_trace [OF t small])
    have "insert_primitive s p = Some (?new t' order)"
      using True empty vis t'(1) by (simp add: insert_primitive_def Let_def)
    moreover have "traced (?new t' order) (bs @ [clipped_bounds p]) (os @ [order]) ls"
      using t'(2-4) True empty pr by (auto simp: traced_def kind_assigned)
    ultimately show ?thesis
      by (rule that [of _ "[clipped_bounds p]" "[order]" order]) (simp_all add: True region_def len)
  next
    case False
    let ?order = "last (sc_layer_stack s)"
    have reg: "(last ls, ?order) \<in> set (zip bs os)" using list_all2_last [OF st] False empty by simp
    have "insert_primitive s p = Some (?new (sc_primitive_bounds s) ?order)"
      using False empty vis by (simp add: insert_primitive_def Let_def)
    moreover have "traced (?new (sc_primitive_bounds s) ?order) (bs @ []) (os @ []) ls"
      using t st pr set_zip_rightD [OF reg] by (auto simp: traced_def kind_assigned)
    ultimately show ?thesis
      by (rule that [of _ "[]" "[]" ?order]) (simp_all add: False region_def reg)
  qed
qed

lemma push_layer_ok:
  assumes tr: "traced s bs os ls" and small: "length bs + 1 < 2 ^ 32"
  obtains s' order where "push_layer s b = Some s'" "traced s' (bs @ [b]) (os @ [order]) (ls @ [b])"
    "sc_prims s' = sc_prims s" "sc_paint_operations s' = sc_paint_operations s @ [StartLayer b]"
proof -
  have t: "bt_wf (sc_primitive_bounds s)" "leaves_of (bt_nodes (sc_primitive_bounds s)) = zip bs os" "orders_ok bs os"
    and st: "list_all2 (\<lambda>b order. (b, order) \<in> set (zip bs os)) ls (sc_layer_stack s)"
    and pr: "\<forall>k. \<forall>p \<in> set (sc_prims s k). pr_order p \<in> set os" and len: "length os = length bs"
    using tr by (auto simp: traced_def orders_ok_def)
  obtain t' order where t': "bt_insert (sc_primitive_bounds s) b = Some (t', order)" "bt_wf t'"
    "leaves_of (bt_nodes t') = zip (bs @ [b]) (os @ [order])" "orders_ok (bs @ [b]) (os @ [order])"
    by (rule bt_insert_trace [OF t small])
  let ?s = "s\<lparr>sc_primitive_bounds := t', sc_layer_stack := sc_layer_stack s @ [order],
      sc_paint_operations := sc_paint_operations s @ [StartLayer b]\<rparr>"
  show ?thesis
    by (rule that [of ?s order])
      (use t' pr list_all2_zip_mono [OF st len [symmetric], of "[b]" "[order]"] len in
        \<open>auto simp: push_layer_def traced_def intro!: list_all2_appendI\<close>)
qed

lemma paint_step_ok:
  assumes tr: "traced s bs os ls" and small: "length bs + 1 < 2 ^ 32"
  obtains s' bs' os' where "paint_step s c = Some s'" "traced s' (bs @ bs') (os @ os') (open_layers ls [c])" "length bs' \<le> 1"
    "\<And>k. \<exists>ps. sc_prims s' k = sc_prims s k @ ps"
proof (cases c)
  case (PaintPrimitive p)
  show ?thesis
  proof (cases "is_empty (clipped_bounds p)")
    case True
    then have "insert_primitive s p = Some s" by (simp add: insert_primitive_def)
    then show ?thesis using that [of s "[]" "[]"] tr PaintPrimitive by simp
  next
    case False
    obtain s' order bs' os' where s': "insert_primitive s p = Some s'" "traced s' (bs @ bs') (os @ os') ls" "length bs' \<le> 1"
        "ls = [] \<longrightarrow> bs' = [clipped_bounds p] \<and> os' = [order]" "(region ls p, order) \<in> set (zip (bs @ bs') (os @ os'))"
        "sc_prims s' = (sc_prims s)(kind_of p := sc_prims s (kind_of p) @ [assigned order (length (sc_prims s (kind_of p))) p])"
      by (rule insert_primitive_ok [OF tr small False])
    show ?thesis by (rule that [of s' bs' os']) (use s' PaintPrimitive in auto)
  qed
next
  case (PushLayer b)
  from push_layer_ok [OF tr small, of b] obtain s' order where s': "push_layer s b = Some s'"
    "traced s' (bs @ [b]) (os @ [order]) (ls @ [b])" "sc_prims s' = sc_prims s" by metis
  then show ?thesis using that [of s' "[b]" "[order]"] PushLayer by simp
next
  case PopLayer
  have "traced (pop_layer s) (bs @ []) (os @ []) (butlast ls)"
    using tr by (auto simp: traced_def pop_layer_def intro: list_all2_butlast)
  then show ?thesis using that [of "pop_layer s" "[]" "[]"] PopLayer by (simp add: pop_layer_def)
qed

lemma paint_ok:
  assumes "traced s bs os ls" "length bs + length cs < 2 ^ 32"
  shows "\<exists>s' bs' os'. paint s cs = Some s' \<and> traced s' (bs @ bs') (os @ os') (open_layers ls cs) \<and>
    length bs' \<le> length cs \<and> (\<forall>k. \<exists>ps. sc_prims s' k = sc_prims s k @ ps)"
  using assms
proof (induction cs arbitrary: s bs os ls)
  case Nil
  then show ?case by (intro exI [of _ s] exI [of _ "[]"]) simp
next
  case (Cons c cs)
  have "length bs + 1 < 2 ^ 32" using Cons.prems(2) by simp
  from paint_step_ok [OF Cons.prems(1) this, of c]
  obtain s1 bs1 os1 where s1: "paint_step s c = Some s1" "traced s1 (bs @ bs1) (os @ os1) (open_layers ls [c])" "length bs1 \<le> 1"
    "\<And>k. \<exists>ps. sc_prims s1 k = sc_prims s k @ ps" by metis
  from Cons.IH [OF s1(2)] s1(3) Cons.prems(2) obtain s2 bs2 os2 where s2: "paint s1 cs = Some s2"
    "traced s2 ((bs @ bs1) @ bs2) ((os @ os1) @ os2) (open_layers (open_layers ls [c]) cs)" "length bs2 \<le> length cs"
    "\<forall>k. \<exists>ps. sc_prims s2 k = sc_prims s1 k @ ps" by auto
  have "open_layers (open_layers ls [c]) cs = open_layers ls (c # cs)" by (cases c) simp_all
  moreover have "\<exists>ps. sc_prims s2 k = sc_prims s k @ ps" for k using s1(4) [of k] s2(4) by (metis append_assoc)
  ultimately show ?case
    using s1(1,3) s2 by (intro exI [of _ s2] exI [of _ "bs1 @ bs2"] exI [of _ "os1 @ os2"]) simp
qed

section \<open>Painting order\<close>

lemma open_layers_append: "open_layers ls (cs @ ds) = open_layers (open_layers ls cs) ds"
proof (induction cs arbitrary: ls)
  case (Cons c cs)
  then show ?case by (cases c) simp_all
qed simp

lemma order_above:
  assumes "orders_ok (bs @ [b]) (os @ [order])" "(r, order') \<in> set (zip bs os)" "intersects b r"
  shows "order' < order"
proof -
  have len: "length os = length bs" using assms(1) by (simp add: orders_ok_def)
  obtain i where i: "i < length bs" "bs ! i = r" "os ! i = order'" using assms(2) by (auto simp: in_set_zip)
  have "order = Suc (Max (insert 0 (met (bs @ [b]) (os @ [order]) (length bs) b)))"
    using assms(1) len by (simp add: orders_ok_def) (metis lessI nth_append_length)
  moreover have "order' \<in> met (bs @ [b]) (os @ [order]) (length bs) b"
    unfolding met_facts(2) [OF order_refl len] using i assms(3) by (auto simp: met_def)
  then have "order' \<le> Max (insert 0 (met (bs @ [b]) (os @ [order]) (length bs) b))"
    by (intro Max_ge) (simp_all add: met_facts(1))
  ultimately show ?thesis by linarith
qed

lemma traced_orders:
  assumes "traced s bs os ls" "p \<in> set (sc_prims s k)"
  shows "pr_order p \<le> length bs"
proof -
  have "orders_ok bs os" "pr_order p \<in> set os" using assms by (auto simp: traced_def)
  then obtain i where "i < length bs" "pr_order p = os ! i" by (auto simp: in_set_conv_nth orders_ok_def)
  then show ?thesis using orders_le [OF \<open>orders_ok bs os\<close>, of i] by simp
qed

lemma sorted_split:
  assumes "sorted (map f xs)" "x \<in> set xs" "y \<in> set xs" "f x < f y"
  shows "\<exists>as bs cs. xs = as @ x # bs @ y # cs"
proof -
  obtain as xs' where xs: "xs = as @ x # xs'" using assms(2) by (meson split_list)
  have "y \<notin> set as" using assms(1,4) unfolding xs by (auto simp: sorted_append)
  moreover have "y \<noteq> x" using assms(4) by auto
  ultimately have "y \<in> set xs'" using assms(3) unfolding xs by auto
  then show ?thesis unfolding xs by (metis split_list)
qed

text \<open>
  Two paint calls, the second outside all layers: its primitive gets an order above the first one's
  when it meets the region of the first.
\<close>

lemma paint_two:
  fixes p q :: "('u::linordered_ab_group_add, 'p) primitive"
  assumes len: "length (pre @ PaintPrimitive p # mid @ PaintPrimitive q # post) < 2 ^ 32"
    and vis: "\<not> is_empty (clipped_bounds p)" "\<not> is_empty (clipped_bounds q)"
    and top_level: "open_layers [] (pre @ PaintPrimitive p # mid) = []"
    and meets: "intersects (clipped_bounds q) (region (open_layers [] pre) p)"
  obtains s bs os ls order1 index1 order2 index2
  where "paint scene_default (pre @ PaintPrimitive p # mid @ PaintPrimitive q # post) = Some s"
    "traced s bs os ls" "length bs \<le> length (pre @ PaintPrimitive p # mid @ PaintPrimitive q # post)"
    "assigned order1 index1 p \<in> set (sc_prims s (kind_of p))" "assigned order2 index2 q \<in> set (sc_prims s (kind_of q))"
    "order1 < order2"
proof -
  let ?ls = "open_layers [] pre"
  obtain s1 bs1 os1 where s1: "paint scene_default pre = Some s1" "traced s1 bs1 os1 ?ls" "length bs1 \<le> length pre"
    using paint_ok [OF traced_default, of pre] len by auto
  have small: "length bs1 + 1 < 2 ^ 32" using s1(3) len by simp
  obtain s2 order1 bs2 os2 where s2: "insert_primitive s1 p = Some s2" "traced s2 (bs1 @ bs2) (os1 @ os2) ?ls"
    "length bs2 \<le> 1" "?ls = [] \<longrightarrow> bs2 = [clipped_bounds p] \<and> os2 = [order1]"
    "(region ?ls p, order1) \<in> set (zip (bs1 @ bs2) (os1 @ os2))"
    "sc_prims s2 = (sc_prims s1)(kind_of p := sc_prims s1 (kind_of p) @ [assigned order1 (length (sc_prims s1 (kind_of p))) p])"
    by (rule insert_primitive_ok [OF s1(2) small vis(1)])
  have ls: "open_layers ?ls mid = []" using top_level by (simp add: open_layers_append)
  from paint_ok [OF s2(2), of mid] s1(3) s2(3) len
  obtain s3 bs3 os3 where s3: "paint s2 mid = Some s3" "traced s3 ((bs1 @ bs2) @ bs3) ((os1 @ os2) @ os3) []"
    "length bs3 \<le> length mid" "\<forall>k. \<exists>ps. sc_prims s3 k = sc_prims s2 k @ ps"
    unfolding ls by auto
  have small: "length ((bs1 @ bs2) @ bs3) + 1 < 2 ^ 32" using s1(3) s2(3) s3(3) len by simp
  obtain s4 order2 bs4 os4 where s4: "insert_primitive s3 q = Some s4"
    "traced s4 (((bs1 @ bs2) @ bs3) @ bs4) (((os1 @ os2) @ os3) @ os4) []" "length bs4 \<le> 1"
    "([] :: 'u bounds list) = [] \<longrightarrow> bs4 = [clipped_bounds q] \<and> os4 = [order2]"
    "(region [] q, order2) \<in> set (zip (((bs1 @ bs2) @ bs3) @ bs4) (((os1 @ os2) @ os3) @ os4))"
    "sc_prims s4 = (sc_prims s3)(kind_of q := sc_prims s3 (kind_of q) @ [assigned order2 (length (sc_prims s3 (kind_of q))) q])"
    by (rule insert_primitive_ok [OF s3(2) small vis(2)])
  have "orders_ok (((bs1 @ bs2) @ bs3) @ [clipped_bounds q]) (((os1 @ os2) @ os3) @ [order2])"
    using s4(2,4) by (simp add: traced_def)
  moreover have "length (os1 @ os2) = length (bs1 @ bs2)" using s2(2) unfolding traced_def orders_ok_def by blast
  then have "(region ?ls p, order1) \<in> set (zip ((bs1 @ bs2) @ bs3) ((os1 @ os2) @ os3))"
    using s2(5) unfolding zip_append [OF \<open>length (os1 @ os2) = length (bs1 @ bs2)\<close> [symmetric]] by simp
  ultimately have above: "order1 < order2" using order_above meets by blast
  from paint_ok [OF s4(2), of post] s1(3) s2(3) s3(3) s4(3) len
  obtain s5 bs5 os5 ls5 where s5: "paint s4 post = Some s5"
    "traced s5 ((((bs1 @ bs2) @ bs3) @ bs4) @ bs5) ((((os1 @ os2) @ os3) @ os4) @ os5) ls5"
    "length bs5 \<le> length post" "\<forall>k. \<exists>ps. sc_prims s5 k = sc_prims s4 k @ ps"
    by auto
  have sub: "set (sc_prims s2 k) \<subseteq> set (sc_prims s5 k)" "set (sc_prims s4 k) \<subseteq> set (sc_prims s5 k)" for k
  proof -
    obtain ps ps' where "sc_prims s3 k = sc_prims s2 k @ ps" "sc_prims s5 k = sc_prims s4 k @ ps'" using s3(4) s5(4) by blast
    then show "set (sc_prims s2 k) \<subseteq> set (sc_prims s5 k)" "set (sc_prims s4 k) \<subseteq> set (sc_prims s5 k)"
      using s4(6) by auto
  qed
  show ?thesis
  proof (rule that [OF _ s5(2) _ _ _ above])
    show "paint scene_default (pre @ PaintPrimitive p # mid @ PaintPrimitive q # post) = Some s5"
      using s1(1) s2(1) s3(1) s4(1) s5(1) by (simp add: paint_append)
    show "assigned order1 (length (sc_prims s1 (kind_of p))) p \<in> set (sc_prims s5 (kind_of p))"
      "assigned order2 (length (sc_prims s3 (kind_of q))) q \<in> set (sc_prims s5 (kind_of q))"
      using sub(1) [of "kind_of p"] sub(2) [of "kind_of q"] s2(6) s4(6) by auto
  qed (use s1(3) s2(3) s3(3) s4(3) s5(3) in simp)
qed

text \<open>
  Batches. Whatever function sorts the vectors in \<open>finish\<close>, the iterator over the batches ends without a
  panic, provided no order is \<open>u32::MAX\<close>. The batches draw exactly the primitives of the scene, in
  ascending order and, for the same order, by kind; each vector keeps its sequence. No
  batch is empty, a quad with a blend mode is drawn alone, and the sprites of a batch have one texture.
\<close>

theorem batches_spec:
  assumes "sorts srt" and "\<forall>k. \<forall>p \<in> set (sc_prims s k). pr_order p < U32_MAX"
  shows "\<exists>bs. collect_batches (batches (finish srt s)) = Some bs \<and>
    sorted (map (\<lambda>(k, p). (pr_order p, k)) (drawn bs)) \<and>
    (\<forall>k. map snd (filter (\<lambda>(k', p). k' = k) (drawn bs)) = sc_prims (finish srt s) k) \<and>
    (\<forall>k. mset (sc_prims (finish srt s) k) = mset (sc_prims s k)) \<and>
    (\<forall>b \<in> set bs. homogeneous b)"
  using batches_finish [OF assms] finish_facts(2) [OF assms(1)] unfolding draws_def by blast

text \<open>
  C28. What is painted later is drawn later. When a primitive is painted outside all layers and its
  visible bounds meet the region of an earlier primitive (its own visible bounds, or those of the layer it is in), then
  the earlier one is drawn before it, however the calls around them look and however the
  vectors are sorted.
\<close>

theorem paint_order:
  fixes p q :: "('u::linordered_ab_group_add, 'p) primitive"
  assumes "sorts srt" and "cs = pre @ PaintPrimitive p # mid @ PaintPrimitive q # post" and "length cs < 2 ^ 32 - 1"
    and "\<not> is_empty (clipped_bounds p)" and "\<not> is_empty (clipped_bounds q)"
    and "open_layers [] (pre @ PaintPrimitive p # mid) = []"
    and "intersects (clipped_bounds q) (region (open_layers [] pre) p)"
  shows "\<exists>s bs xs ys zs order1 index1 order2 index2.
    paint scene_default cs = Some s \<and> collect_batches (batches (finish srt s)) = Some bs \<and>
    drawn bs = xs @ (kind_of p, assigned order1 index1 p) # ys @ (kind_of q, assigned order2 index2 q) # zs"
proof -
  have "length cs < 2 ^ 32" using assms(3) by simp
  from paint_two [OF this [unfolded assms(2)] assms(4-7), folded assms(2)]
  obtain s bs os ls order1 index1 order2 index2
    where s: "paint scene_default cs = Some s" "traced s bs os ls" "length bs \<le> length cs"
      "assigned order1 index1 p \<in> set (sc_prims s (kind_of p))" "assigned order2 index2 q \<in> set (sc_prims s (kind_of q))"
      "order1 < order2" by blast
  have "\<forall>k. \<forall>r \<in> set (sc_prims s k). pr_order r < U32_MAX"
    using traced_orders [OF s(2)] s(3) assms(3) by (fastforce simp: U32_MAX_def)
  from batches_finish [OF assms(1) this]
  obtain bs where bs: "collect_batches (batches (finish srt s)) = Some bs" "draws (drawn bs) (sc_prims (finish srt s))"
    by blast
  let ?key = "\<lambda>(k :: primitive_kind, r :: ('u, 'p) primitive). (pr_order r, k)"
  let ?x = "(kind_of p, assigned order1 index1 p)" and ?y = "(kind_of q, assigned order2 index2 q)"
  have "sorted (map ?key (drawn bs))" using bs(2) by (simp add: draws_def)
  moreover have "?x \<in> set (drawn bs)" "?y \<in> set (drawn bs)"
    using s(4,5) finish_facts(2) [OF assms(1), of s] unfolding draws_mem [OF bs(2)] by (metis set_mset_mset)+
  moreover have "?key ?x < ?key ?y" using s(6) by (simp add: kind_assigned less_prod_def)
  ultimately show ?thesis using s(1) bs(1) sorted_split [of ?key "drawn bs" ?x ?y] by blast
qed

section \<open>Replaying a range\<close>

text \<open>The calls that leave a paint operation.\<close>

fun recorded :: "('u::{plus,minus,zero,linorder}, 'p) paint_call \<Rightarrow> bool" where
  "recorded (PaintPrimitive p) \<longleftrightarrow> \<not> is_empty (clipped_bounds p)"
| "recorded (PushLayer b) \<longleftrightarrow> True"
| "recorded PopLayer \<longleftrightarrow> True"

text \<open>The operation records the call, and finds its primitive in the vectors of the scene.\<close>

fun records :: "(primitive_kind \<Rightarrow> ('u, 'p) primitive list) \<Rightarrow> 'u paint_operation \<Rightarrow> ('u, 'p) paint_call \<Rightarrow> bool" where
  "records ps operation (PaintPrimitive p) \<longleftrightarrow>
     (\<exists>index order. operation = PrimitiveOp (kind_of p) index \<and>
        nth_opt (ps (kind_of p)) index = Some (assigned order index p))"
| "records ps operation (PushLayer b) \<longleftrightarrow> operation = StartLayer b"
| "records ps operation PopLayer \<longleftrightarrow> operation = EndLayer"

lemma insert_assigned: "insert_primitive s (assigned order index p) = insert_primitive s p"
  unfolding insert_primitive_def Let_def kind_assigned ..

lemma replay_recorded: "records (sc_prims prev) operation c \<Longrightarrow> replay_operation prev operation s = paint_step s c"
  by (cases c) (auto simp: insert_assigned)

lemma replay_operations_recorded:
  "list_all2 (records (sc_prims prev)) operations cs \<Longrightarrow> replay_operations prev operations s = paint s cs"
  by (induction operations cs arbitrary: s rule: list_all2_induct)
    (auto simp: replay_recorded split: Option.bind_splits)

lemma records_mono:
  assumes "records ps operation c" "\<And>k. \<exists>qs. ps' k = ps k @ qs"
  shows "records ps' operation c"
proof (cases c)
  case (PaintPrimitive p)
  then obtain index order where "operation = PrimitiveOp (kind_of p) index"
    "nth_opt (ps (kind_of p)) index = Some (assigned order index p)"
    using assms(1) by auto
  moreover have "nth_opt (ps' k) index = nth_opt (ps k) index" if "index < length (ps k)" for k
    using assms(2) [of k] that by auto
  ultimately show ?thesis
    unfolding PaintPrimitive by (auto simp: nth_opt_Some_iff intro!: exI [of _ order]) (metis nth_opt_Some_iff)+
qed (use assms(1) in simp_all)

lemma paint_step_records:
  assumes "paint_step s c = Some s'"
  shows "\<exists>operations. sc_paint_operations s' = sc_paint_operations s @ operations \<and>
    list_all2 (records (sc_prims s')) operations (filter recorded [c]) \<and> (\<forall>k. \<exists>qs. sc_prims s' k = sc_prims s k @ qs)"
proof (cases c)
  case (PaintPrimitive p)
  show ?thesis
  proof (cases "is_empty (clipped_bounds p)")
    case True
    then show ?thesis using assms PaintPrimitive by (auto simp: insert_primitive_def)
  next
    case False
    let ?ps = "sc_prims s (kind_of p)"
    obtain order where "sc_prims s' = (sc_prims s)(kind_of p := ?ps @ [assigned order (length ?ps) p])"
      "sc_paint_operations s' = sc_paint_operations s @ [PrimitiveOp (kind_of p) (length ?ps)]"
      using assms False PaintPrimitive by (auto simp: insert_primitive_def Let_def split: Option.bind_splits if_splits)
    then show ?thesis using PaintPrimitive False by (auto simp: nth_opt_def)
  qed
next
  case (PushLayer b)
  then show ?thesis using assms by (auto simp: push_layer_def split: Option.bind_splits)
next
  case PopLayer
  then show ?thesis using assms by (auto simp: pop_layer_def)
qed

lemma paint_records:
  assumes "paint s cs = Some s'" "list_all2 (records (sc_prims s)) (sc_paint_operations s) ds"
  shows "list_all2 (records (sc_prims s')) (sc_paint_operations s') (ds @ filter recorded cs)"
  using assms
proof (induction cs arbitrary: s ds)
  case (Cons c cs)
  obtain s1 where s1: "paint_step s c = Some s1" "paint s1 cs = Some s'"
    using Cons.prems(1) by (auto split: Option.bind_splits)
  from paint_step_records [OF s1(1)] obtain operations where
    o: "sc_paint_operations s1 = sc_paint_operations s @ operations"
    "list_all2 (records (sc_prims s1)) operations (filter recorded [c])" "\<forall>k. \<exists>qs. sc_prims s1 k = sc_prims s k @ qs"
    by blast
  have "list_all2 (records (sc_prims s1)) (sc_paint_operations s) ds"
    using Cons.prems(2) by (rule list_all2_mono) (use records_mono o(3) in blast)
  then have "list_all2 (records (sc_prims s1)) (sc_paint_operations s1) (ds @ filter recorded [c])"
    using o(1,2) by (simp add: list_all2_appendI)
  from Cons.IH [OF s1(2) this] show ?case by (simp split: if_splits)
qed simp

lemma finish_sorted: "(\<And>k. sorted (map draw_key (sc_prims s k))) \<Longrightarrow> finish srt s = s"
  by (simp add: finish_def Let_def)

text \<open>
  C29. Replaying a range of an earlier scene does the same as making the recorded calls of that range again,
  in any scene, as long as \<open>finish\<close> did not have to sort the earlier scene's vectors.
\<close>

theorem replay_spec:
  assumes "paint scene_default cs = Some prev" and "\<forall>k. sorted (map draw_key (sc_prims prev k))"
    and "i \<le> j" and "j \<le> length (filter recorded cs)"
  shows "scene_replay s i j (finish srt prev) = paint s (drop i (take j (filter recorded cs)))"
proof -
  have rec: "list_all2 (records (sc_prims prev)) (sc_paint_operations prev) (filter recorded cs)"
    using paint_records [OF assms(1), of "[]"] by (simp add: scene_default_def)
  then have len: "length (sc_paint_operations prev) = length (filter recorded cs)" by (rule list_all2_lengthD)
  have "finish srt prev = prev" using assms(2) by (simp add: finish_sorted)
  moreover have "list_all2 (records (sc_prims prev)) (drop i (take j (sc_paint_operations prev))) (drop i (take j (filter recorded cs)))"
    using rec by (intro list_all2_dropI list_all2_takeI)
  ultimately show ?thesis
    using assms(3,4) len by (simp add: scene_replay_def replay_operations_recorded)
qed

section \<open>Examples\<close>

definition quad_at :: "int \<Rightarrow> nat \<Rightarrow> (int, nat) primitive" where
  "quad_at i label = \<lparr>pr_order = 0, pr_bounds = unit_square i, pr_content_mask = unit_square i,
     pr_details = QuadDetails 0, pr_paint = label\<rparr>"

text \<open>Two quads that overlap and one apart from them.\<close>

definition three_quads :: "(int, nat) paint_call list" where
  "three_quads = [PaintPrimitive (quad_at 0 1), PaintPrimitive (quad_at 1 2), PaintPrimitive (quad_at 5 3)]"

lemma sorts_sort_key: "sorts sort_key"
  by (simp add: sorts_def)

lemma intersects_squares: "intersects (unit_square i) (unit_square j) \<longleftrightarrow> abs (i - j) < 2"
  by (auto simp: intersects_sides side_defs unit_square_def)

lemma clipped_quad_at: "clipped_bounds (quad_at i label) = unit_square i"
  by (rule bounds_eqI) (simp_all add: clipped_bounds_def quad_at_def sides_intersect)

lemma quad_at_visible:
  "\<not> is_empty (unit_square i)" "\<not> is_empty (clipped_bounds (quad_at i label))" "kind_of (quad_at i label) = Quad"
  unfolding clipped_quad_at by (simp_all add: is_empty_def unit_square_def kind_of_def quad_at_def)

text \<open>Outside all layers the order of a primitive is that of the reference search.\<close>

lemma insert_top_level:
  assumes tr: "traced s bs os []" and small: "length bs + 1 < 2 ^ 32" and vis: "\<not> is_empty (clipped_bounds p)"
  defines "order \<equiv> Suc (max_order_of (clipped_bounds p) (zip bs os))"
  obtains s' where "insert_primitive s p = Some s'" "traced s' (bs @ [clipped_bounds p]) (os @ [order]) []"
    "sc_prims s' = (sc_prims s)(kind_of p := sc_prims s (kind_of p) @ [assigned order (length (sc_prims s (kind_of p))) p])"
    "sc_paint_operations s' = sc_paint_operations s @ [PrimitiveOp (kind_of p) (length (sc_prims s (kind_of p)))]"
proof -
  obtain s' order' bs' os' where s': "insert_primitive s p = Some s'" "traced s' (bs @ bs') (os @ os') []"
    "length bs' \<le> 1" "([] :: 'a bounds list) = [] \<longrightarrow> bs' = [clipped_bounds p] \<and> os' = [order']"
    "(region [] p, order') \<in> set (zip (bs @ bs') (os @ os'))"
    "sc_prims s' = (sc_prims s)(kind_of p := sc_prims s (kind_of p) @ [assigned order' (length (sc_prims s (kind_of p))) p])"
    "sc_paint_operations s' = sc_paint_operations s @ [PrimitiveOp (kind_of p) (length (sc_prims s (kind_of p)))]"
    by (rule insert_primitive_ok [OF tr small vis])
  have tr': "traced s' (bs @ [clipped_bounds p]) (os @ [order']) []" using s'(2,4) by simp
  have len: "length os = length bs" and ok: "orders_ok (bs @ [clipped_bounds p]) (os @ [order'])"
    using tr tr' unfolding traced_def orders_ok_def by blast+
  have "order' = Suc (Max (insert 0 (met bs os (length bs) (clipped_bounds p))))"
    using ok [unfolded orders_ok_def, THEN conjunct2, rule_format, of "length bs"] len
      met_facts(2) [OF order_refl len, of "[clipped_bounds p]" "[order']"] by (simp add: nth_append)
  then have "order' = order" unfolding order_def max_order_of_met [OF len] .
  then show ?thesis using that [of s'] s' tr' by blast
qed

lemma paint_three_quads:
  obtains s where "paint scene_default three_quads = Some s"
    "sc_prims s Quad = [assigned 1 0 (quad_at 0 1), assigned 2 1 (quad_at 1 2), assigned 1 2 (quad_at 5 3)]"
    "sc_paint_operations s = [PrimitiveOp Quad 0, PrimitiveOp Quad 1, PrimitiveOp Quad 2]"
proof -
  have small: "length ([] :: int bounds list) + 1 < 2 ^ 32" "length [unit_square 0] + 1 < 2 ^ 32"
    "length [unit_square 0, unit_square 1] + 1 < 2 ^ 32" by simp_all
  note facts = clipped_quad_at max_order_of_def intersects_squares quad_at_visible scene_default_def
  obtain s1 where s1: "insert_primitive scene_default (quad_at 0 1) = Some s1" "traced s1 [unit_square 0] [1] []"
    "sc_prims s1 Quad = [assigned 1 0 (quad_at 0 1)]" "sc_paint_operations s1 = [PrimitiveOp Quad 0]"
    by (rule insert_top_level [OF traced_default small(1) quad_at_visible(2), of 0 1]) (auto simp: facts)
  obtain s2 where s2: "insert_primitive s1 (quad_at 1 2) = Some s2" "traced s2 [unit_square 0, unit_square 1] [1, 2] []"
    "sc_prims s2 Quad = [assigned 1 0 (quad_at 0 1), assigned 2 1 (quad_at 1 2)]"
    "sc_paint_operations s2 = [PrimitiveOp Quad 0, PrimitiveOp Quad 1]"
    by (rule insert_top_level [OF s1(2) small(2) quad_at_visible(2), of 1 2]) (auto simp: facts s1(3,4) numeral_2_eq_2)
  obtain s3 where s3: "insert_primitive s2 (quad_at 5 3) = Some s3"
    "sc_prims s3 Quad = [assigned 1 0 (quad_at 0 1), assigned 2 1 (quad_at 1 2), assigned 1 2 (quad_at 5 3)]"
    "sc_paint_operations s3 = [PrimitiveOp Quad 0, PrimitiveOp Quad 1, PrimitiveOp Quad 2]"
    by (rule insert_top_level [OF s2(2) small(3) quad_at_visible(2), of 5 3]) (auto simp: facts s2(3,4) numeral_2_eq_2)
  show ?thesis using that [of s3] s1(1) s2(1) s3 by (simp add: three_quads_def)
qed

theorem batches_spec_witness:
  "\<exists>s bs. paint scene_default three_quads = Some s \<and> collect_batches (batches (finish sort_key s)) = Some bs \<and>
     map snd (filter (\<lambda>(k', p). k' = Shadow) (drawn bs)) = sc_prims (finish sort_key s) Shadow"
proof -
  obtain s bs os ls where s: "paint scene_default three_quads = Some s" "traced s bs os ls" "length bs \<le> 3"
    using paint_ok [OF traced_default, of three_quads] by (auto simp: three_quads_def)
  have "\<forall>k. \<forall>r \<in> set (sc_prims s k). pr_order r < U32_MAX"
    using traced_orders [OF s(2)] s(3) by (fastforce simp: U32_MAX_def)
  from batches_spec [OF sorts_sort_key this] s(1) show ?thesis by blast
qed

theorem paint_order_witness:
  "\<exists>s bs xs ys zs order1 index1 order2 index2.
    paint scene_default three_quads = Some s \<and> collect_batches (batches (finish sort_key s)) = Some bs \<and>
    drawn bs = xs @ (Quad, assigned order1 index1 (quad_at 0 1)) # ys @ (Quad, assigned order2 index2 (quad_at 1 2)) # zs"
  using paint_order [OF sorts_sort_key, of three_quads "[]" "quad_at 0 1" "[]" "quad_at 1 2" "[PaintPrimitive (quad_at 5 3)]"]
  by (simp add: three_quads_def quad_at_visible region_def clipped_quad_at intersects_squares)

theorem replay_spec_witness:
  "\<exists>prev. paint scene_default [PaintPrimitive (quad_at 0 1)] = Some prev \<and>
     scene_replay scene_default 0 (length [PaintPrimitive (quad_at 0 1)]) (finish sort_key prev) =
       paint scene_default [PaintPrimitive (quad_at 0 1)]"
proof -
  obtain prev where prev: "paint scene_default [PaintPrimitive (quad_at 0 1)] = Some prev"
    using paint_ok [OF traced_default, of "[PaintPrimitive (quad_at 0 1)]"] by auto
  have "filter recorded [PaintPrimitive (quad_at 0 1)] = [PaintPrimitive (quad_at 0 1)]" by (simp add: quad_at_visible)
  moreover have "sorted (map draw_key (sc_prims prev k))" for k
    using prev by (cases "k = Quad")
      (auto simp: insert_primitive_def scene_default_def quad_at_visible split: Option.bind_splits)
  ultimately show ?thesis
    using replay_spec [OF prev, of 0 "length [PaintPrimitive (quad_at 0 1)]" scene_default sort_key] prev by simp
qed

lemma insert_default_paint:
  assumes "insert_primitive scene_default p = Some s" "\<not> is_empty (clipped_bounds p)"
  shows "map pr_paint (sc_prims s (kind_of p)) = [pr_paint p]"
  using assms by (auto simp: insert_primitive_def Let_def scene_default_def assigned_def split: Option.bind_splits)

text \<open>
  C30. After \<open>finish\<close> has sorted a vector, the indices in the paint operations no longer name the primitives
  they were recorded for: two overlapping quads and one apart from them are painted, and replaying the
  second operation alone does not paint the second quad, whatever function sorts.
\<close>

theorem replay_after_sort:
  assumes "sorts srt"
  shows "\<exists>prev. paint scene_default three_quads = Some prev \<and>
    scene_replay scene_default 1 2 (finish srt prev) \<noteq> paint scene_default (drop 1 (take 2 (filter recorded three_quads)))"
proof -
  let ?A = "assigned 1 0 (quad_at 0 1)" and ?B = "assigned 2 1 (quad_at 1 2)" and ?C = "assigned 1 2 (quad_at 5 3)"
  obtain prev where prev: "paint scene_default three_quads = Some prev" "sc_prims prev Quad = [?A, ?B, ?C]"
    "sc_paint_operations prev = [PrimitiveOp Quad 0, PrimitiveOp Quad 1, PrimitiveOp Quad 2]"
    by (rule paint_three_quads)
  let ?ps = "sc_prims (finish srt prev) Quad"
  have ms: "mset ?ps = mset [?A, ?B, ?C]" and srt: "sorted (map draw_key ?ps)"
    using finish_facts [OF assms, of prev Quad] prev(2) by simp_all
  have "length ?ps = 3" using arg_cong [OF ms, of size] by simp
  then obtain a b c where abc: "?ps = [a, b, c]" by (auto simp: numeral_3_eq_3 length_Suc_conv)
  have "b \<noteq> ?B"
  proof
    assume "b = ?B"
    then have "mset [c, a] = mset [?C, ?A]" using ms abc by simp
    then have "c \<in> {?A, ?C}" by (metis insertI1 insert_commute list.set(1,2) set_mset_mset)
    moreover have "draw_key b \<le> draw_key c" using srt abc by simp
    ultimately show False using \<open>b = ?B\<close> by (auto simp: draw_key_def kind_assigned less_eq_prod_def)
  qed
  moreover have "b \<in> set [?A, ?B, ?C]" using ms abc by (metis list.set_intros(1,2) set_mset_mset)
  ultimately obtain order i j n where b: "b = assigned order i (quad_at j n)" "n \<noteq> 2" by auto
  have "scene_replay scene_default 1 2 (finish srt prev) = insert_primitive scene_default (quad_at j n)"
    using prev(3) abc b
    by (cases "insert_primitive scene_default (quad_at j n)")
      (simp_all add: scene_replay_def finish_def nth_opt_def insert_assigned numeral_2_eq_2)
  moreover have "paint scene_default (drop 1 (take 2 (filter recorded three_quads))) = insert_primitive scene_default (quad_at 1 2)"
    by (simp add: three_quads_def quad_at_visible)
  moreover have "insert_primitive scene_default (quad_at j n) \<noteq> insert_primitive scene_default (quad_at 1 2)"
  proof
    assume eq: "insert_primitive scene_default (quad_at j n) = insert_primitive scene_default (quad_at 1 2)"
    obtain s where s: "insert_primitive scene_default (quad_at 1 2) = Some s"
      using paint_ok [OF traced_default, of "[PaintPrimitive (quad_at 1 2)]"] by auto
    have "[pr_paint (quad_at j n)] = [pr_paint (quad_at 1 2)]"
      using insert_default_paint [OF s] insert_default_paint [OF eq [unfolded s]] quad_at_visible by simp
    then show False using b(2) by (simp add: quad_at_def)
  qed
  ultimately show ?thesis using prev(1) by auto
qed

theorem replay_after_sort_witness:
  "\<exists>prev. paint scene_default three_quads = Some prev \<and>
    scene_replay scene_default 1 2 (finish sort_key prev) \<noteq> paint scene_default (drop 1 (take 2 (filter recorded three_quads)))"
  by (rule replay_after_sort [OF sorts_sort_key])

end
