(* ===== verification/Subscription.thy ===== *)
theory Subscription
  imports Prelude
begin

text \<open>
  Subscriber sets and subscriptions (\<open>crates/gpui/src/subscription.rs\<close>). A subscriber set keeps, for each emitter,
  the callbacks to call. The set is shared: a callback that is being called may insert, activate, drop and remove
  subscribers of the same set. The theory models the operations, a call of all subscribers with callbacks
  that act on the set (\<open>retain\<close>), and subscriptions with their destructor. It shows the invariant of the set, which
  callbacks a call runs and which subscribers it keeps, and that a subscription that was dropped is not called
  again; and it characterises the cases in which a subscription dropped during a call survives.

  The part of the state of a program that holds the set is a field: a function that reads it and one that
  writes it (\<open>subscriber_field\<close>). The flag \<open>active\<close> of a subscriber is a cell shared with the closure that
  activates it, so the state has a store of cells and a subscriber has an address.
  Destructors of callbacks are not modelled. \<open>usize\<close> is \<^typ>\<open>nat\<close>.
\<close>

section \<open>Ordered maps\<close>

text \<open>\<open>BTreeMap\<close>: an association list with ascending keys.\<close>

fun bmap_insert :: "'a::linorder \<Rightarrow> 'b \<Rightarrow> ('a \<times> 'b) list \<Rightarrow> ('a \<times> 'b) list" where
  "bmap_insert k v [] = [(k, v)]"
| "bmap_insert k v ((k', v') # m) =
     (if k < k' then (k, v) # (k', v') # m
      else if k = k' then (k, v) # m
      else (k', v') # bmap_insert k v m)"

definition bmap_remove :: "'a \<Rightarrow> ('a \<times> 'b) list \<Rightarrow> ('a \<times> 'b) list" where
  "bmap_remove k m = filter (\<lambda>(k', v). k' \<noteq> k) m"

definition bmap_extend :: "('a::linorder \<times> 'b) list \<Rightarrow> ('a \<times> 'b) list \<Rightarrow> ('a \<times> 'b) list" where
  "bmap_extend m new = fold (\<lambda>(k, v). bmap_insert k v) new m"

definition bmap_ok :: "('a::linorder \<times> 'b) list \<Rightarrow> bool" where
  "bmap_ok m \<longleftrightarrow> sorted_wrt (<) (map fst m)"

lemma bmap_insert_end:
  "\<forall>k' \<in> fst ` set m. k' < k \<Longrightarrow> bmap_insert k v m = m @ [(k, v)]"
  by (induction m) (auto simp: not_less_iff_gr_or_eq)

lemma bmap_extend_append:
  "\<lbrakk>bmap_ok new; \<forall>k \<in> fst ` set m. \<forall>k' \<in> fst ` set new. k < k'\<rbrakk> \<Longrightarrow> bmap_extend m new = m @ new"
proof (induction new arbitrary: m)
  case (Cons p new)
  obtain k v where p: "p = (k, v)" by force
  have "bmap_extend (m @ [(k, v)]) new = (m @ [(k, v)]) @ new"
    using Cons.prems by (intro Cons.IH) (auto simp: bmap_ok_def p)
  moreover have "bmap_insert k v m = m @ [(k, v)]"
    using Cons.prems by (intro bmap_insert_end) (auto simp: p)
  ultimately show ?case by (simp add: bmap_extend_def p)
qed (simp add: bmap_extend_def)

lemma bmap_ok_filter [intro]: "bmap_ok m \<Longrightarrow> bmap_ok (filter P m)"
  unfolding bmap_ok_def by (induction m) auto

lemma bmap_ok_append:
  "bmap_ok (m @ n) \<longleftrightarrow> bmap_ok m \<and> bmap_ok n \<and> (\<forall>k \<in> fst ` set m. \<forall>k' \<in> fst ` set n. k < k')"
  by (auto simp: bmap_ok_def sorted_wrt_append)

lemma bmap_ok_unique:
  "bmap_ok m \<Longrightarrow> (k, v) \<in> set m \<Longrightarrow> (k, v') \<in> set m \<Longrightarrow> v = v'"
  unfolding bmap_ok_def by (induction m) force+

text \<open>Removing keys one after another.\<close>

lemma fold_bmap_remove:
  "fold (\<lambda>(e, k). bmap_remove k) ds m = filter (\<lambda>(k, v). k \<notin> snd ` set ds) m"
proof (induction ds arbitrary: m)
  case (Cons d ds)
  then show ?case
    by (cases d) (auto simp: bmap_remove_def intro!: filter_cong)
qed (simp add: filter_id_conv)

section \<open>The set\<close>

record 'c subscriber =
  active :: nat
  callback :: 'c

record ('k, 'c) subscriber_set =
  subscribers :: "'k \<rightharpoonup> (nat \<times> 'c subscriber) list option"
  dropped_subscribers :: "('k \<times> nat) list"
  next_subscriber_id :: nat
  cells :: "bool list"

definition ss_new :: "('k, 'c) subscriber_set" where
  "ss_new = \<lparr>subscribers = Map.empty, dropped_subscribers = [], next_subscriber_id = 0, cells = []\<rparr>"

text \<open>\<open>insert\<close>: the set, the id captured by the subscription, and the cell captured by the activating closure.\<close>

definition ss_insert ::
  "'k \<Rightarrow> 'c \<Rightarrow> ('k, 'c) subscriber_set \<Rightarrow> (nat \<times> nat) \<times> ('k, 'c) subscriber_set" where
  "ss_insert k c s =
     (let act = length (cells s);
          i = next_subscriber_id s;
          m = (case subscribers s k of Some (Some m) \<Rightarrow> m | _ \<Rightarrow> []);
          m' = bmap_insert i \<lparr>active = act, callback = c\<rparr> m
      in ((i, act), s\<lparr>subscribers := (subscribers s)(k \<mapsto> Some m'), next_subscriber_id := i + 1,
                      cells := cells s @ [False]\<rparr>))"

text \<open>The closure \<open>move || active.set(true)\<close>.\<close>

definition ss_activate :: "nat \<Rightarrow> ('k, 'c) subscriber_set \<Rightarrow> ('k, 'c) subscriber_set" where
  "ss_activate a s = s\<lparr>cells := (cells s)[a := True]\<rparr>"

text \<open>The closure of the subscription. \<open>dropped_subscribers\<close> is a set of pairs.\<close>

definition ss_unsubscribe :: "'k \<Rightarrow> nat \<Rightarrow> ('k, 'c) subscriber_set \<Rightarrow> ('k, 'c) subscriber_set" where
  "ss_unsubscribe k i s =
     (case subscribers s k of
        None \<Rightarrow> s
      | Some (Some m) \<Rightarrow>
          (let m' = bmap_remove i m in
           if m' = [] then s\<lparr>subscribers := (subscribers s)(k := None)\<rparr>
           else s\<lparr>subscribers := (subscribers s)(k \<mapsto> Some m')\<rparr>)
      | Some None \<Rightarrow> s\<lparr>dropped_subscribers := List.insert (k, i) (dropped_subscribers s)\<rparr>)"

text \<open>
  \<open>remove\<close> takes the subscribers of an emitter out. It returns an iterator, which reads the flag of a
  subscriber when it gets to it; \<open>ss_active_callbacks\<close> is what the iterator gives in one state.
\<close>

definition ss_remove ::
  "'k \<Rightarrow> ('k, 'c) subscriber_set \<Rightarrow> 'c subscriber list \<times> ('k, 'c) subscriber_set" where
  "ss_remove k s =
     (map snd (case subscribers s k of Some (Some m) \<Rightarrow> m | _ \<Rightarrow> []),
      s\<lparr>subscribers := (subscribers s)(k := None)\<rparr>)"

definition is_active :: "('k, 'c) subscriber_set \<Rightarrow> 'c subscriber \<Rightarrow> bool" where
  "is_active s sub = cells s ! active sub"

definition ss_active_callbacks :: "('k, 'c) subscriber_set \<Rightarrow> 'c subscriber list \<Rightarrow> 'c list" where
  "ss_active_callbacks s subs = map callback (filter (is_active s) subs)"

section \<open>Calling the subscribers of an emitter\<close>

text \<open>
  \<open>retain\<close> calls \<open>f\<close> on the subscribers of \<open>k\<close>. The function \<open>f\<close> runs in the state \<open>'w\<close> of the program, of
  which the set is the field read by \<open>get\<close> and written by \<open>put\<close>.
\<close>

fun ss_retain_loop ::
  "('w \<Rightarrow> ('k, 'c) subscriber_set) \<Rightarrow> ('c \<Rightarrow> 'w \<Rightarrow> bool \<times> 'c \<times> 'w) \<Rightarrow> (nat \<times> 'c subscriber) list \<Rightarrow> 'w \<Rightarrow>
   (nat \<times> 'c subscriber) list \<times> 'w" where
  "ss_retain_loop get f [] w = ([], w)"
| "ss_retain_loop get f ((i, sub) # m) w =
     (if is_active (get w) sub then
        (let (keep, c, w1) = f (callback sub) w;
             (m', w2) = ss_retain_loop get f m w1
         in (if keep then (i, sub\<lparr>callback := c\<rparr>) # m' else m', w2))
      else
        (let (m', w1) = ss_retain_loop get f m w in ((i, sub) # m', w1)))"

text \<open>The part after the loop. \<open>debug\<close> tells whether debug assertions are compiled in; \<open>None\<close> is their panic.\<close>

definition ss_retain_finish ::
  "bool \<Rightarrow> 'k \<Rightarrow> (nat \<times> 'c subscriber) list \<Rightarrow> ('k, 'c) subscriber_set \<Rightarrow> ('k, 'c) subscriber_set option" where
  "ss_retain_finish debug k m s =
     (let m1 = (case subscribers s k of Some (Some new) \<Rightarrow> bmap_extend m new | _ \<Rightarrow> m);
          dropped = dropped_subscribers s;
          s1 = s\<lparr>subscribers := (subscribers s)(k := None), dropped_subscribers := []\<rparr>
      in if debug \<and> (\<exists>d \<in> set dropped. fst d \<noteq> k) then None
         else (let m2 = fold (\<lambda>(e, i). bmap_remove i) dropped m1 in
               Some (if m2 = [] then s1 else s1\<lparr>subscribers := (subscribers s1)(k \<mapsto> Some m2)\<rparr>)))"

definition ss_retain ::
  "('w \<Rightarrow> ('k, 'c) subscriber_set) \<Rightarrow> (('k, 'c) subscriber_set \<Rightarrow> 'w \<Rightarrow> 'w) \<Rightarrow> bool \<Rightarrow> 'k \<Rightarrow>
   ('c \<Rightarrow> 'w \<Rightarrow> bool \<times> 'c \<times> 'w) \<Rightarrow> 'w \<Rightarrow> 'w option" where
  "ss_retain get put debug k f w =
     (case subscribers (get w) k of
        Some (Some m) \<Rightarrow>
          (let w1 = put ((get w)\<lparr>subscribers := (subscribers (get w))(k \<mapsto> None)\<rparr>) w;
               (m', w2) = ss_retain_loop get f m w1
           in map_option (\<lambda>s. put s w2) (ss_retain_finish debug k m' (get w2)))
      | _ \<Rightarrow> Some w)"

section \<open>Subscriptions\<close>

text \<open>
  A subscription holds the closure to run when it is dropped. \<open>'u\<close> is what such a closure captures, and \<open>run\<close> its effect;
  \<open>join\<close> builds a closure from two.
\<close>

datatype 'u unsubscriber = Unsubscriber 'u | Joined "'u unsubscriber option" "'u unsubscriber option"

record 'u subscription =
  unsubscribe :: "'u unsubscriber option"

fun call_unsubscriber :: "('u \<Rightarrow> 'w \<Rightarrow> 'w) \<Rightarrow> 'u unsubscriber \<Rightarrow> 'w \<Rightarrow> 'w" where
  "call_unsubscriber run (Unsubscriber u) w = run u w"
| "call_unsubscriber run (Joined a b) w =
     (let w1 = (case a of None \<Rightarrow> w | Some u \<Rightarrow> call_unsubscriber run u w)
      in (case b of None \<Rightarrow> w1 | Some u \<Rightarrow> call_unsubscriber run u w1))"

definition sub_new :: "'u \<Rightarrow> 'u subscription" where
  "sub_new u = \<lparr>unsubscribe = Some (Unsubscriber u)\<rparr>"

definition sub_drop :: "('u \<Rightarrow> 'w \<Rightarrow> 'w) \<Rightarrow> 'u subscription \<Rightarrow> 'w \<Rightarrow> 'w" where
  "sub_drop run sub w =
     (case unsubscribe sub of None \<Rightarrow> w | Some u \<Rightarrow> call_unsubscriber run u w)"

definition sub_detach :: "('u \<Rightarrow> 'w \<Rightarrow> 'w) \<Rightarrow> 'u subscription \<Rightarrow> 'w \<Rightarrow> 'w" where
  "sub_detach run sub w = sub_drop run (sub\<lparr>unsubscribe := None\<rparr>) w"

definition sub_join :: "'u subscription \<Rightarrow> 'u subscription \<Rightarrow> 'u subscription" where
  "sub_join a b = \<lparr>unsubscribe = Some (Joined (unsubscribe a) (unsubscribe b))\<rparr>"

lemma sub_join_drop: "sub_drop run (sub_join a b) w = sub_drop run b (sub_drop run a w)"
  by (simp add: sub_drop_def sub_join_def split: option.splits)

lemma sub_detach_drop: "sub_detach run sub w = w"
  by (simp add: sub_detach_def sub_drop_def)


section \<open>Operations of a callback\<close>

text \<open>What a callback can do to the set while it runs, and the effect of a list of such operations.\<close>

datatype ('k, 'c) ss_op = Insert 'k 'c | Activate nat | Unsubscribe 'k nat | Remove 'k

fun ss_apply :: "('k, 'c) ss_op \<Rightarrow> ('k, 'c) subscriber_set \<Rightarrow> ('k, 'c) subscriber_set" where
  "ss_apply (Insert k c) s = snd (ss_insert k c s)"
| "ss_apply (Activate a) s = ss_activate a s"
| "ss_apply (Unsubscribe k i) s = ss_unsubscribe k i s"
| "ss_apply (Remove k) s = snd (ss_remove k s)"

definition ss_run :: "('k, 'c) ss_op list \<Rightarrow> ('k, 'c) subscriber_set \<Rightarrow> ('k, 'c) subscriber_set" where
  "ss_run ops s = fold ss_apply ops s"

text \<open>The calls that the loop makes: the subscriber, its callback and the state in which it is called.\<close>

fun ss_calls ::
  "('w \<Rightarrow> ('k, 'c) subscriber_set) \<Rightarrow> ('c \<Rightarrow> 'w \<Rightarrow> bool \<times> 'c \<times> 'w) \<Rightarrow> (nat \<times> 'c subscriber) list \<Rightarrow> 'w \<Rightarrow>
   (nat \<times> 'c \<times> 'w) list" where
  "ss_calls get f [] w = []"
| "ss_calls get f ((i, sub) # m) w =
     (if is_active (get w) sub
      then (i, callback sub, w) # ss_calls get f m (snd (snd (f (callback sub) w)))
      else ss_calls get f m w)"

text \<open>The state in which the loop runs: the subscribers of the emitter are taken out.\<close>

definition ss_take :: "'k \<Rightarrow> ('k, 'c) subscriber_set \<Rightarrow> ('k, 'c) subscriber_set" where
  "ss_take k s = s\<lparr>subscribers := (subscribers s)(k \<mapsto> None)\<rparr>"

definition ss_entries :: "('k, 'c) subscriber_set \<Rightarrow> 'k \<Rightarrow> (nat \<times> 'c subscriber) list" where
  "ss_entries s k = (case subscribers s k of Some (Some m) \<Rightarrow> m | _ \<Rightarrow> [])"

definition ss_ids :: "('k, 'c) subscriber_set \<Rightarrow> 'k \<Rightarrow> nat list" where
  "ss_ids s k = map fst (ss_entries s k)"

lemma ids_Some: "subscribers s k = Some (Some m) \<Longrightarrow> ss_ids s k = map fst m"
  by (simp add: ss_ids_def ss_entries_def)

section \<open>The invariant\<close>

definition ss_wf :: "('k, 'c) subscriber_set \<Rightarrow> bool" where
  "ss_wf s \<longleftrightarrow>
     length (cells s) = next_subscriber_id s \<and>
     (\<forall>k m. subscribers s k = Some (Some m) \<longrightarrow> m \<noteq> []) \<and>
     (\<forall>k. bmap_ok (ss_entries s k)) \<and>
     (\<forall>k. \<forall>(i, sub) \<in> set (ss_entries s k). i < next_subscriber_id s \<and> active sub = i) \<and>
     (\<forall>k k'. k \<noteq> k' \<longrightarrow> set (ss_ids s k) \<inter> set (ss_ids s k') = {})"

text \<open>Between calls: no emitter has its subscribers taken out, and no drop is pending.\<close>

definition ss_ok :: "('k, 'c) subscriber_set \<Rightarrow> bool" where
  "ss_ok s \<longleftrightarrow> ss_wf s \<and> (\<forall>k. subscribers s k \<noteq> Some None) \<and> dropped_subscribers s = []"

text \<open>During a call for \<open>k\<close>, with the ids \<open>X\<close> taken out.\<close>

definition ss_busy :: "'k \<Rightarrow> nat set \<Rightarrow> ('k, 'c) subscriber_set \<Rightarrow> bool" where
  "ss_busy k X s \<longleftrightarrow> ss_wf s \<and> (\<forall>k'. k' \<noteq> k \<longrightarrow> subscribers s k' \<noteq> Some None) \<and>
     (\<forall>d \<in> set (dropped_subscribers s). fst d = k) \<and>
     (\<forall>i \<in> X. i < next_subscriber_id s \<and> (\<forall>k'. i \<notin> set (ss_ids s k')) \<and> (\<forall>j \<in> set (ss_ids s k). i < j))"

named_theorems ss_simps \<open>entries and counters after each operation\<close>

lemma entries_insert [ss_simps]:
  "ss_entries (snd (ss_insert k c s)) k' =
     (if k' = k
      then bmap_insert (next_subscriber_id s) \<lparr>active = length (cells s), callback = c\<rparr> (ss_entries s k)
      else ss_entries s k')"
  by (simp add: ss_entries_def ss_insert_def Let_def)

lemma entries_unsubscribe [ss_simps]:
  "ss_entries (ss_unsubscribe k i s) k' =
     (if k' = k then bmap_remove i (ss_entries s k) else ss_entries s k')"
  by (auto simp: ss_entries_def ss_unsubscribe_def Let_def bmap_remove_def split: option.splits)

lemma entries_remove [ss_simps]:
  "ss_entries (snd (ss_remove k s)) k' = (if k' = k then [] else ss_entries s k')"
  by (simp add: ss_entries_def ss_remove_def)

lemma entries_activate [ss_simps]: "ss_entries (ss_activate a s) = ss_entries s"
  by (rule ext) (simp add: ss_entries_def ss_activate_def)

lemma entries_take [ss_simps]: "ss_entries (ss_take k s) k' = (if k' = k then [] else ss_entries s k')"
  by (simp add: ss_entries_def ss_take_def)

lemma counters_simps [ss_simps]:
  "next_subscriber_id (snd (ss_insert k c s)) = Suc (next_subscriber_id s)"
  "cells (snd (ss_insert k c s)) = cells s @ [False]"
  "next_subscriber_id (ss_activate a s) = next_subscriber_id s"
  "cells (ss_activate a s) = (cells s)[a := True]"
  "next_subscriber_id (ss_unsubscribe k i s) = next_subscriber_id s"
  "cells (ss_unsubscribe k i s) = cells s"
  "next_subscriber_id (snd (ss_remove k s)) = next_subscriber_id s"
  "cells (snd (ss_remove k s)) = cells s"
  "next_subscriber_id (ss_take k s) = next_subscriber_id s" "cells (ss_take k s) = cells s"
  by (auto simp: ss_insert_def ss_activate_def ss_unsubscribe_def ss_remove_def ss_take_def Let_def
      split: option.splits)

lemma ss_wf_entryD:
  "ss_wf s \<Longrightarrow> (i, sub) \<in> set (ss_entries s k) \<Longrightarrow> i < next_subscriber_id s \<and> active sub = i"
  unfolding ss_wf_def by blast

lemma ss_wf_idsD: "ss_wf s \<Longrightarrow> i \<in> set (ss_ids s k) \<Longrightarrow> i < next_subscriber_id s"
  by (fastforce simp: ss_wf_def ss_ids_def)

lemma ss_wf_ids_unique: "ss_wf s \<Longrightarrow> i \<in> set (ss_ids s k) \<Longrightarrow> i \<in> set (ss_ids s k') \<Longrightarrow> k = k'"
  unfolding ss_wf_def by blast

lemma ss_wf_insert: "ss_wf s \<Longrightarrow> ss_wf (snd (ss_insert k c s))"
proof -
  assume wf: "ss_wf s"
  then have fresh: "\<forall>j \<in> fst ` set (ss_entries s k'). j < next_subscriber_id s" for k'
    by (fastforce simp: ss_wf_def)
  have ins: "ss_entries (snd (ss_insert k c s)) k =
      ss_entries s k @ [(next_subscriber_id s, \<lparr>active = next_subscriber_id s, callback = c\<rparr>)]"
    using wf fresh by (simp add: ss_simps bmap_insert_end ss_wf_def)
  have rest: "k' \<noteq> k \<Longrightarrow> ss_entries (snd (ss_insert k c s)) k' = ss_entries s k'" for k'
    by (simp add: ss_simps)
  show ?thesis
    unfolding ss_wf_def
  proof (intro conjI allI impI)
    show "length (cells (snd (ss_insert k c s))) = next_subscriber_id (snd (ss_insert k c s))"
      using wf by (simp add: ss_simps ss_wf_def)
  next
    fix k' m assume "subscribers (snd (ss_insert k c s)) k' = Some (Some m)"
    then show "m \<noteq> []"
      using wf ins by (auto simp: ss_wf_def ss_insert_def Let_def ss_entries_def split: if_splits)
  next
    fix k' show "bmap_ok (ss_entries (snd (ss_insert k c s)) k')"
      using wf fresh by (cases "k' = k") (auto simp: ins rest ss_wf_def bmap_ok_def sorted_wrt_append)
  next
    fix k'
    show "\<forall>(i, sub) \<in> set (ss_entries (snd (ss_insert k c s)) k').
        i < next_subscriber_id (snd (ss_insert k c s)) \<and> active sub = i"
      using wf by (cases "k' = k") (auto simp: ins rest counters_simps ss_wf_def less_Suc_eq)
  next
    fix k1 k2 :: 'a assume "k1 \<noteq> k2"
    moreover have "ss_ids (snd (ss_insert k c s)) k' =
        (if k' = k then ss_ids s k @ [next_subscriber_id s] else ss_ids s k')" for k'
      by (simp add: ss_ids_def ins rest)
    ultimately show "set (ss_ids (snd (ss_insert k c s)) k1) \<inter> set (ss_ids (snd (ss_insert k c s)) k2) = {}"
      using ss_wf_idsD [OF wf] ss_wf_ids_unique [OF wf] by auto
  qed
qed

lemma ss_wf_shrink:
  assumes "ss_wf s" and "length (cells s') = length (cells s)"
    and "next_subscriber_id s' = next_subscriber_id s"
    and nonempty: "\<And>k m. subscribers s' k = Some (Some m) \<Longrightarrow> m \<noteq> []"
    and shrink: "\<And>k. ss_entries s' k = filter (\<lambda>(i, sub). P k i) (ss_entries s k)"
  shows "ss_wf s'"
proof -
  have sub: "set (ss_entries s' k) \<subseteq> set (ss_entries s k)" and "bmap_ok (ss_entries s' k)" for k
    using shrink [of k] assms(1) by (auto simp: ss_wf_def intro!: bmap_ok_filter)
  moreover have "set (ss_ids s' k) \<subseteq> set (ss_ids s k)" for k
    using sub [of k] by (auto simp: ss_ids_def)
  then have "k \<noteq> k' \<Longrightarrow> set (ss_ids s' k) \<inter> set (ss_ids s' k') = {}" for k k'
    using ss_wf_ids_unique [OF assms(1)] by (metis disjoint_iff subsetD)
  moreover have "\<forall>(i, sub) \<in> set (ss_entries s' k). i < next_subscriber_id s' \<and> active sub = i" for k
    using sub [of k] assms(3) ss_wf_entryD [OF assms(1)] by auto
  ultimately show ?thesis
    using assms(1-4) by (simp add: ss_wf_def)
qed

lemma ss_wf_unsubscribe: "ss_wf s \<Longrightarrow> ss_wf (ss_unsubscribe k i s)"
  by (rule ss_wf_shrink [of s _ "\<lambda>k' j. k' = k \<longrightarrow> j \<noteq> i"])
    (auto simp: ss_simps ss_wf_def bmap_remove_def,
     auto simp: ss_unsubscribe_def bmap_remove_def Let_def split: option.splits if_splits)

lemma ss_wf_remove: "ss_wf s \<Longrightarrow> ss_wf (snd (ss_remove k s))"
  by (rule ss_wf_shrink [of s _ "\<lambda>k' j. k' \<noteq> k"])
    (auto simp: ss_simps ss_wf_def, auto simp: ss_remove_def split: if_splits)

lemma ss_wf_take: "ss_wf s \<Longrightarrow> ss_wf (ss_take k s)"
  by (rule ss_wf_shrink [of s _ "\<lambda>k' j. k' \<noteq> k"])
    (auto simp: ss_simps ss_wf_def, auto simp: ss_take_def split: if_splits)

lemma ss_wf_activate: "ss_wf s \<Longrightarrow> ss_wf (ss_activate a s)"
  by (rule ss_wf_shrink [of s _ "\<lambda>k j. True"])
    (auto simp: ss_simps ss_wf_def, auto simp: ss_activate_def)

lemmas ss_wf_ops = ss_wf_insert ss_wf_activate ss_wf_unsubscribe ss_wf_remove

lemma ss_wf_apply: "ss_wf s \<Longrightarrow> ss_wf (ss_apply op s)"
  by (cases op) (simp_all add: ss_wf_ops)

text \<open>Ids are given out once: an operation adds no id below the counter.\<close>

lemma ids_apply:
  assumes "ss_wf s" and "i \<in> set (ss_ids (ss_apply op s) k)"
  shows "i \<in> set (ss_ids s k) \<or> i = next_subscriber_id s"
proof (cases op)
  case (Insert k' c)
  have "\<forall>j \<in> fst ` set (ss_entries s k'). j < next_subscriber_id s"
    using assms(1) by (fastforce simp: ss_wf_def)
  then show ?thesis
    using assms(2) Insert by (auto simp: ss_ids_def ss_simps bmap_insert_end split: if_splits)
qed (use assms(2) in \<open>auto simp: ss_ids_def ss_simps bmap_remove_def split: if_splits\<close>)

lemma next_apply: "next_subscriber_id s \<le> next_subscriber_id (ss_apply op s)"
  by (cases op) (simp_all add: ss_simps)

lemma taken_apply: "subscribers (ss_apply op s) k = Some None \<Longrightarrow> subscribers s k = Some None"
  by (cases op)
    (auto simp: ss_insert_def ss_activate_def ss_unsubscribe_def ss_remove_def Let_def
      split: option.splits if_splits)

lemma dropped_apply:
  "d \<in> set (dropped_subscribers (ss_apply op s)) \<Longrightarrow>
     d \<in> set (dropped_subscribers s) \<or> subscribers s (fst d) = Some None"
  by (cases op)
    (auto simp: ss_insert_def ss_activate_def ss_unsubscribe_def ss_remove_def Let_def
      split: option.splits if_splits)

lemma ss_busy_apply:
  assumes "ss_busy k X s"
  shows "ss_busy k X (ss_apply op s)"
proof -
  have wf: "ss_wf s" and X: "\<And>i k'. i \<in> X \<Longrightarrow> i < next_subscriber_id s \<and> i \<notin> set (ss_ids s k')"
    and after: "\<And>i j. i \<in> X \<Longrightarrow> j \<in> set (ss_ids s k) \<Longrightarrow> i < j"
    using assms by (auto simp: ss_busy_def)
  have "i \<notin> set (ss_ids (ss_apply op s) k')" if "i \<in> X" for i k'
    using ids_apply [OF wf, of i op k'] X [OF that] by auto
  moreover have "i < j" if "i \<in> X" and "j \<in> set (ss_ids (ss_apply op s) k)" for i j
    using ids_apply [OF wf that(2)] X [OF that(1), of k] after [OF that(1), of j] by auto
  moreover have "i < next_subscriber_id (ss_apply op s)" if "i \<in> X" for i
    using X [OF that, of k] next_apply [of s op] by linarith
  moreover have "fst d = k" if "d \<in> set (dropped_subscribers (ss_apply op s))" for d
    using dropped_apply [OF that] assms unfolding ss_busy_def by blast
  ultimately show ?thesis
    using assms taken_apply [of op s] by (auto simp: ss_busy_def ss_wf_apply)
qed

lemma ss_busy_run: "ss_busy k X s \<Longrightarrow> ss_busy k X (ss_run ops s)"
  by (induction ops arbitrary: s) (simp_all add: ss_run_def ss_busy_apply)

lemma next_run: "next_subscriber_id s \<le> next_subscriber_id (ss_run ops s)"
proof (induction ops arbitrary: s)
  case (Cons op ops)
  have "next_subscriber_id s \<le> next_subscriber_id (ss_apply op s)" by (rule next_apply)
  also have "\<dots> \<le> next_subscriber_id (ss_run ops (ss_apply op s))" by (rule Cons.IH)
  finally show ?case by (simp add: ss_run_def)
qed (simp add: ss_run_def)

lemma ss_ok_apply: "ss_ok s \<Longrightarrow> ss_ok (ss_apply op s)"
proof -
  assume ok: "ss_ok s"
  then have "d \<notin> set (dropped_subscribers (ss_apply op s))" for d
    using dropped_apply [of d op s] by (auto simp: ss_ok_def)
  then have "dropped_subscribers (ss_apply op s) = []" by (metis last_in_set)
  then show ?thesis
    using ok taken_apply [of op s] by (auto simp: ss_ok_def ss_wf_apply)
qed

lemma ss_ok_run: "ss_ok s \<Longrightarrow> ss_ok (ss_run ops s)"
  by (induction ops arbitrary: s) (simp_all add: ss_run_def ss_ok_apply)

lemma ss_ok_new: "ss_ok ss_new"
  by (simp add: ss_ok_def ss_wf_def ss_new_def ss_entries_def ss_ids_def bmap_ok_def)

lemma ids_take: "ss_ids (ss_take k s) k' = (if k' = k then [] else ss_ids s k')"
  by (simp add: ss_ids_def ss_simps)

lemma ss_busy_take:
  assumes "ss_ok s"
  shows "ss_busy k (set (ss_ids s k)) (ss_take k s)"
proof -
  have "ss_wf s" using assms by (simp add: ss_ok_def)
  then show ?thesis
    using assms
    by (auto simp: ss_busy_def ss_ok_def ss_wf_take ids_take ss_simps dest: ss_wf_idsD ss_wf_ids_unique)
      (auto simp: ss_take_def)
qed


section \<open>Correctness of calls\<close>

text \<open>
  The part of a program's state that holds a subscriber set, and callbacks \<open>f\<close> that act on the set through its
  operations, \<open>ops\<close>, and on the rest of the state in any way. Such callbacks do not call the subscribers of
  another emitter of the same set (the flag \<open>flushing_effects\<close> of the application prevents nested effect cycles).
\<close>

locale subscriber_field =
  fixes get :: "'w \<Rightarrow> ('k, 'c) subscriber_set" and put :: "('k, 'c) subscriber_set \<Rightarrow> 'w \<Rightarrow> 'w"
  assumes get_put [simp]: "get (put s w) = s"

locale subscriber_calls = subscriber_field get put
  for get :: "'w \<Rightarrow> ('k, 'c) subscriber_set" and put :: "('k, 'c) subscriber_set \<Rightarrow> 'w \<Rightarrow> 'w" +
  fixes f :: "'c \<Rightarrow> 'w \<Rightarrow> bool \<times> 'c \<times> 'w" and ops :: "'c \<Rightarrow> 'w \<Rightarrow> ('k, 'c) ss_op list"
  assumes acts: "get (snd (snd (f c w))) = ss_run (ops c w) (get w)"
begin

text \<open>The state after the calls, by all their operations in order; the subscribers kept.\<close>

lemma retain_field: "\<forall>s w. get (put s w) = s"
  by simp

lemma retain_acts: "\<forall>c w. get (snd (snd (f c w))) = ss_run (ops c w) (get w)"
  by (simp add: acts)

lemma loop_state:
  "get (snd (ss_retain_loop get f m w)) =
     ss_run (concat (map (\<lambda>(i, c, v). ops c v) (ss_calls get f m w))) (get w)"
proof (induction m arbitrary: w)
  case (Cons p m)
  obtain i sub where p: "p = (i, sub)" by force
  show ?case
    using Cons.IH [of "snd (snd (f (callback sub) w))"] Cons.IH [of w]
    by (simp add: p ss_run_def case_prod_unfold Let_def acts)
qed (simp add: ss_run_def)

end

lemma calls_subset: "fst ` set (ss_calls get f m w) \<subseteq> fst ` set m"
  by (induction get f m w rule: ss_calls.induct) auto

lemma calls_ascending: "bmap_ok m \<Longrightarrow> sorted_wrt (<) (map fst (ss_calls get f m w))"
proof (induction get f m w rule: ss_calls.induct)
  case (2 get f i sub m w)
  then show ?case
    using calls_subset [of get f m "snd (snd (f (callback sub) w))"]
    by (fastforce simp: bmap_ok_def)
qed (simp add: bmap_ok_def)

lemma loop_kept:
  "bmap_ok m \<Longrightarrow>
     map fst (fst (ss_retain_loop get f m w)) =
     filter (\<lambda>i. \<forall>(j, c, v) \<in> set (ss_calls get f m w). j = i \<longrightarrow> fst (f c v)) (map fst m)"
proof (induction get f m w rule: ss_calls.induct)
  case (2 get f i sub m w)
  have new: "i \<notin> fst ` set m" and ok: "bmap_ok m" using 2(3) by (auto simp: bmap_ok_def)
  have "i \<notin> fst ` set (ss_calls get f m v)" for v
    using new calls_subset [of get f m v] by auto
  then have none: "(i, c, v') \<notin> set (ss_calls get f m v)" for c v v' by force
  have skip: "filter (\<lambda>j. (i = j \<longrightarrow> b) \<and> P j) (map fst m) = filter P (map fst m)" for b P
    using new by (intro filter_cong) auto
  show ?case
    using 2(1,2) ok none
    by (cases "f (callback sub) w") (auto simp: case_prod_unfold Let_def skip)
qed simp

lemma loop_entries:
  "(i, sub) \<in> set (fst (ss_retain_loop get f m w)) \<Longrightarrow>
     \<exists>sub'. (i, sub') \<in> set m \<and> active sub = active sub'"
proof (induction get f m w rule: ss_calls.induct)
  case (2 get f j sub1 m w)
  then show ?case
    by (cases "f (callback sub1) w") (auto simp: case_prod_unfold Let_def split: if_splits)
qed simp

lemma finish_spec:
  assumes busy: "ss_busy k X s" and ok: "bmap_ok m" and X: "fst ` set m \<subseteq> X"
    and act: "\<forall>(i, sub) \<in> set m. active sub = i"
  obtains s' where "ss_retain_finish debug k m s = Some s'" and "ss_ok s'"
    and "ss_ids s' k = filter (\<lambda>i. (k, i) \<notin> set (dropped_subscribers s)) (map fst m @ ss_ids s k)"
    and "\<And>k'. k' \<noteq> k \<Longrightarrow> subscribers s' k' = subscribers s k'"
    and "cells s' = cells s" and "next_subscriber_id s' = next_subscriber_id s"
    and "ss_entries s' k = filter (\<lambda>(i, sub). (k, i) \<notin> set (dropped_subscribers s)) (m @ ss_entries s k)"
proof -
  define s1 where "s1 = s\<lparr>subscribers := (subscribers s)(k := None), dropped_subscribers := []\<rparr>"
  define m2 where "m2 = filter (\<lambda>(i, sub). i \<notin> snd ` set (dropped_subscribers s)) (m @ ss_entries s k)"
  define s' where "s' = (if m2 = [] then s1 else s1\<lparr>subscribers := (subscribers s1)(k \<mapsto> Some m2)\<rparr>)"
  have wf: "ss_wf s" and dk: "\<And>d. d \<in> set (dropped_subscribers s) \<Longrightarrow> fst d = k"
    using busy by (auto simp: ss_busy_def)
  have new: "bmap_ok (ss_entries s k)" using wf by (simp add: ss_wf_def)
  have le: "\<forall>i \<in> fst ` set m. \<forall>j \<in> fst ` set (ss_entries s k). i < j"
    using X busy by (fastforce simp: ss_busy_def ss_ids_def)
  have "(case subscribers s k of Some (Some n) \<Rightarrow> bmap_extend m n | _ \<Rightarrow> m) = m @ ss_entries s k"
    using bmap_extend_append [OF new le] by (auto simp: ss_entries_def split: option.splits)
  then have "ss_retain_finish debug k m s = Some s'"
    using dk by (auto simp: ss_retain_finish_def Let_def fold_bmap_remove s'_def s1_def m2_def)
  moreover have ent: "ss_entries s' k' = (if k' = k then m2 else ss_entries s k')" for k'
    by (simp add: s'_def s1_def ss_entries_def)
  have "ss_wf s'"
  proof -
    have m2: "bmap_ok m2" using ok new le unfolding m2_def by (intro bmap_ok_filter) (simp add: bmap_ok_append)
    have in2: "i \<in> X \<or> i \<in> set (ss_ids s k)" if "i \<in> fst ` set m2" for i
      using that X by (auto simp: m2_def ss_ids_def)
    have act2: "i < next_subscriber_id s \<and> active sub = i" if "(i, sub) \<in> set m2" for i sub
      using that act X busy ss_wf_entryD [OF wf] by (fastforce simp: m2_def ss_busy_def)
    have disj: "i \<notin> set (ss_ids s k')" if "i \<in> fst ` set m2" "k' \<noteq> k" for i k'
      using in2 [OF that(1)] that(2) busy ss_wf_ids_unique [OF wf] by (auto simp: ss_busy_def)
    have cnt: "next_subscriber_id s' = next_subscriber_id s" "cells s' = cells s"
      by (simp_all add: s'_def s1_def)
    have full: "n \<noteq> []" if "subscribers s' k' = Some (Some n)" for k' n
      using that wf by (auto simp: ss_wf_def s'_def s1_def split: if_splits)
    have ids: "ss_ids s' k' = (if k' = k then map fst m2 else ss_ids s k')" for k'
      by (simp add: ss_ids_def ent)
    have "set (ss_ids s' k1) \<inter> set (ss_ids s' k2) = {}" if "k1 \<noteq> k2" for k1 k2
      using that disj ss_wf_ids_unique [OF wf] by (auto simp: ids disjoint_iff)
    moreover have "\<forall>(i, sub) \<in> set (ss_entries s' k'). i < next_subscriber_id s' \<and> active sub = i" for k'
      using act2 ss_wf_entryD [OF wf] by (auto simp: ent cnt)
    ultimately show ?thesis
      using wf m2 full by (simp add: ss_wf_def ent cnt)
  qed
  moreover have ents: "ss_entries s' k = filter (\<lambda>(i, sub). (k, i) \<notin> set (dropped_subscribers s)) (m @ ss_entries s k)"
  proof -
    have "i \<in> snd ` set (dropped_subscribers s) \<longleftrightarrow> (k, i) \<in> set (dropped_subscribers s)" for i
      using dk by force
    then show ?thesis by (simp add: ent m2_def)
  qed
  moreover have "ss_ids s' k = filter (\<lambda>i. (k, i) \<notin> set (dropped_subscribers s)) (map fst m @ ss_ids s k)"
    unfolding ss_ids_def ents by (simp add: filter_map o_def case_prod_unfold)
  ultimately show ?thesis
    using that busy by (auto simp: s'_def s1_def ss_ok_def ss_busy_def)
qed

text \<open>Flags are only ever set.\<close>

lemma cells_apply:
  "a < length (cells s) \<and> cells s ! a \<Longrightarrow> a < length (cells (ss_apply op s)) \<and> cells (ss_apply op s) ! a"
proof (cases op)
  case (Activate b)
  assume "a < length (cells s) \<and> cells s ! a"
  then show ?thesis using Activate by (cases "b = a") (simp_all add: ss_simps)
qed (simp_all add: ss_simps nth_append)

lemma cells_run:
  "a < length (cells s) \<and> cells s ! a \<Longrightarrow> a < length (cells (ss_run ops s)) \<and> cells (ss_run ops s) ! a"
  by (induction ops arbitrary: s) (simp_all add: ss_run_def cells_apply)

lemma inactive_apply:
  "a < length (cells s) \<and> \<not> cells s ! a \<Longrightarrow> op \<noteq> Activate a \<Longrightarrow>
     a < length (cells (ss_apply op s)) \<and> \<not> cells (ss_apply op s) ! a"
  by (cases op) (auto simp: ss_simps nth_append)

lemma inactive_run:
  "a < length (cells s) \<and> \<not> cells s ! a \<Longrightarrow> Activate a \<notin> set ops \<Longrightarrow>
     a < length (cells (ss_run ops s)) \<and> \<not> cells (ss_run ops s) ! a"
proof (induction ops arbitrary: s)
  case (Cons op ops)
  have "op \<noteq> Activate a" "Activate a \<notin> set ops" using Cons.prems(2) by auto
  then show ?case
    using inactive_apply [OF Cons.prems(1)] Cons.IH [of "ss_apply op s"] by (simp add: ss_run_def)
qed (simp add: ss_run_def)

text \<open>The operations of calls, in order, and the subscribers for which no call returned false.\<close>

definition call_ops :: "('c \<Rightarrow> 'w \<Rightarrow> ('k, 'c) ss_op list) \<Rightarrow> (nat \<times> 'c \<times> 'w) list \<Rightarrow> ('k, 'c) ss_op list" where
  "call_ops ops calls = concat (map (\<lambda>(i, c, v). ops c v) calls)"

definition kept_by :: "('c \<Rightarrow> 'w \<Rightarrow> bool \<times> 'c \<times> 'w) \<Rightarrow> (nat \<times> 'c \<times> 'w) list \<Rightarrow> nat \<Rightarrow> bool" where
  "kept_by f calls i \<longleftrightarrow> (\<forall>(j, c, v) \<in> set calls. j = i \<longrightarrow> fst (f c v))"

context subscriber_calls
begin

lemma call_active:
  "(i, sub) \<in> set m \<Longrightarrow> active sub < length (cells (get w)) \<and> is_active (get w) sub \<Longrightarrow>
     \<exists>v. (i, callback sub, v) \<in> set (ss_calls get f m w)"
proof (induction m arbitrary: w)
  case (Cons p m)
  obtain j sub' where p: "p = (j, sub')" by force
  let ?w = "snd (snd (f (callback sub') w))"
  have "active sub < length (cells (get ?w)) \<and> is_active (get ?w) sub"
    using cells_run [of "active sub" "get w"] Cons.prems(2) by (simp add: acts is_active_def)
  then show ?case
    using Cons.IH [of ?w] Cons.IH [of w] Cons.prems by (auto simp: p)
qed simp

lemma call_inactive:
  assumes "\<And>c w. Activate a \<notin> set (ops c w)"
  shows "\<forall>(j, sub) \<in> set m. j = i \<longrightarrow> active sub = a \<Longrightarrow> a < length (cells (get w)) \<and> \<not> cells (get w) ! a \<Longrightarrow>
    i \<notin> fst ` set (ss_calls get f m w)"
proof (induction m arbitrary: w)
  case (Cons p m)
  obtain j sub where p: "p = (j, sub)" by force
  let ?w = "snd (snd (f (callback sub) w))"
  have "a < length (cells (get ?w)) \<and> \<not> cells (get ?w) ! a"
    using inactive_run [OF Cons.prems(2) assms] by (simp add: acts)
  then show ?case
    using Cons.IH [of ?w] Cons.IH [of w] Cons.prems by (auto simp: p is_active_def)
qed simp

lemma retain_run:
  assumes ok: "ss_ok (get w)" and m: "subscribers (get w) k = Some (Some m)"
    and calls: "calls = ss_calls get f m (put (ss_take k (get w)) w)"
    and s2: "s2 = ss_run (call_ops ops calls) (ss_take k (get w))"
  obtains w' where "ss_retain get put debug k f w = Some w'" and "ss_ok (get w')"
    and "ss_ids (get w') k =
           filter (\<lambda>i. (k, i) \<notin> set (dropped_subscribers s2)) (filter (kept_by f calls) (map fst m) @ ss_ids s2 k)"
    and "\<And>k'. k' \<noteq> k \<Longrightarrow> subscribers (get w') k' = subscribers s2 k'"
    and "next_subscriber_id (get w') = next_subscriber_id s2" and "cells (get w') = cells s2"
    and "ss_entries (get w') k = filter (\<lambda>(i, sub). (k, i) \<notin> set (dropped_subscribers s2))
           (fst (ss_retain_loop get f m (put (ss_take k (get w)) w)) @ ss_entries s2 k)"
proof -
  have ent: "ss_entries (get w) k = m" using m by (simp add: ss_entries_def)
  have wf: "ss_wf (get w)" using ok by (simp add: ss_ok_def)
  then have bm: "bmap_ok m" using ent by (auto simp: ss_wf_def)
  define w1 where "w1 = put (ss_take k (get w)) w"
  obtain m' w2 where loop: "ss_retain_loop get f m w1 = (m', w2)" by force
  have st: "get w2 = s2"
    using loop_state [of m w1] loop by (simp add: s2 calls call_ops_def w1_def)
  have ids: "map fst m' = filter (kept_by f calls) (map fst m)"
    using loop_kept [OF bm, of get f w1] loop unfolding kept_by_def calls w1_def by simp
  have bm': "bmap_ok m'"
    using bm ids unfolding bmap_ok_def by (metis sorted_wrt_filter)
  have X: "fst ` set m' \<subseteq> set (ss_ids (get w) k)"
    using arg_cong [OF ids, of set] by (auto simp: ss_ids_def ent)
  have act: "\<forall>(i, sub) \<in> set m'. active sub = i"
    using loop_entries [of _ _ get f m w1] loop ss_wf_entryD [OF wf, of _ _ k] by (fastforce simp: ent)
  have busy: "ss_busy k (set (ss_ids (get w) k)) s2"
    unfolding s2 by (intro ss_busy_run ss_busy_take ok)
  obtain s' where fin: "ss_retain_finish debug k m' s2 = Some s'" "ss_ok s'"
    "ss_ids s' k = filter (\<lambda>i. (k, i) \<notin> set (dropped_subscribers s2)) (map fst m' @ ss_ids s2 k)"
    "\<And>k'. k' \<noteq> k \<Longrightarrow> subscribers s' k' = subscribers s2 k'"
    "cells s' = cells s2" "next_subscriber_id s' = next_subscriber_id s2"
    "ss_entries s' k = filter (\<lambda>(i, sub). (k, i) \<notin> set (dropped_subscribers s2)) (m' @ ss_entries s2 k)"
    by (rule finish_spec [OF busy bm' X act, of debug]) blast
  have "ss_retain get put debug k f w = Some (put s' w2)"
    using m loop fin(1) st by (simp add: ss_retain_def Let_def w1_def ss_take_def)
  then show ?thesis
    using that [of "put s' w2"] fin ids loop by (simp add: w1_def)
qed

end

text \<open>Operations that neither insert nor remove subscribers of \<open>k\<close>.\<close>

definition quiet :: "'k \<Rightarrow> ('k, 'c) ss_op \<Rightarrow> bool" where
  "quiet k op = (case op of Insert k' c \<Rightarrow> k' \<noteq> k | Remove k' \<Rightarrow> k' \<noteq> k | _ \<Rightarrow> True)"

lemma quiet_apply:
  assumes "subscribers s k = Some None" and "quiet k op"
  shows "subscribers (ss_apply op s) k = Some None \<and>
    ((k, i) \<in> set (dropped_subscribers (ss_apply op s)) \<longleftrightarrow>
       (k, i) \<in> set (dropped_subscribers s) \<or> op = Unsubscribe k i)"
  using assms
  by (cases op)
    (auto simp: quiet_def ss_insert_def ss_activate_def ss_unsubscribe_def ss_remove_def Let_def
      split: option.splits)

lemma quiet_run:
  "subscribers s k = Some None \<Longrightarrow> \<forall>op \<in> set ops. quiet k op \<Longrightarrow>
     subscribers (ss_run ops s) k = Some None \<and>
     ((k, i) \<in> set (dropped_subscribers (ss_run ops s)) \<longleftrightarrow>
        (k, i) \<in> set (dropped_subscribers s) \<or> Unsubscribe k i \<in> set ops)"
proof (induction ops arbitrary: s)
  case (Cons op ops)
  then show ?case
    using quiet_apply [of s k op] Cons.IH [of "ss_apply op s"] by (auto simp: ss_run_def)
qed (simp add: ss_run_def)

context subscriber_calls
begin

lemma retain_correct:
  assumes ok: "ss_ok (get w)" and m: "subscribers (get w) k = Some (Some m)"
    and calls: "calls = ss_calls get f m (put (ss_take k (get w)) w)"
  shows "\<exists>w'. ss_retain get put debug k f w = Some w' \<and> ss_ok (get w') \<and>
    sorted_wrt (<) (map fst calls) \<and> fst ` set calls \<subseteq> fst ` set m \<and>
    {i. \<exists>sub. (i, sub) \<in> set m \<and> is_active (get w) sub} \<subseteq> fst ` set calls \<and>
    (\<forall>(i, c, v) \<in> set calls. \<not> fst (f c v) \<longrightarrow> (\<forall>k'. i \<notin> set (ss_ids (get w') k'))) \<and>
    ((\<forall>op \<in> set (call_ops ops calls). quiet k op) \<longrightarrow>
       ss_ids (get w') k =
       filter (\<lambda>i. kept_by f calls i \<and> Unsubscribe k i \<notin> set (call_ops ops calls)) (map fst m))"
proof -
  define s2 where "s2 = ss_run (call_ops ops calls) (ss_take k (get w))"
  obtain w' where ret: "ss_retain get put debug k f w = Some w'" "ss_ok (get w')"
    and ids: "ss_ids (get w') k =
      filter (\<lambda>i. (k, i) \<notin> set (dropped_subscribers s2)) (filter (kept_by f calls) (map fst m) @ ss_ids s2 k)"
    and other: "\<And>k'. k' \<noteq> k \<Longrightarrow> subscribers (get w') k' = subscribers s2 k'"
    by (rule retain_run [OF ok m calls s2_def]) blast
  have wf: "ss_wf (get w)" and ent: "ss_entries (get w) k = m"
    using ok m by (auto simp: ss_ok_def ss_entries_def)
  then have bm: "bmap_ok m" and len: "length (cells (get w)) = next_subscriber_id (get w)"
    by (auto simp: ss_wf_def)
  have gone: "i \<notin> set (ss_ids (get w') k')" if "(i, c, v) \<in> set calls" "\<not> fst (f c v)" for i c v k'
  proof -
    have "i \<in> fst ` set calls" using that(1) by force
    then have "i \<in> set (ss_ids (get w) k)"
      using calls_subset [of get f m] by (auto simp: calls ss_ids_def ent)
    then have out: "i \<notin> set (ss_ids s2 k')" for k'
      using ss_busy_run [OF ss_busy_take [OF ok], of k "call_ops ops calls"] by (auto simp: ss_busy_def s2_def)
    show ?thesis
      using that out [of k] out [of k'] ids other [of k']
      by (cases "k' = k") (auto simp: kept_by_def ss_ids_def ss_entries_def)
  qed
  have start: "{i. \<exists>sub. (i, sub) \<in> set m \<and> is_active (get w) sub} \<subseteq> fst ` set calls"
  proof clarify
    fix i sub assume i: "(i, sub) \<in> set m" "is_active (get w) sub"
    then have "active sub < length (cells (get w))" using ss_wf_entryD [OF wf, of i sub k] ent len by simp
    then have "\<exists>v. (i, callback sub, v) \<in> set calls"
      using call_active [OF i(1), of "put (ss_take k (get w)) w"] i(2)
      by (simp add: calls is_active_def counters_simps)
    then show "i \<in> fst ` set calls" by force
  qed
  have still: "ss_ids (get w') k =
      filter (\<lambda>i. kept_by f calls i \<and> Unsubscribe k i \<notin> set (call_ops ops calls)) (map fst m)"
    if "\<forall>op \<in> set (call_ops ops calls). quiet k op"
  proof -
    have "subscribers s2 k = Some None \<and>
        ((k, i) \<in> set (dropped_subscribers s2) \<longleftrightarrow> Unsubscribe k i \<in> set (call_ops ops calls))" for i
      using quiet_run [OF _ that, of "ss_take k (get w)" i] ok by (simp add: s2_def ss_take_def ss_ok_def)
    then show ?thesis using ids by (simp add: ss_ids_def ss_entries_def conj_commute)
  qed
  show ?thesis
    using ret gone start still calls_ascending [OF bm, of get f] calls_subset [of get f m]
    unfolding calls by (intro exI [of _ w'] conjI) blast+
qed

end

text \<open>
  C6. Calling the subscribers of an emitter. The call returns, also with debug assertions; it runs callbacks of the
  emitter in the order in which they were inserted, each at most once, and all those that are active when it
  starts. Afterwards the set is well formed, and nobody for whom the callback returned false is subscribed. When the callbacks
  neither insert nor remove subscribers of the emitter, those that remain are those for whom no callback returned false and
  that were not dropped during the call. The callbacks act on the set by its operations; they do not call the subscribers of the same set.
\<close>

theorem retain_spec:
  assumes "\<forall>s w. get (put s w) = s"
    and "\<forall>c w. get (snd (snd (f c w))) = ss_run (ops c w) (get w)"
    and ok: "ss_ok (get w)" and m: "subscribers (get w) k = Some (Some m)"
    and calls: "calls = ss_calls get f m (put (ss_take k (get w)) w)"
  shows "\<exists>w'. ss_retain get put debug k f w = Some w' \<and> ss_ok (get w') \<and>
    sorted_wrt (<) (map fst calls) \<and> fst ` set calls \<subseteq> fst ` set m \<and>
    {i. \<exists>sub. (i, sub) \<in> set m \<and> is_active (get w) sub} \<subseteq> fst ` set calls \<and>
    (\<forall>(i, c, v) \<in> set calls. \<not> fst (f c v) \<longrightarrow> (\<forall>k'. i \<notin> set (ss_ids (get w') k'))) \<and>
    ((\<forall>op \<in> set (call_ops ops calls). quiet k op) \<longrightarrow>
       ss_ids (get w') k =
       filter (\<lambda>i. kept_by f calls i \<and> Unsubscribe k i \<notin> set (call_ops ops calls)) (map fst m))"
proof -
  have sc: "subscriber_calls get put f ops"
    using assms(1,2) by unfold_locales auto
  show ?thesis by (rule subscriber_calls.retain_correct [OF sc ok m calls])
qed

text \<open>Callbacks given by the operations they run and their answers, in a state that has the set and a rest.\<close>

definition put_set :: "('k, 'c) subscriber_set \<Rightarrow> ('k, 'c) subscriber_set \<times> 'x \<Rightarrow> ('k, 'c) subscriber_set \<times> 'x" where
  "put_set s w = (s, snd w)"

definition script_call ::
  "('c \<Rightarrow> ('k, 'c) subscriber_set \<times> 'x \<Rightarrow> ('k, 'c) ss_op list) \<Rightarrow> ('c \<Rightarrow> bool) \<Rightarrow> 'c \<Rightarrow>
   ('k, 'c) subscriber_set \<times> 'x \<Rightarrow> bool \<times> 'c \<times> ('k, 'c) subscriber_set \<times> 'x" where
  "script_call ops keep c w = (keep c, c, put_set (ss_run (ops c w) (fst w)) w)"

interpretation scripts: subscriber_calls fst put_set "script_call ops keep" ops for ops keep
  by unfold_locales (simp_all add: put_set_def script_call_def)

theorem retain_spec_witness:
  "\<exists>w'. ss_retain fst put_set True (7::int)
       (script_call (\<lambda>c w. if c = (0::int) then [Unsubscribe 7 1] else []) (\<lambda>c. c \<noteq> 2))
       (ss_run [Insert 7 0, Insert 7 1, Insert 7 2, Insert 7 3, Activate 0, Activate 2] ss_new, ()) = Some w' \<and>
     ss_ids (fst w') 7 = [0, 3]"
proof -
  let ?ops = "\<lambda>c (w :: (int, int) subscriber_set \<times> unit). if c = 0 then [Unsubscribe (7::int) 1] else []"
  let ?w = "(ss_run [Insert (7::int) (0::int), Insert 7 1, Insert 7 2, Insert 7 3, Activate 0, Activate 2] ss_new, ())"
  let ?m = "[(0, \<lparr>active = 0, callback = 0\<rparr>), (1, \<lparr>active = 1, callback = 1\<rparr>),
             (2, \<lparr>active = 2, callback = 2\<rparr>), (3, \<lparr>active = 3, callback = 3\<rparr>)] :: (nat \<times> int subscriber) list"
  have ok: "ss_ok (fst ?w)" by (simp add: ss_ok_run ss_ok_new)
  have m: "subscribers (fst ?w) 7 = Some (Some ?m)"
    by (simp add: ss_run_def ss_new_def ss_insert_def ss_activate_def eval_nat_numeral)
  let ?f = "script_call ?ops (\<lambda>c. c \<noteq> 2)"
  let ?calls = "ss_calls fst ?f ?m (put_set (ss_take 7 (fst ?w)) ?w)"
  obtain w' where ret: "ss_retain fst put_set True 7 ?f ?w = Some w'"
    and ids: "(\<forall>op \<in> set (call_ops ?ops ?calls). quiet (7::int) op) \<longrightarrow> ss_ids (fst w') 7 =
      filter (\<lambda>i. kept_by ?f ?calls i \<and> Unsubscribe 7 i \<notin> set (call_ops ?ops ?calls)) (map fst ?m)"
    using retain_spec [OF scripts.retain_field scripts.retain_acts [of ?ops "\<lambda>c. c \<noteq> 2"] ok m refl, of True]
    by (elim exE conjE) (rule that)
  have "ss_ids (fst w') 7 = [0, 3]"
    using ids
    by (simp add: ss_run_def ss_new_def ss_insert_def ss_activate_def ss_unsubscribe_def ss_take_def is_active_def
        call_ops_def kept_by_def quiet_def put_set_def script_call_def eval_nat_numeral)
  with ret show ?thesis by blast
qed


section \<open>Dropped subscriptions\<close>

text \<open>A program that uses a set: operations, and calls of an emitter's subscribers.\<close>

inductive ss_step ::
  "bool \<Rightarrow> ('k, 'c) subscriber_set \<times> 'x \<Rightarrow> ('k, 'c) subscriber_set \<times> 'x \<Rightarrow> bool" for debug where
  Op: "ss_step debug (s, x) (ss_apply op s, x')"
| Call: "\<lbrakk>subscriber_calls fst put_set f ops; ss_retain fst put_set debug k f w = Some w'\<rbrakk> \<Longrightarrow>
    ss_step debug w w'"

text \<open>The id is given out, and no emitter has it.\<close>

definition unsubscribed :: "nat \<Rightarrow> ('k, 'c) subscriber_set \<times> 'x \<Rightarrow> bool" where
  "unsubscribed i w \<longleftrightarrow> ss_ok (fst w) \<and> i < next_subscriber_id (fst w) \<and> (\<forall>k. i \<notin> set (ss_ids (fst w) k))"

lemma unsubscribed_run:
  assumes "ss_wf s" and "i < next_subscriber_id s" and "\<forall>k. i \<notin> set (ss_ids s k)"
  shows "\<forall>k. i \<notin> set (ss_ids (ss_run ops s) k)"
  using assms
proof (induction ops arbitrary: s)
  case (Cons op ops)
  have "i \<notin> set (ss_ids (ss_apply op s) k)" for k
    using ids_apply [OF Cons.prems(1), of i op k] Cons.prems by auto
  then show ?case
    using Cons.IH [of "ss_apply op s"] Cons.prems next_apply [of s op]
    by (simp add: ss_run_def ss_wf_apply)
qed (simp add: ss_run_def)

lemma unsubscribed_call:
  assumes out: "unsubscribed i w" and sc: "subscriber_calls fst put_set f ops"
    and ret: "ss_retain fst put_set debug k f w = Some w'"
  shows "unsubscribed i w'"
proof (cases "\<exists>m. subscribers (fst w) k = Some (Some m)")
  case True
  then obtain m where m: "subscribers (fst w) k = Some (Some m)" by blast
  have ok: "ss_ok (fst w)" and wf: "ss_wf (fst w)" using out by (auto simp: unsubscribed_def ss_ok_def)
  define s2 where "s2 = ss_run (call_ops ops (ss_calls fst f m (put_set (ss_take k (fst w)) w))) (ss_take k (fst w))"
  obtain v where "ss_retain fst put_set debug k f w = Some v" "ss_ok (fst v)"
    and ids: "ss_ids (fst v) k = filter (\<lambda>i. (k, i) \<notin> set (dropped_subscribers s2))
       (filter (kept_by f (ss_calls fst f m (put_set (ss_take k (fst w)) w))) (map fst m) @ ss_ids s2 k)"
    and other: "\<And>k'. k' \<noteq> k \<Longrightarrow> subscribers (fst v) k' = subscribers s2 k'"
    and nxt: "next_subscriber_id (fst v) = next_subscriber_id s2"
    by (rule subscriber_calls.retain_run [OF sc ok m refl s2_def]) blast
  then have v: "w' = v" "ss_ok (fst w')" using ret by auto
  have "i < next_subscriber_id s2"
    using out unfolding unsubscribed_def s2_def
    by (metis counters_simps(9) next_run order.strict_trans2)
  moreover have out2: "\<forall>k'. i \<notin> set (ss_ids s2 k')"
    unfolding s2_def using out wf
    by (intro unsubscribed_run) (auto simp: unsubscribed_def ss_wf_take ids_take ss_simps)
  moreover have "i \<notin> fst ` set m" using out ids_Some [OF m] unfolding unsubscribed_def by (metis list.set_map)
  then have "i \<notin> set (ss_ids (fst w') k')" for k'
    using out2 ids other v(1) by (cases "k' = k") (auto simp: ss_ids_def ss_entries_def)
  ultimately show ?thesis using v nxt by (auto simp: unsubscribed_def)
next
  case False
  then have "w' = w" using ret by (auto simp: ss_retain_def split: option.splits)
  then show ?thesis using out by simp
qed

lemma unsubscribed_step:
  assumes out: "unsubscribed i w" and "ss_step debug w w'"
  shows "unsubscribed i w'"
  using assms(2)
proof cases
  case (Op s x op x')
  then show ?thesis
    using out unsubscribed_run [of s i "[op]"] next_apply [of s op]
    by (auto simp: unsubscribed_def ss_ok_apply ss_run_def) (auto simp: ss_ok_def)
next
  case (Call f ops k)
  show ?thesis by (rule unsubscribed_call [OF out Call])
qed

interpretation out: transition_invariant "unsubscribed i" "ss_step debug" "unsubscribed i" for i debug
  by unfold_locales (auto intro: unsubscribed_step)

text \<open>
  C9. A subscription that is dropped between two calls is cancelled: whatever the program does
  afterwards with the set, the subscriber is in the set under no emitter, and no call runs its callback. (Callbacks do
  not call the subscribers of the same set.)
\<close>

theorem dropped_never_called:
  assumes "ss_ok s" and "i \<in> set (ss_ids s k)" and "(ss_step debug)\<^sup>*\<^sup>* (ss_unsubscribe k i s, x) w"
  shows "(\<forall>k'. i \<notin> set (ss_ids (fst w) k')) \<and>
    (\<forall>k' m f. subscribers (fst w) k' = Some (Some m) \<longrightarrow>
       i \<notin> fst ` set (ss_calls fst f m (put_set (ss_take k' (fst w)) w)))"
proof -
  have wf: "ss_wf s" using assms(1) by (simp add: ss_ok_def)
  have "ss_ids (ss_unsubscribe k i s) k' = filter (\<lambda>j. k' = k \<longrightarrow> j \<noteq> i) (ss_ids s k')" for k'
    by (auto simp: ss_ids_def ss_simps bmap_remove_def filter_map o_def case_prod_unfold)
  moreover have "ss_ok (ss_unsubscribe k i s)" using ss_ok_apply [OF assms(1), of "Unsubscribe k i"] by simp
  ultimately have "unsubscribed i (ss_unsubscribe k i s, x)"
    using assms(2) wf by (auto simp: unsubscribed_def ss_simps dest: ss_wf_idsD ss_wf_ids_unique)
  then have out: "\<forall>k'. i \<notin> set (ss_ids (fst w) k')"
    using out.inv_steps [OF assms(3)] by (simp add: unsubscribed_def)
  moreover have "i \<notin> fst ` set (ss_calls fst f m (put_set (ss_take k' (fst w)) w))"
    if "subscribers (fst w) k' = Some (Some m)" for k' m f
  proof -
    have "i \<notin> fst ` set m" using spec [OF out, of k'] ids_Some [OF that] by simp
    then show ?thesis using calls_subset [of fst f m "put_set (ss_take k' (fst w)) w"] by blast
  qed
  ultimately show ?thesis by blast
qed

text \<open>Two active subscribers of emitter 7; the first is dropped, and another one is inserted.\<close>

theorem dropped_never_called_witness:
  "0 \<notin> set (ss_ids (ss_apply (Insert 7 30) (ss_unsubscribe 7 0
         (ss_run [Insert (7::int) (10::int), Insert 7 20, Activate 0, Activate 1] ss_new))) 7)"
proof -
  let ?s = "ss_run [Insert (7::int) (10::int), Insert 7 20, Activate 0, Activate 1] ss_new"
  have "0 \<in> set (ss_ids ?s 7)"
    by (simp add: ss_run_def ss_new_def ss_insert_def ss_activate_def ss_ids_def ss_entries_def)
  moreover have "(ss_step True)\<^sup>*\<^sup>* (ss_unsubscribe 7 0 ?s, ()) (ss_apply (Insert 7 30) (ss_unsubscribe 7 0 ?s), ())"
    by (rule r_into_rtranclp) (rule ss_step.Op)
  ultimately show ?thesis
    using dropped_never_called [OF ss_ok_run [OF ss_ok_new], of 0 _ 7] by fastforce
qed

text \<open>
  Which drops a call records: those before the first insertion to the emitter or removal of its subscribers, which
  take the mark of the call away for good.
\<close>

lemma unmarked_run:
  "subscribers s k \<noteq> Some None \<Longrightarrow> (k, i) \<in> set (dropped_subscribers (ss_run ops s)) \<longleftrightarrow> (k, i) \<in> set (dropped_subscribers s)"
proof (induction ops arbitrary: s)
  case (Cons op ops)
  have "subscribers (ss_apply op s) k \<noteq> Some None" using Cons.prems taken_apply [of op s k] by blast
  moreover have "(k, i) \<in> set (dropped_subscribers (ss_apply op s)) \<longleftrightarrow> (k, i) \<in> set (dropped_subscribers s)"
    using Cons.prems
    by (cases op)
      (auto simp: ss_insert_def ss_activate_def ss_unsubscribe_def ss_remove_def Let_def split: option.splits)
  ultimately show ?case using Cons.IH [of "ss_apply op s"] by (simp add: ss_run_def)
qed (simp add: ss_run_def)

lemma loud_apply: "\<not> quiet k op \<Longrightarrow> subscribers (ss_apply op s) k \<noteq> Some None \<and>
    dropped_subscribers (ss_apply op s) = dropped_subscribers s"
  by (cases op) (auto simp: quiet_def ss_insert_def ss_remove_def Let_def)

lemma dropped_run:
  assumes "subscribers s k = Some None"
  shows "(k, i) \<in> set (dropped_subscribers (ss_run ops s)) \<longleftrightarrow>
    (k, i) \<in> set (dropped_subscribers s) \<or> Unsubscribe k i \<in> set (takeWhile (quiet k) ops)"
  using assms
proof (induction ops arbitrary: s)
  case (Cons op ops)
  show ?case
  proof (cases "quiet k op")
    case True
    with quiet_apply [OF Cons.prems True, of i] Cons.IH [of "ss_apply op s"] show ?thesis by (auto simp: ss_run_def)
  next
    case False
    with loud_apply [OF False, of s] unmarked_run [of "ss_apply op s" k i ops] show ?thesis by (simp add: ss_run_def)
  qed
qed (simp add: ss_run_def)

context subscriber_calls
begin

lemma retain_remains:
  assumes ok: "ss_ok (get w)" and m: "subscribers (get w) k = Some (Some m)"
    and calls: "calls = ss_calls get f m (put (ss_take k (get w)) w)" and i: "i \<in> fst ` set m"
  shows "\<exists>w'. ss_retain get put debug k f w = Some w' \<and>
    (i \<in> set (ss_ids (get w') k) \<longleftrightarrow>
       kept_by f calls i \<and> Unsubscribe k i \<notin> set (takeWhile (quiet k) (call_ops ops calls)))"
proof -
  define s2 where "s2 = ss_run (call_ops ops calls) (ss_take k (get w))"
  obtain w' where ret: "ss_retain get put debug k f w = Some w'"
    and ids: "ss_ids (get w') k =
      filter (\<lambda>i. (k, i) \<notin> set (dropped_subscribers s2)) (filter (kept_by f calls) (map fst m) @ ss_ids s2 k)"
    by (rule retain_run [OF ok m calls s2_def]) blast
  have "i \<in> set (ss_ids (get w) k)" using i m by (simp add: ids_Some)
  then have "i \<notin> set (ss_ids s2 k)"
    using ss_busy_run [OF ss_busy_take [OF ok], of k "call_ops ops calls"] by (auto simp: ss_busy_def s2_def)
  moreover have "(k, i) \<in> set (dropped_subscribers s2) \<longleftrightarrow> Unsubscribe k i \<in> set (takeWhile (quiet k) (call_ops ops calls))"
    using dropped_run [of "ss_take k (get w)" k i] ok by (simp add: s2_def ss_take_def ss_ok_def)
  ultimately show ?thesis using ret ids i by auto
qed

end

text \<open>Operations that leave subscriber \<open>i\<close> of \<open>k\<close> alone: they do not activate, drop or remove it.\<close>

definition spares :: "'k \<Rightarrow> nat \<Rightarrow> ('k, 'c) ss_op \<Rightarrow> bool" where
  "spares k i op \<longleftrightarrow> op \<noteq> Activate i \<and> op \<noteq> Unsubscribe k i \<and> op \<noteq> Remove k"

text \<open>A subscriber that waits for its activation.\<close>

definition waits :: "'k \<Rightarrow> nat \<Rightarrow> 'c \<Rightarrow> ('k, 'c) subscriber_set \<Rightarrow> bool" where
  "waits k i c s \<longleftrightarrow>
     (i, \<lparr>active = i, callback = c\<rparr>) \<in> set (ss_entries s k) \<and> i < length (cells s) \<and> \<not> cells s ! i"

lemma entry_run:
  "ss_wf s \<Longrightarrow> e \<in> set (ss_entries s k) \<Longrightarrow> \<forall>op \<in> set ops. spares k (fst e) op \<Longrightarrow> e \<in> set (ss_entries (ss_run ops s) k)"
proof (induction ops arbitrary: s)
  case (Cons op ops)
  have "\<forall>j \<in> fst ` set (ss_entries s k). j < next_subscriber_id s" using Cons.prems(1) by (fastforce simp: ss_wf_def)
  then have "e \<in> set (ss_entries (ss_apply op s) k)"
    using Cons.prems(2,3)
    by (cases op) (auto simp: ss_simps spares_def bmap_insert_end bmap_remove_def)
  then show ?case using Cons.IH [of "ss_apply op s"] Cons.prems by (simp add: ss_run_def ss_wf_apply)
qed (simp add: ss_run_def)

lemma waits_run:
  assumes "ss_wf s" and "waits k i c s" and "\<forall>op \<in> set ops. spares k i op"
  shows "waits k i c (ss_run ops s)"
proof -
  have "Activate i \<notin> set ops" using assms(3) by (auto simp: spares_def)
  with assms inactive_run [of i s ops] entry_run [of s _ k ops] show ?thesis by (auto simp: waits_def)
qed

context subscriber_calls
begin

lemma loop_inactive:
  assumes "\<And>c w. Activate a \<notin> set (ops c w)"
  shows "(i, sub) \<in> set m \<Longrightarrow> active sub = a \<Longrightarrow> a < length (cells (get w)) \<and> \<not> cells (get w) ! a \<Longrightarrow>
    (i, sub) \<in> set (fst (ss_retain_loop get f m w))"
proof (induction m arbitrary: w)
  case (Cons p m)
  obtain j sub' where p: "p = (j, sub')" by force
  let ?w = "snd (snd (f (callback sub') w))"
  have "a < length (cells (get ?w)) \<and> \<not> cells (get ?w) ! a"
    using inactive_run [OF Cons.prems(3) assms] by (simp add: acts)
  then show ?case
    using Cons.IH [of ?w] Cons.IH [of w] Cons.prems
    by (cases "is_active (get w) sub'") (auto simp: p is_active_def case_prod_unfold Let_def)
qed simp

lemma retain_waits:
  assumes ok: "ss_ok (get w)" and waits: "waits k i c (get w)" and spares: "\<And>c w. \<forall>op \<in> set (ops c w). spares k i op"
    and ret: "ss_retain get put debug j f w = Some w'"
  shows "ss_ok (get w') \<and> waits k i c (get w')"
proof (cases "\<exists>m. subscribers (get w) j = Some (Some m)")
  case True
  then obtain m where m: "subscribers (get w) j = Some (Some m)" by blast
  let ?calls = "ss_calls get f m (put (ss_take j (get w)) w)" and ?e = "(i, \<lparr>active = i, callback = c\<rparr>)"
  define s2 where "s2 = ss_run (call_ops ops ?calls) (ss_take j (get w))"
  have all: "\<forall>op \<in> set (call_ops ops ?calls). spares k i op" using spares by (auto simp: call_ops_def)
  obtain v where v: "ss_retain get put debug j f w = Some v" "ss_ok (get v)"
    "\<And>k'. k' \<noteq> j \<Longrightarrow> subscribers (get v) k' = subscribers s2 k'" "cells (get v) = cells s2"
    "ss_entries (get v) j = filter (\<lambda>(i, sub). (j, i) \<notin> set (dropped_subscribers s2))
       (fst (ss_retain_loop get f m (put (ss_take j (get w)) w)) @ ss_entries s2 j)"
    by (rule retain_run [OF ok m refl s2_def]) blast
  have wf: "ss_wf (get w)" using ok by (simp add: ss_ok_def)
  have cell: "i < length (cells (ss_take j (get w))) \<and> \<not> cells (ss_take j (get w)) ! i"
    using waits by (simp add: waits_def counters_simps)
  have act: "Activate i \<notin> set (ops c w)" for c w using spares by (auto simp: spares_def)
  have "i < length (cells s2) \<and> \<not> cells s2 ! i"
    unfolding s2_def using all by (intro inactive_run [OF cell]) (auto simp: spares_def)
  moreover have "?e \<in> set (ss_entries (get v) k)"
  proof (cases "j = k")
    case True
    have "?e \<in> set m" using waits m True by (simp add: waits_def ss_entries_def)
    then have "?e \<in> set (fst (ss_retain_loop get f m (put (ss_take j (get w)) w)))"
      using loop_inactive [OF act, of i "\<lparr>active = i, callback = c\<rparr>" m "put (ss_take j (get w)) w"] cell by simp
    moreover have "(k, i) \<notin> set (dropped_subscribers s2)"
    proof -
      have "Unsubscribe k i \<notin> set (takeWhile (quiet k) (call_ops ops ?calls))" using all by (auto simp: spares_def dest: set_takeWhileD)
      then show ?thesis
        using dropped_run [of "ss_take k (get w)" k i] ok True by (simp add: s2_def ss_take_def ss_ok_def)
    qed
    ultimately show ?thesis unfolding True [symmetric] v(5) using True by auto
  next
    case False
    have "?e \<in> set (ss_entries (ss_take j (get w)) k)" using waits False by (simp add: waits_def ss_simps)
    then have "?e \<in> set (ss_entries s2 k)"
      unfolding s2_def using all by (intro entry_run [OF ss_wf_take [OF wf]]) auto
    with v(3) [of k] False show ?thesis by (simp add: ss_entries_def)
  qed
  ultimately show ?thesis using v ret by (simp add: waits_def)
next
  case False
  then have "w' = w" using ret by (auto simp: ss_retain_def split: option.splits)
  with ok waits show ?thesis by simp
qed

lemma retain_ends:
  assumes ok: "ss_ok (get w)" and i: "(i, sub) \<in> set (ss_entries (get w) k)" and active: "is_active (get w) sub"
    and false: "\<And>v. \<not> fst (f (callback sub) v)"
  shows "\<exists>w'. ss_retain get put debug k f w = Some w' \<and> (\<forall>k'. i \<notin> set (ss_ids (get w') k'))"
proof -
  from i obtain m where m: "subscribers (get w) k = Some (Some m)" and im: "(i, sub) \<in> set m"
    by (cases "subscribers (get w) k") (auto simp: ss_entries_def split: option.splits)
  let ?calls = "ss_calls get f m (put (ss_take k (get w)) w)"
  have "length (cells (get w)) = next_subscriber_id (get w)" and "ss_wf (get w)" using ok by (auto simp: ss_ok_def ss_wf_def)
  then have "active sub < length (cells (get w))" using ss_wf_entryD [of "get w" i sub k] i by simp
  then obtain v where "(i, callback sub, v) \<in> set ?calls"
    using call_active [OF im, of "put (ss_take k (get w)) w"] active by (auto simp: is_active_def counters_simps)
  then show ?thesis using retain_correct [OF ok m refl, of debug] false by fastforce
qed

end

text \<open>
  C12. Which subscriber of an emitter remains after a call of its subscribers: exactly the one for which no callback returned false and
  whose subscription was not dropped by the callbacks before the first of them subscribed to the same emitter or removed its subscribers. A
  subscription that is dropped after that survives, although it was dropped: the drop finds the new subscribers, or none, in place of the mark
  of the call, and is not recorded. (Callbacks act on the set by its operations and do not call subscribers of the same set.)
\<close>

theorem drop_during_call:
  assumes "\<forall>s w. get (put s w) = s"
    and "\<forall>c w. get (snd (snd (f c w))) = ss_run (ops c w) (get w)"
    and ok: "ss_ok (get w)" and m: "subscribers (get w) k = Some (Some m)"
    and calls: "calls = ss_calls get f m (put (ss_take k (get w)) w)" and i: "i \<in> fst ` set m"
  shows "\<exists>w'. ss_retain get put debug k f w = Some w' \<and>
    (i \<in> set (ss_ids (get w') k) \<longleftrightarrow>
       kept_by f calls i \<and> Unsubscribe k i \<notin> set (takeWhile (quiet k) (call_ops ops calls)))"
proof -
  have sc: "subscriber_calls get put f ops"
    using assms(1,2) by unfold_locales auto
  show ?thesis by (rule subscriber_calls.retain_remains [OF sc ok m calls i])
qed

text \<open>The one subscriber of emitter 7 subscribes anew and drops its own subscription: it remains.\<close>

theorem drop_during_call_witness:
  "\<exists>w'. ss_retain fst put_set True (7::int) (script_call (\<lambda>c w. [Insert 7 (9::int), Unsubscribe 7 0]) (\<lambda>c. True))
       (ss_run [Insert 7 8, Activate 0] ss_new, ()) = Some w' \<and> 0 \<in> set (ss_ids (fst w') 7)"
proof -
  let ?ops = "\<lambda>c (w :: (int, int) subscriber_set \<times> unit). [Insert (7::int) (9::int), Unsubscribe 7 0]"
  let ?w = "(ss_run [Insert (7::int) (8::int), Activate 0] ss_new, ())"
  let ?m = "[(0, \<lparr>active = 0, callback = 8\<rparr>)] :: (nat \<times> int subscriber) list"
  let ?f = "script_call ?ops (\<lambda>c. True)"
  let ?calls = "ss_calls fst ?f ?m (put_set (ss_take 7 (fst ?w)) ?w)"
  have ok: "ss_ok (fst ?w)" by (simp add: ss_ok_run ss_ok_new)
  have m: "subscribers (fst ?w) 7 = Some (Some ?m)"
    by (simp add: ss_run_def ss_new_def ss_insert_def ss_activate_def)
  have "kept_by ?f ?calls 0" by (auto simp: kept_by_def script_call_def)
  moreover have "call_ops ?ops ?calls = [Insert 7 9, Unsubscribe 7 0]"
    by (simp add: call_ops_def ss_run_def ss_new_def ss_insert_def ss_activate_def ss_take_def put_set_def is_active_def)
  moreover have "(0::nat) \<in> fst ` set ?m" by simp
  ultimately show ?thesis
    using drop_during_call [OF scripts.retain_field scripts.retain_acts [of ?ops "\<lambda>c. True"] ok m refl, of 0 True]
    by (simp add: quiet_def del: ss_calls.simps)
qed

text \<open>
  A subscription that is dropped by the callback of another subscriber of the same emitter is still called once, in the
  call that is running.
\<close>

lemma dropped_subscription_called:
  "map fst (ss_calls fst (script_call (\<lambda>c' w. if c' = c then [Unsubscribe k 1] else []) (\<lambda>c. True))
       [(0, \<lparr>active = 0, callback = c\<rparr>), (1, \<lparr>active = 1, callback = d\<rparr>)]
       (ss_take k (ss_run [Insert k c, Insert k d, Activate 0, Activate 1] ss_new), x)) = [0, 1]"
  by (simp add: ss_run_def ss_new_def ss_insert_def ss_activate_def ss_unsubscribe_def script_call_def
      put_set_def is_active_def ss_take_def)

end
