(* ===== verification/Entity_Map.thy ===== *)
theory Entity_Map
  imports Prelude "HOL-Library.Multiset" "HOL-Library.Word"
begin

text \<open>
  The map of entities and their reference counts (\<open>crates/gpui/src/app/entity_map.rs\<close>). Entities are owned by the
  map; strong handles count references to them, weak handles do not. Dropping the last strong handle puts the id of an entity on a
  list, and the entity is released when the list is taken. The theory models handles, slots, leases, the leak
  detector and the increment of a count that other threads change; theory \<open>Entity_Life\<close> has the invariant.

  \<open>leak\<close> tells whether leak detection is compiled in, \<open>debug\<close> whether debug assertions are. The slot map (a
  library) is a map from keys to counts; the key that its insertion returns is an argument of \<open>em_reserve\<close>. A \<open>Box<dyn Any>\<close> is a pair of a type id and a
  value. Panics are values. Counts are \<^typ>\<open>nat\<close>. There is one entity map, so that a handle is always
  used with its own map.
\<close>

section \<open>Data\<close>

datatype em_panic = OverRelease | Unwrap | DoubleLease string | LeaseNotEnded | Leaked | StillAlive | DebugAssert

type_synonym 'a outcome = "('a, em_panic) result"

record 'i leak_detector =
  next_handle_id :: nat
  entity_handles :: "'i \<rightharpoonup> nat set"

record 'i entity_ref_counts =
  counts :: "'i \<rightharpoonup> nat"
  dropped_entity_ids :: "'i list"
  leak_detector :: "'i leak_detector"

record ('i, 'v) entity_map =
  entities :: "'i \<rightharpoonup> nat \<times> 'v"
  accessed_entities :: "'i set"
  ref_counts :: "'i entity_ref_counts"

text \<open>\<open>Weak<RwLock<EntityRefCounts>>\<close>: \<open>Weak::new()\<close>, or a pointer to the counts of the map.\<close>

datatype weak_ref = Dangling | Counts

record 'i any_entity =
  entity_id :: 'i
  entity_type :: nat
  entity_map_ref :: weak_ref
  handle_id :: nat

record 'i any_weak =
  weak_id :: 'i
  weak_type :: nat
  entity_ref_counts_ref :: weak_ref

record ('i, 'v) lease =
  lease_entity :: "(nat \<times> 'v) option"
  lease_id :: 'i

text \<open>\<open>Weak::upgrade\<close>; the counts are gone (\<open>None\<close>) when the map is.\<close>

definition rc_upgrade :: "weak_ref \<Rightarrow> 'i entity_ref_counts option \<Rightarrow> 'i entity_ref_counts option" where
  "rc_upgrade p rcs = (case p of Dangling \<Rightarrow> None | Counts \<Rightarrow> rcs)"

section \<open>The leak detector\<close>

definition handles_of :: "'i leak_detector \<Rightarrow> 'i \<Rightarrow> nat set" where
  "handles_of d i = (case entity_handles d i of None \<Rightarrow> {} | Some hs \<Rightarrow> hs)"

definition handle_created :: "'i \<Rightarrow> 'i leak_detector \<Rightarrow> nat \<times> 'i leak_detector" where
  "handle_created i d =
     (let h = next_handle_id d in
      (h, d\<lparr>next_handle_id := h + 1, entity_handles := (entity_handles d)(i \<mapsto> insert h (handles_of d i))\<rparr>))"

definition handle_released :: "'i \<Rightarrow> nat \<Rightarrow> 'i leak_detector \<Rightarrow> 'i leak_detector" where
  "handle_released i h d = d\<lparr>entity_handles := (entity_handles d)(i \<mapsto> handles_of d i - {h})\<rparr>"

definition ld_assert_released :: "'i \<Rightarrow> 'i leak_detector \<Rightarrow> 'i leak_detector outcome" where
  "ld_assert_released i d =
     (if handles_of d i \<noteq> {} then Inl Leaked
      else Inr (d\<lparr>entity_handles := (entity_handles d)(i \<mapsto> handles_of d i)\<rparr>))"

text \<open>The field \<open>handle_id\<close> of a new handle, where leak detection is compiled in.\<close>

definition new_handle_id :: "bool \<Rightarrow> 'i \<Rightarrow> 'i entity_ref_counts \<Rightarrow> nat \<times> 'i entity_ref_counts" where
  "new_handle_id leak i rc =
     (if leak then (let (h, d) = handle_created i (leak_detector rc) in (h, rc\<lparr>leak_detector := d\<rparr>))
      else (0, rc))"

section \<open>Strong handles\<close>

definition ae_new :: "bool \<Rightarrow> 'i \<Rightarrow> nat \<Rightarrow> 'i entity_ref_counts \<Rightarrow> 'i any_entity \<times> 'i entity_ref_counts" where
  "ae_new leak i ty rc =
     (let (h, rc') = new_handle_id leak i rc in
      (\<lparr>entity_id = i, entity_type = ty, entity_map_ref = Counts, handle_id = h\<rparr>, rc'))"

definition ae_downgrade :: "'i any_entity \<Rightarrow> 'i any_weak" where
  "ae_downgrade e = \<lparr>weak_id = entity_id e, weak_type = entity_type e, entity_ref_counts_ref = entity_map_ref e\<rparr>"

text \<open>\<open>AnyEntity::downcast\<close>: the typed handle, or the handle itself as the error.\<close>

definition ae_downcast :: "nat \<Rightarrow> 'i any_entity \<Rightarrow> ('i any_entity, 'i any_entity) result" where
  "ae_downcast ty e = (if ty = entity_type e then Inr e else Inl e)"

definition ae_clone ::
  "bool \<Rightarrow> 'i any_entity \<Rightarrow> 'i entity_ref_counts option \<Rightarrow> ('i any_entity \<times> 'i entity_ref_counts option) outcome" where
  "ae_clone leak e rcs =
     (case rc_upgrade (entity_map_ref e) rcs of
        None \<Rightarrow> if leak then Inl Unwrap else Inr (e, rcs)
      | Some rc \<Rightarrow>
          (case counts rc (entity_id e) of
             None \<Rightarrow> Inl OverRelease
           | Some c \<Rightarrow>
               if c = 0 then Inl OverRelease
               else (let (h, rc') = new_handle_id leak (entity_id e)
                                      (rc\<lparr>counts := (counts rc)(entity_id e \<mapsto> c + 1)\<rparr>)
                     in Inr (e\<lparr>handle_id := h\<rparr>, Some rc'))))"

definition ae_drop ::
  "bool \<Rightarrow> 'i any_entity \<Rightarrow> 'i entity_ref_counts option \<Rightarrow> 'i entity_ref_counts option outcome" where
  "ae_drop leak e rcs =
     (case rc_upgrade (entity_map_ref e) rcs of
        None \<Rightarrow> Inr rcs
      | Some rc \<Rightarrow>
          (case counts rc (entity_id e) of
             None \<Rightarrow> Inl OverRelease
           | Some c \<Rightarrow>
               if c = 0 then Inl OverRelease
               else (let rc1 = rc\<lparr>counts := (counts rc)(entity_id e \<mapsto> c - 1)\<rparr>;
                         rc2 = (if c = 1
                                then rc1\<lparr>dropped_entity_ids := dropped_entity_ids rc1 @ [entity_id e]\<rparr> else rc1);
                         rc3 = (if leak
                                then rc2\<lparr>leak_detector := handle_released (entity_id e) (handle_id e) (leak_detector rc2)\<rparr>
                                else rc2)
                     in Inr (Some rc3))))"

section \<open>Weak handles\<close>

text \<open>
  \<open>atomic_incr_if_not_zero\<close>: a loop of \<open>compare_exchange_weak\<close> on a counter that other threads change. Each
  attempt is given by the value of the counter at that moment and by whether the exchange fails although the values
  agree. The result is the value returned and the value written, if any; \<open>None\<close> when the attempts given do not suffice.
\<close>

fun incr_loop :: "nat \<Rightarrow> (nat \<times> bool) list \<Rightarrow> (nat \<times> nat option) option" where
  "incr_loop loaded [] = (if loaded = 0 then Some (0, None) else None)"
| "incr_loop loaded ((actual, spurious) # rest) =
     (if loaded = 0 then Some (0, None)
      else if actual = loaded \<and> \<not> spurious then Some (actual + 1, Some (loaded + 1))
      else incr_loop actual rest)"

definition atomic_incr_if_not_zero :: "nat \<Rightarrow> nat \<times> nat" where
  "atomic_incr_if_not_zero c = (if c = 0 then (0, c) else (c + 1, c + 1))"

definition aw_is_upgradable :: "'i any_weak \<Rightarrow> 'i entity_ref_counts option \<Rightarrow> bool" where
  "aw_is_upgradable wk rcs =
     (let n = (case rc_upgrade (entity_ref_counts_ref wk) rcs of
                 None \<Rightarrow> 0
               | Some rc \<Rightarrow> (case counts rc (weak_id wk) of None \<Rightarrow> 0 | Some c \<Rightarrow> c))
      in n > 0)"

definition aw_upgrade ::
  "bool \<Rightarrow> 'i any_weak \<Rightarrow> 'i entity_ref_counts option \<Rightarrow> 'i any_entity option \<times> 'i entity_ref_counts option" where
  "aw_upgrade leak wk rcs =
     (case rc_upgrade (entity_ref_counts_ref wk) rcs of
        None \<Rightarrow> (None, rcs)
      | Some rc \<Rightarrow>
          (case counts rc (weak_id wk) of
             None \<Rightarrow> (None, rcs)
           | Some c \<Rightarrow>
               (let (r, c') = atomic_incr_if_not_zero c;
                    rc1 = rc\<lparr>counts := (counts rc)(weak_id wk \<mapsto> c')\<rparr>
                in if r = 0 then (None, Some rc1)
                   else (let (h, rc2) = new_handle_id leak (weak_id wk) rc1 in
                         (Some \<lparr>entity_id = weak_id wk, entity_type = weak_type wk,
                                entity_map_ref = entity_ref_counts_ref wk, handle_id = h\<rparr>, Some rc2)))))"

definition aw_assert_released ::
  "bool \<Rightarrow> 'i any_weak \<Rightarrow> 'i entity_ref_counts option \<Rightarrow> 'i entity_ref_counts option outcome" where
  "aw_assert_released leak wk rcs =
     bind_result
       (if leak then
          (case rc_upgrade (entity_ref_counts_ref wk) rcs of
             None \<Rightarrow> Inl Unwrap
           | Some rc \<Rightarrow> bind_result (ld_assert_released (weak_id wk) (leak_detector rc))
                          (\<lambda>d. Inr (Some (rc\<lparr>leak_detector := d\<rparr>))))
        else Inr rcs)
       (\<lambda>rcs'. case rc_upgrade (entity_ref_counts_ref wk) rcs' of
                 None \<Rightarrow> Inr rcs'
               | Some rc \<Rightarrow> if counts rc (weak_id wk) \<noteq> None then Inl StillAlive else Inr rcs')"

text \<open>\<open>new_invalid\<close>, with the counter it takes ids from. \<open>from_ffi\<close> makes a key of a number.\<close>

definition aw_new_invalid :: "(64 word \<Rightarrow> 'i) \<Rightarrow> nat \<Rightarrow> 64 word \<Rightarrow> 'i any_weak \<times> 64 word" where
  "aw_new_invalid from_ffi unit_type n =
     (\<lparr>weak_id = from_ffi n, weak_type = unit_type, entity_ref_counts_ref = Dangling\<rparr>, n - 1)"

section \<open>The map\<close>

definition em_new :: "('i, 'v) entity_map" where
  "em_new = \<lparr>entities = Map.empty, accessed_entities = {},
     ref_counts = \<lparr>counts = Map.empty, dropped_entity_ids = [],
                   leak_detector = \<lparr>next_handle_id = 0, entity_handles = Map.empty\<rparr>\<rparr>\<rparr>"

text \<open>\<open>reserve\<close>; \<open>i\<close> is the key that the slot map gives.\<close>

definition em_reserve ::
  "bool \<Rightarrow> 'i \<Rightarrow> nat \<Rightarrow> ('i, 'v) entity_map \<Rightarrow> 'i any_entity \<times> ('i, 'v) entity_map" where
  "em_reserve leak i ty m =
     (let rc = (ref_counts m)\<lparr>counts := (counts (ref_counts m))(i \<mapsto> 1)\<rparr>;
          (slot, rc') = ae_new leak i ty rc
      in (slot, m\<lparr>ref_counts := rc'\<rparr>))"

text \<open>The type of a slot is the type of the entity put into it.\<close>

definition em_insert ::
  "'i any_entity \<Rightarrow> 'v \<Rightarrow> ('i, 'v) entity_map \<Rightarrow> 'i any_entity \<times> ('i, 'v) entity_map" where
  "em_insert slot v m =
     (slot, m\<lparr>accessed_entities := insert (entity_id slot) (accessed_entities m),
              entities := (entities m)(entity_id slot \<mapsto> (entity_type slot, v))\<rparr>)"

definition em_lease ::
  "'i any_entity \<Rightarrow> ('i, 'v) entity_map \<Rightarrow> (('i, 'v) lease \<times> ('i, 'v) entity_map) outcome" where
  "em_lease e m =
     (let m1 = m\<lparr>accessed_entities := insert (entity_id e) (accessed_entities m)\<rparr> in
      case entities m1 (entity_id e) of
        None \<Rightarrow> Inl (DoubleLease ''update'')
      | Some b \<Rightarrow> Inr (\<lparr>lease_entity = Some b, lease_id = entity_id e\<rparr>,
                        m1\<lparr>entities := (entities m1)(entity_id e := None)\<rparr>))"

definition em_end_lease :: "('i, 'v) lease \<Rightarrow> ('i, 'v) entity_map \<Rightarrow> ('i, 'v) entity_map outcome" where
  "em_end_lease l m =
     (case lease_entity l of
        None \<Rightarrow> Inl Unwrap
      | Some b \<Rightarrow> Inr (m\<lparr>entities := (entities m)(lease_id l \<mapsto> b)\<rparr>))"

definition em_read :: "'i any_entity \<Rightarrow> ('i, 'v) entity_map \<Rightarrow> 'v outcome \<times> ('i, 'v) entity_map" where
  "em_read e m =
     (let m1 = m\<lparr>accessed_entities := insert (entity_id e) (accessed_entities m)\<rparr> in
      (case entities m1 (entity_id e) of
         None \<Rightarrow> Inl (DoubleLease ''read'')
       | Some (ty, v) \<Rightarrow> if ty = entity_type e then Inr v else Inl (DoubleLease ''read''), m1))"

definition em_extend_accessed :: "'i set \<Rightarrow> ('i, 'v) entity_map \<Rightarrow> ('i, 'v) entity_map" where
  "em_extend_accessed is m = m\<lparr>accessed_entities := accessed_entities m \<union> is\<rparr>"

definition em_clear_accessed :: "('i, 'v) entity_map \<Rightarrow> ('i, 'v) entity_map" where
  "em_clear_accessed m = m\<lparr>accessed_entities := {}\<rparr>"

fun take_loop ::
  "bool \<Rightarrow> 'i list \<Rightarrow> ('i, 'v) entity_map \<Rightarrow> (('i \<times> nat \<times> 'v) list \<times> ('i, 'v) entity_map) outcome" where
  "take_loop debug [] m = Inr ([], m)"
| "take_loop debug (i # is) m =
     (case counts (ref_counts m) i of
        None \<Rightarrow> Inl Unwrap
      | Some c \<Rightarrow>
          if debug \<and> c \<noteq> 0 then Inl DebugAssert
          else (let m1 = m\<lparr>ref_counts := (ref_counts m)\<lparr>counts := (counts (ref_counts m))(i := None)\<rparr>,
                            accessed_entities := accessed_entities m - {i},
                            entities := (entities m)(i := None)\<rparr>
                in bind_result (take_loop debug is m1)
                     (\<lambda>(out, m2). Inr (case entities m i of None \<Rightarrow> out | Some b \<Rightarrow> (i, b) # out, m2))))"

definition em_take_dropped ::
  "bool \<Rightarrow> ('i, 'v) entity_map \<Rightarrow> (('i \<times> nat \<times> 'v) list \<times> ('i, 'v) entity_map) outcome" where
  "em_take_dropped debug m =
     take_loop debug (dropped_entity_ids (ref_counts m))
       (m\<lparr>ref_counts := (ref_counts m)\<lparr>dropped_entity_ids := []\<rparr>\<rparr>)"

text \<open>Access to a leased entity at the type of the lease, and the destructor of a lease.\<close>

definition lease_deref :: "nat \<Rightarrow> ('i, 'v) lease \<Rightarrow> 'v outcome" where
  "lease_deref ty l =
     (case lease_entity l of
        None \<Rightarrow> Inl Unwrap
      | Some (t, v) \<Rightarrow> if t = ty then Inr v else Inl Unwrap)"

definition lease_deref_mut :: "nat \<Rightarrow> ('v \<Rightarrow> 'v) \<Rightarrow> ('i, 'v) lease \<Rightarrow> ('i, 'v) lease outcome" where
  "lease_deref_mut ty f l =
     (case lease_entity l of
        None \<Rightarrow> Inl Unwrap
      | Some (t, v) \<Rightarrow> if t = ty then Inr (l\<lparr>lease_entity := Some (t, f v)\<rparr>) else Inl Unwrap)"

definition lease_drop :: "bool \<Rightarrow> ('i, 'v) lease \<Rightarrow> unit outcome" where
  "lease_drop panicking l = (if lease_entity l \<noteq> None \<and> \<not> panicking then Inl LeaseNotEnded else Inr ())"

section \<open>The increment of a count\<close>

text \<open>
  Whatever the other threads do, the loop returns zero and writes nothing only when it saw the counter at
  zero, and otherwise writes the successor of the value that the counter has when the exchange succeeds.
\<close>

lemma incr_loop_linearizes:
  "incr_loop loaded attempts = Some (r, w) \<Longrightarrow>
     (r = 0 \<and> w = None \<and> (loaded = 0 \<or> (\<exists>b. (0, b) \<in> set attempts))) \<or>
     (\<exists>c. c > 0 \<and> (c, False) \<in> set attempts \<and> (r, w) = (fst (atomic_incr_if_not_zero c), Some (c + 1)))"
  by (induction loaded attempts rule: incr_loop.induct)
    (auto simp: atomic_incr_if_not_zero_def split: if_splits)

text \<open>Without interference, it returns what an atomic increment returns after any number of spurious failures.\<close>

lemma incr_loop_returns:
  "incr_loop c (replicate n (c, True) @ [(c, False)]) =
     Some (fst (atomic_incr_if_not_zero c), if c = 0 then None else Some (snd (atomic_incr_if_not_zero c)))"
  by (induction n) (auto simp: atomic_incr_if_not_zero_def)

end
