(* ===== verification/Entity_Life.thy ===== *)
theory Entity_Life
  imports Entity_Map
begin

text \<open>
  The life of entities: a program that holds handles, slots, leases and weak handles of an entity map and uses them in
  any order, as a step relation with one rule for each operation. Invariants by rule induction give that counts are
  right and no operation on a live handle panics, that an entity is released once and only without handles, that nothing
  stays behind, that a weak handle gives no access to an entity that has lost its last handle, that an entity is in
  one place, and that types agree. The only thing asked of the slot map is that it gives no key twice.
\<close>

section \<open>Programs with an entity map\<close>

text \<open>
  The state of the program: the map and what the program holds. A leased handle is
  borrowed until the lease ends. \<open>issued\<close> has the keys given by the slot map, with the type of their slot, and \<open>released\<close> what
  was taken so far.
\<close>

record ('i, 'v) client =
  em :: "('i, 'v) entity_map"
  handles :: "'i any_entity multiset"
  slots :: "'i any_entity multiset"
  leases :: "('i any_entity \<times> ('i, 'v) lease) multiset"
  weaks :: "'i any_weak set"
  issued :: "'i \<rightharpoonup> nat"
  released :: "('i \<times> nat \<times> 'v) list"

definition client_init :: "('i, 'v) client" where
  "client_init = \<lparr>em = em_new, handles = {#}, slots = {#}, leases = {#}, weaks = {}, issued = Map.empty, released = []\<rparr>"

definition strong :: "('i, 'v) client \<Rightarrow> 'i any_entity multiset" where
  "strong s = handles s + slots s + image_mset fst (leases s)"

definition live :: "('i, 'v) client \<Rightarrow> 'i \<Rightarrow> nat" where
  "live s i = count (image_mset entity_id (strong s)) i"

abbreviation em_rc :: "('i, 'v) client \<Rightarrow> 'i entity_ref_counts" where
  "em_rc s \<equiv> ref_counts (em s)"

abbreviation set_rc :: "'i entity_ref_counts \<Rightarrow> ('i, 'v) client \<Rightarrow> ('i, 'v) client" where
  "set_rc rc s \<equiv> s\<lparr>em := (em s)\<lparr>ref_counts := rc\<rparr>\<rparr>"

inductive em_step :: "bool \<Rightarrow> bool \<Rightarrow> ('i, 'v) client \<Rightarrow> ('i, 'v) client \<Rightarrow> bool" for leak debug where
  Reserve: "\<lbrakk>issued s i = None; em_reserve leak i ty (em s) = (slot, m)\<rbrakk> \<Longrightarrow>
    em_step leak debug s (s\<lparr>em := m, slots := add_mset slot (slots s), issued := (issued s)(i \<mapsto> ty)\<rparr>)"
| Insert: "\<lbrakk>slots s = add_mset slot S; em_insert slot v (em s) = (e, m)\<rbrakk> \<Longrightarrow>
    em_step leak debug s (s\<lparr>em := m, slots := S, handles := add_mset e (handles s)\<rparr>)"
| Clone: "\<lbrakk>e \<in># strong s; ae_clone leak e (Some (em_rc s)) = Inr (e', Some rc)\<rbrakk> \<Longrightarrow>
    em_step leak debug s (set_rc rc s\<lparr>handles := add_mset e' (handles s)\<rparr>)"
| Drop: "\<lbrakk>handles s = add_mset e H; ae_drop leak e (Some (em_rc s)) = Inr (Some rc)\<rbrakk> \<Longrightarrow>
    em_step leak debug s (set_rc rc s\<lparr>handles := H\<rparr>)"
| Drop_Slot: "\<lbrakk>slots s = add_mset e S; ae_drop leak e (Some (em_rc s)) = Inr (Some rc)\<rbrakk> \<Longrightarrow>
    em_step leak debug s (set_rc rc s\<lparr>slots := S\<rparr>)"
| Downgrade: "e \<in># strong s \<Longrightarrow> em_step leak debug s (s\<lparr>weaks := insert (ae_downgrade e) (weaks s)\<rparr>)"
| Upgrade: "\<lbrakk>wk \<in> weaks s; aw_upgrade leak wk (Some (em_rc s)) = (Some e, Some rc)\<rbrakk> \<Longrightarrow>
    em_step leak debug s (set_rc rc s\<lparr>handles := add_mset e (handles s)\<rparr>)"
| Upgrade_None: "\<lbrakk>wk \<in> weaks s; aw_upgrade leak wk (Some (em_rc s)) = (None, Some rc)\<rbrakk> \<Longrightarrow>
    em_step leak debug s (set_rc rc s)"
| Lease: "\<lbrakk>handles s = add_mset e H; em_lease e (em s) = Inr (l, m)\<rbrakk> \<Longrightarrow>
    em_step leak debug s (s\<lparr>em := m, handles := H, leases := add_mset (e, l) (leases s)\<rparr>)"
| Write: "\<lbrakk>leases s = add_mset (e, l) L; lease_deref_mut (entity_type e) f l = Inr l'\<rbrakk> \<Longrightarrow>
    em_step leak debug s (s\<lparr>leases := add_mset (e, l') L\<rparr>)"
| End_Lease: "\<lbrakk>leases s = add_mset (e, l) L; em_end_lease l (em s) = Inr m\<rbrakk> \<Longrightarrow>
    em_step leak debug s (s\<lparr>em := m, leases := L, handles := add_mset e (handles s)\<rparr>)"
| Read: "\<lbrakk>e \<in># handles s; em_read e (em s) = (r, m)\<rbrakk> \<Longrightarrow> em_step leak debug s (s\<lparr>em := m\<rparr>)"
| Extend_Accessed: "em_step leak debug s (s\<lparr>em := em_extend_accessed is (em s)\<rparr>)"
| Clear_Accessed: "em_step leak debug s (s\<lparr>em := em_clear_accessed (em s)\<rparr>)"
| Take_Dropped: "em_take_dropped debug (em s) = Inr (out, m) \<Longrightarrow>
    em_step leak debug s (s\<lparr>em := m, released := released s @ out\<rparr>)"

section \<open>What the operations do to the counts\<close>

named_theorems rc_simps \<open>effects of the operations on counts\<close>

lemma new_handle_id_counts [rc_simps]:
  "counts (snd (new_handle_id leak i rc)) = counts rc"
  "dropped_entity_ids (snd (new_handle_id leak i rc)) = dropped_entity_ids rc"
  by (auto simp: new_handle_id_def handle_created_def Let_def)

lemma ae_clone_Inr:
  assumes "ae_clone leak e (Some rc) = Inr (e', Some rc')" and "entity_map_ref e = Counts"
  shows "\<exists>c. counts rc (entity_id e) = Some (Suc c) \<and> counts rc' = (counts rc)(entity_id e \<mapsto> Suc (Suc c)) \<and>
    dropped_entity_ids rc' = dropped_entity_ids rc \<and>
    e' = e\<lparr>handle_id := fst (new_handle_id leak (entity_id e) rc)\<rparr> \<and>
    leak_detector rc' = leak_detector (snd (new_handle_id leak (entity_id e) rc))"
  using assms
  by (auto simp: ae_clone_def rc_upgrade_def new_handle_id_def handle_created_def Let_def gr0_conv_Suc
      split: option.splits if_splits)

lemma aw_upgrade_Some:
  assumes "aw_upgrade leak wk (Some rc) = (Some e, Some rc')" and "entity_ref_counts_ref wk = Counts"
  shows "\<exists>c. counts rc (weak_id wk) = Some (Suc c) \<and> counts rc' = (counts rc)(weak_id wk \<mapsto> Suc (Suc c)) \<and>
    dropped_entity_ids rc' = dropped_entity_ids rc \<and>
    e = \<lparr>entity_id = weak_id wk, entity_type = weak_type wk, entity_map_ref = Counts,
         handle_id = fst (new_handle_id leak (weak_id wk) rc)\<rparr> \<and>
    leak_detector rc' = leak_detector (snd (new_handle_id leak (weak_id wk) rc))"
  using assms
  by (auto simp: aw_upgrade_def rc_upgrade_def new_handle_id_def handle_created_def Let_def
      atomic_incr_if_not_zero_def gr0_conv_Suc split: option.splits if_splits)

lemma aw_upgrade_None:
  assumes "aw_upgrade leak wk (Some rc) = (None, Some rc')"
  shows "rc' = rc \<and> (entity_ref_counts_ref wk = Dangling \<or> counts rc (weak_id wk) \<in> {None, Some 0})"
proof (cases "entity_ref_counts_ref wk")
  case Counts
  show ?thesis
  proof (cases "counts rc (weak_id wk)")
    case (Some c)
    then have "(counts rc)(weak_id wk \<mapsto> c) = counts rc" by (simp add: map_upd_triv)
    moreover have "c = 0"
      using assms Counts Some
      by (auto simp: aw_upgrade_def rc_upgrade_def Let_def atomic_incr_if_not_zero_def case_prod_unfold
          split: if_splits)
    ultimately show ?thesis
      using assms Counts Some by (simp add: aw_upgrade_def rc_upgrade_def Let_def atomic_incr_if_not_zero_def)
  qed (use assms Counts in \<open>simp add: aw_upgrade_def rc_upgrade_def\<close>)
qed (use assms in \<open>simp add: aw_upgrade_def rc_upgrade_def\<close>)

lemma ae_drop_Inr:
  assumes "ae_drop leak e (Some rc) = Inr (Some rc')" and "entity_map_ref e = Counts"
  shows "\<exists>c. counts rc (entity_id e) = Some (Suc c) \<and> counts rc' = (counts rc)(entity_id e \<mapsto> c) \<and>
    dropped_entity_ids rc' = dropped_entity_ids rc @ (if c = 0 then [entity_id e] else []) \<and>
    leak_detector rc' =
      (if leak then handle_released (entity_id e) (handle_id e) (leak_detector rc) else leak_detector rc)"
proof -
  obtain n where n: "counts rc (entity_id e) = Some n" "n \<noteq> 0"
    using assms by (auto simp: ae_drop_def rc_upgrade_def split: option.splits if_splits)
  then obtain c where c: "n = Suc c" by (cases n) auto
  have "rc' = (let rc1 = rc\<lparr>counts := (counts rc)(entity_id e \<mapsto> c)\<rparr>;
      rc2 = (if n = 1 then rc1\<lparr>dropped_entity_ids := dropped_entity_ids rc1 @ [entity_id e]\<rparr> else rc1)
    in if leak then rc2\<lparr>leak_detector := handle_released (entity_id e) (handle_id e) (leak_detector rc2)\<rparr> else rc2)"
    using assms n by (simp add: ae_drop_def rc_upgrade_def Let_def c)
  then show ?thesis using n by (auto simp: c Let_def)
qed

lemma em_reserve_eq:
  assumes "em_reserve leak i ty m = (slot, m')"
  shows "entities m' = entities m \<and> counts (ref_counts m') = (counts (ref_counts m))(i \<mapsto> 1) \<and>
    dropped_entity_ids (ref_counts m') = dropped_entity_ids (ref_counts m) \<and>
    slot = \<lparr>entity_id = i, entity_type = ty, entity_map_ref = Counts,
            handle_id = fst (new_handle_id leak i (ref_counts m))\<rparr> \<and>
    leak_detector (ref_counts m') = leak_detector (snd (new_handle_id leak i (ref_counts m)))"
  using assms
  by (auto simp: em_reserve_def ae_new_def new_handle_id_def handle_created_def Let_def split: if_splits)

lemma take_loop_spec:
  "\<lbrakk>distinct is; \<forall>i \<in> set is. counts (ref_counts m) i = Some 0\<rbrakk> \<Longrightarrow>
     take_loop debug is m =
     Inr (List.map_filter (\<lambda>i. map_option (Pair i) (entities m i)) is,
          m\<lparr>ref_counts := (ref_counts m)\<lparr>counts := counts (ref_counts m) |` (- set is)\<rparr>,
            accessed_entities := accessed_entities m - set is, entities := entities m |` (- set is)\<rparr>)"
proof (induction "is" arbitrary: m)
  case (Cons i "is")
  let ?m1 = "m\<lparr>ref_counts := (ref_counts m)\<lparr>counts := (counts (ref_counts m))(i := None)\<rparr>,
    accessed_entities := accessed_entities m - {i}, entities := (entities m)(i := None)\<rparr>"
  have del: "g(i := None) |` (- set is) = g |` (- insert i (set is))" for g :: "'a \<rightharpoonup> 'z"
    by (auto simp: restrict_map_def fun_eq_iff)
  have compl: "- set is - {i} = - insert i (set is)" by auto
  have zero: "\<forall>j \<in> set is. counts (ref_counts ?m1) j = Some 0" using Cons.prems by auto
  have out: "List.map_filter (\<lambda>j. map_option (Pair j) (((entities m)(i := None)) j)) is =
      List.map_filter (\<lambda>j. map_option (Pair j) (entities m j)) is"
    using Cons.prems(1) by (auto simp: List.map_filter_def intro!: arg_cong [where f = "map _"] filter_cong map_cong)
  have "take_loop debug is ?m1 = Inr (List.map_filter (\<lambda>j. map_option (Pair j) (entities m j)) is,
      m\<lparr>ref_counts := (ref_counts m)\<lparr>counts := counts (ref_counts m) |` (- set (i # is))\<rparr>,
        accessed_entities := accessed_entities m - set (i # is), entities := entities m |` (- set (i # is))\<rparr>)"
    using Cons.IH [OF _ zero] Cons.prems(1) out
    by (simp add: del Diff_insert2 [symmetric] compl del: fun_upd_apply)
  then show ?case
    using Cons.prems(2) by (simp add: List.map_filter_simps split: option.splits)
next
  case Nil
  have "g |` UNIV = g" for g :: "'a \<rightharpoonup> 'z" by (simp add: restrict_map_def)
  then show ?case by (simp add: List.map_filter_simps)
qed

section \<open>The invariant\<close>

text \<open>Counts: \<open>M\<close> has one id for each strong handle, and \<open>iss\<close> the keys given so far.\<close>

definition count_ok :: "'i entity_ref_counts \<Rightarrow> 'i multiset \<Rightarrow> ('i \<rightharpoonup> nat) \<Rightarrow> 'i \<Rightarrow> bool" where
  "count_ok rc M iss i \<longleftrightarrow>
     (case counts rc i of None \<Rightarrow> count M i = 0 | Some c \<Rightarrow> c = count M i \<and> iss i \<noteq> None) \<and>
     (i \<in> set (dropped_entity_ids rc) \<longleftrightarrow> counts rc i = Some 0)"

definition rc_ok :: "'i entity_ref_counts \<Rightarrow> 'i multiset \<Rightarrow> ('i \<rightharpoonup> nat) \<Rightarrow> bool" where
  "rc_ok rc M iss \<longleftrightarrow> distinct (dropped_entity_ids rc) \<and> (\<forall>i. count_ok rc M iss i)"

lemma rc_okI: "distinct (dropped_entity_ids rc) \<Longrightarrow> (\<And>i. count_ok rc M iss i) \<Longrightarrow> rc_ok rc M iss"
  by (simp add: rc_ok_def)

lemma rc_okD: "rc_ok rc M iss \<Longrightarrow> count_ok rc M iss i"
  by (simp add: rc_ok_def)

lemma rc_ok_reserve:
  assumes ok: "rc_ok rc M iss" and "iss i = None" and "counts rc' = (counts rc)(i \<mapsto> 1)"
    and "dropped_entity_ids rc' = dropped_entity_ids rc"
  shows "rc_ok rc' (add_mset i M) (iss(i \<mapsto> ty))"
proof (rule rc_okI)
  fix j show "count_ok rc' (add_mset i M) (iss(i \<mapsto> ty)) j"
    using assms rc_okD [OF ok, of i] rc_okD [OF ok, of j]
    by (cases "j = i") (auto simp: count_ok_def not_in_iff split: option.splits)
qed (use assms in \<open>simp add: rc_ok_def\<close>)

lemma rc_ok_add:
  assumes ok: "rc_ok rc M iss" and "counts rc i = Some (Suc c)" and "counts rc' = (counts rc)(i \<mapsto> Suc (Suc c))"
    and "dropped_entity_ids rc' = dropped_entity_ids rc"
  shows "rc_ok rc' (add_mset i M) iss"
proof (rule rc_okI)
  fix j show "count_ok rc' (add_mset i M) iss j"
    using assms rc_okD [OF ok, of i] rc_okD [OF ok, of j]
    by (cases "j = i") (auto simp: count_ok_def not_in_iff split: option.splits)
qed (use assms in \<open>simp add: rc_ok_def\<close>)

lemma rc_ok_remove:
  assumes ok: "rc_ok rc (add_mset i M) iss" and "counts rc i = Some (Suc c)" and "counts rc' = (counts rc)(i \<mapsto> c)"
    and "dropped_entity_ids rc' = dropped_entity_ids rc @ (if c = 0 then [i] else [])"
  shows "rc_ok rc' M iss"
proof (rule rc_okI)
  fix j show "count_ok rc' M iss j"
    using assms rc_okD [OF ok, of i] rc_okD [OF ok, of j]
    by (cases "j = i") (auto simp: count_ok_def not_in_iff split: option.splits)
next
  have "i \<notin> set (dropped_entity_ids rc)" using assms(2) rc_okD [OF ok, of i] by (simp add: count_ok_def)
  then show "distinct (dropped_entity_ids rc')" using assms by (simp add: rc_ok_def)
qed

definition typed :: "('i, 'v) client \<Rightarrow> bool" where
  "typed s \<longleftrightarrow>
     (\<forall>e \<in># strong s. issued s (entity_id e) = Some (entity_type e) \<and> entity_map_ref e = Counts) \<and>
     (\<forall>wk \<in> weaks s. issued s (weak_id wk) = Some (weak_type wk) \<and> entity_ref_counts_ref wk = Counts) \<and>
     (\<forall>i t v. entities (em s) i = Some (t, v) \<longrightarrow> issued s i = Some t) \<and>
     (\<forall>(e, l) \<in># leases s. lease_id l = entity_id e \<and> (\<exists>v. lease_entity l = Some (entity_type e, v)))"

text \<open>The places in which an entity can be: a slot waits for it, it is leased, or it is in the map.\<close>

definition places :: "('i, 'v) client \<Rightarrow> 'i \<Rightarrow> nat" where
  "places s i = count (image_mset entity_id (slots s)) i + count (image_mset (\<lambda>(e, l). entity_id e) (leases s)) i +
     (if entities (em s) i = None then 0 else 1)"

definition placed :: "('i, 'v) client \<Rightarrow> bool" where
  "placed s \<longleftrightarrow> (\<forall>i. places s i \<le> 1 \<and> (entities (em s) i \<noteq> None \<longrightarrow> counts (em_rc s) i \<noteq> None))"

definition past :: "('i, 'v) client \<Rightarrow> bool" where
  "past s \<longleftrightarrow> distinct (map fst (released s)) \<and>
     (\<forall>x \<in> set (released s). counts (em_rc s) (fst x) = None \<and> issued s (fst x) \<noteq> None)"

definition client_ok :: "('i, 'v) client \<Rightarrow> bool" where
  "client_ok s \<longleftrightarrow>
     rc_ok (em_rc s) (image_mset entity_id (strong s)) (issued s) \<and> typed s \<and> placed s \<and> past s"

lemma client_ok_init: "client_ok client_init"
  by (simp add: client_ok_def client_init_def strong_def em_new_def rc_ok_def typed_def placed_def places_def past_def count_ok_def)

lemma typed_handle: "typed s \<Longrightarrow> e \<in># strong s \<Longrightarrow> entity_map_ref e = Counts"
  by (simp add: typed_def)

lemmas em_map_defs = em_insert_def em_lease_def em_end_lease_def em_read_def em_extend_accessed_def
  em_clear_accessed_def lease_deref_mut_def

lemma take_dropped_spec:
  assumes "rc_ok (ref_counts m) M iss"
  shows "em_take_dropped debug m =
    Inr (List.map_filter (\<lambda>i. map_option (Pair i) (entities m i)) (dropped_entity_ids (ref_counts m)),
         m\<lparr>ref_counts := (ref_counts m)\<lparr>counts := counts (ref_counts m) |` (- set (dropped_entity_ids (ref_counts m))),
                                          dropped_entity_ids := []\<rparr>,
           accessed_entities := accessed_entities m - set (dropped_entity_ids (ref_counts m)),
           entities := entities m |` (- set (dropped_entity_ids (ref_counts m)))\<rparr>)"
  using assms by (simp add: em_take_dropped_def take_loop_spec rc_ok_def count_ok_def)

lemma rc_ok_take:
  assumes "rc_ok rc M iss"
  shows "rc_ok (rc\<lparr>counts := counts rc |` (- set (dropped_entity_ids rc)), dropped_entity_ids := []\<rparr>) M iss"
  using assms by (auto simp: rc_ok_def count_ok_def restrict_map_def split: option.splits)

lemma step_rc_ok:
  assumes "em_step leak debug s s'" and ok: "client_ok s"
  shows "rc_ok (em_rc s') (image_mset entity_id (strong s')) (issued s')"
  using assms(1)
proof cases
  case (Reserve i ty slot m)
  then show ?thesis
    using ok em_reserve_eq [OF Reserve(3)] rc_ok_reserve [of "em_rc s" _ "issued s" i "ref_counts m"]
    by (simp add: client_ok_def strong_def)
next
  case (Clone e e' rc)
  have "entity_map_ref e = Counts" using ok Clone by (auto simp: client_ok_def intro: typed_handle)
  from ae_clone_Inr [OF Clone(3) this] show ?thesis
    using ok Clone(1) rc_ok_add [of "em_rc s" _ "issued s" "entity_id e"] by (auto simp: client_ok_def strong_def)
next
  case (Drop e H rc)
  have "entity_map_ref e = Counts" using ok Drop by (auto simp: client_ok_def strong_def intro: typed_handle)
  from ae_drop_Inr [OF Drop(3) this] show ?thesis
    using ok Drop(1,2) rc_ok_remove [of "em_rc s" "entity_id e"] by (auto simp: client_ok_def strong_def)
next
  case (Drop_Slot e S rc)
  have "entity_map_ref e = Counts" using ok Drop_Slot by (auto simp: client_ok_def strong_def intro: typed_handle)
  from ae_drop_Inr [OF Drop_Slot(3) this] show ?thesis
    using ok Drop_Slot(1,2) rc_ok_remove [of "em_rc s" "entity_id e"] by (auto simp: client_ok_def strong_def)
next
  case (Upgrade wk e rc)
  have "entity_ref_counts_ref wk = Counts" using ok Upgrade by (auto simp: client_ok_def typed_def)
  from aw_upgrade_Some [OF Upgrade(3) this] show ?thesis
    using ok Upgrade(1) rc_ok_add [of "em_rc s" _ "issued s" "weak_id wk"] by (auto simp: client_ok_def strong_def)
next
  case (Upgrade_None wk rc)
  then show ?thesis using ok aw_upgrade_None [OF Upgrade_None(3)] by (simp add: client_ok_def strong_def)
next
  case (Take_Dropped out m)
  then show ?thesis
    using ok take_dropped_spec [of "em s"] rc_ok_take by (auto simp: client_ok_def strong_def)
qed (use ok in \<open>auto simp: client_ok_def strong_def em_map_defs Let_def split: option.splits if_splits\<close>)

lemma issued_strong: "client_ok s \<Longrightarrow> e \<in># strong s \<Longrightarrow> issued s (entity_id e) = Some (entity_type e)"
  by (simp add: client_ok_def typed_def)

lemma step_typed:
  assumes "em_step leak debug s s'" and ok: "client_ok s"
  shows "typed s'"
  using assms(1)
proof cases
  case (Reserve i ty slot m)
  have new: "j \<noteq> i" if "issued s j = Some t" for j t using that Reserve(2) by auto
  show ?thesis
    using ok em_reserve_eq [OF Reserve(3)] new
    by (fastforce simp: Reserve(1) client_ok_def typed_def strong_def)
next
  case (Clone e e' rc)
  have ref: "entity_map_ref e = Counts" using ok Clone by (auto simp: client_ok_def intro: typed_handle)
  have "issued s (entity_id e) = Some (entity_type e)" using issued_strong [OF ok Clone(2)] .
  then show ?thesis
    using ok ae_clone_Inr [OF Clone(3) ref] ref by (auto simp: Clone(1) client_ok_def typed_def strong_def)
next
  case (Upgrade wk e rc)
  then have ref: "entity_ref_counts_ref wk = Counts" using ok by (auto simp: client_ok_def typed_def)
  then show ?thesis
    using ok Upgrade(2) aw_upgrade_Some [OF Upgrade(3) ref]
    by (auto simp: Upgrade(1) client_ok_def typed_def strong_def)
next
  case (Take_Dropped out m)
  then show ?thesis
    using ok take_dropped_spec [of "em s"]
    by (auto simp: client_ok_def typed_def strong_def restrict_map_def split: if_splits)
next
  case (Downgrade e)
  then show ?thesis
    using ok issued_strong [OF ok Downgrade(2)] by (auto simp: client_ok_def typed_def strong_def ae_downgrade_def)
next
  case (Insert slot S v e m)
  then show ?thesis
    using ok issued_strong [OF ok, of slot]
    by (auto simp: client_ok_def typed_def strong_def em_insert_def split: if_splits)
next
  case (Lease e H l m)
  have "issued s (entity_id e) = Some (entity_type e)" by (rule issued_strong [OF ok]) (simp add: strong_def Lease)
  then show ?thesis
    using ok Lease
    by (auto simp: client_ok_def typed_def strong_def em_lease_def Let_def split: option.splits if_splits)
next
  case (Write e l L f l')
  then show ?thesis
    using ok by (auto simp: client_ok_def typed_def strong_def lease_deref_mut_def split: option.splits if_splits)
next
  case (End_Lease e l L m)
  have "issued s (entity_id e) = Some (entity_type e)" by (rule issued_strong [OF ok]) (simp add: strong_def End_Lease)
  then show ?thesis
    using ok End_Lease
    by (auto simp: client_ok_def typed_def strong_def em_end_lease_def split: option.splits if_splits)
qed (use ok in \<open>auto simp: client_ok_def typed_def strong_def em_map_defs Let_def\<close>)


lemma live_counts:
  assumes "client_ok s"
  shows "counts (em_rc s) i = None \<Longrightarrow> live s i = 0" and "counts (em_rc s) i = Some c \<Longrightarrow> live s i = c"
  using assms rc_okD [of "em_rc s" _ "issued s" i] by (auto simp: client_ok_def count_ok_def live_def)

lemma live_pos: "live s i > 0 \<longleftrightarrow> (\<exists>e \<in># strong s. entity_id e = i)"
  unfolding live_def count_greater_zero_iff by auto

lemma strong_live: "e \<in># strong s \<Longrightarrow> live s (entity_id e) > 0"
  by (auto simp: live_def count_greater_zero_iff simp del: count_image_mset)

lemma strong_counts:
  assumes "client_ok s" and "e \<in># strong s"
  obtains c where "counts (em_rc s) (entity_id e) = Some (Suc c)"
  using live_counts [OF assms(1), of "entity_id e"] strong_live [OF assms(2)]
  by (cases "counts (em_rc s) (entity_id e)") (auto simp: gr0_conv_Suc)

lemma fresh_places:
  assumes ok: "client_ok s" and new: "issued s i = None"
  shows "places s i = 0" and "counts (em_rc s) i = None"
proof -
  have "entity_id e \<noteq> i" if "e \<in># strong s" for e using issued_strong [OF ok that] new by auto
  then have "i \<notin># image_mset entity_id (slots s)" "i \<notin># image_mset (\<lambda>(e, l). entity_id e) (leases s)"
    by (force simp: strong_def)+
  moreover have "entities (em s) i = None"
    using ok new by (cases "entities (em s) i") (auto simp: client_ok_def typed_def)
  ultimately show "places s i = 0" unfolding places_def not_in_iff by (simp del: count_image_mset)
  show "counts (em_rc s) i = None"
    using ok new rc_okD [of "em_rc s" _ "issued s" i]
    by (cases "counts (em_rc s) i") (auto simp: client_ok_def count_ok_def)
qed

lemma placedD:
  "client_ok s \<Longrightarrow> places s i \<le> 1 \<and> (entities (em s) i \<noteq> None \<longrightarrow> counts (em_rc s) i \<noteq> None)"
  by (simp add: client_ok_def placed_def)

lemma step_placed:
  assumes "em_step leak debug s s'" and ok: "client_ok s"
  shows "placed s'"
  unfolding placed_def
proof
  fix i
  note old = placedD [OF ok, of i]
  from assms(1) show "places s' i \<le> 1 \<and> (entities (em s') i \<noteq> None \<longrightarrow> counts (em_rc s') i \<noteq> None)"
  proof cases
    case (Reserve j ty slot m)
    then show ?thesis
      using old em_reserve_eq [OF Reserve(3)] fresh_places [OF ok Reserve(2)]
      by (cases "i = j") (auto simp: places_def simp del: count_image_mset)
  next
    case (Insert slot S v e m)
    have "slot \<in># strong s" by (simp add: strong_def Insert)
    then obtain c where "counts (em_rc s) (entity_id slot) = Some (Suc c)" by (rule strong_counts [OF ok])
    then show ?thesis
      using old Insert by (cases "i = entity_id slot") (auto simp: places_def em_insert_def simp del: count_image_mset)
  next
    case (Clone e e' rc)
    have "entity_map_ref e = Counts" using ok Clone by (auto simp: client_ok_def intro: typed_handle)
    from ae_clone_Inr [OF Clone(3) this] show ?thesis
      using old by (auto simp: Clone(1) places_def simp del: count_image_mset)
  next
    case (Drop e H rc)
    have "entity_map_ref e = Counts" using ok Drop by (auto simp: client_ok_def strong_def intro: typed_handle)
    from ae_drop_Inr [OF Drop(3) this] show ?thesis
      using old by (auto simp: Drop(1) places_def simp del: count_image_mset)
  next
    case (Drop_Slot e S rc)
    have "entity_map_ref e = Counts" using ok Drop_Slot by (auto simp: client_ok_def strong_def intro: typed_handle)
    from ae_drop_Inr [OF Drop_Slot(3) this] show ?thesis
      using old Drop_Slot(2) by (auto simp: Drop_Slot(1) places_def simp del: count_image_mset split: if_splits)
  next
    case (Upgrade wk e rc)
    have "entity_ref_counts_ref wk = Counts" using ok Upgrade by (auto simp: client_ok_def typed_def)
    from aw_upgrade_Some [OF Upgrade(3) this] show ?thesis
      using old by (auto simp: Upgrade(1) places_def simp del: count_image_mset)
  next
    case (Upgrade_None wk rc)
    then show ?thesis using old aw_upgrade_None [OF Upgrade_None(3)] by (simp add: places_def)
  next
    case (Lease e H l m)
    then show ?thesis
      using old by (auto simp: places_def em_lease_def Let_def simp del: count_image_mset split: option.splits if_splits)
  next
    case (Write e l L f l')
    then show ?thesis using old by (auto simp: places_def simp del: count_image_mset)
  next
    case (End_Lease e l L m)
    have "e \<in># strong s" by (simp add: strong_def End_Lease)
    then obtain c where "counts (em_rc s) (entity_id e) = Some (Suc c)" by (rule strong_counts [OF ok])
    moreover have "lease_id l = entity_id e" using ok End_Lease(2) by (auto simp: client_ok_def typed_def)
    ultimately show ?thesis
      using old End_Lease
      by (cases "i = entity_id e")
        (auto simp: places_def em_end_lease_def simp del: count_image_mset split: option.splits if_splits)
  next
    case (Take_Dropped out m)
    then show ?thesis
      using old ok take_dropped_spec [of "em s"]
      by (auto simp: client_ok_def places_def restrict_map_def simp del: count_image_mset split: if_splits)
  qed (use old in \<open>auto simp: places_def em_map_defs Let_def simp del: count_image_mset\<close>)
qed

text \<open>A key whose count is removed is not counted again.\<close>

lemma step_uncounted:
  assumes "em_step leak debug s s'" and ok: "client_ok s"
    and "issued s i \<noteq> None" and "counts (em_rc s) i = None"
  shows "counts (em_rc s') i = None"
  using assms(1)
proof cases
  case (Reserve j ty slot m)
  then show ?thesis using assms(3,4) em_reserve_eq [OF Reserve(3)] by auto
next
  case (Clone e e' rc)
  have "entity_map_ref e = Counts" using ok Clone by (auto simp: client_ok_def intro: typed_handle)
  from ae_clone_Inr [OF Clone(3) this] show ?thesis using assms(4) Clone(1) by auto
next
  case (Drop e H rc)
  have "entity_map_ref e = Counts" using ok Drop by (auto simp: client_ok_def strong_def intro: typed_handle)
  from ae_drop_Inr [OF Drop(3) this] show ?thesis using assms(4) Drop(1) by auto
next
  case (Drop_Slot e S rc)
  have "entity_map_ref e = Counts" using ok Drop_Slot by (auto simp: client_ok_def strong_def intro: typed_handle)
  from ae_drop_Inr [OF Drop_Slot(3) this] show ?thesis using assms(4) Drop_Slot(1) by auto
next
  case (Upgrade wk e rc)
  have "entity_ref_counts_ref wk = Counts" using ok Upgrade by (auto simp: client_ok_def typed_def)
  from aw_upgrade_Some [OF Upgrade(3) this] show ?thesis using assms(4) Upgrade(1) by auto
next
  case (Upgrade_None wk rc)
  then show ?thesis using assms(4) aw_upgrade_None [OF Upgrade_None(3)] by simp
next
  case (Take_Dropped out m)
  then show ?thesis
    using ok take_dropped_spec [of "em s"] assms(4) by (auto simp: client_ok_def restrict_map_def)
qed (use assms(4) in \<open>auto simp: em_map_defs Let_def split: option.splits if_splits\<close>)

lemma step_issued: "em_step leak debug s s' \<Longrightarrow> issued s i = Some t \<Longrightarrow> issued s' i = Some t"
  by (cases rule: em_step.cases) auto

lemma map_fst_taken:
  "map fst (List.map_filter (\<lambda>i. map_option (Pair i) (g i)) is) = filter (\<lambda>i. g i \<noteq> None) is"
  by (induction "is") (auto simp: List.map_filter_simps split: option.splits)

lemma step_past:
  assumes step: "em_step leak debug s s'" and ok: "client_ok s"
  shows "past s'"
proof (cases "released s' = released s")
  case True
  have "counts (em_rc s') (fst x) = None \<and> issued s' (fst x) \<noteq> None" if "x \<in> set (released s)" for x
    using that ok step_uncounted [OF step ok, of "fst x"] step_issued [OF step, of "fst x"]
    by (auto simp: client_ok_def past_def)
  then show ?thesis using True ok by (auto simp: past_def client_ok_def)
next
  case False
  from step show ?thesis
  proof cases
    case (Take_Dropped out m)
    let ?d = "dropped_entity_ids (em_rc s)"
    have rc: "rc_ok (em_rc s) (image_mset entity_id (strong s)) (issued s)" using ok by (simp add: client_ok_def)
    have out: "map fst out = filter (\<lambda>i. entities (em s) i \<noteq> None) ?d"
      and cnt: "counts (ref_counts m) = counts (em_rc s) |` (- set ?d)"
      using Take_Dropped(2) take_dropped_spec [OF rc] by (auto simp: map_fst_taken)
    have d: "counts (em_rc s) i = Some 0 \<and> issued s i \<noteq> None" if "i \<in> set ?d" for i
      using rc_okD [OF rc, of i] that by (auto simp: count_ok_def)
    have "fst ` set out \<subseteq> set ?d" using out by (metis filter_is_subset list.set_map)
    moreover have "distinct (map fst out)" using out rc by (simp add: rc_ok_def)
    moreover have "fst ` set (released s) \<inter> set ?d = {}"
      using ok d by (fastforce simp: client_ok_def past_def)
    ultimately show ?thesis
      using ok d unfolding Take_Dropped(1)
      by (fastforce simp: client_ok_def past_def cnt restrict_map_def)
  qed (use False in auto)
qed

lemma step_client_ok: "em_step leak debug s s' \<Longrightarrow> client_ok s \<Longrightarrow> client_ok s'"
  using step_rc_ok step_typed step_placed step_past by (metis client_ok_def)

interpretation entity_life: transition_invariant "\<lambda>s. s = client_init" "em_step leak debug" client_ok for leak debug
  by unfold_locales (auto simp: client_ok_init intro: step_client_ok)

section \<open>The leak detector\<close>

definition ld_ok :: "'i leak_detector \<Rightarrow> 'i any_entity multiset \<Rightarrow> bool" where
  "ld_ok d M \<longleftrightarrow>
     (\<forall>i. handles_of d i = {h. \<exists>e \<in># M. entity_id e = i \<and> handle_id e = h}) \<and>
     (\<forall>e \<in># M. handle_id e < next_handle_id d) \<and>
     (\<forall>e N. M = add_mset e N \<longrightarrow> (\<forall>e' \<in># N. handle_id e' \<noteq> handle_id e))"

lemma ld_ok_created:
  assumes ok: "ld_ok d M" and "handle_created (entity_id e) d = (handle_id e, d')"
  shows "ld_ok d' (add_mset e M)"
proof -
  have d': "next_handle_id d' = Suc (handle_id e)" "handle_id e = next_handle_id d"
    "handles_of d' i = (if i = entity_id e then insert (handle_id e) (handles_of d i) else handles_of d i)" for i
    using assms(2) by (auto simp: handle_created_def Let_def handles_of_def)
  have new: "handle_id e' < handle_id e" if "e' \<in># M" for e'
    using ok that d'(2) by (simp add: ld_ok_def)
  have uniq: "handle_id e' \<noteq> handle_id e1" if eq: "add_mset e M = add_mset e1 N" and e': "e' \<in># N" for e1 N e'
  proof (cases "e1 = e")
    case True
    then show ?thesis using eq e' new [of e'] by auto
  next
    case False
    then obtain K where K: "M = add_mset e1 K" "N = add_mset e K"
      using eq by (auto simp: add_eq_conv_ex)
    then have "handle_id e'' \<noteq> handle_id e1" if "e'' \<in># K" for e'' using ok that unfolding ld_ok_def by blast
    then show ?thesis
      using e' new [of e1] K by auto
  qed
  show ?thesis
    unfolding ld_ok_def
  proof (intro conjI)
    show "\<forall>i. handles_of d' i = {h. \<exists>e' \<in># add_mset e M. entity_id e' = i \<and> handle_id e' = h}"
      using ok by (auto simp: ld_ok_def d'(3))
    show "\<forall>e' \<in># add_mset e M. handle_id e' < next_handle_id d'"
      using new by (auto simp: d'(1) less_Suc_eq)
  qed (use uniq in blast)
qed

lemma ld_ok_released:
  assumes ok: "ld_ok d (add_mset e M)"
  shows "ld_ok (handle_released (entity_id e) (handle_id e) d) M"
proof -
  have other: "handle_id e' \<noteq> handle_id e" if "e' \<in># M" for e' using ok that by (auto simp: ld_ok_def)
  have uniq: "handle_id e' \<noteq> handle_id e1" if "M = add_mset e1 N" "e' \<in># N" for e1 N e'
  proof -
    have "add_mset e M = add_mset e1 (add_mset e N)" using that(1) by (simp add: add_mset_commute)
    then show ?thesis using ok that(2) by (auto simp: ld_ok_def)
  qed
  show ?thesis
    unfolding ld_ok_def
  proof (intro conjI)
    show "\<forall>i. handles_of (handle_released (entity_id e) (handle_id e) d) i =
        {h. \<exists>e' \<in># M. entity_id e' = i \<and> handle_id e' = h}"
      using ok other by (auto simp: ld_ok_def handle_released_def handles_of_def)
    show "\<forall>e' \<in># M. handle_id e' < next_handle_id (handle_released (entity_id e) (handle_id e) d)"
      using ok by (auto simp: ld_ok_def handle_released_def)
  qed (use uniq in blast)
qed

lemma new_handle_created:
  "handle_created i (leak_detector rc) = (fst (new_handle_id True i rc), leak_detector (snd (new_handle_id True i rc)))"
  by (simp add: new_handle_id_def case_prod_unfold Let_def)

lemma strong_add_handle: "strong (s\<lparr>handles := add_mset e (handles s)\<rparr>) = add_mset e (strong s)"
  by (simp add: strong_def)

lemma step_leak:
  assumes "em_step True debug s s'" and ok: "client_ok s" and ld: "ld_ok (leak_detector (em_rc s)) (strong s)"
  shows "ld_ok (leak_detector (em_rc s')) (strong s')"
  using assms(1)
proof cases
  case (Reserve i ty slot m)
  have "handle_created (entity_id slot) (leak_detector (em_rc s)) = (handle_id slot, leak_detector (ref_counts m))"
    using em_reserve_eq [OF Reserve(3)] by (simp add: new_handle_created)
  from ld_ok_created [OF ld this] show ?thesis by (simp add: Reserve(1) strong_def)
next
  case (Clone e e' rc)
  have "entity_map_ref e = Counts" using ok Clone by (auto simp: client_ok_def intro: typed_handle)
  from ae_clone_Inr [OF Clone(3) this]
  have "handle_created (entity_id e') (leak_detector (em_rc s)) = (handle_id e', leak_detector rc)"
    by (auto simp: new_handle_created)
  from ld_ok_created [OF ld this] show ?thesis by (simp add: Clone(1) strong_def)
next
  case (Drop e H rc)
  have "entity_map_ref e = Counts" using ok Drop by (auto simp: client_ok_def strong_def intro: typed_handle)
  from ae_drop_Inr [OF Drop(3) this] show ?thesis
    using ld Drop(2) ld_ok_released [of _ e "H + slots s + image_mset fst (leases s)"]
    by (auto simp: Drop(1) strong_def)
next
  case (Drop_Slot e S rc)
  have "entity_map_ref e = Counts" using ok Drop_Slot by (auto simp: client_ok_def strong_def intro: typed_handle)
  from ae_drop_Inr [OF Drop_Slot(3) this] show ?thesis
    using ld Drop_Slot(2) ld_ok_released [of _ e "handles s + S + image_mset fst (leases s)"]
    by (auto simp: Drop_Slot(1) strong_def)
next
  case (Upgrade wk e rc)
  have "entity_ref_counts_ref wk = Counts" using ok Upgrade by (auto simp: client_ok_def typed_def)
  from aw_upgrade_Some [OF Upgrade(3) this]
  have "handle_created (entity_id e) (leak_detector (em_rc s)) = (handle_id e, leak_detector rc)"
    by (auto simp: new_handle_created)
  from ld_ok_created [OF ld this] show ?thesis by (simp add: Upgrade(1) strong_def)
next
  case (Upgrade_None wk rc)
  then show ?thesis using ld aw_upgrade_None [OF Upgrade_None(3)] by (simp add: strong_def)
next
  case (Take_Dropped out m)
  then show ?thesis
    using ld ok take_dropped_spec [of "em s"] by (auto simp: client_ok_def strong_def)
qed (use ld in \<open>auto simp: strong_def em_map_defs Let_def split: option.splits if_splits\<close>)

lemma ld_ok_init: "ld_ok (leak_detector (em_rc client_init)) (strong client_init)"
  by (simp add: client_init_def strong_def em_new_def ld_ok_def handles_of_def)

interpretation leak_life: transition_invariant "\<lambda>s. s = client_init" "em_step True debug"
  "\<lambda>s. client_ok s \<and> ld_ok (leak_detector (em_rc s)) (strong s)" for debug
  by unfold_locales (auto simp: client_ok_init ld_ok_init intro: step_client_ok step_leak)

section \<open>Two states of a program\<close>

text \<open>
  An entity of type 4 with key 0 and value 42, with a strong and a weak handle; the same after the
  strong handle is dropped.
\<close>

definition sample_handle :: "nat any_entity" where
  "sample_handle = \<lparr>entity_id = 0, entity_type = 4, entity_map_ref = Counts, handle_id = 0\<rparr>"

definition sample_weak :: "nat any_weak" where
  "sample_weak = \<lparr>weak_id = 0, weak_type = 4, entity_ref_counts_ref = Counts\<rparr>"

definition sample_live :: "(nat, int) client" where
  "sample_live = \<lparr>em = \<lparr>entities = [0 \<mapsto> (4, 42)], accessed_entities = {0},
       ref_counts = \<lparr>counts = [0 \<mapsto> 1], dropped_entity_ids = [],
                     leak_detector = \<lparr>next_handle_id = 1, entity_handles = [0 \<mapsto> {0}]\<rparr>\<rparr>\<rparr>,
     handles = {#sample_handle#}, slots = {#}, leases = {#}, weaks = {sample_weak}, issued = [0 \<mapsto> 4], released = []\<rparr>"

definition sample_dropped :: "(nat, int) client" where
  "sample_dropped = \<lparr>em = \<lparr>entities = [0 \<mapsto> (4, 42)], accessed_entities = {0},
       ref_counts = \<lparr>counts = [0 \<mapsto> 0], dropped_entity_ids = [0],
                     leak_detector = \<lparr>next_handle_id = 1, entity_handles = [0 \<mapsto> {}]\<rparr>\<rparr>\<rparr>,
     handles = {#}, slots = {#}, leases = {#}, weaks = {sample_weak}, issued = [0 \<mapsto> 4], released = []\<rparr>"

lemma sample_live_reachable: "(em_step True debug)\<^sup>*\<^sup>* client_init sample_live"
proof -
  let ?m0 = "em_new :: (nat, int) entity_map"
  let ?m1 = "snd (em_reserve True 0 4 ?m0)"
  let ?s1 = "client_init\<lparr>em := ?m1, slots := {#sample_handle#}, issued := [0 \<mapsto> 4]\<rparr>"
  let ?s2 = "?s1\<lparr>em := snd (em_insert sample_handle 42 ?m1), slots := {#}, handles := {#sample_handle#}\<rparr>"
  have a: "em_step True debug client_init ?s1"
    using em_step.Reserve [of client_init 0 True 4 sample_handle ?m1]
    by (simp add: client_init_def em_reserve_def ae_new_def new_handle_id_def handle_created_def em_new_def
        sample_handle_def)
  have b: "em_step True debug ?s1 ?s2"
    using em_step.Insert [of ?s1 sample_handle "{#}" 42 sample_handle "snd (em_insert sample_handle 42 ?m1)"]
    by (simp add: client_init_def em_insert_def)
  have c: "em_step True debug ?s2 (?s2\<lparr>weaks := insert (ae_downgrade sample_handle) (weaks ?s2)\<rparr>)"
    by (rule em_step.Downgrade) (simp add: strong_def)
  have d: "?s2\<lparr>weaks := insert (ae_downgrade sample_handle) (weaks ?s2)\<rparr> = sample_live"
    by (simp add: sample_live_def client_init_def ae_downgrade_def sample_handle_def sample_weak_def em_insert_def
        em_reserve_def ae_new_def new_handle_id_def handle_created_def handles_of_def em_new_def)
  have "(em_step True debug)\<^sup>*\<^sup>* client_init ?s1" using a by (rule r_into_rtranclp)
  from this b have "(em_step True debug)\<^sup>*\<^sup>* client_init ?s2" by (rule rtranclp.rtrancl_into_rtrancl)
  from this c [unfolded d] show ?thesis by (rule rtranclp.rtrancl_into_rtrancl)
qed

lemma sample_dropped_reachable: "(em_step True debug)\<^sup>*\<^sup>* client_init sample_dropped"
proof -
  have "em_step True debug sample_live sample_dropped"
    using em_step.Drop [of sample_live sample_handle "{#}" True "em_rc sample_dropped" debug]
    by (simp add: sample_live_def sample_dropped_def sample_handle_def ae_drop_def rc_upgrade_def
        handle_released_def handles_of_def)
  with sample_live_reachable show ?thesis by (rule rtranclp.rtrancl_into_rtrancl)
qed

section \<open>Properties\<close>

text \<open>
  C4. In every state that a program reaches, the count of an entity is the number of its strong handles. No
  operation on what the program holds panics: cloning or dropping a handle, ending a lease, taking the
  dropped entities. An entity waits for release exactly if its count is zero.
\<close>

theorem no_over_release:
  assumes "(em_step leak debug)\<^sup>*\<^sup>* client_init s"
  shows "(\<forall>i. counts (em_rc s) i = (if live s i > 0 then Some (live s i)
             else if i \<in> set (dropped_entity_ids (em_rc s)) then Some 0 else None)) \<and>
    (\<forall>e \<in># strong s. (\<exists>e' rc. ae_clone leak e (Some (em_rc s)) = Inr (e', Some rc)) \<and>
       (\<exists>rc. ae_drop leak e (Some (em_rc s)) = Inr (Some rc))) \<and>
    (\<forall>(e, l) \<in># leases s. \<exists>m. em_end_lease l (em s) = Inr m) \<and>
    (\<exists>r. em_take_dropped debug (em s) = Inr r)"
proof (intro conjI allI ballI)
  have ok: "client_ok s" by (rule entity_life.inv_reachable [OF refl assms])
  then have rc: "rc_ok (em_rc s) (image_mset entity_id (strong s)) (issued s)" by (simp add: client_ok_def)
  show "counts (em_rc s) i = (if live s i > 0 then Some (live s i)
      else if i \<in> set (dropped_entity_ids (em_rc s)) then Some 0 else None)" for i
    using live_counts [OF ok, of i] rc_okD [OF rc, of i]
    by (cases "counts (em_rc s) i") (auto simp: count_ok_def)
  show "\<exists>r. em_take_dropped debug (em s) = Inr r" using take_dropped_spec [OF rc] by blast
  fix e assume e: "e \<in># strong s"
  obtain c where "counts (em_rc s) (entity_id e) = Some (Suc c)" by (rule strong_counts [OF ok e])
  moreover have "entity_map_ref e = Counts" using ok e by (auto simp: client_ok_def intro: typed_handle)
  ultimately show "\<exists>e' rc. ae_clone leak e (Some (em_rc s)) = Inr (e', Some rc)"
    and "\<exists>rc. ae_drop leak e (Some (em_rc s)) = Inr (Some rc)"
    by (simp_all add: ae_clone_def ae_drop_def rc_upgrade_def case_prod_unfold Let_def)
next
  have "client_ok s" by (rule entity_life.inv_reachable [OF refl assms])
  fix x assume "x \<in># leases s"
  with \<open>client_ok s\<close> show "case x of (e, l) \<Rightarrow> \<exists>m. em_end_lease l (em s) = Inr m"
    by (auto simp: client_ok_def typed_def em_end_lease_def)
qed

theorem no_over_release_witness:
  "\<exists>e' rc. ae_clone True sample_handle (Some (em_rc sample_live)) = Inr (e', Some rc)"
  using no_over_release [OF sample_live_reachable]
  by (simp add: strong_def sample_live_def)

text \<open>
  C5. Entities are released once, and not before their last strong handle is dropped: in every state reached, no key
  occurs twice among the released entities, and none of them has a handle or is in the map. Taking the
  dropped entities gives those that wait for release and have a value, in the order in which they were dropped, and
  leaves in the map exactly the entities that have a strong handle, with their values.
\<close>

theorem released_once:
  assumes "(em_step leak debug)\<^sup>*\<^sup>* client_init s"
  shows "distinct (map fst (released s)) \<and>
    (\<forall>(i, b) \<in> set (released s). live s i = 0 \<and> entities (em s) i = None) \<and>
    (\<exists>out m. em_take_dropped debug (em s) = Inr (out, m) \<and>
       out = List.map_filter (\<lambda>i. map_option (Pair i) (entities (em s) i)) (dropped_entity_ids (em_rc s)) \<and>
       (\<forall>i. entities m i = (if live s i > 0 then entities (em s) i else None)) \<and>
       dropped_entity_ids (ref_counts m) = [] \<and> (\<forall>i. counts (ref_counts m) i \<noteq> None \<longleftrightarrow> live s i > 0))"
proof -
  have ok: "client_ok s" by (rule entity_life.inv_reachable [OF refl assms])
  then have rc: "rc_ok (em_rc s) (image_mset entity_id (strong s)) (issued s)" by (simp add: client_ok_def)
  have pend: "i \<in> set (dropped_entity_ids (em_rc s)) \<longleftrightarrow> counts (em_rc s) i = Some 0" for i
    using rc_okD [OF rc, of i] by (simp add: count_ok_def)
  have cnt: "live s i > 0 \<longleftrightarrow> counts (em_rc s) i \<noteq> None \<and> i \<notin> set (dropped_entity_ids (em_rc s))" for i
    using live_counts [OF ok, of i] pend [of i] by (cases "counts (em_rc s) i") auto
  have ent: "entities (em s) i = None" if "counts (em_rc s) i = None" for i
    using placedD [OF ok, of i] that by (cases "entities (em s) i") auto
  have "distinct (map fst (released s))" and
    "\<forall>(i, b) \<in> set (released s). live s i = 0 \<and> entities (em s) i = None"
    using ok ent live_counts(1) [OF ok] by (auto simp: client_ok_def past_def)
  then show ?thesis
    using take_dropped_spec [OF rc, of debug] cnt ent by (auto simp: restrict_map_def)
qed

theorem released_once_witness:
  "\<exists>m. em_take_dropped True (em sample_dropped) = Inr ([(0, 4, 42)], m)"
  using released_once [OF sample_dropped_reachable [of True]]
  by (auto simp: sample_dropped_def List.map_filter_simps)

text \<open>A key that was given and has no strong handle gets none again.\<close>

lemma step_dead:
  assumes step: "em_step leak debug s s'" and ok: "client_ok s"
    and iss: "issued s i \<noteq> None" and dead: "live s i = 0"
  shows "live s' i = 0"
proof -
  have cnt: "counts (em_rc s) i \<noteq> Some (Suc c)" for c using live_counts(2) [OF ok, of i "Suc c"] dead by auto
  have no: "e \<notin># strong s" if "entity_id e = i" for e using strong_live [of e s] dead that by auto
  from step show ?thesis
  proof cases
    case (Reserve j ty slot m)
    then have "entity_id slot \<noteq> i" using iss em_reserve_eq [OF Reserve(3)] by auto
    then show ?thesis using dead by (simp add: Reserve(1) live_def strong_def)
  next
    case (Clone e e' rc)
    have ref: "entity_map_ref e = Counts" using ok Clone by (auto simp: client_ok_def intro: typed_handle)
    have "entity_id e \<noteq> i" using no Clone(2) by auto
    then have "entity_id e' \<noteq> i" using ae_clone_Inr [OF Clone(3) ref] by auto
    then show ?thesis using dead by (simp add: Clone(1) live_def strong_def)
  next
    case (Upgrade wk e rc)
    have ref: "entity_ref_counts_ref wk = Counts" using ok Upgrade by (auto simp: client_ok_def typed_def)
    obtain c where "counts (em_rc s) (weak_id wk) = Some (Suc c)" "entity_id e = weak_id wk"
      using aw_upgrade_Some [OF Upgrade(3) ref] by auto
    then have "entity_id e \<noteq> i" using cnt [of c] by auto
    then show ?thesis using dead by (simp add: Upgrade(1) live_def strong_def)
  qed (use dead in \<open>auto simp: live_def strong_def em_insert_def simp del: count_image_mset split: if_splits\<close>)
qed

lemma steps_dead:
  "(em_step leak debug)\<^sup>*\<^sup>* s s' \<Longrightarrow> client_ok s \<Longrightarrow> issued s i \<noteq> None \<Longrightarrow> live s i = 0 \<Longrightarrow>
     client_ok s' \<and> issued s' i \<noteq> None \<and> live s' i = 0"
proof (induction rule: rtranclp_induct)
  case (step s1 s2)
  then show ?case using step_client_ok step_dead step_issued [OF step(2), of i] by fastforce
qed blast

lemma upgrade_iff:
  assumes ok: "client_ok s" and "entity_ref_counts_ref wk = Counts"
  shows "fst (aw_upgrade leak wk (Some (em_rc s))) \<noteq> None \<longleftrightarrow> live s (weak_id wk) > 0"
    and "aw_is_upgradable wk (Some (em_rc s)) \<longleftrightarrow> live s (weak_id wk) > 0"
  using assms(2) live_counts [OF ok, of "weak_id wk"]
  by (auto simp: aw_upgrade_def aw_is_upgradable_def rc_upgrade_def Let_def atomic_incr_if_not_zero_def
      case_prod_unfold split: option.splits)

text \<open>
  C7. A weak handle can be upgraded exactly while its entity has a strong handle, which is also what \<open>is_upgradable\<close>
  tells; the new handle has the key and the type of the weak one. When the last strong handle is dropped, and
  already before the entity is released, the weak handle cannot be upgraded any more, whatever happens later.
\<close>

theorem weak_upgrade_spec:
  assumes "(em_step leak debug)\<^sup>*\<^sup>* client_init s" and wk: "wk \<in> weaks s"
  shows "(fst (aw_upgrade leak wk (Some (em_rc s))) \<noteq> None \<longleftrightarrow> live s (weak_id wk) > 0) \<and>
    (aw_is_upgradable wk (Some (em_rc s)) \<longleftrightarrow> live s (weak_id wk) > 0) \<and>
    (\<forall>e rcs. aw_upgrade leak wk (Some (em_rc s)) = (Some e, rcs) \<longrightarrow>
       entity_id e = weak_id wk \<and> entity_type e = weak_type wk) \<and>
    (\<forall>s'. live s (weak_id wk) = 0 \<and> (em_step leak debug)\<^sup>*\<^sup>* s s' \<longrightarrow>
       fst (aw_upgrade leak wk (Some (em_rc s'))) = None)"
proof (intro conjI allI impI)
  have ok: "client_ok s" by (rule entity_life.inv_reachable [OF refl assms(1)])
  then have ref: "entity_ref_counts_ref wk = Counts" and iss: "issued s (weak_id wk) \<noteq> None"
    using wk by (auto simp: client_ok_def typed_def)
  show "fst (aw_upgrade leak wk (Some (em_rc s))) \<noteq> None \<longleftrightarrow> live s (weak_id wk) > 0"
    and "aw_is_upgradable wk (Some (em_rc s)) \<longleftrightarrow> live s (weak_id wk) > 0"
    by (rule upgrade_iff [OF ok ref])+
  fix s' assume "live s (weak_id wk) = 0 \<and> (em_step leak debug)\<^sup>*\<^sup>* s s'"
  then have "client_ok s'" "live s' (weak_id wk) = 0" using steps_dead [OF _ ok iss] by auto
  then show "fst (aw_upgrade leak wk (Some (em_rc s'))) = None" using upgrade_iff(1) [of s' wk leak] ref by simp
next
  fix e rcs assume up: "aw_upgrade leak wk (Some (em_rc s)) = (Some e, rcs)"
  show "entity_id e = weak_id wk" "entity_type e = weak_type wk"
    using up by (auto simp: aw_upgrade_def Let_def case_prod_unfold split: option.splits if_splits)
qed

theorem weak_upgrade_spec_witness:
  "fst (aw_upgrade True sample_weak (Some (em_rc sample_live))) \<noteq> None \<and>
   fst (aw_upgrade True sample_weak (Some (em_rc sample_dropped))) = None"
  using weak_upgrade_spec [OF sample_live_reachable, of sample_weak True]
    weak_upgrade_spec [OF sample_dropped_reachable, of sample_weak True]
  by (simp add: live_def strong_def sample_live_def sample_dropped_def sample_handle_def sample_weak_def)

text \<open>
  C8. Types and exclusive access. In every state reached, an entity is in at most one place: waited for by its slot, leased, or
  in the map. Reading through a handle gives the value in the map and never fails for its type; a leased
  entity has the type of the handle it was leased with, and reading or leasing it once more panics.
\<close>

theorem entity_access:
  assumes "(em_step leak debug)\<^sup>*\<^sup>* client_init s"
  shows "(\<forall>i. places s i \<le> 1) \<and>
    (\<forall>e \<in># handles s. \<forall>t v. entities (em s) (entity_id e) = Some (t, v) \<longrightarrow>
       t = entity_type e \<and> fst (em_read e (em s)) = Inr v) \<and>
    (\<forall>(e, l) \<in># leases s. (\<exists>v. lease_deref (entity_type e) l = Inr v) \<and>
       (\<forall>e' \<in># strong s. entity_id e' = entity_id e \<longrightarrow> entity_type e' = entity_type e \<and>
          fst (em_read e' (em s)) = Inl (DoubleLease ''read'') \<and>
          em_lease e' (em s) = Inl (DoubleLease ''update'')))"
proof -
  have ok: "client_ok s" by (rule entity_life.inv_reachable [OF refl assms])
  have one: "places s i \<le> 1" for i using placedD [OF ok] by simp
  have "t = entity_type e \<and> fst (em_read e (em s)) = Inr v"
    if "e \<in># handles s" "entities (em s) (entity_id e) = Some (t, v)" for e t v
    using that ok issued_strong [OF ok, of e] by (auto simp: strong_def client_ok_def typed_def em_read_def Let_def)
  moreover have "(\<exists>v. lease_deref (entity_type e) l = Inr v) \<and>
      (\<forall>e' \<in># strong s. entity_id e' = entity_id e \<longrightarrow> entity_type e' = entity_type e \<and>
         fst (em_read e' (em s)) = Inl (DoubleLease ''read'') \<and> em_lease e' (em s) = Inl (DoubleLease ''update''))"
    if l: "(e, l) \<in># leases s" for e l
  proof -
    obtain L where L: "leases s = add_mset (e, l) L" using l by (metis multi_member_split)
    then have "entities (em s) (entity_id e) = None"
      using one [of "entity_id e"] by (auto simp: places_def simp del: count_image_mset split: if_splits)
    then have away: "entity_id e' = entity_id e \<Longrightarrow> fst (em_read e' (em s)) = Inl (DoubleLease ''read'') \<and>
        em_lease e' (em s) = Inl (DoubleLease ''update'')" for e'
      by (simp add: em_read_def em_lease_def Let_def)
    have "e \<in># strong s" using L by (simp add: strong_def)
    then have "entity_type e' = entity_type e" if "e' \<in># strong s" "entity_id e' = entity_id e" for e'
      using issued_strong [OF ok that(1)] issued_strong [OF ok, of e] that(2) by simp
    moreover obtain v where "lease_entity l = Some (entity_type e, v)"
      using ok l by (auto simp: client_ok_def typed_def)
    then have "lease_deref (entity_type e) l = Inr v" by (simp add: lease_deref_def)
    ultimately show ?thesis using away by blast
  qed
  ultimately show ?thesis using one by blast
qed

theorem entity_access_witness: "fst (em_read sample_handle (em sample_live)) = Inr 42"
  using entity_access [OF sample_live_reachable]
  by (simp add: sample_live_def sample_handle_def)

text \<open>
  \<open>assert_released\<close> with leak detection: it panics as a leak exactly if the entity has a strong handle, panics with the other
  message exactly if the entity waits for release, and returns exactly if the entity is gone.
\<close>

theorem assert_released_spec:
  assumes "(em_step True debug)\<^sup>*\<^sup>* client_init s" and wk: "wk \<in> weaks s"
  shows "(aw_assert_released True wk (Some (em_rc s)) = Inl Leaked \<longleftrightarrow> live s (weak_id wk) > 0) \<and>
    (aw_assert_released True wk (Some (em_rc s)) = Inl StillAlive \<longleftrightarrow>
       weak_id wk \<in> set (dropped_entity_ids (em_rc s))) \<and>
    ((\<exists>rcs. aw_assert_released True wk (Some (em_rc s)) = Inr rcs) \<longleftrightarrow> counts (em_rc s) (weak_id wk) = None)"
proof -
  have "client_ok s \<and> ld_ok (leak_detector (em_rc s)) (strong s)"
    by (rule leak_life.inv_reachable [OF refl assms(1)])
  then have ok: "client_ok s" and ld: "ld_ok (leak_detector (em_rc s)) (strong s)" by auto
  have ref: "entity_ref_counts_ref wk = Counts" using ok wk by (auto simp: client_ok_def typed_def)
  have "handles_of (leak_detector (em_rc s)) (weak_id wk) \<noteq> {} \<longleftrightarrow> live s (weak_id wk) > 0"
    using ld unfolding ld_ok_def live_pos by auto
  moreover have "weak_id wk \<in> set (dropped_entity_ids (em_rc s)) \<longleftrightarrow> counts (em_rc s) (weak_id wk) = Some 0"
    using ok rc_okD [of "em_rc s" _ "issued s" "weak_id wk"] by (auto simp: client_ok_def count_ok_def)
  ultimately show ?thesis
    using ref live_counts [OF ok, of "weak_id wk"]
    by (cases "counts (em_rc s) (weak_id wk)")
      (auto simp: aw_assert_released_def ld_assert_released_def rc_upgrade_def bind_result_eq_Inl)
qed

theorem assert_released_spec_witness:
  "aw_assert_released True sample_weak (Some (em_rc sample_dropped)) = Inl StillAlive"
  using assert_released_spec [OF sample_dropped_reachable, of sample_weak]
  by (simp add: sample_dropped_def sample_weak_def)

end
