(* ===== verification/App_Effects.thy ===== *)
theory App_Effects
  imports Subscription Entity_Life
begin

text \<open>
  The part of the application that notifies (\<open>crates/gpui/src/app.rs\<close>, with the window invalidator of \<open>window.rs\<close>):
  pending effects, the entities that each window accessed in its last frame, observers and listeners, globals, and the release of
  dropped entities. It puts the subscriber sets and the entity map together: the sets are fields of the application, and the
  callbacks in them run on the application.

  Callbacks are numbers or other data of type \<open>'c\<close>; what they do is an argument of the operations that call
  them. The closures that the application itself builds are data (\<open>handler\<close>, \<open>deferred\<close>). An invalidator is shared between its window and the
  application, so invalidators are in a store, addressed by the window. The event of an emission has the type that is stored with it,
  since \<open>emit\<close> builds both. The loop over all effects, which also draws windows, is not part of this theory.
\<close>

section \<open>Data\<close>

text \<open>
  The handler that \<open>observe_internal\<close> and \<open>subscribe_internal\<close> build around a callback upgrades a weak handle first;
  other handlers are given by the caller.
\<close>

datatype 'c handler = Guarded "nat any_weak" 'c | Direct 'c

text \<open>The closures that are deferred: the activation of a new subscriber, or a closure of the caller.\<close>

datatype 'c deferred = Activate_Observer nat | Activate_Listener nat | Activate_Global nat | Deferred 'c

datatype ('c, 'v) effect =
  Notify nat
| Emit nat nat 'v
| RefreshWindows
| NotifyGlobalObservers nat
| Defer "'c deferred"
| EntityCreated "nat any_entity" nat "nat option"

datatype draw_phase = DrawNone | Prepaint | Paint | Focus

record window_invalidator =
  dirty :: bool
  draw_phase :: draw_phase
  dirty_views :: "nat set"
  update_count :: nat

record ('c, 'v) app =
  app_entities :: "(nat, 'v) entity_map"
  pending_effects :: "('c, 'v) effect list"
  pending_notifications :: "nat set"
  pending_global_notifications :: "nat set"
  observers :: "(nat, 'c handler) subscriber_set"
  event_listeners :: "(nat, nat \<times> 'c handler) subscriber_set"
  release_listeners :: "(nat, 'c) subscriber_set"
  global_observers :: "(nat, 'c) subscriber_set"
  new_entity_observers :: "(nat, 'c) subscriber_set"
  globals_by_type :: "nat \<rightharpoonup> 'v"
  window_invalidators_by_entity :: "nat \<rightharpoonup> nat set"
  tracked_entities :: "nat \<rightharpoonup> nat set"
  invalidators :: "nat \<Rightarrow> window_invalidator"

section \<open>Effects and notifications\<close>

definition push_effect :: "('c, 'v) effect \<Rightarrow> ('c, 'v) app \<Rightarrow> ('c, 'v) app" where
  "push_effect e cx =
     (case e of
        Notify i \<Rightarrow>
          if i \<in> pending_notifications cx then cx
          else cx\<lparr>pending_notifications := insert i (pending_notifications cx),
                  pending_effects := pending_effects cx @ [e]\<rparr>
      | NotifyGlobalObservers t \<Rightarrow>
          if t \<in> pending_global_notifications cx then cx
          else cx\<lparr>pending_global_notifications := insert t (pending_global_notifications cx),
                  pending_effects := pending_effects cx @ [e]\<rparr>
      | _ \<Rightarrow> cx\<lparr>pending_effects := pending_effects cx @ [e]\<rparr>)"

definition wi_new :: window_invalidator where
  "wi_new = \<lparr>dirty = True, draw_phase = DrawNone, dirty_views = {}, update_count = 0\<rparr>"

text \<open>\<open>invalidate_view\<close>: whether the view was invalidated, and the application. \<open>w\<close> is the window of the invalidator.\<close>

definition invalidate_view :: "nat \<Rightarrow> nat \<Rightarrow> ('c, 'v) app \<Rightarrow> bool \<times> ('c, 'v) app" where
  "invalidate_view w i cx =
     (let inner = (invalidators cx w)\<lparr>update_count := update_count (invalidators cx w) + 1,
                                      dirty_views := insert i (dirty_views (invalidators cx w))\<rparr>
      in if draw_phase inner = DrawNone
         then (True, push_effect (Notify i) (cx\<lparr>invalidators := (invalidators cx)(w := inner\<lparr>dirty := True\<rparr>)\<rparr>))
         else (False, cx\<lparr>invalidators := (invalidators cx)(w := inner)\<rparr>))"

definition wi_set_dirty :: "bool \<Rightarrow> window_invalidator \<Rightarrow> window_invalidator" where
  "wi_set_dirty b wi =
     (let wi1 = wi\<lparr>dirty := b\<rparr> in if b then wi1\<lparr>update_count := update_count wi1 + 1\<rparr> else wi1)"

definition wi_set_phase :: "draw_phase \<Rightarrow> window_invalidator \<Rightarrow> window_invalidator" where
  "wi_set_phase p wi = wi\<lparr>draw_phase := p\<rparr>"

definition wi_take_views :: "window_invalidator \<Rightarrow> nat set \<times> window_invalidator" where
  "wi_take_views wi = (dirty_views wi, wi\<lparr>dirty_views := {}\<rparr>)"

definition wi_replace_views :: "nat set \<Rightarrow> window_invalidator \<Rightarrow> window_invalidator" where
  "wi_replace_views vs wi = wi\<lparr>dirty_views := vs\<rparr>"

definition wi_not_drawing :: "window_invalidator \<Rightarrow> bool" where
  "wi_not_drawing wi \<longleftrightarrow> draw_phase wi = DrawNone"

text \<open>
  \<open>notify\<close>. The hash map of invalidators is iterated in an order \<open>order\<close> that the library leaves open.
\<close>

definition notify :: "(nat set \<Rightarrow> nat list) \<Rightarrow> nat \<Rightarrow> ('c, 'v) app \<Rightarrow> ('c, 'v) app" where
  "notify order i cx =
     (let ws = (case window_invalidators_by_entity cx i of None \<Rightarrow> {} | Some ws \<Rightarrow> ws);
          cx1 = cx\<lparr>window_invalidators_by_entity := (window_invalidators_by_entity cx)(i \<mapsto> {})\<rparr>;
          cx2 = (if ws = {}
                 then (if i \<in> pending_notifications cx1 then cx1
                       else cx1\<lparr>pending_notifications := insert i (pending_notifications cx1),
                                pending_effects := pending_effects cx1 @ [Notify i]\<rparr>)
                 else fold (\<lambda>w cx. snd (invalidate_view w i cx)) (order ws) cx1)
      in cx2\<lparr>window_invalidators_by_entity := (window_invalidators_by_entity cx2)(i \<mapsto> ws)\<rparr>)"

text \<open>\<open>record_entities_accessed\<close>: the sets are unordered, so that the loops are written as functions of the entity.\<close>

definition record_entities_accessed :: "nat \<Rightarrow> nat set \<Rightarrow> ('c, 'v) app \<Rightarrow> ('c, 'v) app" where
  "record_entities_accessed w es cx =
     (let tracked = (case tracked_entities cx w of None \<Rightarrow> {} | Some t \<Rightarrow> t);
          by1 = (\<lambda>i. if i \<in> tracked then map_option (\<lambda>ws. ws - {w}) (window_invalidators_by_entity cx i)
                     else window_invalidators_by_entity cx i);
          by2 = (\<lambda>i. if i \<in> es then Some (insert w (case by1 i of None \<Rightarrow> {} | Some ws \<Rightarrow> ws)) else by1 i)
      in cx\<lparr>window_invalidators_by_entity := by2, tracked_entities := (tracked_entities cx)(w \<mapsto> es)\<rparr>)"

definition detect_accessed_entities ::
  "(('c, 'v) app \<Rightarrow> 'r \<times> ('c, 'v) app) \<Rightarrow> ('c, 'v) app \<Rightarrow> ('r \<times> nat set) \<times> ('c, 'v) app" where
  "detect_accessed_entities f cx =
     (let before = accessed_entities (app_entities cx);
          (result, cx1) = f cx;
          after = accessed_entities (app_entities cx1)
      in ((result, after - before), cx1))"

section \<open>Observers, listeners and globals\<close>

definition app_defer :: "'c deferred \<Rightarrow> ('c, 'v) app \<Rightarrow> ('c, 'v) app" where
  "app_defer d cx = push_effect (Defer d) cx"

text \<open>The registrations return the id that their subscription captures.\<close>

definition new_observer :: "nat \<Rightarrow> 'c handler \<Rightarrow> ('c, 'v) app \<Rightarrow> nat \<times> ('c, 'v) app" where
  "new_observer k h cx =
     (let ((i, a), s) = ss_insert k h (observers cx)
      in (i, app_defer (Activate_Observer a) (cx\<lparr>observers := s\<rparr>)))"

definition observe_internal :: "nat any_entity \<Rightarrow> 'c \<Rightarrow> ('c, 'v) app \<Rightarrow> nat \<times> ('c, 'v) app" where
  "observe_internal e c cx = new_observer (entity_id e) (Guarded (ae_downgrade e) c) cx"

definition new_subscription :: "nat \<Rightarrow> nat \<times> 'c handler \<Rightarrow> ('c, 'v) app \<Rightarrow> nat \<times> ('c, 'v) app" where
  "new_subscription k h cx =
     (let ((i, a), s) = ss_insert k h (event_listeners cx)
      in (i, app_defer (Activate_Listener a) (cx\<lparr>event_listeners := s\<rparr>)))"

definition subscribe_internal :: "nat any_entity \<Rightarrow> nat \<Rightarrow> 'c \<Rightarrow> ('c, 'v) app \<Rightarrow> nat \<times> ('c, 'v) app" where
  "subscribe_internal e event_type c cx =
     new_subscription (entity_id e) (event_type, Guarded (ae_downgrade e) c) cx"

definition observe_release :: "nat any_entity \<Rightarrow> 'c \<Rightarrow> ('c, 'v) app \<Rightarrow> nat \<times> ('c, 'v) app" where
  "observe_release e c cx =
     (let ((i, a), s) = ss_insert (entity_id e) c (release_listeners cx)
      in (i, cx\<lparr>release_listeners := ss_activate a s\<rparr>))"

definition new_entity_observer :: "nat \<Rightarrow> 'c \<Rightarrow> ('c, 'v) app \<Rightarrow> nat \<times> ('c, 'v) app" where
  "new_entity_observer ty c cx =
     (let ((i, a), s) = ss_insert ty c (new_entity_observers cx)
      in (i, cx\<lparr>new_entity_observers := ss_activate a s\<rparr>))"

definition observe_global :: "nat \<Rightarrow> 'c \<Rightarrow> ('c, 'v) app \<Rightarrow> nat \<times> ('c, 'v) app" where
  "observe_global ty c cx =
     (let ((i, a), s) = ss_insert ty c (global_observers cx)
      in (i, app_defer (Activate_Global a) (cx\<lparr>global_observers := s\<rparr>)))"

text \<open>Globals. \<open>None\<close> is the panic when there is no global of the type.\<close>

definition set_global :: "nat \<Rightarrow> 'v \<Rightarrow> ('c, 'v) app \<Rightarrow> ('c, 'v) app" where
  "set_global ty v cx =
     (let cx1 = push_effect (NotifyGlobalObservers ty) cx
      in cx1\<lparr>globals_by_type := (globals_by_type cx1)(ty \<mapsto> v)\<rparr>)"

definition app_global :: "nat \<Rightarrow> ('c, 'v) app \<Rightarrow> 'v option" where
  "app_global ty cx = globals_by_type cx ty"

definition global_mut :: "nat \<Rightarrow> ('v \<Rightarrow> 'v) \<Rightarrow> ('c, 'v) app \<Rightarrow> ('c, 'v) app option" where
  "global_mut ty f cx =
     (let cx1 = push_effect (NotifyGlobalObservers ty) cx
      in case globals_by_type cx1 ty of
           None \<Rightarrow> None
         | Some v \<Rightarrow> Some (cx1\<lparr>globals_by_type := (globals_by_type cx1)(ty \<mapsto> f v)\<rparr>))"

definition default_global :: "nat \<Rightarrow> 'v \<Rightarrow> ('v \<Rightarrow> 'v) \<Rightarrow> ('c, 'v) app \<Rightarrow> ('c, 'v) app" where
  "default_global ty d f cx =
     (let cx1 = push_effect (NotifyGlobalObservers ty) cx;
          v = (case globals_by_type cx1 ty of None \<Rightarrow> d | Some v \<Rightarrow> v)
      in cx1\<lparr>globals_by_type := (globals_by_type cx1)(ty \<mapsto> f v)\<rparr>)"

definition remove_global :: "nat \<Rightarrow> ('c, 'v) app \<Rightarrow> ('v \<times> ('c, 'v) app) option" where
  "remove_global ty cx =
     (let cx1 = push_effect (NotifyGlobalObservers ty) cx
      in case globals_by_type cx1 ty of
           None \<Rightarrow> None
         | Some v \<Rightarrow> Some (v, cx1\<lparr>globals_by_type := (globals_by_type cx1)(ty := None)\<rparr>))"

definition lease_global :: "nat \<Rightarrow> ('c, 'v) app \<Rightarrow> ('v \<times> ('c, 'v) app) option" where
  "lease_global ty cx =
     (case globals_by_type cx ty of
        None \<Rightarrow> None
      | Some v \<Rightarrow> Some (v, cx\<lparr>globals_by_type := (globals_by_type cx)(ty := None)\<rparr>))"

definition end_global_lease :: "nat \<Rightarrow> 'v \<Rightarrow> ('c, 'v) app \<Rightarrow> ('c, 'v) app" where
  "end_global_lease ty v cx =
     (let cx1 = push_effect (NotifyGlobalObservers ty) cx
      in cx1\<lparr>globals_by_type := (globals_by_type cx1)(ty \<mapsto> v)\<rparr>)"

section \<open>Applying effects\<close>

text \<open>
  Running a handler: \<open>run\<close> is what the callbacks of the caller do, given the upgraded handle if there is one; it owns the handle.
\<close>

definition run_handler ::
  "bool \<Rightarrow> ('c \<Rightarrow> nat any_entity option \<Rightarrow> ('c, 'v) app \<Rightarrow> bool \<times> 'c \<times> ('c, 'v) app) \<Rightarrow> 'c handler \<Rightarrow>
   ('c, 'v) app \<Rightarrow> bool \<times> 'c handler \<times> ('c, 'v) app" where
  "run_handler leak run h cx =
     (case h of
        Direct c \<Rightarrow> (let (b, c', cx') = run c None cx in (b, Direct c', cx'))
      | Guarded wk c \<Rightarrow>
          (case aw_upgrade leak wk (Some (ref_counts (app_entities cx))) of
             (Some e, Some rc) \<Rightarrow>
               (let (b, c', cx') = run c (Some e) (cx\<lparr>app_entities := (app_entities cx)\<lparr>ref_counts := rc\<rparr>\<rparr>)
                in (b, Guarded wk c', cx'))
           | _ \<Rightarrow> (False, h, cx)))"

definition apply_notify_effect ::
  "bool \<Rightarrow> ('c handler \<Rightarrow> ('c, 'v) app \<Rightarrow> bool \<times> 'c handler \<times> ('c, 'v) app) \<Rightarrow> nat \<Rightarrow> ('c, 'v) app \<Rightarrow> ('c, 'v) app option" where
  "apply_notify_effect debug call i cx =
     ss_retain observers (\<lambda>s cx. cx\<lparr>observers := s\<rparr>) debug i call
       (cx\<lparr>pending_notifications := pending_notifications cx - {i}\<rparr>)"

definition apply_emit_effect ::
  "bool \<Rightarrow> ('c handler \<Rightarrow> 'v \<Rightarrow> ('c, 'v) app \<Rightarrow> bool \<times> 'c handler \<times> ('c, 'v) app) \<Rightarrow> nat \<Rightarrow> nat \<Rightarrow> 'v \<Rightarrow>
   ('c, 'v) app \<Rightarrow> ('c, 'v) app option" where
  "apply_emit_effect debug call i event_type event cx =
     ss_retain event_listeners (\<lambda>s cx. cx\<lparr>event_listeners := s\<rparr>) debug i
       (\<lambda>(stored_type, h) cx.
          if stored_type = event_type
          then (let (b, h', cx') = call h event cx in (b, (stored_type, h'), cx'))
          else (True, (stored_type, h), cx))
       cx"

definition apply_notify_global_observers_effect ::
  "bool \<Rightarrow> ('c \<Rightarrow> ('c, 'v) app \<Rightarrow> bool \<times> 'c \<times> ('c, 'v) app) \<Rightarrow> nat \<Rightarrow> ('c, 'v) app \<Rightarrow> ('c, 'v) app option" where
  "apply_notify_global_observers_effect debug call ty cx =
     ss_retain global_observers (\<lambda>s cx. cx\<lparr>global_observers := s\<rparr>) debug ty call
       (cx\<lparr>pending_global_notifications := pending_global_notifications cx - {ty}\<rparr>)"

definition apply_defer_effect ::
  "('c \<Rightarrow> ('c, 'v) app \<Rightarrow> ('c, 'v) app) \<Rightarrow> 'c deferred \<Rightarrow> ('c, 'v) app \<Rightarrow> ('c, 'v) app" where
  "apply_defer_effect run d cx =
     (case d of
        Activate_Observer a \<Rightarrow> cx\<lparr>observers := ss_activate a (observers cx)\<rparr>
      | Activate_Listener a \<Rightarrow> cx\<lparr>event_listeners := ss_activate a (event_listeners cx)\<rparr>
      | Activate_Global a \<Rightarrow> cx\<lparr>global_observers := ss_activate a (global_observers cx)\<rparr>
      | Deferred c \<Rightarrow> run c cx)"

section \<open>Releasing entities\<close>

text \<open>
  Release callbacks get the entity and may change it. \<open>release\<close> is what a callback does, \<open>drop_value\<close> the destructor of an
  entity, which drops the handles in it. The iterator over the callbacks reads the flag of a subscriber when it gets there.
\<close>

fun release_callbacks ::
  "('c \<Rightarrow> nat \<times> 'v \<Rightarrow> ('c, 'v) app \<Rightarrow> (nat \<times> 'v) \<times> ('c, 'v) app) \<Rightarrow> 'c subscriber list \<Rightarrow> nat \<times> 'v \<Rightarrow>
   ('c, 'v) app \<Rightarrow> (nat \<times> 'v) \<times> ('c, 'v) app" where
  "release_callbacks release [] b cx = (b, cx)"
| "release_callbacks release (sub # subs) b cx =
     (if is_active (release_listeners cx) sub
      then (let (b', cx') = release (callback sub) b cx in release_callbacks release subs b' cx')
      else release_callbacks release subs b cx)"

definition release_entity ::
  "('c \<Rightarrow> nat \<times> 'v \<Rightarrow> ('c, 'v) app \<Rightarrow> (nat \<times> 'v) \<times> ('c, 'v) app) \<Rightarrow> (nat \<times> 'v \<Rightarrow> ('c, 'v) app \<Rightarrow> ('c, 'v) app) \<Rightarrow>
   nat \<times> nat \<times> 'v \<Rightarrow> ('c, 'v) app \<Rightarrow> ('c, 'v) app" where
  "release_entity release drop_value x cx =
     (let i = fst x;
          cx1 = cx\<lparr>observers := snd (ss_remove i (observers cx))\<rparr>;
          cx2 = cx1\<lparr>event_listeners := snd (ss_remove i (event_listeners cx1))\<rparr>;
          (subs, s) = ss_remove i (release_listeners cx2);
          (b, cx3) = release_callbacks release subs (snd x) (cx2\<lparr>release_listeners := s\<rparr>)
      in drop_value b cx3)"

text \<open>The loop; \<open>None\<close> when it does not end, or when \<open>take_dropped\<close> panics.\<close>

partial_function (option) release_dropped_entities ::
  "('c \<Rightarrow> nat \<times> 'v \<Rightarrow> ('c, 'v) app \<Rightarrow> (nat \<times> 'v) \<times> ('c, 'v) app) \<Rightarrow> (nat \<times> 'v \<Rightarrow> ('c, 'v) app \<Rightarrow> ('c, 'v) app) \<Rightarrow>
   bool \<Rightarrow> ('c, 'v) app \<Rightarrow> ('c, 'v) app option" where
  "release_dropped_entities release drop_value debug cx =
     (case em_take_dropped debug (app_entities cx) of
        Inl p \<Rightarrow> None
      | Inr (dropped, m) \<Rightarrow>
          (let cx1 = cx\<lparr>app_entities := m\<rparr> in
           if dropped = [] then Some cx1
           else release_dropped_entities release drop_value debug
                  (fold (release_entity release drop_value) dropped cx1)))"

section \<open>Pending notifications\<close>

text \<open>The two sets say which notifications are pending, and each of these is pending once.\<close>

definition effects_ok :: "('c, 'v) app \<Rightarrow> bool" where
  "effects_ok cx \<longleftrightarrow>
     (\<forall>i. count_list (pending_effects cx) (Notify i) = of_bool (i \<in> pending_notifications cx)) \<and>
     (\<forall>t. count_list (pending_effects cx) (NotifyGlobalObservers t) = of_bool (t \<in> pending_global_notifications cx))"

lemma effects_ok_push: "effects_ok cx \<Longrightarrow> effects_ok (push_effect e cx)"
  by (cases e) (auto simp: effects_ok_def push_effect_def)

lemma push_notify:
  "push_effect (Notify i) cx =
     cx\<lparr>pending_notifications := insert i (pending_notifications cx),
        pending_effects := pending_effects cx @ (if i \<in> pending_notifications cx then [] else [Notify i])\<rparr>"
  by (simp add: push_effect_def insert_absorb)

text \<open>Taking the first effect and removing its mark, as applying it does, keeps the sets right.\<close>

definition unmark :: "('c, 'v) effect \<Rightarrow> ('c, 'v) app \<Rightarrow> ('c, 'v) app" where
  "unmark e cx =
     (case e of
        Notify i \<Rightarrow> cx\<lparr>pending_notifications := pending_notifications cx - {i}\<rparr>
      | NotifyGlobalObservers t \<Rightarrow> cx\<lparr>pending_global_notifications := pending_global_notifications cx - {t}\<rparr>
      | _ \<Rightarrow> cx)"

lemma effects_ok_pop:
  assumes ok: "effects_ok cx" and es: "pending_effects cx = e # es"
  shows "effects_ok (unmark e (cx\<lparr>pending_effects := es\<rparr>))"
proof -
  have n: "count_list (e # es) (Notify i) = of_bool (i \<in> pending_notifications cx)"
    and g: "count_list (e # es) (NotifyGlobalObservers i) = of_bool (i \<in> pending_global_notifications cx)" for i
    using ok es by (auto simp: effects_ok_def)
  show ?thesis
  proof (cases e)
    case (Notify j)
    then have "count_list es (Notify i) = of_bool (i \<in> pending_notifications cx - {j})" for i
      using n [of i] by (cases "i = j") (auto simp: of_bool_def split: if_splits)
    then show ?thesis using g Notify by (simp add: effects_ok_def unmark_def)
  next
    case (NotifyGlobalObservers t)
    then have "count_list es (NotifyGlobalObservers i) = of_bool (i \<in> pending_global_notifications cx - {t})" for i
      using g [of i] by (cases "i = t") (auto simp: of_bool_def split: if_splits)
    then show ?thesis using n NotifyGlobalObservers by (simp add: effects_ok_def unmark_def)
  qed (use n g in \<open>simp_all add: effects_ok_def unmark_def\<close>)
qed

text \<open>Removing a global leaves a notification of its observers pending.\<close>

lemma remove_global_notifies:
  "remove_global ty cx = Some (v, cx') \<Longrightarrow>
     globals_by_type cx' ty = None \<and> ty \<in> pending_global_notifications cx'"
  by (auto simp: remove_global_def push_effect_def Let_def split: option.splits if_splits)

section \<open>Notifying\<close>

definition ws_of :: "('c, 'v) app \<Rightarrow> nat \<Rightarrow> nat set" where
  "ws_of cx i = (case window_invalidators_by_entity cx i of None \<Rightarrow> {} | Some ws \<Rightarrow> ws)"

definition tracked_of :: "('c, 'v) app \<Rightarrow> nat \<Rightarrow> nat set" where
  "tracked_of cx w = (case tracked_entities cx w of None \<Rightarrow> {} | Some es \<Rightarrow> es)"

text \<open>The invalidator of a window that tracks a notified entity.\<close>

definition invalidated :: "nat \<Rightarrow> window_invalidator \<Rightarrow> window_invalidator" where
  "invalidated i wi = wi\<lparr>update_count := update_count wi + 1, dirty_views := insert i (dirty_views wi),
     dirty := dirty wi \<or> wi_not_drawing wi\<rparr>"

lemma invalidate_view_eq:
  "snd (invalidate_view w i cx) =
     (let cx1 = cx\<lparr>invalidators := (invalidators cx)(w := invalidated i (invalidators cx w))\<rparr>
      in if wi_not_drawing (invalidators cx w) then push_effect (Notify i) cx1 else cx1)"
  by (cases "invalidators cx w")
    (simp add: invalidate_view_def invalidated_def wi_not_drawing_def Let_def)

lemma push_invalidators [simp]:
  "invalidators (push_effect e cx) = invalidators cx"
  "window_invalidators_by_entity (push_effect e cx) = window_invalidators_by_entity cx"
  "tracked_entities (push_effect e cx) = tracked_entities cx"
  by (cases e; simp add: push_effect_def)+

lemma invalidate_all:
  "distinct ws \<Longrightarrow>
     fold (\<lambda>w cx. snd (invalidate_view w i cx)) ws cx =
     (let cx1 = cx\<lparr>invalidators := (\<lambda>w. if w \<in> set ws then invalidated i (invalidators cx w) else invalidators cx w)\<rparr>
      in if \<exists>w \<in> set ws. wi_not_drawing (invalidators cx w) then push_effect (Notify i) cx1 else cx1)"
proof (induction ws arbitrary: cx)
  case (Cons w ws)
  let ?cx1 = "snd (invalidate_view w i cx)"
  have inv: "invalidators ?cx1 w' = (if w' = w then invalidated i (invalidators cx w) else invalidators cx w')" for w'
    by (simp add: invalidate_view_eq Let_def)
  have ex: "(\<exists>w' \<in> set ws. wi_not_drawing (invalidators ?cx1 w')) \<longleftrightarrow>
      (\<exists>w' \<in> set ws. wi_not_drawing (invalidators cx w'))"
    using Cons.prems by (auto simp: inv)
  have upd: "(\<lambda>w'. if w' \<in> set ws then invalidated i (invalidators ?cx1 w') else invalidators ?cx1 w') =
      (\<lambda>w'. if w' \<in> set (w # ws) then invalidated i (invalidators cx w') else invalidators cx w')"
    using Cons.prems by (auto simp: inv fun_eq_iff)
  have "fold (\<lambda>w cx. snd (invalidate_view w i cx)) ws ?cx1 =
      (let cx1 = ?cx1\<lparr>invalidators := (\<lambda>w'. if w' \<in> set (w # ws) then invalidated i (invalidators cx w') else invalidators cx w')\<rparr>
       in if \<exists>w' \<in> set ws. wi_not_drawing (invalidators cx w') then push_effect (Notify i) cx1 else cx1)"
    using Cons.IH [of ?cx1] Cons.prems unfolding ex upd by simp
  then show ?case
    by (auto simp: invalidate_view_eq push_notify Let_def)
qed simp

lemma notify_correct:
  assumes "effects_ok cx" and "distinct (order (ws_of cx i))" and "set (order (ws_of cx i)) = ws_of cx i"
  shows "effects_ok (notify order i cx) \<and>
    (\<forall>w. invalidators (notify order i cx) w =
       (if w \<in> ws_of cx i then invalidated i (invalidators cx w) else invalidators cx w)) \<and>
    pending_effects (notify order i cx) = pending_effects cx @
      (if i \<notin> pending_notifications cx \<and>
          (ws_of cx i = {} \<or> (\<exists>w \<in> ws_of cx i. wi_not_drawing (invalidators cx w)))
       then [Notify i] else []) \<and>
    (i \<in> pending_notifications (notify order i cx) \<longleftrightarrow> i \<in> pending_notifications cx \<or>
       ws_of cx i = {} \<or> (\<exists>w \<in> ws_of cx i. wi_not_drawing (invalidators cx w))) \<and>
    ws_of (notify order i cx) = ws_of cx"
proof -
  let ?inv = "\<lambda>w. if w \<in> ws_of cx i then invalidated i (invalidators cx w) else invalidators cx w"
  let ?quiet = "\<not> (ws_of cx i = {} \<or> (\<exists>w \<in> ws_of cx i. wi_not_drawing (invalidators cx w)))"
  let ?cx = "cx\<lparr>invalidators := ?inv, window_invalidators_by_entity := (window_invalidators_by_entity cx)(i \<mapsto> ws_of cx i)\<rparr>"
  have eq: "notify order i cx = (if ?quiet then ?cx else push_effect (Notify i) ?cx)"
  proof (cases "ws_of cx i = {}")
    case True
    then show ?thesis unfolding notify_def ws_of_def [symmetric] by (simp add: Let_def push_notify insert_absorb)
  next
    case False
    let ?cx1 = "cx\<lparr>window_invalidators_by_entity := (window_invalidators_by_entity cx)(i \<mapsto> {})\<rparr>"
    have "fold (\<lambda>w cx. snd (invalidate_view w i cx)) (order (ws_of cx i)) ?cx1 =
        (if ?quiet then ?cx1\<lparr>invalidators := ?inv\<rparr> else push_effect (Notify i) (?cx1\<lparr>invalidators := ?inv\<rparr>))"
      using invalidate_all [OF assms(2), of i ?cx1] False by (simp add: assms(3) Let_def cong: if_cong)
    then show ?thesis
      using False unfolding notify_def ws_of_def [symmetric] by (simp add: Let_def push_notify)
  qed
  define cx1 where "cx1 = ?cx"
  define tells where "tells \<longleftrightarrow> ws_of cx i = {} \<or> (\<exists>w \<in> ws_of cx i. wi_not_drawing (invalidators cx w))"
  have n: "notify order i cx = (if tells then push_effect (Notify i) cx1 else cx1)"
    unfolding eq cx1_def tells_def by (simp only: if_not_P if_P split: if_split) blast
  have fields: "invalidators cx1 = ?inv" "pending_effects cx1 = pending_effects cx"
    "pending_notifications cx1 = pending_notifications cx" "ws_of cx1 = ws_of cx"
    by (simp_all add: cx1_def ws_of_def fun_eq_iff)
  have "effects_ok cx1" using assms(1) by (simp add: effects_ok_def cx1_def)
  then have ok: "effects_ok (notify order i cx)" unfolding n by (simp add: effects_ok_push)
  have ws: "ws_of (push_effect (Notify i) cx1) = ws_of cx" using fields(4) by (simp add: ws_of_def fun_eq_iff)
  show ?thesis
    using ok unfolding tells_def [symmetric] n
    by (cases tells) (simp_all add: ws fields, simp_all add: push_notify fields)
qed

text \<open>
  C10. Notifying that an entity has changed. Every window that tracks the entity counts an update and has the entity among its
  dirty views, and becomes dirty unless it is being drawn; no other window changes. Observers are to be notified (one effect is
  pending) exactly if that was so before, or no window tracks the entity, or one of those that do is not being
  drawn. Which windows track an entity does not change, whatever the order in which they are visited.
\<close>

theorem notify_spec:
  assumes "effects_ok cx" and "distinct (order (ws_of cx i))" and "set (order (ws_of cx i)) = ws_of cx i"
  shows "effects_ok (notify order i cx) \<and>
    (\<forall>w. invalidators (notify order i cx) w =
       (if w \<in> ws_of cx i then invalidated i (invalidators cx w) else invalidators cx w)) \<and>
    pending_effects (notify order i cx) = pending_effects cx @
      (if i \<notin> pending_notifications cx \<and>
          (ws_of cx i = {} \<or> (\<exists>w \<in> ws_of cx i. wi_not_drawing (invalidators cx w)))
       then [Notify i] else []) \<and>
    (i \<in> pending_notifications (notify order i cx) \<longleftrightarrow> i \<in> pending_notifications cx \<or>
       ws_of cx i = {} \<or> (\<exists>w \<in> ws_of cx i. wi_not_drawing (invalidators cx w))) \<and>
    ws_of (notify order i cx) = ws_of cx"
  using assms by (rule notify_correct)

section \<open>Tracking\<close>

lemma tracked_invalidate:
  "tracked_entities (fold (\<lambda>w cx. snd (invalidate_view w i cx)) ws cx) = tracked_entities cx"
  by (induction ws arbitrary: cx) (simp_all add: invalidate_view_eq Let_def)

lemma tracked_notify: "tracked_entities (notify order i cx) = tracked_entities cx"
  by (simp add: notify_def Let_def tracked_invalidate)

text \<open>The two indices, by window and by entity, agree.\<close>

definition index_ok :: "('c, 'v) app \<Rightarrow> bool" where
  "index_ok cx \<longleftrightarrow> (\<forall>w i. w \<in> ws_of cx i \<longleftrightarrow> i \<in> tracked_of cx w)"

lemma ws_of_record:
  "ws_of (record_entities_accessed w es cx) i =
     (if i \<in> es then insert w (ws_of cx i - (if i \<in> tracked_of cx w then {w} else {}))
      else ws_of cx i - (if i \<in> tracked_of cx w then {w} else {}))"
  by (auto simp: ws_of_def tracked_of_def record_entities_accessed_def Let_def split: option.splits if_splits)

lemma tracked_of_record:
  "tracked_of (record_entities_accessed w es cx) w' = (if w' = w then es else tracked_of cx w')"
  by (simp add: tracked_of_def record_entities_accessed_def Let_def)

text \<open>
  C14. Recording the entities that a window accessed in a frame replaces what was recorded for the window before and
  changes nothing for other windows; the two indices keep agreeing. When one of the entities changes afterwards, the window is invalidated
  for it, and for no other entity.
\<close>

theorem accessed_entities_spec:
  assumes "index_ok cx" and "cx' = record_entities_accessed w es cx"
    and "distinct (order (ws_of cx' i))" and "set (order (ws_of cx' i)) = ws_of cx' i"
    and "effects_ok cx"
  shows "index_ok cx' \<and> tracked_of cx' w = es \<and> (\<forall>w'. w' \<noteq> w \<longrightarrow> tracked_of cx' w' = tracked_of cx w') \<and>
    index_ok (notify order i cx') \<and>
    invalidators (notify order i cx') w =
      (if i \<in> es then invalidated i (invalidators cx w) else invalidators cx w)"
proof -
  have ok: "index_ok cx'" and tr: "tracked_of cx' w' = (if w' = w then es else tracked_of cx w')" for w'
    using assms(1) by (auto simp: assms(2) index_ok_def ws_of_record tracked_of_record split: if_splits)
  have same: "invalidators cx' = invalidators cx" "effects_ok cx'"
    using assms(5) by (simp_all add: assms(2) record_entities_accessed_def Let_def effects_ok_def)
  note n = notify_correct [where order = order and i = i, OF same(2) assms(3,4)]
  have "tracked_of (notify order i cx') = tracked_of cx'" by (simp add: tracked_of_def tracked_notify fun_eq_iff)
  then have "index_ok (notify order i cx')" using n ok by (simp add: index_ok_def)
  moreover have "w \<in> ws_of cx' i \<longleftrightarrow> i \<in> es" using ok tr [of w] by (simp add: index_ok_def)
  ultimately show ?thesis using ok tr n same(1) by simp
qed

text \<open>An application with nothing in it, for examples.\<close>

definition app_empty :: "('c, 'v) app" where
  "app_empty = \<lparr>app_entities = em_new, pending_effects = [], pending_notifications = {},
     pending_global_notifications = {}, observers = ss_new, event_listeners = ss_new, release_listeners = ss_new,
     global_observers = ss_new, new_entity_observers = ss_new, globals_by_type = Map.empty,
     window_invalidators_by_entity = Map.empty, tracked_entities = Map.empty, invalidators = (\<lambda>w. wi_new)\<rparr>"

lemma app_empty_ok: "effects_ok app_empty" "index_ok app_empty"
  by (simp_all add: app_empty_def effects_ok_def index_ok_def ws_of_def tracked_of_def)

lemma app_empty_simps:
  "ws_of app_empty i = {}" "tracked_of app_empty w = {}" "pending_effects app_empty = []"
  "pending_notifications app_empty = {}" "invalidators app_empty = (\<lambda>w. wi_new)"
  by (simp_all add: app_empty_def ws_of_def tracked_of_def)

theorem notify_spec_witness:
  "pending_effects (notify (\<lambda>ws. []) 5 (app_empty :: (int, int) app)) = [Notify 5]"
  using notify_spec [of "app_empty :: (int, int) app" "\<lambda>ws. []" 5]
  by (simp add: app_empty_simps app_empty_ok)

theorem accessed_entities_spec_witness:
  "dirty_views (invalidators (notify (\<lambda>ws. if ws = {} then [] else [3]) 5
      (record_entities_accessed 3 {5, 6} (app_empty :: (int, int) app))) 3) = {5}"
  using accessed_entities_spec [of "app_empty :: (int, int) app" _ 3 "{5, 6}" "\<lambda>ws. if ws = {} then [] else [3]" 5,
      OF app_empty_ok(2) refl _ _ app_empty_ok(1)]
  by (simp add: ws_of_record app_empty_simps invalidated_def wi_new_def)

section \<open>The sets of the application\<close>

interpretation observers: subscriber_field observers "\<lambda>s cx. cx\<lparr>observers := s\<rparr>"
  by unfold_locales simp

interpretation event_listeners: subscriber_field event_listeners "\<lambda>s cx. cx\<lparr>event_listeners := s\<rparr>"
  by unfold_locales simp

interpretation global_observers: subscriber_field global_observers "\<lambda>s cx. cx\<lparr>global_observers := s\<rparr>"
  by unfold_locales simp

text \<open>
  Handlers that act on the observers through the operations of the set. For them, applying a notification keeps the set of
  observers well formed, and drops the observers whose entity cannot be upgraded.
\<close>

lemma apply_notify_ok:
  assumes acts: "\<And>h cx. observers (snd (snd (call h cx))) = ss_run (ops h cx) (observers cx)"
    and ok: "ss_ok (observers cx)"
  obtains cx' where "apply_notify_effect debug call i cx = Some cx'" and "ss_ok (observers cx')"
proof (cases "\<exists>m. subscribers (observers cx) i = Some (Some m)")
  case True
  then obtain m where m: "subscribers (observers cx) i = Some (Some m)" by blast
  have sc: "subscriber_calls observers (\<lambda>s cx. cx\<lparr>observers := s\<rparr>) call ops"
    by unfold_locales (rule acts)
  let ?cx = "cx\<lparr>pending_notifications := pending_notifications cx - {i}\<rparr>"
  have "ss_ok (observers ?cx)" "subscribers (observers ?cx) i = Some (Some m)" using ok m by simp_all
  from subscriber_calls.retain_correct [OF sc this refl, of debug] show ?thesis
    using that unfolding apply_notify_effect_def by (elim exE conjE) blast
next
  case False
  then have "apply_notify_effect debug call i cx = Some (cx\<lparr>pending_notifications := pending_notifications cx - {i}\<rparr>)"
    by (auto simp: apply_notify_effect_def ss_retain_def split: option.splits)
  then show ?thesis using that ok by simp
qed

text \<open>
  What happens to the observers between the registration of observer \<open>i\<close> of entity \<open>k\<close> and its activation: operations on the set that leave the
  observer alone, and notifications of any entities, with callbacks of any answer whose operations leave it alone.
\<close>

inductive effect_step :: "bool \<Rightarrow> nat \<Rightarrow> nat \<Rightarrow> ('c, 'v) app \<Rightarrow> ('c, 'v) app \<Rightarrow> bool" for debug k i where
  Change: "\<lbrakk>observers cx' = ss_run ops (observers cx); \<forall>op \<in> set ops. spares k i op\<rbrakk> \<Longrightarrow> effect_step debug k i cx cx'"
| Notified: "\<lbrakk>\<forall>h cx. observers (snd (snd (call h cx))) = ss_run (ops h cx) (observers cx);
     \<forall>h cx. \<forall>op \<in> set (ops h cx). spares k i op; apply_notify_effect debug call j cx = Some cx'\<rbrakk> \<Longrightarrow> effect_step debug k i cx cx'"

lemma observer_calls:
  "\<forall>h cx. observers (snd (snd (call h cx))) = ss_run (ops h cx) (observers cx) \<Longrightarrow>
     subscriber_calls observers (\<lambda>s cx. cx\<lparr>observers := s\<rparr>) call ops"
  by unfold_locales simp_all

lemma effect_step_waits:
  assumes "effect_step debug k i cx cx'" and "ss_ok (observers cx)" and "waits k i h (observers cx)"
  shows "ss_ok (observers cx') \<and> waits k i h (observers cx')"
  using assms(1)
proof cases
  case (Change ops)
  have "ss_wf (observers cx)" using assms(2) by (simp add: ss_ok_def)
  with Change assms(2,3) show ?thesis by (simp add: ss_ok_run waits_run)
next
  case (Notified call ops j)
  show ?thesis
    by (rule subscriber_calls.retain_waits [OF observer_calls [OF Notified(1)] _ _ _ Notified(3) [unfolded apply_notify_effect_def]])
      (use assms(2,3) Notified(2) in auto)
qed

lemma effect_steps_wait:
  "(effect_step debug k i)\<^sup>*\<^sup>* cx cx' \<Longrightarrow> ss_ok (observers cx) \<Longrightarrow> waits k i h (observers cx) \<Longrightarrow>
     ss_ok (observers cx') \<and> waits k i h (observers cx')"
  by (induction rule: rtranclp_induct) (auto dest: effect_step_waits)

lemma observe_internal_waits:
  assumes ok: "ss_ok (observers cx)" and reg: "observe_internal e c cx = (i, cx1)"
  shows "pending_effects cx1 = pending_effects cx @ [Defer (Activate_Observer i)]" and "ss_ok (observers cx1)"
    and "waits (entity_id e) i (Guarded (ae_downgrade e) c) (observers cx1)"
proof -
  let ?k = "entity_id e" and ?h = "Guarded (ae_downgrade e) c" and ?n = "next_subscriber_id (observers cx)"
  have wf: "ss_wf (observers cx)" using ok by (simp add: ss_ok_def)
  then have len: "length (cells (observers cx)) = ?n" by (simp add: ss_wf_def)
  have s: "observers cx1 = snd (ss_insert ?k ?h (observers cx))" and i: "i = ?n"
    using reg len
    by (auto simp: observe_internal_def new_observer_def ss_insert_def app_defer_def push_effect_def Let_def)
  show "pending_effects cx1 = pending_effects cx @ [Defer (Activate_Observer i)]"
    using reg len
    by (auto simp: observe_internal_def new_observer_def ss_insert_def app_defer_def push_effect_def Let_def)
  show "ss_ok (observers cx1)" using ss_ok_apply [OF ok, of "Insert ?k ?h"] by (simp add: s)
  have "\<forall>j \<in> fst ` set (ss_entries (observers cx) ?k). j < ?n" using ss_wf_entryD [OF wf] by fastforce
  then show "waits ?k i ?h (observers cx1)"
    by (simp add: waits_def s ss_simps bmap_insert_end len i nth_append)
qed

text \<open>
  C13. A new observer is inert until its activation, which is put behind the effects that are pending when it is registered. Whatever happens until
  then, with any number of notifications of the observed entity, the observer stays registered with its callback as it was, even if all
  callbacks that are called answer that they want to be removed; only an operation on the observer itself is excluded. Once the activation is applied, a notification
  of the entity calls it: it returns, and if the callback answers that it wants to be removed, then the observer is gone.
  (Callbacks act on the observers by the operations of the set.)
\<close>

theorem observer_activation:
  assumes ok: "ss_ok (observers cx)" and reg: "observe_internal e c cx = (i, cx1)"
    and steps: "(effect_step debug (entity_id e) i)\<^sup>*\<^sup>* cx1 cx2"
    and acts: "\<forall>h cx. observers (snd (snd (call h cx))) = ss_run (ops h cx) (observers cx)"
    and ends: "\<forall>cx. \<not> fst (call (Guarded (ae_downgrade e) c) cx)"
  shows "pending_effects cx1 = pending_effects cx @ [Defer (Activate_Observer i)] \<and>
    (i, \<lparr>active = i, callback = Guarded (ae_downgrade e) c\<rparr>) \<in> set (ss_entries (observers cx2) (entity_id e)) \<and>
    (\<exists>cx3. apply_notify_effect debug call (entity_id e) (apply_defer_effect run (Activate_Observer i) cx2) = Some cx3 \<and>
       (\<forall>k. i \<notin> set (ss_ids (observers cx3) k)))"
proof -
  let ?k = "entity_id e" and ?h = "Guarded (ae_downgrade e) c"
  let ?cx = "(apply_defer_effect run (Activate_Observer i) cx2)\<lparr>pending_notifications :=
    pending_notifications (apply_defer_effect run (Activate_Observer i) cx2) - {?k}\<rparr>"
  have cx2: "ss_ok (observers cx2)" "waits ?k i ?h (observers cx2)"
    using effect_steps_wait [OF steps] observe_internal_waits [OF ok reg] by blast+
  have obs: "observers ?cx = ss_activate i (observers cx2)" by (simp add: apply_defer_effect_def)
  have "\<exists>cx3. ss_retain observers (\<lambda>s cx. cx\<lparr>observers := s\<rparr>) debug ?k call ?cx = Some cx3 \<and> (\<forall>k. i \<notin> set (ss_ids (observers cx3) k))"
  proof (rule subscriber_calls.retain_ends [OF observer_calls [OF acts], of _ i "\<lparr>active = i, callback = ?h\<rparr>"])
    show "ss_ok (observers ?cx)" unfolding obs using ss_ok_apply [OF cx2(1), of "Activate i"] by simp
    show "(i, \<lparr>active = i, callback = ?h\<rparr>) \<in> set (ss_entries (observers ?cx) ?k)"
      unfolding obs using cx2(2) by (simp add: waits_def ss_simps)
    show "is_active (observers ?cx) \<lparr>active = i, callback = ?h\<rparr>"
      unfolding obs using cx2(2) by (simp add: waits_def is_active_def ss_simps)
    show "\<not> fst (call (callback \<lparr>active = i, callback = ?h\<rparr>) v)" for v using ends by simp
  qed
  then show ?thesis
    using observe_internal_waits(1) [OF ok reg] cx2(2) unfolding apply_notify_effect_def by (simp add: waits_def)
qed

text \<open>
  An observer is registered; its entity is notified, with callbacks that all want to be removed; then the observer is activated and the entity
  notified again.
\<close>

theorem observer_activation_witness:
  "\<exists>cx1 cx2 cx3. observe_internal sample_handle 8 (app_empty :: (int, int) app) = (0, cx1) \<and>
     apply_notify_effect True (\<lambda>h cx. (False, h, cx)) (entity_id sample_handle) cx1 = Some cx2 \<and>
     ss_ids (observers cx2) (entity_id sample_handle) \<noteq> [] \<and>
     apply_notify_effect True (\<lambda>h cx. (False, h, cx)) (entity_id sample_handle) (apply_defer_effect (\<lambda>_ cx. cx) (Activate_Observer 0) cx2) = Some cx3 \<and>
     0 \<notin> set (ss_ids (observers cx3) (entity_id sample_handle))"
proof -
  let ?call = "\<lambda>h (cx :: (int, int) app). (False, h, cx)" and ?cx1 = "snd (observe_internal sample_handle 8 (app_empty :: (int, int) app))"
  have reg: "observe_internal sample_handle 8 (app_empty :: (int, int) app) = (0, ?cx1)"
    by (simp add: observe_internal_def new_observer_def ss_insert_def app_empty_def ss_new_def Let_def)
  have ok: "ss_ok (observers (app_empty :: (int, int) app))" by (simp add: app_empty_def ss_ok_new)
  have acts: "\<forall>h cx. observers (snd (snd (?call h cx))) = ss_run ((\<lambda>h cx. []) h cx) (observers cx)" by (simp add: ss_run_def)
  obtain cx2 where cx2: "apply_notify_effect True ?call (entity_id sample_handle) ?cx1 = Some cx2"
    by (simp add: apply_notify_effect_def ss_retain_def observe_internal_def new_observer_def ss_insert_def app_empty_def ss_new_def Let_def
        app_defer_def push_effect_def is_active_def ss_retain_finish_def)
  have "effect_step True (entity_id sample_handle) 0 ?cx1 cx2"
    by (rule effect_step.Notified [of ?call "\<lambda>h cx. []", OF acts _ cx2]) simp
  then have steps: "(effect_step True (entity_id sample_handle) 0)\<^sup>*\<^sup>* ?cx1 cx2" by (rule r_into_rtranclp)
  from observer_activation [OF ok reg steps acts, of "\<lambda>_ cx. cx"] obtain cx3 where
    "0 \<in> set (ss_ids (observers cx2) (entity_id sample_handle))" "0 \<notin> set (ss_ids (observers cx3) (entity_id sample_handle))"
    "apply_notify_effect True ?call (entity_id sample_handle) (apply_defer_effect (\<lambda>_ cx. cx) (Activate_Observer 0) cx2) = Some cx3"
    by (force simp: ss_ids_def)
  with reg cx2 show ?thesis by (metis list.set_cases list.distinct(1))
qed

section \<open>The release of dropped entities\<close>

text \<open>
  A program that uses the entity map without reserving keys. Each such step keeps the invariant, and does not
  increase the number of entities that are in the map, leased, or waited for.
\<close>

definition em_use :: "bool \<Rightarrow> bool \<Rightarrow> ('i, 'v) client \<Rightarrow> ('i, 'v) client \<Rightarrow> bool" where
  "em_use leak debug s s' \<longleftrightarrow> em_step leak debug s s' \<and> issued s' = issued s"

definition weight :: "('i, 'v) client \<Rightarrow> nat" where
  "weight s = card (dom (entities (em s))) + size (leases s) + size (slots s)"

definition fin_ok :: "('i, 'v) client \<Rightarrow> bool" where
  "fin_ok s \<longleftrightarrow> client_ok s \<and> finite (dom (entities (em s)))"

lemma em_use_weight:
  assumes use: "em_use leak debug s s'" and ok: "fin_ok s"
  shows "fin_ok s' \<and> weight s' \<le> weight s"
proof -
  have step: "em_step leak debug s s'" and cl: "client_ok s" and fin: "finite (dom (entities (em s)))"
    using use ok by (auto simp: em_use_def fin_ok_def)
  have "finite (dom (entities (em s'))) \<and> weight s' \<le> weight s"
    using step
  proof cases
    case (Reserve i ty slot m)
    then show ?thesis using use by (auto simp: em_use_def fun_upd_def fun_eq_iff split: if_splits)
  next
    case (Insert slot S v e m)
    then show ?thesis
      using fin by (auto simp: weight_def em_insert_def card_insert_if)
  next
    case (Lease e H l m)
    then have "entity_id e \<in> dom (entities (em s))"
      by (auto simp: em_lease_def Let_def split: option.splits)
    then have "card (dom (entities (em s)) - {entity_id e}) = card (dom (entities (em s))) - 1"
      and "card (dom (entities (em s))) > 0"
      using fin by (auto simp: card_gt_0_iff)
    moreover have "dom (entities m) = dom (entities (em s)) - {entity_id e}"
      using Lease(3) by (auto simp: em_lease_def Let_def split: option.splits if_splits)
    ultimately show ?thesis
      using fin by (auto simp: Lease(1) weight_def)
  next
    case (End_Lease e l L m)
    then show ?thesis
      using fin by (auto simp: weight_def em_end_lease_def card_insert_if split: option.splits)
  next
    case (Take_Dropped out m)
    then have "dom (entities m) \<subseteq> dom (entities (em s))"
      using cl take_dropped_spec [of "em s"] by (auto simp: client_ok_def restrict_map_def split: if_splits)
    then show ?thesis
      using fin card_mono [of "dom (entities (em s))" "dom (entities m)"]
      by (auto simp: Take_Dropped(1) weight_def intro: finite_subset)
  qed (use fin in \<open>auto simp: weight_def em_map_defs Let_def\<close>)
  then show ?thesis using step_client_ok [OF step cl] by (simp add: fin_ok_def)
qed

lemma em_uses_weight:
  "(em_use leak debug)\<^sup>*\<^sup>* s s' \<Longrightarrow> fin_ok s \<Longrightarrow> fin_ok s' \<and> weight s' \<le> weight s"
  by (induction rule: rtranclp_induct) (auto dest: em_use_weight)

text \<open>Taking the dropped entities is such a step; it makes the number smaller if it gives any entity.\<close>

lemma take_use:
  assumes ok: "fin_ok s"
  obtains out m where "em_take_dropped debug (em s) = Inr (out, m)"
    and "em_use leak debug s (s\<lparr>em := m, released := released s @ out\<rparr>)"
    and "out \<noteq> [] \<longrightarrow> weight (s\<lparr>em := m, released := released s @ out\<rparr>) < weight s"
    and "dropped_entity_ids (ref_counts m) = []"
proof -
  have cl: "client_ok s" and fin: "finite (dom (entities (em s)))" using ok by (auto simp: fin_ok_def)
  then have rc: "rc_ok (em_rc s) (image_mset entity_id (strong s)) (issued s)" by (simp add: client_ok_def)
  let ?d = "dropped_entity_ids (em_rc s)"
  define out where "out = List.map_filter (\<lambda>i. map_option (Pair i) (entities (em s) i)) ?d"
  obtain m where take: "em_take_dropped debug (em s) = Inr (out, m)"
    and m: "entities m = entities (em s) |` (- set ?d)" "dropped_entity_ids (ref_counts m) = []"
    using take_dropped_spec [OF rc, of debug] by (simp add: out_def)
  have "em_use leak debug s (s\<lparr>em := m, released := released s @ out\<rparr>)"
    unfolding em_use_def using em_step.Take_Dropped [OF take] by simp
  moreover have "weight (s\<lparr>em := m, released := released s @ out\<rparr>) < weight s" if "out \<noteq> []"
  proof -
    have "fst (hd out) \<in> set (filter (\<lambda>i. entities (em s) i \<noteq> None) ?d)"
      unfolding map_fst_taken [symmetric] out_def [symmetric] using that by simp
    then have "dom (entities m) \<subset> dom (entities (em s))"
      by (auto simp: m(1) dom_restrict)
    then have "card (dom (entities m)) < card (dom (entities (em s)))" using fin by (rule psubset_card_mono [rotated])
    then show ?thesis by (simp add: weight_def)
  qed
  ultimately show ?thesis using that [OF take _ _ m(2)] by blast
qed

text \<open>Client code that uses the entities of the application only through the operations of the map, and creates none.\<close>

definition uses_entities :: "bool \<Rightarrow> bool \<Rightarrow> (('c, 'v) app \<Rightarrow> ('c, 'v) app) \<Rightarrow> bool" where
  "uses_entities leak debug g \<longleftrightarrow>
     (\<forall>cx s. fin_ok s \<and> em s = app_entities cx \<longrightarrow>
        (\<exists>s'. (em_use leak debug)\<^sup>*\<^sup>* s s' \<and> em s' = app_entities (g cx)))"

lemma uses_entitiesE:
  assumes "uses_entities leak debug g" and "fin_ok s" and "em s = app_entities cx"
  obtains s' where "(em_use leak debug)\<^sup>*\<^sup>* s s'" and "em s' = app_entities (g cx)" and "fin_ok s'"
    and "weight s' \<le> weight s"
  using assms em_uses_weight unfolding uses_entities_def by blast

lemma uses_id: "(\<And>cx. app_entities (g cx) = app_entities cx) \<Longrightarrow> uses_entities leak debug g"
  unfolding uses_entities_def by (metis rtranclp.rtrancl_refl)

lemma uses_comp:
  fixes g h :: "('c, 'v) app \<Rightarrow> ('c, 'v) app"
  assumes "uses_entities leak debug g" and "uses_entities leak debug h"
  shows "uses_entities leak debug (\<lambda>cx. h (g cx))"
  unfolding uses_entities_def
proof (intro allI impI)
  fix cx :: "('c, 'v) app" and s assume "fin_ok s \<and> em s = app_entities cx"
  then obtain s1 where s1: "(em_use leak debug)\<^sup>*\<^sup>* s s1" "em s1 = app_entities (g cx)" "fin_ok s1"
    using uses_entitiesE [OF assms(1)] by metis
  obtain s2 where "(em_use leak debug)\<^sup>*\<^sup>* s1 s2" "em s2 = app_entities (h (g cx))"
    using uses_entitiesE [OF assms(2) s1(3,2)] by metis
  then show "\<exists>s'. (em_use leak debug)\<^sup>*\<^sup>* s s' \<and> em s' = app_entities (h (g cx))"
    using s1(1) by (meson rtranclp_trans)
qed

lemma uses_if:
  assumes "uses_entities leak debug g" and "uses_entities leak debug h"
  shows "uses_entities leak debug (\<lambda>cx. if P cx then g cx else h cx)"
  using assms unfolding uses_entities_def by auto

lemma uses_fold: "(\<And>x. uses_entities leak debug (g x)) \<Longrightarrow> uses_entities leak debug (fold g xs)"
proof (induction xs)
  case (Cons x xs)
  then show ?case using uses_comp [of leak debug "g x" "fold g xs"] by (simp add: o_def)
qed (simp add: uses_id)

lemma uses_release_callbacks:
  fixes release :: "'c \<Rightarrow> nat \<times> 'v \<Rightarrow> ('c, 'v) app \<Rightarrow> (nat \<times> 'v) \<times> ('c, 'v) app"
  assumes "\<And>c b. uses_entities leak debug (\<lambda>cx. snd (release c b cx))"
    and "\<And>b. uses_entities leak debug (drop_value b)"
  shows "uses_entities leak debug
    (\<lambda>cx. drop_value (fst (release_callbacks release subs b cx)) (snd (release_callbacks release subs b cx)))"
  unfolding uses_entities_def
proof (intro allI impI)
  fix cx :: "('c, 'v) app" and s assume "fin_ok s \<and> em s = app_entities cx"
  then show "\<exists>s'. (em_use leak debug)\<^sup>*\<^sup>* s s' \<and>
      em s' = app_entities (drop_value (fst (release_callbacks release subs b cx)) (snd (release_callbacks release subs b cx)))"
  proof (induction subs arbitrary: s b cx)
    case Nil
    then show ?case using assms(2) [of b] by (simp add: uses_entities_def)
  next
    case (Cons sub subs)
    show ?case
    proof (cases "is_active (release_listeners cx) sub")
      case True
      obtain s1 where s1: "(em_use leak debug)\<^sup>*\<^sup>* s s1" "em s1 = app_entities (snd (release (callback sub) b cx))" "fin_ok s1"
        using uses_entitiesE [OF assms(1) [of "callback sub" b], of s cx] Cons.prems by metis
      show ?thesis
        using Cons.IH [of s1 "snd (release (callback sub) b cx)" "fst (release (callback sub) b cx)"] s1 True
        by (auto simp: case_prod_unfold Let_def intro: rtranclp_trans)
    next
      case False
      then show ?thesis using Cons by simp
    qed
  qed
qed

lemma uses_release_entity:
  fixes release :: "'c \<Rightarrow> nat \<times> 'v \<Rightarrow> ('c, 'v) app \<Rightarrow> (nat \<times> 'v) \<times> ('c, 'v) app"
  assumes "\<And>c b. uses_entities leak debug (\<lambda>cx. snd (release c b cx))"
    and "\<And>b. uses_entities leak debug (drop_value b)"
  shows "uses_entities leak debug (release_entity release drop_value x)"
  unfolding uses_entities_def
proof (intro allI impI)
  fix cx :: "('c, 'v) app" and s assume s: "fin_ok s \<and> em s = app_entities cx"
  define cx2 where "cx2 = cx\<lparr>observers := snd (ss_remove (fst x) (observers cx)),
    event_listeners := snd (ss_remove (fst x) (event_listeners cx)),
    release_listeners := snd (ss_remove (fst x) (release_listeners cx))\<rparr>"
  let ?r = "release_callbacks release (fst (ss_remove (fst x) (release_listeners cx))) (snd x) cx2"
  have "release_entity release drop_value x cx = drop_value (fst ?r) (snd ?r)"
    by (simp add: release_entity_def Let_def case_prod_unfold cx2_def)
  moreover have "em s = app_entities cx2" using s by (simp add: cx2_def)
  ultimately show "\<exists>s'. (em_use leak debug)\<^sup>*\<^sup>* s s' \<and> em s' = app_entities (release_entity release drop_value x cx)"
    using uses_release_callbacks [where subs = "fst (ss_remove (fst x) (release_listeners cx))" and b = "snd x"
        and release = release and drop_value = drop_value, OF assms] s
    unfolding uses_entities_def by simp
qed

lemma release_ends:
  fixes release :: "'c \<Rightarrow> nat \<times> 'v \<Rightarrow> ('c, 'v) app \<Rightarrow> (nat \<times> 'v) \<times> ('c, 'v) app"
  assumes "\<And>c b. uses_entities leak debug (\<lambda>cx. snd (release c b cx))"
    and "\<And>b. uses_entities leak debug (drop_value b)"
  shows "fin_ok s \<Longrightarrow> em s = app_entities cx \<Longrightarrow>
    \<exists>cx' s'. release_dropped_entities release drop_value debug cx = Some cx' \<and> (em_use leak debug)\<^sup>*\<^sup>* s s' \<and>
      em s' = app_entities cx' \<and> client_ok s' \<and> dropped_entity_ids (em_rc s') = []"
proof (induction "weight s" arbitrary: s cx rule: less_induct)
  case less
  obtain out m where take: "em_take_dropped debug (em s) = Inr (out, m)"
    and use: "em_use leak debug s (s\<lparr>em := m, released := released s @ out\<rparr>)"
    and less_weight: "out \<noteq> [] \<longrightarrow> weight (s\<lparr>em := m, released := released s @ out\<rparr>) < weight s"
    and none: "dropped_entity_ids (ref_counts m) = []"
    by (rule take_use [OF less.prems(1), where debug = debug and leak = leak])
  define s1 where "s1 = s\<lparr>em := m, released := released s @ out\<rparr>"
  define cx1 where "cx1 = cx\<lparr>app_entities := m\<rparr>"
  have s1: "fin_ok s1" "em s1 = app_entities cx1" "(em_use leak debug)\<^sup>*\<^sup>* s s1"
    using em_use_weight [OF use less.prems(1)] use by (auto simp: s1_def cx1_def)
  show ?case
  proof (cases "out = []")
    case True
    then have "release_dropped_entities release drop_value debug cx = Some cx1"
      using take less.prems(2) by (subst release_dropped_entities.simps) (simp add: cx1_def)
    moreover have "client_ok s1" "dropped_entity_ids (em_rc s1) = []"
      using s1(1) none by (simp_all add: fin_ok_def) (simp add: s1_def)
    ultimately show ?thesis using s1 by blast
  next
    case False
    have "uses_entities leak debug (fold (release_entity release drop_value) out)"
      by (intro uses_fold uses_release_entity assms)
    then obtain s2 where s2: "(em_use leak debug)\<^sup>*\<^sup>* s1 s2" "fin_ok s2" "weight s2 \<le> weight s1"
      and em2: "em s2 = app_entities (fold (release_entity release drop_value) out cx1)"
      using uses_entitiesE [OF _ s1(1,2)] by metis
    have "weight s2 < weight s" using s2(3) less_weight False by (simp add: s1_def)
    from less.hyps [OF this s2(2) em2] obtain cx' s' where
      "release_dropped_entities release drop_value debug (fold (release_entity release drop_value) out cx1) = Some cx'"
      "(em_use leak debug)\<^sup>*\<^sup>* s2 s'" "em s' = app_entities cx'" "client_ok s'" "dropped_entity_ids (em_rc s') = []"
      by blast
    moreover have "release_dropped_entities release drop_value debug cx =
        release_dropped_entities release drop_value debug (fold (release_entity release drop_value) out cx1)"
      using take less.prems(2) False by (subst release_dropped_entities.simps) (simp add: cx1_def)
    ultimately show ?thesis using s1(3) s2(1) by (metis rtranclp_trans)
  qed
qed

text \<open>
  C11. The release of dropped entities returns when the release callbacks and the destructors of entities use
  the entity map only through its operations and create no entities, even if they drop the last handles of
  further entities. Afterwards no dropped entity is left, and every entity in the map has a strong handle.
\<close>

theorem release_returns:
  assumes "\<forall>c b. uses_entities leak debug (\<lambda>cx. snd (release c b cx))"
    and "\<forall>b. uses_entities leak debug (drop_value b)"
    and "client_ok s" and "finite (dom (entities (em s)))" and "em s = app_entities cx"
  shows "\<exists>cx' s'. release_dropped_entities release drop_value debug cx = Some cx' \<and>
    (em_use leak debug)\<^sup>*\<^sup>* s s' \<and> em s' = app_entities cx' \<and>
    dropped_entity_ids (ref_counts (app_entities cx')) = [] \<and>
    (\<forall>i. entities (app_entities cx') i \<noteq> None \<longrightarrow> live s' i > 0)"
proof -
  obtain cx' s' where ret: "release_dropped_entities release drop_value debug cx = Some cx'"
    "(em_use leak debug)\<^sup>*\<^sup>* s s'" "em s' = app_entities cx'" and ok: "client_ok s'"
    and none: "dropped_entity_ids (em_rc s') = []"
    using release_ends [of leak debug release drop_value s cx] assms unfolding fin_ok_def by metis
  have "live s' i > 0" if "entities (em s') i \<noteq> None" for i
  proof -
    have "rc_ok (em_rc s') (image_mset entity_id (strong s')) (issued s')" using ok by (simp add: client_ok_def)
    then have "counts (em_rc s') i \<noteq> Some 0" using rc_okD [of "em_rc s'" _ "issued s'" i] none by (auto simp: count_ok_def)
    moreover have "counts (em_rc s') i \<noteq> None" using placedD [OF ok, of i] that by blast
    ultimately show ?thesis using live_counts(2) [OF ok, of i] by auto
  qed
  then show ?thesis using ret none by metis
qed

theorem release_returns_witness:
  "\<exists>cx'. release_dropped_entities (\<lambda>c b cx. (b, cx)) (\<lambda>b cx. cx) True
       ((app_empty :: (int, int) app)\<lparr>app_entities := em sample_dropped\<rparr>) = Some cx' \<and>
     dropped_entity_ids (ref_counts (app_entities cx')) = []"
proof -
  have "client_ok sample_dropped" by (rule entity_life.inv_reachable [OF refl sample_dropped_reachable])
  moreover have "finite (dom (entities (em sample_dropped)))" by (simp add: sample_dropped_def)
  ultimately show ?thesis
    using release_returns [of True True "\<lambda>c b cx. (b, cx)" "\<lambda>b cx. cx" sample_dropped
        "(app_empty :: (int, int) app)\<lparr>app_entities := em sample_dropped\<rparr>"]
    by (auto simp: uses_id)
qed

end
