(* ===== verification/Line_Wrapper.thy ===== *)
theory Line_Wrapper
  imports Complex_Main Prelude "HOL-Library.Word" "HOL-Library.Sublist"
begin

text \<open>
  The line wrapper, \<open>crates/gpui/src/text_system/line_wrapper.rs\<close>: the wrapping of a line to a width, its
  truncation with a suffix, and the cache of character widths. A Rust \<open>char\<close> is here its code point,
  so that text is a list of numbers and the character classes of the code are modelled for all of Unicode.
  Widths (\<open>Pixels\<close>) are an ordered ring, exact where the code has \<open>f32\<close>. The layout of a line is
  computed by the platform, so it is a field of the wrapper that holds a function. Indents are \<open>u32\<close> words.

  The theory shows that the cache is transparent, that wrapping cuts the line into rows that fit, that it does not wrap
  where it need not, and that truncation keeps the runs of the line in step with its text.
\<close>

section \<open>Unicode text\<close>

type_synonym uchar = nat

fun char_len_utf8 :: "uchar \<Rightarrow> nat" where
  "char_len_utf8 c = (if c < 0x80 then 1 else if c < 0x800 then 2 else if c < 0x10000 then 3 else 4)"

definition str_len :: "uchar list \<Rightarrow> nat" where
  "str_len s = (\<Sum>c\<leftarrow>s. char_len_utf8 c)"

lemma char_len_utf8_pos [simp]: "0 < char_len_utf8 c"
  by simp

declare char_len_utf8.simps [simp del]

lemma str_len_simps [simp]:
  "str_len [] = 0" "str_len (c # s) = char_len_utf8 c + str_len s"
  "str_len (s @ t) = str_len s + str_len t"
  by (simp_all add: str_len_def)

lemma str_len_eq_0 [simp]: "str_len s = 0 \<longleftrightarrow> s = []"
  by (cases s) (simp_all add: char_len_utf8.simps)

text \<open>The white space of Unicode and the punctuation of ASCII.\<close>

definition uchar_is_whitespace :: "uchar \<Rightarrow> bool" where
  "uchar_is_whitespace c \<longleftrightarrow>
     9 \<le> c \<and> c \<le> 13 \<or> c = 0x20 \<or> c = 0x85 \<or> c = 0xA0 \<or> c = 0x1680 \<or> 0x2000 \<le> c \<and> c \<le> 0x200A \<or>
     c = 0x2028 \<or> c = 0x2029 \<or> c = 0x202F \<or> c = 0x205F \<or> c = 0x3000"

definition uchar_is_ascii_punctuation :: "uchar \<Rightarrow> bool" where
  "uchar_is_ascii_punctuation c \<longleftrightarrow>
     0x21 \<le> c \<and> c \<le> 0x2F \<or> 0x3A \<le> c \<and> c \<le> 0x40 \<or> 0x5B \<le> c \<and> c \<le> 0x60 \<or> 0x7B \<le> c \<and> c \<le> 0x7E"

definition uchar_is_ascii_alphanumeric :: "uchar \<Rightarrow> bool" where
  "uchar_is_ascii_alphanumeric c \<longleftrightarrow>
     0x30 \<le> c \<and> c \<le> 0x39 \<or> 0x41 \<le> c \<and> c \<le> 0x5A \<or> 0x61 \<le> c \<and> c \<le> 0x7A"

section \<open>Characters and their widths\<close>

datatype indent_adjustment = NoIndent | SameIndent | ExtraColumns "32 word"

type_synonym font_id = nat

record font_run =
  fr_len :: nat
  fr_font_id :: font_id

text \<open>
  \<open>PlatformTextSystem::layout_line\<close>, of which the wrapper only reads the width: text, font size and runs.
\<close>

type_synonym 'p line_width = "uchar list \<Rightarrow> 'p \<Rightarrow> font_run list \<Rightarrow> 'p"

record 'p line_wrapper =
  platform_text_system :: "'p line_width"
  lw_font_id :: font_id
  lw_font_size :: 'p
  cached_ascii_char_widths :: "'p option list"
  cached_other_char_widths :: "uchar \<rightharpoonup> 'p"

definition MAX_INDENT :: "32 word" where
  "MAX_INDENT = 256"

definition lw_new :: "font_id \<Rightarrow> 'p \<Rightarrow> 'p line_width \<Rightarrow> 'p line_wrapper" where
  "lw_new font_id font_size text_system =
     \<lparr>platform_text_system = text_system, lw_font_id = font_id, lw_font_size = font_size,
      cached_ascii_char_widths = replicate 128 None, cached_other_char_widths = Map.empty\<rparr>"

definition is_word_char :: "uchar \<Rightarrow> bool" where
  "is_word_char c \<longleftrightarrow>
     uchar_is_ascii_alphanumeric c \<or>
     0x00C0 \<le> c \<and> c \<le> 0x00FF \<or> 0x0100 \<le> c \<and> c \<le> 0x017F \<or> 0x0180 \<le> c \<and> c \<le> 0x024F \<or>
     0x0400 \<le> c \<and> c \<le> 0x04FF \<or>
     c \<in> set (map of_char ''-_.'') \<or> c = 0x27 \<or> c = 0x2019 \<or> c = 0x2018 \<or>
     c \<in> set (map of_char ''$%@#^~,!;*'') \<or>
     c \<in> set (map of_char ''/:?&='') \<or>
     c \<in> set (map of_char '')]}'') \<or> c = 0x22 \<or> c = 0x201D \<or> c = 0x00BB \<or> c = 0x2026 \<or>
     c = 0x22EF \<or>
     c = 0x202F \<or> c = 0x00A0 \<or> c = 0x2011"

definition compute_width_for_char :: "'p line_wrapper \<Rightarrow> uchar \<Rightarrow> 'p" where
  "compute_width_for_char lw c =
     platform_text_system lw [c] (lw_font_size lw)
       [\<lparr>fr_len = char_len_utf8 c, fr_font_id = lw_font_id lw\<rparr>]"

definition width_for_char :: "'p line_wrapper \<Rightarrow> uchar \<Rightarrow> 'p \<times> 'p line_wrapper" where
  "width_for_char lw c =
     (if c < 128 then
        case cached_ascii_char_widths lw ! c of
          Some cached_width \<Rightarrow> (cached_width, lw)
        | None \<Rightarrow>
            let width = compute_width_for_char lw c
            in (width, lw\<lparr>cached_ascii_char_widths := (cached_ascii_char_widths lw)[c := Some width]\<rparr>)
      else
        case cached_other_char_widths lw c of
          Some cached_width \<Rightarrow> (cached_width, lw)
        | None \<Rightarrow>
            let width = compute_width_for_char lw c
            in (width, lw\<lparr>cached_other_char_widths := (cached_other_char_widths lw)(c \<mapsto> width)\<rparr>))"

section \<open>Fragments and candidates\<close>

datatype 'p line_fragment = TextFragment "uchar list" | ElementFragment 'p nat

datatype 'p wrap_boundary_candidate = CharCandidate uchar | ElementCandidate 'p nat

fun candidate_len_utf8 :: "'p wrap_boundary_candidate \<Rightarrow> nat" where
  "candidate_len_utf8 (CharCandidate character) = char_len_utf8 character"
| "candidate_len_utf8 (ElementCandidate width len) = len"

text \<open>An element yields the characters of the text \<open>"\0"\<close>, which is one candidate.\<close>

fun wrap_boundary_candidates :: "'p line_fragment \<Rightarrow> 'p wrap_boundary_candidate list" where
  "wrap_boundary_candidates (TextFragment text) = map CharCandidate text"
| "wrap_boundary_candidates (ElementFragment width len) = map (\<lambda>character. ElementCandidate width len) [0::uchar]"

record boundary =
  b_ix :: nat
  next_indent :: "32 word"

section \<open>Wrapping\<close>

text \<open>The variables that the iterator of \<open>wrap_line\<close> captures.\<close>

record 'p wrap_state =
  ws_width :: 'p
  first_non_whitespace_ix :: "nat option"
  base_indent :: "32 word option"
  last_candidate_ix :: nat
  last_candidate_width :: 'p
  last_wrap_ix :: nat
  prev_c :: uchar
  ws_index :: nat

definition ws_init :: "('p::zero) wrap_state" where
  "ws_init = \<lparr>ws_width = 0, first_non_whitespace_ix = None, base_indent = None, last_candidate_ix = 0,
     last_candidate_width = 0, last_wrap_ix = 0, prev_c = 0, ws_index = 0\<rparr>"

definition mark_candidate :: "nat \<Rightarrow> 'p wrap_state \<Rightarrow> 'p wrap_state" where
  "mark_candidate ix s = s\<lparr>last_candidate_ix := ix, last_candidate_width := ws_width s\<rparr>"

definition mark_first :: "nat \<Rightarrow> 'p wrap_state \<Rightarrow> 'p wrap_state" where
  "mark_first ix s = s\<lparr>first_non_whitespace_ix := Some ix\<rparr>"

definition wrap_char :: "nat \<Rightarrow> uchar \<Rightarrow> 'p wrap_state \<Rightarrow> 'p wrap_state" where
  "wrap_char ix c s =
     (let s = (if is_word_char c then
                 if prev_c s = 32 \<and> c \<noteq> 32 \<and> first_non_whitespace_ix s \<noteq> None
                 then mark_candidate ix s else s
               else
                 if c \<noteq> 32 \<and> first_non_whitespace_ix s \<noteq> None then mark_candidate ix s else s)
      in if c \<noteq> 32 \<and> first_non_whitespace_ix s = None then mark_first ix s else s)"

definition wrap_element :: "nat \<Rightarrow> 'p wrap_state \<Rightarrow> 'p wrap_state" where
  "wrap_element ix s =
     (let s = (if prev_c s = 32 \<and> first_non_whitespace_ix s \<noteq> None then mark_candidate ix s else s)
      in if first_non_whitespace_ix s = None then mark_first ix s else s)"

definition saturating_add_u32 :: "32 word \<Rightarrow> 32 word \<Rightarrow> 32 word" where
  "saturating_add_u32 a b = (if a + b < a then - 1 else a + b)"

definition of_u32 :: "32 word \<Rightarrow> ('p::ring_1)" where
  "of_u32 n = of_int (uint n)"

text \<open>The first time a row is broken after a non-white character, the base indent is fixed.\<close>

definition fix_base_indent :: "'p wrap_state \<Rightarrow> 'p wrap_state" where
  "fix_base_indent s =
     (case (base_indent s, first_non_whitespace_ix s) of
        (None, Some first) \<Rightarrow>
          s\<lparr>base_indent := Some (min MAX_INDENT (word_of_nat (first - last_wrap_ix s)))\<rparr>
      | _ \<Rightarrow> s)"

definition compute_next_indent ::
  "('p::linordered_idom) \<Rightarrow> indent_adjustment \<Rightarrow> 'p \<Rightarrow> 32 word option \<Rightarrow> 'p line_wrapper \<Rightarrow> 32 word \<times> 'p line_wrapper"
  where
  "compute_next_indent wrap_width indent_adjustment carried_width base lw =
     (case indent_adjustment of
        NoIndent \<Rightarrow> (0, lw)
      | SameIndent \<Rightarrow> (case base of None \<Rightarrow> 0 | Some base \<Rightarrow> base, lw)
      | ExtraColumns extra \<Rightarrow>
          (case base of
             None \<Rightarrow> (0, lw)
           | Some base \<Rightarrow>
               let candidate = saturating_add_u32 base extra;
                   (space, lw) = width_for_char lw 32;
                   candidate_indent_width = space * of_u32 candidate;
                   (space, lw) = width_for_char lw 32;
                   min_headroom = max carried_width (space * 2)
               in (if candidate_indent_width + min_headroom > wrap_width then 0
                   else min MAX_INDENT candidate, lw)))"

definition wrap_break ::
  "('p::linordered_idom) \<Rightarrow> indent_adjustment \<Rightarrow> nat \<Rightarrow> 'p \<Rightarrow> 'p line_wrapper \<Rightarrow> 'p wrap_state \<Rightarrow>
     boundary \<times> 'p line_wrapper \<times> 'p wrap_state" where
  "wrap_break wrap_width indent_adjustment ix item_width lw s =
     (let wrap_at_candidate =
            last_candidate_ix s > 0 \<and> ws_width s - last_candidate_width s \<le> wrap_width;
          carried_width = (if wrap_at_candidate then ws_width s - last_candidate_width s else item_width);
          s = fix_base_indent s;
          (indent, lw) = compute_next_indent wrap_width indent_adjustment carried_width (base_indent s) lw;
          s = (if wrap_at_candidate
               then s\<lparr>last_wrap_ix := last_candidate_ix s, ws_width := ws_width s - last_candidate_width s\<rparr>
               else s\<lparr>last_wrap_ix := ix, ws_width := item_width\<rparr>);
          s = s\<lparr>last_candidate_ix := 0\<rparr>;
          (space, lw) = width_for_char lw 32;
          s = s\<lparr>ws_width := ws_width s + space * of_u32 indent\<rparr>
      in (\<lparr>b_ix = last_wrap_ix s, next_indent = indent\<rparr>, lw, s))"

text \<open>
  One turn of the loop. A line break is skipped before anything else; and when a boundary is returned, the previous
  character is not updated.
\<close>

definition wrap_item ::
  "('p::linordered_idom) \<Rightarrow> indent_adjustment \<Rightarrow> nat \<Rightarrow> 'p \<Rightarrow> uchar \<Rightarrow> 'p line_wrapper \<Rightarrow> 'p wrap_state \<Rightarrow>
     boundary option \<times> 'p line_wrapper \<times> 'p wrap_state" where
  "wrap_item wrap_width indent_adjustment ix item_width new_prev_c lw s =
     (let s = s\<lparr>ws_width := ws_width s + item_width\<rparr>
      in if ws_width s > wrap_width \<and> ix > last_wrap_ix s then
           let (b, lw, s) = wrap_break wrap_width indent_adjustment ix item_width lw s in (Some b, lw, s)
         else (None, lw, s\<lparr>prev_c := new_prev_c\<rparr>))"

fun wrap_step ::
  "('p::linordered_idom) \<Rightarrow> indent_adjustment \<Rightarrow> 'p wrap_boundary_candidate \<Rightarrow> 'p line_wrapper \<Rightarrow> 'p wrap_state \<Rightarrow>
     boundary option \<times> 'p line_wrapper \<times> 'p wrap_state" where
  "wrap_step wrap_width indent_adjustment (CharCandidate c) lw s =
     (let ix = ws_index s;
          s = s\<lparr>ws_index := ix + candidate_len_utf8 (CharCandidate c :: 'p wrap_boundary_candidate)\<rparr>
      in if c = 10 then (None, lw, s)
         else let s = wrap_char ix c s;
                  (item_width, lw) = width_for_char lw c
              in wrap_item wrap_width indent_adjustment ix item_width c lw s)"
| "wrap_step wrap_width indent_adjustment (ElementCandidate element_width len) lw s =
     (let ix = ws_index s;
          s = s\<lparr>ws_index := ix + candidate_len_utf8 (ElementCandidate element_width len)\<rparr>;
          new_prev_c = prev_c s;
          s = wrap_element ix s
      in wrap_item wrap_width indent_adjustment ix element_width new_prev_c lw s)"

text \<open>
  One call of the iterator: the boundary, or \<open>None\<close> at the end, with the candidates that are left.
\<close>

fun wrap_next ::
  "('p::linordered_idom) \<Rightarrow> indent_adjustment \<Rightarrow> 'p wrap_boundary_candidate list \<Rightarrow> 'p line_wrapper \<Rightarrow> 'p wrap_state \<Rightarrow>
     boundary option \<times> 'p wrap_boundary_candidate list \<times> 'p line_wrapper \<times> 'p wrap_state" where
  "wrap_next wrap_width indent_adjustment [] lw s = (None, [], lw, s)"
| "wrap_next wrap_width indent_adjustment (candidate # candidates) lw s =
     (case wrap_step wrap_width indent_adjustment candidate lw s of
        (Some b, lw, s) \<Rightarrow> (Some b, candidates, lw, s)
      | (None, lw, s) \<Rightarrow> wrap_next wrap_width indent_adjustment candidates lw s)"

lemma wrap_next_shorter:
  "wrap_next W adj cs lw s = (Some b, cs', lw', s') \<Longrightarrow> length cs' < length cs"
  by (induction cs arbitrary: lw s) (auto split: prod.splits option.splits simp: less_Suc_eq)

text \<open>All boundaries: the iterator called until it has no more.\<close>

function wrap_collect ::
  "('p::linordered_idom) \<Rightarrow> indent_adjustment \<Rightarrow> 'p wrap_boundary_candidate list \<Rightarrow> 'p line_wrapper \<Rightarrow> 'p wrap_state \<Rightarrow>
     boundary list \<times> 'p line_wrapper" where
  "wrap_collect wrap_width indent_adjustment candidates lw s =
     (case wrap_next wrap_width indent_adjustment candidates lw s of
        (None, candidates, lw, s) \<Rightarrow> ([], lw)
      | (Some b, candidates, lw, s) \<Rightarrow>
          let (bs, lw) = wrap_collect wrap_width indent_adjustment candidates lw s in (b # bs, lw))"
  by pat_completeness auto
termination
  by (relation "measure (\<lambda>(_, _, cs, _, _). length cs)") (auto dest: wrap_next_shorter sym)

declare wrap_collect.simps [simp del]

definition wrap_line ::
  "'p line_wrapper \<Rightarrow> 'p line_fragment list \<Rightarrow> ('p::linordered_idom) \<Rightarrow> indent_adjustment \<Rightarrow>
     boundary list \<times> 'p line_wrapper" where
  "wrap_line lw fragments wrap_width indent_adjustment =
     wrap_collect wrap_width indent_adjustment (concat (map wrap_boundary_candidates fragments)) lw ws_init"

section \<open>Truncation\<close>

text \<open>A text run: the length in bytes and the style, which truncation does not look at.\<close>

record 's text_run =
  tr_len :: nat
  tr_style :: 's

fun truncate_runs_loop :: "nat \<Rightarrow> nat \<Rightarrow> 's text_run list \<Rightarrow> 's text_run list" where
  "truncate_runs_loop ellipsis_len truncate_at [] = []"
| "truncate_runs_loop ellipsis_len truncate_at (run # runs) =
     (if tr_len run \<le> truncate_at then run # truncate_runs_loop ellipsis_len (truncate_at - tr_len run) runs
      else [run\<lparr>tr_len := truncate_at + ellipsis_len\<rparr>])"

definition update_runs_after_truncation :: "uchar list \<Rightarrow> uchar list \<Rightarrow> 's text_run list \<Rightarrow> 's text_run list" where
  "update_runs_after_truncation result ellipsis runs =
     truncate_runs_loop (str_len ellipsis) (str_len result - str_len ellipsis) runs"

fun suffix_width_loop :: "'p line_wrapper \<Rightarrow> ('p::plus) \<Rightarrow> uchar list \<Rightarrow> 'p \<times> 'p line_wrapper" where
  "suffix_width_loop lw a [] = (a, lw)"
| "suffix_width_loop lw a (c # cs) =
     (let (x, lw) = width_for_char lw c in suffix_width_loop lw (a + x) cs)"

definition trim_truncated :: "uchar list \<Rightarrow> uchar list" where
  "trim_truncated s =
     rev (dropWhile (\<lambda>c. uchar_is_whitespace c \<or> uchar_is_ascii_punctuation c) (rev s))"

text \<open>
  The loop of \<open>truncate_line\<close>. It returns the text before \<open>truncate_ix\<close> when the line is to be cut; \<open>seen\<close> and \<open>kept\<close> are the line
  before \<open>ix\<close> and before \<open>truncate_ix\<close>.
\<close>

fun truncate_loop ::
  "('p::floor_ceiling) \<Rightarrow> 'p \<Rightarrow> uchar list \<Rightarrow> 'p \<Rightarrow> uchar list \<Rightarrow> uchar list \<Rightarrow> 'p line_wrapper \<Rightarrow>
     uchar list option \<times> 'p line_wrapper" where
  "truncate_loop truncate_width suffix_width kept width seen [] lw = (None, lw)"
| "truncate_loop truncate_width suffix_width kept width seen (c # cs) lw =
     (let kept = (if width + suffix_width < truncate_width then seen else kept);
          (char_width, lw) = width_for_char lw c;
          width = width + char_width
      in if of_int \<lfloor>width\<rfloor> > truncate_width then (Some kept, lw)
         else truncate_loop truncate_width suffix_width kept width (seen @ [c]) cs lw)"

definition truncate_line ::
  "'p line_wrapper \<Rightarrow> uchar list \<Rightarrow> ('p::floor_ceiling) \<Rightarrow> uchar list \<Rightarrow> 's text_run list \<Rightarrow>
     uchar list \<times> 's text_run list \<times> 'p line_wrapper" where
  "truncate_line lw line truncate_width truncation_suffix runs =
     (let (suffix_width, lw) = suffix_width_loop lw 0 truncation_suffix
      in case truncate_loop truncate_width suffix_width [] 0 [] line lw of
           (None, lw) \<Rightarrow> (line, runs, lw)
         | (Some kept, lw) \<Rightarrow>
             let result = trim_truncated kept @ truncation_suffix
             in (result, update_runs_after_truncation result truncation_suffix runs, lw))"

section \<open>The cache is transparent\<close>

definition cache_ok :: "'p line_wrapper \<Rightarrow> bool" where
  "cache_ok lw \<longleftrightarrow>
     length (cached_ascii_char_widths lw) = 128 \<and>
     (\<forall>c w. c < 128 \<longrightarrow> cached_ascii_char_widths lw ! c = Some w \<longrightarrow> w = compute_width_for_char lw c) \<and>
     (\<forall>c w. cached_other_char_widths lw c = Some w \<longrightarrow> w = compute_width_for_char lw c)"

lemma cache_ok_new: "cache_ok (lw_new font_id font_size text_system)"
  by (simp add: cache_ok_def lw_new_def)

lemma compute_width_for_char_update [simp]:
  "compute_width_for_char (lw\<lparr>cached_ascii_char_widths := xs\<rparr>) = compute_width_for_char lw"
  "compute_width_for_char (lw\<lparr>cached_other_char_widths := f\<rparr>) = compute_width_for_char lw"
  by (simp_all add: fun_eq_iff compute_width_for_char_def)

text \<open>\<open>measures lw m\<close>: the widths of the wrapper are \<open>m\<close>, and its cache agrees with them.\<close>

definition measures :: "'p line_wrapper \<Rightarrow> (uchar \<Rightarrow> 'p) \<Rightarrow> bool" where
  "measures lw m \<longleftrightarrow> cache_ok lw \<and> compute_width_for_char lw = m"

lemma width_for_char_measures:
  assumes "measures lw m"
  obtains lw' where "width_for_char lw c = (m c, lw')" and "measures lw' m"
proof -
  have "fst (width_for_char lw c) = m c \<and> measures (snd (width_for_char lw c)) m"
    using assms
    by (cases "c < 128")
      (auto simp: measures_def width_for_char_def cache_ok_def Let_def nth_list_update split: option.splits)
  with that show ?thesis
    by (metis prod.collapse)
qed

text \<open>The same loop with a measure in place of the cache.\<close>

definition ref_next_indent ::
  "(uchar \<Rightarrow> 'p) \<Rightarrow> ('p::linordered_idom) \<Rightarrow> indent_adjustment \<Rightarrow> 'p \<Rightarrow> 32 word option \<Rightarrow> 32 word" where
  "ref_next_indent m W adj carried base =
     (case (adj, base) of
        (SameIndent, Some base) \<Rightarrow> base
      | (ExtraColumns extra, Some base) \<Rightarrow>
          (if m 32 * of_u32 (saturating_add_u32 base extra) + max carried (m 32 * 2) > W then 0
           else min MAX_INDENT (saturating_add_u32 base extra))
      | _ \<Rightarrow> 0)"

definition ref_break ::
  "(uchar \<Rightarrow> 'p) \<Rightarrow> ('p::linordered_idom) \<Rightarrow> indent_adjustment \<Rightarrow> nat \<Rightarrow> 'p \<Rightarrow> 'p wrap_state \<Rightarrow>
     boundary \<times> 'p wrap_state" where
  "ref_break m W adj ix w s =
     (let cut = last_candidate_ix s > 0 \<and> ws_width s - last_candidate_width s \<le> W;
          carried = (if cut then ws_width s - last_candidate_width s else w);
          wrap_ix = (if cut then last_candidate_ix s else ix);
          indent = ref_next_indent m W adj carried (base_indent (fix_base_indent s))
      in (\<lparr>b_ix = wrap_ix, next_indent = indent\<rparr>,
          (fix_base_indent s)\<lparr>last_wrap_ix := wrap_ix, last_candidate_ix := 0,
            ws_width := carried + m 32 * of_u32 indent\<rparr>))"

definition candidate_width :: "(uchar \<Rightarrow> 'p) \<Rightarrow> ('p::zero) wrap_boundary_candidate \<Rightarrow> 'p" where
  "candidate_width m c =
     (case c of CharCandidate c \<Rightarrow> if c = 10 then 0 else m c | ElementCandidate w len \<Rightarrow> w)"

fun ref_visit :: "'p wrap_boundary_candidate \<Rightarrow> 'p wrap_state \<Rightarrow> 'p wrap_state" where
  "ref_visit (CharCandidate c) s = (if c = 10 then s else wrap_char (ws_index s) c s)"
| "ref_visit (ElementCandidate w len) s = wrap_element (ws_index s) s"

fun ref_prev_c :: "'p wrap_boundary_candidate \<Rightarrow> uchar \<Rightarrow> uchar" where
  "ref_prev_c (CharCandidate c) p = (if c = 10 then p else c)"
| "ref_prev_c (ElementCandidate w len) p = p"

definition ref_step ::
  "(uchar \<Rightarrow> 'p) \<Rightarrow> ('p::linordered_idom) \<Rightarrow> indent_adjustment \<Rightarrow> 'p wrap_boundary_candidate \<Rightarrow> 'p wrap_state \<Rightarrow>
     boundary option \<times> 'p wrap_state" where
  "ref_step m W adj c s =
     (let ix = ws_index s;
          w = candidate_width m c;
          t = (ref_visit c s)\<lparr>ws_index := ix + candidate_len_utf8 c, ws_width := ws_width s + w\<rparr>
      in if c \<noteq> CharCandidate 10 \<and> ws_width s + w > W \<and> ix > last_wrap_ix s
         then (let (b, t) = ref_break m W adj ix w t in (Some b, t))
         else (None, t\<lparr>prev_c := ref_prev_c c (prev_c s)\<rparr>))"

fun ref_wrap ::
  "(uchar \<Rightarrow> 'p) \<Rightarrow> ('p::linordered_idom) \<Rightarrow> indent_adjustment \<Rightarrow> 'p wrap_boundary_candidate list \<Rightarrow> 'p wrap_state \<Rightarrow>
     boundary list" where
  "ref_wrap m W adj [] s = []"
| "ref_wrap m W adj (c # cs) s =
     (case ref_step m W adj c s of (ob, s) \<Rightarrow>
        (case ob of None \<Rightarrow> [] | Some b \<Rightarrow> [b]) @ ref_wrap m W adj cs s)"

lemma compute_next_indent_measures:
  assumes "measures lw m"
  obtains lw' where "compute_next_indent W adj carried base lw = (ref_next_indent m W adj carried base, lw')"
    and "measures lw' m"
proof (cases adj)
  case (ExtraColumns extra)
  from assms obtain lw1 where 1: "width_for_char lw 32 = (m 32, lw1)" "measures lw1 m"
    by (rule width_for_char_measures)
  from 1(2) obtain lw2 where 2: "width_for_char lw1 32 = (m 32, lw2)" "measures lw2 m"
    by (rule width_for_char_measures)
  show ?thesis
    using that [of "case base of None \<Rightarrow> lw | _ \<Rightarrow> lw2"] assms 1 2 ExtraColumns
    by (simp add: compute_next_indent_def ref_next_indent_def split: option.splits)
qed (use that [of lw] assms in
      \<open>simp_all add: compute_next_indent_def ref_next_indent_def split: option.splits\<close>)

lemma wrap_break_measures:
  assumes "measures lw m"
  obtains lw' where "wrap_break W adj ix w lw s = (fst (ref_break m W adj ix w s), lw', snd (ref_break m W adj ix w s))"
    and "measures lw' m"
proof -
  let ?at = "last_candidate_ix s > 0 \<and> ws_width s - last_candidate_width s \<le> W"
  let ?carried = "if ?at then ws_width s - last_candidate_width s else w"
  from assms obtain lw1 where 1: "compute_next_indent W adj ?carried (base_indent (fix_base_indent s)) lw
      = (ref_next_indent m W adj ?carried (base_indent (fix_base_indent s)), lw1)" "measures lw1 m"
    by (rule compute_next_indent_measures)
  from 1(2) obtain lw2 where 2: "width_for_char lw1 32 = (m 32, lw2)" "measures lw2 m"
    by (rule width_for_char_measures)
  have eq: "ws_width (fix_base_indent s) = ws_width s" "last_candidate_ix (fix_base_indent s) = last_candidate_ix s"
    "last_candidate_width (fix_base_indent s) = last_candidate_width s"
    by (auto simp: fix_base_indent_def split: option.splits)
  show ?thesis
    using that [of lw2] 1 2
    by (cases ?at) (auto simp: wrap_break_def ref_break_def Let_def eq)
qed

lemma ref_visit_keeps [simp]:
  "ws_width (ref_visit c s) = ws_width s" "last_wrap_ix (ref_visit c s) = last_wrap_ix s"
  "prev_c (ref_visit c s) = prev_c s" "base_indent (ref_visit c s) = base_indent s"
  by (cases c; auto simp: wrap_char_def wrap_element_def mark_candidate_def mark_first_def Let_def)+

lemma visit_ws_index:
  "wrap_char ix c (s\<lparr>ws_index := n\<rparr>) = (wrap_char ix c s)\<lparr>ws_index := n\<rparr>"
  "wrap_element ix (s\<lparr>ws_index := n\<rparr>) = (wrap_element ix s)\<lparr>ws_index := n\<rparr>"
  by (auto simp: wrap_char_def wrap_element_def mark_candidate_def mark_first_def Let_def)

lemma wrap_item_measures:
  assumes "measures lw m"
  obtains lw' where
    "wrap_item W adj ix w p lw s =
       (let t = s\<lparr>ws_width := ws_width s + w\<rparr>
        in if ws_width s + w > W \<and> ix > last_wrap_ix s
           then (Some (fst (ref_break m W adj ix w t)), lw', snd (ref_break m W adj ix w t))
           else (None, lw', t\<lparr>prev_c := p\<rparr>))"
    and "measures lw' m"
proof (cases "ws_width s + w > W \<and> ix > last_wrap_ix s")
  case True
  from assms obtain lw' where "wrap_break W adj ix w lw (s\<lparr>ws_width := ws_width s + w\<rparr>) =
      (fst (ref_break m W adj ix w (s\<lparr>ws_width := ws_width s + w\<rparr>)), lw',
       snd (ref_break m W adj ix w (s\<lparr>ws_width := ws_width s + w\<rparr>)))" and "measures lw' m"
    by (rule wrap_break_measures)
  then show ?thesis
    using True that [of lw'] by (auto simp: wrap_item_def Let_def)
next
  case False
  then show ?thesis
    using assms that [of lw] by (auto simp: wrap_item_def Let_def)
qed

lemma wrap_step_measures:
  assumes "measures lw m"
  obtains lw' where "wrap_step W adj c lw s = (fst (ref_step m W adj c s), lw', snd (ref_step m W adj c s))"
    and "measures lw' m"
proof (cases c)
  case (CharCandidate ch)
  show ?thesis
  proof (cases "ch = 10")
    case True
    then show ?thesis
      using that [of lw] assms CharCandidate by (simp add: ref_step_def candidate_width_def Let_def)
  next
    case False
    from assms obtain lw1 where 1: "width_for_char lw ch = (m ch, lw1)" "measures lw1 m"
      by (rule width_for_char_measures)
    let ?t = "(wrap_char (ws_index s) ch s)\<lparr>ws_index := ws_index s + char_len_utf8 ch\<rparr>"
    from 1(2) obtain lw2 where 2: "wrap_item W adj (ws_index s) (m ch) ch lw1 ?t =
       (let t = ?t\<lparr>ws_width := ws_width ?t + m ch\<rparr>
        in if ws_width ?t + m ch > W \<and> ws_index s > last_wrap_ix ?t
           then (Some (fst (ref_break m W adj (ws_index s) (m ch) t)), lw2, snd (ref_break m W adj (ws_index s) (m ch) t))
           else (None, lw2, t\<lparr>prev_c := ch\<rparr>))" "measures lw2 m"
      by (rule wrap_item_measures)
    have "ws_width ?t = ws_width s" "last_wrap_ix ?t = last_wrap_ix s"
      using False ref_visit_keeps [of "CharCandidate ch" s] by simp_all
    with 1 2 False CharCandidate show ?thesis
      using that [of lw2]
      by (simp add: visit_ws_index ref_step_def candidate_width_def Let_def split_beta)
  qed
next
  case (ElementCandidate ew len)
  let ?t = "(wrap_element (ws_index s) s)\<lparr>ws_index := ws_index s + len\<rparr>"
  from assms obtain lw2 where 2: "wrap_item W adj (ws_index s) ew (prev_c s) lw ?t =
     (let t = ?t\<lparr>ws_width := ws_width ?t + ew\<rparr>
      in if ws_width ?t + ew > W \<and> ws_index s > last_wrap_ix ?t
         then (Some (fst (ref_break m W adj (ws_index s) ew t)), lw2, snd (ref_break m W adj (ws_index s) ew t))
         else (None, lw2, t\<lparr>prev_c := prev_c s\<rparr>))" "measures lw2 m"
    by (rule wrap_item_measures)
  have "ws_width ?t = ws_width s" "last_wrap_ix ?t = last_wrap_ix s"
    using ref_visit_keeps [of "ElementCandidate ew len" s] by simp_all
  with 2 ElementCandidate show ?thesis
    using that [of lw2]
    by (simp add: visit_ws_index ref_step_def candidate_width_def Let_def split_beta)
qed

text \<open>The iterator called to its end goes once through the candidates.\<close>

lemma wrap_collect_Cons:
  "wrap_collect W adj (c # cs) lw s =
     (case wrap_step W adj c lw s of (ob, lw, s) \<Rightarrow>
        (case wrap_collect W adj cs lw s of (bs, lw) \<Rightarrow>
           ((case ob of None \<Rightarrow> [] | Some b \<Rightarrow> [b]) @ bs, lw)))"
  by (subst wrap_collect.simps)
    (auto simp: wrap_collect.simps [of W adj cs] split: prod.splits option.splits)

lemma wrap_collect_measures:
  assumes "measures lw m"
  shows "fst (wrap_collect W adj cs lw s) = ref_wrap m W adj cs s \<and> measures (snd (wrap_collect W adj cs lw s)) m"
  using assms
proof (induction cs arbitrary: lw s)
  case Nil
  then show ?case by (simp add: wrap_collect.simps)
next
  case (Cons c cs)
  from Cons.prems obtain lw' where "wrap_step W adj c lw s = (fst (ref_step m W adj c s), lw', snd (ref_step m W adj c s))"
    and "measures lw' m"
    by (rule wrap_step_measures)
  with Cons.IH [of lw' "snd (ref_step m W adj c s)"] show ?case
    by (simp add: wrap_collect_Cons split_beta)
qed

definition line_candidates :: "'p line_fragment list \<Rightarrow> 'p wrap_boundary_candidate list" where
  "line_candidates fragments = concat (map wrap_boundary_candidates fragments)"

lemma wrap_line_correct:
  assumes "cache_ok lw"
  shows "fst (wrap_line lw fragments W adj)
           = ref_wrap (compute_width_for_char lw) W adj (line_candidates fragments) ws_init"
    and "cache_ok (snd (wrap_line lw fragments W adj))"
    and "compute_width_for_char (snd (wrap_line lw fragments W adj)) = compute_width_for_char lw"
  using wrap_collect_measures [of lw "compute_width_for_char lw" W adj "line_candidates fragments" ws_init] assms
  by (simp_all add: wrap_line_def line_candidates_def measures_def)

section \<open>Rows\<close>

definition candidates_len :: "'p wrap_boundary_candidate list \<Rightarrow> nat" where
  "candidates_len cs = (\<Sum>c\<leftarrow>cs. candidate_len_utf8 c)"

definition candidates_width :: "(uchar \<Rightarrow> 'p) \<Rightarrow> ('p::linordered_idom) wrap_boundary_candidate list \<Rightarrow> 'p" where
  "candidates_width m cs = (\<Sum>c\<leftarrow>cs. candidate_width m c)"

lemma candidates_len_simps [simp]:
  "candidates_len [] = 0" "candidates_len (c # cs) = candidate_len_utf8 c + candidates_len cs"
  "candidates_len (cs @ ds) = candidates_len cs + candidates_len ds"
  by (simp_all add: candidates_len_def)

lemma candidates_width_simps [simp]:
  "candidates_width m [] = 0" "candidates_width m (c # cs) = candidate_width m c + candidates_width m cs"
  "candidates_width m (cs @ ds) = candidates_width m cs + candidates_width m ds"
  by (simp_all add: candidates_width_def)

lemma candidates_width_nonneg:
  "(\<And>c. c \<in> set cs \<Longrightarrow> 0 \<le> candidate_width m c) \<Longrightarrow> 0 \<le> candidates_width m cs"
  by (induction cs) simp_all

lemma candidates_len_pos:
  "cs \<noteq> [] \<Longrightarrow> (\<And>c. c \<in> set cs \<Longrightarrow> 0 < candidate_len_utf8 c) \<Longrightarrow> 0 < candidates_len cs"
  by (cases cs) simp_all

definition indented_width ::
  "(uchar \<Rightarrow> 'p) \<Rightarrow> 32 word \<Rightarrow> ('p::linordered_idom) wrap_boundary_candidate list \<Rightarrow> 'p" where
  "indented_width m ind row = m 32 * of_u32 ind + candidates_width m row"

text \<open>
  \<open>cuts base bs rows\<close>: the rows are what the boundaries make of a text that starts at \<open>base\<close>. \<open>rows_fit\<close>: each row fits with
  its indent. \<open>rows_full\<close>: no row could take in the whole next one.
\<close>

fun cuts :: "nat \<Rightarrow> boundary list \<Rightarrow> 'p wrap_boundary_candidate list list \<Rightarrow> bool" where
  "cuts base [] rows \<longleftrightarrow> (\<exists>row. rows = [row])"
| "cuts base (b # bs) rows \<longleftrightarrow>
     (\<exists>row rest. rows = row # rest \<and> row \<noteq> [] \<and> b_ix b = base + candidates_len row \<and> cuts (b_ix b) bs rest)"

fun rows_fit ::
  "(uchar \<Rightarrow> 'p) \<Rightarrow> 'p \<Rightarrow> 32 word \<Rightarrow> boundary list \<Rightarrow> ('p::linordered_idom) wrap_boundary_candidate list list \<Rightarrow> bool" where
  "rows_fit m W ind [] rows \<longleftrightarrow> indented_width m ind (hd rows) \<le> W"
| "rows_fit m W ind (b # bs) rows \<longleftrightarrow>
     indented_width m ind (hd rows) \<le> W \<and> rows_fit m W (next_indent b) bs (tl rows)"

fun rows_full ::
  "(uchar \<Rightarrow> 'p) \<Rightarrow> 'p \<Rightarrow> 32 word \<Rightarrow> boundary list \<Rightarrow> ('p::linordered_idom) wrap_boundary_candidate list list \<Rightarrow> bool" where
  "rows_full m W ind [] rows \<longleftrightarrow> True"
| "rows_full m W ind (b # bs) rows \<longleftrightarrow>
     indented_width m ind (hd rows @ hd (tl rows)) > W \<and> rows_full m W (next_indent b) bs (tl rows)"

text \<open>
  The invariant of the loop: \<open>cur\<close> is the row so far, \<open>fixed\<close> the part of it that was carried over the last break, after which the
  next break comes.
\<close>

definition candidate_in ::
  "(uchar \<Rightarrow> 'p) \<Rightarrow> 'p wrap_boundary_candidate list \<Rightarrow> 'p wrap_boundary_candidate list \<Rightarrow> nat \<Rightarrow> 32 word \<Rightarrow>
     ('p::linordered_idom) wrap_state \<Rightarrow> bool" where
  "candidate_in m fixed cur base ind s \<longleftrightarrow>
     (0 < last_candidate_ix s \<longrightarrow>
        (\<exists>pre post. cur = pre @ post \<and> pre \<noteq> [] \<and> prefix fixed pre \<and>
           last_candidate_ix s = base + candidates_len pre \<and> last_candidate_width s = indented_width m ind pre))"

definition wrap_inv ::
  "(uchar \<Rightarrow> 'p) \<Rightarrow> 'p wrap_boundary_candidate list \<Rightarrow> 'p wrap_boundary_candidate list \<Rightarrow> nat \<Rightarrow> 32 word \<Rightarrow>
     ('p::linordered_idom) wrap_state \<Rightarrow> bool" where
  "wrap_inv m fixed cur base ind s \<longleftrightarrow>
     last_wrap_ix s = base \<and> ws_index s = base + candidates_len cur \<and> ws_width s = indented_width m ind cur \<and>
     prefix fixed cur \<and> (cur = [] \<longrightarrow> first_non_whitespace_ix s = None \<and> ind = 0) \<and>
     candidate_in m fixed cur base ind s"

definition width_inv :: "('p::linordered_idom) \<Rightarrow> 'p wrap_state \<Rightarrow> bool" where
  "width_inv W s \<longleftrightarrow> ws_width s \<le> W \<and> (0 < last_candidate_ix s \<longrightarrow> last_candidate_width s \<le> W)"

lemma ref_visit_candidate:
  assumes inv: "wrap_inv m fixed cur base ind s"
  shows "candidate_in m fixed cur base ind (ref_visit c s)"
proof (cases "last_candidate_ix (ref_visit c s) = last_candidate_ix s \<and>
    last_candidate_width (ref_visit c s) = last_candidate_width s")
  case True
  with inv show ?thesis by (auto simp: wrap_inv_def candidate_in_def)
next
  case False
  then have "first_non_whitespace_ix s \<noteq> None" and
    "last_candidate_ix (ref_visit c s) = ws_index s" "last_candidate_width (ref_visit c s) = ws_width s"
    by (cases c; auto simp: wrap_char_def wrap_element_def mark_candidate_def mark_first_def Let_def
        split: if_splits)+
  with inv show ?thesis
    unfolding candidate_in_def wrap_inv_def by (intro impI exI [of _ cur] exI [of _ "[]"]) auto
qed

lemma ref_visit_width_inv: "width_inv W s \<Longrightarrow> width_inv W (ref_visit c s)"
  by (cases c) (auto simp: width_inv_def wrap_char_def wrap_element_def mark_candidate_def mark_first_def Let_def)

lemma of_u32_mono: "a \<le> b \<Longrightarrow> (of_u32 a :: 'p::linordered_idom) \<le> of_u32 b"
  by (simp only: of_u32_def of_int_le_iff word_le_def)

lemma of_u32_0 [simp]: "of_u32 0 = 0"
  by (simp add: of_u32_def)

lemma ref_next_indent_fits:
  assumes "adj \<noteq> SameIndent" and "carried \<le> W" and "0 \<le> m 32"
  shows "carried + m 32 * of_u32 (ref_next_indent m W adj carried base) \<le> W"
proof -
  have mono: "m 32 * of_u32 (min MAX_INDENT n) \<le> m 32 * (of_u32 n :: 'a)" for n
    using assms(3) by (intro mult_left_mono of_u32_mono) simp_all
  show ?thesis
  proof (cases adj)
    case (ExtraColumns extra)
    show ?thesis
    proof (cases base)
      case (Some b)
      let ?n = "saturating_add_u32 b extra"
      have "carried \<le> max carried (m 32 * 2)" by simp
      with mono [of ?n] have "carried + m 32 * of_u32 (min MAX_INDENT ?n) \<le> m 32 * of_u32 ?n + max carried (m 32 * 2)"
        by (metis add.commute add_mono)
      with ExtraColumns Some assms(2) show ?thesis
        by (auto simp: ref_next_indent_def not_less intro: order_trans)
    qed (use ExtraColumns assms(2) in \<open>simp add: ref_next_indent_def\<close>)
  qed (use assms in \<open>simp_all add: ref_next_indent_def\<close>)
qed

lemma ref_step_continues:
  assumes "wrap_inv m fixed cur base ind s" and "ref_step m W adj c s = (None, s')"
  shows "wrap_inv m fixed (cur @ [c]) base ind s'"
proof -
  have s': "last_wrap_ix s' = last_wrap_ix s" "ws_index s' = ws_index s + candidate_len_utf8 c"
    "ws_width s' = ws_width s + candidate_width m c"
    "last_candidate_ix s' = last_candidate_ix (ref_visit c s)"
    "last_candidate_width s' = last_candidate_width (ref_visit c s)"
    using assms(2) by (auto simp: ref_step_def Let_def split: if_splits prod.splits)
  have "candidate_in m fixed (cur @ [c]) base ind s'"
    using ref_visit_candidate [OF assms(1), of c] unfolding candidate_in_def s'(4,5)
    by (metis append.assoc)
  with assms(1) s' show ?thesis
    by (auto simp: wrap_inv_def indented_width_def)
qed

lemma ref_step_breaks:
  assumes inv: "wrap_inv m fixed cur base ind s" and step: "ref_step m W adj c s = (Some b, s')"
  obtains pre post where "cur = pre @ post" and "pre \<noteq> []" and "prefix fixed pre"
    and "b_ix b = base + candidates_len pre" and "wrap_inv m (post @ [c]) (post @ [c]) (b_ix b) (next_indent b) s'"
    and "indented_width m ind (cur @ [c]) > W"
    and "width_inv W s \<longrightarrow> indented_width m ind pre \<le> W"
proof -
  let ?w = "candidate_width m c"
  let ?v = "ref_visit c s"
  let ?t = "?v\<lparr>ws_index := ws_index s + candidate_len_utf8 c, ws_width := ws_width s + ?w\<rparr>"
  have over: "ws_width s + ?w > W" "ws_index s > last_wrap_ix s"
    and eq: "(b, s') = ref_break m W adj (ws_index s) ?w ?t"
    using step by (auto simp: ref_step_def Let_def split: if_splits prod.splits)
  have cur: "cur \<noteq> []" "indented_width m ind (cur @ [c]) > W"
    using over inv by (auto simp: wrap_inv_def indented_width_def add.assoc)
  have fbi: "ws_index (fix_base_indent t) = ws_index t" for t :: "'a wrap_state"
    by (auto simp: fix_base_indent_def split: option.splits)
  note s' = eq [unfolded ref_break_def Let_def]
  show ?thesis
  proof (cases "last_candidate_ix ?v > 0 \<and> ws_width s + ?w - last_candidate_width ?v \<le> W")
    case True
    with ref_visit_candidate [OF inv, of c] obtain pre post where pre: "cur = pre @ post" "pre \<noteq> []" "prefix fixed pre"
      "last_candidate_ix ?v = base + candidates_len pre" "last_candidate_width ?v = indented_width m ind pre"
      by (auto simp: candidate_in_def)
    show ?thesis
    proof (rule that [OF pre(1-3) _ _ cur(2)])
      show "b_ix b = base + candidates_len pre" using s' True pre by simp
      show "wrap_inv m (post @ [c]) (post @ [c]) (b_ix b) (next_indent b) s'"
        using s' True pre inv by (auto simp: wrap_inv_def candidate_in_def indented_width_def fbi)
      show "width_inv W s \<longrightarrow> indented_width m ind pre \<le> W"
        using ref_visit_width_inv [of W s c] pre True by (auto simp: width_inv_def)
    qed
  next
    case False
    show ?thesis
    proof (rule that [of cur "[]"])
      show "b_ix b = base + candidates_len cur" using s' False inv by (simp add: wrap_inv_def if_not_P)
      show "wrap_inv m ([] @ [c]) ([] @ [c]) (b_ix b) (next_indent b) s'"
        using s' False inv by (auto simp: wrap_inv_def candidate_in_def indented_width_def fbi if_not_P)
      show "width_inv W s \<longrightarrow> indented_width m ind cur \<le> W"
        using inv by (simp add: width_inv_def wrap_inv_def)
    qed (use cur inv in \<open>simp_all add: wrap_inv_def\<close>)
  qed
qed

lemma ref_step_width:
  assumes "wrap_inv m fixed cur base ind s" and "width_inv W s" and "ref_step m W adj c s = (ob, s')"
    and "adj \<noteq> SameIndent" and "0 \<le> m 32" and "candidate_width m c \<le> W"
    and "\<And>d. d \<in> set cur \<Longrightarrow> 0 < candidate_len_utf8 d"
  shows "width_inv W s'"
proof -
  let ?w = "candidate_width m c"
  let ?t = "(ref_visit c s)\<lparr>ws_index := ws_index s + candidate_len_utf8 c, ws_width := ws_width s + ?w\<rparr>"
  note v = ref_visit_width_inv [OF assms(2), of c]
  show ?thesis
  proof (cases "c \<noteq> CharCandidate 10 \<and> ws_width s + ?w > W \<and> ws_index s > last_wrap_ix s")
    case True
    then have "s' = snd (ref_break m W adj (ws_index s) ?w ?t)"
      using assms(3) by (auto simp: ref_step_def Let_def split: prod.splits)
    with ref_next_indent_fits [of adj _ W m, OF assms(4) _ assms(5)] assms(6) show ?thesis
      by (auto simp: width_inv_def ref_break_def Let_def)
  next
    case False
    then have s': "s' = ?t\<lparr>prev_c := ref_prev_c c (prev_c s)\<rparr>"
      using assms(3) by (auto simp: ref_step_def Let_def split: prod.splits)
    have "ws_width s + ?w \<le> W"
    proof (cases "cur = []")
      case True
      with assms(1,6) show ?thesis by (simp add: wrap_inv_def indented_width_def)
    next
      case ne: False
      with candidates_len_pos [of cur] assms(1,7) have "ws_index s > last_wrap_ix s"
        by (auto simp: wrap_inv_def)
      with False assms(2) show ?thesis
        by (auto simp: width_inv_def candidate_width_def)
    qed
    with v s' show ?thesis by (simp add: width_inv_def)
  qed
qed

lemma ref_wrap_rows:
  fixes m :: "uchar \<Rightarrow> 'p::linordered_idom"
  assumes "wrap_inv m fixed cur base ind s" and "\<And>c. c \<in> set (cur @ cs) \<Longrightarrow> 0 < candidate_len_utf8 c"
  shows "\<exists>rows. concat rows = cur @ cs \<and> cuts base (ref_wrap m W adj cs s) rows \<and> prefix fixed (hd rows) \<and>
    (width_inv W s \<and> adj \<noteq> SameIndent \<and> 0 \<le> m 32 \<and> (\<forall>c \<in> set cs. candidate_width m c \<le> W) \<longrightarrow>
       rows_fit m W ind (ref_wrap m W adj cs s) rows) \<and>
    ((\<forall>c \<in> set (cur @ cs). 0 \<le> candidate_width m c) \<longrightarrow> rows_full m W ind (ref_wrap m W adj cs s) rows)"
  using assms
proof (induction cs arbitrary: fixed cur base ind s)
  case Nil
  then show ?case
    by (intro exI [of _ "[cur]"]) (auto simp: wrap_inv_def width_inv_def)
next
  case (Cons c cs)
  obtain ob s' where step: "ref_step m W adj c s = (ob, s')" by fastforce
  note width = ref_step_width [OF Cons.prems(1) _ step]
  show ?case
  proof (cases ob)
    case None
    with step have inv: "wrap_inv m fixed (cur @ [c]) base ind s'"
      by (auto intro: ref_step_continues [OF Cons.prems(1)])
    have "\<And>d. d \<in> set ((cur @ [c]) @ cs) \<Longrightarrow> 0 < candidate_len_utf8 d" using Cons.prems(2) by auto
    from Cons.IH [OF inv this] obtain rows where "concat rows = cur @ c # cs" "cuts base (ref_wrap m W adj cs s') rows"
      "prefix fixed (hd rows)" and fit: "width_inv W s' \<and> adj \<noteq> SameIndent \<and> 0 \<le> m 32 \<and> (\<forall>c \<in> set cs. candidate_width m c \<le> W) \<longrightarrow>
         rows_fit m W ind (ref_wrap m W adj cs s') rows"
      "(\<forall>d \<in> set ((cur @ [c]) @ cs). 0 \<le> candidate_width m d) \<longrightarrow> rows_full m W ind (ref_wrap m W adj cs s') rows"
      by auto
    moreover have "ref_wrap m W adj (c # cs) s = ref_wrap m W adj cs s'" using step None by simp
    ultimately show ?thesis
      using width Cons.prems(2) by (intro exI [of _ rows]) auto
  next
    case (Some b)
    note step = step [unfolded Some]
    obtain pre post where pre: "cur = pre @ post" "pre \<noteq> []" "prefix fixed pre" "b_ix b = base + candidates_len pre"
      and inv: "wrap_inv m (post @ [c]) (post @ [c]) (b_ix b) (next_indent b) s'"
      and over: "indented_width m ind (cur @ [c]) > W" and fits: "width_inv W s \<longrightarrow> indented_width m ind pre \<le> W"
      by (rule ref_step_breaks [OF Cons.prems(1) step])
    have "\<And>d. d \<in> set ((post @ [c]) @ cs) \<Longrightarrow> 0 < candidate_len_utf8 d" using Cons.prems(2) pre by auto
    from Cons.IH [OF inv this] obtain rows where rows: "concat rows = (post @ [c]) @ cs"
      "cuts (b_ix b) (ref_wrap m W adj cs s') rows" "prefix (post @ [c]) (hd rows)"
      and fit: "width_inv W s' \<and> adj \<noteq> SameIndent \<and> 0 \<le> m 32 \<and> (\<forall>c \<in> set cs. candidate_width m c \<le> W) \<longrightarrow>
         rows_fit m W (next_indent b) (ref_wrap m W adj cs s') rows"
      and full: "(\<forall>d \<in> set ((post @ [c]) @ cs). 0 \<le> candidate_width m d) \<longrightarrow>
         rows_full m W (next_indent b) (ref_wrap m W adj cs s') rows"
      by blast
    have eq: "ref_wrap m W adj (c # cs) s = b # ref_wrap m W adj cs s'" using step by simp
    have "rows_full m W ind (b # ref_wrap m W adj cs s') (pre # rows)"
      if nonneg: "\<forall>d \<in> set (cur @ c # cs). 0 \<le> candidate_width m d"
    proof -
      from rows(3) obtain more where more: "hd rows = (post @ [c]) @ more" by (auto simp: prefix_def)
      moreover have "rows \<noteq> []" using rows(1) by auto
      ultimately have "set more \<subseteq> set (concat rows)" by (cases rows) auto
      with rows(1) pre(1) nonneg have "0 \<le> candidates_width m more"
        by (intro candidates_width_nonneg) auto
      with over pre(1) more have "indented_width m ind (pre @ hd rows) > W"
        by (simp add: indented_width_def)
      with full nonneg pre(1) show ?thesis by simp
    qed
    then show ?thesis
      unfolding eq using rows pre fit fits width Cons.prems(2) by (intro exI [of _ "pre # rows"]) auto
  qed
qed

lemma wrap_inv_init: "wrap_inv m [] [] 0 0 ws_init"
  by (simp add: wrap_inv_def ws_init_def candidate_in_def indented_width_def)

definition elements_have_length :: "'p line_fragment list \<Rightarrow> bool" where
  "elements_have_length fragments \<longleftrightarrow> (\<forall>w. ElementFragment w 0 \<notin> set fragments)"

lemma line_candidates_len_pos:
  "elements_have_length fragments \<Longrightarrow> c \<in> set (line_candidates fragments) \<Longrightarrow> 0 < candidate_len_utf8 c"
proof -
  assume "elements_have_length fragments" and "c \<in> set (line_candidates fragments)"
  then obtain f where "f \<in> set fragments" "c \<in> set (wrap_boundary_candidates f)" "\<forall>w. ElementFragment w 0 \<noteq> f"
    by (auto simp: line_candidates_def elements_have_length_def)
  then show ?thesis by (cases rule: line_fragment.exhaust [of f]) auto
qed

text \<open>A line that fits into the width is one row, when no row could take in the next.\<close>

lemma rows_full_fits:
  fixes m :: "uchar \<Rightarrow> 'p::linordered_idom"
  assumes "concat rows = cs" and "cuts 0 bs rows" and "rows_full m W 0 bs rows" and le: "candidates_width m cs \<le> W"
    and nonneg: "\<And>c. c \<in> set cs \<Longrightarrow> 0 \<le> candidate_width m c"
  shows "bs = []"
proof (cases bs)
  case (Cons b bs')
  with assms(2) obtain r1 r2 rs where "rows = r1 # r2 # rs" by (cases bs') auto
  with assms(1,3) Cons have "candidates_width m (r1 @ r2) > W" "cs = (r1 @ r2) @ concat rs"
    by (auto simp: indented_width_def)
  moreover have "0 \<le> candidates_width m (concat rs)"
    using nonneg calculation(2) by (intro candidates_width_nonneg) auto
  ultimately show ?thesis using le by simp
qed

section \<open>Properties of wrapping\<close>

text \<open>A wrapper for a font whose characters all have width one.\<close>

definition mono_wrapper :: "('p::linordered_idom) line_wrapper" where
  "mono_wrapper = lw_new 0 1 (\<lambda>text font_size runs. of_nat (length text))"

lemma mono_wrapper_simps [simp]:
  "cache_ok mono_wrapper" "compute_width_for_char mono_wrapper = (\<lambda>c. 1)"
  by (simp add: mono_wrapper_def cache_ok_new)
    (simp add: mono_wrapper_def fun_eq_iff compute_width_for_char_def lw_new_def)

definition sample_line :: "int line_fragment list" where
  "sample_line = [TextFragment [97, 32, 98], ElementFragment 2 3]"

lemma sample_line_simps [simp]:
  "elements_have_length sample_line"
  "line_candidates sample_line = [CharCandidate 97, CharCandidate 32, CharCandidate 98, ElementCandidate 2 3]"
  by (simp_all add: sample_line_def elements_have_length_def line_candidates_def)

lemma measures_mono_wrapper: "measures mono_wrapper (\<lambda>c. 1)"
  by (simp add: measures_def)

text \<open>
  C22. Wrapping cuts a line, in which no element has length zero, into rows at the boundaries it returns: the rows put together are the line, no row before a
  boundary is empty, and each boundary is the byte index at which the next row starts. This holds for every width and every kind of
  indent. If rows are indented by nothing or by extra columns (not by the indent of the line), the width and that of a space are not negative,
  and every character and element fits the width alone, then every row fits together with its indent. If no width is negative, then
  no row could take in the whole next row, for every kind of indent; in particular a line that fits is not wrapped.
\<close>

theorem wrap_line_rows:
  fixes lw :: "('p::linordered_idom) line_wrapper"
  assumes "cache_ok lw" and "elements_have_length fragments"
    and m: "m = compute_width_for_char lw" and bs: "bs = fst (wrap_line lw fragments W adj)"
  shows "\<exists>rows. concat rows = line_candidates fragments \<and> cuts 0 bs rows \<and>
    (adj \<noteq> SameIndent \<and> 0 \<le> W \<and> 0 \<le> m 32 \<and> (\<forall>c \<in> set (line_candidates fragments). candidate_width m c \<le> W) \<longrightarrow> rows_fit m W 0 bs rows) \<and>
    ((\<forall>c \<in> set (line_candidates fragments). 0 \<le> candidate_width m c) \<longrightarrow>
       rows_full m W 0 bs rows \<and> (candidates_width m (line_candidates fragments) \<le> W \<longrightarrow> bs = []))"
proof -
  let ?cs = "line_candidates fragments"
  have bs': "bs = ref_wrap m W adj ?cs ws_init" unfolding bs m by (rule wrap_line_correct(1) [OF assms(1)])
  obtain rows where rows: "concat rows = ?cs" "cuts 0 bs rows"
    "width_inv W ws_init \<and> adj \<noteq> SameIndent \<and> 0 \<le> m 32 \<and> (\<forall>c \<in> set ?cs. candidate_width m c \<le> W) \<longrightarrow> rows_fit m W 0 bs rows"
    "(\<forall>c \<in> set ?cs. 0 \<le> candidate_width m c) \<longrightarrow> rows_full m W 0 bs rows"
    using ref_wrap_rows [OF wrap_inv_init, of ?cs m W adj] line_candidates_len_pos [OF assms(2)] unfolding bs' by auto
  have "width_inv W ws_init" if "0 \<le> W" using that by (simp add: width_inv_def ws_init_def)
  moreover have "bs = []" if le: "candidates_width m ?cs \<le> W" and nonneg: "\<forall>c \<in> set ?cs. 0 \<le> candidate_width m c"
    using rows_full_fits [OF rows(1,2) _ le] rows(4) nonneg by blast
  ultimately show ?thesis using rows by blast
qed

lemma wrap_line_rows_witness:
  "(\<exists>rows. concat rows = line_candidates sample_line \<and>
     cuts 0 (fst (wrap_line mono_wrapper sample_line 3 (ExtraColumns 1))) rows \<and>
     rows_fit (\<lambda>c. 1) 3 0 (fst (wrap_line mono_wrapper sample_line 3 (ExtraColumns 1))) rows) \<and>
   fst (wrap_line mono_wrapper sample_line 5 SameIndent) = []"
proof -
  have m: "(\<lambda>c. 1) = compute_width_for_char (mono_wrapper :: int line_wrapper)" by simp
  have ok: "cache_ok (mono_wrapper :: int line_wrapper)" "elements_have_length sample_line" by simp_all
  from wrap_line_rows [OF ok m refl, of 3 "ExtraColumns 1"] wrap_line_rows [OF ok m refl, of 5 SameIndent] show ?thesis
    by (auto simp: candidate_width_def)
qed

definition indent_ok :: "32 word option \<Rightarrow> bool" where
  "indent_ok base \<longleftrightarrow> (\<forall>n. base = Some n \<longrightarrow> n \<le> MAX_INDENT)"

lemma indent_ok_fix: "indent_ok (base_indent s) \<Longrightarrow> indent_ok (base_indent (fix_base_indent s))"
  by (auto simp: indent_ok_def fix_base_indent_def split: option.splits)

lemma ref_next_indent_le: "indent_ok base \<Longrightarrow> ref_next_indent m W adj carried base \<le> MAX_INDENT"
  by (cases adj; cases base) (simp_all add: indent_ok_def ref_next_indent_def)

lemma ref_step_indent:
  assumes "ref_step m W adj c s = (ob, s')" and "indent_ok (base_indent s)"
  shows "indent_ok (base_indent s')" and "ob = Some b \<Longrightarrow> next_indent b \<le> MAX_INDENT"
proof -
  let ?t = "(ref_visit c s)\<lparr>ws_index := ws_index s + candidate_len_utf8 c, ws_width := ws_width s + candidate_width m c\<rparr>"
  have t: "indent_ok (base_indent ?t)" using assms(2) by simp
  consider "ob = None" "base_indent s' = base_indent s"
    | "\<exists>ix w. (ob, s') = (Some (fst (ref_break m W adj ix w ?t)), snd (ref_break m W adj ix w ?t))"
    using assms(1) by (auto simp: ref_step_def Let_def split_beta split: if_splits)
  then have "indent_ok (base_indent s') \<and> (ob = Some b \<longrightarrow> next_indent b \<le> MAX_INDENT)"
  proof cases
    case 2
    with indent_ok_fix [OF t] ref_next_indent_le show ?thesis by (auto simp: ref_break_def Let_def)
  qed (use assms(2) in simp)
  then show "indent_ok (base_indent s')" and "ob = Some b \<Longrightarrow> next_indent b \<le> MAX_INDENT" by auto
qed

lemma ref_wrap_indent:
  "indent_ok (base_indent s) \<Longrightarrow> b \<in> set (ref_wrap m W adj cs s) \<Longrightarrow> next_indent b \<le> MAX_INDENT"
proof (induction cs arbitrary: s)
  case (Cons c cs)
  obtain ob s' where step: "ref_step m W adj c s = (ob, s')" by fastforce
  show ?case
    using Cons.IH [OF ref_step_indent(1) [OF step Cons.prems(1)]] ref_step_indent(2) [OF step Cons.prems(1)]
      Cons.prems(2) step
    by (cases ob) auto
qed simp

text \<open>No continuation row is indented by more than \<open>MAX_INDENT\<close>, whatever columns are asked for.\<close>

theorem wrap_line_indent:
  assumes "cache_ok lw" and "b \<in> set (fst (wrap_line lw fragments W adj))"
  shows "next_indent b \<le> MAX_INDENT"
  using ref_wrap_indent [of ws_init b "compute_width_for_char lw" W adj "line_candidates fragments"] assms(2)
  unfolding wrap_line_correct(1) [OF assms(1)] by (simp add: ws_init_def indent_ok_def)

lemma wrap_line_indent_witness:
  "next_indent \<lparr>b_ix = 2, next_indent = 0\<rparr> \<le> MAX_INDENT"
proof (rule wrap_line_indent)
  show "cache_ok (mono_wrapper :: int line_wrapper)" by simp
  show "\<lparr>b_ix = 2, next_indent = 0\<rparr> \<in>
      set (fst (wrap_line (mono_wrapper :: int line_wrapper) [TextFragment [97, 98, 99]] 2 (ExtraColumns 7)))"
    by code_simp
qed

text \<open>A wrapper that has been used wraps every line like a new wrapper of the same font.\<close>

lemma wrap_line_fresh:
  assumes "cache_ok lw"
  shows "fst (wrap_line lw fragments W adj) =
    fst (wrap_line (lw_new (lw_font_id lw) (lw_font_size lw) (platform_text_system lw)) fragments W adj)"
proof -
  let ?n = "lw_new (lw_font_id lw) (lw_font_size lw) (platform_text_system lw)"
  have "compute_width_for_char ?n = compute_width_for_char lw"
    by (simp add: fun_eq_iff compute_width_for_char_def lw_new_def)
  with wrap_line_correct(1) [OF assms, of fragments W adj] wrap_line_correct(1) [OF cache_ok_new, of "lw_font_id lw" "lw_font_size lw" "platform_text_system lw" fragments W adj]
  show ?thesis by simp
qed

section \<open>Properties of truncation\<close>

definition str_width :: "(uchar \<Rightarrow> 'p) \<Rightarrow> uchar list \<Rightarrow> ('p::linordered_idom)" where
  "str_width m s = (\<Sum>c\<leftarrow>s. m c)"

lemma str_width_simps [simp]:
  "str_width m [] = 0" "str_width m (c # s) = m c + str_width m s"
  "str_width m (s @ t) = str_width m s + str_width m t"
  by (simp_all add: str_width_def)

lemma str_width_nonneg: "(\<And>c. 0 \<le> m c) \<Longrightarrow> 0 \<le> str_width m s"
  by (induction s) simp_all

lemma str_width_prefix: "(\<And>c. 0 \<le> m c) \<Longrightarrow> prefix s t \<Longrightarrow> str_width m s \<le> str_width m t"
  by (auto simp: prefix_def str_width_nonneg)

lemma suffix_width_loop_measures:
  fixes m :: "uchar \<Rightarrow> 'p::linordered_idom"
  assumes "measures lw m"
  shows "fst (suffix_width_loop lw a cs) = a + str_width m cs \<and> measures (snd (suffix_width_loop lw a cs)) m"
  using assms
proof (induction cs arbitrary: lw a)
  case (Cons c cs)
  from Cons.prems obtain lw' where "width_for_char lw c = (m c, lw')" "measures lw' m"
    by (rule width_for_char_measures)
  with Cons.IH [of lw' "a + m c"] show ?case by (simp add: add.assoc)
qed simp

text \<open>The text that the loop keeps: the longest prefix before the overflow with room for the suffix.\<close>

fun ref_truncate :: "(uchar \<Rightarrow> 'p) \<Rightarrow> ('p::floor_ceiling) \<Rightarrow> 'p \<Rightarrow> uchar list \<Rightarrow> uchar list \<Rightarrow> uchar list \<Rightarrow> uchar list option"
  where
  "ref_truncate m T sw kept seen [] = None"
| "ref_truncate m T sw kept seen (c # cs) =
     (let kept = (if str_width m seen + sw < T then seen else kept)
      in if of_int \<lfloor>str_width m (seen @ [c])\<rfloor> > T then Some kept else ref_truncate m T sw kept (seen @ [c]) cs)"

lemma truncate_loop_measures:
  assumes "measures lw m"
  shows "fst (truncate_loop T sw kept (str_width m seen) seen cs lw) = ref_truncate m T sw kept seen cs"
  using assms
proof (induction cs arbitrary: lw kept seen)
  case (Cons c cs)
  from Cons.prems obtain lw' where "width_for_char lw c = (m c, lw')" "measures lw' m"
    by (rule width_for_char_measures)
  with Cons.IH [of lw' _ "seen @ [c]"] show ?case by (simp add: Let_def)
qed simp

lemma ref_truncate_None:
  assumes "\<And>c. 0 \<le> m c" and "cs \<noteq> [] \<or> of_int \<lfloor>str_width m seen\<rfloor> \<le> T"
  shows "ref_truncate m T sw kept seen cs = None \<longleftrightarrow> of_int \<lfloor>str_width m (seen @ cs)\<rfloor> \<le> T"
  using assms(2)
proof (induction cs arbitrary: kept seen)
  case (Cons c cs)
  have "of_int \<lfloor>str_width m (seen @ [c])\<rfloor> \<le> (of_int \<lfloor>str_width m (seen @ c # cs)\<rfloor> :: 'a)"
    using str_width_nonneg [of m cs, OF assms(1)] by (intro of_int_le_iff [THEN iffD2] floor_mono) simp
  then show ?case
    using Cons.IH [of "seen @ [c]"]
    by (cases "of_int \<lfloor>str_width m (seen @ [c])\<rfloor> > T")
      (simp_all add: Let_def not_less not_le del: of_int_le_iff str_width_simps)
qed simp

lemma ref_truncate_Some:
  assumes nonneg: "\<And>c. 0 \<le> m c" and "0 \<le> sw" and "ref_truncate m T sw kept seen cs = Some k"
    and "strict_prefix kept (seen @ cs)" and "kept = [] \<or> str_width m kept + sw < T"
    and "\<And>p. strict_prefix p seen \<Longrightarrow> str_width m p + sw < T \<Longrightarrow> prefix p kept"
  shows "strict_prefix k (seen @ cs) \<and> (k = [] \<or> str_width m k + sw < T) \<and>
    (\<forall>p. prefix p (seen @ cs) \<longrightarrow> str_width m p + sw < T \<longrightarrow> prefix p k)"
  using assms(3-6)
proof (induction cs arbitrary: kept seen)
  case (Cons c cs)
  let ?kept = "if str_width m seen + sw < T then seen else kept"
  have kept: "strict_prefix ?kept (seen @ c # cs)" "?kept = [] \<or> str_width m ?kept + sw < T"
    using Cons.prems(2,3) by (auto simp: strict_prefix_def prefix_def)
  have longest: "prefix p ?kept" if "prefix p seen" "str_width m p + sw < T" for p
    using that Cons.prems(4) [of p] by (auto simp: strict_prefix_def)
  show ?case
  proof (cases "of_int \<lfloor>str_width m (seen @ [c])\<rfloor> > T")
    case True
    with Cons.prems(1) have k: "k = ?kept" by (simp add: Let_def split: if_splits)
    have "prefix p ?kept" if p: "prefix p (seen @ c # cs)" "str_width m p + sw < T" for p
    proof (cases "prefix p seen")
      case False
      with p(1) have "prefix (seen @ [c]) p" by (auto simp: prefix_append prefix_Cons)
      then have "str_width m (seen @ [c]) \<le> str_width m p" by (rule str_width_prefix [OF nonneg])
      with True p(2) assms(2) of_int_floor_le [of "str_width m (seen @ [c])"] show ?thesis by linarith
    qed (use longest p(2) in blast)
    with k kept show ?thesis by blast
  next
    case False
    with Cons.prems(1) have "ref_truncate m T sw ?kept (seen @ [c]) cs = Some k" by (simp add: Let_def)
    moreover have "prefix p ?kept" if "strict_prefix p (seen @ [c])" "str_width m p + sw < T" for p
      using that longest by (auto simp: strict_prefix_def)
    ultimately show ?thesis
      using Cons.IH [of ?kept "seen @ [c]"] kept by simp
  qed
qed simp

text \<open>Trimming takes a suffix away.\<close>

lemma trim_truncated_prefix: "prefix (trim_truncated s) s"
  unfolding trim_truncated_def
  by (metis suffix_dropWhile suffix_to_prefix rev_rev_ident)

lemma truncate_runs_len:
  "n < (\<Sum>r\<leftarrow>runs. tr_len r) \<Longrightarrow> (\<Sum>r\<leftarrow>truncate_runs_loop e n runs. tr_len r) = n + e"
  by (induction runs arbitrary: n) auto

lemma str_len_prefix: "prefix s t \<Longrightarrow> str_len s \<le> str_len t"
  by (auto simp: prefix_def)

lemma str_len_strict_prefix: "strict_prefix s t \<Longrightarrow> str_len s < str_len t"
  by (auto simp: strict_prefix_def prefix_def)

text \<open>
  C23. Truncation leaves a line alone whose width, rounded down, is at most the given one. Another line is cut after the longest
  prefix that has room for the suffix, the white space and punctuation at its end are taken off, and the suffix is put
  behind; the result is narrower than the given width when the suffix alone is. Runs that cover the line cover the result.
\<close>

theorem truncate_line_spec:
  fixes lw :: "('p::floor_ceiling) line_wrapper"
  assumes lw: "measures lw m" and nonneg: "\<And>c. 0 \<le> m c"
    and trunc: "truncate_line lw line T sfx runs = (result, runs', lw')"
    and runs: "(\<Sum>r\<leftarrow>runs. tr_len r) = str_len line"
  shows "(line = [] \<or> of_int \<lfloor>str_width m line\<rfloor> \<le> T \<longrightarrow> result = line \<and> runs' = runs) \<and>
    (of_int \<lfloor>str_width m line\<rfloor> > T \<and> line \<noteq> [] \<longrightarrow>
      (\<exists>kept. strict_prefix kept line \<and> result = trim_truncated kept @ sfx \<and>
        (\<forall>p. prefix p line \<longrightarrow> str_width m p + str_width m sfx < T \<longrightarrow> prefix p kept)) \<and>
      (str_width m sfx < T \<longrightarrow> str_width m result < T)) \<and>
    (\<Sum>r\<leftarrow>runs'. tr_len r) = str_len result"
proof -
  obtain sw lw1 where sw: "suffix_width_loop lw 0 sfx = (sw, lw1)" by fastforce
  with suffix_width_loop_measures [OF lw, of 0 sfx] have sw_eq: "sw = str_width m sfx" and lw1: "measures lw1 m"
    by simp_all
  obtain r lw2 where r: "truncate_loop T sw [] 0 [] line lw1 = (r, lw2)" by fastforce
  with truncate_loop_measures [OF lw1, of T sw "[]" "[]" line] have ref: "ref_truncate m T sw [] [] line = r" by simp
  have none: "r = None \<longleftrightarrow> of_int \<lfloor>str_width m line\<rfloor> \<le> T" if "line \<noteq> []"
    using ref_truncate_None [of m line "[]" T sw "[]", OF nonneg] that ref by simp
  show ?thesis
  proof (cases r)
    case None
    with trunc sw r have "result = line" "runs' = runs" by (simp_all add: truncate_line_def)
    with None none runs show ?thesis by auto
  next
    case (Some k)
    have ne: "line \<noteq> []" using ref Some by auto
    have k: "strict_prefix k line" "k = [] \<or> str_width m k + sw < T"
      "\<forall>p. prefix p line \<longrightarrow> str_width m p + sw < T \<longrightarrow> prefix p k"
      using ref_truncate_Some [of m sw T "[]" "[]" line k, OF nonneg] ref Some ne str_width_nonneg [of m sfx, OF nonneg]
      by (auto simp: sw_eq strict_prefix_def)
    have res: "result = trim_truncated k @ sfx" "runs' = update_runs_after_truncation result sfx runs"
      using trunc sw r Some by (auto simp: truncate_line_def Let_def)
    have "str_len (trim_truncated k) < (\<Sum>r\<leftarrow>runs. tr_len r)"
      using str_len_prefix [OF trim_truncated_prefix, of k] str_len_strict_prefix [OF k(1)] runs by simp
    then have "(\<Sum>r\<leftarrow>runs'. tr_len r) = str_len result"
      by (simp add: res update_runs_after_truncation_def truncate_runs_len)
    moreover have "str_width m sfx < T \<longrightarrow> str_width m result < T"
      using str_width_prefix [of m, OF nonneg trim_truncated_prefix, of k] k(2) by (auto simp: res sw_eq)
    ultimately show ?thesis
      using none ne Some k res by (auto simp: sw_eq)
  qed
qed

lemma truncate_line_spec_witness:
  "(\<Sum>r\<leftarrow>fst (snd (truncate_line (mono_wrapper :: rat line_wrapper) [97, 98, 99] 2 [46] [\<lparr>tr_len = 3, tr_style = ()\<rparr>])). tr_len r)
     = str_len (fst (truncate_line (mono_wrapper :: rat line_wrapper) [97, 98, 99] 2 [46] [\<lparr>tr_len = 3, tr_style = ()\<rparr>]))"
proof -
  obtain result runs' lw' where t: "truncate_line (mono_wrapper :: rat line_wrapper) [97, 98, 99] 2 [46] [\<lparr>tr_len = 3, tr_style = ()\<rparr>]
      = (result, runs', lw')"
    by (cases "truncate_line (mono_wrapper :: rat line_wrapper) [97, 98, 99] 2 [46] [\<lparr>tr_len = 3, tr_style = ()\<rparr>]")
  from truncate_line_spec [OF measures_mono_wrapper _ t] show ?thesis
    unfolding t by (simp add: char_len_utf8.simps)
qed

section \<open>A word that is cut\<close>

text \<open>
  When a boundary is returned, the loop is left before the previous character is updated. If the character that did not
  fit is a space, the next word is not seen to start after a space: \<open>aa bb\<close> is cut within \<open>bb\<close> at width two, although every word fits
  in a row. (\<open>LineLayout::compute_wrap_boundaries\<close> updates the character always.)
\<close>

lemma wrap_line_cuts_word:
  "map b_ix (fst (wrap_line (mono_wrapper :: int line_wrapper)
     [TextFragment (map of_char ''aa bb'')] 2 NoIndent)) = [2, 4]"
  by code_simp

end
