(* ===== verification/Line_Layout.thy ===== *)
theory Line_Layout
  imports Line_Wrapper Geometry
begin

text \<open>
  Laid out lines, \<open>crates/gpui/src/text_system/line_layout.rs\<close>: finding the character at a coordinate and the coordinate of a
  character, splitting a layout, wrapping it at glyphs, and the same queries on a wrapped line. Coordinates are an ordered field with
  a floor, exact where the code has \<open>f32\<close>. A panic is \<open>None\<close>.

  The theory shows that splitting keeps every coordinate, how wrapping cuts the line and by how much a row can be too wide, that the
  number of rows keeps to its limit, and that positions and indices of a wrapped line convert into each other.
\<close>

section \<open>Layouts\<close>

record 'p shaped_glyph =
  g_id :: nat
  position :: "'p point"
  g_index :: nat
  is_emoji :: bool

record 'p shaped_run =
  run_font_id :: font_id
  glyphs :: "'p shaped_glyph list"

record 'p line_layout =
  ll_font_size :: 'p
  ll_width :: 'p
  ll_ascent :: 'p
  ll_descent :: 'p
  ll_runs :: "'p shaped_run list"
  ll_len :: nat

text \<open>The glyphs of a layout in the order of the nested loops over runs and glyphs.\<close>

definition all_glyphs :: "'p line_layout \<Rightarrow> 'p shaped_glyph list" where
  "all_glyphs l = concat (map glyphs (ll_runs l))"

definition index_for_x :: "'p line_layout \<Rightarrow> ('p::linordered_field) \<Rightarrow> nat option" where
  "index_for_x l x =
     (if x \<ge> ll_width l then None
      else case find (\<lambda>g. p_x (position g) \<le> x) (concat (map (\<lambda>run. rev (glyphs run)) (rev (ll_runs l)))) of
             Some g \<Rightarrow> Some (g_index g)
           | None \<Rightarrow> Some 0)"

fun closest_loop :: "('p::linordered_field) \<Rightarrow> nat \<Rightarrow> 'p \<Rightarrow> 'p shaped_glyph list \<Rightarrow> nat option" where
  "closest_loop x prev_index prev_x [] = None"
| "closest_loop x prev_index prev_x (g # gs) =
     (if p_x (position g) \<ge> x then
        if p_x (position g) - x < x - prev_x then Some (g_index g) else Some prev_index
      else closest_loop x (g_index g) (p_x (position g)) gs)"

definition closest_index_for_x :: "'p line_layout \<Rightarrow> ('p::linordered_field) \<Rightarrow> nat" where
  "closest_index_for_x l x =
     (case closest_loop x 0 0 (all_glyphs l) of
        Some index \<Rightarrow> index
      | None \<Rightarrow> if ll_len l = 1 then (if x > ll_width l / 2 then 1 else 0) else ll_len l)"

definition x_for_index :: "'p line_layout \<Rightarrow> nat \<Rightarrow> 'p" where
  "x_for_index l index =
     (case find (\<lambda>g. g_index g \<ge> index) (all_glyphs l) of
        Some g \<Rightarrow> p_x (position g)
      | None \<Rightarrow> ll_width l)"

definition font_id_for_index :: "'p line_layout \<Rightarrow> nat \<Rightarrow> font_id option" where
  "font_id_for_index l index =
     map_option run_font_id (find (\<lambda>run. find (\<lambda>g. g_index g \<ge> index) (glyphs run) \<noteq> None) (ll_runs l))"

section \<open>Splitting\<close>

text \<open>
  \<open>slice::partition_point\<close> on a slice that is partitioned by the predicate; the standard library leaves the result open otherwise.
\<close>

definition partition_point :: "('a \<Rightarrow> bool) \<Rightarrow> 'a list \<Rightarrow> nat" where
  "partition_point P xs = length (takeWhile P xs)"

text \<open>Subtraction of \<open>usize\<close> values panics below zero.\<close>

definition usize_sub :: "nat \<Rightarrow> nat \<Rightarrow> nat option" where
  "usize_sub a b = (if b \<le> a then Some (a - b) else None)"

definition shift_glyph :: "('p::minus) \<Rightarrow> nat \<Rightarrow> 'p shaped_glyph \<Rightarrow> 'p shaped_glyph option" where
  "shift_glyph x_offset byte_index g =
     map_option (\<lambda>index. \<lparr>g_id = g_id g, position = mk_point (p_x (position g) - x_offset) (p_y (position g)),
                          g_index = index, is_emoji = is_emoji g\<rparr>)
       (usize_sub (g_index g) byte_index)"

fun split_runs ::
  "('p::minus) \<Rightarrow> nat \<Rightarrow> 'p shaped_run list \<Rightarrow> ('p shaped_run list \<times> 'p shaped_run list) option" where
  "split_runs x_offset byte_index [] = Some ([], [])"
| "split_runs x_offset byte_index (run # runs) =
     (let split_pos = partition_point (\<lambda>g. g_index g < byte_index) (glyphs run);
          left = (if split_pos > 0 then [\<lparr>run_font_id = run_font_id run, glyphs = take split_pos (glyphs run)\<rparr>] else [])
      in do {
           right \<leftarrow> (if split_pos < length (glyphs run) then
                       map_option (\<lambda>gs. [\<lparr>run_font_id = run_font_id run, glyphs = gs\<rparr>])
                         (those (map (shift_glyph x_offset byte_index) (drop split_pos (glyphs run))))
                     else Some []);
           (lefts, rights) \<leftarrow> split_runs x_offset byte_index runs;
           Some (left @ lefts, right @ rights)
         })"

definition split_at :: "('p::minus) line_layout \<Rightarrow> nat \<Rightarrow> ('p line_layout \<times> 'p line_layout) option" where
  "split_at l byte_index =
     (let x_offset = x_for_index l byte_index
      in do {
           (left_runs, right_runs) \<leftarrow> split_runs x_offset byte_index (ll_runs l);
           right_len \<leftarrow> usize_sub (ll_len l) byte_index;
           Some (\<lparr>ll_font_size = ll_font_size l, ll_width = x_offset, ll_ascent = ll_ascent l,
                  ll_descent = ll_descent l, ll_runs = left_runs, ll_len = byte_index\<rparr>,
                 \<lparr>ll_font_size = ll_font_size l, ll_width = ll_width l - x_offset, ll_ascent = ll_ascent l,
                  ll_descent = ll_descent l, ll_runs = right_runs, ll_len = right_len\<rparr>)
         })"

section \<open>Wrapping at glyphs\<close>

record wrap_boundary =
  run_ix :: nat
  glyph_ix :: nat

text \<open>The derived order: first the run, then the glyph.\<close>

definition wb_less :: "wrap_boundary \<Rightarrow> wrap_boundary \<Rightarrow> bool" where
  "wb_less a b \<longleftrightarrow> run_ix a < run_ix b \<or> run_ix a = run_ix b \<and> glyph_ix a < glyph_ix b"

text \<open>\<open>text[index..].chars().next().unwrap()\<close>: panics at the end and within a character.\<close>

fun char_at :: "uchar list \<Rightarrow> nat \<Rightarrow> uchar option" where
  "char_at [] index = None"
| "char_at (c # text) index =
     (if index = 0 then Some c
      else if index < char_len_utf8 c then None
      else char_at text (index - char_len_utf8 c))"

text \<open>The glyphs with their places; the character is computed when the iterator reaches the glyph.\<close>

type_synonym 'p wrap_glyph = "wrap_boundary \<times> uchar option \<times> 'p"

definition wrap_glyphs :: "uchar list \<Rightarrow> 'p line_layout \<Rightarrow> 'p wrap_glyph list" where
  "wrap_glyphs text l =
     concat (map (\<lambda>(run_ix, run).
               map (\<lambda>(glyph_ix, g).
                      (\<lparr>run_ix = run_ix, glyph_ix = glyph_ix\<rparr>, char_at text (g_index g), p_x (position g)))
                 (List.enumerate 0 (glyphs run)))
             (List.enumerate 0 (ll_runs l)))"

record 'p cwb_state =
  cw_boundaries :: "wrap_boundary list"
  cw_first_non_whitespace_ix :: "wrap_boundary option"
  cw_last_candidate_ix :: "wrap_boundary option"
  cw_last_candidate_x :: 'p
  cw_last_boundary :: wrap_boundary
  cw_last_boundary_x :: 'p
  cw_prev_ch :: uchar

definition cw_init :: "('p::zero) cwb_state" where
  "cw_init = \<lparr>cw_boundaries = [], cw_first_non_whitespace_ix = None, cw_last_candidate_ix = None, cw_last_candidate_x = 0,
     cw_last_boundary = \<lparr>run_ix = 0, glyph_ix = 0\<rparr>, cw_last_boundary_x = 0, cw_prev_ch = 0\<rparr>"

definition cw_visit :: "wrap_boundary \<Rightarrow> uchar \<Rightarrow> 'p \<Rightarrow> 'p cwb_state \<Rightarrow> 'p cwb_state" where
  "cw_visit boundary ch x s =
     (let s = (if is_word_char ch then
                 if cw_prev_ch s = 32 \<and> ch \<noteq> 32 \<and> cw_first_non_whitespace_ix s \<noteq> None
                 then s\<lparr>cw_last_candidate_ix := Some boundary, cw_last_candidate_x := x\<rparr> else s
               else
                 if ch \<noteq> 32 \<and> cw_first_non_whitespace_ix s \<noteq> None
                 then s\<lparr>cw_last_candidate_ix := Some boundary, cw_last_candidate_x := x\<rparr> else s)
      in if ch \<noteq> 32 \<and> cw_first_non_whitespace_ix s = None
         then s\<lparr>cw_first_non_whitespace_ix := Some boundary\<rparr> else s)"

text \<open>The row ends before the last candidate, if there is one, and else before this glyph.\<close>

definition cw_break :: "wrap_boundary \<Rightarrow> 'p \<Rightarrow> 'p cwb_state \<Rightarrow> 'p cwb_state" where
  "cw_break boundary x s =
     (let s = (case cw_last_candidate_ix s of
                 Some candidate \<Rightarrow>
                   s\<lparr>cw_last_candidate_ix := None, cw_last_boundary := candidate, cw_last_boundary_x := cw_last_candidate_x s\<rparr>
               | None \<Rightarrow> s\<lparr>cw_last_boundary := boundary, cw_last_boundary_x := x\<rparr>)
      in s\<lparr>cw_boundaries := cw_boundaries s @ [cw_last_boundary s]\<rparr>)"

fun cw_loop ::
  "('p::linordered_field) \<Rightarrow> nat option \<Rightarrow> 'p \<Rightarrow> 'p cwb_state \<Rightarrow> 'p wrap_glyph list \<Rightarrow> wrap_boundary list option" where
  "cw_loop wrap_width max_lines line_width s [] = Some (cw_boundaries s)"
| "cw_loop wrap_width max_lines line_width s ((boundary, character, x) # rest) =
     do {
       ch \<leftarrow> character;
       if ch = 10 then cw_loop wrap_width max_lines line_width s rest
       else do {
         let s = cw_visit boundary ch x s;
         next_x \<leftarrow> (case rest of
                      [] \<Rightarrow> Some line_width
                    | (_, character', x') # _ \<Rightarrow> map_option (\<lambda>_. x') character');
         let width = next_x - cw_last_boundary_x s;
         if width > wrap_width \<and> wb_less (cw_last_boundary s) boundary then
           if (case max_lines of Some n \<Rightarrow> length (cw_boundaries s) \<ge> n - 1 | None \<Rightarrow> False)
           then Some (cw_boundaries s)
           else cw_loop wrap_width max_lines line_width ((cw_break boundary x s)\<lparr>cw_prev_ch := ch\<rparr>) rest
         else cw_loop wrap_width max_lines line_width (s\<lparr>cw_prev_ch := ch\<rparr>) rest
       }
     }"

definition compute_wrap_boundaries ::
  "'p line_layout \<Rightarrow> uchar list \<Rightarrow> ('p::linordered_field) \<Rightarrow> nat option \<Rightarrow> wrap_boundary list option" where
  "compute_wrap_boundaries l text wrap_width max_lines =
     cw_loop wrap_width max_lines (ll_width l) cw_init (wrap_glyphs text l)"

section \<open>Wrapped lines\<close>

record 'p wrapped_line_layout =
  unwrapped_layout :: "'p line_layout"
  wrap_boundaries :: "wrap_boundary list"
  wrap_width :: "'p option"

definition wl_len :: "'p wrapped_line_layout \<Rightarrow> nat" where
  "wl_len w = ll_len (unwrapped_layout w)"

text \<open>Without a wrap width the minimum is with \<open>Pixels::MAX\<close>, which no width exceeds.\<close>

definition wl_width :: "('p::linorder) wrapped_line_layout \<Rightarrow> 'p" where
  "wl_width w =
     (case wrap_width w of
        Some width \<Rightarrow> min width (ll_width (unwrapped_layout w))
      | None \<Rightarrow> ll_width (unwrapped_layout w))"

definition wl_size :: "('p::linordered_field) wrapped_line_layout \<Rightarrow> 'p \<Rightarrow> 'p size" where
  "wl_size w line_height =
     \<lparr>s_width = wl_width w, s_height = line_height * of_nat (length (wrap_boundaries w) + 1)\<rparr>"

text \<open>The glyph of a boundary; indexing out of range panics.\<close>

definition boundary_glyph :: "'p wrapped_line_layout \<Rightarrow> wrap_boundary \<Rightarrow> 'p shaped_glyph option" where
  "boundary_glyph w b =
     (let runs = ll_runs (unwrapped_layout w)
      in if run_ix b < length runs \<and> glyph_ix b < length (glyphs (runs ! run_ix b))
         then Some (glyphs (runs ! run_ix b) ! glyph_ix b) else None)"

text \<open>The inner result is the \<open>Result\<close> of the code: \<open>Inr\<close> within the row, \<open>Inl\<close> beside it.\<close>

definition index_for_position_gen ::
  "'p wrapped_line_layout \<Rightarrow> ('p::floor_ceiling) point \<Rightarrow> 'p \<Rightarrow> bool \<Rightarrow> (nat, nat) result option" where
  "index_for_position_gen w pos line_height closest =
     (let wrapped_line_ix = nat \<lfloor>p_y pos / line_height\<rfloor>;
          bs = wrap_boundaries w;
          l = unwrapped_layout w
      in if wrapped_line_ix > 0 \<and> wrapped_line_ix - 1 \<ge> length bs then Some (Inl 0)
         else do {
           (start_index, start_x) \<leftarrow>
             (if wrapped_line_ix > 0
              then map_option (\<lambda>g. (g_index g, p_x (position g))) (boundary_glyph w (bs ! (wrapped_line_ix - 1)))
              else Some (0, 0));
           (end_index, end_x) \<leftarrow>
             (if wrapped_line_ix < length bs
              then map_option (\<lambda>g. (g_index g, p_x (position g))) (boundary_glyph w (bs ! wrapped_line_ix))
              else Some (ll_len l, ll_width l));
           let x = p_x pos + start_x;
           Some (if x < start_x then Inl start_index
                 else if x \<ge> end_x then Inl end_index
                 else if closest then Inr (closest_index_for_x l x)
                 else (case index_for_x l x of Some index \<Rightarrow> Inr index | None \<Rightarrow> Inl end_index))
         })"

definition index_for_position ::
  "'p wrapped_line_layout \<Rightarrow> ('p::floor_ceiling) point \<Rightarrow> 'p \<Rightarrow> (nat, nat) result option" where
  "index_for_position w pos line_height = index_for_position_gen w pos line_height False"

definition closest_index_for_position ::
  "'p wrapped_line_layout \<Rightarrow> ('p::floor_ceiling) point \<Rightarrow> 'p \<Rightarrow> (nat, nat) result option" where
  "closest_index_for_position w pos line_height = index_for_position_gen w pos line_height True"

text \<open>The loop over the rows: \<open>ends\<close> are the indices at which the rows from row \<open>ix\<close> on end, computed one by one.\<close>

fun position_loop ::
  "'p line_layout \<Rightarrow> nat \<Rightarrow> ('p::linordered_field) \<Rightarrow> nat \<Rightarrow> nat \<Rightarrow> nat option list \<Rightarrow> 'p point option option" where
  "position_loop l index line_height ix line_start_ix [] = Some None"
| "position_loop l index line_height ix line_start_ix (line_end # ends) =
     do {
       line_end_ix \<leftarrow> line_end;
       if index < line_start_ix then Some None
       else if index > line_end_ix then position_loop l index line_height (ix + 1) line_end_ix ends
       else Some (Some (mk_point (x_for_index l index - x_for_index l line_start_ix) (of_nat ix * line_height)))
     }"

definition position_for_index ::
  "'p wrapped_line_layout \<Rightarrow> nat \<Rightarrow> ('p::linordered_field) \<Rightarrow> 'p point option option" where
  "position_for_index w index line_height =
     position_loop (unwrapped_layout w) index line_height 0 0
       (map (\<lambda>b. map_option g_index (boundary_glyph w b)) (wrap_boundaries w) @ [Some (wl_len w)])"

section \<open>Forced widths and letter spacing\<close>

text \<open>
  The base glyph before a glyph is absent at the start, where the code has negative infinity. The state of the first loop is the
  number of base glyphs, the shaped and the actual position of the last one.
\<close>

definition is_base :: "('p::linordered_field) \<Rightarrow> 'p option \<Rightarrow> 'p \<Rightarrow> bool" where
  "is_base force_width last_base_x x =
     (case last_base_x of None \<Rightarrow> True | Some b \<Rightarrow> x > b + force_width * (1 / 2))"

definition set_glyph_x :: "'p \<Rightarrow> 'p shaped_glyph \<Rightarrow> 'p shaped_glyph" where
  "set_glyph_x x g = g\<lparr>position := (position g)\<lparr>p_x := x\<rparr>\<rparr>"

fun force_glyphs ::
  "('p::linordered_field) \<Rightarrow> nat \<times> 'p option \<times> 'p \<Rightarrow> 'p shaped_glyph list \<Rightarrow> 'p shaped_glyph list \<times> (nat \<times> 'p option \<times> 'p)" where
  "force_glyphs force_width s [] = ([], s)"
| "force_glyphs force_width (glyph_pos, last_base_shaped_x, last_base_actual_x) (g # gs) =
     (let shaped_x = p_x (position g)
      in if is_base force_width last_base_shaped_x shaped_x then
           let forced_x = of_nat glyph_pos * force_width;
               x = (if \<bar>shaped_x - forced_x\<bar> > 1 then forced_x else shaped_x);
               (gs', s') = force_glyphs force_width (glyph_pos + 1, Some shaped_x, x) gs
           in (set_glyph_x x g # gs', s')
         else
           let (gs', s') = force_glyphs force_width (glyph_pos, last_base_shaped_x, last_base_actual_x) gs
           in (set_glyph_x (last_base_actual_x + (shaped_x - the last_base_shaped_x)) g # gs', s'))"

fun space_base_glyphs ::
  "('p::linordered_field) \<Rightarrow> 'p \<Rightarrow> nat \<times> 'p option \<times> 'p \<Rightarrow> 'p shaped_glyph list \<Rightarrow> 'p shaped_glyph list \<times> (nat \<times> 'p option \<times> 'p)" where
  "space_base_glyphs spacing force_width s [] = ([], s)"
| "space_base_glyphs spacing force_width (base_glyph_count, last_base_x, last_base_spacing) (g # gs) =
     (let x = p_x (position g)
      in if is_base force_width last_base_x x then
           let new_spacing = spacing * of_nat base_glyph_count;
               (gs', s') = space_base_glyphs spacing force_width (base_glyph_count + 1, Some x, new_spacing) gs
           in (set_glyph_x (x + new_spacing) g # gs', s')
         else
           let (gs', s') = space_base_glyphs spacing force_width (base_glyph_count, last_base_x, last_base_spacing) gs
           in (set_glyph_x (x + last_base_spacing) g # gs', s'))"

fun space_glyphs ::
  "('p::linordered_field) \<Rightarrow> nat \<Rightarrow> 'p shaped_glyph list \<Rightarrow> 'p shaped_glyph list \<times> nat" where
  "space_glyphs spacing glyph_count [] = ([], glyph_count)"
| "space_glyphs spacing glyph_count (g # gs) =
     (let (gs', n) = space_glyphs spacing (glyph_count + 1) gs
      in (set_glyph_x (p_x (position g) + spacing * of_nat glyph_count) g # gs', n))"

text \<open>A loop over the glyphs of all runs, with its state.\<close>

fun map_runs ::
  "('s \<Rightarrow> 'p shaped_glyph list \<Rightarrow> 'p shaped_glyph list \<times> 's) \<Rightarrow> 's \<Rightarrow> 'p shaped_run list \<Rightarrow> 'p shaped_run list \<times> 's" where
  "map_runs f s [] = ([], s)"
| "map_runs f s (run # runs) =
     (let (gs, s) = f s (glyphs run);
          (runs', s) = map_runs f s runs
      in (run\<lparr>glyphs := gs\<rparr> # runs', s))"

definition apply_force_width_to_layout :: "('p::linordered_field) \<Rightarrow> 'p line_layout \<Rightarrow> 'p line_layout" where
  "apply_force_width_to_layout force_width l =
     l\<lparr>ll_runs := fst (map_runs (force_glyphs force_width) (0, None, 0) (ll_runs l))\<rparr>"

definition apply_letter_spacing_to_layout ::
  "('p::linordered_field) \<Rightarrow> 'p option \<Rightarrow> 'p line_layout \<Rightarrow> 'p line_layout" where
  "apply_letter_spacing_to_layout spacing force_width l =
     (let (runs, glyph_count) =
            (case force_width of
               Some force_width \<Rightarrow>
                 (let (runs, s) = map_runs (space_base_glyphs spacing force_width) (0, None, 0) (ll_runs l)
                  in (runs, fst s))
             | None \<Rightarrow> map_runs (space_glyphs spacing) 0 (ll_runs l));
          l = l\<lparr>ll_runs := runs\<rparr>
      in if glyph_count > 1 then l\<lparr>ll_width := ll_width l + spacing * of_nat (glyph_count - 1)\<rparr> else l)"

text \<open>A line of \<open>n\<close> glyphs of width one in one run, for examples.\<close>

definition mono_glyph :: "nat \<Rightarrow> ('p::linordered_field) shaped_glyph" where
  "mono_glyph k = \<lparr>g_id = k, position = \<lparr>p_x = of_nat k, p_y = 0\<rparr>, g_index = k, is_emoji = False\<rparr>"

definition mono_layout :: "nat \<Rightarrow> ('p::linordered_field) line_layout" where
  "mono_layout n = \<lparr>ll_font_size = 1, ll_width = of_nat n, ll_ascent = 1, ll_descent = 0,
     ll_runs = [\<lparr>run_font_id = 0, glyphs = map mono_glyph [0..<n]\<rparr>], ll_len = n\<rparr>"

lemma mono_layout_simps [simp]:
  "all_glyphs (mono_layout n) = map mono_glyph [0..<n]" "ll_width (mono_layout n) = of_nat n" "ll_len (mono_layout n) = n"
  "g_index (mono_glyph k) = k" "p_x (position (mono_glyph k)) = of_nat k"
  by (simp_all add: mono_layout_def mono_glyph_def all_glyphs_def)

section \<open>Splitting keeps coordinates\<close>

definition font_glyphs :: "'p shaped_run list \<Rightarrow> (font_id \<times> 'p shaped_glyph) list" where
  "font_glyphs runs = concat (map (\<lambda>run. map (Pair (run_font_id run)) (glyphs run)) runs)"

lemma all_glyphs_font: "all_glyphs l = map snd (font_glyphs (ll_runs l))"
  by (simp add: all_glyphs_def font_glyphs_def map_concat comp_def)

definition moved_glyph :: "('p::minus) \<Rightarrow> nat \<Rightarrow> 'p shaped_glyph \<Rightarrow> 'p shaped_glyph" where
  "moved_glyph x_offset byte_index g =
     \<lparr>g_id = g_id g, position = mk_point (p_x (position g) - x_offset) (p_y (position g)),
      g_index = g_index g - byte_index, is_emoji = is_emoji g\<rparr>"

lemma those_shift:
  "\<forall>g \<in> set gs. i \<le> g_index g \<Longrightarrow> those (map (shift_glyph x i) gs) = Some (map (moved_glyph x i) gs)"
  by (induction gs) (simp_all add: shift_glyph_def usize_sub_def moved_glyph_def)

lemma takeWhile_sorted_filter:
  "sorted (map f xs) \<Longrightarrow> takeWhile (\<lambda>x. f x < i) xs = filter (\<lambda>x. f x < i) xs \<and>
     dropWhile (\<lambda>x. f x < i) xs = filter (\<lambda>x. i \<le> f x) xs" for i :: nat
proof (induction xs)
  case (Cons x xs)
  show ?case
  proof (cases "f x < i")
    case False
    with Cons.prems have "\<forall>y \<in> set xs. i \<le> f y" by auto
    with False show ?thesis by (simp add: filter_empty_conv not_less)
  qed (use Cons in simp)
qed simp

lemma split_runs_spec:
  assumes "\<forall>run \<in> set runs. sorted (map g_index (glyphs run))"
  obtains L R where "split_runs x i runs = Some (L, R)"
    and "font_glyphs L = filter (\<lambda>(f, g). g_index g < i) (font_glyphs runs)"
    and "font_glyphs R = map (\<lambda>(f, g). (f, moved_glyph x i g)) (filter (\<lambda>(f, g). i \<le> g_index g) (font_glyphs runs))"
  using assms
proof (induction runs arbitrary: thesis)
  case Nil
  show ?case by (rule Nil(1) [of "[]" "[]"]) (simp_all add: font_glyphs_def)
next
  case (Cons run runs)
  let ?gs = "glyphs run"
  have tw: "takeWhile (\<lambda>g. g_index g < i) ?gs = filter (\<lambda>g. g_index g < i) ?gs"
    and dw: "dropWhile (\<lambda>g. g_index g < i) ?gs = filter (\<lambda>g. i \<le> g_index g) ?gs"
    using takeWhile_sorted_filter [of g_index ?gs i] Cons.prems(2) by simp_all
  let ?n = "partition_point (\<lambda>g. g_index g < i) ?gs"
  have take: "take ?n ?gs = filter (\<lambda>g. g_index g < i) ?gs" and drop: "drop ?n ?gs = filter (\<lambda>g. i \<le> g_index g) ?gs"
    unfolding partition_point_def tw [symmetric] dw [symmetric]
    by (simp_all add: takeWhile_eq_take [symmetric] dropWhile_eq_drop [symmetric])
  have those: "those (map (shift_glyph x i) (drop ?n ?gs)) = Some (map (moved_glyph x i) (drop ?n ?gs))"
    by (rule those_shift) (simp add: drop)
  from Cons.IH Cons.prems(2) obtain L R where LR: "split_runs x i runs = Some (L, R)"
    "font_glyphs L = filter (\<lambda>(f, g). g_index g < i) (font_glyphs runs)"
    "font_glyphs R = map (\<lambda>(f, g). (f, moved_glyph x i g)) (filter (\<lambda>(f, g). i \<le> g_index g) (font_glyphs runs))"
    by auto
  let ?L = "(if ?n > 0 then [\<lparr>run_font_id = run_font_id run, glyphs = take ?n ?gs\<rparr>] else []) @ L"
  let ?R = "(if ?n < length ?gs then [\<lparr>run_font_id = run_font_id run, glyphs = map (moved_glyph x i) (drop ?n ?gs)\<rparr>] else []) @ R"
  have L: "font_glyphs ?L = map (Pair (run_font_id run)) (take ?n ?gs) @ font_glyphs L"
    and R: "font_glyphs ?R = map (Pair (run_font_id run)) (map (moved_glyph x i) (drop ?n ?gs)) @ font_glyphs R"
    by (auto simp: font_glyphs_def)
  show ?case
  proof (rule Cons.prems(1) [of ?L ?R])
    show "split_runs x i (run # runs) = Some (?L, ?R)" by (simp add: LR(1) those Let_def)
    show "font_glyphs ?L = filter (\<lambda>(f, g). g_index g < i) (font_glyphs (run # runs))"
      unfolding L unfolding LR(2) take by (simp add: font_glyphs_def filter_map comp_def)
    show "font_glyphs ?R = map (\<lambda>(f, g). (f, moved_glyph x i g)) (filter (\<lambda>(f, g). i \<le> g_index g) (font_glyphs (run # runs)))"
      unfolding R unfolding LR(3) drop by (simp add: font_glyphs_def filter_map comp_def)
  qed
qed

lemma map_snd_filter: "map snd (filter (\<lambda>(f, g). P g) xs) = filter P (map snd xs)"
  by (induction xs) auto

lemma map_snd_map: "map snd (map (\<lambda>(f, g). (f, h g)) xs) = map h (map snd xs)"
  by (induction xs) auto

text \<open>The first glyph at or after an index, before and after the split.\<close>

lemma find_left:
  assumes "sorted (map g_index gs)" and "k \<le> i"
  shows "(case find (\<lambda>g. k \<le> g_index g) (filter (\<lambda>g. g_index g < i) gs) of Some g \<Rightarrow> F g
           | None \<Rightarrow> case find (\<lambda>g. i \<le> g_index g) gs of Some g \<Rightarrow> F g | None \<Rightarrow> d) =
         (case find (\<lambda>g. k \<le> g_index g) gs of Some g \<Rightarrow> F g | None \<Rightarrow> d)"
  using assms
proof (induction gs)
  case (Cons g gs)
  show ?case
  proof (cases "g_index g < i")
    case False
    then have "find (\<lambda>g. k \<le> g_index g) (filter (\<lambda>g. g_index g < i) gs) = None"
      using Cons.prems(1) by (auto simp: find_None_iff)
    with False Cons.prems show ?thesis by simp
  next
    case True
    with Cons show ?thesis by (auto cong: option.case_cong)
  qed
qed simp

lemma find_right:
  "find (\<lambda>g. k \<le> g_index g) (map (moved_glyph x i) (filter (\<lambda>g. i \<le> g_index g) gs)) =
     map_option (moved_glyph x i) (find (\<lambda>g. i + k \<le> g_index g) gs)"
  by (induction gs) (auto simp: moved_glyph_def)

definition glyphs_ordered :: "'p line_layout \<Rightarrow> bool" where
  "glyphs_ordered l \<longleftrightarrow> sorted (map g_index (all_glyphs l))"

lemma glyphs_ordered_runs:
  "glyphs_ordered l \<Longrightarrow> run \<in> set (ll_runs l) \<Longrightarrow> sorted (map g_index (glyphs run))"
  unfolding glyphs_ordered_def all_glyphs_def
  by (drule split_list) (auto simp: sorted_append)

text \<open>
  A layout whose glyphs are in the order of the text can be split at every byte index up to its length. The halves have
  the glyphs before and from the index, with their fonts, the widths and lengths add up, and every
  index keeps its coordinate: in the first half it is the same, in the second it is less by the width of the first.
\<close>

theorem split_at_spec:
  fixes l :: "('p::linordered_field) line_layout"
  assumes "glyphs_ordered l" and "i \<le> ll_len l"
  shows "\<exists>left right. split_at l i = Some (left, right) \<and>
    font_glyphs (ll_runs left) = filter (\<lambda>(f, g). g_index g < i) (font_glyphs (ll_runs l)) \<and>
    font_glyphs (ll_runs right) = map (\<lambda>(f, g). (f, moved_glyph (ll_width left) i g))
      (filter (\<lambda>(f, g). i \<le> g_index g) (font_glyphs (ll_runs l))) \<and>
    ll_width left + ll_width right = ll_width l \<and> ll_len left + ll_len right = ll_len l \<and>
    (\<forall>k \<le> i. x_for_index left k = x_for_index l k) \<and>
    (\<forall>k. x_for_index right k = x_for_index l (i + k) - ll_width left)"
proof -
  let ?x = "x_for_index l i"
  obtain L R where LR: "split_runs ?x i (ll_runs l) = Some (L, R)"
    "font_glyphs L = filter (\<lambda>(f, g). g_index g < i) (font_glyphs (ll_runs l))"
    "font_glyphs R = map (\<lambda>(f, g). (f, moved_glyph ?x i g)) (filter (\<lambda>(f, g). i \<le> g_index g) (font_glyphs (ll_runs l)))"
    by (rule split_runs_spec) (use assms(1) glyphs_ordered_runs in blast)+
  define left where "left = \<lparr>ll_font_size = ll_font_size l, ll_width = ?x, ll_ascent = ll_ascent l,
    ll_descent = ll_descent l, ll_runs = L, ll_len = i\<rparr>"
  define right where "right = \<lparr>ll_font_size = ll_font_size l, ll_width = ll_width l - ?x, ll_ascent = ll_ascent l,
    ll_descent = ll_descent l, ll_runs = R, ll_len = ll_len l - i\<rparr>"
  have split: "split_at l i = Some (left, right)"
    using LR(1) assms(2) by (simp add: split_at_def Let_def usize_sub_def left_def right_def)
  have gl: "all_glyphs left = filter (\<lambda>g. g_index g < i) (all_glyphs l)"
    and gr: "all_glyphs right = map (moved_glyph ?x i) (filter (\<lambda>g. i \<le> g_index g) (all_glyphs l))"
    by (simp_all add: all_glyphs_font left_def right_def LR(2,3) map_snd_filter map_snd_map del: map_map)
  have "x_for_index left k = x_for_index l k" if "k \<le> i" for k
    using find_left [where gs = "all_glyphs l" and k = k and i = i and F = "\<lambda>g. p_x (position g)" and d = "ll_width l"] assms(1) that
    unfolding x_for_index_def [of left] gl
    by (simp add: left_def x_for_index_def glyphs_ordered_def cong: option.case_cong)
  moreover have "x_for_index right k = x_for_index l (i + k) - ?x" for k
    unfolding x_for_index_def [of right] gr find_right
    by (auto simp: x_for_index_def [of l "i + k"] moved_glyph_def mk_point_def right_def split: option.splits)
  moreover have "ll_width left = ?x" "ll_runs left = L" "ll_runs right = R" "ll_width right = ll_width l - ?x"
    "ll_len left + ll_len right = ll_len l"
    using assms(2) by (simp_all add: left_def right_def)
  ultimately show ?thesis
    using split LR(2,3) by auto
qed

lemma split_at_spec_witness:
  "\<exists>left right. split_at (mono_layout 3 :: rat line_layout) 1 = Some (left, right) \<and> ll_width left + ll_width right = 3"
proof -
  have "glyphs_ordered (mono_layout 3 :: rat line_layout)" by (simp add: glyphs_ordered_def comp_def)
  from split_at_spec [OF this, of 1] show ?thesis by auto
qed

section \<open>Coordinates and indices\<close>

text \<open>A layout of text that runs from left to right: indices and positions of the glyphs grow from zero and stay within the line.\<close>

definition ltr_layout :: "('p::linordered_field) line_layout \<Rightarrow> bool" where
  "ltr_layout l \<longleftrightarrow>
     sorted_wrt (\<lambda>g h. g_index g < g_index h \<and> p_x (position g) < p_x (position h)) (all_glyphs l) \<and>
     (\<forall>g \<in> set (all_glyphs l). p_x (position g) < ll_width l \<and> g_index g < ll_len l) \<and>
     (\<forall>g gs. all_glyphs l = g # gs \<longrightarrow> g_index g = 0 \<and> p_x (position g) = 0)"

lemma ltr_mono_layout [simp]: "ltr_layout (mono_layout n)"
  by (cases n) (auto simp: ltr_layout_def sorted_wrt_map upt_conv_Cons sorted_wrt_append simp del: upt_Suc of_nat_Suc)

lemma glyphs_ordered_mono_layout [simp]: "glyphs_ordered (mono_layout n)"
  by (simp add: glyphs_ordered_def comp_def)

lemma index_for_x_rev:
  "index_for_x l x =
     (if x \<ge> ll_width l then None
      else case find (\<lambda>g. p_x (position g) \<le> x) (rev (all_glyphs l)) of Some g \<Rightarrow> Some (g_index g) | None \<Rightarrow> Some 0)"
  by (simp add: index_for_x_def all_glyphs_def rev_concat rev_map comp_def)

lemma find_append: "find P (xs @ ys) = (case find P xs of None \<Rightarrow> find P ys | Some x \<Rightarrow> Some x)"
  by (induction xs) auto

lemma ltr_split:
  assumes "ltr_layout l" and "all_glyphs l = pre @ g # post"
  shows "\<forall>h \<in> set pre. g_index h < g_index g \<and> p_x (position h) < p_x (position g)"
    and "\<forall>h \<in> set post. g_index g < g_index h \<and> p_x (position g) < p_x (position h)"
  using assms by (auto simp: ltr_layout_def sorted_wrt_append)

lemma x_for_index_glyph:
  assumes "ltr_layout l" and "g \<in> set (all_glyphs l)"
  shows "x_for_index l (g_index g) = p_x (position g)"
proof -
  from assms(2) obtain pre post where all: "all_glyphs l = pre @ g # post" by (auto dest: split_list)
  with ltr_split(1) [OF assms(1) all] have "find (\<lambda>h. g_index g \<le> g_index h) pre = None"
    by (auto simp: find_None_iff)
  then show ?thesis by (simp add: x_for_index_def all find_append)
qed

lemma x_for_index_beyond:
  assumes "ltr_layout l" and "ll_len l \<le> i"
  shows "x_for_index l i = ll_width l"
proof -
  have "find (\<lambda>g. i \<le> g_index g) (all_glyphs l) = None"
    using assms by (fastforce simp: find_None_iff ltr_layout_def)
  then show ?thesis by (simp add: x_for_index_def)
qed

lemma x_for_index_0: "ltr_layout l \<Longrightarrow> all_glyphs l \<noteq> [] \<Longrightarrow> x_for_index l 0 = 0"
  by (cases "all_glyphs l") (auto simp: x_for_index_def ltr_layout_def)

lemma index_for_x_last:
  assumes "all_glyphs l = pre @ g # post" and "x < ll_width l" and "p_x (position g) \<le> x"
    and "\<forall>h \<in> set post. x < p_x (position h)"
  shows "index_for_x l x = Some (g_index g)"
proof -
  have "find (\<lambda>g. p_x (position g) \<le> x) (rev post) = None"
    using assms(4) by (auto simp: find_None_iff not_le)
  with assms(1-3) show ?thesis by (simp add: index_for_x_rev find_append)
qed

lemma index_for_x_glyph:
  assumes "ltr_layout l" and "g \<in> set (all_glyphs l)"
  shows "index_for_x l (p_x (position g)) = Some (g_index g)"
proof -
  from assms(2) obtain pre post where all: "all_glyphs l = pre @ g # post" by (auto dest: split_list)
  from ltr_split(2) [OF assms(1) all] assms show ?thesis
    by (intro index_for_x_last [OF all]) (auto simp: ltr_layout_def)
qed

text \<open>
  In text that runs from left to right, \<open>index_for_x\<close> gives the index of the character whose glyph covers the coordinate, the last one
  that starts at or before it, and nothing beyond the line; and it inverts \<open>x_for_index\<close> on the characters of the line.
\<close>

theorem index_for_x_spec:
  assumes "ltr_layout l"
  shows "(ll_width l \<le> x \<longrightarrow> index_for_x l x = None) \<and>
    (0 \<le> x \<and> x < ll_width l \<and> all_glyphs l \<noteq> [] \<longrightarrow>
       (\<exists>pre g post. all_glyphs l = pre @ g # post \<and> p_x (position g) \<le> x \<and>
          (\<forall>h \<in> set post. x < p_x (position h)) \<and> index_for_x l x = Some (g_index g))) \<and>
    (\<forall>g \<in> set (all_glyphs l). index_for_x l (x_for_index l (g_index g)) = Some (g_index g))"
proof (intro conjI ballI impI)
  show "index_for_x l x = None" if "ll_width l \<le> x" using that by (simp add: index_for_x_def)
  show "index_for_x l (x_for_index l (g_index g)) = Some (g_index g)" if "g \<in> set (all_glyphs l)" for g
    using that assms by (simp add: x_for_index_glyph index_for_x_glyph)
  assume x: "0 \<le> x \<and> x < ll_width l \<and> all_glyphs l \<noteq> []"
  with assms have "\<exists>g \<in> set (all_glyphs l). p_x (position g) \<le> x"
    by (cases "all_glyphs l") (auto simp: ltr_layout_def)
  then obtain pre g post where "all_glyphs l = pre @ g # post" "p_x (position g) \<le> x"
    "\<forall>h \<in> set post. \<not> p_x (position h) \<le> x"
    by (rule split_list_last_propE)
  with x index_for_x_last show "\<exists>pre g post. all_glyphs l = pre @ g # post \<and> p_x (position g) \<le> x \<and>
      (\<forall>h \<in> set post. x < p_x (position h)) \<and> index_for_x l x = Some (g_index g)"
    by (metis not_le)
qed

lemma index_for_x_spec_witness:
  "index_for_x (mono_layout 3 :: rat line_layout) (x_for_index (mono_layout 3) 2) = Some 2"
proof -
  have "mono_glyph 2 \<in> set (all_glyphs (mono_layout 3 :: rat line_layout))" by simp
  with index_for_x_spec [OF ltr_mono_layout [of 3], of "0 :: rat"]
  have "index_for_x (mono_layout 3 :: rat line_layout)
      (x_for_index (mono_layout 3) (g_index (mono_glyph 2 :: rat shaped_glyph))) = Some (g_index (mono_glyph 2 :: rat shaped_glyph))"
    by blast
  then show ?thesis by simp
qed

text \<open>The nearest of the start and the glyphs.\<close>

lemma closest_loop_nearest:
  fixes gs :: "('p::linordered_field) shaped_glyph list"
  assumes "sorted_wrt (\<lambda>g h. p_x (position g) < p_x (position h)) gs" and "prev_x \<le> x"
    and "\<forall>g \<in> set gs. prev_x \<le> p_x (position g)" and "closest_loop x prev_index prev_x gs = Some i"
  shows "\<exists>y. ((i, y) = (prev_index, prev_x) \<or> (i, y) \<in> (\<lambda>g. (g_index g, p_x (position g))) ` set gs) \<and>
    \<bar>y - x\<bar> \<le> \<bar>prev_x - x\<bar> \<and> (\<forall>g \<in> set gs. \<bar>y - x\<bar> \<le> \<bar>p_x (position g) - x\<bar>)"
  using assms
proof (induction gs arbitrary: prev_index prev_x)
  case (Cons g gs)
  let ?y = "p_x (position g)"
  have later: "?y \<le> p_x (position h)" if "h \<in> set gs" for h using Cons.prems(1) that by fastforce
  show ?case
  proof (cases "?y \<ge> x")
    case True
    show ?thesis
    proof (cases "?y - x < x - prev_x")
      case nearer: True
      with True Cons.prems(4) have "i = g_index g" by simp
      with True nearer later show ?thesis by (intro exI [of _ ?y]) (fastforce simp: abs_if)
    next
      case False
      with True Cons.prems(4) have "i = prev_index" by simp
      moreover have "\<bar>prev_x - x\<bar> \<le> \<bar>p_x (position h) - x\<bar>" if "h \<in> set (g # gs)" for h
        using False True Cons.prems(2) later [of h] that by (auto simp: abs_if)
      ultimately show ?thesis by (intro exI [of _ prev_x]) auto
    qed
  next
    case False
    have "\<exists>y. ((i, y) = (g_index g, ?y) \<or> (i, y) \<in> (\<lambda>g. (g_index g, p_x (position g))) ` set gs) \<and>
      \<bar>y - x\<bar> \<le> \<bar>?y - x\<bar> \<and> (\<forall>g \<in> set gs. \<bar>y - x\<bar> \<le> \<bar>p_x (position g) - x\<bar>)"
      using Cons.prems(1,4) False later by (intro Cons.IH) auto
    then obtain y where y: "(i, y) \<in> (\<lambda>g. (g_index g, p_x (position g))) ` set (g # gs)"
      "\<forall>g \<in> set (g # gs). \<bar>y - x\<bar> \<le> \<bar>p_x (position g) - x\<bar>"
      by auto
    have "\<bar>?y - x\<bar> \<le> \<bar>prev_x - x\<bar>" using False Cons.prems(2,3) by (auto simp: abs_if)
    with y(2) have "\<bar>y - x\<bar> \<le> \<bar>prev_x - x\<bar>" using order_trans by auto
    with y show ?thesis by (intro exI [of _ y]) simp
  qed
qed simp

lemma closest_loop_None: "closest_loop x j px gs = None \<longleftrightarrow> (\<forall>g \<in> set gs. p_x (position g) < x)"
  by (induction gs arbitrary: j px) (auto simp: not_le)

text \<open>
  Up to the start of the last glyph, \<open>closest_index_for_x\<close> gives the index of the glyph whose start is nearest. After it, the index
  is the end of the line, whether the coordinate is nearer to the end or to the start of the last glyph, except in a
  line of one byte, which is cut in the middle.
\<close>

theorem closest_index_for_x_spec:
  fixes l :: "('p::linordered_field) line_layout"
  assumes "ltr_layout l" and "0 \<le> x" and "all_glyphs l \<noteq> []"
  shows "(x \<le> p_x (position (last (all_glyphs l))) \<longrightarrow>
      (\<exists>g \<in> set (all_glyphs l). closest_index_for_x l x = g_index g \<and>
         (\<forall>h \<in> set (all_glyphs l). \<bar>p_x (position g) - x\<bar> \<le> \<bar>p_x (position h) - x\<bar>))) \<and>
    (p_x (position (last (all_glyphs l))) < x \<longrightarrow>
      closest_index_for_x l x = (if ll_len l = 1 \<and> x \<le> ll_width l / 2 then 0 else ll_len l))"
proof -
  let ?gs = "all_glyphs l"
  have sorted: "sorted_wrt (\<lambda>g h. p_x (position g) < p_x (position h)) ?gs"
    using assms(1) by (auto simp: ltr_layout_def intro: sorted_wrt_mono_rel [rotated])
  obtain g0 gs0 where gs: "?gs = g0 # gs0" "g_index g0 = 0" "p_x (position g0) = 0"
    using assms(1,3) by (cases ?gs) (auto simp: ltr_layout_def)
  have le_last: "p_x (position h) \<le> p_x (position (last ?gs))" if "h \<in> set ?gs" for h
    using that sorted by (cases ?gs rule: rev_cases) (auto simp: sorted_wrt_append)
  show ?thesis
  proof (intro conjI impI)
    assume "x \<le> p_x (position (last ?gs))"
    then have "closest_loop x 0 0 ?gs \<noteq> None"
      using last_in_set [OF assms(3)] by (auto simp: closest_loop_None not_less)
    then obtain i where i: "closest_loop x 0 0 ?gs = Some i" by blast
    have ge: "\<forall>g \<in> set ?gs. 0 \<le> p_x (position g)" using sorted gs(3) unfolding gs(1) by fastforce
    from closest_loop_nearest [OF sorted assms(2) ge i] obtain y where
      iy: "(i, y) = (0, 0) \<or> (i, y) \<in> (\<lambda>g. (g_index g, p_x (position g))) ` set ?gs"
      and y: "\<forall>g \<in> set ?gs. \<bar>y - x\<bar> \<le> \<bar>p_x (position g) - x\<bar>"
      by blast
    have "(0, 0) \<in> (\<lambda>g. (g_index g, p_x (position g))) ` set ?gs"
      by (rule image_eqI [of _ _ g0]) (simp_all add: gs)
    with iy have "(i, y) \<in> (\<lambda>g. (g_index g, p_x (position g))) ` set ?gs" by auto
    then obtain g where "g \<in> set ?gs" "i = g_index g" "y = p_x (position g)" by blast
    with y i show "\<exists>g \<in> set ?gs. closest_index_for_x l x = g_index g \<and>
        (\<forall>h \<in> set ?gs. \<bar>p_x (position g) - x\<bar> \<le> \<bar>p_x (position h) - x\<bar>)"
      by (auto simp: closest_index_for_x_def)
  next
    assume "p_x (position (last ?gs)) < x"
    with le_last have "closest_loop x 0 0 ?gs = None" by (force simp: closest_loop_None)
    then show "closest_index_for_x l x = (if ll_len l = 1 \<and> x \<le> ll_width l / 2 then 0 else ll_len l)"
      by (simp add: closest_index_for_x_def)
  qed
qed

lemma closest_index_for_x_spec_witness: "closest_index_for_x (mono_layout 2 :: rat line_layout) (5 / 4) = 2"
  using closest_index_for_x_spec [OF ltr_mono_layout [of 2], of "5 / 4 :: rat"] by (simp add: numeral_2_eq_2)

end
