(* ===== verification/Wrapped_Line.thy ===== *)
theory Wrapped_Line
  imports Line_Layout
begin

text \<open>
  Properties of wrapping a layout (\<open>crates/gpui/src/text_system/line_layout.rs\<close>, modelled in \<open>Line_Layout\<close>): the rows that the
  boundaries make, and the conversion between positions and indices of a wrapped line.
\<close>

section \<open>Rows\<close>

definition wx :: "'p wrap_glyph \<Rightarrow> 'p" where
  "wx it = snd (snd it)"

definition readable :: "'p wrap_glyph \<Rightarrow> bool" where
  "readable it \<longleftrightarrow> (\<exists>ch. fst (snd it) = Some ch \<and> ch \<noteq> 10)"

definition next_x :: "'p \<Rightarrow> 'p wrap_glyph list \<Rightarrow> 'p" where
  "next_x lw its = (case its of [] \<Rightarrow> lw | it # _ \<Rightarrow> wx it)"

text \<open>Positions do not decrease, and no glyph is wider than \<open>A\<close>.\<close>

fun advances :: "'p \<Rightarrow> ('p::linordered_field) \<Rightarrow> 'p wrap_glyph list \<Rightarrow> bool" where
  "advances A lw [] \<longleftrightarrow> True"
| "advances A lw (it # its) \<longleftrightarrow> wx it \<le> next_x lw its \<and> next_x lw its \<le> wx it + A \<and> advances A lw its"

text \<open>
  \<open>wrap_cuts bs rows\<close>: the boundaries are where the rows after the first one start. \<open>rows_within B lw whole rows\<close>: no row is wider than
  \<open>B\<close>, where the last row counts only if \<open>whole\<close> is set.
\<close>

fun wrap_cuts :: "wrap_boundary list \<Rightarrow> 'p wrap_glyph list list \<Rightarrow> bool" where
  "wrap_cuts [] rows \<longleftrightarrow> (\<exists>row. rows = [row])"
| "wrap_cuts (b # bs) rows \<longleftrightarrow>
     (\<exists>row rest. rows = row # rest \<and> row \<noteq> [] \<and> concat rest \<noteq> [] \<and> fst (hd (concat rest)) = b \<and> wrap_cuts bs rest)"

fun rows_within :: "('p::linordered_field) \<Rightarrow> 'p \<Rightarrow> bool \<Rightarrow> 'p wrap_glyph list list \<Rightarrow> bool" where
  "rows_within B lw whole [] \<longleftrightarrow> True"
| "rows_within B lw whole (row # rows) \<longleftrightarrow>
     (row \<noteq> [] \<and> (whole \<or> concat rows \<noteq> []) \<longrightarrow> next_x lw (concat rows) - wx (hd row) \<le> B) \<and> rows_within B lw whole rows"

lemma cw_loop_step:
  assumes "readable it" and "\<forall>it \<in> set rest. readable it"
  shows "cw_loop W ml lw s (it # rest) =
    (let ch = the (fst (snd it)); v = cw_visit (fst it) ch (wx it) s
     in if next_x lw rest - cw_last_boundary_x v > W \<and> wb_less (cw_last_boundary v) (fst it) then
          if (case ml of Some n \<Rightarrow> length (cw_boundaries v) \<ge> n - 1 | None \<Rightarrow> False) then Some (cw_boundaries v)
          else cw_loop W ml lw ((cw_break (fst it) (wx it) v)\<lparr>cw_prev_ch := ch\<rparr>) rest
        else cw_loop W ml lw (v\<lparr>cw_prev_ch := ch\<rparr>) rest)"
proof -
  obtain b ch x where it: "it = (b, Some ch, x)" "ch \<noteq> 10"
    using assms(1) by (cases it) (auto simp: readable_def)
  have "(case rest of [] \<Rightarrow> Some lw | (_, character', x') # _ \<Rightarrow> map_option (\<lambda>_. x') character') = Some (next_x lw rest)"
    using assms(2) by (auto simp: next_x_def readable_def wx_def split: list.splits)
  then show ?thesis using it(2) unfolding it(1) by (simp add: wx_def Let_def)
qed

lemma cw_visit_keeps [simp]:
  "cw_boundaries (cw_visit b ch x s) = cw_boundaries s" "cw_last_boundary (cw_visit b ch x s) = cw_last_boundary s"
  "cw_last_boundary_x (cw_visit b ch x s) = cw_last_boundary_x s"
  by (simp_all add: cw_visit_def Let_def)

text \<open>The invariant of the loop: \<open>cur\<close> is the row so far, \<open>rest\<close> are the glyphs to come.\<close>

definition cw_inv :: "'p wrap_glyph list \<Rightarrow> 'p wrap_glyph list \<Rightarrow> 'p cwb_state \<Rightarrow> bool" where
  "cw_inv cur rest s \<longleftrightarrow>
     (cur @ rest \<noteq> [] \<longrightarrow> cw_last_boundary s = fst (hd (cur @ rest)) \<and> cw_last_boundary_x s = wx (hd (cur @ rest))) \<and>
     (cur = [] \<longrightarrow> cw_first_non_whitespace_ix s = None) \<and>
     (\<forall>c. cw_last_candidate_ix s = Some c \<longrightarrow>
        (\<exists>pre it post. cur = pre @ it # post \<and> pre \<noteq> [] \<and> fst it = c \<and> wx it = cw_last_candidate_x s))"

definition cw_width :: "('p::linordered_field) \<Rightarrow> 'p \<Rightarrow> 'p \<Rightarrow> 'p wrap_glyph list \<Rightarrow> 'p cwb_state \<Rightarrow> bool" where
  "cw_width W A lw rest s \<longleftrightarrow>
     next_x lw rest - cw_last_boundary_x s \<le> W \<or>
     cw_last_candidate_ix s = None \<and> next_x lw rest - cw_last_boundary_x s \<le> W + A"

lemma cw_visit_candidate:
  assumes "cw_inv cur (it # rest) s"
  shows "cw_last_candidate_ix (cw_visit (fst it) ch (wx it) s) = cw_last_candidate_ix s \<and>
      cw_last_candidate_x (cw_visit (fst it) ch (wx it) s) = cw_last_candidate_x s \<or>
    cw_last_candidate_ix (cw_visit (fst it) ch (wx it) s) = Some (fst it) \<and>
      cw_last_candidate_x (cw_visit (fst it) ch (wx it) s) = wx it \<and> cur \<noteq> []"
  using assms by (auto simp: cw_visit_def cw_inv_def Let_def)

lemma cw_inv_continue:
  assumes "cw_inv cur (it # rest) s"
  shows "cw_inv (cur @ [it]) rest ((cw_visit (fst it) ch (wx it) s)\<lparr>cw_prev_ch := p\<rparr>)"
proof -
  let ?v = "cw_visit (fst it) ch (wx it) s"
  have "\<exists>pre jt post. cur @ [it] = pre @ jt # post \<and> pre \<noteq> [] \<and> fst jt = c \<and> wx jt = cw_last_candidate_x ?v"
    if c: "cw_last_candidate_ix ?v = Some c" for c
    using cw_visit_candidate [OF assms, of ch]
  proof
    assume "cw_last_candidate_ix ?v = cw_last_candidate_ix s \<and> cw_last_candidate_x ?v = cw_last_candidate_x s"
    with assms c obtain pre jt post where "cur = pre @ jt # post" "pre \<noteq> []" "fst jt = c" "wx jt = cw_last_candidate_x ?v"
      unfolding cw_inv_def by metis
    then show ?thesis by (intro exI [of _ pre] exI [of _ jt] exI [of _ "post @ [it]"]) simp
  next
    assume "cw_last_candidate_ix ?v = Some (fst it) \<and> cw_last_candidate_x ?v = wx it \<and> cur \<noteq> []"
    with c show ?thesis by (intro exI [of _ cur] exI [of _ it] exI [of _ "[]"]) simp
  qed
  with assms show ?thesis by (auto simp: cw_inv_def)
qed

lemma cw_inv_break:
  assumes inv: "cw_inv cur (it # rest) s" and "cur \<noteq> []"
  obtains pre post where "cur @ [it] = pre @ post" and "pre \<noteq> []" and "post \<noteq> []"
    and "cw_inv post rest ((cw_break (fst it) (wx it) (cw_visit (fst it) ch (wx it) s))\<lparr>cw_prev_ch := p\<rparr>)"
    and "cw_boundaries (cw_break (fst it) (wx it) (cw_visit (fst it) ch (wx it) s)) = cw_boundaries s @ [fst (hd post)]"
    and "cw_last_candidate_ix (cw_break (fst it) (wx it) (cw_visit (fst it) ch (wx it) s)) = None"
    and "cw_last_boundary_x (cw_break (fst it) (wx it) (cw_visit (fst it) ch (wx it) s)) = wx (hd post)"
    and "post = [it] \<or> cw_last_candidate_ix s \<noteq> None"
proof -
  let ?v = "cw_visit (fst it) ch (wx it) s"
  consider (old) c where "cw_last_candidate_ix ?v = Some c" "cw_last_candidate_ix s = Some c"
      "cw_last_candidate_x ?v = cw_last_candidate_x s"
    | (here) "cw_last_candidate_ix ?v = Some (fst it)" "cw_last_candidate_x ?v = wx it"
    | (none) "cw_last_candidate_ix ?v = None"
    using cw_visit_candidate [OF inv, of ch] by (cases "cw_last_candidate_ix ?v") auto
  then show ?thesis
  proof cases
    case old
    with inv obtain pre jt post where pre: "cur = pre @ jt # post" "pre \<noteq> []" "fst jt = c" "wx jt = cw_last_candidate_x s"
      unfolding cw_inv_def by blast
    show ?thesis
      by (rule that [of pre "jt # post @ [it]"]) (use pre old in \<open>simp_all add: cw_inv_def cw_break_def\<close>)
  next
    case here
    show ?thesis
      by (rule that [of cur "[it]"]) (use here assms in \<open>simp_all add: cw_inv_def cw_break_def\<close>)
  next
    case none
    show ?thesis
      by (rule that [of cur "[it]"]) (use none assms in \<open>simp_all add: cw_inv_def cw_break_def\<close>)
  qed
qed

lemma advances_le: "advances A lw (its @ jts) \<Longrightarrow> its \<noteq> [] \<Longrightarrow> wx (hd its) \<le> next_x lw jts"
proof (induction its)
  case (Cons it its)
  then show ?case by (cases its) (auto simp: next_x_def)
qed simp

lemma advances_append: "advances A lw (its @ jts) \<Longrightarrow> advances A lw jts"
  by (induction its) auto

lemma wrap_cuts_ne: "wrap_cuts bs rows \<Longrightarrow> rows \<noteq> []"
  by (cases bs) auto

definition clamped :: "nat option \<Rightarrow> nat \<Rightarrow> bool" where
  "clamped ml n = (case ml of Some m \<Rightarrow> n \<ge> m - 1 | None \<Rightarrow> False)"

lemma cw_loop_rows:
  fixes s :: "('p::linordered_field) cwb_state"
  assumes "cw_inv cur rest s" and "sorted_wrt wb_less (map fst (cur @ rest))" and "\<forall>it \<in> set rest. readable it"
    and "advances A lw (cur @ rest)" and "cw_width W A lw rest s" and "0 \<le> W" and "0 \<le> A"
  shows "\<exists>bs rows. cw_loop W ml lw s rest = Some (cw_boundaries s @ bs) \<and> concat rows = cur @ rest \<and> wrap_cuts bs rows \<and>
    (\<forall>n. ml = Some n \<longrightarrow> length (cw_boundaries s @ bs) \<le> max (n - 1) (length (cw_boundaries s))) \<and>
    rows_within (W + A) lw (\<not> clamped ml (length (cw_boundaries s @ bs))) rows"
  using assms(1-5)
proof (induction rest arbitrary: cur s)
  case Nil
  then have "lw - wx (hd cur) \<le> W + A" if "cur \<noteq> []"
    using that assms(7) by (auto simp: cw_inv_def cw_width_def next_x_def)
  with Nil show ?case by (intro exI [of _ "[]"] exI [of _ "[cur]"]) (auto simp: next_x_def)
next
  case (Cons it rest)
  define ch where "ch = the (fst (snd it))"
  define v where "v = cw_visit (fst it) ch (wx it) s"
  have adv: "wx it \<le> next_x lw rest" "next_x lw rest \<le> wx it + A" "advances A lw rest"
    using advances_append [OF Cons.prems(4)] by auto
  have start: "cw_last_boundary v = fst (hd (cur @ it # rest))" "cw_last_boundary_x v = wx (hd (cur @ it # rest))"
    using Cons.prems(1) by (auto simp: cw_inv_def v_def)
  have step: "cw_loop W ml lw s (it # rest) =
    (if next_x lw rest - cw_last_boundary_x v > W \<and> wb_less (cw_last_boundary v) (fst it) then
       if clamped ml (length (cw_boundaries s)) then Some (cw_boundaries s)
       else cw_loop W ml lw ((cw_break (fst it) (wx it) v)\<lparr>cw_prev_ch := ch\<rparr>) rest
     else cw_loop W ml lw (v\<lparr>cw_prev_ch := ch\<rparr>) rest)"
    using Cons.prems(3) by (subst cw_loop_step) (simp_all add: ch_def v_def Let_def clamped_def cong: option.case_cong)
  show ?case
  proof (cases "next_x lw rest - cw_last_boundary_x v > W \<and> wb_less (cw_last_boundary v) (fst it)")
    case break: True
    have cur: "cur \<noteq> []" using break start by (auto simp: wb_less_def)
    show ?thesis
    proof (cases "clamped ml (length (cw_boundaries s))")
      case True
      with break step show ?thesis
        by (intro exI [of _ "[]"] exI [of _ "[cur @ it # rest]"]) (auto simp: next_x_def)
    next
      case False
      let ?b = "cw_break (fst it) (wx it) v"
      obtain pre post where pre: "cur @ [it] = pre @ post" "pre \<noteq> []" "post \<noteq> []"
        and inv: "cw_inv post rest (?b\<lparr>cw_prev_ch := ch\<rparr>)"
        and bs: "cw_boundaries ?b = cw_boundaries s @ [fst (hd post)]"
        and none: "cw_last_candidate_ix ?b = None" and bx: "cw_last_boundary_x ?b = wx (hd post)"
        and which: "post = [it] \<or> cw_last_candidate_ix s \<noteq> None"
        unfolding v_def by (rule cw_inv_break [OF Cons.prems(1) cur])
      have all: "cur @ it # rest = pre @ post @ rest" using pre(1) by simp
      have hd: "hd (cur @ it # rest) = hd pre" unfolding all using pre(2) by simp
      have lo: "wx (hd pre) \<le> wx (hd post)"
        using advances_le [of A lw pre "post @ rest"] Cons.prems(4) pre unfolding all by (cases post) (simp_all add: next_x_def)
      have mid: "wx (hd post) \<le> wx it"
        using pre(1,3) advances_le [of A lw "butlast post" "it # rest"] advances_append [of A lw pre "post @ rest"]
          Cons.prems(4) unfolding all
        by (cases post rule: rev_cases) (auto simp: next_x_def hd_append)
      have w: "wx it - wx (hd pre) \<le> W \<or> cw_last_candidate_ix s = None \<and> wx it - wx (hd pre) \<le> W + A"
        using Cons.prems(5) start(2) hd by (simp add: cw_width_def next_x_def v_def)
      have row: "wx (hd post) - wx (hd pre) \<le> W + A" using w mid assms(7) by linarith
      have "next_x lw rest - wx (hd post) \<le> W + A"
        using which w lo adv assms(6,7) by (auto; linarith)
      then have width: "cw_width W A lw rest (?b\<lparr>cw_prev_ch := ch\<rparr>)"
        using none bx by (simp add: cw_width_def)
      have "sorted_wrt wb_less (map fst (post @ rest))" "advances A lw (post @ rest)"
        using Cons.prems(2,4) advances_append [of A lw pre "post @ rest"] unfolding all by (simp_all add: sorted_wrt_append)
      then obtain bs' rows where IH: "cw_loop W ml lw (?b\<lparr>cw_prev_ch := ch\<rparr>) rest = Some (cw_boundaries ?b @ bs')"
        "concat rows = post @ rest" "wrap_cuts bs' rows"
        "\<forall>n. ml = Some n \<longrightarrow> length (cw_boundaries ?b @ bs') \<le> max (n - 1) (length (cw_boundaries ?b))"
        "rows_within (W + A) lw (\<not> clamped ml (length (cw_boundaries ?b @ bs'))) rows"
        using Cons.IH [OF inv _ _ _ width] Cons.prems(3) by auto
      have "next_x lw (concat rows) = wx (hd post)" using IH(2) pre(3) by (cases post) (simp_all add: next_x_def)
      then have "rows_within (W + A) lw (\<not> clamped ml (length (cw_boundaries s @ fst (hd post) # bs'))) (pre # rows)"
        using IH(5) row by (simp add: bs)
      moreover have "wrap_cuts (fst (hd post) # bs') (pre # rows)" using IH(2,3) pre(2,3) by (simp del: concat_eq_Nil_conv)
      moreover have "\<forall>n. ml = Some n \<longrightarrow>
          length (cw_boundaries s @ fst (hd post) # bs') \<le> max (n - 1) (length (cw_boundaries s))"
        using IH(4) False by (auto simp: bs clamped_def)
      ultimately show ?thesis
        using break False step IH(1,2) all
        by (intro exI [of _ "fst (hd post) # bs'"] exI [of _ "pre # rows"]) (simp add: bs)
    qed
  next
    case False
    have inv: "cw_inv (cur @ [it]) rest (v\<lparr>cw_prev_ch := ch\<rparr>)"
      unfolding v_def by (rule cw_inv_continue [OF Cons.prems(1)])
    have "cw_width W A lw rest v"
    proof (cases "cur = []")
      case True
      with Cons.prems(1) adv start(2) cw_visit_candidate [OF Cons.prems(1), of ch] assms(6) show ?thesis
        by (auto simp: cw_width_def cw_inv_def v_def)
    next
      case ne: False
      with Cons.prems(2) start(1) have "wb_less (cw_last_boundary v) (fst it)"
        by (cases cur) (auto simp: sorted_wrt_append)
      with False show ?thesis by (simp add: cw_width_def)
    qed
    then have width: "cw_width W A lw rest (v\<lparr>cw_prev_ch := ch\<rparr>)" by (simp add: cw_width_def)
    have eq: "cw_loop W ml lw s (it # rest) = cw_loop W ml lw (v\<lparr>cw_prev_ch := ch\<rparr>) rest"
      using step False by simp
    have "cw_boundaries (v\<lparr>cw_prev_ch := ch\<rparr>) = cw_boundaries s" by (simp add: v_def)
    with Cons.IH [OF inv _ _ _ width] Cons.prems(2-4) show ?thesis
      unfolding eq by simp
  qed
qed

lemma wb_less_trans: "wb_less a b \<Longrightarrow> wb_less b c \<Longrightarrow> wb_less a c"
  by (auto simp: wb_less_def)

definition run_places :: "nat \<Rightarrow> 'p shaped_run list \<Rightarrow> wrap_boundary list" where
  "run_places k runs =
     concat (map (\<lambda>(r, run). map (\<lambda>g. \<lparr>run_ix = r, glyph_ix = g\<rparr>) [0..<length (glyphs run)]) (List.enumerate k runs))"

lemma run_places_Cons:
  "run_places k (run # runs) = map (\<lambda>g. \<lparr>run_ix = k, glyph_ix = g\<rparr>) [0..<length (glyphs run)] @ run_places (Suc k) runs"
  by (simp add: run_places_def)

lemma run_places_ge: "b \<in> set (run_places k runs) \<Longrightarrow> k \<le> run_ix b"
  by (induction runs arbitrary: k) (force simp: run_places_Cons run_places_def)+

lemma run_places_sorted: "sorted_wrt wb_less (run_places k runs)"
proof (induction runs arbitrary: k)
  case (Cons run runs)
  have "sorted_wrt wb_less (map (\<lambda>g. \<lparr>run_ix = k, glyph_ix = g\<rparr>) [0..<n])" for n
    by (simp add: sorted_wrt_map wb_less_def)
  with Cons show ?case
    by (auto simp: run_places_Cons sorted_wrt_append dest!: run_places_ge) (simp add: wb_less_def)
qed (simp add: run_places_def)

lemma map_fst_wrap_glyphs: "map fst (wrap_glyphs text l) = run_places 0 (ll_runs l)"
proof -
  have "map fst (map (\<lambda>(glyph_ix, g). (\<lparr>run_ix = r, glyph_ix = glyph_ix\<rparr>, char_at text (g_index g), p_x (position g)))
      (List.enumerate 0 gs)) = map (\<lambda>g. \<lparr>run_ix = r, glyph_ix = g\<rparr>) [0..<length gs]" for r and gs :: "'a shaped_glyph list"
    by (rule nth_equalityI) (auto simp: nth_enumerate_eq)
  then show ?thesis
    by (simp add: wrap_glyphs_def run_places_def map_concat comp_def case_prod_unfold)
qed

lemma wrap_glyphs_sorted: "sorted_wrt wb_less (map fst (wrap_glyphs text l))"
  by (simp add: map_fst_wrap_glyphs run_places_sorted)

lemma wrap_glyphs_glyphs:
  "map (\<lambda>it. (fst (snd it), wx it)) (wrap_glyphs text l) =
     map (\<lambda>g. (char_at text (g_index g), p_x (position g))) (all_glyphs l)"
proof -
  have "map (\<lambda>it. (fst (snd it), wx it))
      (map (\<lambda>(glyph_ix, g). (\<lparr>run_ix = r, glyph_ix = glyph_ix\<rparr>, char_at text (g_index g), p_x (position g)))
        (List.enumerate 0 gs)) = map (\<lambda>g. (char_at text (g_index g), p_x (position g))) gs" for r and gs :: "'a shaped_glyph list"
    by (rule nth_equalityI) (auto simp: nth_enumerate_eq wx_def)
  then have *: "concat (map (\<lambda>(r, run). map (\<lambda>it. (fst (snd it), wx it))
      (map (\<lambda>(glyph_ix, g). (\<lparr>run_ix = r, glyph_ix = glyph_ix\<rparr>, char_at text (g_index g), p_x (position g)))
        (List.enumerate 0 (glyphs run)))) (List.enumerate k runs)) =
      concat (map (\<lambda>run. map (\<lambda>g. (char_at text (g_index g), p_x (position g))) (glyphs run)) runs)"
    for k and runs :: "'a shaped_run list"
    by (induction runs arbitrary: k) (simp_all del: map_map)
  show ?thesis
    unfolding wrap_glyphs_def all_glyphs_def map_concat
    using * [of 0 "ll_runs l"] by (simp add: comp_def case_prod_unfold)
qed

text \<open>A character can be read for every glyph, and none is a line break.\<close>

definition line_text :: "uchar list \<Rightarrow> 'p line_layout \<Rightarrow> bool" where
  "line_text text l \<longleftrightarrow> (\<forall>g \<in> set (all_glyphs l). \<exists>ch. char_at text (g_index g) = Some ch \<and> ch \<noteq> 10)"

lemma line_text_readable: "line_text text l \<Longrightarrow> it \<in> set (wrap_glyphs text l) \<Longrightarrow> readable it"
proof -
  assume "line_text text l" and "it \<in> set (wrap_glyphs text l)"
  then have "(fst (snd it), wx it) \<in> set (map (\<lambda>g. (char_at text (g_index g), p_x (position g))) (all_glyphs l))"
    unfolding wrap_glyphs_glyphs [symmetric] by auto
  with \<open>line_text text l\<close> show ?thesis by (auto simp: line_text_def readable_def)
qed

text \<open>No glyph is wider than \<open>A\<close>.\<close>

fun glyphs_within :: "('p::linordered_field) \<Rightarrow> 'p \<Rightarrow> 'p list \<Rightarrow> bool" where
  "glyphs_within A lw [] \<longleftrightarrow> True"
| "glyphs_within A lw (x # xs) \<longleftrightarrow>
     (case xs of [] \<Rightarrow> lw | y # _ \<Rightarrow> y) \<le> x + A \<and> glyphs_within A lw xs"

lemma advances_within:
  "sorted (map wx its @ [lw]) \<Longrightarrow> glyphs_within A lw (map wx its) \<Longrightarrow> advances A lw its"
proof (induction its)
  case (Cons it its)
  then show ?case by (cases its) (auto simp: next_x_def)
qed simp

lemma map_wx_wrap_glyphs: "map wx (wrap_glyphs text l) = map (\<lambda>g. p_x (position g)) (all_glyphs l)"
  using arg_cong [OF wrap_glyphs_glyphs [of "text" l], of "map snd"] by (simp add: comp_def)

lemma ltr_sorted: "ltr_layout l \<Longrightarrow> sorted (map (\<lambda>g. p_x (position g)) (all_glyphs l) @ [ll_width l])"
  unfolding ltr_layout_def
  by (auto simp: sorted_append sorted_wrt_map less_imp_le intro: sorted_wrt_mono_rel [rotated])

definition first_run_shown :: "'p line_layout \<Rightarrow> bool" where
  "first_run_shown l \<longleftrightarrow> (\<forall>run runs. ll_runs l = run # runs \<longrightarrow> glyphs run \<noteq> [])"

lemma cw_inv_init:
  assumes "ltr_layout l" and "first_run_shown l"
  shows "cw_inv [] (wrap_glyphs text l) cw_init"
proof (cases "wrap_glyphs text l")
  case (Cons it its)
  have "wx it = 0"
    using map_wx_wrap_glyphs [of "text" l] assms(1) Cons by (cases "all_glyphs l") (auto simp: ltr_layout_def)
  moreover have "fst it = \<lparr>run_ix = 0, glyph_ix = 0\<rparr>"
    using map_fst_wrap_glyphs [of "text" l] Cons assms(2)
    by (cases "ll_runs l") (auto simp: run_places_Cons run_places_def first_run_shown_def upt_conv_Cons)
  ultimately show ?thesis using Cons by (simp add: cw_inv_def cw_init_def)
qed (simp add: cw_inv_def cw_init_def)

lemma compute_wrap_rows:
  fixes l :: "('p::linordered_field) line_layout"
  assumes "ltr_layout l" and "line_text text l" and "first_run_shown l" and "0 \<le> W" and "0 \<le> A"
    and "glyphs_within A (ll_width l) (map (\<lambda>g. p_x (position g)) (all_glyphs l))"
  obtains bs rows where "compute_wrap_boundaries l text W ml = Some bs" and "concat rows = wrap_glyphs text l"
    and "wrap_cuts bs rows" and "\<forall>n. ml = Some n \<longrightarrow> length bs \<le> n - 1"
    and "rows_within (W + A) (ll_width l) (\<not> clamped ml (length bs)) rows"
proof -
  let ?its = "wrap_glyphs text l"
  have "advances A (ll_width l) ([] @ ?its)"
    using ltr_sorted [OF assms(1)] assms(6) by (simp add: advances_within map_wx_wrap_glyphs)
  moreover have "cw_width W A (ll_width l) ?its cw_init" if "?its \<noteq> []"
    using that cw_inv_init [OF assms(1,3), of "text"] assms(4)
    by (cases ?its) (simp_all add: cw_inv_def cw_width_def next_x_def)
  ultimately show ?thesis
  proof (cases "?its = []")
    case True
    with that [of "[]" "[[]]"] show ?thesis by (simp add: compute_wrap_boundaries_def cw_init_def)
  next
    case False
    with \<open>?its \<noteq> [] \<Longrightarrow> cw_width W A (ll_width l) ?its cw_init\<close> \<open>advances A (ll_width l) ([] @ ?its)\<close>
      cw_loop_rows [OF cw_inv_init [OF assms(1,3)], of "text" A "ll_width l" W ml] wrap_glyphs_sorted [of "text" l]
      line_text_readable [OF assms(2)] assms(4,5)
    show ?thesis
      using that by (auto simp: compute_wrap_boundaries_def cw_init_def)
  qed
qed

text \<open>
  C24. Wrapping a layout of left-to-right text without line breaks returns, and its boundaries cut the glyphs into rows, each
  starting at its boundary. There are at most as many rows as the limit says. Every row, up to the last one if the
  limit was not reached, is at most one glyph wider than the wrap width.
\<close>

theorem compute_wrap_boundaries_spec:
  fixes l :: "('p::linordered_field) line_layout"
  assumes "ltr_layout l" and "line_text text l" and "first_run_shown l" and "0 \<le> W" and "0 \<le> A"
    and "glyphs_within A (ll_width l) (map (\<lambda>g. p_x (position g)) (all_glyphs l))"
  shows "\<exists>bs rows. compute_wrap_boundaries l text W ml = Some bs \<and> concat rows = wrap_glyphs text l \<and>
    wrap_cuts bs rows \<and> (\<forall>n. ml = Some n \<longrightarrow> length bs \<le> n - 1) \<and>
    rows_within (W + A) (ll_width l) (\<not> clamped ml (length bs)) rows"
  using compute_wrap_rows [OF assms, of ml] by blast

lemma mono_layout_ok:
  "first_run_shown (mono_layout 3)" "line_text [97, 32, 98] (mono_layout 3)"
  "glyphs_within 1 3 [0, 1, 2 :: 'p::linordered_field]"
  by (simp_all add: first_run_shown_def mono_layout_def line_text_def all_glyphs_def mono_glyph_def upt_rec
      char_len_utf8.simps)

lemma compute_wrap_boundaries_spec_witness:
  "\<exists>bs. compute_wrap_boundaries (mono_layout 3 :: rat line_layout) [97, 32, 98] 2 (Some 2) = Some bs \<and> length bs \<le> 1"
  using compute_wrap_boundaries_spec [of "mono_layout 3 :: rat line_layout" "[97, 32, 98]" 2 1 "Some 2"]
    mono_layout_ok
  by (auto simp: comp_def upt_rec)

section \<open>Positions and indices\<close>

lemma wrap_cuts_places:
  "wrap_cuts bs rows \<Longrightarrow> \<exists>ks. bs = map (\<lambda>k. fst (concat rows ! k)) ks \<and> sorted_wrt (<) (0 # ks) \<and>
     (\<forall>k \<in> set ks. k < length (concat rows))"
proof (induction bs arbitrary: rows)
  case (Cons b bs)
  then obtain row rest where rows: "rows = row # rest" "row \<noteq> []" "concat rest \<noteq> []" "fst (hd (concat rest)) = b"
    "wrap_cuts bs rest"
    by auto
  from Cons.IH [OF rows(5)] obtain ks where ks: "bs = map (\<lambda>k. fst (concat rest ! k)) ks" "sorted_wrt (<) (0 # ks)"
    "\<forall>k \<in> set ks. k < length (concat rest)"
    by auto
  let ?ks = "length row # map (\<lambda>k. length row + k) ks"
  have "b # bs = map (\<lambda>k. fst (concat rows ! k)) ?ks"
    using rows ks(1) by (simp add: nth_append hd_conv_nth comp_def del: concat_eq_Nil_conv)
  moreover have "sorted_wrt (<) (0 # ?ks)" using ks(2) rows(2) by (auto simp: sorted_wrt_map)
  moreover have "\<forall>k \<in> set ?ks. k < length (concat rows)"
    using ks(3) rows(1,3) by (simp del: concat_eq_Nil_conv)
  ultimately show ?case by (intro exI [of _ ?ks] conjI)
qed (intro exI [of _ "[]"], simp)

text \<open>The glyph of the \<open>k\<close>th place is the \<open>k\<close>th glyph.\<close>

definition glyph_at :: "'p shaped_run list \<Rightarrow> wrap_boundary \<Rightarrow> 'p shaped_glyph option" where
  "glyph_at runs b =
     (if run_ix b < length runs \<and> glyph_ix b < length (glyphs (runs ! run_ix b))
      then Some (glyphs (runs ! run_ix b) ! glyph_ix b) else None)"

lemma boundary_glyph_at: "boundary_glyph w b = glyph_at (ll_runs (unwrapped_layout w)) b"
  by (simp add: boundary_glyph_def glyph_at_def Let_def)

lemma map_glyph_at_places:
  "map (glyph_at (prev @ runs)) (run_places (length prev) runs) = map Some (concat (map glyphs runs))"
proof (induction runs arbitrary: prev)
  case (Cons run runs)
  have "map (glyph_at (prev @ run # runs)) (map (\<lambda>g. \<lparr>run_ix = length prev, glyph_ix = g\<rparr>) [0..<length (glyphs run)])
      = map Some (glyphs run)"
    by (rule nth_equalityI) (simp_all add: glyph_at_def)
  with Cons.IH [of "prev @ [run]"] show ?case by (simp add: run_places_Cons)
qed (simp add: run_places_def)

lemma boundary_glyph_nth:
  assumes "k < length (wrap_glyphs text l)" and "unwrapped_layout w = l"
  shows "k < length (all_glyphs l) \<and> boundary_glyph w (fst (wrap_glyphs text l ! k)) = Some (all_glyphs l ! k)"
proof -
  have len: "length (wrap_glyphs text l) = length (all_glyphs l)"
    using arg_cong [OF map_wx_wrap_glyphs [of "text" l], of length] by simp
  have "map (glyph_at (ll_runs l)) (map fst (wrap_glyphs text l)) = map Some (all_glyphs l)"
    using map_glyph_at_places [of "[]" "ll_runs l"] by (simp add: map_fst_wrap_glyphs all_glyphs_def)
  then have "map (glyph_at (ll_runs l)) (map fst (wrap_glyphs text l)) ! k = map Some (all_glyphs l) ! k" by simp
  with assms len show ?thesis by (simp add: boundary_glyph_at)
qed

lemma closest_loop_exact:
  assumes "\<forall>h \<in> set pre. p_x (position h) < p_x (position g)"
    and "px < p_x (position g) \<or> pre = [] \<and> px = p_x (position g) \<and> j = g_index g"
  shows "closest_loop (p_x (position g)) j px (pre @ g # post) = Some (g_index g)"
  using assms by (induction pre arbitrary: j px) auto

lemma closest_index_for_x_glyph:
  assumes "ltr_layout l" and "g \<in> set (all_glyphs l)"
  shows "closest_index_for_x l (p_x (position g)) = g_index g"
proof -
  from assms(2) obtain pre post where all: "all_glyphs l = pre @ g # post" by (auto dest: split_list)
  have "0 < p_x (position g) \<or> pre = [] \<and> 0 = p_x (position g) \<and> 0 = g_index g"
    using assms(1) ltr_split(1) [OF assms(1) all] all by (cases pre) (auto simp: ltr_layout_def)
  with closest_loop_exact [of pre g 0 0 post] ltr_split(1) [OF assms(1) all] show ?thesis
    by (simp add: closest_index_for_x_def all)
qed

lemma position_loop_row:
  assumes "st \<le> i" and "\<exists>e \<in> set ends. i \<le> e"
  shows "\<exists>j < length ends. i \<le> ends ! j \<and> (\<forall>k < j. ends ! k < i) \<and>
    position_loop l i lh ix st (map Some ends) =
      Some (Some (mk_point (x_for_index l i - x_for_index l ((st # ends) ! j)) (of_nat (ix + j) * lh)))"
  using assms
proof (induction ends arbitrary: ix st)
  case (Cons e ends)
  show ?case
  proof (cases "i \<le> e")
    case True
    with Cons.prems show ?thesis by (intro exI [of _ 0]) simp
  next
    case False
    with Cons.prems Cons.IH [of e "ix + 1"] obtain j where "j < length ends" "i \<le> ends ! j" "\<forall>k < j. ends ! k < i"
      "position_loop l i lh (ix + 1) e (map Some ends) =
         Some (Some (mk_point (x_for_index l i - x_for_index l ((e # ends) ! j)) (of_nat (ix + 1 + j) * lh)))"
      by auto
    with False Cons.prems(1) show ?thesis
      by (intro exI [of _ "Suc j"]) (auto simp: less_Suc_eq_0_disj)
  qed
qed simp

lemma ltr_within:
  assumes "ltr_layout l"
  shows "glyphs_within (ll_width l) (ll_width l) (map (\<lambda>g. p_x (position g)) (all_glyphs l))"
proof -
  have "glyphs_within W W xs" if "\<forall>x \<in> set xs. 0 \<le> x \<and> x < W" for W :: 'a and xs
    using that by (induction xs) (auto intro: add_increasing less_imp_le split: list.splits)
  moreover have "\<forall>x \<in> set (map (\<lambda>g. p_x (position g)) (all_glyphs l)). 0 \<le> x \<and> x < ll_width l"
    using assms by (cases "all_glyphs l") (auto simp: ltr_layout_def intro: less_imp_le)
  ultimately show ?thesis by blast
qed

text \<open>The rows of a wrapped line: the glyphs at which rows start, after the first.\<close>

definition row_glyphs :: "'p wrapped_line_layout \<Rightarrow> 'p shaped_glyph list \<Rightarrow> bool" where
  "row_glyphs w starts \<longleftrightarrow>
     map (boundary_glyph w) (wrap_boundaries w) = map Some starts \<and>
     set starts \<subseteq> set (all_glyphs (unwrapped_layout w)) \<and> sorted_wrt (<) (0 # map g_index starts)"

lemma computed_row_glyphs:
  fixes w :: "('p::linordered_field) wrapped_line_layout"
  assumes l: "unwrapped_layout w = l" and "ltr_layout l" and "line_text text l" and "first_run_shown l" and "0 \<le> W" and "0 \<le> ll_width l"
    and "compute_wrap_boundaries l text W ml = Some (wrap_boundaries w)"
  shows "\<exists>starts. row_glyphs w starts"
proof -
  from compute_wrap_rows [OF assms(2-6) ltr_within [OF assms(2)], of ml] assms(7) obtain rows
    where "concat rows = wrap_glyphs text l" "wrap_cuts (wrap_boundaries w) rows"
    by (metis option.inject)
  with wrap_cuts_places [of "wrap_boundaries w" rows] obtain ks where
    ks: "wrap_boundaries w = map (\<lambda>k. fst (wrap_glyphs text l ! k)) ks" "sorted_wrt (<) (0 # ks)"
      "\<forall>k \<in> set ks. k < length (wrap_glyphs text l)"
    by auto
  let ?gs = "all_glyphs l"
  have bg: "k < length ?gs" "boundary_glyph w (fst (wrap_glyphs text l ! k)) = Some (?gs ! k)" if "k \<in> set ks" for k
    using boundary_glyph_nth [OF _ l, of k "text"] ks(3) that by auto
  have idx: "g_index (?gs ! j) < g_index (?gs ! k)" if "j < k" "k < length ?gs" for j k
    using assms(2) that by (auto simp: ltr_layout_def sorted_wrt_iff_nth_less)
  have pos: "0 < g_index (?gs ! k)" if "k \<in> set ks" for k
    using idx [of 0 k] bg(1) [OF that] ks(2) that by (metis gr_implies_not0 gr0I list.set_intros(1) sorted_wrt.simps(2))
  have "sorted_wrt (<) (map g_index (map ((!) ?gs) ks))"
    using ks(2) bg(1) idx by (auto simp: sorted_wrt_map intro: sorted_wrt_mono_rel [of ks "(<)"])
  with pos have "sorted_wrt (<) (0 # map g_index (map ((!) ?gs) ks))" by auto
  moreover have "map (boundary_glyph w) (wrap_boundaries w) = map Some (map ((!) ?gs) ks)"
    using ks(1) bg(2) by simp
  moreover have "set (map ((!) ?gs) ks) \<subseteq> set ?gs" using bg(1) by auto
  ultimately show ?thesis unfolding row_glyphs_def l by blast
qed

lemma ltr_glyph:
  assumes "ltr_layout l" and "g \<in> set (all_glyphs l)"
  shows "g_index g < ll_len l" and "p_x (position g) < ll_width l" and "0 \<le> p_x (position g)"
proof -
  show "0 \<le> p_x (position g)"
    using assms by (cases "all_glyphs l") (auto simp: ltr_layout_def intro: less_imp_le)
qed (use assms in \<open>auto simp: ltr_layout_def\<close>)

lemma ltr_mono:
  assumes "ltr_layout l" and "g \<in> set (all_glyphs l)" and "h \<in> set (all_glyphs l)" and "g_index g < g_index h"
  shows "p_x (position g) < p_x (position h)"
proof -
  from assms(2) obtain pre post where all: "all_glyphs l = pre @ g # post" by (auto dest: split_list)
  with ltr_split [OF assms(1) all] assms(3,4) show ?thesis by (auto dest: order_less_asym)
qed

text \<open>The first index and coordinate of row \<open>j\<close>, which are the end of the row before it.\<close>

definition row_at :: "'p line_layout \<Rightarrow> ('p::zero) shaped_glyph list \<Rightarrow> nat \<Rightarrow> nat \<times> 'p" where
  "row_at l starts j =
     (if j = 0 then (0, 0)
      else if j \<le> length starts then (g_index (starts ! (j - 1)), p_x (position (starts ! (j - 1))))
      else (ll_len l, ll_width l))"

lemma index_in_row:
  fixes w :: "('p::floor_ceiling) wrapped_line_layout"
  assumes l: "unwrapped_layout w = l" and starts: "row_glyphs w starts" and "0 < lh" and j: "j \<le> length starts"
  shows "index_for_position_gen w (mk_point (x - snd (row_at l starts j)) (of_nat j * lh)) lh closest =
    Some (if x < snd (row_at l starts j) then Inl (fst (row_at l starts j))
          else if x \<ge> snd (row_at l starts (j + 1)) then Inl (fst (row_at l starts (j + 1)))
          else if closest then Inr (closest_index_for_x l x)
          else case index_for_x l x of Some index \<Rightarrow> Inr index | None \<Rightarrow> Inl (fst (row_at l starts (j + 1))))"
proof -
  have bg: "map (boundary_glyph w) (wrap_boundaries w) = map Some starts"
    using starts by (simp add: row_glyphs_def l)
  have len: "length (wrap_boundaries w) = length starts" using arg_cong [OF bg, of length] by simp
  have nth: "boundary_glyph w (wrap_boundaries w ! k) = Some (starts ! k)" if "k < length starts" for k
    using arg_cong [OF bg, of "\<lambda>xs. xs ! k"] that len by simp
  have row: "nat \<lfloor>of_nat j * lh / lh\<rfloor> = j" using assms(3) by simp
  have start: "(if j > 0 then map_option (\<lambda>g. (g_index g, p_x (position g))) (boundary_glyph w (wrap_boundaries w ! (j - 1)))
      else Some (0, 0)) = Some (row_at l starts j)"
    using j nth [of "j - 1"] by (auto simp: row_at_def)
  have stop: "(if j < length (wrap_boundaries w)
      then map_option (\<lambda>g. (g_index g, p_x (position g))) (boundary_glyph w (wrap_boundaries w ! j))
      else Some (ll_len l, ll_width l)) = Some (row_at l starts (j + 1))"
    using j nth [of j] len by (auto simp: row_at_def)
  have guard: "\<not> (j > 0 \<and> j - 1 \<ge> length (wrap_boundaries w))" using j len by auto
  show ?thesis
    unfolding index_for_position_gen_def Let_def mk_point_def point.simps row l if_not_P [OF guard] start stop
    by (simp add: split_beta cong: option.case_cong)
qed

lemma position_index:
  fixes w :: "('p::floor_ceiling) wrapped_line_layout"
  assumes ltr: "ltr_layout l" and l: "unwrapped_layout w = l" and ne: "all_glyphs l \<noteq> []"
    and starts: "row_glyphs w starts" and "0 < lh" and i: "i \<in> g_index ` set (all_glyphs l) \<union> {ll_len l}"
  shows "\<exists>pos. position_for_index w i lh = Some (Some pos) \<and>
    index_for_position_gen w pos lh closest =
      Some (if i \<in> g_index ` set starts \<union> {ll_len l} then Inl i else Inr i)"
proof -
  let ?es = "map g_index starts"
  let ?ends = "?es @ [ll_len l]"
  have s: "set starts \<subseteq> set (all_glyphs l)" and bg: "map (boundary_glyph w) (wrap_boundaries w) = map Some starts"
    using starts by (simp_all add: row_glyphs_def l)
  have start_in: "starts ! k \<in> set (all_glyphs l)" if "k < length starts" for k using s that by auto
  have "\<exists>e \<in> set ?ends. i \<le> e" using i ltr_glyph(1) [OF ltr] by (auto intro: less_imp_le)
  then obtain j where j: "j < length ?ends" "i \<le> ?ends ! j" "\<forall>k < j. ?ends ! k < i"
    and loop: "position_loop l i lh 0 0 (map Some ?ends) =
      Some (Some (mk_point (x_for_index l i - x_for_index l ((0 # ?ends) ! j)) (of_nat j * lh)))"
    using position_loop_row [of 0 i ?ends l lh 0] by auto
  have start: "x_for_index l ((0 # ?ends) ! j) = snd (row_at l starts j)"
    using j(1) x_for_index_0 [OF ltr ne] x_for_index_glyph [OF ltr start_in]
    by (cases j) (auto simp: row_at_def nth_append)
  have "map (\<lambda>b. map_option g_index (boundary_glyph w b)) (wrap_boundaries w) = map Some ?es"
    using arg_cong [OF bg, of "map (map_option g_index)"] by (simp add: comp_def)
  then have pos: "position_for_index w i lh = Some (Some (mk_point (x_for_index l i - snd (row_at l starts j)) (of_nat j * lh)))"
    using loop unfolding start position_for_index_def by (simp add: l wl_len_def)
  have stop: "row_at l starts (j + 1) = (?ends ! j, if j < length starts then p_x (position (starts ! j)) else ll_width l)"
    using j(1) by (auto simp: row_at_def nth_append)
  have row_end: "i \<in> g_index ` set starts \<union> {ll_len l} \<longleftrightarrow> i = ?ends ! j"
  proof
    assume "i \<in> g_index ` set starts \<union> {ll_len l}"
    then have "i \<in> set ?ends" by auto
    then obtain k where k: "k < length ?ends" "?ends ! k = i" unfolding in_set_conv_nth by blast
    have "sorted_wrt (<) ?ends"
      using starts s ltr_glyph(1) [OF ltr] by (auto simp: row_glyphs_def sorted_wrt_append l)
    with j k show "i = ?ends ! j"
      by (metis linorder_neqE_nat less_irrefl not_less sorted_wrt_iff_nth_less)
  qed (use j(1) in \<open>auto simp: nth_append\<close>)
  have "index_for_position_gen w (mk_point (x_for_index l i - snd (row_at l starts j)) (of_nat j * lh)) lh closest =
      Some (if i = ?ends ! j then Inl i else Inr i)"
  proof (cases "i = ll_len l")
    case True
    then have xi: "x_for_index l i = ll_width l" using x_for_index_beyond [OF ltr] by simp
    have "j = length starts"
      using j(1,2) True ltr_glyph(1) [OF ltr start_in, of j] by (auto simp: nth_append less_Suc_eq split: if_splits)
    moreover have "snd (row_at l starts j) < ll_width l"
      using ltr_glyph [OF ltr] start_in [of "j - 1"] j(1) last_in_set [OF ne]
      by (auto simp: row_at_def) (meson le_less_trans)
    ultimately show ?thesis
      using True xi stop by (simp add: index_in_row [OF l starts assms(5)] nth_append)
  next
    case False
    with i obtain g where g: "g \<in> set (all_glyphs l)" "i = g_index g" by auto
    have xi: "x_for_index l i = p_x (position g)" using x_for_index_glyph [OF ltr g(1)] g(2) by simp
    have j_lt: "j < length starts" if "i = ?ends ! j" using that j(1) False by (auto simp: nth_append less_Suc_eq split: if_splits)
    have lo: "snd (row_at l starts j) \<le> p_x (position g)"
      using ltr_glyph(3) [OF ltr g(1)] ltr_mono [OF ltr start_in g(1), of "j - 1"] j(1) j(3) [rule_format, of "j - 1"] g(2)
      by (auto simp: row_at_def nth_append intro: less_imp_le)
    have hi: "snd (row_at l starts (j + 1)) \<le> p_x (position g) \<longleftrightarrow> i = ?ends ! j"
    proof (cases "j < length starts")
      case True
      then have e: "?ends ! j = g_index (starts ! j)" "snd (row_at l starts (j + 1)) = p_x (position (starts ! j))"
        unfolding stop by (simp_all add: nth_append)
      show ?thesis
      proof (cases "i = ?ends ! j")
        case eq: True
        then have "p_x (position (starts ! j)) = p_x (position g)"
          using x_for_index_glyph [OF ltr start_in [OF True]] e xi by simp
        with e eq show ?thesis by simp
      next
        case neq: False
        with j(2) g(2) e have "p_x (position g) < p_x (position (starts ! j))"
          by (intro ltr_mono [OF ltr g(1) start_in [OF True]]) simp
        with e neq show ?thesis by simp
      qed
    next
      case False
      with j_lt ltr_glyph(2) [OF ltr g(1)] show ?thesis unfolding stop by auto
    qed
    have "fst (row_at l starts (j + 1)) = ?ends ! j" unfolding stop by simp
    with lo hi show ?thesis
      unfolding index_in_row [OF l starts assms(5) j(1) [unfolded length_append, simplified, unfolded less_Suc_eq_le]] xi
      using g index_for_x_glyph [OF ltr g(1)] closest_index_for_x_glyph [OF ltr g(1)] by auto
  qed
  with pos show ?thesis unfolding row_end by auto
qed

text \<open>
  C25. On a wrapped line whose glyphs stand strictly from left to right, each with an index greater than that of the one before it and all of
  them before the end of the line, positions and indices convert into each other: the index of every glyph, and the end of the line, has a position, and both
  queries at this position give the index back, as an error exactly when it is the end of a row, where the row is exceeded. (Marks that stand on the
  glyph of their base, characters inside a ligature, which have no glyph, and a glyph at the end of the line are not covered: there
  \<open>position_for_index\<close> is not injective, see \<open>combining_mark_position\<close>.)
\<close>

theorem position_for_index_roundtrip:
  fixes w :: "('p::floor_ceiling) wrapped_line_layout"
  assumes "unwrapped_layout w = l" and "ltr_layout l" and "line_text text l" and "first_run_shown l" and "all_glyphs l \<noteq> []"
    and "0 \<le> W" and "compute_wrap_boundaries l text W ml = Some (wrap_boundaries w)" and "0 < line_height"
    and "i \<in> g_index ` set (all_glyphs l) \<union> {ll_len l}"
  shows "\<exists>pos r. position_for_index w i line_height = Some (Some pos) \<and>
    index_for_position w pos line_height = Some r \<and> closest_index_for_position w pos line_height = Some r \<and>
    r = (if i = ll_len l \<or> (\<exists>b \<in> set (wrap_boundaries w). map_option g_index (boundary_glyph w b) = Some i) then Inl i else Inr i)"
proof -
  have "0 \<le> ll_width l" using ltr_glyph(2,3) [OF assms(2)] assms(5) by (meson last_in_set le_less_trans less_imp_le)
  with computed_row_glyphs [OF assms(1-4,6) _ assms(7)] obtain starts where starts: "row_glyphs w starts" by auto
  have "(\<exists>b \<in> set (wrap_boundaries w). map_option g_index (boundary_glyph w b) = Some i) \<longleftrightarrow> i \<in> g_index ` set starts"
  proof -
    have "boundary_glyph w ` set (wrap_boundaries w) = Some ` set starts"
      using starts unfolding row_glyphs_def by (metis set_map)
    moreover have "(\<exists>b \<in> set (wrap_boundaries w). map_option g_index (boundary_glyph w b) = Some i) \<longleftrightarrow>
        Some i \<in> map_option g_index ` (boundary_glyph w ` set (wrap_boundaries w))"
      unfolding image_image by (auto simp: image_iff eq_commute)
    ultimately show ?thesis by (simp add: image_image image_iff)
  qed
  with position_index [OF assms(2,1,5) starts assms(8,9), of False] position_index [OF assms(2,1,5) starts assms(8,9), of True]
  show ?thesis
    by (auto simp: index_for_position_def closest_index_for_position_def)
qed

definition mono_wrapped :: "rat wrapped_line_layout" where
  "mono_wrapped = \<lparr>unwrapped_layout = mono_layout 3, wrap_boundaries = [\<lparr>run_ix = 0, glyph_ix = 2\<rparr>], wrap_width = Some 2\<rparr>"

lemma position_for_index_roundtrip_witness:
  "\<exists>pos. position_for_index mono_wrapped 2 10 = Some (Some pos) \<and> index_for_position mono_wrapped pos 10 = Some (Inl 2)"
proof -
  have "compute_wrap_boundaries (mono_layout 3 :: rat line_layout) [97, 32, 98] 2 None = Some (wrap_boundaries mono_wrapped)"
    by code_simp
  moreover have "(2::nat) \<in> g_index ` set (all_glyphs (mono_layout 3 :: rat line_layout)) \<union> {ll_len (mono_layout 3 :: rat line_layout)}"
    by (simp add: image_iff)
  moreover have "\<exists>b \<in> set (wrap_boundaries mono_wrapped). map_option g_index (boundary_glyph mono_wrapped b) = Some 2"
    by (simp add: mono_wrapped_def boundary_glyph_def mono_layout_def upt_rec)
  ultimately show ?thesis
    using position_for_index_roundtrip [of mono_wrapped "mono_layout 3" "[97, 32, 98]" 2 None 10 2] mono_layout_ok
    by (auto simp: mono_wrapped_def)
qed

text \<open>
  A mark on its base, here the second glyph on the first, has the position of the base, and the query at this position gives the
  mark for both.
\<close>

definition marked_layout :: "rat wrapped_line_layout" where
  "marked_layout = \<lparr>unwrapped_layout =
       \<lparr>ll_font_size = 1, ll_width = 1, ll_ascent = 1, ll_descent = 0,
        ll_runs = [\<lparr>run_font_id = 0, glyphs = [mono_glyph 0, (mono_glyph 0)\<lparr>g_index := 1\<rparr>]\<rparr>], ll_len = 3\<rparr>,
     wrap_boundaries = [], wrap_width = None\<rparr>"

lemma combining_mark_position:
  "position_for_index marked_layout 0 1 = position_for_index marked_layout 1 1 \<and>
   (\<exists>pos. position_for_index marked_layout 0 1 = Some (Some pos) \<and> index_for_position marked_layout pos 1 = Some (Inr 1))"
proof -
  have "position_for_index marked_layout i 1 = Some (Some (mk_point 0 0))" if "i \<le> 1" for i
    using that by (cases i)
      (auto simp: marked_layout_def position_for_index_def wl_len_def x_for_index_def all_glyphs_def mono_glyph_def mk_point_def)
  moreover have "index_for_position marked_layout (mk_point 0 0) 1 = Some (Inr 1)"
    by (simp add: marked_layout_def index_for_position_def index_for_position_gen_def index_for_x_def all_glyphs_def mono_glyph_def
        mk_point_def Let_def)
  ultimately show ?thesis by simp
qed

section \<open>A row that is too wide\<close>

text \<open>
  At the last candidate a row is broken even if what follows the candidate does not fit: with glyphs of widths one, one and
  three, the text \<open>i(W\<close> is cut at width three into \<open>i\<close> and \<open>(W\<close>, and the second row has width four although every glyph fits.
  (\<open>LineWrapper::wrap_line\<close> breaks before the \<open>W\<close> in that case.)
\<close>

definition uneven_layout :: "rat line_layout" where
  "uneven_layout = \<lparr>ll_font_size = 1, ll_width = 5, ll_ascent = 1, ll_descent = 0,
     ll_runs = [\<lparr>run_font_id = 0, glyphs = map mono_glyph [0, 1, 2]\<rparr>], ll_len = 3\<rparr>"

lemma compute_wrap_boundaries_too_wide:
  "compute_wrap_boundaries uneven_layout [105, 40, 87] 3 None = Some [\<lparr>run_ix = 0, glyph_ix = 1\<rparr>]"
  by code_simp

end
