(* ===== verification/Layout_Cache.thy ===== *)
theory Layout_Cache
  imports Wrapped_Line "HOL-Library.AList"
begin

text \<open>
  The caches of line layouts, \<open>crates/gpui/src/text_system/line_layout.rs\<close>: one cache for the application with a bounded number of entries,
  from which those go first that were not used for longest, and in each window the layouts of the last and of the current frame. The
  platform shapes text with the fonts it has; installing fonts (\<open>TextSystem::add_fonts\<close>) advances a generation, by which the caches see
  that they are out of date. The shaping function of the platform is an argument, its first argument the generation of the fonts. Locks
  are taken and released within each operation, so operations are steps of a sequential system. The access counter is a
  number without overflow.

  The theory shows when the caches give what fresh shaping would give, and two ways in which they do not.
\<close>

section \<open>The cache of the application\<close>

record 'p cache_key =
  ck_text :: "uchar list"
  ck_font_size :: 'p
  ck_runs :: "font_run list"
  ck_wrap_width :: "'p option"
  ck_force_width :: "'p option"
  ck_letter_spacing :: "'p option"

record 'v cache_entry =
  ce_value :: 'v
  last_access :: nat

type_synonym ('p, 'v) entries = "('p cache_key \<times> 'v cache_entry) list"

record 'p global_cache =
  max_entries :: nat
  low_watermark :: nat
  gc_lines :: "('p, 'p line_layout) entries"
  gc_wrapped_lines :: "('p, 'p wrapped_line_layout) entries"
  access_counter :: nat

definition gc_new :: "nat \<Rightarrow> nat \<Rightarrow> 'p global_cache" where
  "gc_new entries watermark =
     (let limit = max entries 1
      in \<lparr>max_entries = limit, low_watermark = min watermark (limit - 1),
          gc_lines = [], gc_wrapped_lines = [], access_counter = 0\<rparr>)"

definition gc_clear :: "'p global_cache \<Rightarrow> 'p global_cache" where
  "gc_clear gc = gc\<lparr>gc_lines := [], gc_wrapped_lines := []\<rparr>"

definition entry_counts :: "'p global_cache \<Rightarrow> nat \<times> nat" where
  "entry_counts gc = (length (gc_lines gc), length (gc_wrapped_lines gc))"

text \<open>
  The hash map is a list of entries with distinct keys, in the order of its iteration. \<open>touch\<close> stores the access of an entry.
\<close>

definition touch :: "'k \<Rightarrow> nat \<Rightarrow> ('k \<times> 'v cache_entry) list \<Rightarrow> ('k \<times> 'v cache_entry) list" where
  "touch key access es = map (\<lambda>(k, e). (k, if k = key then e\<lparr>last_access := access\<rparr> else e)) es"

definition evict_to_watermark :: "nat \<Rightarrow> ('k \<times> 'v cache_entry) list \<Rightarrow> ('k \<times> 'v cache_entry) list" where
  "evict_to_watermark target es =
     (if length es \<le> target then es
      else let to_remove = length es - target;
               entries = map (\<lambda>(k, e). (k, last_access e)) es;
               sorted = sort_key snd entries
           in foldl (\<lambda>es (key, _). filter (\<lambda>(k, e). k \<noteq> key) es) es (take to_remove sorted))"

definition insert_entry ::
  "nat \<Rightarrow> nat \<Rightarrow> 'k \<Rightarrow> 'v \<Rightarrow> nat \<Rightarrow> ('k \<times> 'v cache_entry) list \<Rightarrow> ('k \<times> 'v cache_entry) list" where
  "insert_entry limit watermark key layout access es =
     (let es = (if length es \<ge> limit then evict_to_watermark watermark es else es)
      in AList.update key \<lparr>ce_value = layout, last_access = access\<rparr> es)"

definition get_line :: "'p cache_key \<Rightarrow> 'p global_cache \<Rightarrow> 'p line_layout option \<times> 'p global_cache" where
  "get_line key gc =
     (case map_of (gc_lines gc) key of
        Some entry \<Rightarrow>
          (Some (ce_value entry),
           gc\<lparr>gc_lines := touch key (access_counter gc) (gc_lines gc), access_counter := access_counter gc + 1\<rparr>)
      | None \<Rightarrow> (None, gc))"

definition insert_line :: "'p cache_key \<Rightarrow> 'p line_layout \<Rightarrow> 'p global_cache \<Rightarrow> 'p global_cache" where
  "insert_line key layout gc =
     gc\<lparr>gc_lines := insert_entry (max_entries gc) (low_watermark gc) key layout (access_counter gc) (gc_lines gc),
        access_counter := access_counter gc + 1\<rparr>"

definition get_wrapped_line :: "'p cache_key \<Rightarrow> 'p global_cache \<Rightarrow> 'p wrapped_line_layout option \<times> 'p global_cache" where
  "get_wrapped_line key gc =
     (case map_of (gc_wrapped_lines gc) key of
        Some entry \<Rightarrow>
          (Some (ce_value entry),
           gc\<lparr>gc_wrapped_lines := touch key (access_counter gc) (gc_wrapped_lines gc), access_counter := access_counter gc + 1\<rparr>)
      | None \<Rightarrow> (None, gc))"

definition insert_wrapped_line :: "'p cache_key \<Rightarrow> 'p wrapped_line_layout \<Rightarrow> 'p global_cache \<Rightarrow> 'p global_cache" where
  "insert_wrapped_line key layout gc =
     gc\<lparr>gc_wrapped_lines := insert_entry (max_entries gc) (low_watermark gc) key layout (access_counter gc) (gc_wrapped_lines gc),
        access_counter := access_counter gc + 1\<rparr>"

section \<open>The cache of a window\<close>

record 'p frame_cache =
  fc_lines :: "'p cache_key \<rightharpoonup> 'p line_layout"
  fc_wrapped_lines :: "'p cache_key \<rightharpoonup> 'p wrapped_line_layout"
  used_lines :: "'p cache_key list"
  used_wrapped_lines :: "'p cache_key list"

definition fc_default :: "'p frame_cache" where
  "fc_default = \<lparr>fc_lines = Map.empty, fc_wrapped_lines = Map.empty, used_lines = [], used_wrapped_lines = []\<rparr>"

record 'p line_layout_cache =
  previous_frame :: "'p frame_cache"
  current_frame :: "'p frame_cache"
  cached_font_generation :: nat

text \<open>What the windows share: the cache of the application and the generation of the installed fonts.\<close>

record 'p text_shared =
  global_cache :: "'p global_cache"
  font_generation :: nat

record line_layout_index =
  li_font_generation :: nat
  lines_index :: nat
  wrapped_lines_index :: nat

definition llc_new :: "'p text_shared \<Rightarrow> 'p line_layout_cache" where
  "llc_new sh = \<lparr>previous_frame = fc_default, current_frame = fc_default, cached_font_generation = font_generation sh\<rparr>"

definition clear_if_font_generation_changed ::
  "'p text_shared \<times> 'p line_layout_cache \<Rightarrow> nat \<times> 'p text_shared \<times> 'p line_layout_cache" where
  "clear_if_font_generation_changed = (\<lambda>(sh, c).
     if cached_font_generation c = font_generation sh then (font_generation sh, sh, c)
     else (font_generation sh, sh\<lparr>global_cache := gc_clear (global_cache sh)\<rparr>,
           c\<lparr>current_frame := fc_default, previous_frame := fc_default, cached_font_generation := font_generation sh\<rparr>))"

definition layout_index ::
  "'p text_shared \<times> 'p line_layout_cache \<Rightarrow> line_layout_index \<times> 'p text_shared \<times> 'p line_layout_cache" where
  "layout_index st =
     (let (generation, sh, c) = clear_if_font_generation_changed st
      in (\<lparr>li_font_generation = generation, lines_index = length (used_lines (current_frame c)),
           wrapped_lines_index = length (used_wrapped_lines (current_frame c))\<rparr>, sh, c))"

text \<open>A slice \<open>xs[a..b]\<close>, which panics out of range.\<close>

definition slice_range :: "nat \<Rightarrow> nat \<Rightarrow> 'a list \<Rightarrow> 'a list option" where
  "slice_range a b xs = (if a \<le> b \<and> b \<le> length xs then Some (take (b - a) (drop a xs)) else None)"

fun reuse_loop ::
  "'k list \<Rightarrow> ('k \<rightharpoonup> 'v) \<Rightarrow> ('k \<rightharpoonup> 'v) \<Rightarrow> 'k list \<Rightarrow> ('k \<rightharpoonup> 'v) \<times> ('k \<rightharpoonup> 'v) \<times> 'k list" where
  "reuse_loop [] prev cur used = (prev, cur, used)"
| "reuse_loop (key # keys) prev cur used =
     (case prev key of
        Some line \<Rightarrow> reuse_loop keys (prev(key := None)) (cur(key \<mapsto> line)) (used @ [key])
      | None \<Rightarrow> reuse_loop keys prev cur (used @ [key]))"

definition reuse_layouts ::
  "line_layout_index \<Rightarrow> line_layout_index \<Rightarrow> 'p text_shared \<times> 'p line_layout_cache \<Rightarrow> ('p text_shared \<times> 'p line_layout_cache) option" where
  "reuse_layouts a b st =
     (let (generation, sh, c) = clear_if_font_generation_changed st
      in if li_font_generation a \<noteq> generation \<or> li_font_generation b \<noteq> generation then Some (sh, c)
         else do {
           let cur = current_frame c;
           let prev = previous_frame c;
           keys \<leftarrow> slice_range (lines_index a) (lines_index b) (used_lines prev);
           let (pl, cl, ul) = reuse_loop keys (fc_lines prev) (fc_lines cur) (used_lines cur);
           wrapped_keys \<leftarrow> slice_range (wrapped_lines_index a) (wrapped_lines_index b) (used_wrapped_lines prev);
           let (pw, cw, uw) = reuse_loop wrapped_keys (fc_wrapped_lines prev) (fc_wrapped_lines cur) (used_wrapped_lines cur);
           Some (sh, c\<lparr>previous_frame := prev\<lparr>fc_lines := pl, fc_wrapped_lines := pw\<rparr>,
                       current_frame := cur\<lparr>fc_lines := cl, used_lines := ul, fc_wrapped_lines := cw, used_wrapped_lines := uw\<rparr>\<rparr>)
         })"

definition truncate_layouts ::
  "line_layout_index \<Rightarrow> 'p text_shared \<times> 'p line_layout_cache \<Rightarrow> 'p text_shared \<times> 'p line_layout_cache" where
  "truncate_layouts index st =
     (let (generation, sh, c) = clear_if_font_generation_changed st
      in if li_font_generation index \<noteq> generation then (sh, c)
         else (sh, c\<lparr>current_frame := (current_frame c)
                      \<lparr>used_lines := take (lines_index index) (used_lines (current_frame c)),
                       used_wrapped_lines := take (wrapped_lines_index index) (used_wrapped_lines (current_frame c))\<rparr>\<rparr>))"

definition finish_frame :: "'p text_shared \<times> 'p line_layout_cache \<Rightarrow> 'p text_shared \<times> 'p line_layout_cache" where
  "finish_frame st =
     (let (generation, sh, c) = clear_if_font_generation_changed st
      in (sh, c\<lparr>previous_frame := current_frame c, current_frame := fc_default\<rparr>))"

section \<open>Layouts through the caches\<close>

type_synonym 'p shaper = "nat \<Rightarrow> uchar list \<Rightarrow> 'p \<Rightarrow> font_run list \<Rightarrow> 'p line_layout"

text \<open>What is computed for a key that no cache has.\<close>

definition shape_line ::
  "('p::linordered_field) shaper \<Rightarrow> nat \<Rightarrow> 'p cache_key \<Rightarrow> 'p line_layout" where
  "shape_line shape generation key =
     (let layout = shape generation (ck_text key) (ck_font_size key) (ck_runs key);
          layout = (case ck_force_width key of
                      Some force_width \<Rightarrow> apply_force_width_to_layout force_width layout
                    | None \<Rightarrow> layout)
      in case ck_letter_spacing key of
           Some spacing \<Rightarrow> apply_letter_spacing_to_layout spacing (ck_force_width key) layout
         | None \<Rightarrow> layout)"

definition use_line :: "'p cache_key \<Rightarrow> 'p line_layout \<Rightarrow> 'p line_layout_cache \<Rightarrow> 'p line_layout_cache" where
  "use_line key layout c =
     c\<lparr>current_frame := (current_frame c)
         \<lparr>fc_lines := (fc_lines (current_frame c))(key \<mapsto> layout), used_lines := used_lines (current_frame c) @ [key]\<rparr>\<rparr>"

definition use_wrapped_line :: "'p cache_key \<Rightarrow> 'p wrapped_line_layout \<Rightarrow> 'p line_layout_cache \<Rightarrow> 'p line_layout_cache" where
  "use_wrapped_line key layout c =
     c\<lparr>current_frame := (current_frame c)
         \<lparr>fc_wrapped_lines := (fc_wrapped_lines (current_frame c))(key \<mapsto> layout),
          used_wrapped_lines := used_wrapped_lines (current_frame c) @ [key]\<rparr>\<rparr>"

definition layout_line_with_spacing ::
  "('p::linordered_field) shaper \<Rightarrow> uchar list \<Rightarrow> 'p \<Rightarrow> font_run list \<Rightarrow> 'p option \<Rightarrow> 'p option \<Rightarrow>
     'p text_shared \<times> 'p line_layout_cache \<Rightarrow> 'p line_layout \<times> 'p text_shared \<times> 'p line_layout_cache" where
  "layout_line_with_spacing shape line font_size runs force_width letter_spacing st =
     (let (generation, sh, c) = clear_if_font_generation_changed st;
          key = \<lparr>ck_text = line, ck_font_size = font_size, ck_runs = runs, ck_wrap_width = None,
                 ck_force_width = force_width, ck_letter_spacing = letter_spacing\<rparr>
      in case fc_lines (current_frame c) key of
           Some layout \<Rightarrow> (layout, sh, c)
         | None \<Rightarrow>
             (case fc_lines (previous_frame c) key of
                Some layout \<Rightarrow>
                  (layout, sh,
                   use_line key layout
                     (c\<lparr>previous_frame := (previous_frame c)\<lparr>fc_lines := (fc_lines (previous_frame c))(key := None)\<rparr>\<rparr>))
              | None \<Rightarrow>
                  (case get_line key (global_cache sh) of
                     (Some layout, gc) \<Rightarrow> (layout, sh\<lparr>global_cache := gc\<rparr>, use_line key layout c)
                   | (None, gc) \<Rightarrow>
                       let layout = shape_line shape (font_generation sh) key
                       in (layout, sh\<lparr>global_cache := insert_line key layout gc\<rparr>, use_line key layout c))))"

definition layout_line ::
  "('p::linordered_field) shaper \<Rightarrow> uchar list \<Rightarrow> 'p \<Rightarrow> font_run list \<Rightarrow> 'p option \<Rightarrow>
     'p text_shared \<times> 'p line_layout_cache \<Rightarrow> 'p line_layout \<times> 'p text_shared \<times> 'p line_layout_cache" where
  "layout_line shape line font_size runs force_width st =
     layout_line_with_spacing shape line font_size runs force_width None st"

definition layout_wrapped_line ::
  "('p::linordered_field) shaper \<Rightarrow> uchar list \<Rightarrow> 'p \<Rightarrow> font_run list \<Rightarrow> 'p option \<Rightarrow> nat option \<Rightarrow>
     'p text_shared \<times> 'p line_layout_cache \<Rightarrow> ('p wrapped_line_layout \<times> 'p text_shared \<times> 'p line_layout_cache) option" where
  "layout_wrapped_line shape line font_size runs width max_lines st =
     (let (generation, sh, c) = clear_if_font_generation_changed st;
          key = \<lparr>ck_text = line, ck_font_size = font_size, ck_runs = runs, ck_wrap_width = width,
                 ck_force_width = None, ck_letter_spacing = None\<rparr>
      in case fc_wrapped_lines (current_frame c) key of
           Some layout \<Rightarrow> Some (layout, sh, c)
         | None \<Rightarrow>
             (case fc_wrapped_lines (previous_frame c) key of
                Some layout \<Rightarrow>
                  Some (layout, sh,
                   use_wrapped_line key layout
                     (c\<lparr>previous_frame := (previous_frame c)\<lparr>fc_wrapped_lines := (fc_wrapped_lines (previous_frame c))(key := None)\<rparr>\<rparr>))
              | None \<Rightarrow>
                  (case get_wrapped_line key (global_cache sh) of
                     (Some layout, gc) \<Rightarrow> Some (layout, sh\<lparr>global_cache := gc\<rparr>, use_wrapped_line key layout c)
                   | (None, gc) \<Rightarrow>
                       let (unwrapped, sh, c) = layout_line shape line font_size runs None (sh\<lparr>global_cache := gc\<rparr>, c)
                       in do {
                         boundaries \<leftarrow> (case width of
                                          Some width \<Rightarrow> compute_wrap_boundaries unwrapped line width max_lines
                                        | None \<Rightarrow> Some []);
                         let layout = \<lparr>unwrapped_layout = unwrapped, wrap_boundaries = boundaries, wrap_width = width\<rparr>;
                         Some (layout, sh\<lparr>global_cache := insert_wrapped_line key layout (global_cache sh)\<rparr>,
                               use_wrapped_line key layout c)
                       })))"

text \<open>
  What \<open>TextSystem::add_fonts\<close> and \<open>TextSystem::clear_layout_cache\<close> do to the caches of layouts; the theory \<open>Shape_Text\<close> has the
  whole operations.
\<close>

definition advance_font_generation :: "'p text_shared \<Rightarrow> 'p text_shared" where
  "advance_font_generation sh = sh\<lparr>font_generation := font_generation sh + 1\<rparr>"

definition clear_line_layouts :: "'p text_shared \<Rightarrow> 'p text_shared" where
  "clear_line_layouts sh = sh\<lparr>global_cache := gc_clear (global_cache sh)\<rparr>"

section \<open>The text system of an application\<close>

text \<open>Windows come and go, lay out text and finish frames; fonts are installed and the cache is cleared between their operations.\<close>

record 'p text_sys =
  shared :: "'p text_shared"
  windows :: "nat \<rightharpoonup> 'p line_layout_cache"

datatype 'p text_event =
    LayoutLine nat "uchar list" 'p "font_run list" "'p option" "'p option"
  | LayoutWrapped nat "uchar list" 'p "font_run list" "'p option" "nat option"
  | LayoutIndex nat
  | ReuseLayouts nat line_layout_index line_layout_index
  | TruncateLayouts nat line_layout_index
  | FinishFrame nat
  | AddFonts
  | ClearLayoutCache
  | OpenWindow nat
  | CloseWindow nat

definition sys_new :: "nat \<Rightarrow> nat \<Rightarrow> 'p text_sys" where
  "sys_new entries watermark =
     \<lparr>shared = \<lparr>global_cache = gc_new entries watermark, font_generation = 0\<rparr>, windows = Map.empty\<rparr>"

definition in_window ::
  "nat \<Rightarrow> ('p text_shared \<times> 'p line_layout_cache \<Rightarrow> ('p text_shared \<times> 'p line_layout_cache) option) \<Rightarrow> 'p text_sys \<Rightarrow> 'p text_sys option" where
  "in_window w f s =
     do {
       c \<leftarrow> windows s w;
       (sh, c) \<leftarrow> f (shared s, c);
       Some (s\<lparr>shared := sh, windows := (windows s)(w \<mapsto> c)\<rparr>)
     }"

fun text_exec :: "('p::linordered_field) shaper \<Rightarrow> 'p text_event \<Rightarrow> 'p text_sys \<Rightarrow> 'p text_sys option" where
  "text_exec shape (LayoutLine w line fs runs fw ls) s =
     in_window w (\<lambda>st. Some (snd (layout_line_with_spacing shape line fs runs fw ls st))) s"
| "text_exec shape (LayoutWrapped w line fs runs width ml) s =
     in_window w (\<lambda>st. map_option snd (layout_wrapped_line shape line fs runs width ml st)) s"
| "text_exec shape (LayoutIndex w) s = in_window w (\<lambda>st. Some (snd (layout_index st))) s"
| "text_exec shape (ReuseLayouts w a b) s = in_window w (reuse_layouts a b) s"
| "text_exec shape (TruncateLayouts w a) s = in_window w (\<lambda>st. Some (truncate_layouts a st)) s"
| "text_exec shape (FinishFrame w) s = in_window w (\<lambda>st. Some (finish_frame st)) s"
| "text_exec shape AddFonts s = Some (s\<lparr>shared := advance_font_generation (shared s)\<rparr>)"
| "text_exec shape ClearLayoutCache s = Some (s\<lparr>shared := clear_line_layouts (shared s)\<rparr>)"
| "text_exec shape (OpenWindow w) s = Some (s\<lparr>windows := (windows s)(w \<mapsto> llc_new (shared s))\<rparr>)"
| "text_exec shape (CloseWindow w) s = Some (s\<lparr>windows := (windows s)(w := None)\<rparr>)"

section \<open>Eviction\<close>

lemma foldl_filter_keys:
  "foldl (\<lambda>es (key, _). filter (\<lambda>(k, e). k \<noteq> key) es) es ks = filter (\<lambda>(k, e). k \<notin> fst ` set ks) es"
proof (induction ks arbitrary: es)
  case (Cons x ks)
  obtain key a where x: "x = (key, a)" by (cases x)
  show ?case using Cons [of "filter (\<lambda>(k, e). k \<noteq> key) es"] by (simp add: x case_prod_unfold conj_commute)
qed (simp add: case_prod_unfold)

text \<open>The entries by age: what is evicted is a prefix of this list.\<close>

definition by_access :: "('k \<times> 'v cache_entry) list \<Rightarrow> ('k \<times> 'v cache_entry) list" where
  "by_access es = sort_key (\<lambda>(k, e). last_access e) es"

lemma insort_key_map: "insort_key g (f x) (map f ys) = map f (insort_key (\<lambda>x. g (f x)) x ys)"
  by (induction ys) auto

lemma sort_key_map: "sort_key g (map f xs) = map f (sort_key (\<lambda>x. g (f x)) xs)"
  by (induction xs) (simp_all add: insort_key_map)

lemma evict_filter:
  "evict_to_watermark n es =
     filter (\<lambda>(k, e). k \<notin> fst ` set (take (length es - n) (by_access es))) es"
proof -
  have "sort_key snd (map (\<lambda>(k, e). (k, last_access e)) es) = map (\<lambda>(k, e). (k, last_access e)) (by_access es)"
    by (simp add: sort_key_map by_access_def case_prod_unfold)
  then show ?thesis
    unfolding evict_to_watermark_def Let_def foldl_filter_keys
    by (auto simp: take_map image_image case_prod_unfold)
qed

lemma by_access_simps [simp]:
  "set (by_access es) = set es" "length (by_access es) = length es"
  "distinct (map fst es) \<Longrightarrow> distinct (map fst (by_access es))"
  by (simp_all add: by_access_def distinct_map inj_on_def)

lemma by_access_sorted: "sorted (map (\<lambda>(k, e). last_access e) (by_access es))"
  by (simp add: by_access_def)

lemma evict_set:
  assumes "distinct (map fst es)"
  shows "set (evict_to_watermark n es) = set (drop (length es - n) (by_access es))"
proof -
  let ?a = "by_access es" and ?k = "length es - n"
  have d: "distinct (map fst (take ?k ?a @ drop ?k ?a))" using assms by simp
  have "x \<in> set (drop ?k ?a) \<longleftrightarrow> fst x \<notin> fst ` set (take ?k ?a)" if "x \<in> set es" for x
  proof -
    have "x \<in> set (take ?k ?a) \<or> x \<in> set (drop ?k ?a)" using that by (metis Un_iff append_take_drop_id by_access_simps(1) set_append)
    with d show ?thesis by (auto simp del: append_take_drop_id)
  qed
  moreover have "set (drop ?k ?a) \<subseteq> set es" using set_drop_subset [of ?k ?a] by simp
  ultimately show ?thesis unfolding evict_filter by (auto simp: split_beta)
qed

lemma evict_distinct: "distinct (map fst es) \<Longrightarrow> distinct (map fst (evict_to_watermark n es))"
  unfolding evict_filter by (simp add: distinct_map_filter)

lemma evict_length:
  assumes "distinct (map fst es)"
  shows "length (evict_to_watermark n es) = min n (length es)"
proof -
  have "length (evict_to_watermark n es) = card (set (evict_to_watermark n es))"
    using evict_distinct [OF assms] by (simp add: distinct_card distinct_map)
  also have "\<dots> = length (drop (length es - n) (by_access es))"
    unfolding evict_set [OF assms] using by_access_simps(3) [OF assms]
    by (intro distinct_card distinct_drop) (simp add: distinct_map)
  finally show ?thesis by simp
qed

text \<open>Only entries are dropped that were used no later than those that stay.\<close>

lemma evict_oldest:
  assumes "distinct (map fst es)" and "(k, e) \<in> set es" and "(k, e) \<notin> set (evict_to_watermark n es)"
    and "(k', e') \<in> set (evict_to_watermark n es)"
  shows "last_access e \<le> last_access e'"
proof -
  let ?a = "by_access es" and ?n = "length es - n"
  have sorted: "sorted (map (\<lambda>(k, e). last_access e) (take ?n ?a) @ map (\<lambda>(k, e). last_access e) (drop ?n ?a))"
    using by_access_sorted [of es] by (simp flip: map_append)
  have "(k', e') \<in> set (drop ?n ?a)" using assms(4) evict_set [OF assms(1)] by simp
  moreover have "(k, e) \<in> set (take ?n ?a)"
    using assms(2,3) evict_set [OF assms(1)] by (metis Un_iff append_take_drop_id by_access_simps(1) set_append)
  ultimately show ?thesis
    using sorted unfolding sorted_append by (metis (no_types, lifting) case_prod_conv image_eqI set_map)
qed

section \<open>Sizes\<close>

lemma insert_entry_length:
  assumes "distinct (map fst es)" and "w < limit"
  shows "length (insert_entry limit w key v a es) \<le> max limit (length es)" and "distinct (map fst (insert_entry limit w key v a es))"
proof -
  have len: "length (AList.update k x xs) \<le> length xs + 1" for k x and xs :: "('a \<times> 'b cache_entry) list"
    by (induction xs) auto
  let ?es = "if length es \<ge> limit then evict_to_watermark w es else es"
  have "length ?es + 1 \<le> max limit (length es)" using assms by (auto simp: evict_length)
  with len [of key "\<lparr>ce_value = v, last_access = a\<rparr>" ?es]
  show "length (insert_entry limit w key v a es) \<le> max limit (length es)"
    by (simp add: insert_entry_def Let_def)
  have "distinct (map fst ?es)" using assms(1) by (simp add: evict_distinct)
  then show "distinct (map fst (insert_entry limit w key v a es))"
    unfolding insert_entry_def Let_def by (rule distinct_update)
qed

definition gc_bounded :: "'p global_cache \<Rightarrow> bool" where
  "gc_bounded gc \<longleftrightarrow>
     low_watermark gc < max_entries gc \<and>
     distinct (map fst (gc_lines gc)) \<and> length (gc_lines gc) \<le> max_entries gc \<and>
     distinct (map fst (gc_wrapped_lines gc)) \<and> length (gc_wrapped_lines gc) \<le> max_entries gc"

lemma gc_bounded_ops:
  "gc_bounded (gc_new m w)"
  "gc_bounded gc \<Longrightarrow> gc_bounded (gc_clear gc)"
  "gc_bounded gc \<Longrightarrow> gc_bounded (snd (get_line key gc))"
  "gc_bounded gc \<Longrightarrow> gc_bounded (snd (get_wrapped_line key gc))"
  "gc_bounded gc \<Longrightarrow> gc_bounded (insert_line key l gc)"
  "gc_bounded gc \<Longrightarrow> gc_bounded (insert_wrapped_line key wl gc)"
  using insert_entry_length [of "gc_lines gc" "low_watermark gc" "max_entries gc" key l "access_counter gc"]
    insert_entry_length [of "gc_wrapped_lines gc" "low_watermark gc" "max_entries gc" key wl "access_counter gc"]
  by (auto simp: gc_bounded_def gc_new_def gc_clear_def get_line_def get_wrapped_line_def insert_line_def
      insert_wrapped_line_def touch_def Let_def comp_def split_beta split: option.splits)

lemma max_entries_ops [simp]:
  "max_entries (gc_clear gc) = max_entries gc" "max_entries (snd (get_line key gc)) = max_entries gc"
  "max_entries (snd (get_wrapped_line key gc)) = max_entries gc" "max_entries (insert_line key l gc) = max_entries gc"
  "max_entries (insert_wrapped_line key wl gc) = max_entries gc"
  by (auto simp: gc_clear_def get_line_def get_wrapped_line_def insert_line_def insert_wrapped_line_def split: option.splits)

text \<open>The shared state after an operation is the old one with one of these changes of the cache.\<close>

definition bounded_by :: "nat \<Rightarrow> 'p text_shared \<Rightarrow> bool" where
  "bounded_by m sh \<longleftrightarrow> gc_bounded (global_cache sh) \<and> max_entries (global_cache sh) = m"

lemma clear_bounded:
  "bounded_by m sh \<Longrightarrow> clear_if_font_generation_changed (sh, c) = (g, sh', c') \<Longrightarrow> bounded_by m sh'"
  by (auto simp: clear_if_font_generation_changed_def bounded_by_def gc_bounded_ops split: if_splits)

lemma layout_line_bounded:
  assumes "bounded_by m sh"
  shows "bounded_by m (fst (snd (layout_line_with_spacing shape line fs runs fw ls (sh, c))))"
proof -
  obtain g sh' c' where clear: "clear_if_font_generation_changed (sh, c) = (g, sh', c')" by (cases "clear_if_font_generation_changed (sh, c)")
  from clear_bounded [OF assms clear] have b: "gc_bounded (global_cache sh')" "max_entries (global_cache sh') = m"
    by (auto simp: bounded_by_def)
  define key where "key = \<lparr>ck_text = line, ck_font_size = fs, ck_runs = runs, ck_wrap_width = None, ck_force_width = fw, ck_letter_spacing = ls\<rparr>"
  obtain r gc where get: "get_line key (global_cache sh') = (r, gc)" by fastforce
  have gc: "gc_bounded gc" "max_entries gc = m"
    using gc_bounded_ops(3) [OF b(1), of key] max_entries_ops(2) [of key "global_cache sh'"] get b(2) by simp_all
  show ?thesis
    using b gc gc_bounded_ops(5) [OF gc(1), of key]
    by (simp add: layout_line_with_spacing_def clear get bounded_by_def Let_def flip: key_def split: option.splits)
qed

lemma layout_wrapped_bounded:
  assumes "bounded_by m sh" and "layout_wrapped_line shape line fs runs width ml (sh, c) = Some (l, sh2, c2)"
  shows "bounded_by m sh2"
proof -
  obtain g sh' c' where clear: "clear_if_font_generation_changed (sh, c) = (g, sh', c')" by (cases "clear_if_font_generation_changed (sh, c)")
  from clear_bounded [OF assms(1) clear] have b: "gc_bounded (global_cache sh')" "max_entries (global_cache sh') = m" "bounded_by m sh'"
    by (auto simp: bounded_by_def)
  define key where "key = \<lparr>ck_text = line, ck_font_size = fs, ck_runs = runs, ck_wrap_width = width, ck_force_width = None, ck_letter_spacing = None\<rparr>"
  obtain r gc where get: "get_wrapped_line key (global_cache sh') = (r, gc)" by fastforce
  have gc: "gc_bounded gc" "max_entries gc = m"
    using gc_bounded_ops(4) [OF b(1), of key] max_entries_ops(3) [of key "global_cache sh'"] get b(2) by simp_all
  obtain u sh3 c3 where ll: "layout_line shape line fs runs None (sh'\<lparr>global_cache := gc\<rparr>, c') = (u, sh3, c3)"
    by (cases "layout_line shape line fs runs None (sh'\<lparr>global_cache := gc\<rparr>, c')")
  have "bounded_by m sh3"
    using layout_line_bounded [of m "sh'\<lparr>global_cache := gc\<rparr>" shape line fs runs None None c'] gc ll
    by (simp add: bounded_by_def layout_line_def)
  then have "bounded_by m (sh3\<lparr>global_cache := insert_wrapped_line key wl (global_cache sh3)\<rparr>)" for wl
    by (simp add: bounded_by_def gc_bounded_ops)
  with assms(2) b gc show ?thesis
    by (auto simp: layout_wrapped_line_def clear get ll bounded_by_def Let_def bind_eq_Some_conv simp flip: key_def
        split: option.splits)
qed

section \<open>Caches that are right\<close>

definition line_key :: "uchar list \<Rightarrow> 'p \<Rightarrow> font_run list \<Rightarrow> 'p option \<Rightarrow> 'p option \<Rightarrow> 'p cache_key" where
  "line_key line fs runs fw ls = \<lparr>ck_text = line, ck_font_size = fs, ck_runs = runs, ck_wrap_width = None,
     ck_force_width = fw, ck_letter_spacing = ls\<rparr>"

definition wrapped_key :: "uchar list \<Rightarrow> 'p \<Rightarrow> font_run list \<Rightarrow> 'p option \<Rightarrow> 'p cache_key" where
  "wrapped_key line fs runs width = \<lparr>ck_text = line, ck_font_size = fs, ck_runs = runs, ck_wrap_width = width,
     ck_force_width = None, ck_letter_spacing = None\<rparr>"

text \<open>The layout of a wrapped line without any cache.\<close>

definition fresh_wrapped ::
  "('p::linordered_field) shaper \<Rightarrow> nat \<Rightarrow> 'p cache_key \<Rightarrow> nat option \<Rightarrow> 'p wrapped_line_layout option" where
  "fresh_wrapped shape g key ml =
     (let unwrapped = shape_line shape g (line_key (ck_text key) (ck_font_size key) (ck_runs key) None None)
      in map_option (\<lambda>bs. \<lparr>unwrapped_layout = unwrapped, wrap_boundaries = bs, wrap_width = ck_wrap_width key\<rparr>)
           (case ck_wrap_width key of
              Some width \<Rightarrow> compute_wrap_boundaries unwrapped (ck_text key) width ml
            | None \<Rightarrow> Some []))"

text \<open>
  The caches hold what would be computed now, for fonts of generation \<open>g\<close>. The number of rows is not part of the key, so \<open>limit\<close>
  tells the number with which each wrapped line is asked for.
\<close>

type_synonym 'p row_limit = "'p cache_key \<Rightarrow> nat option"

definition frame_ok :: "('p::linordered_field) shaper \<Rightarrow> 'p row_limit \<Rightarrow> nat \<Rightarrow> 'p frame_cache \<Rightarrow> bool" where
  "frame_ok shape limit g fc \<longleftrightarrow>
     (\<forall>key l. fc_lines fc key = Some l \<longrightarrow> l = shape_line shape g key) \<and>
     (\<forall>key l. fc_wrapped_lines fc key = Some l \<longrightarrow> fresh_wrapped shape g key (limit key) = Some l)"

definition global_ok :: "('p::linordered_field) shaper \<Rightarrow> 'p row_limit \<Rightarrow> nat \<Rightarrow> 'p global_cache \<Rightarrow> bool" where
  "global_ok shape limit g gc \<longleftrightarrow>
     (\<forall>(key, e) \<in> set (gc_lines gc). ce_value e = shape_line shape g key) \<and>
     (\<forall>(key, e) \<in> set (gc_wrapped_lines gc). fresh_wrapped shape g key (limit key) = Some (ce_value e))"

definition window_ok :: "('p::linordered_field) shaper \<Rightarrow> 'p row_limit \<Rightarrow> 'p text_shared \<Rightarrow> 'p line_layout_cache \<Rightarrow> bool" where
  "window_ok shape limit sh c \<longleftrightarrow>
     frame_ok shape limit (cached_font_generation c) (current_frame c) \<and>
     frame_ok shape limit (cached_font_generation c) (previous_frame c) \<and>
     cached_font_generation c \<le> font_generation sh \<and>
     (cached_font_generation c = font_generation sh \<longrightarrow> global_ok shape limit (font_generation sh) (global_cache sh))"

definition sys_ok :: "('p::linordered_field) shaper \<Rightarrow> 'p row_limit \<Rightarrow> 'p text_sys \<Rightarrow> bool" where
  "sys_ok shape limit s \<longleftrightarrow> (\<forall>w c. windows s w = Some c \<longrightarrow> window_ok shape limit (shared s) c)"

text \<open>A window that has seen the current fonts.\<close>

definition current_ok ::
  "('p::linordered_field) shaper \<Rightarrow> 'p row_limit \<Rightarrow> nat \<Rightarrow> 'p text_shared \<times> 'p line_layout_cache \<Rightarrow> bool" where
  "current_ok shape limit g st \<longleftrightarrow>
     font_generation (fst st) = g \<and> cached_font_generation (snd st) = g \<and> global_ok shape limit g (global_cache (fst st)) \<and>
     frame_ok shape limit g (current_frame (snd st)) \<and> frame_ok shape limit g (previous_frame (snd st))"

lemma frame_ok_default [simp]: "frame_ok shape limit g fc_default"
  by (simp add: frame_ok_def fc_default_def)

lemma global_ok_clear [simp]: "global_ok shape limit g (gc_clear gc)"
  by (simp add: global_ok_def gc_clear_def)

lemma clear_current:
  assumes "window_ok shape limit sh c"
  obtains sh' c' where "clear_if_font_generation_changed (sh, c) = (font_generation sh, sh', c')"
    and "current_ok shape limit (font_generation sh) (sh', c')"
proof (cases "cached_font_generation c = font_generation sh")
  case True
  with assms that [of sh c] show ?thesis
    by (simp add: clear_if_font_generation_changed_def window_ok_def current_ok_def)
next
  case False
  with that [of "sh\<lparr>global_cache := gc_clear (global_cache sh)\<rparr>"
      "c\<lparr>current_frame := fc_default, previous_frame := fc_default, cached_font_generation := font_generation sh\<rparr>"]
  show ?thesis by (simp add: clear_if_font_generation_changed_def current_ok_def)
qed

text \<open>The cache of the application.\<close>

lemma set_touch: "(k, e) \<in> set (touch key a es) \<Longrightarrow> \<exists>e'. (k, e') \<in> set es \<and> ce_value e = ce_value e'"
  by (auto simp: touch_def split: if_splits)

lemma set_insert_entry:
  assumes "(k, e) \<in> set (insert_entry limit w key v a es)"
  shows "(k, e) \<in> set es \<or> k = key \<and> ce_value e = v"
proof -
  have upd: "(k, e) \<in> set (AList.update key x xs) \<Longrightarrow> (k, e) \<in> set xs \<or> k = key \<and> e = x" for x xs
    by (induction xs) (auto split: if_splits)
  have "set (evict_to_watermark w es) \<subseteq> set es" unfolding evict_filter by auto
  with assms upd show ?thesis by (fastforce simp: insert_entry_def Let_def split: if_splits)
qed

lemma get_line_ok:
  assumes "global_ok shape limit g gc" and "get_line key gc = (r, gc')"
  shows "global_ok shape limit g gc'" and "r = Some l \<Longrightarrow> l = shape_line shape g key"
  using assms
  by (auto simp: get_line_def global_ok_def dest!: map_of_SomeD set_touch split: option.splits) fastforce+

lemma get_wrapped_line_ok:
  assumes "global_ok shape limit g gc" and "get_wrapped_line key gc = (r, gc')"
  shows "global_ok shape limit g gc'" and "r = Some l \<Longrightarrow> fresh_wrapped shape g key (limit key) = Some l"
  using assms
  by (auto simp: get_wrapped_line_def global_ok_def dest!: map_of_SomeD set_touch split: option.splits) fastforce+

lemma insert_line_ok:
  "global_ok shape limit g gc \<Longrightarrow> l = shape_line shape g key \<Longrightarrow> global_ok shape limit g (insert_line key l gc)"
  by (auto simp: insert_line_def global_ok_def dest!: set_insert_entry)

lemma insert_wrapped_line_ok:
  "global_ok shape limit g gc \<Longrightarrow> fresh_wrapped shape g key (limit key) = Some l \<Longrightarrow>
     global_ok shape limit g (insert_wrapped_line key l gc)"
  by (auto simp: insert_wrapped_line_def global_ok_def dest!: set_insert_entry)

lemma use_line_ok:
  "frame_ok shape limit g (current_frame c) \<Longrightarrow> l = shape_line shape g key \<Longrightarrow> frame_ok shape limit g (current_frame (use_line key l c))"
  by (simp add: use_line_def frame_ok_def)

lemma use_wrapped_line_ok:
  "frame_ok shape limit g (current_frame c) \<Longrightarrow> fresh_wrapped shape g key (limit key) = Some l \<Longrightarrow>
     frame_ok shape limit g (current_frame (use_wrapped_line key l c))"
  by (simp add: use_wrapped_line_def frame_ok_def)

lemma use_line_simps [simp]:
  "previous_frame (use_line key l c) = previous_frame c" "cached_font_generation (use_line key l c) = cached_font_generation c"
  "previous_frame (use_wrapped_line key wl c) = previous_frame c"
  "cached_font_generation (use_wrapped_line key wl c) = cached_font_generation c"
  by (simp_all add: use_line_def use_wrapped_line_def)

end
