(* ===== verification/Text_Caches.thy ===== *)
theory Text_Caches
  imports Layout_Cache
begin

text \<open>
  The text system of an application as a sequence of operations of its windows (modelled in \<open>Layout_Cache\<close>): the caches are transparent
  when windows are opened in time and the limit of rows of a line does not change, the cache of the application keeps its
  size, and the two cases in which an old layout is served.
\<close>

section \<open>Every operation of a window keeps its caches right\<close>

lemma layout_line_current:
  assumes "window_ok shape limit sh c"
    and "layout_line_with_spacing shape line fs runs fw ls (sh, c) = (l, sh2, c2)"
  shows "l = shape_line shape (font_generation sh) (line_key line fs runs fw ls)"
    and "current_ok shape limit (font_generation sh) (sh2, c2)"
proof -
  let ?g = "font_generation sh" and ?key = "line_key line fs runs fw ls"
  obtain sh' c' where clear: "clear_if_font_generation_changed (sh, c) = (?g, sh', c')"
    and cur: "current_ok shape limit ?g (sh', c')"
    by (rule clear_current [OF assms(1)])
  obtain r gc where get: "get_line ?key (global_cache sh') = (r, gc)" by fastforce
  have ok: "font_generation sh' = ?g" "cached_font_generation c' = ?g" "global_ok shape limit ?g (global_cache sh')"
    "frame_ok shape limit ?g (current_frame c')" "frame_ok shape limit ?g (previous_frame c')"
    using cur by (simp_all add: current_ok_def)
  have gc: "global_ok shape limit ?g gc" using get_line_ok(1) [OF ok(3) get] .
  note result = assms(2) [unfolded layout_line_with_spacing_def clear Let_def prod.case line_key_def [symmetric]]
  have "l = shape_line shape ?g ?key \<and> current_ok shape limit ?g (sh2, c2)"
  proof (cases "fc_lines (current_frame c') ?key")
    case (Some l')
    with result ok cur show ?thesis by (auto simp: frame_ok_def)
  next
    case None
    show ?thesis
    proof (cases "fc_lines (previous_frame c') ?key")
      case (Some l')
      with ok(5) have l': "l' = shape_line shape ?g ?key" by (simp add: frame_ok_def)
      have "frame_ok shape limit ?g ((previous_frame c')\<lparr>fc_lines := (fc_lines (previous_frame c'))(?key := None)\<rparr>)"
        using ok(5) by (simp add: frame_ok_def)
      with None Some l' result ok show ?thesis by (auto simp: current_ok_def use_line_ok)
    next
      case prev: None
      with None result get have "l = shape_line shape ?g ?key"
        using get_line_ok(2) [OF ok(3) get] ok(1) by (cases r) (auto simp: Let_def)
      with None prev result get gc ok show ?thesis
        by (cases r) (auto simp: current_ok_def use_line_ok insert_line_ok Let_def)
    qed
  qed
  then show "l = shape_line shape ?g ?key" and "current_ok shape limit ?g (sh2, c2)" by auto
qed

lemma current_window: "current_ok shape limit g (sh, c) \<Longrightarrow> window_ok shape limit sh c"
  by (simp add: current_ok_def window_ok_def)

lemma layout_wrapped_current:
  assumes "window_ok shape limit sh c"
  shows "map_option fst (layout_wrapped_line shape line fs runs width (limit (wrapped_key line fs runs width)) (sh, c)) =
      fresh_wrapped shape (font_generation sh) (wrapped_key line fs runs width) (limit (wrapped_key line fs runs width))"
    and "layout_wrapped_line shape line fs runs width (limit (wrapped_key line fs runs width)) (sh, c) = Some (l, sh2, c2) \<Longrightarrow>
      current_ok shape limit (font_generation sh) (sh2, c2)"
proof -
  let ?g = "font_generation sh" and ?key = "wrapped_key line fs runs width"
  let ?r = "layout_wrapped_line shape line fs runs width (limit ?key) (sh, c)"
  obtain sh' c' where clear: "clear_if_font_generation_changed (sh, c) = (?g, sh', c')"
    and cur: "current_ok shape limit ?g (sh', c')"
    by (rule clear_current [OF assms(1)])
  obtain r gc where get: "get_wrapped_line ?key (global_cache sh') = (r, gc)" by fastforce
  have ok: "font_generation sh' = ?g" "cached_font_generation c' = ?g" "global_ok shape limit ?g (global_cache sh')"
    "frame_ok shape limit ?g (current_frame c')" "frame_ok shape limit ?g (previous_frame c')"
    using cur by (simp_all add: current_ok_def)
  have gc: "global_ok shape limit ?g gc" using get_wrapped_line_ok(1) [OF ok(3) get] .
  note def = layout_wrapped_line_def [of shape line fs runs width "limit ?key" "(sh, c)", unfolded clear Let_def prod.case wrapped_key_def [symmetric]]
  have "map_option fst ?r = fresh_wrapped shape ?g ?key (limit ?key) \<and>
    (\<forall>l sh2 c2. ?r = Some (l, sh2, c2) \<longrightarrow> current_ok shape limit ?g (sh2, c2))"
  proof (cases "fc_wrapped_lines (current_frame c') ?key")
    case (Some l')
    with ok cur show ?thesis unfolding def by (auto simp: frame_ok_def)
  next
    case None
    show ?thesis
    proof (cases "fc_wrapped_lines (previous_frame c') ?key")
      case (Some l')
      with ok(5) have l': "fresh_wrapped shape ?g ?key (limit ?key) = Some l'" by (simp add: frame_ok_def)
      have "frame_ok shape limit ?g
          ((previous_frame c')\<lparr>fc_wrapped_lines := (fc_wrapped_lines (previous_frame c'))(?key := None)\<rparr>)"
        using ok(5) by (simp add: frame_ok_def)
      with None Some l' ok show ?thesis unfolding def by (auto simp: current_ok_def use_wrapped_line_ok)
    next
      case prev: None
      show ?thesis
      proof (cases r)
        case (Some l')
        with get_wrapped_line_ok(2) [OF ok(3) get] None prev get gc ok show ?thesis
          unfolding def by (auto simp: current_ok_def use_wrapped_line_ok)
      next
        case miss: None
        obtain u sh3 c3 where ll: "layout_line shape line fs runs None (sh'\<lparr>global_cache := gc\<rparr>, c') = (u, sh3, c3)"
          by (cases "layout_line shape line fs runs None (sh'\<lparr>global_cache := gc\<rparr>, c')")
        have "window_ok shape limit (sh'\<lparr>global_cache := gc\<rparr>) c'" using ok gc by (simp add: window_ok_def)
        from layout_line_current [OF this ll [unfolded layout_line_def]] ok(1)
        have u: "u = shape_line shape ?g (line_key line fs runs None None)" and cur3: "current_ok shape limit ?g (sh3, c3)"
          by simp_all
        have fresh: "fresh_wrapped shape ?g ?key (limit ?key) =
            map_option (\<lambda>bs. \<lparr>unwrapped_layout = u, wrap_boundaries = bs, wrap_width = width\<rparr>)
              (case width of Some w \<Rightarrow> compute_wrap_boundaries u line w (limit ?key) | None \<Rightarrow> Some [])"
          by (cases width) (simp_all add: fresh_wrapped_def wrapped_key_def u Let_def)
        show ?thesis
          using None prev miss get ll fresh cur3 unfolding def
          by (cases "case width of Some w \<Rightarrow> compute_wrap_boundaries u line w (limit ?key) | None \<Rightarrow> Some []")
            (auto simp: current_ok_def use_wrapped_line_ok insert_wrapped_line_ok)
      qed
    qed
  qed
  then show "map_option fst ?r = fresh_wrapped shape ?g ?key (limit ?key)"
    and "?r = Some (l, sh2, c2) \<Longrightarrow> current_ok shape limit ?g (sh2, c2)" by auto
qed

lemma reuse_loop_ok:
  assumes "\<forall>k v. prev k = Some v \<longrightarrow> P k v" and "\<forall>k v. cur k = Some v \<longrightarrow> P k v" and "reuse_loop keys prev cur used = (p, c, u)"
  shows "(\<forall>k v. p k = Some v \<longrightarrow> P k v) \<and> (\<forall>k v. c k = Some v \<longrightarrow> P k v)"
  using assms
proof (induction keys arbitrary: prev cur used)
  case (Cons key keys)
  show ?case
  proof (cases "prev key")
    case None
    with Cons.prems(3) have "reuse_loop keys prev cur (used @ [key]) = (p, c, u)" by simp
    with Cons.IH Cons.prems(1,2) show ?thesis by blast
  next
    case (Some v)
    with Cons.prems(3) have "reuse_loop keys (prev(key := None)) (cur(key \<mapsto> v)) (used @ [key]) = (p, c, u)" by simp
    moreover have "\<forall>k v. (prev(key := None)) k = Some v \<longrightarrow> P k v" using Cons.prems(1) by simp
    moreover have "\<forall>k w. (cur(key \<mapsto> v)) k = Some w \<longrightarrow> P k w" using Cons.prems(1,2) Some by simp
    ultimately show ?thesis using Cons.IH by blast
  qed
qed auto

lemma reuse_layouts_current:
  assumes "window_ok shape limit sh c" and "reuse_layouts a b (sh, c) = Some (sh2, c2)"
  shows "current_ok shape limit (font_generation sh) (sh2, c2)"
proof -
  let ?g = "font_generation sh"
  obtain sh' c' where clear: "clear_if_font_generation_changed (sh, c) = (?g, sh', c')"
    and cur: "current_ok shape limit ?g (sh', c')"
    by (rule clear_current [OF assms(1)])
  show ?thesis
  proof (cases "li_font_generation a \<noteq> ?g \<or> li_font_generation b \<noteq> ?g")
    case True
    with assms(2) cur show ?thesis by (simp add: reuse_layouts_def clear)
  next
    case False
    let ?cur = "current_frame c'" and ?prev = "previous_frame c'"
    note res = assms(2) [unfolded reuse_layouts_def clear Let_def prod.case if_not_P [OF False]]
    from res obtain keys where keys: "slice_range (lines_index a) (lines_index b) (used_lines ?prev) = Some keys"
      unfolding bind_eq_Some_conv by blast
    obtain pl cl ul where loop: "reuse_loop keys (fc_lines ?prev) (fc_lines ?cur) (used_lines ?cur) = (pl, cl, ul)"
      by (cases "reuse_loop keys (fc_lines ?prev) (fc_lines ?cur) (used_lines ?cur)")
    from res obtain wkeys where wkeys: "slice_range (wrapped_lines_index a) (wrapped_lines_index b) (used_wrapped_lines ?prev) = Some wkeys"
      by (auto simp: keys loop bind_eq_Some_conv)
    obtain pw cw uw where wloop: "reuse_loop wkeys (fc_wrapped_lines ?prev) (fc_wrapped_lines ?cur) (used_wrapped_lines ?cur) = (pw, cw, uw)"
      by (cases "reuse_loop wkeys (fc_wrapped_lines ?prev) (fc_wrapped_lines ?cur) (used_wrapped_lines ?cur)")
    have res: "sh2 = sh'" "c2 = c'\<lparr>previous_frame := ?prev\<lparr>fc_lines := pl, fc_wrapped_lines := pw\<rparr>,
        current_frame := ?cur\<lparr>fc_lines := cl, used_lines := ul, fc_wrapped_lines := cw, used_wrapped_lines := uw\<rparr>\<rparr>"
      using res by (simp_all add: keys loop wkeys wloop)
    have "(\<forall>k v. pl k = Some v \<longrightarrow> v = shape_line shape ?g k) \<and> (\<forall>k v. cl k = Some v \<longrightarrow> v = shape_line shape ?g k)"
      by (rule reuse_loop_ok [OF _ _ loop]) (use cur in \<open>auto simp: current_ok_def frame_ok_def\<close>)
    moreover have "(\<forall>k v. pw k = Some v \<longrightarrow> fresh_wrapped shape ?g k (limit k) = Some v) \<and>
        (\<forall>k v. cw k = Some v \<longrightarrow> fresh_wrapped shape ?g k (limit k) = Some v)"
      by (rule reuse_loop_ok [OF _ _ wloop]) (use cur in \<open>auto simp: current_ok_def frame_ok_def\<close>)
    ultimately show ?thesis
      using cur by (simp add: res current_ok_def frame_ok_def)
  qed
qed

text \<open>
  What an operation of a window has to keep: from a window whose caches are right it goes to one that has seen the current fonts and
  whose caches are right, and does not change the fonts. Then it keeps the caches of all windows right.
\<close>

locale window_operation =
  fixes shape :: "('p::linordered_field) shaper" and limit :: "'p row_limit"
    and f :: "'p text_shared \<times> 'p line_layout_cache \<Rightarrow> ('p text_shared \<times> 'p line_layout_cache) option"
  assumes keeps: "window_ok shape limit sh c \<Longrightarrow> f (sh, c) = Some (sh', c') \<Longrightarrow>
    current_ok shape limit (font_generation sh) (sh', c')"
begin

lemma in_window_ok:
  assumes "sys_ok shape limit s" and "in_window w f s = Some s'"
  shows "sys_ok shape limit s'"
proof -
  from assms(2) obtain c sh' c' where c: "windows s w = Some c" "f (shared s, c) = Some (sh', c')"
    and s': "s' = s\<lparr>shared := sh', windows := (windows s)(w \<mapsto> c')\<rparr>"
    by (auto simp: in_window_def bind_eq_Some_conv)
  have cur: "current_ok shape limit (font_generation (shared s)) (sh', c')"
    using assms(1) c by (intro keeps) (auto simp: sys_ok_def)
  have "window_ok shape limit sh' d" if "windows s v = Some d" for v d
    using assms(1) cur that by (auto simp: sys_ok_def window_ok_def current_ok_def)
  with cur show ?thesis
    by (auto simp: sys_ok_def s' current_window)
qed

end

interpretation line_op:
  window_operation shape limit "\<lambda>st. Some (snd (layout_line_with_spacing shape line fs runs fw ls st))"
  for shape limit line fs runs fw ls
proof unfold_locales
  fix sh c sh' c'
  assume "window_ok shape limit sh c" and "Some (snd (layout_line_with_spacing shape line fs runs fw ls (sh, c))) = Some (sh', c')"
  then show "current_ok shape limit (font_generation sh) (sh', c')"
    using layout_line_current(2) [of shape limit sh c line fs runs fw ls] by (metis option.inject prod.collapse)
qed

interpretation wrapped_op:
  window_operation shape limit
    "\<lambda>st. map_option snd (layout_wrapped_line shape line fs runs width (limit (wrapped_key line fs runs width)) st)"
  for shape limit line fs runs width
  by unfold_locales (auto dest: layout_wrapped_current(2))

interpretation index_op: window_operation shape limit "\<lambda>st. Some (snd (layout_index st))" for shape limit
proof unfold_locales
  fix sh :: "'a text_shared" and c sh' c'
  assume "window_ok shape limit sh c" and "Some (snd (layout_index (sh, c))) = Some (sh', c')"
  then show "current_ok shape limit (font_generation sh) (sh', c')"
    by - (erule clear_current, auto simp: layout_index_def)
qed

interpretation reuse_op: window_operation shape limit "reuse_layouts a b" for shape limit a b
  by unfold_locales (rule reuse_layouts_current)

interpretation truncate_op: window_operation shape limit "\<lambda>st. Some (truncate_layouts a st)" for shape limit a
proof unfold_locales
  fix sh :: "'a text_shared" and c sh' c'
  assume "window_ok shape limit sh c" and "Some (truncate_layouts a (sh, c)) = Some (sh', c')"
  then show "current_ok shape limit (font_generation sh) (sh', c')"
    by - (erule clear_current, auto simp: truncate_layouts_def current_ok_def frame_ok_def split: if_splits)
qed

interpretation finish_op: window_operation shape limit "\<lambda>st. Some (finish_frame st)" for shape limit
proof unfold_locales
  fix sh :: "'a text_shared" and c sh' c'
  assume "window_ok shape limit sh c" and "Some (finish_frame (sh, c)) = Some (sh', c')"
  then show "current_ok shape limit (font_generation sh) (sh', c')"
    by - (erule clear_current, auto simp: finish_frame_def current_ok_def)
qed

section \<open>Runs\<close>

text \<open>
  A window is opened in time if the cache of the application is empty or a window has already seen the current fonts, so that it has cleared
  this cache. \<open>allowed\<close> asks for that, and for the limit of rows of each wrapped line to be the same in all operations.
\<close>

definition in_time :: "'p text_sys \<Rightarrow> bool" where
  "in_time s \<longleftrightarrow>
     gc_lines (global_cache (shared s)) = [] \<and> gc_wrapped_lines (global_cache (shared s)) = [] \<or>
     (\<exists>w c. windows s w = Some c \<and> cached_font_generation c = font_generation (shared s))"

definition allowed :: "'p row_limit \<Rightarrow> 'p text_event \<Rightarrow> 'p text_sys \<Rightarrow> bool" where
  "allowed limit ev s =
     (case ev of
        OpenWindow w \<Rightarrow> in_time s
      | LayoutWrapped w line fs runs width ml \<Rightarrow> ml = limit (wrapped_key line fs runs width)
      | _ \<Rightarrow> True)"

inductive text_trace :: "('p::linordered_field) shaper \<Rightarrow> 'p row_limit \<Rightarrow> 'p text_sys \<Rightarrow> 'p text_sys \<Rightarrow> bool"
  for shape limit s0 where
  start: "text_trace shape limit s0 s0"
| step: "text_trace shape limit s0 s \<Longrightarrow> allowed limit ev s \<Longrightarrow> text_exec shape ev s = Some s' \<Longrightarrow> text_trace shape limit s0 s'"

lemma in_time_ok:
  "sys_ok shape limit s \<Longrightarrow> in_time s \<Longrightarrow> global_ok shape limit (font_generation (shared s)) (global_cache (shared s))"
  unfolding in_time_def by (elim disjE exE conjE) (simp_all add: sys_ok_def window_ok_def global_ok_def)

lemma text_exec_ok:
  assumes "sys_ok shape limit s" and "allowed limit ev s" and "text_exec shape ev s = Some s'"
  shows "sys_ok shape limit s'"
proof (cases ev)
  case (LayoutLine w line fs runs fw ls)
  with assms show ?thesis by (auto intro: line_op.in_window_ok)
next
  case (LayoutWrapped w line fs runs width ml)
  with assms show ?thesis by (auto simp: allowed_def intro: wrapped_op.in_window_ok)
next
  case (LayoutIndex w)
  with assms show ?thesis by (auto intro: index_op.in_window_ok)
next
  case (ReuseLayouts w a b)
  with assms show ?thesis by (auto intro: reuse_op.in_window_ok)
next
  case (TruncateLayouts w a)
  with assms show ?thesis by (auto intro: truncate_op.in_window_ok)
next
  case (FinishFrame w)
  with assms show ?thesis by (auto intro: finish_op.in_window_ok)
next
  case AddFonts
  with assms show ?thesis by (fastforce simp: sys_ok_def window_ok_def advance_font_generation_def)
next
  case ClearLayoutCache
  with assms show ?thesis by (auto simp: sys_ok_def window_ok_def clear_line_layouts_def)
next
  case (OpenWindow w)
  with assms in_time_ok [OF assms(1)] show ?thesis
    by (auto simp: sys_ok_def window_ok_def allowed_def llc_new_def split: if_splits)
next
  case (CloseWindow w)
  with assms show ?thesis by (auto simp: sys_ok_def split: if_splits)
qed

lemma text_trace_ok: "text_trace shape limit (sys_new entries watermark) s \<Longrightarrow> sys_ok shape limit s"
  by (induction rule: text_trace.induct) (simp add: sys_ok_def sys_new_def, rule text_exec_ok)

text \<open>
  C16. The caches are transparent. After any operations of any windows, with fonts installed and the cache cleared in between, a line
  laid out in a window is what shaping it anew with the installed fonts gives, and so is a wrapped line, when windows
  are opened in time and the limit of rows of a wrapped line is always the same.
\<close>

theorem cached_layouts:
  assumes "text_trace shape limit (sys_new entries watermark) s" and "windows s w = Some c"
  shows "fst (layout_line_with_spacing shape line fs runs fw ls (shared s, c)) =
      shape_line shape (font_generation (shared s)) (line_key line fs runs fw ls) \<and>
    map_option fst (layout_wrapped_line shape line fs runs width (limit (wrapped_key line fs runs width)) (shared s, c)) =
      fresh_wrapped shape (font_generation (shared s)) (wrapped_key line fs runs width) (limit (wrapped_key line fs runs width))"
proof -
  have "window_ok shape limit (shared s) c" using text_trace_ok [OF assms(1)] assms(2) by (simp add: sys_ok_def)
  from layout_line_current(1) [OF this] layout_wrapped_current(1) [OF this] show ?thesis
    by (metis prod.collapse)
qed

definition mono_shape :: "rat shaper" where
  "mono_shape generation line font_size runs = mono_layout (length line)"

lemma cached_layouts_witness:
  "fst (layout_line_with_spacing mono_shape [97] 1 [] None None
     (shared (sys_new 8 4), llc_new (shared (sys_new 8 4)))) = mono_layout 1"
proof -
  let ?s = "(sys_new 8 4 :: rat text_sys)\<lparr>windows := [0 \<mapsto> llc_new (shared (sys_new 8 4))]\<rparr>"
  have "text_trace mono_shape (\<lambda>_. None) (sys_new 8 4) ?s"
    by (rule text_trace.step [OF text_trace.start, of _ "OpenWindow 0"])
      (simp_all add: allowed_def in_time_def sys_new_def gc_new_def)
  from cached_layouts [OF this, of 0 "llc_new (shared (sys_new 8 4))" "[97]" 1 "[]" None None None] show ?thesis
    by (simp add: shape_line_def mono_shape_def line_key_def)
qed

section \<open>The size of the cache\<close>

fun text_execs :: "('p::linordered_field) shaper \<Rightarrow> 'p text_event list \<Rightarrow> 'p text_sys \<Rightarrow> 'p text_sys option" where
  "text_execs shape [] s = Some s"
| "text_execs shape (ev # evs) s = Option.bind (text_exec shape ev s) (text_execs shape evs)"

lemma clear_only_bounded:
  assumes "bounded_by m (shared s)" and "in_window w f s = Some s'"
    and "\<And>sh c r. f (sh, c) = Some r \<Longrightarrow> bounded_by m sh \<Longrightarrow> bounded_by m (fst r)"
  shows "bounded_by m (shared s')"
  using assms by (fastforce simp: in_window_def bind_eq_Some_conv)

lemma text_exec_bounded:
  assumes "bounded_by m (shared s)" and "text_exec shape ev s = Some s'"
  shows "bounded_by m (shared s')"
proof -
  have clear: "bounded_by m sh2"
    if "bounded_by m sh" "clear_if_font_generation_changed (sh, c) = (g, sh2, c2)" for sh sh2 :: "'a text_shared" and c g c2
    using clear_bounded that by blast
  show ?thesis
  proof (cases ev)
    case (LayoutLine w line fs runs fw ls)
    have "bounded_by m (fst r)"
      if "Some (snd (layout_line_with_spacing shape line fs runs fw ls (sh, c))) = Some r" "bounded_by m sh" for sh c r
      using layout_line_bounded [OF that(2), of shape line fs runs fw ls c] that(1) by auto
    with assms LayoutLine show ?thesis by (auto intro: clear_only_bounded)
  next
    case (LayoutWrapped w line fs runs width ml)
    with assms show ?thesis by (auto elim!: clear_only_bounded dest: layout_wrapped_bounded)
  next
    case (LayoutIndex w)
    with assms show ?thesis by (auto elim!: clear_only_bounded simp: layout_index_def split: prod.splits intro: clear)
  next
    case (ReuseLayouts w a b)
    have "bounded_by m (fst r)" if "reuse_layouts a b (sh, c) = Some r" "bounded_by m sh" for sh :: "'a text_shared" and c r
    proof -
      have "fst r = fst (snd (clear_if_font_generation_changed (sh, c)))"
        using that(1) by (auto simp: reuse_layouts_def case_prod_unfold Let_def bind_eq_Some_conv split: if_splits)
      with clear [OF that(2)] show ?thesis by (metis prod.collapse)
    qed
    with assms ReuseLayouts show ?thesis by (auto intro: clear_only_bounded)
  next
    case (TruncateLayouts w a)
    with assms show ?thesis by (auto elim!: clear_only_bounded simp: truncate_layouts_def split: prod.splits if_splits intro: clear)
  next
    case (FinishFrame w)
    with assms show ?thesis by (auto elim!: clear_only_bounded simp: finish_frame_def split: prod.splits intro: clear)
  qed (use assms in \<open>auto simp: bounded_by_def advance_font_generation_def clear_line_layouts_def gc_bounded_ops\<close>)
qed

lemma text_execs_bounded:
  "bounded_by m (shared s) \<Longrightarrow> text_execs shape evs s = Some s' \<Longrightarrow> bounded_by m (shared s')"
  by (induction evs arbitrary: s) (auto simp: bind_eq_Some_conv dest: text_exec_bounded)

text \<open>
  The cache of the application never holds more lines, or more wrapped lines, than it was made for, whatever the windows do.
\<close>

theorem cache_size:
  assumes "text_execs shape evs (sys_new entries watermark) = Some s"
  shows "fst (entry_counts (global_cache (shared s))) \<le> max entries 1 \<and>
    snd (entry_counts (global_cache (shared s))) \<le> max entries 1"
proof -
  have "bounded_by (max entries 1) (shared (sys_new entries watermark :: 'a text_sys))"
    using gc_bounded_ops(1) [of entries watermark] by (simp add: bounded_by_def sys_new_def gc_new_def Let_def)
  from text_execs_bounded [OF this assms] show ?thesis
    by (simp add: bounded_by_def gc_bounded_def entry_counts_def)
qed

lemma cache_size_witness:
  "\<exists>s. text_execs mono_shape [OpenWindow 0, LayoutLine 0 [97] 1 [] None None, LayoutLine 0 [98] 1 [] None None] (sys_new 1 0) = Some s \<and>
     fst (entry_counts (global_cache (shared s))) \<le> 1"
proof -
  obtain s where s: "text_execs mono_shape
      [OpenWindow 0, LayoutLine 0 [97] 1 [] None None, LayoutLine 0 [98] 1 [] None None] (sys_new 1 0) = Some s"
    by (auto simp: in_window_def split_beta)
  from cache_size [OF s] s show ?thesis by auto
qed

text \<open>
  The cache is emptied to its watermark by dropping the entries that were not used for longest: as many stay as the watermark says,
  and none that stays was used before one that goes.
\<close>

theorem evict_spec:
  assumes "distinct (map fst es)"
  shows "length (evict_to_watermark n es) = min n (length es) \<and> set (evict_to_watermark n es) \<subseteq> set es \<and>
    (\<forall>(k, e) \<in> set es - set (evict_to_watermark n es). \<forall>(k', e') \<in> set (evict_to_watermark n es). last_access e \<le> last_access e')"
proof -
  have "set (evict_to_watermark n es) \<subseteq> set es" unfolding evict_filter by auto
  with evict_length [OF assms] evict_oldest [OF assms, of _ _ n] show ?thesis by blast
qed

lemma evict_spec_witness:
  "length (evict_to_watermark 1 [(1::nat, \<lparr>ce_value = (), last_access = 7\<rparr>), (2, \<lparr>ce_value = (), last_access = 5\<rparr>)]) = 1"
  using evict_spec [of "[(1::nat, \<lparr>ce_value = (), last_access = 7\<rparr>), (2, \<lparr>ce_value = (), last_access = 5\<rparr>)]" 1] by simp

section \<open>Layouts that are out of date\<close>

text \<open>Events in which no window lays out text.\<close>

fun idle :: "'p text_event \<Rightarrow> bool" where
  "idle AddFonts = True"
| "idle (OpenWindow w) = True"
| "idle (CloseWindow w) = True"
| "idle ev = False"

lemma text_execs_idle:
  "\<forall>ev \<in> set evs. idle ev \<Longrightarrow> \<exists>s'. text_execs shape evs s = Some s' \<and> global_cache (shared s') = global_cache (shared s) \<and>
     font_generation (shared s') = font_generation (shared s) + count_list evs AddFonts"
proof (induction evs arbitrary: s)
  case (Cons ev evs)
  obtain s1 where "text_exec shape ev s = Some s1" "global_cache (shared s1) = global_cache (shared s)"
    "font_generation (shared s1) = font_generation (shared s) + (if ev = AddFonts then 1 else 0)"
    using Cons.prems by (cases ev) (auto simp: advance_font_generation_def)
  with Cons.IH [of s1] Cons.prems show ?case by (auto simp: add.assoc)
qed simp

lemma text_execs_append: "text_execs shape (evs @ evs') s = Option.bind (text_execs shape evs s) (text_execs shape evs')"
  by (induction evs arbitrary: s) (auto split: Option.bind_splits)

lemma new_window_global:
  assumes "map_of (gc_lines (global_cache sh)) (line_key line fs runs fw ls) = Some e"
  shows "fst (layout_line_with_spacing shape line fs runs fw ls (sh, llc_new sh)) = ce_value e"
  using assms
  by (simp add: layout_line_with_spacing_def clear_if_font_generation_changed_def llc_new_def fc_default_def get_line_def Let_def
      flip: line_key_def)

text \<open>
  C20. Layouts of old fonts are served. Take a state that the windows reached in order, in which the cache of the application has a line, laid out with
  the fonts of that time. Then fonts are installed any number of times, and windows opened and closed, but no window lays out text. A window
  that is opened now and lays out the line gets the layout of the old fonts, because it takes the generation of the fonts
  for that of the cache, which nobody has cleared.
\<close>

theorem stale_layout_served:
  assumes "text_trace shape limit (sys_new entries watermark) s" and "in_time s"
    and "map_of (gc_lines (global_cache (shared s))) (line_key line fs runs fw ls) = Some e" and "\<forall>ev \<in> set evs. idle ev"
  shows "\<exists>s' c. text_execs shape (evs @ [OpenWindow w]) s = Some s' \<and> windows s' w = Some c \<and>
    font_generation (shared s') = font_generation (shared s) + count_list evs AddFonts \<and>
    fst (layout_line_with_spacing shape line fs runs fw ls (shared s', c)) =
      shape_line shape (font_generation (shared s)) (line_key line fs runs fw ls)"
proof -
  obtain s1 where s1: "text_execs shape evs s = Some s1" "global_cache (shared s1) = global_cache (shared s)"
    "font_generation (shared s1) = font_generation (shared s) + count_list evs AddFonts"
    using text_execs_idle [OF assms(4)] by blast
  have "global_ok shape limit (font_generation (shared s)) (global_cache (shared s))"
    by (rule in_time_ok [OF text_trace_ok [OF assms(1)] assms(2)])
  then have "ce_value e = shape_line shape (font_generation (shared s)) (line_key line fs runs fw ls)"
    using map_of_SomeD [OF assms(3)] by (auto simp: global_ok_def)
  with s1 new_window_global [of "shared s1" line fs runs fw ls e shape] assms(3) show ?thesis
    by (simp add: text_execs_append)
qed

text \<open>With fonts that get wider, the second window gets the old width.\<close>

definition wider_shape :: "rat shaper" where
  "wider_shape generation line font_size runs = mono_layout (generation + length line)"

lemma stale_layout_served_witness:
  "\<exists>s c. text_execs wider_shape [OpenWindow 0, LayoutLine 0 [97] 1 [] None None, AddFonts, OpenWindow 1] (sys_new 8 4) = Some s \<and>
     windows s 1 = Some c \<and> ll_width (fst (layout_line_with_spacing wider_shape [97] 1 [] None None (shared s, c))) = 1 \<and>
     ll_width (shape_line wider_shape (font_generation (shared s)) (line_key [97] 1 [] None None)) = 2"
proof -
  let ?s0 = "sys_new 8 4 :: rat text_sys" and ?key = "line_key [97] 1 [] None None :: rat cache_key"
  define s1 where "s1 = ?s0\<lparr>windows := [0 \<mapsto> llc_new (shared ?s0)]\<rparr>"
  obtain s2 where s2: "text_exec wider_shape (LayoutLine 0 [97] 1 [] None None) s1 = Some s2"
    by (auto simp: in_window_def s1_def case_prod_unfold)
  have e1: "text_exec wider_shape (OpenWindow 0) ?s0 = Some s1" by (simp add: s1_def sys_new_def)
  have "text_trace wider_shape (\<lambda>_. None) ?s0 s1"
    by (rule text_trace.step [OF text_trace.start _ e1]) (simp add: allowed_def in_time_def sys_new_def gc_new_def)
  then have trace: "text_trace wider_shape (\<lambda>_. None) ?s0 s2" by (rule text_trace.step [OF _ _ s2]) (simp add: allowed_def)
  note defs = s1_def in_window_def layout_line_with_spacing_def clear_if_font_generation_changed_def llc_new_def fc_default_def
    get_line_def insert_line_def insert_entry_def gc_new_def sys_new_def use_line_def Let_def
  from s2 obtain e where cached: "map_of (gc_lines (global_cache (shared s2))) ?key = Some e" and g: "font_generation (shared s2) = 0"
    and t: "in_time s2"
    by (auto simp: defs line_key_def in_time_def)
  have "\<forall>ev \<in> set [AddFonts]. idle ev" by simp
  from stale_layout_served [OF trace t cached this, of 1] obtain s c where "text_execs wider_shape [AddFonts, OpenWindow 1] s2 = Some s"
    "windows s 1 = Some c" "font_generation (shared s) = 1"
    "fst (layout_line_with_spacing wider_shape [97] 1 [] None None (shared s, c)) = shape_line wider_shape 0 ?key"
    by (auto simp: g)
  moreover have "ll_width (shape_line wider_shape n ?key) = of_nat (n + 1)" for n
    by (simp add: shape_line_def wider_shape_def line_key_def mono_layout_def)
  ultimately show ?thesis using e1 s2 by simp
qed

lemma clear_cached:
  "clear_if_font_generation_changed st = (g, sh, c) \<Longrightarrow> cached_font_generation c = font_generation sh"
  by (auto simp: clear_if_font_generation_changed_def split: prod.splits if_splits)

lemma layout_line_cached:
  "layout_line_with_spacing shape line fs runs fw ls st = (l, sh, c) \<Longrightarrow> cached_font_generation c = font_generation sh"
  by (auto simp: layout_line_with_spacing_def Let_def split: prod.split_asm option.split_asm dest: clear_cached)

lemma layout_wrapped_stored:
  assumes "layout_wrapped_line shape line fs runs width ml st = Some (l, sh, c)"
  shows "cached_font_generation c = font_generation sh \<and>
    fc_wrapped_lines (current_frame c) (wrapped_key line fs runs width) = Some l"
proof -
  let ?key = "wrapped_key line fs runs width"
  obtain g sh' c' where clear: "clear_if_font_generation_changed st = (g, sh', c')"
    by (cases "clear_if_font_generation_changed st")
  obtain r gc where get: "get_wrapped_line ?key (global_cache sh') = (r, gc)" by fastforce
  obtain u sh3 c3 where ll: "layout_line shape line fs runs None (sh'\<lparr>global_cache := gc\<rparr>, c') = (u, sh3, c3)"
    by (cases "layout_line shape line fs runs None (sh'\<lparr>global_cache := gc\<rparr>, c')")
  note result = assms [unfolded layout_wrapped_line_def clear Let_def prod.case wrapped_key_def [symmetric]]
  show ?thesis
    using result clear_cached [OF clear] layout_line_cached [OF ll [unfolded layout_line_def]]
    by (auto simp: get ll use_wrapped_line_def bind_eq_Some_conv split: option.split_asm)
qed

text \<open>
  C21. The limit of rows is not part of the key of a wrapped line: a line that was laid out with one limit is returned for every other limit
  right after, with the boundaries of the first.
\<close>

theorem row_limit_ignored:
  assumes "layout_wrapped_line shape line fs runs width ml st = Some (l, st')"
  shows "layout_wrapped_line shape line fs runs width ml' st' = Some (l, st')"
proof -
  obtain sh c where st': "st' = (sh, c)" by fastforce
  from layout_wrapped_stored [OF assms [unfolded st']] show ?thesis
    by (simp add: st' layout_wrapped_line_def clear_if_font_generation_changed_def Let_def flip: wrapped_key_def)
qed

text \<open>The line \<open>a b\<close> at width one has three rows; after it was laid out with one row it has one row without a limit too.\<close>

lemma row_limit_ignored_witness:
  "map_option (length \<circ> wrap_boundaries) (fresh_wrapped mono_shape 0 (wrapped_key [97, 32, 98] 1 [] (Some 1)) None) = Some 2 \<and>
   (\<exists>st l. layout_wrapped_line mono_shape [97, 32, 98] 1 [] (Some 1) None st = Some (l, st) \<and> wrap_boundaries l = [])"
proof -
  let ?st = "(shared (sys_new 8 4), llc_new (shared (sys_new 8 4)))"
  have fresh: "map_option (length \<circ> wrap_boundaries) (fresh_wrapped mono_shape 0 (wrapped_key [97, 32, 98] 1 [] (Some 1)) None) = Some 2"
    by code_simp
  have "window_ok mono_shape (\<lambda>_. Some 1) (fst ?st) (snd ?st)"
    by (simp add: window_ok_def sys_new_def llc_new_def global_ok_def gc_new_def Let_def)
  from layout_wrapped_current(1) [OF this, of "[97, 32, 98]" 1 "[]" "Some 1"]
  have eq: "map_option fst (layout_wrapped_line mono_shape [97, 32, 98] 1 [] (Some 1) (Some 1) ?st) =
      fresh_wrapped mono_shape 0 (wrapped_key [97, 32, 98] 1 [] (Some 1)) (Some 1)"
    by (simp add: sys_new_def)
  have "map_option wrap_boundaries (map_option fst (layout_wrapped_line mono_shape [97, 32, 98] 1 [] (Some 1) (Some 1) ?st)) =
      map_option wrap_boundaries (fresh_wrapped mono_shape 0 (wrapped_key [97, 32, 98] 1 [] (Some 1)) (Some 1))"
    unfolding eq ..
  also have "\<dots> = Some []" by code_simp
  finally obtain l st' where "layout_wrapped_line mono_shape [97, 32, 98] 1 [] (Some 1) (Some 1) ?st = Some (l, st')"
    "wrap_boundaries l = []"
    by auto
  with row_limit_ignored [of mono_shape "[97, 32, 98]" 1 "[]" "Some 1" "Some 1" ?st l st' None] fresh show ?thesis by blast
qed

end
