(* ===== verification/Shape_Text.thy ===== *)
theory Shape_Text
  imports Text_Caches
begin

text \<open>
  The text system, \<open>crates/gpui/src/text_system.rs\<close>: the resolution of fonts through a cache and a stack of fallbacks, the pool of
  line wrappers, the bounds of rastered glyphs, and the shaping of text of several lines, which divides the runs of the text among its lines. The functions
  of the platform are arguments. A panic is \<open>None\<close>, also that of an addition that overflows:
  lengths in bytes are \<open>usize\<close>, numbers up to \<open>usize_max\<close>, and those of decoration runs are \<open>u32\<close> words.

  The theory shows that a wrapper from the pool is as good as new, that every byte of a line keeps its decoration, for which runs it keeps its font, that shaping
  without a width returns, and what goes wrong: runs of equal decoration lose their own font, and a cached line can make the count of rows underflow.
\<close>

section \<open>Fonts\<close>

text \<open>\<open>font_ids_by_font\<close>: what the platform answered for a font, an error included.\<close>

type_synonym 'f font_ids = "'f \<rightharpoonup> font_id option"

definition ts_font_id :: "('f \<Rightarrow> font_id option) \<Rightarrow> 'f \<Rightarrow> 'f font_ids \<Rightarrow> font_id option \<times> 'f font_ids" where
  "ts_font_id platform font ids =
     (case ids font of
        Some font_id \<Rightarrow> (font_id, ids)
      | None \<Rightarrow> (platform font, ids(font \<mapsto> platform font)))"

fun resolve_fallback :: "('f \<Rightarrow> font_id option) \<Rightarrow> 'f list \<Rightarrow> 'f font_ids \<Rightarrow> (font_id \<times> 'f font_ids) option" where
  "resolve_fallback platform [] ids = None"
| "resolve_fallback platform (fallback # stack) ids =
     (case ts_font_id platform fallback ids of
        (Some font_id, ids) \<Rightarrow> Some (font_id, ids)
      | (None, ids) \<Rightarrow> resolve_fallback platform stack ids)"

definition resolve_font ::
  "('f \<Rightarrow> font_id option) \<Rightarrow> 'f list \<Rightarrow> 'f \<Rightarrow> 'f font_ids \<Rightarrow> (font_id \<times> 'f font_ids) option" where
  "resolve_font platform fallback_font_stack font ids =
     (case ts_font_id platform font ids of
        (Some font_id, ids) \<Rightarrow> Some (font_id, ids)
      | (None, ids) \<Rightarrow> resolve_fallback platform fallback_font_stack ids)"

section \<open>The text system\<close>

text \<open>
  The state that the windows share: the caches of layouts, the answers of the platform for fonts, the wrappers that are not in use, by font and
  size, and the bounds of rastered glyphs.
\<close>

type_synonym 'p wrapper_pool = "(font_id \<times> 'p) \<rightharpoonup> 'p line_wrapper list"

record ('p, 'f, 'g, 'b) text_system =
  ts_shared :: "'p text_shared"
  font_ids_by_font :: "'f font_ids"
  ts_wrapper_pool :: "'p wrapper_pool"
  ts_raster_bounds :: "('g \<times> 'b) list"
  raster_bounds_max_entries :: "nat option"

text \<open>A wrapper leaves the pool with its handle and goes back when the handle is dropped.\<close>

definition ts_line_wrapper ::
  "('f \<Rightarrow> font_id option) \<Rightarrow> 'f list \<Rightarrow> 'p line_width \<Rightarrow> 'f \<Rightarrow> 'p \<Rightarrow> ('p, 'f, 'g, 'b) text_system \<Rightarrow>
     ('p line_wrapper \<times> ('p, 'f, 'g, 'b) text_system) option" where
  "ts_line_wrapper platform fallback_font_stack lwidth font font_size ts =
     do {
       (font_id, ids) \<leftarrow> resolve_font platform fallback_font_stack font (font_ids_by_font ts);
       let wrappers = (case ts_wrapper_pool ts (font_id, font_size) of Some ws \<Rightarrow> ws | None \<Rightarrow> []);
       let (wrapper, wrappers) = (if wrappers = [] then (lw_new font_id font_size lwidth, []) else (last wrappers, butlast wrappers));
       Some (wrapper, ts\<lparr>font_ids_by_font := ids, ts_wrapper_pool := (ts_wrapper_pool ts)((font_id, font_size) \<mapsto> wrappers)\<rparr>)
     }"

definition wrapper_handle_drop ::
  "'p line_wrapper \<Rightarrow> ('p, 'f, 'g, 'b) text_system \<Rightarrow> ('p, 'f, 'g, 'b) text_system option" where
  "wrapper_handle_drop wrapper ts =
     (case ts_wrapper_pool ts (lw_font_id wrapper, lw_font_size wrapper) of
        None \<Rightarrow> None
      | Some wrappers \<Rightarrow>
          Some (ts\<lparr>ts_wrapper_pool := (ts_wrapper_pool ts)((lw_font_id wrapper, lw_font_size wrapper) \<mapsto> wrappers @ [wrapper])\<rparr>))"

text \<open>The bounds of glyphs are emptied when they are full. The platform may fail.\<close>

definition raster_bounds ::
  "('g \<Rightarrow> ('b, 'e) result) \<Rightarrow> 'g \<Rightarrow> ('p, 'f, 'g, 'b) text_system \<Rightarrow> ('b, 'e) result \<times> ('p, 'f, 'g, 'b) text_system" where
  "raster_bounds glyph_raster_bounds params ts =
     (case map_of (ts_raster_bounds ts) params of
        Some b \<Rightarrow> (Inr b, ts)
      | None \<Rightarrow>
          (let ts = (case raster_bounds_max_entries ts of
                       Some m \<Rightarrow> (if length (ts_raster_bounds ts) \<ge> m then ts\<lparr>ts_raster_bounds := []\<rparr> else ts)
                     | None \<Rightarrow> ts)
           in case glyph_raster_bounds params of
                Inl e \<Rightarrow> (Inl e, ts)
              | Inr b \<Rightarrow> (Inr b, ts\<lparr>ts_raster_bounds := AList.update params b (ts_raster_bounds ts)\<rparr>)))"

text \<open>The platform installs fonts or fails; \<open>installed\<close> is its answer.\<close>

definition add_fonts :: "(unit, 'e) result \<Rightarrow> ('p, 'f, 'g, 'b) text_system \<Rightarrow> (('p, 'f, 'g, 'b) text_system, 'e) result" where
  "add_fonts installed ts =
     (case installed of
        Inl e \<Rightarrow> Inl e
      | Inr _ \<Rightarrow> Inr (ts\<lparr>font_ids_by_font := Map.empty, ts_shared := advance_font_generation (ts_shared ts)\<rparr>))"

definition clear_layout_cache :: "('p, 'f, 'g, 'b) text_system \<Rightarrow> ('p, 'f, 'g, 'b) text_system" where
  "clear_layout_cache ts = ts\<lparr>ts_shared := clear_line_layouts (ts_shared ts), ts_raster_bounds := []\<rparr>"

definition layout_cache_stats :: "('p, 'f, 'g, 'b) text_system \<Rightarrow> nat \<times> nat \<times> nat" where
  "layout_cache_stats ts =
     (let (lines, wrapped) = entry_counts (global_cache (ts_shared ts)) in (lines, wrapped, length (ts_raster_bounds ts)))"

section \<open>Runs\<close>

text \<open>A run of a text with its font and decoration, and a run of a line with decoration only.\<close>

record decoration =
  d_color :: nat
  d_background_color :: "nat option"
  d_underline :: "nat option"
  d_strikethrough :: "nat option"

record 'f styled_run =
  sr_len :: nat
  sr_font :: 'f
  sr_decoration :: decoration

record decoration_run =
  dr_len :: "32 word"
  dr_decoration :: decoration

text \<open>Checked additions of \<open>usize\<close> and \<open>u32\<close>. (The sum is compared as an integer, which computes fast.)\<close>

definition usize_max :: nat where
  "usize_max = 2 ^ 64 - 1"

definition usize_add :: "nat \<Rightarrow> nat \<Rightarrow> nat option" where
  "usize_add a b = (if int a + int b < 18446744073709551616 then Some (a + b) else None)"

definition u32_add :: "32 word \<Rightarrow> 32 word \<Rightarrow> 32 word option" where
  "u32_add a b = (if unat a + unat b < 2 ^ 32 then Some (a + b) else None)"

text \<open>
  The decoration runs: neighbours that look the same are joined. A length is cut to 32 bits (\<open>as u32\<close>). The result tells whether a new run was begun.
\<close>

definition push_decoration :: "nat \<Rightarrow> decoration \<Rightarrow> decoration_run list \<Rightarrow> (bool \<times> decoration_run list) option" where
  "push_decoration len d drs =
     (if drs \<noteq> [] \<and> dr_decoration (last drs) = d
      then map_option (\<lambda>n. (False, butlast drs @ [(last drs)\<lparr>dr_len := n\<rparr>])) (u32_add (dr_len (last drs)) (of_nat len))
      else Some (True, drs @ [\<lparr>dr_len = of_nat len, dr_decoration = d\<rparr>]))"

text \<open>The decoration runs of \<open>shape_line_with_spacing\<close>.\<close>

fun line_decoration_runs :: "decoration_run list \<Rightarrow> 'f styled_run list \<Rightarrow> decoration_run list option" where
  "line_decoration_runs drs [] = Some drs"
| "line_decoration_runs drs (run # runs) =
     do {
       (_, drs) \<leftarrow> push_decoration (sr_len run) (sr_decoration run) drs;
       line_decoration_runs drs runs
     }"

text \<open>A font run is prolonged if the last one has the last font and the decoration is unchanged; the font of the run is not looked at.\<close>

definition push_font ::
  "('f \<Rightarrow> 'c \<Rightarrow> (font_id \<times> 'c) option) \<Rightarrow> nat \<Rightarrow> 'f \<Rightarrow> bool \<Rightarrow> font_run list \<times> font_id option \<times> 'c \<Rightarrow>
     (font_run list \<times> font_id option \<times> 'c) option" where
  "push_font resolve len font decoration_changed = (\<lambda>(frs, last_font, ids).
     if frs \<noteq> [] \<and> Some (fr_font_id (last frs)) = last_font \<and> \<not> decoration_changed
     then map_option (\<lambda>n. (butlast frs @ [(last frs)\<lparr>fr_len := n\<rparr>], last_font, ids)) (usize_add (fr_len (last frs)) len)
     else do {
       (font_id, ids) \<leftarrow> resolve font ids;
       Some (frs @ [\<lparr>fr_len = len, fr_font_id = font_id\<rparr>], Some font_id, ids)
     })"

text \<open>
  The font runs of a single line (\<open>WindowTextSystem::layout_line_with_spacing\<close>), where the background does not count as
  decoration.
\<close>

definition same_line_decoration :: "decoration \<Rightarrow> decoration \<Rightarrow> bool" where
  "same_line_decoration a b \<longleftrightarrow>
     d_color a = d_color b \<and> d_underline a = d_underline b \<and> d_strikethrough a = d_strikethrough b"

fun line_font_runs ::
  "('f \<Rightarrow> 'c \<Rightarrow> (font_id \<times> 'c) option) \<Rightarrow> decoration option \<Rightarrow> font_run list \<times> font_id option \<times> 'c \<Rightarrow> 'f styled_run list \<Rightarrow>
     (font_run list \<times> 'c) option" where
  "line_font_runs resolve last_run (frs, last_font, ids) [] = Some (frs, ids)"
| "line_font_runs resolve last_run (frs, last_font, ids) (run # runs) =
     (let d = sr_decoration run;
          same = (case last_run of Some r \<Rightarrow> same_line_decoration r d | None \<Rightarrow> False);
          last_run = (if same then last_run else Some d)
      in do {
           (frs, last_font, ids) \<leftarrow> push_font resolve (sr_len run) (sr_font run) (\<not> same) (frs, last_font, ids);
           line_font_runs resolve last_run (frs, last_font, ids) runs
         })"

definition window_layout_line ::
  "('p::linordered_field) shaper \<Rightarrow> ('f \<Rightarrow> 'c \<Rightarrow> (font_id \<times> 'c) option) \<Rightarrow> uchar list \<Rightarrow> 'p \<Rightarrow> 'f styled_run list \<Rightarrow> 'p option \<Rightarrow> 'p option \<Rightarrow>
     'c \<Rightarrow> 'p text_shared \<times> 'p line_layout_cache \<Rightarrow> ('p line_layout \<times> 'c \<times> 'p text_shared \<times> 'p line_layout_cache) option" where
  "window_layout_line shape resolve line font_size runs force_width letter_spacing ids st =
     do {
       (frs, ids) \<leftarrow> line_font_runs resolve None ([], None, ids) runs;
       let (layout, st) = layout_line_with_spacing shape line font_size frs force_width letter_spacing st;
       Some (layout, ids, st)
     }"

section \<open>Text of several lines\<close>

record 'p wrapped_line =
  wrl_layout :: "'p wrapped_line_layout"
  wrl_decoration_runs :: "decoration_run list"
  wrl_text :: "uchar list"

text \<open>\<open>text.split('\n')\<close>\<close>

fun split_lines :: "uchar list \<Rightarrow> uchar list list" where
  "split_lines [] = [[]]"
| "split_lines (c # s) =
     (if c = 10 then [] # split_lines s
      else case split_lines s of l # ls \<Rightarrow> (c # l) # ls | [] \<Rightarrow> [[c]])"

text \<open>The loop that takes the runs of a line off the runs of the text.\<close>

function line_runs_loop ::
  "('f \<Rightarrow> 'c \<Rightarrow> (font_id \<times> 'c) option) \<Rightarrow> nat \<Rightarrow> nat \<Rightarrow> 'f styled_run list \<Rightarrow> decoration_run list \<Rightarrow> font_run list \<times> font_id option \<times> 'c \<Rightarrow>
     ('f styled_run list \<times> decoration_run list \<times> font_run list \<times> font_id option \<times> 'c) option" where
  "line_runs_loop resolve run_start line_end runs drs fonts =
     (if run_start < line_end then
        case runs of
          [] \<Rightarrow> Some (runs, drs, fonts)
        | run # rest \<Rightarrow>
            do {
              run_end \<leftarrow> usize_add run_start (sr_len run);
              let run_len_within_line = min line_end run_end - run_start;
              (decoration_changed, drs) \<leftarrow> push_decoration run_len_within_line (sr_decoration run) drs;
              fonts \<leftarrow> push_font resolve run_len_within_line (sr_font run) decoration_changed fonts;
              let runs = (if run_len_within_line = sr_len run then rest
                          else run\<lparr>sr_len := sr_len run - run_len_within_line\<rparr> # rest);
              line_runs_loop resolve (run_start + run_len_within_line) line_end runs drs fonts
            }
      else Some (runs, drs, fonts))"
  by pat_completeness auto
termination
  by (relation "measure (\<lambda>(_, run_start, line_end, runs, _). length runs + (if run_start < line_end then 1 else 0))")
    (auto simp: min_def usize_add_def split: if_splits)

declare line_runs_loop.simps [simp del]

text \<open>After a line its line break is taken off the next run.\<close>

definition skip_newline :: "'f styled_run list \<Rightarrow> 'f styled_run list option" where
  "skip_newline runs =
     (case runs of
        [] \<Rightarrow> Some []
      | run # rest \<Rightarrow>
          do {
            n \<leftarrow> usize_sub (sr_len run) 1;
            Some (if n = 0 then rest else run\<lparr>sr_len := n\<rparr> # rest)
          })"

text \<open>The variables of \<open>shape_text\<close> that \<open>process_line\<close> changes.\<close>

record ('p, 'f, 'c) shape_state =
  ss_runs :: "'f styled_run list"
  ss_lines :: "'p wrapped_line list"
  line_start :: nat
  wrapped_lines :: nat
  ss_ids :: 'c
  ss_caches :: "'p text_shared \<times> 'p line_layout_cache"

definition process_line ::
  "('p::linordered_field) shaper \<Rightarrow> ('f \<Rightarrow> 'c \<Rightarrow> (font_id \<times> 'c) option) \<Rightarrow> 'p \<Rightarrow> 'p option \<Rightarrow> nat \<Rightarrow> uchar list \<Rightarrow>
     ('p, 'f, 'c) shape_state \<Rightarrow> ('p, 'f, 'c) shape_state option" where
  "process_line shape resolve font_size width max_wrap_lines line s =
     do {
       line_end \<leftarrow> usize_add (line_start s) (str_len line);
       (runs, drs, frs, last_font, ids) \<leftarrow> line_runs_loop resolve (line_start s) line_end (ss_runs s) [] ([], None, ss_ids s);
       rows \<leftarrow> usize_sub max_wrap_lines (wrapped_lines s);
       (layout, caches) \<leftarrow> layout_wrapped_line shape line font_size frs width (Some rows) (ss_caches s);
       wrapped \<leftarrow> usize_add (wrapped_lines s) (length (wrap_boundaries layout));
       next_start \<leftarrow> usize_add line_end 1;
       runs \<leftarrow> skip_newline runs;
       Some \<lparr>ss_runs = runs, ss_lines = ss_lines s @ [\<lparr>wrl_layout = layout, wrl_decoration_runs = drs, wrl_text = line\<rparr>],
             line_start = next_start, wrapped_lines = wrapped, ss_ids = ids, ss_caches = caches\<rparr>
     }"

fun process_lines ::
  "('p::linordered_field) shaper \<Rightarrow> ('f \<Rightarrow> 'c \<Rightarrow> (font_id \<times> 'c) option) \<Rightarrow> 'p \<Rightarrow> 'p option \<Rightarrow> nat \<Rightarrow> uchar list list \<Rightarrow>
     ('p, 'f, 'c) shape_state \<Rightarrow> ('p, 'f, 'c) shape_state option" where
  "process_lines shape resolve font_size width m [] s = Some s"
| "process_lines shape resolve font_size width m (l # ls) s =
     Option.bind (process_line shape resolve font_size width m l s) (process_lines shape resolve font_size width m ls)"

definition shape_text ::
  "('p::linordered_field) shaper \<Rightarrow> ('f \<Rightarrow> 'c \<Rightarrow> (font_id \<times> 'c) option) \<Rightarrow> uchar list \<Rightarrow> 'p \<Rightarrow> 'f styled_run list \<Rightarrow> 'p option \<Rightarrow> nat option \<Rightarrow>
     'c \<Rightarrow> 'p text_shared \<times> 'p line_layout_cache \<Rightarrow> ('p wrapped_line list \<times> 'c \<times> 'p text_shared \<times> 'p line_layout_cache) option" where
  "shape_text shape resolve txt font_size runs width line_clamp ids st =
     (let s = \<lparr>ss_runs = filter (\<lambda>run. sr_len run > 0) runs, ss_lines = [], line_start = 0, wrapped_lines = 0,
               ss_ids = ids, ss_caches = st\<rparr>;
          max_wrap_lines = (case line_clamp of Some n \<Rightarrow> n | None \<Rightarrow> usize_max);
          ls = (case split_lines txt of
                  first_line # second_line # rest \<Rightarrow> first_line # second_line # rest
                | _ \<Rightarrow> [txt])
      in map_option (\<lambda>s. (ss_lines s, ss_ids s, ss_caches s)) (process_lines shape resolve font_size width max_wrap_lines ls s))"

section \<open>Resolving fonts\<close>

definition font_ids_ok :: "('f \<Rightarrow> font_id option) \<Rightarrow> 'f font_ids \<Rightarrow> bool" where
  "font_ids_ok platform ids \<longleftrightarrow> (\<forall>font r. ids font = Some r \<longrightarrow> r = platform font)"

text \<open>The first of the font and its fallbacks that the platform has.\<close>

definition first_font :: "('f \<Rightarrow> font_id option) \<Rightarrow> 'f list \<Rightarrow> font_id option" where
  "first_font platform fonts = (case find (\<lambda>f. platform f \<noteq> None) fonts of None \<Rightarrow> None | Some f \<Rightarrow> platform f)"

lemma ts_font_id_ok:
  "font_ids_ok platform ids \<Longrightarrow> fst (ts_font_id platform font ids) = platform font \<and> font_ids_ok platform (snd (ts_font_id platform font ids))"
  by (auto simp: font_ids_ok_def ts_font_id_def split: option.splits)

lemma resolve_fallback_ok:
  "font_ids_ok platform ids \<Longrightarrow>
     map_option fst (resolve_fallback platform fonts ids) = first_font platform fonts \<and>
     (\<forall>r. resolve_fallback platform fonts ids = Some r \<longrightarrow> font_ids_ok platform (snd r))"
proof (induction fonts arbitrary: ids)
  case (Cons f fonts)
  obtain r ids' where id: "ts_font_id platform f ids = (r, ids')" by fastforce
  with ts_font_id_ok [OF Cons.prems, of f] have "r = platform f" "font_ids_ok platform ids'" by simp_all
  with Cons.IH [of ids'] id show ?case by (cases r) (auto simp: first_font_def)
qed (simp add: first_font_def)

lemma resolve_font_ok:
  assumes "font_ids_ok platform ids"
  shows "map_option fst (resolve_font platform stack font ids) = first_font platform (font # stack) \<and>
    (\<forall>r. resolve_font platform stack font ids = Some r \<longrightarrow> font_ids_ok platform (snd r))"
  using resolve_fallback_ok [OF assms, of "font # stack"] by (simp add: resolve_font_def)

text \<open>
  What shaping needs of the resolution of fonts: its answers depend on the font only, whatever was asked before.
\<close>

locale font_resolver =
  fixes resolve :: "'f \<Rightarrow> 'c \<Rightarrow> (font_id \<times> 'c) option" and ids_inv :: "'c \<Rightarrow> bool" and font_of :: "'f \<Rightarrow> font_id option"
  assumes resolve_some: "ids_inv ids \<Longrightarrow> resolve font ids = Some (i, ids') \<Longrightarrow> font_of font = Some i \<and> ids_inv ids'"
    and resolve_none: "ids_inv ids \<Longrightarrow> resolve font ids = None \<Longrightarrow> font_of font = None"

interpretation font_ids: font_resolver "resolve_font platform stack" "font_ids_ok platform" "\<lambda>font. first_font platform (font # stack)"
  for platform stack
proof unfold_locales
  fix ids font i ids'
  assume "font_ids_ok platform ids" and "resolve_font platform stack font ids = Some (i, ids')"
  with resolve_font_ok [of platform ids stack font] show "first_font platform (font # stack) = Some i \<and> font_ids_ok platform ids'"
    by (metis fst_conv option.simps(9) snd_conv)
next
  fix ids font
  assume "font_ids_ok platform ids" and "resolve_font platform stack font ids = None"
  with resolve_font_ok [of platform ids stack font] show "first_font platform (font # stack) = None" by simp
qed

section \<open>Wrappers\<close>

text \<open>Wrapping changes the caches of a wrapper only.\<close>

definition wrapper_key :: "'p line_wrapper \<Rightarrow> font_id \<times> 'p \<times> 'p line_width" where
  "wrapper_key lw = (lw_font_id lw, lw_font_size lw, platform_text_system lw)"

lemma width_for_char_key [simp]: "wrapper_key (snd (width_for_char lw c)) = wrapper_key lw"
  by (auto simp: width_for_char_def wrapper_key_def Let_def split: option.splits)

lemma compute_next_indent_key [simp]: "wrapper_key (snd (compute_next_indent W adj carried base lw)) = wrapper_key lw"
  by (auto simp: compute_next_indent_def Let_def case_prod_unfold split: indent_adjustment.splits option.splits)

lemma wrap_item_key [simp]: "wrapper_key (fst (snd (wrap_item W adj ix w p lw s))) = wrapper_key lw"
  by (simp add: wrap_item_def wrap_break_def Let_def case_prod_unfold)

lemma wrap_step_key [simp]: "wrapper_key (fst (snd (wrap_step W adj c lw s))) = wrapper_key lw"
  by (cases c) (simp_all add: Let_def case_prod_unfold)

lemma wrap_line_key [simp]: "wrapper_key (snd (wrap_line lw fragments W adj)) = wrapper_key lw"
proof -
  have "wrapper_key (snd (wrap_collect W adj cs lw s)) = wrapper_key lw" for cs s
    by (induction cs arbitrary: lw s) (simp_all add: wrap_collect.simps [of _ _ "[]"] wrap_collect_Cons case_prod_unfold)
  then show ?thesis by (simp add: wrap_line_def)
qed

text \<open>The pool has every wrapper under its font and size, with widths that are right.\<close>

definition pool_ok :: "'p line_width \<Rightarrow> 'p wrapper_pool \<Rightarrow> bool" where
  "pool_ok lwidth pool \<longleftrightarrow>
     (\<forall>i fs ws lw. pool (i, fs) = Some ws \<and> lw \<in> set ws \<longrightarrow> wrapper_key lw = (i, fs, lwidth) \<and> cache_ok lw)"

lemma ts_line_wrapper_ok:
  assumes "pool_ok lwidth (ts_wrapper_pool ts)" and "font_ids_ok platform (font_ids_by_font ts)"
    and "first_font platform (font # stack) = Some i"
  obtains lw ts' ws where "ts_line_wrapper platform stack lwidth font fs ts = Some (lw, ts')"
    and "wrapper_key lw = (i, fs, lwidth)" and "cache_ok lw" and "pool_ok lwidth (ts_wrapper_pool ts')"
    and "ts_wrapper_pool ts' (i, fs) = Some ws" and "font_ids_ok platform (font_ids_by_font ts')"
proof -
  from resolve_font_ok [OF assms(2), of stack font] assms(3) obtain ids where
    r: "resolve_font platform stack font (font_ids_by_font ts) = Some (i, ids)" "font_ids_ok platform ids"
    by auto
  define ws where "ws = (case ts_wrapper_pool ts (i, fs) of Some ws \<Rightarrow> ws | None \<Rightarrow> [])"
  define lw where "lw = (if ws = [] then lw_new i fs lwidth else last ws)"
  define ts' where "ts' = ts\<lparr>font_ids_by_font := ids, ts_wrapper_pool := (ts_wrapper_pool ts)((i, fs) \<mapsto> butlast ws)\<rparr>"
  have ws: "wrapper_key w = (i, fs, lwidth) \<and> cache_ok w" if "w \<in> set ws" for w
    using that assms(1) by (cases "ts_wrapper_pool ts (i, fs)") (auto simp: ws_def pool_ok_def)
  have "ts_line_wrapper platform stack lwidth font fs ts = Some (lw, ts')"
    using r(1) by (simp add: ts_line_wrapper_def lw_def ts'_def Let_def flip: ws_def)
  moreover have "wrapper_key lw = (i, fs, lwidth) \<and> cache_ok lw"
    using ws by (auto simp: lw_def cache_ok_new) (simp add: wrapper_key_def lw_new_def)
  moreover have "pool_ok lwidth (ts_wrapper_pool ts')"
    using assms(1) ws by (auto simp: pool_ok_def ts'_def dest: in_set_butlastD)
  ultimately show ?thesis using that r(2) by (simp add: ts'_def)
qed

lemma wrapper_handle_drop_ok:
  assumes "pool_ok lwidth (ts_wrapper_pool ts)" and "wrapper_key lw = (i, fs, lwidth)" and "cache_ok lw"
    and "ts_wrapper_pool ts (i, fs) = Some ws"
  shows "\<exists>ts'. wrapper_handle_drop lw ts = Some ts' \<and> pool_ok lwidth (ts_wrapper_pool ts') \<and> font_ids_by_font ts' = font_ids_by_font ts"
  using assms by (auto simp: wrapper_handle_drop_def pool_ok_def wrapper_key_def)

lemma width_for_char_same:
  assumes "cache_ok lw" and "width_for_char lw c = (w, lw')"
  shows "cache_ok lw' \<and> wrapper_key lw' = wrapper_key lw"
proof -
  have "measures lw (compute_width_for_char lw)" using assms(1) by (simp add: measures_def)
  then obtain lw'' where "width_for_char lw c = (compute_width_for_char lw c, lw'')" "measures lw'' (compute_width_for_char lw)"
    by (rule width_for_char_measures)
  with assms(2) width_for_char_key [of lw c] show ?thesis by (simp add: measures_def)
qed

lemma suffix_width_loop_same:
  "cache_ok lw \<Longrightarrow> suffix_width_loop lw a cs = (w, lw') \<Longrightarrow> cache_ok lw' \<and> wrapper_key lw' = wrapper_key lw"
proof (induction cs arbitrary: lw a)
  case (Cons c cs)
  obtain x lw1 where 1: "width_for_char lw c = (x, lw1)" by fastforce
  with width_for_char_same [OF Cons.prems(1) 1] Cons.IH [of lw1 "a + x"] Cons.prems(2) show ?case by simp
qed simp

lemma truncate_loop_same:
  "cache_ok lw \<Longrightarrow> truncate_loop T sw kept w seen cs lw = (r, lw') \<Longrightarrow> cache_ok lw' \<and> wrapper_key lw' = wrapper_key lw"
proof (induction cs arbitrary: lw kept w seen)
  case (Cons c cs)
  obtain x lw1 where 1: "width_for_char lw c = (x, lw1)" by fastforce
  show ?case
  proof (cases "of_int \<lfloor>w + x\<rfloor> > T")
    case True
    with width_for_char_same [OF Cons.prems(1) 1] Cons.prems(2) 1 show ?thesis by (simp add: Let_def)
  next
    case False
    with width_for_char_same [OF Cons.prems(1) 1] Cons.IH [of lw1] Cons.prems(2) 1 show ?thesis by (simp add: Let_def)
  qed
qed simp

lemma truncate_line_same:
  assumes "cache_ok lw" and "truncate_line lw line T sfx runs = (result, runs', lw')"
  shows "cache_ok lw' \<and> wrapper_key lw' = wrapper_key lw"
proof -
  obtain sw lw1 where 1: "suffix_width_loop lw 0 sfx = (sw, lw1)" by fastforce
  obtain r lw2 where 2: "truncate_loop T sw [] 0 [] line lw1 = (r, lw2)" by fastforce
  have "lw' = lw2" using assms(2) 1 2 by (cases r) (auto simp: truncate_line_def Let_def)
  with suffix_width_loop_same [OF assms(1) 1] truncate_loop_same [OF _ 2] show ?thesis by simp
qed

text \<open>
  The use of wrappers while no fonts are installed: taking a handle, wrapping and truncating lines with it, dropping it, resolving fonts, and
  operations on the other parts of the text system. The state has the text system and the wrappers of the handles in use.
\<close>

inductive pool_step ::
  "('f \<Rightarrow> font_id option) \<Rightarrow> 'f list \<Rightarrow> ('p::floor_ceiling) line_width \<Rightarrow> ('p, 'f, 'g, 'b) text_system \<times> 'p line_wrapper list \<Rightarrow>
     ('p, 'f, 'g, 'b) text_system \<times> 'p line_wrapper list \<Rightarrow> bool" for platform stack lwidth where
  Take: "ts_line_wrapper platform stack lwidth font fs ts = Some (lw, ts') \<Longrightarrow> pool_step platform stack lwidth (ts, hs) (ts', lw # hs)"
| Wrap: "i < length hs \<Longrightarrow> pool_step platform stack lwidth (ts, hs) (ts, hs[i := snd (wrap_line (hs ! i) fragments W adj)])"
| Truncate: "\<lbrakk>i < length hs; truncate_line (hs ! i) line T sfx (runs :: 'f text_run list) = (result, runs', lw')\<rbrakk> \<Longrightarrow>
    pool_step platform stack lwidth (ts, hs) (ts, hs[i := lw'])"
| Drop: "wrapper_handle_drop lw ts = Some ts' \<Longrightarrow> pool_step platform stack lwidth (ts, hs @ lw # hs') (ts', hs @ hs')"
| Resolve: "resolve_font platform stack font (font_ids_by_font ts) = Some (i, ids) \<Longrightarrow>
    pool_step platform stack lwidth (ts, hs) (ts\<lparr>font_ids_by_font := ids\<rparr>, hs)"
| Other: "\<lbrakk>ts_wrapper_pool ts' = ts_wrapper_pool ts; font_ids_by_font ts' = font_ids_by_font ts\<rbrakk> \<Longrightarrow>
    pool_step platform stack lwidth (ts, hs) (ts', hs)"

definition handle_ok :: "'p line_width \<Rightarrow> ('p, 'f, 'g, 'b) text_system \<Rightarrow> 'p line_wrapper \<Rightarrow> bool" where
  "handle_ok lwidth ts lw \<longleftrightarrow>
     cache_ok lw \<and> platform_text_system lw = lwidth \<and> ts_wrapper_pool ts (lw_font_id lw, lw_font_size lw) \<noteq> None"

definition pool_inv ::
  "('f \<Rightarrow> font_id option) \<Rightarrow> 'p line_width \<Rightarrow> ('p, 'f, 'g, 'b) text_system \<times> 'p line_wrapper list \<Rightarrow> bool" where
  "pool_inv platform lwidth = (\<lambda>(ts, hs).
     pool_ok lwidth (ts_wrapper_pool ts) \<and> font_ids_ok platform (font_ids_by_font ts) \<and> (\<forall>lw \<in> set hs. handle_ok lwidth ts lw))"

lemma handle_ok_key:
  "handle_ok lwidth ts lw \<Longrightarrow> wrapper_key lw' = wrapper_key lw \<Longrightarrow> cache_ok lw' \<Longrightarrow> handle_ok lwidth ts lw'"
  by (simp add: handle_ok_def wrapper_key_def)

lemma handle_ok_pool:
  "handle_ok lwidth ts lw \<Longrightarrow> dom (ts_wrapper_pool ts) \<subseteq> dom (ts_wrapper_pool ts') \<Longrightarrow> handle_ok lwidth ts' lw"
  by (auto simp: handle_ok_def)

lemma pool_step_inv:
  assumes "pool_step platform stack lwidth s s'" and "pool_inv platform lwidth s"
  shows "pool_inv platform lwidth s'"
  using assms
proof (induction rule: pool_step.induct)
  case (Take font fs ts lw ts' hs)
  then have inv: "pool_ok lwidth (ts_wrapper_pool ts)" "font_ids_ok platform (font_ids_by_font ts)" "\<forall>lw \<in> set hs. handle_ok lwidth ts lw"
    by (auto simp: pool_inv_def)
  from Take(1) obtain i ids where "resolve_font platform stack font (font_ids_by_font ts) = Some (i, ids)"
    by (auto simp: ts_line_wrapper_def bind_eq_Some_conv)
  then have i: "first_font platform (font # stack) = Some i" using resolve_font_ok [OF inv(2), of stack font] by auto
  obtain ws where ok: "wrapper_key lw = (i, fs, lwidth)" "cache_ok lw" "pool_ok lwidth (ts_wrapper_pool ts')"
    "ts_wrapper_pool ts' (i, fs) = Some ws" "font_ids_ok platform (font_ids_by_font ts')"
    using ts_line_wrapper_ok [OF inv(1,2) i, of fs] Take(1) by (metis option.inject prod.inject)
  have "dom (ts_wrapper_pool ts) \<subseteq> dom (ts_wrapper_pool ts')"
    using Take(1) by (auto simp: ts_line_wrapper_def bind_eq_Some_conv Let_def case_prod_unfold)
  with ok inv(3) show ?case by (auto simp: pool_inv_def handle_ok_pool) (simp add: handle_ok_def wrapper_key_def)
next
  case (Wrap i hs ts fragments W adj)
  then have "handle_ok lwidth ts (hs ! i)" by (auto simp: pool_inv_def)
  then have "handle_ok lwidth ts (snd (wrap_line (hs ! i) fragments W adj))"
    by (rule handle_ok_key) (use \<open>handle_ok lwidth ts (hs ! i)\<close> wrap_line_correct(2) in \<open>auto simp: handle_ok_def\<close>)
  with Wrap show ?case by (auto simp: pool_inv_def dest: set_update_subset_insert [THEN subsetD])
next
  case (Truncate i hs line T sfx runs result runs' lw' ts)
  then have h: "handle_ok lwidth ts (hs ! i)" by (auto simp: pool_inv_def)
  then have "cache_ok (hs ! i)" by (simp add: handle_ok_def)
  from truncate_line_same [OF this Truncate(2)] have "handle_ok lwidth ts lw'" by (intro handle_ok_key [OF h]) simp_all
  with Truncate show ?case by (auto simp: pool_inv_def dest: set_update_subset_insert [THEN subsetD])
next
  case (Drop lw ts ts' hs hs')
  then have "handle_ok lwidth ts lw" "pool_ok lwidth (ts_wrapper_pool ts)" by (auto simp: pool_inv_def)
  then have "pool_ok lwidth (ts_wrapper_pool ts')" "font_ids_by_font ts' = font_ids_by_font ts"
    using wrapper_handle_drop_ok [of lwidth ts lw "lw_font_id lw" "lw_font_size lw"] Drop(1) by (auto simp: handle_ok_def wrapper_key_def)
  moreover have "dom (ts_wrapper_pool ts) \<subseteq> dom (ts_wrapper_pool ts')"
    using Drop(1) by (auto simp: wrapper_handle_drop_def split: option.splits)
  ultimately show ?case using Drop(2) handle_ok_pool [of lwidth ts _ ts'] by (auto simp: pool_inv_def)
next
  case (Resolve font ts i ids hs)
  then show ?case using resolve_font_ok [of platform "font_ids_by_font ts" stack font] by (auto simp: pool_inv_def handle_ok_def)
next
  case (Other ts' ts hs)
  then show ?case by (auto simp: pool_inv_def handle_ok_def)
qed

interpretation pool: transition_invariant "pool_inv platform lwidth" "pool_step platform stack lwidth" "pool_inv platform lwidth"
  for platform stack lwidth
  by unfold_locales (auto intro: pool_step_inv)

text \<open>
  C26. As long as no fonts are installed, wrappers of the pool are as good as new. Starting with an empty pool, after any use of any number of handles, every
  wrapper in use wraps every line like a new wrapper of its font, and dropping its handle does not panic. A handle is given out for every
  font that can be resolved, itself or by a fallback, and its wrapper has the resolved font and the size that was asked for, and wraps like a
  new one. (Installing fonts is excluded, since it does not empty the pool: see \<open>add_fonts_keeps_widths\<close>.)
\<close>

theorem pooled_wrapper:
  assumes "(pool_step platform stack lwidth)\<^sup>*\<^sup>* (ts0, []) (ts, hs)"
    and "ts_wrapper_pool ts0 = Map.empty" and "font_ids_by_font ts0 = Map.empty"
  shows "(\<forall>lw \<in> set hs. fst (wrap_line lw fragments W adj) =
        fst (wrap_line (lw_new (lw_font_id lw) (lw_font_size lw) lwidth) fragments W adj) \<and> wrapper_handle_drop lw ts \<noteq> None) \<and>
    (\<forall>font fs i. first_font platform (font # stack) = Some i \<longrightarrow>
       (\<exists>lw ts'. ts_line_wrapper platform stack lwidth font fs ts = Some (lw, ts') \<and> lw_font_id lw = i \<and> lw_font_size lw = fs \<and>
          fst (wrap_line lw fragments W adj) = fst (wrap_line (lw_new i fs lwidth) fragments W adj)))"
proof -
  have "pool_inv platform lwidth (ts0, [])" using assms(2,3) by (simp add: pool_inv_def pool_ok_def font_ids_ok_def)
  then have inv: "pool_ok lwidth (ts_wrapper_pool ts)" "font_ids_ok platform (font_ids_by_font ts)" "\<forall>lw \<in> set hs. handle_ok lwidth ts lw"
    using pool.inv_steps [OF assms(1)] by (auto simp: pool_inv_def)
  have "\<exists>lw ts'. ts_line_wrapper platform stack lwidth font fs ts = Some (lw, ts') \<and> lw_font_id lw = i \<and> lw_font_size lw = fs \<and>
      fst (wrap_line lw fragments W adj) = fst (wrap_line (lw_new i fs lwidth) fragments W adj)"
    if first: "first_font platform (font # stack) = Some i" for font fs i
  proof -
    obtain lw ts' ws where "ts_line_wrapper platform stack lwidth font fs ts = Some (lw, ts')"
      "wrapper_key lw = (i, fs, lwidth)" "cache_ok lw"
      by (rule ts_line_wrapper_ok [OF inv(1,2) first])
    with wrap_line_fresh [of lw fragments W adj] show ?thesis by (auto simp: wrapper_key_def)
  qed
  moreover have "fst (wrap_line lw fragments W adj) = fst (wrap_line (lw_new (lw_font_id lw) (lw_font_size lw) lwidth) fragments W adj) \<and>
      wrapper_handle_drop lw ts \<noteq> None" if "lw \<in> set hs" for lw
    using inv(3) that wrap_line_fresh [of lw fragments W adj] by (auto simp: handle_ok_def wrapper_handle_drop_def)
  ultimately show ?thesis by blast
qed

definition empty_system :: "(rat, nat, nat, nat) text_system" where
  "empty_system = \<lparr>ts_shared = shared (sys_new 8 4), font_ids_by_font = Map.empty, ts_wrapper_pool = Map.empty, ts_raster_bounds = [],
     raster_bounds_max_entries = Some 2\<rparr>"

text \<open>A handle of a fallback font is taken and wraps a line, and then another.\<close>

lemma pooled_wrapper_witness:
  "\<exists>lw ts. ts_line_wrapper (\<lambda>f. if f = 5 then Some 7 else None) [5] (\<lambda>line fs runs. of_nat (length line)) 0 12 empty_system = Some (lw, ts) \<and>
    map b_ix (fst (wrap_line (snd (wrap_line lw [TextFragment [97]] 2 NoIndent)) [TextFragment [97, 98, 99]] 2 NoIndent)) = [2]"
proof -
  let ?width = "\<lambda>line fs runs. of_nat (length line) :: rat" and ?platform = "\<lambda>f. if f = (5::nat) then Some 7 else None"
  have first: "first_font ?platform [0, 5] = Some 7" by (simp add: first_font_def)
  have empty: "ts_wrapper_pool empty_system = Map.empty" "font_ids_by_font empty_system = Map.empty" by (simp_all add: empty_system_def)
  obtain lw ts where lw: "ts_line_wrapper ?platform [5] ?width 0 12 empty_system = Some (lw, ts)" "lw_font_id lw = 7" "lw_font_size lw = 12"
    using pooled_wrapper [OF rtranclp.rtrancl_refl empty, THEN conjunct2, rule_format, OF first] by blast
  let ?lw = "snd (wrap_line lw [TextFragment [97]] 2 NoIndent)"
  have "pool_step ?platform [5] ?width (empty_system, []) (ts, [lw])" by (rule pool_step.Take [OF lw(1)])
  moreover have "pool_step ?platform [5] ?width (ts, [lw]) (ts, [?lw])"
    using pool_step.Wrap [of 0 "[lw]" ?platform "[5]" ?width ts "[TextFragment [97]]" 2 NoIndent] by simp
  ultimately have steps: "(pool_step ?platform [5] ?width)\<^sup>*\<^sup>* (empty_system, []) (ts, [?lw])"
    by (rule converse_rtranclp_into_rtranclp [OF _ r_into_rtranclp])
  have "fst (wrap_line ?lw [TextFragment [97, 98, 99]] 2 NoIndent) =
      fst (wrap_line (lw_new (lw_font_id ?lw) (lw_font_size ?lw) ?width) [TextFragment [97, 98, 99]] 2 NoIndent)"
    using pooled_wrapper [OF steps empty, THEN conjunct1, of "[TextFragment [97, 98, 99]]" 2 NoIndent] by simp
  moreover have "lw_font_id ?lw = 7" "lw_font_size ?lw = 12"
    using wrap_line_key [of lw "[TextFragment [97]]" 2 NoIndent] lw(2,3) by (simp_all add: wrapper_key_def)
  moreover have "map b_ix (fst (wrap_line (lw_new 7 12 ?width) [TextFragment [97, 98, 99]] 2 NoIndent)) = [2]"
    by code_simp
  ultimately have "map b_ix (fst (wrap_line ?lw [TextFragment [97, 98, 99]] 2 NoIndent)) = [2]" by (simp only:)
  with lw(1) show ?thesis by (intro exI conjI)
qed

text \<open>
  Installing fonts leaves the pool as it is, and a wrapper keeps the widths it has cached, whatever width the platform gives for the character
  afterwards (it may take the glyph from a new fallback font).
\<close>

lemma add_fonts_keeps_widths:
  assumes "add_fonts (Inr ()) ts = Inr ts'" and "ts_wrapper_pool ts k = Some ws" and "lw \<in> set ws"
    and "c < 128" and "cached_ascii_char_widths lw ! c = Some w"
  shows "ts_wrapper_pool ts' k = Some ws \<and> fst (width_for_char (lw\<lparr>platform_text_system := installed\<rparr>) c) = w"
  using assms by (auto simp: add_fonts_def width_for_char_def)

section \<open>Bounds of glyphs\<close>

definition raster_ok :: "('g \<Rightarrow> ('b, 'e) result) \<Rightarrow> ('p, 'f, 'g, 'b) text_system \<Rightarrow> bool" where
  "raster_ok glyph ts \<longleftrightarrow>
     (\<forall>(params, b) \<in> set (ts_raster_bounds ts). glyph params = Inr b) \<and>
     (case raster_bounds_max_entries ts of Some m \<Rightarrow> length (ts_raster_bounds ts) \<le> max 1 m | None \<Rightarrow> True)"

lemma alist_update_bounds:
  "set (AList.update k v es) \<subseteq> insert (k, v) (set es)" "length (AList.update k v es) \<le> length es + 1"
  by (induction es) auto

text \<open>The cached bounds of a glyph are those of the platform, and there are never more than the limit, or one.\<close>

lemma raster_bounds_ok:
  assumes "raster_ok glyph ts"
  shows "fst (raster_bounds glyph params ts) = glyph params" and "raster_ok glyph (snd (raster_bounds glyph params ts))"
proof -
  have "fst (raster_bounds glyph params ts) = glyph params \<and> raster_ok glyph (snd (raster_bounds glyph params ts))"
  proof (cases "map_of (ts_raster_bounds ts) params")
    case (Some b)
    with assms map_of_SomeD [OF Some] show ?thesis by (auto simp: raster_bounds_def raster_ok_def)
  next
    case None
    define ts1 where "ts1 = (case raster_bounds_max_entries ts of
        Some m \<Rightarrow> (if length (ts_raster_bounds ts) \<ge> m then ts\<lparr>ts_raster_bounds := []\<rparr> else ts) | None \<Rightarrow> ts)"
    have "raster_ok glyph ts1" and room: "case raster_bounds_max_entries ts1 of Some m \<Rightarrow> length (ts_raster_bounds ts1) + 1 \<le> max 1 m | None \<Rightarrow> True"
      using assms by (auto simp: ts1_def raster_ok_def split: option.splits)
    moreover have "raster_bounds glyph params ts = (case glyph params of
        Inl e \<Rightarrow> (Inl e, ts1) | Inr b \<Rightarrow> (Inr b, ts1\<lparr>ts_raster_bounds := AList.update params b (ts_raster_bounds ts1)\<rparr>))"
      using None by (simp add: raster_bounds_def Let_def flip: ts1_def)
    moreover have "raster_ok glyph (ts1\<lparr>ts_raster_bounds := AList.update params b (ts_raster_bounds ts1)\<rparr>)" if "glyph params = Inr b" for b
      using calculation(1) room that alist_update_bounds(1) [of params b "ts_raster_bounds ts1"] alist_update_bounds(2) [of params b "ts_raster_bounds ts1"]
      by (auto simp: raster_ok_def split: option.splits)
    ultimately show ?thesis by (cases "glyph params") auto
  qed
  then show "fst (raster_bounds glyph params ts) = glyph params" and "raster_ok glyph (snd (raster_bounds glyph params ts))" by auto
qed

text \<open>After fonts are installed the answers for fonts are those of the new platform, whatever was cached.\<close>

lemma add_fonts_resolves:
  "add_fonts (Inr ()) ts = Inr ts' \<Longrightarrow> map_option fst (resolve_font platform stack font (font_ids_by_font ts')) = first_font platform (font # stack)"
  using resolve_font_ok [of platform Map.empty stack font] by (auto simp: add_fonts_def font_ids_ok_def)

section \<open>Decorations\<close>

definition run_bytes :: "'f styled_run list \<Rightarrow> ('f \<times> decoration) list" where
  "run_bytes runs = concat (map (\<lambda>r. replicate (sr_len r) (sr_font r, sr_decoration r)) runs)"

definition decoration_bytes :: "decoration_run list \<Rightarrow> decoration list" where
  "decoration_bytes drs = concat (map (\<lambda>r. replicate (unat (dr_len r)) (dr_decoration r)) drs)"

definition font_bytes :: "font_run list \<Rightarrow> font_id list" where
  "font_bytes frs = concat (map (\<lambda>r. replicate (fr_len r) (fr_font_id r)) frs)"

lemma bytes_simps [simp]:
  "run_bytes [] = []" "run_bytes (r # rs) = replicate (sr_len r) (sr_font r, sr_decoration r) @ run_bytes rs"
  "decoration_bytes [] = []" "decoration_bytes (d # drs) = replicate (unat (dr_len d)) (dr_decoration d) @ decoration_bytes drs"
  "decoration_bytes (drs @ drs') = decoration_bytes drs @ decoration_bytes drs'"
  "font_bytes [] = []" "font_bytes (f # frs) = replicate (fr_len f) (fr_font_id f) @ font_bytes frs"
  "font_bytes (frs @ frs') = font_bytes frs @ font_bytes frs'"
  by (simp_all add: run_bytes_def decoration_bytes_def font_bytes_def)

lemma usize_add_eq: "usize_add a b = (if a + b \<le> usize_max then Some (a + b) else None)"
  by (auto simp: usize_add_def usize_max_def)

lemma unat_of_nat_u32: "n < 2 ^ 32 \<Longrightarrow> unat (of_nat n :: 32 word) = n"
  by (simp add: unat_of_nat)

lemma unat_u32_add: "u32_add a b = Some c \<Longrightarrow> unat c = unat a + unat b"
  by (auto simp: u32_add_def unat_word_ariths split: if_splits)

lemma push_decoration_bytes:
  assumes "push_decoration len d drs = Some (changed, drs')" and "len < 2 ^ 32"
  shows "decoration_bytes drs' = decoration_bytes drs @ replicate len d \<and> drs' \<noteq> [] \<and> dr_decoration (last drs') = d \<and>
    changed = (\<not> (drs \<noteq> [] \<and> dr_decoration (last drs) = d))"
  using assms
  by (cases drs rule: rev_cases)
    (auto simp: push_decoration_def replicate_add unat_of_nat_u32 dest!: unat_u32_add split: if_splits)

text \<open>One turn of the loop takes a part of the first run.\<close>

lemma line_runs_loop_Cons:
  assumes "a < b" and "a + sr_len run \<le> usize_max" and n: "n = min (b - a) (sr_len run)"
  shows "line_runs_loop resolve a b (run # rest) drs fonts =
    do {
      (changed, drs) \<leftarrow> push_decoration n (sr_decoration run) drs;
      fonts \<leftarrow> push_font resolve n (sr_font run) changed fonts;
      line_runs_loop resolve (a + n) b (if n = sr_len run then rest else run\<lparr>sr_len := sr_len run - n\<rparr> # rest) drs fonts
    }"
proof -
  have n': "min b (a + sr_len run) - a = n" using assms by (auto simp: min_def)
  have add: "usize_add a (sr_len run) = Some (a + sr_len run)" using assms(2) by (simp add: usize_add_eq)
  show ?thesis
    by (simp only: line_runs_loop.simps [of resolve a b "run # rest"] assms(1) if_True list.case add bind.bind_lunit Let_def n')
qed

lemma line_runs_loop_turn:
  assumes "line_runs_loop resolve a b runs drs fonts = Some r" and "a < b" and "runs = run # rest" and "0 < sr_len run"
  obtains n changed drs' fonts' runs' where "n = min (b - a) (sr_len run)" and "0 < n"
    and "push_decoration n (sr_decoration run) drs = Some (changed, drs')"
    and "push_font resolve n (sr_font run) changed fonts = Some fonts'"
    and "runs' = (if n = sr_len run then rest else run\<lparr>sr_len := sr_len run - n\<rparr> # rest)"
    and "line_runs_loop resolve (a + n) b runs' drs' fonts' = Some r"
proof -
  define n where "n = min (b - a) (sr_len run)"
  have n: "0 < n" using assms(2,4) by (simp add: n_def)
  have "a + sr_len run \<le> usize_max"
    using assms(1-3) by (simp add: line_runs_loop.simps [of resolve a b] usize_add_eq split: if_split_asm)
  note assms(1) [unfolded assms(3) line_runs_loop_Cons [OF assms(2) this n_def]]
  then obtain changed drs' fonts' where "push_decoration n (sr_decoration run) drs = Some (changed, drs')"
    "push_font resolve n (sr_font run) changed fonts = Some fonts'"
    "line_runs_loop resolve (a + n) b (if n = sr_len run then rest else run\<lparr>sr_len := sr_len run - n\<rparr> # rest) drs' fonts' = Some r"
    by (auto simp: bind_eq_Some_conv)
  with that [OF n_def n] show ?thesis by blast
qed

lemma run_bytes_take:
  assumes "n \<le> sr_len run" and "runs' = (if n = sr_len run then rest else run\<lparr>sr_len := sr_len run - n\<rparr> # rest)"
  shows "run_bytes (run # rest) = replicate n (sr_font run, sr_decoration run) @ run_bytes runs'"
  using assms by (auto simp: replicate_add [symmetric] simp flip: append_assoc)

lemma line_runs_loop_decorations:
  assumes "line_runs_loop resolve a b runs drs fonts = Some (runs', drs', fonts')" and "\<forall>r \<in> set runs. 0 < sr_len r" and "b - a < 2 ^ 32"
  shows "decoration_bytes drs' = decoration_bytes drs @ take (b - a) (map snd (run_bytes runs)) \<and>
    run_bytes runs' = drop (b - a) (run_bytes runs) \<and> (\<forall>r \<in> set runs'. 0 < sr_len r)"
  using assms
proof (induction "length runs + (if a < b then 1 else 0)" arbitrary: a runs drs fonts rule: less_induct)
  case less
  show ?case
  proof (cases "a < b \<and> runs \<noteq> []")
    case False
    with less.prems show ?thesis by (cases runs) (auto simp: line_runs_loop.simps [of resolve a b] split: if_splits)
  next
    case True
    then obtain run rest where runs: "runs = run # rest" by (cases runs) auto
    obtain n changed drs2 fonts2 runs2 where n: "n = min (b - a) (sr_len run)" "0 < n"
      and pd: "push_decoration n (sr_decoration run) drs = Some (changed, drs2)"
      and runs2: "runs2 = (if n = sr_len run then rest else run\<lparr>sr_len := sr_len run - n\<rparr> # rest)"
      and loop: "line_runs_loop resolve (a + n) b runs2 drs2 fonts2 = Some (runs', drs', fonts')"
      by (rule line_runs_loop_turn [OF less.prems(1)]) (use True runs less.prems(2) in auto)
    have pos: "\<forall>r \<in> set runs2. 0 < sr_len r" using less.prems(2) runs runs2 n by auto
    have bytes: "run_bytes runs = replicate n (sr_font run, sr_decoration run) @ run_bytes runs2"
      unfolding runs by (rule run_bytes_take [OF _ runs2]) (simp add: n)
    have small: "n < 2 ^ 32" "b - (a + n) < 2 ^ 32" using n less.prems(3) by auto
    have "length runs2 + (if a + n < b then 1 else 0) < length runs + (if a < b then 1 else (0::nat))"
      using True n runs runs2 by auto
    note IH = less.hyps [OF this loop pos small(2)]
    have "decoration_bytes drs2 = decoration_bytes drs @ replicate n (sr_decoration run)"
      using push_decoration_bytes [OF pd small(1)] by simp
    moreover have "b - a = n + (b - (a + n))" using True n by simp
    ultimately show ?thesis using IH by (simp add: bytes)
  qed
qed

lemma skip_newline_bytes:
  assumes "\<forall>r \<in> set runs. 0 < sr_len r"
  obtains runs' where "skip_newline runs = Some runs'" and "run_bytes runs' = drop 1 (run_bytes runs)" and "\<forall>r \<in> set runs'. 0 < sr_len r"
proof (cases runs)
  case Nil
  with that [of "[]"] show ?thesis by (simp add: skip_newline_def)
next
  case (Cons run rest)
  with assms obtain n where n: "sr_len run = Suc n" by (cases "sr_len run") auto
  with that [of "if n = 0 then rest else run\<lparr>sr_len := n\<rparr> # rest"] Cons assms show ?thesis
    by (auto simp: skip_newline_def usize_sub_def split: if_splits)
qed

text \<open>The bytes of each line; one byte is left out between lines.\<close>

fun line_parts :: "uchar list list \<Rightarrow> 'a list \<Rightarrow> 'a list list" where
  "line_parts [] xs = []"
| "line_parts (l # ls) xs = take (str_len l) xs # line_parts ls (drop (str_len l + 1) xs)"

lemma process_line_decorations:
  assumes "process_line shape resolve fs width m l s = Some s'" and "\<forall>r \<in> set (ss_runs s). 0 < sr_len r" and "str_len l < 2 ^ 32"
  obtains w where "ss_lines s' = ss_lines s @ [w]" and "wrl_text w = l"
    and "decoration_bytes (wrl_decoration_runs w) = take (str_len l) (map snd (run_bytes (ss_runs s)))"
    and "run_bytes (ss_runs s') = drop (str_len l + 1) (run_bytes (ss_runs s))" and "\<forall>r \<in> set (ss_runs s'). 0 < sr_len r"
proof -
  from assms(1) obtain runs drs fonts where
    loop: "line_runs_loop resolve (line_start s) (line_start s + str_len l) (ss_runs s) [] ([], None, ss_ids s) = Some (runs, drs, fonts)"
    by (auto simp: process_line_def Let_def bind_eq_Some_conv usize_add_eq split: if_split_asm)
  note bytes = line_runs_loop_decorations [OF loop assms(2), simplified, OF assms(3) [simplified]]
  then obtain runs' where skip: "skip_newline runs = Some runs'" "run_bytes runs' = drop 1 (run_bytes runs)" "\<forall>r \<in> set runs'. 0 < sr_len r"
    using skip_newline_bytes [of runs] by blast
  from assms(1) loop skip(1) obtain layout caches where "ss_runs s' = runs'"
    "ss_lines s' = ss_lines s @ [\<lparr>wrl_layout = layout, wrl_decoration_runs = drs, wrl_text = l\<rparr>]"
    by (cases fonts) (auto simp: process_line_def Let_def bind_eq_Some_conv usize_add_eq split: if_split_asm)
  with that bytes skip show ?thesis by (simp add: drop_drop)
qed

lemma process_lines_decorations:
  assumes "process_lines shape resolve fs width m ls s = Some s'" and "\<forall>r \<in> set (ss_runs s). 0 < sr_len r" and "\<forall>l \<in> set ls. str_len l < 2 ^ 32"
  shows "map wrl_text (ss_lines s') = map wrl_text (ss_lines s) @ ls \<and>
    map (\<lambda>w. decoration_bytes (wrl_decoration_runs w)) (ss_lines s') =
      map (\<lambda>w. decoration_bytes (wrl_decoration_runs w)) (ss_lines s) @ line_parts ls (map snd (run_bytes (ss_runs s)))"
  using assms
proof (induction ls arbitrary: s)
  case (Cons l ls)
  from Cons.prems(1) obtain t where t: "process_line shape resolve fs width m l s = Some t"
    "process_lines shape resolve fs width m ls t = Some s'"
    by (auto simp: bind_eq_Some_conv)
  have "str_len l < 2 ^ 32" using Cons.prems(3) by simp
  with t(1) Cons.prems(2) obtain w where "ss_lines t = ss_lines s @ [w]" "wrl_text w = l"
    "decoration_bytes (wrl_decoration_runs w) = take (str_len l) (map snd (run_bytes (ss_runs s)))"
    "run_bytes (ss_runs t) = drop (str_len l + 1) (run_bytes (ss_runs s))" "\<forall>r \<in> set (ss_runs t). 0 < sr_len r"
    by (rule process_line_decorations)
  with Cons.IH [OF t(2)] Cons.prems(3) show ?case by (simp add: drop_map)
qed simp

lemma split_lines_ne: "split_lines t \<noteq> []"
  by (induction t) (auto split: list.splits)

lemma split_lines_single: "split_lines t = [l] \<Longrightarrow> l = t"
  by (induction t arbitrary: l) (auto simp: split_lines_ne split: if_splits list.splits)

lemma shape_lines:
  "(case split_lines t of a # b # r \<Rightarrow> a # b # r | _ \<Rightarrow> [t]) = split_lines t"
  using split_lines_ne [of t] split_lines_single [of t] by (auto split: list.splits)

text \<open>Joining lines with line breaks, the inverse of splitting.\<close>

fun join_lines :: "uchar list list \<Rightarrow> uchar list" where
  "join_lines [] = []"
| "join_lines [l] = l"
| "join_lines (l # l' # ls) = l @ 10 # join_lines (l' # ls)"

lemma join_split_lines: "join_lines (split_lines t) = t \<and> (\<forall>l \<in> set (split_lines t). 10 \<notin> set l)"
proof (induction t)
  case (Cons c t)
  obtain l ls where "split_lines t = l # ls" using split_lines_ne [of t] by (cases "split_lines t") auto
  with Cons show ?case by (cases ls) auto
qed simp

lemma run_bytes_filter: "run_bytes (filter (\<lambda>r. 0 < sr_len r) runs) = run_bytes runs"
  by (induction runs) auto

lemma split_lines_len: "(\<Sum>l\<leftarrow>split_lines t. str_len l + 1) = str_len t + 1"
proof (induction t)
  case (Cons c t)
  obtain l ls where "split_lines t = l # ls" using split_lines_ne [of t] by (cases "split_lines t") auto
  moreover have "char_len_utf8 10 = 1" by (simp add: char_len_utf8.simps)
  ultimately show ?case using Cons by (auto simp: str_len_def)
qed (simp add: str_len_def)

lemma split_lines_le: "l \<in> set (split_lines t) \<Longrightarrow> str_len l \<le> str_len t"
  using member_le_sum_list [of "str_len l + 1" "map (\<lambda>l. str_len l + 1) (split_lines t)"] split_lines_len [of t] by auto

text \<open>
  C17. Shaping a text of less than \<open>2 ^ 32\<close> bytes, when it returns, gives the lines of the text in order, which joined with line breaks are the text,
  and the decoration runs of each line give every byte of the line the decoration that the runs of the text give it. (Lengths of decoration runs
  have 32 bits: a longer line would lose a part of its decoration.)
\<close>

theorem shape_text_decorations:
  assumes "shape_text shape resolve txt fs runs width line_clamp ids st = Some (ls, ids', st')"
    and "str_len txt < 2 ^ 32"
  shows "join_lines (map wrl_text ls) = txt \<and> (\<forall>l \<in> set ls. 10 \<notin> set (wrl_text l)) \<and>
    map (\<lambda>w. decoration_bytes (wrl_decoration_runs w)) ls = line_parts (map wrl_text ls) (map snd (run_bytes runs))"
proof -
  from assms(1) obtain s' where "process_lines shape resolve fs width (case line_clamp of Some n \<Rightarrow> n | None \<Rightarrow> usize_max) (split_lines txt)
      \<lparr>ss_runs = filter (\<lambda>run. sr_len run > 0) runs, ss_lines = [], line_start = 0, wrapped_lines = 0, ss_ids = ids, ss_caches = st\<rparr> = Some s'"
    and "ls = ss_lines s'"
    by (auto simp: shape_text_def Let_def shape_lines)
  moreover have "\<forall>l \<in> set (split_lines txt). str_len l < 2 ^ 32" using split_lines_le assms(2) le_less_trans by blast
  ultimately have ls: "map wrl_text ls = split_lines txt"
    "map (\<lambda>w. decoration_bytes (wrl_decoration_runs w)) ls = line_parts (split_lines txt) (map snd (run_bytes runs))"
    using process_lines_decorations [of shape resolve fs width _ "split_lines txt" _ s'] by (auto simp: run_bytes_filter)
  moreover have "wrl_text l \<in> set (split_lines txt)" if "l \<in> set ls" for l
    using that ls(1) by (metis image_eqI set_map)
  ultimately show ?thesis using join_split_lines [of "txt"] by auto
qed

lemma shape_text_decorations_witness:
  "\<exists>ls ids st. shape_text mono_shape (resolve_font Some []) [97, 10, 98] 1
      [\<lparr>sr_len = 3, sr_font = 7, sr_decoration = \<lparr>d_color = 1, d_background_color = None, d_underline = None, d_strikethrough = None\<rparr>\<rparr>]
      None (Some 5) Map.empty (shared (sys_new 8 4), llc_new (shared (sys_new 8 4))) = Some (ls, ids, st) \<and>
    join_lines (map wrl_text ls) = [97, 10, 98]"
proof -
  let ?r = "shape_text mono_shape (resolve_font Some []) [97, 10, 98] 1
      [\<lparr>sr_len = 3, sr_font = 7, sr_decoration = \<lparr>d_color = 1, d_background_color = None, d_underline = None, d_strikethrough = None\<rparr>\<rparr>]
      None (Some 5) Map.empty (shared (sys_new 8 4), llc_new (shared (sys_new 8 4)))"
  have "map_option (\<lambda>r. ()) ?r = Some ()" by code_simp
  then obtain ls ids st where r: "?r = Some (ls, ids, st)" by (cases ?r) auto
  from shape_text_decorations [OF r] r show ?thesis by (auto simp: str_len_def char_len_utf8.simps)
qed

section \<open>Fonts of a line\<close>

text \<open>Neighbouring runs of equal decoration have the same font.\<close>

definition fonts_follow :: "'f styled_run list \<Rightarrow> bool" where
  "fonts_follow runs \<longleftrightarrow> successively (\<lambda>r s. sr_decoration r = sr_decoration s \<longrightarrow> sr_font r = sr_font s) runs"

text \<open>The last font run goes with the last decoration run, and with the next run if that looks the same.\<close>

definition last_font_ok ::
  "('f \<Rightarrow> font_id option) \<Rightarrow> 'f styled_run list \<Rightarrow> decoration_run list \<Rightarrow> font_run list \<Rightarrow> font_id option \<Rightarrow> bool" where
  "last_font_ok font_of runs drs frs last_font \<longleftrightarrow>
     (drs \<noteq> [] \<longrightarrow> frs \<noteq> [] \<and> last_font = Some (fr_font_id (last frs)) \<and>
        (\<forall>run rest. runs = run # rest \<and> dr_decoration (last drs) = sr_decoration run \<longrightarrow> font_of (sr_font run) = last_font))"

context font_resolver
begin

lemma push_font_bytes:
  assumes "push_font resolve n font changed (frs, last_font, ids) = Some (frs', last_font', ids')"
    and changed: "changed = (\<not> (drs \<noteq> [] \<and> dr_decoration (last drs) = d))" and "ids_inv ids" and "drs \<noteq> [] \<and> dr_decoration (last drs) = d \<longrightarrow>
      frs \<noteq> [] \<and> last_font = Some (fr_font_id (last frs)) \<and> font_of font = last_font"
  shows "map Some (font_bytes frs') = map Some (font_bytes frs) @ replicate n (font_of font) \<and> ids_inv ids' \<and>
    frs' \<noteq> [] \<and> last_font' = Some (fr_font_id (last frs')) \<and> last_font' = font_of font"
proof (cases "drs \<noteq> [] \<and> dr_decoration (last drs) = d")
  case True
  with assms(4) have frs: "frs \<noteq> []" "last_font = Some (fr_font_id (last frs))" "font_of font = last_font" by auto
  then obtain fs f where fs: "frs = fs @ [f]" by (cases frs rule: rev_cases) auto
  with assms(1-3) True frs show ?thesis
    by (auto simp: push_font_def replicate_add usize_add_eq split: if_split_asm)
next
  case False
  with assms(1,2) obtain i where i: "resolve font ids = Some (i, ids')" "frs' = frs @ [\<lparr>fr_len = n, fr_font_id = i\<rparr>]" "last_font' = Some i"
    by (auto simp: push_font_def bind_eq_Some_conv)
  with resolve_some [OF assms(3) i(1)] show ?thesis by simp
qed

lemma loop_fonts:
  assumes "line_runs_loop resolve a b runs drs (frs, last_font, ids) = Some (runs', drs', frs', last_font', ids')"
    and "\<forall>r \<in> set runs. 0 < sr_len r" and "ids_inv ids" and "fonts_follow runs" and "last_font_ok font_of runs drs frs last_font" and "b - a < 2 ^ 32"
  shows "map Some (font_bytes frs') = map Some (font_bytes frs) @ take (b - a) (map (\<lambda>(f, d). font_of f) (run_bytes runs)) \<and> ids_inv ids'"
  using assms
proof (induction "length runs + (if a < b then 1 else 0)" arbitrary: a runs drs frs last_font ids rule: less_induct)
  case less
  show ?case
  proof (cases "a < b \<and> runs \<noteq> []")
    case False
    with less.prems show ?thesis by (cases runs) (auto simp: line_runs_loop.simps [of resolve a b] split: if_splits)
  next
    case True
    then obtain run rest where runs: "runs = run # rest" by (cases runs) auto
    obtain n changed drs2 fonts2 runs2 where n: "n = min (b - a) (sr_len run)" "0 < n"
      and pd: "push_decoration n (sr_decoration run) drs = Some (changed, drs2)"
      and pf: "push_font resolve n (sr_font run) changed (frs, last_font, ids) = Some fonts2"
      and runs2: "runs2 = (if n = sr_len run then rest else run\<lparr>sr_len := sr_len run - n\<rparr> # rest)"
      and loop: "line_runs_loop resolve (a + n) b runs2 drs2 fonts2 = Some (runs', drs', frs', last_font', ids')"
      by (rule line_runs_loop_turn [OF less.prems(1)]) (use True runs less.prems(2) in auto)
    have small: "n < 2 ^ 32" "b - (a + n) < 2 ^ 32" using n less.prems(6) by auto
    note d2 = push_decoration_bytes [OF pd small(1)]
    then have changed: "changed = (\<not> (drs \<noteq> [] \<and> dr_decoration (last drs) = sr_decoration run))" by blast
    obtain frs2 lf2 ids2 where f2: "fonts2 = (frs2, lf2, ids2)" by (cases fonts2)
    have push: "map Some (font_bytes frs2) = map Some (font_bytes frs) @ replicate n (font_of (sr_font run))" "ids_inv ids2"
      "frs2 \<noteq> []" "lf2 = Some (fr_font_id (last frs2))" "lf2 = font_of (sr_font run)"
      using push_font_bytes [OF pf [unfolded f2] changed less.prems(3)] less.prems(5) runs by (auto simp: last_font_ok_def)
    have bytes: "run_bytes runs = replicate n (sr_font run, sr_decoration run) @ run_bytes runs2"
      unfolding runs by (rule run_bytes_take [OF _ runs2]) (simp add: n)
    have pos: "\<forall>r \<in> set runs2. 0 < sr_len r" using less.prems(2) runs runs2 n by auto
    have follow: "fonts_follow runs2"
      using less.prems(4) runs runs2 by (cases rest) (auto simp: fonts_follow_def)
    have ok: "last_font_ok font_of runs2 drs2 frs2 lf2"
      using push d2 less.prems(4) runs runs2
      by (auto simp: last_font_ok_def fonts_follow_def)
    have "length runs2 + (if a + n < b then 1 else 0) < length runs + (if a < b then 1 else (0::nat))"
      using True n runs runs2 by auto
    from less.hyps [OF this loop [unfolded f2] pos push(2) follow ok small(2)] push(1) True n show ?thesis
      by (simp add: bytes take_map [symmetric] del: take_append) (simp add: map_replicate_const)
  qed
qed

end

text \<open>
  When neighbouring runs of equal decoration have the same font, the font runs of a line give every byte of the line the font
  that its run resolves to: the font that the platform has for it or for the first of the fallbacks.
\<close>

theorem line_fonts:
  assumes "line_runs_loop (resolve_font platform stack) a b runs [] ([], None, ids) = Some (runs', drs, frs, last_font, ids')"
    and "\<forall>r \<in> set runs. 0 < sr_len r" and "font_ids_ok platform ids" and "fonts_follow runs" and "b - a < 2 ^ 32"
  shows "map Some (font_bytes frs) = take (b - a) (map (\<lambda>(f, d). first_font platform (f # stack)) (run_bytes runs))"
  using font_ids.loop_fonts [OF assms(1-4) _ assms(5)] by (simp add: last_font_ok_def)

lemma line_fonts_witness:
  "\<exists>runs drs frs last_font ids. line_runs_loop (resolve_font Some []) 0 2
      [\<lparr>sr_len = 3, sr_font = (7::nat), sr_decoration = \<lparr>d_color = 1, d_background_color = None, d_underline = None, d_strikethrough = None\<rparr>\<rparr>]
      [] ([], None, Map.empty) = Some (runs, drs, frs, last_font, ids) \<and> map Some (font_bytes frs) = [Some 7, Some 7]"
proof -
  let ?runs = "[\<lparr>sr_len = 3, sr_font = 7::nat, sr_decoration = \<lparr>d_color = 1, d_background_color = None, d_underline = None, d_strikethrough = None\<rparr>\<rparr>]"
  let ?r = "line_runs_loop (resolve_font Some []) 0 2 ?runs [] ([], None, Map.empty)"
  obtain runs drs frs last_font ids where r: "?r = Some (runs, drs, frs, last_font, ids)"
    by (auto simp: line_runs_loop.simps resolve_font_def ts_font_id_def push_decoration_def push_font_def usize_add_def)
  have "fonts_follow ?runs" "font_ids_ok Some Map.empty" by (simp_all add: fonts_follow_def font_ids_ok_def)
  with line_fonts [OF r] have "map Some (font_bytes frs) = take 2 (map (\<lambda>(f, d). first_font Some [f]) (run_bytes ?runs))" by simp
  also have "\<dots> = [Some 7, Some 7]" by (simp add: first_font_def numeral_2_eq_2 numeral_3_eq_3)
  finally show ?thesis using r by (intro exI) (rule conjI)
qed

section \<open>Shaping returns\<close>

definition resolvable :: "('f \<Rightarrow> font_id option) \<Rightarrow> 'f styled_run list \<Rightarrow> bool" where
  "resolvable font_of runs \<longleftrightarrow> (\<forall>r \<in> set runs. 0 < sr_len r \<and> sr_len r + 2 ^ 32 \<le> usize_max \<and> font_of (sr_font r) \<noteq> None)"

text \<open>Decoration runs have room for \<open>n\<close> more bytes.\<close>

definition room :: "nat \<Rightarrow> decoration_run list \<Rightarrow> font_run list \<Rightarrow> bool" where
  "room n drs frs \<longleftrightarrow> length (decoration_bytes drs) + n < 2 ^ 32 \<and> length (font_bytes frs) + n < 2 ^ 32"

lemma push_decoration_returns:
  assumes "length (decoration_bytes drs) + n < 2 ^ 32"
  obtains changed drs' where "push_decoration n d drs = Some (changed, drs')"
proof (cases "drs \<noteq> [] \<and> dr_decoration (last drs) = d")
  case True
  then obtain ds r where "drs = ds @ [r]" by (cases drs rule: rev_cases) auto
  with assms have "unat (dr_len r) + n < 2 ^ 32" by simp
  then have "unat (dr_len (last drs)) + unat (of_nat n :: 32 word) < 2 ^ 32" using \<open>drs = ds @ [r]\<close> by (simp add: unat_of_nat)
  with True that [of False] show ?thesis unfolding push_decoration_def u32_add_def by simp
qed (use that in \<open>auto simp: push_decoration_def\<close>)

context font_resolver
begin

lemma push_font_returns:
  assumes "ids_inv ids" and "font_of font \<noteq> None" and "length (font_bytes frs) + n < 2 ^ 32"
  obtains frs' last_font' ids' where "push_font resolve n font changed (frs, last_font, ids) = Some (frs', last_font', ids')"
    and "ids_inv ids'" and "length (font_bytes frs') = length (font_bytes frs) + n"
proof (cases "frs \<noteq> [] \<and> Some (fr_font_id (last frs)) = last_font \<and> \<not> changed")
  case True
  then obtain fs r where fs: "frs = fs @ [r]" by (cases frs rule: rev_cases) auto
  with assms(3) have "usize_add (fr_len r) n = Some (fr_len r + n)" by (simp add: usize_add_def)
  with True that [of "fs @ [r\<lparr>fr_len := fr_len r + n\<rparr>]" last_font ids] fs assms(1) show ?thesis by (simp add: push_font_def)
next
  case False
  from assms resolve_none obtain i ids' where r: "resolve font ids = Some (i, ids')" by (cases "resolve font ids") auto
  with False resolve_some [OF assms(1) r] that [of "frs @ [\<lparr>fr_len = n, fr_font_id = i\<rparr>]" "Some i" ids'] show ?thesis
    by (auto simp: push_font_def)
qed

lemma loop_returns:
  assumes "resolvable font_of runs" and "ids_inv ids" and "b \<le> 2 ^ 32" and "room (b - a) drs frs"
  shows "\<exists>runs' drs' frs' last_font' ids'. line_runs_loop resolve a b runs drs (frs, last_font, ids) = Some (runs', drs', frs', last_font', ids') \<and>
    resolvable font_of runs' \<and> ids_inv ids'"
  using assms
proof (induction "length runs + (if a < b then 1 else 0)" arbitrary: a runs drs frs last_font ids rule: less_induct)
  case less
  show ?case
  proof (cases "a < b \<and> runs \<noteq> []")
    case False
    with less.prems show ?thesis by (cases runs) (auto simp: line_runs_loop.simps [of resolve a b])
  next
    case True
    then obtain run rest where runs: "runs = run # rest" by (cases runs) auto
    define n where "n = min (b - a) (sr_len run)"
    define runs2 where "runs2 = (if n = sr_len run then rest else run\<lparr>sr_len := sr_len run - n\<rparr> # rest)"
    have run: "0 < sr_len run" "sr_len run + 2 ^ 32 \<le> usize_max" "font_of (sr_font run) \<noteq> None" using less.prems(1) runs by (auto simp: resolvable_def)
    have n: "0 < n" "n \<le> b - a" using True run(1) by (auto simp: n_def)
    have room: "length (decoration_bytes drs) + n < 2 ^ 32" "length (font_bytes frs) + n < 2 ^ 32" "n < 2 ^ 32"
      using less.prems(4) n(2) by (auto simp: room_def)
    obtain changed drs2 where d: "push_decoration n (sr_decoration run) drs = Some (changed, drs2)"
      by (rule push_decoration_returns [OF room(1)])
    obtain frs2 lf2 ids2 where p: "push_font resolve n (sr_font run) changed (frs, last_font, ids) = Some (frs2, lf2, ids2)" "ids_inv ids2"
      "length (font_bytes frs2) = length (font_bytes frs) + n"
      by (rule push_font_returns [OF less.prems(2) run(3) room(2)])
    have "a + sr_len run \<le> usize_max" using True less.prems(3) run(2) by simp
    then have "line_runs_loop resolve a b runs drs (frs, last_font, ids) = line_runs_loop resolve (a + n) b runs2 drs2 (frs2, lf2, ids2)"
      using True d p(1) by (simp add: runs line_runs_loop_Cons [OF _ _ n_def] runs2_def cong: if_cong)
    moreover have "resolvable font_of runs2" using less.prems(1) runs n(2) by (auto simp: resolvable_def runs2_def n_def)
    moreover have "length runs2 + (if a + n < b then 1 else 0) < length runs + (if a < b then 1 else (0::nat))"
      using True runs n by (auto simp: runs2_def n_def)
    moreover have "room (b - (a + n)) drs2 frs2"
    proof -
      have "b - a = n + (b - (a + n))" using n(2) by simp
      with less.prems(4) p(3) push_decoration_bytes [OF d room(3)] show ?thesis by (simp add: room_def)
    qed
    ultimately show ?thesis using less.hyps [of runs2 "a + n" ids2 drs2 frs2 lf2] p(2) less.prems(3) by simp
  qed
qed

end

text \<open>Without a width no line is wrapped, whatever limit of rows is asked for.\<close>

lemma fresh_unwrapped:
  "fresh_wrapped shape g (wrapped_key line fs frs None) ml =
     Some \<lparr>unwrapped_layout = shape_line shape g (line_key line fs frs None None), wrap_boundaries = [], wrap_width = None\<rparr>"
  by (simp add: fresh_wrapped_def wrapped_key_def Let_def)

lemma window_ok_limit:
  "window_ok shape (limit(wrapped_key line fs frs None := ml)) sh c = window_ok shape limit sh c"
proof -
  have "fresh_wrapped shape g key ((limit(wrapped_key line fs frs None := ml)) key) = fresh_wrapped shape g key (limit key)" for g key
    by (cases "key = wrapped_key line fs frs None") (simp_all add: fresh_unwrapped)
  then show ?thesis by (simp only: window_ok_def frame_ok_def global_ok_def)
qed

lemma layout_unwrapped:
  assumes "window_ok shape limit sh c"
  obtains l sh' c' where "layout_wrapped_line shape line fs frs None ml (sh, c) = Some (l, sh', c')"
    and "wrap_boundaries l = []" and "unwrapped_layout l = shape_line shape (font_generation sh) (line_key line fs frs None None)"
    and "window_ok shape limit sh' c'" and "font_generation sh' = font_generation sh"
proof -
  let ?limit = "limit(wrapped_key line fs frs None := ml)"
  have ok: "window_ok shape ?limit sh c" using assms by (simp add: window_ok_limit)
  from layout_wrapped_current(1) [OF ok, of line fs frs None] obtain l sh' c' where
    r: "layout_wrapped_line shape line fs frs None ml (sh, c) = Some (l, sh', c')"
    and l: "wrap_boundaries l = []" "unwrapped_layout l = shape_line shape (font_generation sh) (line_key line fs frs None None)"
    by (auto simp: fresh_unwrapped)
  have "current_ok shape ?limit (font_generation sh) (sh', c')"
    using layout_wrapped_current(2) [OF ok, of line fs frs None] r by simp
  with that r l current_window [OF this] show ?thesis by (simp add: window_ok_limit current_ok_def)
qed

lemma skip_newline_returns:
  assumes "resolvable font_of runs"
  obtains runs' where "skip_newline runs = Some runs'" and "resolvable font_of runs'"
  using assms that by (cases runs) (auto simp: skip_newline_def usize_sub_def resolvable_def)

context font_resolver
begin

lemma process_lines_return:
  assumes "resolvable font_of (ss_runs s)" and "ids_inv (ss_ids s)" and "window_ok shape limit (fst (ss_caches s)) (snd (ss_caches s))"
    and "wrapped_lines s = 0" and "line_start s + (\<Sum>l\<leftarrow>ls. str_len l + 1) \<le> 2 ^ 32"
  shows "\<exists>s'. process_lines shape resolve fs None m ls s = Some s' \<and>
    map (\<lambda>w. (wrl_text w, wrap_boundaries (wrl_layout w))) (ss_lines s') = map (\<lambda>w. (wrl_text w, wrap_boundaries (wrl_layout w))) (ss_lines s) @ map (\<lambda>l. (l, [])) ls \<and>
    ids_inv (ss_ids s') \<and> window_ok shape limit (fst (ss_caches s')) (snd (ss_caches s'))"
  using assms
proof (induction ls arbitrary: s)
  case (Cons line ls)
  obtain runs drs frs last_font ids where
    loop: "line_runs_loop resolve (line_start s) (line_start s + str_len line) (ss_runs s) [] ([], None, ss_ids s) = Some (runs, drs, frs, last_font, ids)"
    "resolvable font_of runs" "ids_inv ids"
    using loop_returns [OF Cons.prems(1,2), of "line_start s + str_len line" "line_start s" "[]" "[]" None] Cons.prems(5)
    by (auto simp: room_def)
  obtain l sh c where l: "layout_wrapped_line shape line fs frs None (Some m) (fst (ss_caches s), snd (ss_caches s)) = Some (l, sh, c)"
    "wrap_boundaries l = []" "window_ok shape limit sh c"
    by (rule layout_unwrapped [OF Cons.prems(3)])
  obtain runs' where runs': "skip_newline runs = Some runs'" "resolvable font_of runs'" by (rule skip_newline_returns [OF loop(2)])
  define s1 where "s1 = \<lparr>ss_runs = runs', ss_lines = ss_lines s @ [\<lparr>wrl_layout = l, wrl_decoration_runs = drs, wrl_text = line\<rparr>],
    line_start = line_start s + str_len line + 1, wrapped_lines = 0, ss_ids = ids, ss_caches = (sh, c)\<rparr>"
  have "process_line shape resolve fs None m line s = Some s1"
    using loop(1) l(1,2) runs'(1) Cons.prems(4) Cons.prems(5) by (simp add: process_line_def s1_def usize_sub_def usize_add_def Let_def)
  with Cons.IH [of s1] runs' loop(3) l(2,3) Cons.prems(5) show ?case by (auto simp: s1_def)
qed simp

end

text \<open>
  C18. Text of less than \<open>2 ^ 32\<close> bytes that is not wrapped is shaped without a panic: when every run has a font that the platform has or has a
  fallback for, no run is within \<open>2 ^ 32\<close> bytes of the greatest \<open>usize\<close>, and the caches are right, shaping returns one row for each line of the
  text, with any limit of rows, and leaves the caches right. The runs may be shorter or longer than the text.
\<close>

theorem shape_text_returns:
  assumes "window_ok shape limit (fst st) (snd st)" and "font_ids_ok platform ids"
    and "\<forall>r \<in> set runs. sr_len r + 2 ^ 32 \<le> usize_max \<and> first_font platform (sr_font r # stack) \<noteq> None" and "str_len txt < 2 ^ 32"
  shows "\<exists>ls ids' st'. shape_text shape (resolve_font platform stack) txt fs runs None line_clamp ids st = Some (ls, ids', st') \<and>
    map (\<lambda>l. (wrl_text l, wrap_boundaries (wrl_layout l))) ls = map (\<lambda>l. (l, [])) (split_lines txt) \<and>
    font_ids_ok platform ids' \<and> window_ok shape limit (fst st') (snd st')"
proof -
  let ?s = "\<lparr>ss_runs = filter (\<lambda>run. sr_len run > 0) runs, ss_lines = [], line_start = 0, wrapped_lines = 0, ss_ids = ids, ss_caches = st\<rparr>"
  have "resolvable (\<lambda>font. first_font platform (font # stack)) (ss_runs ?s)" using assms(3) by (auto simp: resolvable_def)
  from font_ids.process_lines_return [OF this, of shape limit "split_lines txt" fs "case line_clamp of Some n \<Rightarrow> n | None \<Rightarrow> usize_max"] assms(1,2,4)
    split_lines_len [of "txt"]
  obtain s' where "process_lines shape (resolve_font platform stack) fs None (case line_clamp of Some n \<Rightarrow> n | None \<Rightarrow> usize_max) (split_lines txt) ?s = Some s'"
    and "map (\<lambda>w. (wrl_text w, wrap_boundaries (wrl_layout w))) (ss_lines s') = map (\<lambda>l. (l, [])) (split_lines txt)"
    and "font_ids_ok platform (ss_ids s')" "window_ok shape limit (fst (ss_caches s')) (snd (ss_caches s'))"
    by auto
  then show ?thesis by (auto simp: shape_text_def shape_lines Let_def)
qed

lemma shape_text_returns_witness:
  "\<exists>ls ids st. shape_text mono_shape (resolve_font (\<lambda>f. if f = 5 then Some 7 else None) [5::nat]) [97, 10, 98] 1
      [\<lparr>sr_len = 2, sr_font = 0, sr_decoration = \<lparr>d_color = 1, d_background_color = None, d_underline = None, d_strikethrough = None\<rparr>\<rparr>]
      None (Some 0) Map.empty (shared (sys_new 8 4), llc_new (shared (sys_new 8 4))) = Some (ls, ids, st) \<and>
    map (\<lambda>l. (wrl_text l, wrap_boundaries (wrl_layout l))) ls = [([97], []), ([98], [])]"
proof -
  let ?st = "(shared (sys_new 8 4) :: rat text_shared, llc_new (shared (sys_new 8 4)))"
  have "window_ok mono_shape (\<lambda>_. None) (fst ?st) (snd ?st)"
    by (simp add: window_ok_def llc_new_def sys_new_def global_ok_def gc_new_def)
  from shape_text_returns [OF this, of "\<lambda>f. if f = (5::nat) then Some 7 else None" Map.empty
      "[\<lparr>sr_len = 2, sr_font = 0, sr_decoration = \<lparr>d_color = 1, d_background_color = None, d_underline = None, d_strikethrough = None\<rparr>\<rparr>]"
      "[5]" "[97, 10, 98]" 1 "Some 0"]
  obtain ls ids st where "shape_text mono_shape (resolve_font (\<lambda>f. if f = 5 then Some 7 else None) [5::nat]) [97, 10, 98] 1
      [\<lparr>sr_len = 2, sr_font = 0, sr_decoration = \<lparr>d_color = 1, d_background_color = None, d_underline = None, d_strikethrough = None\<rparr>\<rparr>]
      None (Some 0) Map.empty ?st = Some (ls, ids, st)"
    and "map (\<lambda>l. (wrl_text l, wrap_boundaries (wrl_layout l))) ls = map (\<lambda>l. (l, [])) (split_lines [97, 10, 98])"
    by (auto simp: font_ids_ok_def first_font_def usize_max_def str_len_def char_len_utf8.simps simp del: split_lines.simps)
  then show ?thesis by auto
qed

section \<open>Where shaping goes wrong\<close>

text \<open>
  C19. Neighbouring runs of equal decoration lose their fonts: the second run of a line is laid out in the font of the first, because the
  font of the run is compared with nothing. The same holds for the font runs of a single line. (The two runs have together less than \<open>2 ^ 32\<close>
  bytes, which is the length a decoration run can have.)
\<close>

theorem equal_decoration_loses_font:
  assumes "first_font platform (sr_font r # stack) = Some i" and "0 < sr_len r" and "0 < sr_len r'"
    and "sr_decoration r = sr_decoration r'" and "font_ids_ok platform ids" and "sr_len r + sr_len r' < 2 ^ 32"
  shows "(\<exists>ids' drs. line_runs_loop (resolve_font platform stack) 0 (sr_len r + sr_len r') [r, r'] [] ([], None, ids) =
      Some ([], drs, [\<lparr>fr_len = sr_len r + sr_len r', fr_font_id = i\<rparr>], Some i, ids')) \<and>
    (\<exists>ids'. line_font_runs (resolve_font platform stack) None ([], None, ids) [r, r'] =
      Some ([\<lparr>fr_len = sr_len r + sr_len r', fr_font_id = i\<rparr>], ids'))"
proof -
  from resolve_font_ok [OF assms(5), of stack "sr_font r"] assms(1) obtain ids' where
    "resolve_font platform stack (sr_font r) ids = Some (i, ids')"
    by auto
  moreover have "sr_len r + sr_len r' \<le> usize_max" using assms(6) by (simp add: usize_max_def)
  moreover have "unat (of_nat (sr_len r) :: 32 word) = sr_len r" "unat (of_nat (sr_len r') :: 32 word) = sr_len r'"
    using assms(6) by (simp_all add: unat_of_nat)
  ultimately show ?thesis
    using assms(2-4,6)
    by (auto simp: line_runs_loop_Cons [OF _ _ refl] line_runs_loop.simps [of _ _ _ "[]"] push_decoration_def push_font_def
        same_line_decoration_def usize_add_eq u32_add_def Let_def)
qed

lemma equal_decoration_loses_font_witness:
  "\<exists>ids drs. line_runs_loop (resolve_font Some []) 0 5
      [\<lparr>sr_len = 2, sr_font = 7, sr_decoration = \<lparr>d_color = 1, d_background_color = None, d_underline = None, d_strikethrough = None\<rparr>\<rparr>,
       \<lparr>sr_len = 3, sr_font = 8, sr_decoration = \<lparr>d_color = 1, d_background_color = None, d_underline = None, d_strikethrough = None\<rparr>\<rparr>]
      [] ([], None, Map.empty) = Some ([], drs, [\<lparr>fr_len = 5, fr_font_id = 7\<rparr>], Some 7, ids)"
  using equal_decoration_loses_font [of Some
      "\<lparr>sr_len = 2, sr_font = 7, sr_decoration = \<lparr>d_color = 1, d_background_color = None, d_underline = None, d_strikethrough = None\<rparr>\<rparr>"
      "[]" 7 "\<lparr>sr_len = 3, sr_font = 8, sr_decoration = \<lparr>d_color = 1, d_background_color = None, d_underline = None, d_strikethrough = None\<rparr>\<rparr>"
      Map.empty]
  by (auto simp: first_font_def font_ids_ok_def simp del: line_font_runs.simps)

text \<open>
  Four equal lines, at a width at which each wraps, with a limit of two rows: from the second line on the layout comes from the cache, with the
  row break that was allowed to the first. The count of breaks exceeds the limit, and the number of rows left for the fourth
  line underflows, which panics.
\<close>

theorem shape_text_underflow:
  "shape_text mono_shape (resolve_font Some []) [97, 32, 98, 10, 97, 32, 98, 10, 97, 32, 98, 10, 97, 32, 98] 1
     [\<lparr>sr_len = 15, sr_font = 7, sr_decoration = \<lparr>d_color = 1, d_background_color = None, d_underline = None, d_strikethrough = None\<rparr>\<rparr>]
     (Some 1) (Some 2) Map.empty (shared (sys_new 8 4), llc_new (shared (sys_new 8 4))) = None"
  by code_simp

end
