(* ===== verification/Spec2Isabelle.thy ===== *)
theory Spec2Isabelle
  imports Dispatch_Tree Tree_Map Tab_Stop Scene_Paint App_Effects Shape_Text
begin

text \<open>
  A verification development of fc-gpui, a user interface framework in Rust. It models those parts
  of the framework whose behaviour is decided by their own data structures and
  algorithms: how a keystroke finds its action, how an ordered collection is kept in a B+ tree, how the
  tab order is found, in which order a frame is drawn, how text is broken into rows and its layouts are cached, how entities live
  and die, and how changes are told to those who observe them.

  \<^bold>\<open>The parts and how they interact.\<close> A window draws frames. While a frame is built, elements push nodes
  into the dispatch tree (\<open>crates/gpui/src/key_dispatch.rs\<close>), register focus handles in the tab order
  (\<open>tab_stop.rs\<close>) and paint primitives into the scene (\<open>scene.rs\<close>), which asks the bounds tree
  (\<open>bounds_tree.rs\<close>) for the order of each. A cached part of the interface is not built again: its range of the
  last frame is replayed into all three. The text of an element is shaped by the text system of the window (\<open>text_system.rs\<close>), which divides it
  into lines with runs of fonts, asks the platform for the glyphs of each, breaks long lines into rows (\<open>text_system/line_layout.rs\<close>,
  \<open>text_system/line_wrapper.rs\<close>) and keeps the layouts in caches of the frame and of all windows. A keystroke is matched against the key bindings of the keymap
  (\<open>keymap.rs\<close>, \<open>keymap/binding.rs\<close>) under the key contexts (\<open>keymap/context.rs\<close>) on the path from the root to the
  focused node. The tab order and the maps of the program are trees of \<open>crates/sum_tree\<close>. The state behind the interface is in entities, which the
  application owns (\<open>app/entity_map.rs\<close>) and to which the program has counted handles. When an entity changes, the
  application (\<open>app.rs\<close>) invalidates the windows that accessed it and has its observers called, which are in subscriber sets
  (\<open>subscription.rs\<close>) and may change these sets while they run.

  \<^bold>\<open>Theories.\<close> Each theory models the file it names, with one definition for each function, under the name of
  the function where that is free (a prefix tells the types of a file apart).

  \<^item> \<open>Prelude\<close>: results, the Rust text functions in use, lists with lookup by index.
  \<^item> \<open>Keystroke\<close> (\<open>platform/keystroke.rs\<close>): modifiers as a Boolean algebra, parsing and printing keystrokes,
    matching a typed keystroke. What is printed is parsed back.
  \<^item> \<open>Key_Context\<close>, \<open>Predicate_Parser\<close> (\<open>keymap/context.rs\<close>): key contexts, the predicates on stacks of contexts, their
    evaluation, the superset test, the parser and the printer. The parser ends and inverts the printer where
    that is unambiguous; the cases where it is not, and the inputs on which \<open>KeyContext::parse\<close> does not return, are
    characterised.
  \<^item> \<open>Keymap\<close> (\<open>keymap.rs\<close>, \<open>keymap/binding.rs\<close>): which bindings an input resolves to, in which precedence, when more
    input is awaited, which bindings belong to an action, and the lookahead.
  \<^item> \<open>Key_Dispatch\<close>, \<open>Dispatch_Tree\<close> (\<open>key_dispatch.rs\<close>): the dispatch tree; the split of pending input into segments
    that are replayed; the invariant of the tree for every sequence of operations; reuse of a subtree of the last frame.
  \<^item> \<open>Sum_Tree\<close>, \<open>Cursor\<close>, \<open>Cursor_Seek\<close>, \<open>Cursor_Step\<close>, \<open>Cursor_Back\<close>, \<open>Iterators\<close>, \<open>Keyed_Tree\<close> (\<open>sum_tree.rs\<close>,
    \<open>cursor.rs\<close>): the B+ tree with summaries acts like the list of its items; a cursor is a position in that list;
    seeking, slicing, stepping and filtering agree with the list functions. The traits are records of functions, their laws the
    locales \<open>summary_laws\<close>, \<open>dimension_laws\<close>, \<open>aggregate_laws\<close> and \<open>keyed_laws\<close>, interpreted on the instances of the code.
  \<^item> \<open>Tree_Map\<close> (\<open>tree_map.rs\<close>): the ordered map refines the map from keys to values.
  \<^item> \<open>Tab_Stop\<close> (\<open>tab_stop.rs\<close>): the tab order; next and previous go around all tab stops; the history rebuilds the map.
  \<^item> \<open>Geometry\<close> (\<open>geometry.rs\<close>): points, sizes, edges, corners and bounds as regions.
  \<^item> \<open>Bounds_Tree\<close>, \<open>Bounds_Insert\<close> (\<open>bounds_tree.rs\<close>): an R-tree in an arena of nodes; its pruned search agrees with a
    search through all bounds, and insertion keeps the invariant.
  \<^item> \<open>Scene\<close>, \<open>Scene_Paint\<close> (\<open>scene.rs\<close>): painting, layers, replay, sorting and batching; what is painted later over
    something is drawn later.
  \<^item> \<open>Line_Wrapper\<close> (\<open>text_system/line_wrapper.rs\<close>): breaking a line of characters and elements into rows, with indents, and truncating a line. The
    rows fit the width under conditions that are stated, no row breaks early, and the caches of widths do not show.
  \<^item> \<open>Line_Layout\<close>, \<open>Wrapped_Line\<close> (\<open>text_system/line_layout.rs\<close>): shaped lines as glyphs with positions: from positions to indices and back, splitting, wrapping, forced widths
    and letter spacing. Rows are bounded; the position of the index of a glyph leads back to the index where glyphs stand strictly from left to right.
  \<^item> \<open>Layout_Cache\<close>, \<open>Text_Caches\<close> (\<open>text_system/line_layout.rs\<close>): the caches of layouts of the frames of a window and of the application, eviction, and
    installing fonts, as sequences of operations of windows. What is served is what would be computed, but for two cases that are shown. An operation of
    a window is the locale \<open>window_operation\<close>.
  \<^item> \<open>Shape_Text\<close> (\<open>text_system.rs\<close>): resolving fonts (locale \<open>font_resolver\<close>), the pool of wrappers as a step relation, bounds of glyphs, and shaping text of several lines with its runs.
  \<^item> \<open>Subscription\<close> (\<open>subscription.rs\<close>): subscriber sets with callbacks that act on the set while it calls them. Which
    callbacks run and which remain; dropped subscriptions are not called again, except in two cases that are shown. The field of
    a program that holds a set and callbacks that act on it are the locales \<open>subscriber_field\<close> and \<open>subscriber_calls\<close>.
  \<^item> \<open>Entity_Map\<close>, \<open>Entity_Life\<close> (\<open>app/entity_map.rs\<close>): entities with reference counts as a step relation. Counts are
    right, nothing panics on live handles, entities are released once and without handles, weak handles revive nothing,
    types agree, and a leased entity is in one place.
  \<^item> \<open>App_Effects\<close> (\<open>app.rs\<close>, \<open>WindowInvalidator\<close> of \<open>window.rs\<close>): pending effects, notifications, tracking of the entities that
    windows access, observers, globals, and the release of dropped entities, which ends.

  \<^bold>\<open>Conventions.\<close> A panic is \<open>None\<close>, and so is a loop that does not end (\<open>partial_function (option)\<close>); the theorems
  say that the operations return. A \<open>Result\<close> is a sum with the error on the left. The \<open>cfg\<close> of the
  operating system is an argument. Closures that the code only stores (listeners) are numbers; those that it calls
  are functions on the state, given as arguments, with what is asked of them as hypotheses. Shared cells and
  invalidators are in stores.
  Functions of the standard library that leave a choice (\<open>sort_unstable_by_key\<close>) are arguments with their
  documented law as a hypothesis.

  \<^bold>\<open>Bounds.\<close> \<open>usize\<close> is \<open>nat\<close>. The stack of a cursor has 16 entries, so the
  theorems on cursors ask for a tree of height below 16 (\<open>st_height t < STACK_CAPACITY\<close>). Orders of the bounds tree are \<open>u32\<close>: an overflow is \<open>None\<close>, and the order of the
  \<open>j\<close>th bounds is at most \<open>j + 1\<close>, so fewer than \<open>2 ^ 32\<close> bounds never overflow. The batch iterator uses \<open>u32::MAX\<close>
  for an empty vector and is shown correct for smaller orders. The predicate parser has fuel, and
  \<open>parse_fuel\<close> is shown to be enough for every source. Indents of wrapped rows are \<open>u32\<close> words with saturating addition. In the shaping of
  text, where callers choose the lengths of runs, sums of \<open>usize\<close> and \<open>u32\<close> that overflow and differences that underflow are \<open>None\<close>, the panic of a checked build,
  and \<open>as u32\<close> cuts. The counter of accesses of the layout cache is taken not to overflow.

  \<^bold>\<open>Exactness.\<close> Characters of keystrokes and contexts are the code points U+0000 to U+00FF; those of shaped text are all code points, with their lengths
  in UTF-8. The units of the geometry are an ordered Abelian group, and widths of text are an ordered field: floating-point rounding, infinities and \<open>NaN\<close> are outside the model.

  \<^bold>\<open>Not modelled.\<close> Windows with their drawing, the loop over all effects (it updates and draws windows), elements and styles: they
  call layout, text shaping and rendering libraries. Of the text system the shaping of the platform (an argument), the metrics of fonts, reports of missing glyphs, the
  painting of lines, and the pool of vectors for font runs, which only saves allocations. Destructors of callbacks. The keys of the slot map are arguments, asked only to be new. The platform
  back ends: system calls and bindings. Units, colours, transformations and path building: floating-point arithmetic.
\<close>

end
